(* ===== verification/GoStrings.thy ===== *)
theory GoStrings
  imports Main "HOL-Library.Sublist"
begin

text \<open>
  The part of Go's \<^verbatim>\<open>strings\<close>, \<^verbatim>\<open>unicode\<close> and \<^verbatim>\<open>path/filepath\<close> packages that the program
  uses, on byte strings (\<open>char list\<close>, one \<open>char\<close> per byte, as a Go \<^verbatim>\<open>string\<close> is), with the
  lemmas every component shares. Go's index \<open>-1\<close> ("not found") is \<open>None\<close>.
  Slices \<open>s[i:]\<close> and \<open>s[:i]\<close> are \<open>drop i s\<close> and \<open>take i s\<close>; they are used only where
  \<open>i \<le> length s\<close>, as Go panics otherwise.
\<close>

named_theorems go_simps \<open>unfolding rules for the Go library model\<close>

section \<open>Searching\<close>

text \<open>\<open>strings.HasPrefix(s, p)\<close> is \<open>prefix p s\<close>, \<open>strings.HasSuffix(s, p)\<close> is \<open>suffix p s\<close>.\<close>

fun go_index :: "'a list \<Rightarrow> 'a list \<Rightarrow> nat option" where
  "go_index [] t = (if t = [] then Some 0 else None)"
| "go_index (c # s) t = (if prefix t (c # s) then Some 0 else map_option Suc (go_index s t))"

definition go_contains :: "'a list \<Rightarrow> 'a list \<Rightarrow> bool" where
  "go_contains s t \<longleftrightarrow> go_index s t \<noteq> None"

fun go_last_index :: "'a list \<Rightarrow> 'a list \<Rightarrow> nat option" where
  "go_last_index [] t = (if t = [] then Some 0 else None)"
| "go_last_index (c # s) t =
     (case go_last_index s t of
        Some i \<Rightarrow> Some (Suc i)
      | None \<Rightarrow> (if prefix t (c # s) then Some 0 else None))"

text \<open>
  \<open>strings.SplitN(s, sep, 2)\<close> for a non-empty \<open>sep\<close>: \<open>None\<close> when there is one piece only,
  and the two pieces otherwise (\<open>strings.Cut\<close> gives the same two).
\<close>

definition go_cut :: "'a list \<Rightarrow> 'a list \<Rightarrow> ('a list \<times> 'a list) option" where
  "go_cut s sep =
     (case go_index s sep of
        None \<Rightarrow> None
      | Some i \<Rightarrow> Some (take i s, drop (i + length sep) s))"

lemma go_index_Some:
  "go_index s t = Some i \<Longrightarrow>
     i + length t \<le> length s \<and> take (length t) (drop i s) = t \<and> (\<forall>j<i. \<not> prefix t (drop j s))"
proof (induction s arbitrary: i)
  case Nil
  then show ?case by (auto split: if_splits)
next
  case (Cons c s)
  show ?case
  proof (cases "prefix t (c # s)")
    case True
    with Cons.prems have "i = 0" by simp
    then show ?thesis
      using True by (auto simp: prefix_length_le dest: prefix_length_le) (auto simp: prefix_def)
  next
    case False
    with Cons.prems obtain k where k: "go_index s t = Some k" "i = Suc k" by auto
    from Cons.IH[OF k(1)] have ih: "k + length t \<le> length s" "take (length t) (drop k s) = t"
      "\<forall>j<k. \<not> prefix t (drop j s)" by blast+
    have "\<not> prefix t (drop j (c # s))" if "j < i" for j
      using that False ih(3) k(2) by (cases j) auto
    then show ?thesis using ih k(2) by auto
  qed
qed

lemma go_index_None: "go_index s t = None \<longleftrightarrow> (\<forall>j\<le>length s. \<not> prefix t (drop j s))"
proof (induction s)
  case Nil
  then show ?case by auto
next
  case (Cons c s)
  have "(\<forall>j\<le>length (c # s). \<not> prefix t (drop j (c # s)))
      \<longleftrightarrow> \<not> prefix t (c # s) \<and> (\<forall>j\<le>length s. \<not> prefix t (drop j s))"
    by (metis One_nat_def drop0 drop_Suc_Cons le_0_eq length_Cons not0_implies_Suc
        not_less_eq_eq nat_le_linear)
  then show ?case using Cons.IH by auto
qed

lemma go_index_eqI:
  assumes "prefix t (drop i s)" "i \<le> length s" "\<And>j. j < i \<Longrightarrow> \<not> prefix t (drop j s)"
  shows "go_index s t = Some i"
proof (cases "go_index s t")
  case None
  then show ?thesis using assms(1,2) by (simp add: go_index_None)
next
  case (Some k)
  note k = go_index_Some[OF Some]
  have pk: "prefix t (drop k s)"
    using k by (metis take_is_prefix)
  have "k = i"
    using k pk assms by (metis linorder_neqE_nat)
  then show ?thesis using Some by simp
qed

lemma go_index_prefix: "go_index s t = Some i \<Longrightarrow> prefix t (drop i s)"
  by (metis go_index_Some take_is_prefix)

lemma go_index_split:
  "go_index s t = Some i \<Longrightarrow> s = take i s @ t @ drop (i + length t) s"
  by (metis add.commute append_take_drop_id drop_drop go_index_Some)

lemma go_index_bound: "go_index s t = Some i \<Longrightarrow> i + length t \<le> length s"
  using go_index_Some by blast

text \<open>A string that contains \<open>t\<close> somewhere contains it first at some index.\<close>

lemma go_contains_iff: "go_contains s t \<longleftrightarrow> (\<exists>a b. s = a @ t @ b)"
proof
  assume "go_contains s t"
  then show "\<exists>a b. s = a @ t @ b"
    unfolding go_contains_def using go_index_split by blast
next
  assume "\<exists>a b. s = a @ t @ b"
  then obtain a b where s: "s = a @ t @ b" by blast
  then have "prefix t (drop (length a) s)" "length a \<le> length s" by auto
  then show "go_contains s t" unfolding go_contains_def go_index_None by blast
qed

lemma go_contains_mid [simp]: "go_contains (a @ t @ b) t"
  by (auto simp: go_contains_iff)

lemma go_contains_sublist: "go_contains s t \<longleftrightarrow> sublist t s"
  unfolding go_contains_iff sublist_def by blast

text \<open>The last occurrence.\<close>

lemma go_last_index_None: "go_last_index s t = None \<longleftrightarrow> (\<forall>j\<le>length s. \<not> prefix t (drop j s))"
proof (induction s)
  case Nil
  then show ?case by auto
next
  case (Cons c s)
  have "(\<forall>j\<le>length (c # s). \<not> prefix t (drop j (c # s)))
      \<longleftrightarrow> \<not> prefix t (c # s) \<and> (\<forall>j\<le>length s. \<not> prefix t (drop j s))"
    by (metis drop0 drop_Suc_Cons le_0_eq length_Cons not0_implies_Suc not_less_eq_eq nat_le_linear)
  then show ?case using Cons.IH by (auto split: option.splits)
qed

lemma go_last_index_Some:
  "go_last_index s t = Some i \<Longrightarrow>
     i \<le> length s \<and> prefix t (drop i s) \<and> (\<forall>j. i < j \<longrightarrow> j \<le> length s \<longrightarrow> \<not> prefix t (drop j s))"
proof (induction s arbitrary: i)
  case Nil
  then show ?case by (auto split: if_splits)
next
  case (Cons c s)
  show ?case
  proof (cases "go_last_index s t")
    case None
    with Cons.prems have "i = 0" "prefix t (c # s)" by (auto split: if_splits)
    moreover have "\<not> prefix t (drop j (c # s))" if "0 < j" "j \<le> length (c # s)" for j
      using None that by (cases j) (auto simp: go_last_index_None)
    ultimately show ?thesis by simp
  next
    case (Some k)
    with Cons.prems have i: "i = Suc k" by simp
    note ih = Cons.IH[OF Some]
    have "\<not> prefix t (drop j (c # s))" if "i < j" "j \<le> length (c # s)" for j
      using ih i that by (cases j) auto
    then show ?thesis using ih i by auto
  qed
qed

text \<open>Searching for a single byte.\<close>

lemma go_last_index_char_None: "go_last_index s [c] = None \<longleftrightarrow> c \<notin> set s"
  by (induction s) (auto split: option.splits)

lemma go_last_index_char: "c \<notin> set b \<Longrightarrow> go_last_index (a @ c # b) [c] = Some (length a)"
  by (induction a) (simp_all add: go_last_index_char_None[THEN iffD2])

lemma go_last_index_charE:
  assumes "go_last_index s [c] = Some i"
  obtains a b where "s = a @ c # b" "c \<notin> set b" "i = length a"
proof -
  have "c \<in> set s" using assms go_last_index_char_None[of s c] by auto
  then obtain a b where "s = a @ c # b" "c \<notin> set b" by (metis split_list_last)
  then show thesis using that assms go_last_index_char[of c b a] by simp
qed

lemma go_index_char_None: "go_index s [c] = None \<longleftrightarrow> c \<notin> set s"
  by (induction s) auto

lemma go_index_char: "c \<notin> set a \<Longrightarrow> go_index (a @ c # b) [c] = Some (length a)"
  by (induction a) auto

lemma go_cut_char: "c \<notin> set a \<Longrightarrow> go_cut (a @ c # b) [c] = Some (a, b)"
  by (simp add: go_cut_def go_index_char)

lemma go_cut_char_None: "c \<notin> set a \<Longrightarrow> go_cut a [c] = None"
  by (simp add: go_cut_def go_index_char_None[THEN iffD2])

section \<open>Partial matches at the end of a buffer\<close>

text \<open>
  \<open>overlap(s, delim)\<close>: the longest suffix of \<open>s\<close> that is a prefix of \<open>delim\<close>. The program
  has the same loop, counting down from \<open>min(len(delim), len(s))\<close>, in
  \<^verbatim>\<open>model/parsers/parsers.go\<close>, \<^verbatim>\<open>thinking/parser.go\<close> and \<^verbatim>\<open>harmony/harmonyparser.go\<close>.
\<close>

fun overlap_from :: "'a list \<Rightarrow> 'a list \<Rightarrow> nat \<Rightarrow> nat" where
  "overlap_from s delim 0 = 0"
| "overlap_from s delim (Suc i) =
     (if suffix (take (Suc i) delim) s then Suc i else overlap_from s delim i)"

definition overlap :: "'a list \<Rightarrow> 'a list \<Rightarrow> nat" where
  "overlap s delim = overlap_from s delim (min (length delim) (length s))"

lemma overlap_from_le: "overlap_from s d n \<le> n"
  by (induction n) auto

lemma overlap_from_suffix: "suffix (take (overlap_from s d n) d) s"
  by (induction n) auto

lemma overlap_from_max: "overlap_from s d n < j \<Longrightarrow> j \<le> n \<Longrightarrow> \<not> suffix (take j d) s"
proof (induction n)
  case (Suc n)
  then show ?case by (cases "j = Suc n") (auto split: if_splits)
qed simp

lemma overlap_le: "overlap s d \<le> length s" "overlap s d \<le> length d"
  using overlap_from_le[of s d "min (length d) (length s)"] by (auto simp: overlap_def)

lemma overlap_suffix: "suffix (take (overlap s d) d) s"
  by (simp add: overlap_def overlap_from_suffix)

lemma overlap_length: "overlap s d = length s \<Longrightarrow> prefix s d"
proof -
  assume eq: "overlap s d = length s"
  obtain z where "s = z @ take (length s) d" using overlap_suffix[of s d] eq by (auto simp: suffix_def)
  moreover have "length (take (length s) d) = length s" using overlap_le(2)[of s d] eq by simp
  ultimately have "take (length s) d = s" by (metis append_eq_append_conv append_Nil)
  then show "prefix s d" by (metis take_is_prefix)
qed

lemma overlap_max:
  "overlap s d < j \<Longrightarrow> j \<le> length d \<Longrightarrow> j \<le> length s \<Longrightarrow> \<not> suffix (take j d) s"
  by (simp add: overlap_def overlap_from_max)

lemma overlap_drop: "drop (length s - overlap s d) s = take (overlap s d) d"
proof -
  obtain z where z: "s = z @ take (overlap s d) d"
    using overlap_suffix[of s d] by (auto simp: suffix_def)
  have "length (take (overlap s d) d) = overlap s d"
    using overlap_le[of s d] by simp
  then have "length z = length s - overlap s d"
    using z by (metis add_diff_cancel_right' length_append)
  then show ?thesis using z by (metis append_eq_conv_conj)
qed

lemma overlap_eqI:
  assumes "suffix (take k d) s" "k \<le> length d"
    "\<And>j. k < j \<Longrightarrow> j \<le> length d \<Longrightarrow> \<not> suffix (take j d) s"
  shows "overlap s d = k"
proof -
  have "k \<le> length s"
    using assms(1,2) suffix_length_le by fastforce
  then have "\<not> overlap s d < k"
    using overlap_max assms(1,2) by blast
  moreover have "\<not> k < overlap s d"
    using assms(3) overlap_suffix overlap_le by blast
  ultimately show ?thesis by simp
qed

text \<open>
  Where a tag may start: two strings are comparable when one is a prefix of the other, so
  that text comparable with a tag either contains the tag at its front or may still become it.
\<close>

definition comparable :: "'a list \<Rightarrow> 'a list \<Rightarrow> bool" where
  "comparable x y \<longleftrightarrow> prefix x y \<or> prefix y x"

text \<open>\<open>tag_free T p r\<close>: in \<open>p @ r\<close>, however it continues, no tag of \<open>T\<close> starts inside \<open>p\<close>.\<close>

definition tag_free :: "'a list list \<Rightarrow> 'a list \<Rightarrow> 'a list \<Rightarrow> bool" where
  "tag_free T p r \<longleftrightarrow> (\<forall>t\<in>set T. \<forall>i<length p. \<not> comparable (drop i p @ r) t)"

lemma comparable_append: "comparable (x @ c) t \<Longrightarrow> comparable x t"
  unfolding comparable_def using append_prefixD prefix_append prefix_same_cases
  by (metis prefixI)

lemma tag_free_Nil [simp]: "tag_free T [] r"
  by (simp add: tag_free_def)

lemma tag_free_append: "tag_free T p r \<Longrightarrow> tag_free T p (r @ c)"
  unfolding tag_free_def by (metis append.assoc comparable_append)

lemma tag_free_left: "tag_free T (u @ w) r \<Longrightarrow> tag_free T u (w @ r)"
  unfolding tag_free_def
proof (intro ballI allI impI)
  fix t i assume a: "\<forall>t\<in>set T. \<forall>i<length (u @ w). \<not> comparable (drop i (u @ w) @ r) t"
    and t: "t \<in> set T" and i: "i < length u"
  from i have "i < length (u @ w)" by simp
  with a t have "\<not> comparable (drop i (u @ w) @ r) t" by blast
  moreover have "drop i (u @ w) @ r = drop i u @ w @ r" using i by simp
  ultimately show "\<not> comparable (drop i u @ w @ r) t" by (simp only:) simp
qed

lemma tag_free_mem: "tag_free T p r \<Longrightarrow> t \<in> set T \<Longrightarrow> tag_free [t] p r"
  by (simp add: tag_free_def)

lemma go_index_tag_free:
  assumes "tag_free [t] p r"
  shows "go_index (p @ r) t = map_option (\<lambda>i. length p + i) (go_index r t)"
proof -
  have no: "\<not> prefix t (drop j (p @ r))" if "j < length p" for j
    using assms that by (auto simp: tag_free_def comparable_def)
  have shift: "drop j (p @ r) = drop (j - length p) r" if "length p \<le> j" for j
    using that by simp
  show ?thesis
  proof (cases "go_index r t")
    case None
    have "go_index (p @ r) t = None"
      unfolding go_index_None
    proof (intro allI impI)
      fix j assume j: "j \<le> length (p @ r)"
      show "\<not> prefix t (drop j (p @ r))"
      proof (cases "j < length p")
        case True
        then show ?thesis by (rule no)
      next
        case False
        with None j show ?thesis by (simp add: go_index_None)
      qed
    qed
    then show ?thesis using None by simp
  next
    case (Some i)
    have "go_index (p @ r) t = Some (length p + i)"
    proof (rule go_index_eqI)
      show "prefix t (drop (length p + i) (p @ r))"
        using go_index_prefix[OF Some] by simp
      show "length p + i \<le> length (p @ r)" using go_index_bound[OF Some] by simp
      show "\<not> prefix t (drop j (p @ r))" if "j < length p + i" for j
      proof (cases "j < length p")
        case True
        then show ?thesis by (rule no)
      next
        case False
        with go_index_Some[OF Some] that shift show ?thesis by auto
      qed
    qed
    then show ?thesis using Some by simp
  qed
qed

lemma go_contains_tag_free:
  "tag_free [t] p r \<Longrightarrow> go_contains (p @ r) t = go_contains r t"
  by (simp add: go_contains_def go_index_tag_free)

lemma go_cut_tag_free:
  "tag_free [t] p r \<Longrightarrow> go_cut (p @ r) t = map_option (\<lambda>(a, b). (p @ a, b)) (go_cut r t)"
  by (auto simp: go_cut_def go_index_tag_free split: option.splits)

lemma suffix_drop_eq: "k \<le> length d \<Longrightarrow> suffix (take k d) s \<longleftrightarrow> k \<le> length s \<and> drop (length s - k) s = take k d"
proof
  assume k: "k \<le> length d" and s: "suffix (take k d) s"
  then obtain z where z: "s = z @ take k d" by (auto simp: suffix_def)
  then show "k \<le> length s \<and> drop (length s - k) s = take k d" using k by simp
next
  assume "k \<le> length s \<and> drop (length s - k) s = take k d"
  then show "suffix (take k d) s" by (metis suffix_drop)
qed

lemma overlap_tag_free:
  assumes "tag_free [t] p r"
  shows "overlap (p @ r) t = overlap r t"
proof (rule overlap_eqI)
  show "suffix (take (overlap r t) t) (p @ r)"
    using overlap_suffix[of r t] suffix_appendI by blast
  show "overlap r t \<le> length t" by (rule overlap_le)
  fix j assume j: "overlap r t < j" "j \<le> length t"
  show "\<not> suffix (take j t) (p @ r)"
  proof (cases "j \<le> length r")
    case True
    then have "\<not> suffix (take j t) r" using overlap_max j by blast
    then show ?thesis using True j(2) by (simp add: suffix_drop_eq)
  next
    case False
    show ?thesis
    proof
      assume s: "suffix (take j t) (p @ r)"
      then have le: "j \<le> length (p @ r)" and eq: "drop (length (p @ r) - j) (p @ r) = take j t"
        using suffix_drop_eq[OF j(2)] by blast+
      let ?i = "length (p @ r) - j"
      have i: "?i < length p" using le False by simp
      then have "drop ?i p @ r = take j t" using eq by simp
      then have "prefix (drop ?i p @ r) t" by (metis take_is_prefix)
      then show False using assms i by (auto simp: tag_free_def comparable_def)
    qed
  qed
qed

text \<open>What lies before the longest partial match, in a buffer that contains no tag, is free.\<close>

lemma tag_freeI:
  assumes "\<And>t. t \<in> set T \<Longrightarrow> \<not> go_contains s t" "\<And>t. t \<in> set T \<Longrightarrow> overlap s t \<le> k" "k \<le> length s"
  shows "tag_free T (take (length s - k) s) (drop (length s - k) s)"
  unfolding tag_free_def comparable_def
proof (intro ballI allI impI)
  fix t i assume t: "t \<in> set T" and i: "i < length (take (length s - k) s)"
  let ?n = "length s - k"
  have s: "drop i (take ?n s) @ drop ?n s = drop i s"
    using i by (metis append_take_drop_id drop_append drop_drop le_add_diff_inverse length_take
        less_or_eq_imp_le min_less_iff_conj append_eq_append_conv2 diff_is_0_eq drop0)
  have "\<not> prefix t (drop i s)"
    using assms(1)[OF t] i by (simp add: go_contains_def go_index_None)
  moreover have "\<not> prefix (drop i s) t"
  proof
    assume "prefix (drop i s) t"
    then have eq: "drop i s = take (length s - i) t" and le: "length s - i \<le> length t"
      using prefix_length_le by (fastforce simp: prefix_def)+
    have "suffix (take (length s - i) t) s" using eq by (metis suffix_drop)
    then have "length s - i \<le> overlap s t"
      using overlap_max[of s t "length s - i"] le by (meson diff_le_self not_le)
    then show False using assms(2)[OF t] i by simp
  qed
  ultimately show "\<not> (prefix (drop i (take ?n s) @ drop ?n s) t \<or> prefix t (drop i (take ?n s) @ drop ?n s))"
    by (simp only: s) simp
qed

text \<open>The text before the first occurrence of a tag is free of it.\<close>

lemma go_index_append:
  assumes "go_index s t = Some i"
  shows "go_index (s @ c) t = Some i"
proof (rule go_index_eqI)
  note s = go_index_Some[OF assms]
  show "prefix t (drop i (s @ c))" using s by (metis take_is_prefix prefix_append prefixI drop_append)
  show "i \<le> length (s @ c)" using s by simp
  show "\<not> prefix t (drop j (s @ c))" if "j < i" for j
  proof
    assume p: "prefix t (drop j (s @ c))"
    have le: "length t \<le> length (drop j s)" using go_index_bound[OF assms] that by simp
    have "drop j (s @ c) = drop j s @ c" using s that by simp
    then have "prefix t (drop j s)"
      using p le by (metis prefix_append prefix_length_prefix prefixI)
    then show False using s that by blast
  qed
qed

lemma go_cut_append:
  assumes "go_cut s t = Some (a, b)"
  shows "go_cut (s @ c) t = Some (a, b @ c)"
  using assms go_index_append go_index_bound by (fastforce simp: go_cut_def split: option.splits)

lemma go_cut_None: "go_cut s t = None \<longleftrightarrow> \<not> go_contains s t"
  by (auto simp: go_cut_def go_contains_def split: option.splits)

text \<open>\<open>go_contains\<close> read off \<open>go_cut\<close>, for proofs by cases on the cut.\<close>

lemma go_contains_cut: "go_contains s t \<longleftrightarrow> go_cut s t \<noteq> None"
  by (simp add: go_cut_None)

lemma go_cut_Some: "go_cut s t = Some (a, b) \<Longrightarrow> s = a @ t @ b"
  by (auto simp: go_cut_def split: option.splits dest: go_index_split)

lemma go_contains_append: "go_contains s t \<Longrightarrow> go_contains (s @ c) t"
  by (auto simp: go_contains_def dest: go_index_append)

lemma go_contains_right: "go_contains b t \<Longrightarrow> go_contains (a @ b) t"
  unfolding go_contains_iff by (metis append_assoc)

text \<open>A tag that starts with a byte it contains nowhere else, after a text without it.\<close>

lemma go_cut_first:
  assumes "t \<noteq> []" "hd t \<notin> set (tl t)" "\<not> go_contains x t"
  shows "go_cut (x @ t @ r) t = Some (x, r)"
proof -
  have "go_index (x @ t @ r) t = Some (length x)"
  proof (rule go_index_eqI)
    fix j assume j: "j < length x"
    show "\<not> prefix t (drop j (x @ t @ r))"
    proof
      assume p: "prefix t (drop j (x @ t @ r))"
      show False
      proof (cases "j + length t \<le> length x")
        case True
        have d: "drop j (x @ t @ r) = drop j x @ t @ r" using j by simp
        have "prefix t (drop j x)"
          by (rule prefix_length_prefix[of t "drop j x @ t @ r"]) (use p d True in auto)
        then show False using assms(3) j by (auto simp: go_contains_def go_index_None)
      next
        case False
        have "(drop j (x @ t @ r)) ! (length x - j) = t ! (length x - j)"
        proof -
          obtain zs where "drop j (x @ t @ r) = t @ zs" using p by (auto simp: prefix_def)
          moreover have "length x - j < length t" using False j by linarith
          ultimately show ?thesis by (simp only: nth_append if_True)
        qed
        moreover have "(drop j (x @ t @ r)) ! (length x - j) = hd t"
          using j assms(1) by (simp add: nth_append hd_conv_nth)
        moreover have "t ! (length x - j) \<in> set (tl t)"
          using False j by (cases t) (auto simp: nth_Cons split: nat.splits)
        ultimately show False using assms(2) by simp
      qed
    qed
  qed auto
  then show ?thesis by (simp add: go_cut_def)
qed
lemma go_index_after: "t \<noteq> [] \<Longrightarrow> hd t \<notin> set x \<Longrightarrow> go_index (x @ y) t = map_option (\<lambda>i. length x + i) (go_index y t)"
proof (induction x)
  case (Cons c x)
  then have "\<not> prefix t (c # x @ y)" by (cases t) auto
  then show ?case using Cons by (cases "go_index y t") simp_all
qed (cases "go_index y t"; simp)

section \<open>Holding back a possible tag\<close>

text \<open>
  What every streaming parser does with a buffer that contains none of the tags it looks for: it
  passes on the text before the longest partial match and keeps the rest.
\<close>

fun max_overlap :: "'a list list \<Rightarrow> 'a list \<Rightarrow> nat" where
  "max_overlap [] s = 0"
| "max_overlap (t # T) s = max (overlap s t) (max_overlap T s)"

definition unheld :: "'a list list \<Rightarrow> 'a list \<Rightarrow> 'a list" where
  "unheld T s = take (length s - max_overlap T s) s"

definition held :: "'a list list \<Rightarrow> 'a list \<Rightarrow> 'a list" where
  "held T s = drop (length s - max_overlap T s) s"

lemma unheld_held [simp]: "unheld T s @ held T s = s"
  by (simp add: unheld_def held_def)

lemma max_overlap_ge: "t \<in> set T \<Longrightarrow> overlap s t \<le> max_overlap T s"
  by (induction T) auto

lemma max_overlap_le: "max_overlap T s \<le> length s"
  by (induction T) (auto simp: overlap_le)

lemma max_overlap_cong: "(\<And>t. t \<in> set T \<Longrightarrow> overlap s t = overlap s' t) \<Longrightarrow> max_overlap T s = max_overlap T s'"
  by (induction T) auto

lemma length_held: "length (held T s) = max_overlap T s"
  using max_overlap_le[of T s] by (simp add: held_def)

lemma suffix_held: "suffix (held T s) s"
  by (simp add: held_def suffix_drop)

lemma held_max_overlap: "max_overlap T s = 0 \<Longrightarrow> held T s = []" "max_overlap T s = 0 \<Longrightarrow> unheld T s = s"
  by (simp_all add: held_def unheld_def)

text \<open>A non-empty held text is the beginning of one of the tags.\<close>

lemma held_prefix: "held T s = [] \<or> (\<exists>t\<in>set T. prefix (held T s) t)"
proof (cases "max_overlap T s = 0")
  case True
  then show ?thesis by (simp add: held_max_overlap)
next
  case False
  then have "\<exists>t\<in>set T. max_overlap T s = overlap s t"
    by (induction T) (auto simp: max_def)
  then obtain t where "t \<in> set T" "held T s = take (overlap s t) t"
    by (auto simp: held_def overlap_drop)
  then show ?thesis by (metis take_is_prefix)
qed

lemma tag_free_unheld:
  "(\<And>t. t \<in> set T \<Longrightarrow> \<not> go_contains s t) \<Longrightarrow> tag_free T (unheld T s) (held T s)"
  unfolding unheld_def held_def by (intro tag_freeI) (auto simp: max_overlap_ge max_overlap_le)

text \<open>With a tag-free front, cutting and holding back concern the rest only.\<close>

lemma tag_free_hold:
  assumes "tag_free T p r"
  shows "t \<in> set T \<Longrightarrow> go_cut (p @ r) t = map_option (\<lambda>(a, b). (p @ a, b)) (go_cut r t)"
    and "unheld T (p @ r) = p @ unheld T r"
    and "held T (p @ r) = held T r"
proof -
  show "t \<in> set T \<Longrightarrow> go_cut (p @ r) t = map_option (\<lambda>(a, b). (p @ a, b)) (go_cut r t)"
    using assms by (intro go_cut_tag_free tag_free_mem)
  have "max_overlap T (p @ r) = max_overlap T r"
    by (rule max_overlap_cong) (rule overlap_tag_free, rule tag_free_mem[OF assms])
  moreover have "length (p @ r) - max_overlap T r = length p + (length r - max_overlap T r)"
    using max_overlap_le[of T r] by simp
  ultimately show "unheld T (p @ r) = p @ unheld T r" "held T (p @ r) = held T r"
    by (simp_all add: unheld_def held_def)
qed

lemma hold_append:
  assumes "\<And>t. t \<in> set T \<Longrightarrow> go_cut s t = None"
  shows "t \<in> set T \<Longrightarrow>
      go_cut (s @ c) t = map_option (\<lambda>(a, b). (unheld T s @ a, b)) (go_cut (held T s @ c) t)"
    and "unheld T (s @ c) = unheld T s @ unheld T (held T s @ c)"
    and "held T (s @ c) = held T (held T s @ c)"
proof -
  have "tag_free T (unheld T s) (held T s @ c)"
    using assms by (intro tag_free_append tag_free_unheld) (simp add: go_contains_cut)
  note tag_free_hold[OF this]
  moreover have "s @ c = unheld T s @ (held T s @ c)" by (metis append_assoc unheld_held)
  ultimately show "t \<in> set T \<Longrightarrow>
      go_cut (s @ c) t = map_option (\<lambda>(a, b). (unheld T s @ a, b)) (go_cut (held T s @ c) t)"
    "unheld T (s @ c) = unheld T s @ unheld T (held T s @ c)"
    "held T (s @ c) = held T (held T s @ c)"
    by metis+
qed

end
