(* ===== verification/GoSpace.thy ===== *)
theory GoSpace
  imports GoStrings
begin

text \<open>
  White space in UTF-8 byte strings: \<^verbatim>\<open>unicode.IsSpace\<close>, \<^verbatim>\<open>strings.TrimLeftFunc\<close>,
  \<^verbatim>\<open>strings.TrimRightFunc\<close>, \<^verbatim>\<open>strings.TrimSpace\<close> and \<^verbatim>\<open>strings.Fields\<close>.

  Go decodes runes before it tests them. A white-space rune is recognised exactly where its
  encoding stands: the encodings below are complete and valid UTF-8, none of them is a prefix or
  a suffix of another, each starts with a byte that is no continuation byte, and a lead byte
  never stands inside another rune, so decoding a rune that is white space is the same as
  finding one of these byte strings at the front (or at the back) of the text.
\<close>

definition space_encs :: "string list" where
  "space_encs =
     [[CHR 0x09], [CHR 0x0A], [CHR 0x0B], [CHR 0x0C], [CHR 0x0D], [CHR 0x20],
      [CHR 0xC2, CHR 0x85], [CHR 0xC2, CHR 0xA0],
      [CHR 0xE1, CHR 0x9A, CHR 0x80],
      [CHR 0xE2, CHR 0x80, CHR 0x80], [CHR 0xE2, CHR 0x80, CHR 0x81],
      [CHR 0xE2, CHR 0x80, CHR 0x82], [CHR 0xE2, CHR 0x80, CHR 0x83],
      [CHR 0xE2, CHR 0x80, CHR 0x84], [CHR 0xE2, CHR 0x80, CHR 0x85],
      [CHR 0xE2, CHR 0x80, CHR 0x86], [CHR 0xE2, CHR 0x80, CHR 0x87],
      [CHR 0xE2, CHR 0x80, CHR 0x88], [CHR 0xE2, CHR 0x80, CHR 0x89],
      [CHR 0xE2, CHR 0x80, CHR 0x8A], [CHR 0xE2, CHR 0x80, CHR 0xA8],
      [CHR 0xE2, CHR 0x80, CHR 0xA9], [CHR 0xE2, CHR 0x80, CHR 0xAF],
      [CHR 0xE2, CHR 0x81, CHR 0x9F], [CHR 0xE3, CHR 0x80, CHR 0x80]]"

text \<open>The bytes of the white-space rune at the front (back) of \<open>s\<close>, 0 when there is none.\<close>

definition space_len :: "string \<Rightarrow> nat" where
  "space_len s = (case find (\<lambda>e. prefix e s) space_encs of None \<Rightarrow> 0 | Some e \<Rightarrow> length e)"

definition space_len_r :: "string \<Rightarrow> nat" where
  "space_len_r s = (case find (\<lambda>e. suffix e s) space_encs of None \<Rightarrow> 0 | Some e \<Rightarrow> length e)"

lemma space_encs_nonempty: "e \<in> set space_encs \<Longrightarrow> e \<noteq> []"
  by (auto simp: space_encs_def)

lemma space_encs_prefix_free:
  "e \<in> set space_encs \<Longrightarrow> e' \<in> set space_encs \<Longrightarrow> prefix e e' \<Longrightarrow> e = e'"
proof -
  have "\<forall>e\<in>set space_encs. \<forall>e'\<in>set space_encs. prefix e e' \<longrightarrow> e = e'"
    by code_simp
  then show "e \<in> set space_encs \<Longrightarrow> e' \<in> set space_encs \<Longrightarrow> prefix e e' \<Longrightarrow> e = e'" by blast
qed

lemma space_encs_suffix_free:
  "e \<in> set space_encs \<Longrightarrow> e' \<in> set space_encs \<Longrightarrow> suffix e e' \<Longrightarrow> e = e'"
proof -
  have "\<forall>e\<in>set space_encs. \<forall>e'\<in>set space_encs. suffix e e' \<longrightarrow> e = e'"
    by code_simp
  then show "e \<in> set space_encs \<Longrightarrow> e' \<in> set space_encs \<Longrightarrow> suffix e e' \<Longrightarrow> e = e'" by blast
qed

lemma space_len_cases:
  obtains (none) "space_len s = 0" "\<And>e. e \<in> set space_encs \<Longrightarrow> \<not> prefix e s"
    | (some) e where "e \<in> set space_encs" "prefix e s" "space_len s = length e" "0 < length e"
proof (cases "find (\<lambda>e. prefix e s) space_encs")
  case None
  then have "\<And>e. e \<in> set space_encs \<Longrightarrow> \<not> prefix e s" by (auto simp: find_None_iff)
  moreover have "space_len s = 0" using None by (simp add: space_len_def)
  ultimately show ?thesis using none by blast
next
  case (Some e)
  then have "e \<in> set space_encs" "prefix e s" by (auto simp: find_Some_iff)
  then show ?thesis using some Some space_encs_nonempty by (simp add: space_len_def)
qed

lemma space_len_prefix: "e \<in> set space_encs \<Longrightarrow> space_len (e @ s) = length e"
  by (rule space_len_cases[of "e @ s"])
    (auto simp: prefix_def dest: space_encs_prefix_free,
      metis prefixI prefix_same_cases space_encs_prefix_free)

lemma space_len_r_cases:
  obtains (none) "space_len_r s = 0" "\<And>e. e \<in> set space_encs \<Longrightarrow> \<not> suffix e s"
    | (some) e where "e \<in> set space_encs" "suffix e s" "space_len_r s = length e" "0 < length e"
proof (cases "find (\<lambda>e. suffix e s) space_encs")
  case None
  then have "\<And>e. e \<in> set space_encs \<Longrightarrow> \<not> suffix e s" by (auto simp: find_None_iff)
  moreover have "space_len_r s = 0" using None by (simp add: space_len_r_def)
  ultimately show ?thesis using none by blast
next
  case (Some e)
  then have "e \<in> set space_encs" "suffix e s" by (auto simp: find_Some_iff)
  then show ?thesis using some Some space_encs_nonempty by (simp add: space_len_r_def)
qed

lemma space_len_r_suffix: "e \<in> set space_encs \<Longrightarrow> space_len_r (s @ e) = length e"
  by (rule space_len_r_cases[of "s @ e"])
    (auto simp: suffix_def dest: space_encs_suffix_free,
      metis suffixI suffix_same_cases space_encs_suffix_free)

lemma space_len_le: "space_len s \<le> length s" "space_len_r s \<le> length s"
  by (rule space_len_cases[of s]; simp add: prefix_length_le)
    (rule space_len_r_cases[of s]; simp add: suffix_length_le)

section \<open>Trimming\<close>

text \<open>\<open>strings.TrimLeftFunc(s, unicode.IsSpace)\<close>\<close>

function trim_left :: "string \<Rightarrow> string" where
  "trim_left s = (if space_len s = 0 then s else trim_left (drop (space_len s) s))"
  by pat_completeness auto
termination
proof (relation "measure length", goal_cases)
  case (2 s)
  then show ?case using space_len_le(1)[of s] by simp
qed simp

text \<open>\<open>strings.TrimRightFunc(s, unicode.IsSpace)\<close>\<close>

function trim_right :: "string \<Rightarrow> string" where
  "trim_right s = (if space_len_r s = 0 then s else trim_right (take (length s - space_len_r s) s))"
  by pat_completeness auto
termination
proof (relation "measure length", goal_cases)
  case (2 s)
  then show ?case using space_len_le(2)[of s] by simp
qed simp

declare trim_left.simps [simp del] trim_right.simps [simp del]

text \<open>\<open>strings.TrimSpace(s)\<close>\<close>

definition trim_space :: "string \<Rightarrow> string" where
  "trim_space s = trim_right (trim_left s)"

text \<open>
  \<open>trailingWhitespaceLen\<close> of \<^verbatim>\<open>model/parsers/parsers.go\<close>: the loop takes one rune off the end
  as long as it is white space, and adds up the sizes; an invalid last byte ends it.
\<close>

function trailingWhitespaceLen :: "string \<Rightarrow> nat" where
  "trailingWhitespaceLen remaining =
     (if remaining = [] then 0
      else if space_len_r remaining = 0 then 0
      else space_len_r remaining
        + trailingWhitespaceLen (take (length remaining - space_len_r remaining) remaining))"
  by pat_completeness auto
termination
proof (relation "measure length", goal_cases)
  case (2 s)
  then show ?case using space_len_le(2)[of s] by simp
qed simp

declare trailingWhitespaceLen.simps [simp del]

lemma trim_left_Nil [simp]: "trim_left [] = []"
  using space_len_le(1)[of "[]"] by (subst trim_left.simps) simp

lemma trim_right_Nil [simp]: "trim_right [] = []"
  using space_len_le(2)[of "[]"] by (subst trim_right.simps) simp

lemma trim_left_enc: "e \<in> set space_encs \<Longrightarrow> trim_left (e @ s) = trim_left s"
  using space_encs_nonempty by (subst trim_left.simps) (simp add: space_len_prefix)

lemma trim_right_enc: "e \<in> set space_encs \<Longrightarrow> trim_right (s @ e) = trim_right s"
  using space_encs_nonempty by (subst trim_right.simps) (simp add: space_len_r_suffix)

text \<open>Trimming takes whole white-space runes off, one after the other.\<close>

lemma trim_left_induct [case_names stop step]:
  assumes "\<And>s. space_len s = 0 \<Longrightarrow> P s"
    and "\<And>e s. e \<in> set space_encs \<Longrightarrow> P s \<Longrightarrow> P (e @ s)"
  shows "P s"
proof (induction s rule: trim_left.induct)
  case (1 s)
  show ?case
  proof (cases s rule: space_len_cases)
    case none
    then show ?thesis using assms(1) by blast
  next
    case (some e)
    then have "s = e @ drop (length e) s" by (auto simp: prefix_def)
    moreover have "P (drop (length e) s)" using 1 some by simp
    ultimately show ?thesis using assms(2) some(1) by metis
  qed
qed

lemma trim_right_induct [case_names stop step]:
  assumes "\<And>s. space_len_r s = 0 \<Longrightarrow> P s"
    and "\<And>e s. e \<in> set space_encs \<Longrightarrow> P s \<Longrightarrow> P (s @ e)"
  shows "P s"
proof (induction s rule: trim_right.induct)
  case (1 s)
  show ?case
  proof (cases s rule: space_len_r_cases)
    case none
    then show ?thesis using assms(1) by blast
  next
    case (some e)
    then have "s = take (length s - length e) s @ e" by (auto simp: suffix_def)
    moreover have "P (take (length s - length e) s)" using 1 some by simp
    ultimately show ?thesis using assms(2) some(1) by metis
  qed
qed

lemma trim_left_stop: "space_len s = 0 \<Longrightarrow> trim_left s = s"
  by (subst trim_left.simps) simp

lemma trim_right_stop: "space_len_r s = 0 \<Longrightarrow> trim_right s = s"
  by (subst trim_right.simps) simp

lemma trim_left_split: "\<exists>w. s = w @ trim_left s \<and> trim_left w = []"
proof (induction s rule: trim_left_induct)
  case (stop s)
  then show ?case by (simp add: trim_left_stop)
next
  case (step e s)
  then obtain w where "s = w @ trim_left s" "trim_left w = []" by blast
  then have "e @ s = (e @ w) @ trim_left (e @ s)" "trim_left (e @ w) = []"
    by (simp_all add: trim_left_enc step.hyps)
  then show ?case by blast
qed

lemma trim_right_split: "\<exists>w. s = trim_right s @ w \<and> trim_right w = []"
proof (induction s rule: trim_right_induct)
  case (stop s)
  then show ?case by (simp add: trim_right_stop)
next
  case (step e s)
  then obtain w where "s = trim_right s @ w" "trim_right w = []" by blast
  then have "s @ e = trim_right (s @ e) @ (w @ e)" "trim_right (w @ e) = []"
    by (simp_all add: trim_right_enc step.hyps)
  then show ?case by blast
qed

lemma trim_left_suffix: "suffix (trim_left s) s"
  using trim_left_split[of s] by (metis suffixI)

lemma trim_right_prefix: "prefix (trim_right s) s"
  using trim_right_split[of s] by (metis prefixI)

lemma length_trim_left: "length (trim_left s) \<le> length s"
  by (simp add: suffix_length_le trim_left_suffix)

lemma length_trim_right: "length (trim_right s) \<le> length s"
  by (simp add: prefix_length_le trim_right_prefix)

lemma space_len_trim_left: "space_len (trim_left s) = 0"
  by (induction s rule: trim_left_induct) (simp_all add: trim_left_stop trim_left_enc)

lemma space_len_r_trim_right: "space_len_r (trim_right s) = 0"
  by (induction s rule: trim_right_induct) (simp_all add: trim_right_stop trim_right_enc)

lemma trim_left_idem [simp]: "trim_left (trim_left s) = trim_left s"
  by (simp add: space_len_trim_left trim_left_stop)

lemma trim_right_idem [simp]: "trim_right (trim_right s) = trim_right s"
  by (simp add: space_len_r_trim_right trim_right_stop)

lemma trim_left_ws_append: "trim_left w = [] \<Longrightarrow> trim_left (w @ s) = trim_left s"
proof (induction w rule: trim_left_induct)
  case (stop w)
  then show ?case by (simp add: trim_left_stop)
next
  case (step e w)
  then show ?case by (simp add: trim_left_enc)
qed

lemma trim_right_ws_append: "trim_right w = [] \<Longrightarrow> trim_right (s @ w) = trim_right s"
proof (induction w rule: trim_right_induct)
  case (stop w)
  then show ?case by (simp add: trim_right_stop)
next
  case (step e w)
  then show ?case using trim_right_enc[of e "s @ w"] by (simp add: trim_right_enc)
qed

lemma trailingWhitespaceLen_eq: "trailingWhitespaceLen s = length s - length (trim_right s)"
proof (induction s rule: trim_right_induct)
  case (stop s)
  then show ?case by (subst trailingWhitespaceLen.simps) (simp add: trim_right_stop)
next
  case (step e s)
  then have "trailingWhitespaceLen (s @ e) = length e + trailingWhitespaceLen s"
    using space_encs_nonempty
    by (subst trailingWhitespaceLen.simps) (simp add: space_len_r_suffix)
  then show ?case
    using step length_trim_right[of s] by (simp add: trim_right_enc)
qed

text \<open>
  The program splits a buffer at \<open>len(s) - trailingWhitespaceLen(s)\<close>: the part before is the
  text without its trailing white space, the part after that white space.
\<close>

lemma take_trailingWhitespaceLen: "take (length s - trailingWhitespaceLen s) s = trim_right s"
proof -
  obtain w where "s = trim_right s @ w" using trim_right_split by blast
  then have "take (length (trim_right s)) s = trim_right s" by (metis append_eq_conv_conj)
  then show ?thesis using length_trim_right[of s] by (simp add: trailingWhitespaceLen_eq)
qed

lemma trailingWhitespaceLen_le: "trailingWhitespaceLen s \<le> length s"
  by (simp add: trailingWhitespaceLen_eq)

section \<open>Text cut inside a white-space rune\<close>

text \<open>
  A chunk boundary may fall inside a rune. \<open>aligned s\<close>: \<open>s\<close> does not end with the first
  bytes of a white-space rune whose rest is missing. Every valid UTF-8 string is aligned, since
  such an ending is an incomplete rune.
\<close>

definition aligned :: "string \<Rightarrow> bool" where
  "aligned s \<longleftrightarrow> (\<forall>e\<in>set space_encs. \<forall>k\<in>set [1..<length e]. \<not> suffix (take k e) s)"

text \<open>A UTF-8 continuation byte.\<close>

definition cont_byte :: "char \<Rightarrow> bool" where
  "cont_byte c \<longleftrightarrow> 128 \<le> (of_char c :: nat) \<and> (of_char c :: nat) < 192"

lemma alignedD: "aligned s \<Longrightarrow> e \<in> set space_encs \<Longrightarrow> e = a @ b \<Longrightarrow> a \<noteq> [] \<Longrightarrow> b \<noteq> [] \<Longrightarrow> \<not> suffix a s"
proof
  assume al: "aligned s" and e: "e \<in> set space_encs" and ab: "e = a @ b" "a \<noteq> []" "b \<noteq> []" and s: "suffix a s"
  have "length a \<in> set [1..<length e]" using ab by (auto simp: Suc_le_eq)
  moreover have "take (length a) e = a" using ab by simp
  ultimately show False using al e s unfolding aligned_def by (metis)
qed

lemma aligned_Nil [simp]: "aligned []"
proof -
  have "aligned []" by code_simp
  then show ?thesis .
qed

lemma aligned_suffix: "aligned s \<Longrightarrow> suffix x s \<Longrightarrow> aligned x"
  unfolding aligned_def using suffix_order.trans by blast

lemma aligned_append:
  assumes "aligned a" "aligned c" shows "aligned (a @ c)"
  unfolding aligned_def
proof (intro ballI notI)
  fix e k assume e: "e \<in> set space_encs" and k: "k \<in> set [1..<length e]" and s: "suffix (take k e) (a @ c)"
  from s have "suffix (take k e) c \<or> (\<exists>p. take k e = p @ c \<and> suffix p a \<and> p \<noteq> [])"
    by (auto simp: suffix_append)
  then consider "suffix (take k e) c" | p where "take k e = p @ c" "suffix p a" "p \<noteq> []"
    by blast
  then show False
  proof cases
    case 1
    then show False using assms(2) e k unfolding aligned_def by blast
  next
    case 2
    have "length p \<in> set [1..<length e]"
      using 2(1,3) k by (metis One_nat_def Suc_leI append_take_drop_id atLeastLessThan_iff
          length_append length_greater_0_conv length_take less_le_trans min.absorb4 min_less_iff_conj
          not_le set_upt trans_le_add1 le_add1 order_le_less_trans)
    moreover have "take (length p) e = p"
      using 2(1) by (metis append_eq_conv_conj append_assoc append_take_drop_id)
    ultimately show False using assms(1) e 2(2) unfolding aligned_def by metis
  qed
qed

lemma aligned_drop: "aligned s \<Longrightarrow> aligned (drop n s)"
  by (erule aligned_suffix) (rule suffix_drop)

lemma aligned_trim_left: "aligned s \<Longrightarrow> aligned (trim_left s)"
  by (rule aligned_suffix[OF _ trim_left_suffix])

lemma space_encs_bytes:
  assumes "e \<in> set space_encs" "e = a @ b" "a \<noteq> []" "b \<noteq> []"
  shows "cont_byte (hd b)"
proof -
  have all: "\<forall>e\<in>set space_encs. \<forall>k\<in>set [1..<length e]. cont_byte (e ! k)"
    by code_simp
  have "length a \<in> set [1..<length e]" using assms by (auto simp: Suc_le_eq)
  then have "cont_byte (e ! length a)" using all assms(1) by blast
  then show ?thesis using assms by (simp add: nth_append hd_conv_nth)
qed

lemma space_encs_hd: "e \<in> set space_encs \<Longrightarrow> \<not> cont_byte (hd e)"
proof -
  have "\<forall>e\<in>set space_encs. \<not> cont_byte (hd e)" by code_simp
  then show "e \<in> set space_encs \<Longrightarrow> \<not> cont_byte (hd e)" by blast
qed

text \<open>What follows a text that starts with something visible does not change its left trim.\<close>

lemma space_len_append:
  assumes "space_len s = 0" "s \<noteq> []" "aligned s"
  shows "space_len (s @ c) = 0"
proof (cases "s @ c" rule: space_len_cases)
  case (some e)
  from some(2) consider "prefix e s" | b where "e = s @ b" "b \<noteq> []"
    by (metis append_Nil2 prefix_append prefix_same_cases prefixE prefix_order.refl)
  then show ?thesis
  proof cases
    case 1
    then show ?thesis using assms(1) some by (cases s rule: space_len_cases) auto
  next
    case 2
    then show ?thesis using alignedD[OF assms(3) some(1)] assms(2) by blast
  qed
qed

lemma trim_left_append:
  assumes "aligned s" "trim_left s \<noteq> []"
  shows "trim_left (s @ c) = trim_left s @ c"
  using assms
proof (induction s rule: trim_left_induct)
  case (stop s)
  then have "s \<noteq> []" by auto
  with stop show ?case by (simp add: trim_left_stop space_len_append)
next
  case (step e s)
  from step.prems(1) have "aligned s" by (rule aligned_suffix) (simp add: suffix_def)
  with step show ?case by (simp add: trim_left_enc)
qed

text \<open>Trimming commutes with appending in both cases.\<close>

lemma trim_left_append_cases:
  "aligned s \<Longrightarrow> trim_left (s @ c) = (if trim_left s = [] then trim_left c else trim_left s @ c)"
  by (simp add: trim_left_append trim_left_ws_append)

text \<open>The right trim of a text whose front part ends with something visible.\<close>

lemma trim_right_append:
  assumes "trim_right x = x" "aligned x \<or> \<not> cont_byte (hd b)"
  shows "trim_right (x @ b) = x @ trim_right b"
  using assms(2)
proof (induction b rule: trim_right_induct)
  case (stop b)
  show ?case
  proof (cases "b = []")
    case True
    then show ?thesis using assms(1) by simp
  next
    case False
    have "space_len_r (x @ b) = 0"
    proof (cases "x @ b" rule: space_len_r_cases)
      case (some e)
      from some(2) have "suffix e b \<or> (\<exists>a. e = a @ b \<and> suffix a x)"
        by (simp only: suffix_append)
      then consider "suffix e b" | a where "e = a @ b" "a \<noteq> []" "suffix a x"
        by (metis append_Nil suffix_order.refl)
      then show ?thesis
      proof cases
        case 1
        then show ?thesis using stop some by (cases b rule: space_len_r_cases) auto
      next
        case 2
        then show ?thesis
          using alignedD[OF _ some(1) 2(1,2) False] space_encs_bytes[OF some(1) 2(1,2) False]
            stop.prems by blast
      qed
    qed
    then show ?thesis using stop by (simp add: trim_right_stop)
  qed
next
  case (step e b)
  show ?case
  proof (cases "b = []")
    case True
    then show ?thesis using step.hyps assms(1) trim_right_enc[of e x] trim_right_enc[of e "[]"] by simp
  next
    case False
    then have "aligned x \<or> \<not> cont_byte (hd b)" using step.prems by simp
    then have "trim_right (x @ b) = x @ trim_right b" by (rule step.IH)
    then show ?thesis using step.hyps trim_right_enc[of e "x @ b"] trim_right_enc[of e b] by simp
  qed
qed

end
