(* ===== verification/Streaming.thy ===== *)
theory Streaming
  imports GoSpace
begin

text \<open>
  The loop every streaming parser of the program has (\<open>parseEvents\<close>, \<open>AddContent\<close>): the
  chunk is appended to the parser's buffer, then \<open>eat\<close> is called as long as it answers
  "keep looping", and the events of the calls are concatenated. The loop is modelled once, over
  the parser's \<open>eat\<close>; nothing bounds it, so not returning is the value \<open>None\<close>.

  Two interfaces are stated as locales: \<open>event_loop\<close> (what makes the loop return) and
  \<open>chunked\<close> (what makes the boundaries between the chunks invisible in what the parser
  reports). Each parser interprets them on its own \<open>eat\<close>.
\<close>

section \<open>The loop\<close>

partial_function (option) drain ::
  "('s \<Rightarrow> 'e list \<times> bool \<times> 's) \<Rightarrow> 's \<Rightarrow> 'e list \<Rightarrow> ('e list \<times> 's) option" where
  "drain eat p all =
     (case eat p of
        (events, keepLooping, p') \<Rightarrow>
          if keepLooping then drain eat p' (all @ events) else Some (all @ events, p'))"

declare drain.simps [code]

text \<open>
  An \<open>eat\<close> that may panic, as a step over the state or its absence: after a panic there is
  no state, no event, and the loop is over.
\<close>

fun guarded :: "('s \<Rightarrow> ('e \<times> bool \<times> 's) option) \<Rightarrow> 's option \<Rightarrow> 'e list \<times> bool \<times> 's option" where
  "guarded eat None = ([], False, None)"
| "guarded eat (Some p) =
     (case eat p of
        None \<Rightarrow> ([], False, None)
      | Some (ev, keepLooping, p') \<Rightarrow> ([ev], keepLooping, Some p'))"

section \<open>What a client sees\<close>

text \<open>
  How the output is cut into events depends on the chunks. What the client gets to see is their
  content, so events are compared as sequences of atoms: one byte of thinking, one byte of
  content, one tool call.
\<close>

datatype 'c atom = Think char | Content char | Call 'c

fun thinking_of :: "'c atom list \<Rightarrow> string" where
  "thinking_of [] = []"
| "thinking_of (Think x # as) = x # thinking_of as"
| "thinking_of (Content x # as) = thinking_of as"
| "thinking_of (Call x # as) = thinking_of as"

fun content_of :: "'c atom list \<Rightarrow> string" where
  "content_of [] = []"
| "content_of (Think x # as) = content_of as"
| "content_of (Content x # as) = x # content_of as"
| "content_of (Call x # as) = content_of as"

fun calls_of :: "'c atom list \<Rightarrow> 'c list" where
  "calls_of [] = []"
| "calls_of (Think x # as) = calls_of as"
| "calls_of (Content x # as) = calls_of as"
| "calls_of (Call x # as) = x # calls_of as"

lemma atoms_append [simp]:
  "thinking_of (as @ bs) = thinking_of as @ thinking_of bs"
  "content_of (as @ bs) = content_of as @ content_of bs"
  "calls_of (as @ bs) = calls_of as @ calls_of bs"
  by (induction as rule: thinking_of.induct) simp_all

lemma atoms_map [simp]:
  "thinking_of (map Think s) = s" "content_of (map Think s) = []" "calls_of (map Think s) = []"
  "thinking_of (map Content s) = []" "content_of (map Content s) = s" "calls_of (map Content s) = []"
  by (induction s) simp_all

definition atoms :: "('e \<Rightarrow> 'o list) \<Rightarrow> 'e list \<Rightarrow> 'o list" where
  "atoms atom es = concat (map atom es)"

lemma atoms_simps [simp]:
  "atoms f [] = []" "atoms f (e # es) = f e @ atoms f es" "atoms f (es @ es') = atoms f es @ atoms f es'"
  by (simp_all add: atoms_def)

definition observe ::
  "('s \<Rightarrow> 'e list \<times> bool \<times> 's) \<Rightarrow> ('e \<Rightarrow> 'o list) \<Rightarrow> 's \<Rightarrow> ('o list \<times> 's) option" where
  "observe eat atom p = map_option (\<lambda>(es, q). (atoms atom es, q)) (drain eat p [])"

definition prepend :: "'o list \<Rightarrow> ('o list \<times> 's) option \<Rightarrow> ('o list \<times> 's) option" where
  "prepend as r = map_option (\<lambda>(bs, q). (as @ bs, q)) r"

lemma prepend_simps [simp]:
  "prepend [] r = r" "prepend as (Some (bs, q)) = Some (as @ bs, q)" "prepend as None = None"
  "prepend as (prepend bs r) = prepend (as @ bs) r"
  by (cases r; auto simp: prepend_def)+

text \<open>Feeding one chunk after the other, draining after each.\<close>

fun run_chunks ::
  "('s \<Rightarrow> 'e list \<times> bool \<times> 's) \<Rightarrow> (string \<Rightarrow> 's \<Rightarrow> 's) \<Rightarrow> string list \<Rightarrow> 's \<Rightarrow> ('e list \<times> 's) option" where
  "run_chunks eat feed [] p = Some ([], p)"
| "run_chunks eat feed (c # cs) p =
     (case drain eat (feed c p) [] of
        None \<Rightarrow> None
      | Some (es, q) \<Rightarrow>
          (case run_chunks eat feed cs q of
             None \<Rightarrow> None
           | Some (es', r) \<Rightarrow> Some (es @ es', r)))"

section \<open>The loop returns\<close>

locale event_loop =
  fixes eat :: "'s \<Rightarrow> 'e list \<times> bool \<times> 's"
    and mu :: "'s \<Rightarrow> nat"
  assumes eat_decreases: "eat p = (es, True, p') \<Longrightarrow> mu p' < mu p"
begin

lemma drain_returns: "\<exists>es q. \<forall>all. drain eat p all = Some (all @ es, q)"
proof (induction "mu p" arbitrary: p rule: less_induct)
  case less
  obtain es k p' where e: "eat p = (es, k, p')" by (cases "eat p") auto
  show ?case
  proof (cases k)
    case True
    with e have "mu p' < mu p" using eat_decreases by simp
    then obtain es' q where "\<forall>all. drain eat p' all = Some (all @ es', q)" using less by blast
    then have "\<forall>all. drain eat p all = Some (all @ (es @ es'), q)"
      using e True by (subst drain.simps) simp
    then show ?thesis by blast
  next
    case False
    with e have "\<forall>all. drain eat p all = Some (all @ es, p')" by (subst drain.simps) simp
    then show ?thesis by blast
  qed
qed

lemma drain_Some: "\<exists>es q. drain eat p [] = Some (es, q)"
  using drain_returns[of p] by (metis append_Nil)

lemma drain_acc: "drain eat p [] = Some (es, q) \<Longrightarrow> drain eat p all = Some (all @ es, q)"
  using drain_returns[of p] by force

lemma drain_unfold:
  "drain eat p [] =
     (case eat p of
        (es, k, p') \<Rightarrow>
          if k then map_option (\<lambda>(es', q). (es @ es', q)) (drain eat p' []) else Some (es, p'))"
proof -
  obtain es k p' where e: "eat p = (es, k, p')" by (cases "eat p") auto
  obtain es' q where d: "drain eat p' [] = Some (es', q)" using drain_Some by blast
  show ?thesis
    using e drain_acc[OF d, of es] d by (subst drain.simps) simp
qed

lemma observe_unfold:
  "observe eat atom p =
     (case eat p of
        (es, k, p') \<Rightarrow>
          if k then prepend (atoms atom es) (observe eat atom p') else Some (atoms atom es, p'))"
  unfolding observe_def prepend_def
  by (subst drain_unfold) (simp add: option.map_comp comp_def split_beta split: prod.split)

lemma observe_step:
  "eat p = (es, True, p') \<Longrightarrow> observe eat atom p = prepend (atoms atom es) (observe eat atom p')"
  by (subst observe_unfold) simp

lemma observe_stop: "eat p = (es, False, p') \<Longrightarrow> observe eat atom p = Some (atoms atom es, p')"
  by (subst observe_unfold) simp

text \<open>Two states that take the same step, one of them showing \<open>as\<close> in addition.\<close>

lemma observe_same_step:
  assumes "eat p = (es, k, r)" "eat q = (es', k, r)" "atoms atom es = as @ atoms atom es'"
  shows "observe eat atom p = prepend as (observe eat atom q)"
  using assms by (cases k) (simp_all add: observe_step observe_stop)

lemma observe_Some: "\<exists>as q. observe eat atom p = Some (as, q)"
  using drain_Some[of p] by (auto simp: observe_def)

lemma run_chunks_Some: "\<exists>es q. run_chunks eat feed cs p = Some (es, q)"
proof (induction cs arbitrary: p)
  case (Cons c cs)
  obtain es q where d: "drain eat (feed c p) [] = Some (es, q)" using drain_Some by blast
  moreover obtain es' r where "run_chunks eat feed cs q = Some (es', r)" using Cons.IH by blast
  ultimately show ?case by simp
qed simp

lemma drain_invariant:
  assumes "\<And>p es k p'. I p \<Longrightarrow> eat p = (es, k, p') \<Longrightarrow> I p'"
    and "I p" "drain eat p [] = Some (es, q)"
  shows "I q"
  using assms(2,3)
proof (induction "mu p" arbitrary: p es rule: less_induct)
  case less
  obtain es1 k p' where e: "eat p = (es1, k, p')" by (cases "eat p") auto
  have I': "I p'" using assms(1) less.prems(1) e by blast
  show ?case
  proof (cases k)
    case True
    obtain es2 where "drain eat p' [] = Some (es2, q)"
      using less.prems(2) drain_unfold[of p] e True by (auto split: option.splits)
    moreover have "mu p' < mu p" using eat_decreases e True by simp
    ultimately show ?thesis using less.hyps[of p'] I' by blast
  next
    case False
    then show ?thesis using less.prems(2) drain_unfold[of p] e I' by simp
  qed
qed

text \<open>Another \<open>eat\<close> that is the same on the states that occur.\<close>

lemma drain_cong:
  assumes "\<And>p es k p'. I p \<Longrightarrow> eat p = (es, k, p') \<Longrightarrow> eat' p = (es, k, p') \<and> I p'" and "I p"
  shows "drain eat' p all = drain eat p all"
  using assms(2)
proof (induction "mu p" arbitrary: p all rule: less_induct)
  case less
  obtain es k p' where e: "eat p = (es, k, p')" by (cases "eat p") auto
  note e' = assms(1)[OF less.prems e]
  show ?case
  proof (cases k)
    case True
    then have "mu p' < mu p" using eat_decreases e by simp
    then have "drain eat' p' (all @ es) = drain eat p' (all @ es)" using less.hyps e' by blast
    then show ?thesis using e e' True by (subst (1 2) drain.simps) simp
  next
    case False
    then show ?thesis using e e' by (subst (1 2) drain.simps) simp
  qed
qed

text \<open>A property of single events that every step of the loop guarantees.\<close>

lemma drain_events:
  assumes "\<And>p es k p'. I p \<Longrightarrow> eat p = (es, k, p') \<Longrightarrow> I p' \<and> (\<forall>e\<in>set es. Q e)"
    and "I p" "drain eat p [] = Some (es, q)"
  shows "\<forall>e\<in>set es. Q e"
  using assms(2,3)
proof (induction "mu p" arbitrary: p es rule: less_induct)
  case less
  obtain es1 k p' where e: "eat p = (es1, k, p')" by (cases "eat p") auto
  have I': "I p'" and Q: "\<forall>e\<in>set es1. Q e" using assms(1) less.prems(1) e by blast+
  show ?case
  proof (cases k)
    case True
    obtain es2 where d: "drain eat p' [] = Some (es2, q)" "es = es1 @ es2"
      using less.prems(2) drain_unfold[of p] e True by (auto split: option.splits)
    moreover have "mu p' < mu p" using eat_decreases e True by simp
    ultimately have "\<forall>e\<in>set es2. Q e" using less.hyps[of p' es2] I' by blast
    then show ?thesis using Q d(2) by auto
  next
    case False
    then show ?thesis using less.prems(2) drain_unfold[of p] e Q by simp
  qed
qed

end

section \<open>Chunk boundaries are invisible\<close>

text \<open>
  \<open>commute\<close>: taking a step and then receiving more text shows the same, and ends in the same
  state, as receiving the text first. \<open>inv\<close> is what the parser keeps of its state, \<open>okc\<close> what
  the chunks have to satisfy.
\<close>

locale chunked = event_loop eat mu
  for eat :: "'s \<Rightarrow> 'e list \<times> bool \<times> 's" and mu :: "'s \<Rightarrow> nat" +
  fixes feed :: "string \<Rightarrow> 's \<Rightarrow> 's"
    and atom :: "'e \<Rightarrow> 'o list"
    and inv :: "'s \<Rightarrow> bool"
    and okc :: "string \<Rightarrow> bool"
  assumes feed_append: "feed d (feed c p) = feed (c @ d) p"
    and okc_append: "okc c \<Longrightarrow> okc d \<Longrightarrow> okc (c @ d)"
    and inv_feed: "inv p \<Longrightarrow> okc c \<Longrightarrow> inv (feed c p)"
    and inv_eat: "inv p \<Longrightarrow> eat p = (es, k, p') \<Longrightarrow> inv p'"
    and commute: "inv p \<Longrightarrow> okc c \<Longrightarrow> eat p = (es, k, p') \<Longrightarrow>
      observe eat atom (feed c p) = prepend (atoms atom es) (observe eat atom (feed c p'))"
begin

lemma observe_feed:
  assumes "inv p" "okc c" "observe eat atom p = Some (as, q)"
  shows "observe eat atom (feed c p) = prepend as (observe eat atom (feed c q))"
  using assms(1,3)
proof (induction "mu p" arbitrary: p as rule: less_induct)
  case less
  obtain es k p' where e: "eat p = (es, k, p')" by (cases "eat p") auto
  note step = commute[OF less.prems(1) assms(2) e]
  show ?case
  proof (cases k)
    case True
    obtain bs where b: "observe eat atom p' = Some (bs, q)" "as = atoms atom es @ bs"
      using less.prems(2) observe_unfold[of atom p] e True
      by (auto simp: prepend_def split: option.splits)
    have "mu p' < mu p" using eat_decreases e True by simp
    then have "observe eat atom (feed c p') = prepend bs (observe eat atom (feed c q))"
      using less.hyps[of p' bs] inv_eat[OF less.prems(1) e] b(1) by blast
    then show ?thesis using step b by simp
  next
    case False
    then show ?thesis using less.prems(2) observe_unfold[of atom p] e step by simp
  qed
qed

lemma inv_drain: "inv p \<Longrightarrow> drain eat p [] = Some (es, q) \<Longrightarrow> inv q"
  by (rule drain_invariant[of inv]) (auto intro: inv_eat)

lemma observe_two_chunks:
  assumes "inv p" "okc c" "okc d" "drain eat (feed c p) [] = Some (es, q)"
  shows "observe eat atom (feed (c @ d) p) = prepend (atoms atom es) (observe eat atom (feed d q))"
proof -
  have "observe eat atom (feed c p) = Some (atoms atom es, q)"
    using assms(4) by (simp add: observe_def)
  then show ?thesis
    using observe_feed[of "feed c p" d] inv_feed assms by (simp add: feed_append)
qed

text \<open>Feeding the chunks one by one shows what feeding their concatenation shows.\<close>

lemma run_chunks_concat:
  assumes "inv p" "\<forall>c\<in>set cs. okc c" "cs \<noteq> []"
  shows "map_option (\<lambda>(es, q). (atoms atom es, q)) (run_chunks eat feed cs p)
       = observe eat atom (feed (concat cs) p)"
  using assms
proof (induction cs arbitrary: p)
  case (Cons c cs)
  obtain es q where d: "drain eat (feed c p) [] = Some (es, q)" using drain_Some by blast
  show ?case
  proof (cases "cs = []")
    case True
    then show ?thesis using d by (simp add: observe_def)
  next
    case False
    have inv_q: "inv q"
      using inv_drain[OF _ d] inv_feed Cons.prems by simp
    have okc: "okc (concat cs)"
      using False Cons.prems(2)
      by (induction cs rule: list_nonempty_induct) (auto intro: okc_append)
    obtain es' r where rest: "run_chunks eat feed cs q = Some (es', r)"
      using run_chunks_Some by blast
    then have "observe eat atom (feed (concat cs) q) = Some (atoms atom es', r)"
      using Cons.IH[OF inv_q] Cons.prems(2) False by simp
    moreover have "observe eat atom (feed (concat (c # cs)) p)
        = prepend (atoms atom es) (observe eat atom (feed (concat cs) q))"
      using observe_two_chunks[OF Cons.prems(1) _ okc d] Cons.prems(2) by simp
    ultimately show ?thesis using d rest by simp
  qed
qed simp

end

end
