(* ===== verification/GoUtf8.thy ===== *)
theory GoUtf8
  imports GoSpace
begin

text \<open>
  Rune boundaries in byte strings (\<^verbatim>\<open>utf8.DecodeRuneInString\<close>), and the functions of
  \<^verbatim>\<open>strings\<close> that cut a text into many pieces: \<^verbatim>\<open>Split\<close>, \<^verbatim>\<open>Join\<close> and \<^verbatim>\<open>Fields\<close>.
\<close>

section \<open>Runes\<close>

text \<open>The size of the first rune of a non-empty text; an invalid byte is a rune of size 1.\<close>

definition byte_in :: "nat \<Rightarrow> nat \<Rightarrow> char \<Rightarrow> bool" where
  "byte_in lo hi c \<longleftrightarrow> lo \<le> (of_char c :: nat) \<and> (of_char c :: nat) \<le> hi"

definition rune_len :: "string \<Rightarrow> nat" where
  "rune_len s =
     (case s of
        [] \<Rightarrow> 0
      | [a] \<Rightarrow> 1
      | a # b # s' \<Rightarrow>
          if byte_in 0xC2 0xDF a \<and> byte_in 0x80 0xBF b then 2
          else (case s' of
              [] \<Rightarrow> 1
            | c # s'' \<Rightarrow>
                if ((byte_in 0xE0 0xE0 a \<and> byte_in 0xA0 0xBF b)
                    \<or> ((byte_in 0xE1 0xEC a \<or> byte_in 0xEE 0xEF a) \<and> byte_in 0x80 0xBF b)
                    \<or> (byte_in 0xED 0xED a \<and> byte_in 0x80 0x9F b)) \<and> byte_in 0x80 0xBF c then 3
                else (case s'' of
                    [] \<Rightarrow> 1
                  | d # _ \<Rightarrow>
                      if ((byte_in 0xF0 0xF0 a \<and> byte_in 0x90 0xBF b)
                          \<or> (byte_in 0xF1 0xF3 a \<and> byte_in 0x80 0xBF b)
                          \<or> (byte_in 0xF4 0xF4 a \<and> byte_in 0x80 0x8F b))
                         \<and> byte_in 0x80 0xBF c \<and> byte_in 0x80 0xBF d then 4
                      else 1)))"

lemma rune_len_pos: "s \<noteq> [] \<Longrightarrow> 0 < rune_len s"
  by (auto simp: rune_len_def split: list.splits)

text \<open>\<^verbatim>\<open>explode\<close> of \<^verbatim>\<open>strings\<close>: the runes of a text, as texts.\<close>

function explode :: "string \<Rightarrow> string list" where
  "explode s = (if s = [] then [] else take (rune_len s) s # explode (drop (rune_len s) s))"
  by pat_completeness auto
termination
  by (relation "measure length") (auto simp: rune_len_pos)

declare explode.simps [simp del]

lemma explode_Nil [simp]: "explode [] = []"
  by (subst explode.simps) simp

lemma concat_explode: "concat (explode s) = s"
proof (induction s rule: explode.induct)
  case (1 s)
  then show ?case by (cases "s = []") (simp_all add: explode.simps[of s])
qed

section \<open>Split and Join\<close>

text \<open>\<^verbatim>\<open>strings.Split(s, sep)\<close>; an empty separator splits after every rune.\<close>

function go_split :: "string \<Rightarrow> string \<Rightarrow> string list" where
  "go_split s sep =
     (if sep = [] then explode s
      else (case go_index s sep of
              None \<Rightarrow> [s]
            | Some i \<Rightarrow> take i s # go_split (drop (i + length sep) s) sep))"
  by pat_completeness auto
termination
proof (relation "measure (length \<circ> fst)", goal_cases)
  case (2 s sep i)
  then show ?case using go_index_bound[of s sep i] by (cases sep) auto
qed simp

declare go_split.simps [simp del]

text \<open>\<^verbatim>\<open>strings.Join(elems, sep)\<close>\<close>

fun go_join :: "string list \<Rightarrow> string \<Rightarrow> string" where
  "go_join [] sep = []"
| "go_join [a] sep = a"
| "go_join (a # b # as) sep = a @ sep @ go_join (b # as) sep"

lemma go_split_not_Nil: "sep \<noteq> [] \<Longrightarrow> go_split s sep \<noteq> []"
  by (subst go_split.simps) (auto split: option.splits)

lemma go_split_cut:
  "sep \<noteq> [] \<Longrightarrow> go_split s sep =
     (case go_cut s sep of None \<Rightarrow> [s] | Some (a, b) \<Rightarrow> a # go_split b sep)"
  by (subst go_split.simps) (auto simp: go_cut_def split: option.splits)

lemma go_join_split: "sep \<noteq> [] \<Longrightarrow> go_join (go_split s sep) sep = s"
proof (induction s sep rule: go_split.induct)
  case (1 s sep)
  show ?case
  proof (cases "go_index s sep")
    case None
    then show ?thesis using "1.prems" by (simp add: go_split_cut go_cut_def)
  next
    case (Some i)
    let ?b = "drop (i + length sep) s"
    have ih: "go_join (go_split ?b sep) sep = ?b" using 1 Some by simp
    have "go_split s sep = take i s # go_split ?b sep"
      using "1.prems" Some by (simp add: go_split_cut go_cut_def)
    then have "go_join (go_split s sep) sep = take i s @ sep @ ?b"
      using ih go_split_not_Nil[OF "1.prems", of ?b] by (cases "go_split ?b sep") auto
    then show ?thesis using go_index_split[OF Some] by simp
  qed
qed

text \<open>
  The program takes the text after the first separator as \<open>Join(Split(s, sep)[1:], sep)\<close>: for a
  separator that occurs this is what \<open>go_cut\<close> gives.
\<close>

lemma go_split_cut_Some:
  assumes "sep \<noteq> []" "go_cut s sep = Some (a, b)"
  shows "go_split s sep = a # go_split b sep" "go_join (go_split b sep) sep = b"
  using go_split_cut[OF assms(1), of s] go_join_split[OF assms(1)] assms(2) by simp_all

section \<open>Fields\<close>

text \<open>\<^verbatim>\<open>strings.IndexFunc(s, unicode.IsSpace)\<close>\<close>

fun index_space :: "string \<Rightarrow> nat option" where
  "index_space [] = None"
| "index_space (c # s) = (if space_len (c # s) > 0 then Some 0 else map_option Suc (index_space s))"

lemma index_space_pos: "space_len s = 0 \<Longrightarrow> index_space s = Some i \<Longrightarrow> 0 < i \<and> i < length s"
proof -
  have "index_space s = Some i \<Longrightarrow> i < length s" for s i
    by (induction s arbitrary: i) (auto split: if_splits)
  then show "space_len s = 0 \<Longrightarrow> index_space s = Some i \<Longrightarrow> 0 < i \<and> i < length s"
    by (cases s) (auto split: if_splits)
qed

text \<open>\<^verbatim>\<open>strings.Fields(s)\<close>: the maximal runs of text without white space.\<close>

function go_fields :: "string \<Rightarrow> string list" where
  "go_fields s =
     (let t = trim_left s in
      if t = [] then []
      else (case index_space t of
              None \<Rightarrow> [t]
            | Some i \<Rightarrow> take i t # go_fields (drop i t)))"
  by pat_completeness auto
termination
proof (relation "measure length", goal_cases)
  case (2 s t i)
  then have "0 < i" "i < length t"
    using index_space_pos[OF space_len_trim_left, of s i] by auto
  then show ?case using 2 length_trim_left[of s] by simp
qed simp

declare go_fields.simps [simp del]

section \<open>Printable ASCII text\<close>

text \<open>White space is easy to find between printable ASCII bytes.\<close>

definition plain_char :: "char \<Rightarrow> bool" where "plain_char c = byte_in 33 126 c"

lemma plain_char_cont: "plain_char c \<Longrightarrow> \<not> cont_byte c"
  by (simp add: plain_char_def byte_in_def cont_byte_def)

lemma space_encs_plain: "e \<in> set space_encs \<Longrightarrow> \<not> plain_char (hd e) \<and> \<not> plain_char (last e)"
proof -
  have "\<forall>e\<in>set space_encs. \<not> plain_char (hd e) \<and> \<not> plain_char (last e)" by code_simp
  then show "e \<in> set space_encs \<Longrightarrow> \<not> plain_char (hd e) \<and> \<not> plain_char (last e)" by blast
qed

lemma space_len_plain: "plain_char c \<Longrightarrow> space_len (c # s) = 0"
  by (rule space_len_cases[of "c # s"]) (auto simp: prefix_Cons dest: space_encs_plain space_encs_nonempty)

lemma space_len_r_plain: "plain_char c \<Longrightarrow> space_len_r (s @ [c]) = 0"
proof (rule space_len_r_cases[of "s @ [c]"])
  fix e assume "plain_char c" "e \<in> set space_encs" "suffix e (s @ [c])"
  moreover have "e \<noteq> []" using \<open>e \<in> set space_encs\<close> space_encs_nonempty by blast
  then have "last (s @ [c]) = last e" using \<open>suffix e (s @ [c])\<close> by (metis last_appendR suffix_def)
  ultimately have False using space_encs_plain[of e] by simp
  then show "space_len_r (s @ [c]) = 0" ..
qed

lemma space_len_blank: "space_len (CHR '' '' # s) = 1"
  using space_len_prefix[of "'' ''" s] by (simp add: space_encs_def)

lemma trim_left_plain [simp]: "plain_char c \<Longrightarrow> trim_left (c # s) = c # s"
  by (simp add: space_len_plain trim_left_stop)

lemma trim_right_plain [simp]: "plain_char c \<Longrightarrow> trim_right (s @ [c]) = s @ [c]"
  by (simp add: space_len_r_plain trim_right_stop)

lemma trim_space_plain: "s \<noteq> [] \<Longrightarrow> plain_char (hd s) \<Longrightarrow> plain_char (last s) \<Longrightarrow> trim_space s = s"
proof -
  assume s: "s \<noteq> []" "plain_char (hd s)" "plain_char (last s)"
  then have "trim_left s = s" by (cases s) simp_all
  moreover have "trim_right s = s" using s trim_right_plain[of "last s" "butlast s"] by simp
  ultimately show ?thesis by (simp add: trim_space_def)
qed

lemma trim_left_blank: "trim_left (CHR '' '' # s) = trim_left s"
  using trim_left_enc[of "'' ''" s] by (simp add: space_encs_def)

lemma index_space_plain: "list_all plain_char w \<Longrightarrow> index_space (w @ s) = map_option (\<lambda>i. length w + i) (index_space s)"
  by (induction w; cases "index_space s") (auto simp: space_len_plain)

lemma go_fields_Nil [simp]: "go_fields [] = []"
  by (subst go_fields.simps) (simp add: Let_def)

lemma go_fields_blank: "go_fields (CHR '' '' # s) = go_fields s"
  by (subst (1 2) go_fields.simps) (simp only: trim_left_blank)

lemma go_fields_plain:
  assumes "w \<noteq> []" "list_all plain_char w"
  shows "go_fields w = [w]" "go_fields (w @ CHR '' '' # s) = w # go_fields s"
proof -
  obtain c w' where w: "w = c # w'" "plain_char c" using assms by (cases w) auto
  have "index_space w = None" using index_space_plain[OF assms(2), of "[]"] by simp
  then show "go_fields w = [w]" using w by (subst go_fields.simps) simp
  have "index_space (w @ CHR '' '' # s) = Some (length w)"
    using index_space_plain[OF assms(2), of "CHR '' '' # s"] by (simp add: space_len_blank)
  then show "go_fields (w @ CHR '' '' # s) = w # go_fields s"
    using w by (subst go_fields.simps) (simp add: go_fields_blank)
qed

end
