(* ===== verification/Thinking.thy ===== *)
theory Thinking
  imports Streaming GoUtf8
begin

text \<open>
  \<^verbatim>\<open>thinking/parser.go\<close>: the parser that separates the text between an opening and a closing
  tag ("thinking") from the rest of a model's output, chunk by chunk. The tags are given by the
  model's template, so they are fields of the parser.
\<close>

section \<open>The parser\<close>

datatype thinkingState =
    LookingForOpening
  | ThinkingStartedEatingWhitespace
  | Thinking
  | ThinkingDoneEatingWhitespace
  | ThinkingDone

fun thinkingState_String :: "thinkingState \<Rightarrow> string" where
  "thinkingState_String LookingForOpening = ''LookingForOpening''"
| "thinkingState_String ThinkingStartedEatingWhitespace = ''ThinkingStartedEatingWhitespace''"
| "thinkingState_String Thinking = ''Thinking''"
| "thinkingState_String ThinkingDoneEatingWhitespace = ''ThinkingDoneEatingWhitespace''"
| "thinkingState_String ThinkingDone = ''ThinkingDone''"

record thinking_parser =
  th_state :: thinkingState
  OpeningTag :: string
  ClosingTag :: string
  th_acc :: string

text \<open>
  One call of \<open>eat\<close>: the thinking text, the remaining text, and whether to go on. With an empty
  tag \<^verbatim>\<open>strings.Split\<close> can return no piece at all, and the code's \<open>[0]\<close> or \<open>[1:]\<close> panics:
  \<open>None\<close>.
\<close>

definition thinking_eat ::
  "thinking_parser \<Rightarrow> ((string \<times> string) \<times> bool \<times> thinking_parser) option" where
  "thinking_eat s =
     (case th_state s of
        LookingForOpening \<Rightarrow>
          (let trimmed = trim_left (th_acc s) in
           if prefix (OpeningTag s) trimmed then
             (case go_split trimmed (OpeningTag s) of
                [] \<Rightarrow> None
              | _ # rest \<Rightarrow>
                  (let after = trim_left (go_join rest (OpeningTag s)) in
                   Some (([], []), True,
                     s\<lparr>th_state := if after = [] then ThinkingStartedEatingWhitespace else Thinking,
                       th_acc := after\<rparr>)))
           else if prefix trimmed (OpeningTag s) then Some (([], []), False, s)
           else if trimmed = [] then Some (([], []), False, s)
           else Some (([], th_acc s), False, s\<lparr>th_state := ThinkingDone, th_acc := []\<rparr>))
      | ThinkingStartedEatingWhitespace \<Rightarrow>
          (let trimmed = trim_left (th_acc s) in
           if trimmed = [] then Some (([], []), False, s\<lparr>th_acc := []\<rparr>)
           else Some (([], []), True, s\<lparr>th_state := Thinking, th_acc := trimmed\<rparr>))
      | Thinking \<Rightarrow>
          (let acc = th_acc s in
           if go_contains acc (ClosingTag s) then
             (case go_split acc (ClosingTag s) of
                [] \<Rightarrow> None
              | thinking # rest \<Rightarrow>
                  (let remaining = trim_left (go_join rest (ClosingTag s)) in
                   Some ((thinking, remaining), False,
                     s\<lparr>th_state := if remaining = [] then ThinkingDoneEatingWhitespace else ThinkingDone,
                       th_acc := []\<rparr>)))
           else
             (let overlapLen = overlap acc (ClosingTag s) in
              if overlapLen > 0 then
                Some ((take (length acc - overlapLen) acc, []), False,
                  s\<lparr>th_acc := drop (length acc - overlapLen) acc\<rparr>)
              else Some ((acc, []), False, s\<lparr>th_acc := []\<rparr>)))
      | ThinkingDoneEatingWhitespace \<Rightarrow>
          (let trimmed = trim_left (th_acc s) in
           Some (([], trimmed), False,
             (if trimmed \<noteq> [] then s\<lparr>th_state := ThinkingDone, th_acc := []\<rparr> else s\<lparr>th_acc := []\<rparr>)))
      | ThinkingDone \<Rightarrow> Some (([], th_acc s), False, s\<lparr>th_acc := []\<rparr>))"

definition thinking_feed :: "string \<Rightarrow> thinking_parser \<Rightarrow> thinking_parser" where
  "thinking_feed content s = s\<lparr>th_acc := th_acc s @ content\<rparr>"

text \<open>\<open>AddContent\<close>: \<open>None\<close> is a panic (or a loop that never ends, which does not happen).\<close>

definition thinking_AddContent ::
  "thinking_parser \<Rightarrow> string \<Rightarrow> ((string \<times> string) \<times> thinking_parser) option" where
  "thinking_AddContent s content =
     (case drain (guarded thinking_eat) (Some (thinking_feed content s)) [] of
        Some (es, Some s') \<Rightarrow> Some ((concat (map fst es), concat (map snd es)), s')
      | _ \<Rightarrow> None)"

fun thinking_AddContents ::
  "thinking_parser \<Rightarrow> string list \<Rightarrow> ((string \<times> string) \<times> thinking_parser) option" where
  "thinking_AddContents s [] = Some (([], []), s)"
| "thinking_AddContents s (c # cs) =
     (case thinking_AddContent s c of
        None \<Rightarrow> None
      | Some ((th, rem), s') \<Rightarrow>
          (case thinking_AddContents s' cs of
             None \<Rightarrow> None
           | Some ((th', rem'), s'') \<Rightarrow> Some ((th @ th', rem @ rem'), s'')))"

section \<open>The loop returns, and chunk boundaries are invisible\<close>

fun thinking_rank :: "thinking_parser option \<Rightarrow> nat" where
  "thinking_rank None = 0"
| "thinking_rank (Some s) =
     (case th_state s of LookingForOpening \<Rightarrow> 2 | ThinkingStartedEatingWhitespace \<Rightarrow> 1 | _ \<Rightarrow> 0)"

fun thinking_atom :: "string \<times> string \<Rightarrow> unit atom list" where
  "thinking_atom (th, rem) = map Think th @ map Content rem"

text \<open>The parser has not panicked, its tags are not empty, and its buffer ends on a rune.\<close>

fun thinking_inv :: "thinking_parser option \<Rightarrow> bool" where
  "thinking_inv None = False"
| "thinking_inv (Some s) = (OpeningTag s \<noteq> [] \<and> ClosingTag s \<noteq> [] \<and> aligned (th_acc s))"

lemma thinking_eat_looking:
  assumes "th_state s = LookingForOpening" "OpeningTag s \<noteq> []"
  shows "thinking_eat s =
    (let trimmed = trim_left (th_acc s) in
     if prefix (OpeningTag s) trimmed then
       (let after = trim_left (drop (length (OpeningTag s)) trimmed) in
        Some (([], []), True,
          s\<lparr>th_state := if after = [] then ThinkingStartedEatingWhitespace else Thinking,
            th_acc := after\<rparr>))
     else if prefix trimmed (OpeningTag s) then Some (([], []), False, s)
     else Some (([], th_acc s), False, s\<lparr>th_state := ThinkingDone, th_acc := []\<rparr>))"
proof -
  let ?t = "trim_left (th_acc s)"
  have "go_split ?t (OpeningTag s) = [] # go_split (drop (length (OpeningTag s)) ?t) (OpeningTag s)"
    "go_join (go_split (drop (length (OpeningTag s)) ?t) (OpeningTag s)) (OpeningTag s)
       = drop (length (OpeningTag s)) ?t" if p: "prefix (OpeningTag s) ?t"
  proof -
    have "go_index ?t (OpeningTag s) = Some 0" using p by (intro go_index_eqI) auto
    then have c: "go_cut ?t (OpeningTag s) = Some ([], drop (length (OpeningTag s)) ?t)"
      by (simp add: go_cut_def)
    show "go_split ?t (OpeningTag s) = [] # go_split (drop (length (OpeningTag s)) ?t) (OpeningTag s)"
      "go_join (go_split (drop (length (OpeningTag s)) ?t) (OpeningTag s)) (OpeningTag s)
       = drop (length (OpeningTag s)) ?t"
      using go_split_cut_Some[OF assms(2) c] by simp_all
  qed
  then show ?thesis
    using assms by (auto simp: thinking_eat_def Let_def)
qed

lemma thinking_eat_thinking:
  assumes "th_state s = Thinking" "ClosingTag s \<noteq> []"
  shows "thinking_eat s =
    (case go_cut (th_acc s) (ClosingTag s) of
       Some (a, b) \<Rightarrow>
         Some ((a, trim_left b), False,
           s\<lparr>th_state := if trim_left b = [] then ThinkingDoneEatingWhitespace else ThinkingDone,
             th_acc := []\<rparr>)
     | None \<Rightarrow>
         Some ((unheld [ClosingTag s] (th_acc s), []), False,
           s\<lparr>th_acc := held [ClosingTag s] (th_acc s)\<rparr>))"
proof (cases "go_cut (th_acc s) (ClosingTag s)")
  case None
  then show ?thesis
    using assms by (simp add: thinking_eat_def Let_def go_contains_cut unheld_def held_def)
next
  case (Some ab)
  then obtain a b where c: "go_cut (th_acc s) (ClosingTag s) = Some (a, b)" by (cases ab) auto
  then show ?thesis
    using assms go_split_cut_Some[OF assms(2) c] by (simp add: thinking_eat_def Let_def go_contains_cut)
qed

lemma thinking_eat_decreases:
  "guarded thinking_eat p = (es, True, p') \<Longrightarrow> thinking_rank p' < thinking_rank p"
  by (cases p) (auto simp: thinking_eat_def Let_def split: option.splits thinkingState.splits
      if_splits list.splits)

interpretation thinking_loop: event_loop "guarded thinking_eat" thinking_rank
  by unfold_locales (rule thinking_eat_decreases)

lemmas thinking_observe = thinking_loop.observe_unfold[of thinking_atom]

text \<open>With non-empty tags no call of \<open>eat\<close> panics, and the tags and the alignment are kept.\<close>

lemma thinking_eat_Some:
  assumes "OpeningTag s \<noteq> []" "ClosingTag s \<noteq> []"
  shows "\<exists>ev k s'. thinking_eat s = Some (ev, k, s') \<and> OpeningTag s' = OpeningTag s
      \<and> ClosingTag s' = ClosingTag s \<and> (aligned (th_acc s) \<longrightarrow> aligned (th_acc s'))"
proof (cases "th_state s")
  case LookingForOpening
  have "aligned (th_acc s) \<Longrightarrow> aligned (drop n (trim_left (th_acc s)))" for n
    by (simp add: aligned_drop aligned_trim_left)
  then show ?thesis
    using LookingForOpening assms
    by (auto simp: thinking_eat_looking Let_def aligned_trim_left)
next
  case Thinking
  then show ?thesis
    using assms by (auto simp: thinking_eat_thinking aligned_suffix[OF _ suffix_held] split: option.splits)
qed (use assms in \<open>auto simp: thinking_eat_def Let_def aligned_trim_left\<close>)

lemma thinking_inv_eat:
  "thinking_inv p \<Longrightarrow> guarded thinking_eat p = (es, k, p') \<Longrightarrow> thinking_inv p'"
  by (cases p) (use thinking_eat_Some in \<open>fastforce split: option.splits\<close>)+

abbreviation thinking_shows :: "thinking_parser \<Rightarrow> (unit atom list \<times> thinking_parser option) option" where
  "thinking_shows s \<equiv> observe (guarded thinking_eat) thinking_atom (Some s)"

lemma thinking_shows_stop:
  "thinking_eat s = Some (ev, False, s') \<Longrightarrow> thinking_shows s = Some (thinking_atom ev, Some s')"
  by (simp add: thinking_observe)

lemma thinking_shows_go:
  "thinking_eat s = Some (ev, True, s') \<Longrightarrow> thinking_shows s = prepend (thinking_atom ev) (thinking_shows s')"
  by (subst thinking_observe) simp

lemma thinking_feed_fields [simp]:
  "th_state (thinking_feed c s) = th_state s" "OpeningTag (thinking_feed c s) = OpeningTag s"
  "ClosingTag (thinking_feed c s) = ClosingTag s" "th_acc (thinking_feed c s) = th_acc s @ c"
  by (simp_all add: thinking_feed_def)

text \<open>What the two states that eat white space show depends on the trimmed buffer only.\<close>

lemma thinking_shows_started:
  assumes "th_state s = ThinkingStartedEatingWhitespace"
  shows "thinking_shows s =
    (if trim_left (th_acc s) = [] then Some ([], Some (s\<lparr>th_acc := []\<rparr>))
     else thinking_shows (s\<lparr>th_state := Thinking, th_acc := trim_left (th_acc s)\<rparr>))"
  by (subst thinking_observe) (simp add: assms thinking_eat_def Let_def)

text \<open>More text behind a state's buffer, state by state.\<close>

lemma thinking_commute_looking:
  assumes st: "th_state s = LookingForOpening" and op: "OpeningTag s \<noteq> []" and al: "aligned (th_acc s)"
    and e: "thinking_eat s = Some (ev, k, s')"
  shows "thinking_shows (thinking_feed c s) = prepend (thinking_atom ev) (thinking_shows (thinking_feed c s'))"
proof -
  let ?t = "trim_left (th_acc s)" and ?op = "OpeningTag s" and ?s = "thinking_feed c s"
  note look = thinking_eat_looking[OF st op]
  have look': "thinking_eat ?s = (let trimmed = trim_left (th_acc s @ c) in
     if prefix ?op trimmed then
       (let after = trim_left (drop (length ?op) trimmed) in
        Some (([], []), True, s\<lparr>th_state := if after = [] then ThinkingStartedEatingWhitespace else Thinking,
            th_acc := after\<rparr>))
     else if prefix trimmed ?op then Some (([], []), False, ?s)
     else Some (([], th_acc s @ c), False, s\<lparr>th_state := ThinkingDone, th_acc := []\<rparr>))"
    using thinking_eat_looking[of ?s] st op by (simp add: thinking_feed_def Let_def)
  consider (opened) "prefix ?op ?t" | (waiting) "\<not> prefix ?op ?t" "prefix ?t ?op"
    | (skipped) "\<not> comparable ?t ?op" unfolding comparable_def by blast
  then show ?thesis
  proof cases
    case opened
    then obtain u where u: "?t = ?op @ u" by (auto simp: prefix_def)
    then have t': "trim_left (th_acc s @ c) = ?op @ u @ c"
      using op al by (simp add: trim_left_append)
    have "aligned ?t" using al by (rule aligned_trim_left)
    then have "aligned u" unfolding u by (rule aligned_suffix) (simp add: suffix_def)
    then have uc: "trim_left (u @ c) = (if trim_left u = [] then trim_left c else trim_left u @ c)"
      by (rule trim_left_append_cases)
    have s': "ev = ([], [])" "s' = s\<lparr>th_state := if trim_left u = [] then ThinkingStartedEatingWhitespace else Thinking,
        th_acc := trim_left u\<rparr>"
      using e by (simp_all add: look u Let_def)
    show ?thesis
    proof (cases "trim_left u = []")
      case True
      then have go: "thinking_eat ?s = Some (([], []), True, s\<lparr>th_state := if trim_left c = [] then ThinkingStartedEatingWhitespace else Thinking,
          th_acc := trim_left c\<rparr>)"
        by (simp add: look' t' uc Let_def)
      show ?thesis
        using True s' thinking_shows_go[OF go]
        by (simp add: thinking_shows_started thinking_feed_def)
    next
      case False
      have "thinking_feed c s' = s\<lparr>th_state := Thinking, th_acc := trim_left u @ c\<rparr>"
        using False by (simp add: s' thinking_feed_def)
      then have go: "thinking_eat ?s = Some (([], []), True, thinking_feed c s')"
        using False by (simp add: look' t' uc Let_def)
      show ?thesis using thinking_shows_go[OF go] s'(1) by simp
    qed
  next
    case waiting
    then show ?thesis using e by (auto simp: look Let_def)
  next
    case skipped
    then have ne: "?t \<noteq> []" by (auto simp: comparable_def)
    have "\<not> comparable (?t @ c) ?op" using skipped comparable_append by blast
    then have "thinking_eat ?s = Some (([], th_acc s @ c), False, s\<lparr>th_state := ThinkingDone, th_acc := []\<rparr>)"
      using ne al by (simp add: look' trim_left_append Let_def comparable_def)
    then have "thinking_shows ?s
        = Some (thinking_atom ([], th_acc s @ c), Some (s\<lparr>th_state := ThinkingDone, th_acc := []\<rparr>))"
      by (rule thinking_shows_stop)
    moreover have "ev = ([], th_acc s)" "s' = s\<lparr>th_state := ThinkingDone, th_acc := []\<rparr>"
      using skipped e by (simp_all add: look Let_def comparable_def)
    moreover have "thinking_eat (thinking_feed c (s\<lparr>th_state := ThinkingDone, th_acc := []\<rparr>))
        = Some (([], c), False, s\<lparr>th_state := ThinkingDone, th_acc := []\<rparr>)"
      by (simp add: thinking_eat_def thinking_feed_def)
    ultimately show ?thesis using thinking_shows_stop by fastforce
  qed
qed

lemma thinking_commute_thinking:
  assumes st: "th_state s = Thinking" and cl: "ClosingTag s \<noteq> []" and al: "aligned (th_acc s)"
    and e: "thinking_eat s = Some (ev, k, s')"
  shows "thinking_shows (thinking_feed c s) = prepend (thinking_atom ev) (thinking_shows (thinking_feed c s'))"
proof (cases "go_cut (th_acc s) (ClosingTag s)")
  case (Some ab)
  then obtain a b where cut: "go_cut (th_acc s) (ClosingTag s) = Some (a, b)" by (cases ab) auto
  let ?fin = "\<lambda>x. s\<lparr>th_state := if x = [] then ThinkingDoneEatingWhitespace else ThinkingDone,
      th_acc := []\<rparr>"
  have "suffix b (th_acc s)" using go_cut_Some[OF cut] by (metis append_assoc suffixI)
  then have "aligned b" using al aligned_suffix by blast
  then have bc: "trim_left (b @ c) = (if trim_left b = [] then trim_left c else trim_left b @ c)"
    by (rule trim_left_append_cases)
  have s': "ev = (a, trim_left b)" "s' = ?fin (trim_left b)"
    using e by (simp_all add: thinking_eat_thinking st cl cut)
  have "thinking_eat (thinking_feed c s) = Some ((a, trim_left (b @ c)), False, ?fin (trim_left (b @ c)))"
    using thinking_eat_thinking[of "thinking_feed c s"] st cl go_cut_append[OF cut]
    by (simp add: thinking_feed_def)
  then have "thinking_shows (thinking_feed c s)
      = Some (thinking_atom (a, trim_left (b @ c)), Some (?fin (trim_left (b @ c))))"
    by (rule thinking_shows_stop)
  moreover have "thinking_shows (thinking_feed c s')
      = Some (thinking_atom ([], if trim_left b = [] then trim_left c else c), Some (?fin (trim_left (b @ c))))"
    by (rule thinking_shows_stop) (auto simp: s' thinking_eat_def thinking_feed_def Let_def bc)
  ultimately show ?thesis by (simp add: bc s')
next
  case None
  let ?p = "unheld [ClosingTag s] (th_acc s)" and ?r = "held [ClosingTag s] (th_acc s)"
  note hold = hold_append[of "[ClosingTag s]" "th_acc s", simplified, OF None]
  have s': "ev = (?p, [])" "s' = s\<lparr>th_acc := ?r\<rparr>"
    using e by (simp_all add: thinking_eat_thinking st cl None)
  let ?x = "thinking_feed c s'"
  have x: "th_state ?x = Thinking" "ClosingTag ?x = ClosingTag s" "th_acc ?x = ?r @ c"
    using st by (simp_all add: s')
  have "\<exists>a b y. thinking_eat ?x = Some ((a, b), False, y)
      \<and> thinking_eat (thinking_feed c s) = Some ((?p @ a, b), False, y)"
    using thinking_eat_thinking[of ?x] thinking_eat_thinking[of "thinking_feed c s"] x st cl
    by (cases "go_cut (?r @ c) (ClosingTag s)") (auto simp: hold s' thinking_feed_def)
  then obtain a b y where y: "thinking_eat ?x = Some ((a, b), False, y)"
    "thinking_eat (thinking_feed c s) = Some ((?p @ a, b), False, y)" by blast
  show ?thesis
    unfolding thinking_shows_stop[OF y(1)] thinking_shows_stop[OF y(2)] by (simp add: s'(1))
qed

lemma thinking_commute:
  assumes "thinking_inv p" "guarded thinking_eat p = (es, k, p')"
  shows "observe (guarded thinking_eat) thinking_atom (map_option (thinking_feed c) p)
    = prepend (atoms thinking_atom es)
        (observe (guarded thinking_eat) thinking_atom (map_option (thinking_feed c) p'))"
proof -
  obtain s where p: "p = Some s" and tags: "OpeningTag s \<noteq> []" "ClosingTag s \<noteq> []"
    and al: "aligned (th_acc s)" using assms(1) by (cases p) auto
  obtain ev s' where e: "thinking_eat s = Some (ev, k, s')" and es: "es = [ev]" "p' = Some s'"
    using thinking_eat_Some[OF tags] assms(2) p by auto
  have "thinking_shows (thinking_feed c s) = prepend (thinking_atom ev) (thinking_shows (thinking_feed c s'))"
  proof (cases "th_state s")
    case LookingForOpening
    then show ?thesis using thinking_commute_looking tags(1) al e by blast
  next
    case ThinkingStartedEatingWhitespace
    show ?thesis
    proof (cases "trim_left (th_acc s) = []")
      case True
      then show ?thesis
        using e ThinkingStartedEatingWhitespace
        by (simp add: thinking_eat_def thinking_shows_started trim_left_ws_append)
          (auto simp: thinking_shows_started thinking_feed_def)
    next
      case False
      then have "ev = ([], [])" "s' = s\<lparr>th_state := Thinking, th_acc := trim_left (th_acc s)\<rparr>"
        using e ThinkingStartedEatingWhitespace by (simp_all add: thinking_eat_def)
      then show ?thesis
        using False ThinkingStartedEatingWhitespace
          thinking_shows_started[of "thinking_feed c s"] trim_left_append[OF al False]
        by (simp add: thinking_feed_def)
    qed
  next
    case Thinking
    then show ?thesis using thinking_commute_thinking tags(2) al e by blast
  next
    case ThinkingDoneEatingWhitespace
    let ?fin = "\<lambda>t. if t \<noteq> [] then s\<lparr>th_state := ThinkingDone, th_acc := []\<rparr> else s\<lparr>th_acc := []\<rparr>"
    let ?t = "trim_left (th_acc s)"
    have feed: "thinking_shows (thinking_feed c s)
        = Some (map Content (trim_left (th_acc s @ c)), Some (?fin (trim_left (th_acc s @ c))))"
      using ThinkingDoneEatingWhitespace
      by (subst thinking_shows_stop) (auto simp: thinking_eat_def thinking_feed_def Let_def)
    have s': "ev = ([], ?t)" "s' = ?fin ?t"
      using e ThinkingDoneEatingWhitespace by (auto simp: thinking_eat_def Let_def)
    have "thinking_shows (thinking_feed c s')
        = Some (map Content (if ?t = [] then trim_left c else c), Some (?fin (trim_left (th_acc s @ c))))"
    proof (cases "?t = []")
      case True
      then show ?thesis
        using ThinkingDoneEatingWhitespace
        by (intro thinking_shows_stop[of _ "([], x)" for x, simplified])
          (auto simp: s' thinking_eat_def thinking_feed_def Let_def trim_left_ws_append)
    next
      case False
      then show ?thesis
        using ThinkingDoneEatingWhitespace trim_left_append[OF al False, of c]
        by (intro thinking_shows_stop[of _ "([], x)" for x, simplified])
          (auto simp: s' thinking_eat_def thinking_feed_def Let_def)
    qed
    then show ?thesis using feed s'(1) trim_left_append_cases[OF al, of c] by simp
  next
    case ThinkingDone
    then have "ev = ([], th_acc s)" "s' = s\<lparr>th_acc := []\<rparr>" using e by (simp_all add: thinking_eat_def)
    moreover have "thinking_eat (thinking_feed c s) = Some (([], th_acc s @ c), False, s\<lparr>th_acc := []\<rparr>)"
      "thinking_eat (thinking_feed c (s\<lparr>th_acc := []\<rparr>)) = Some (([], c), False, s\<lparr>th_acc := []\<rparr>)"
      using ThinkingDone by (simp_all add: thinking_eat_def thinking_feed_def)
    ultimately show ?thesis using thinking_shows_stop by fastforce
  qed
  then show ?thesis using p es by simp
qed

interpretation thinking_chunks: chunked "guarded thinking_eat" thinking_rank
    "\<lambda>c. map_option (thinking_feed c)" thinking_atom thinking_inv aligned
proof unfold_locales
  show "map_option (thinking_feed d) (map_option (thinking_feed c) p) = map_option (thinking_feed (c @ d)) p"
    for c d p by (cases p) (simp_all add: thinking_feed_def)
  show "thinking_inv p \<Longrightarrow> aligned c \<Longrightarrow> thinking_inv (map_option (thinking_feed c) p)" for c p
    by (cases p) (simp_all add: aligned_append)
  show "thinking_inv p \<Longrightarrow> guarded thinking_eat p = (es, k, p') \<Longrightarrow> thinking_inv p'" for p es k p'
    by (rule thinking_inv_eat)
  show "observe (guarded thinking_eat) thinking_atom (map_option (thinking_feed c) p)
      = prepend (atoms thinking_atom es)
          (observe (guarded thinking_eat) thinking_atom (map_option (thinking_feed c) p'))"
    if "thinking_inv p" "guarded thinking_eat p = (es, k, p')" for c p es k p'
    using that by (rule thinking_commute)
qed (rule aligned_append)

section \<open>What the parser computes\<close>

text \<open>
  The specification, over the whole text: thinking is what stands between the opening tag (white
  space before it ignored) and the first closing tag, the rest is what follows, both without
  leading white space; text that does not start with the tag passes unchanged. While the end may
  still turn out to be a tag, it is withheld.
\<close>

definition thinking_spec :: "string \<Rightarrow> string \<Rightarrow> string \<Rightarrow> string \<times> string" where
  "thinking_spec opening closing s =
     (let t = trim_left s in
      if prefix opening t then
        (let u = trim_left (drop (length opening) t) in
         case go_cut u closing of
           Some (th, rem) \<Rightarrow> (th, trim_left rem)
         | None \<Rightarrow> (unheld [closing] u, []))
      else if prefix t opening then ([], [])
      else ([], s))"

definition new_thinking_parser :: "string \<Rightarrow> string \<Rightarrow> thinking_parser" where
  "new_thinking_parser opening closing =
     \<lparr>th_state = LookingForOpening, OpeningTag = opening, ClosingTag = closing, th_acc = []\<rparr>"

lemma thinking_outputs:
  "concat (map fst es) = thinking_of (atoms thinking_atom es)"
  "concat (map snd es) = content_of (atoms thinking_atom es)"
  by (induction es) auto

lemma thinking_drain_Some:
  assumes "OpeningTag s \<noteq> []" "ClosingTag s \<noteq> []"
  shows "\<exists>es s'. drain (guarded thinking_eat) (Some s) [] = Some (es, Some s')
    \<and> OpeningTag s' = OpeningTag s \<and> ClosingTag s' = ClosingTag s"
proof -
  let ?I = "\<lambda>p. \<exists>s'. p = Some s' \<and> OpeningTag s' = OpeningTag s \<and> ClosingTag s' = ClosingTag s"
  obtain es q where d: "drain (guarded thinking_eat) (Some s) [] = Some (es, q)"
    using thinking_loop.drain_Some by blast
  moreover have "?I q"
  proof (rule thinking_loop.drain_invariant[OF _ _ d])
    show "?I (Some s)" by simp
    show "?I p'" if I: "?I p" and e: "guarded thinking_eat p = (es, k, p')" for p es k p'
    proof -
      obtain s' where p: "p = Some s'" "OpeningTag s' = OpeningTag s" "ClosingTag s' = ClosingTag s"
        using I by blast
      then show ?thesis using thinking_eat_Some[of s'] assms e by auto
    qed
  qed
  ultimately show ?thesis by blast
qed

lemma thinking_AddContent_shows:
  assumes "OpeningTag s \<noteq> []" "ClosingTag s \<noteq> []"
  shows "\<exists>as s'. thinking_shows (thinking_feed c s) = Some (as, Some s')
    \<and> thinking_AddContent s c = Some ((thinking_of as, content_of as), s')
    \<and> OpeningTag s' = OpeningTag s \<and> ClosingTag s' = ClosingTag s"
  using thinking_drain_Some[of "thinking_feed c s"] assms
  by (auto simp: observe_def thinking_AddContent_def thinking_outputs)

lemma thinking_AddContents_run:
  assumes "OpeningTag s \<noteq> []" "ClosingTag s \<noteq> []"
  shows "\<exists>es s'. run_chunks (guarded thinking_eat) (\<lambda>c. map_option (thinking_feed c)) cs (Some s) = Some (es, Some s')
    \<and> thinking_AddContents s cs
      = Some ((thinking_of (atoms thinking_atom es), content_of (atoms thinking_atom es)), s')"
  using assms
proof (induction cs arbitrary: s)
  case (Cons c cs)
  obtain es s' where d: "drain (guarded thinking_eat) (Some (thinking_feed c s)) [] = Some (es, Some s')"
    "OpeningTag s' = OpeningTag s" "ClosingTag s' = ClosingTag s"
    using thinking_drain_Some[of "thinking_feed c s"] Cons.prems by auto
  moreover obtain es2 s2 where
    "run_chunks (guarded thinking_eat) (\<lambda>c. map_option (thinking_feed c)) cs (Some s') = Some (es2, Some s2)"
    "thinking_AddContents s' cs
      = Some ((thinking_of (atoms thinking_atom es2), content_of (atoms thinking_atom es2)), s2)"
    using Cons.IH[of s'] Cons.prems d by auto
  ultimately show ?case by (simp add: thinking_AddContent_def thinking_outputs)
qed simp

lemma thinking_AddContents_concat:
  assumes "OpeningTag s \<noteq> []" "ClosingTag s \<noteq> []" "aligned (th_acc s)"
    and "\<forall>c\<in>set cs. aligned c" "cs \<noteq> []"
  shows "thinking_AddContents s cs = thinking_AddContent s (concat cs)"
proof -
  obtain es s' where r: "run_chunks (guarded thinking_eat) (\<lambda>c. map_option (thinking_feed c)) cs (Some s)
      = Some (es, Some s')"
    "thinking_AddContents s cs
      = Some ((thinking_of (atoms thinking_atom es), content_of (atoms thinking_atom es)), s')"
    using thinking_AddContents_run[OF assms(1,2)] by blast
  have "thinking_shows (thinking_feed (concat cs) s) = Some (atoms thinking_atom es, Some s')"
    using thinking_chunks.run_chunks_concat[of "Some s" cs] assms r(1) by simp
  then show ?thesis
    using thinking_AddContent_shows[OF assms(1,2), of "concat cs"] r(2) by auto
qed

lemma thinking_shows_Thinking:
  assumes "th_state s = Thinking" "ClosingTag s \<noteq> []"
  shows "\<exists>q. thinking_shows s = Some (
    case go_cut (th_acc s) (ClosingTag s) of
      Some (a, b) \<Rightarrow> thinking_atom (a, trim_left b)
    | None \<Rightarrow> thinking_atom (unheld [ClosingTag s] (th_acc s), []), q)"
  using thinking_eat_thinking[OF assms]
  by (auto simp: thinking_shows_stop split: option.splits)

lemma thinking_AddContent_spec:
  assumes "opening \<noteq> []" "closing \<noteq> []"
  shows "\<exists>s'. thinking_AddContent (new_thinking_parser opening closing) c
    = Some (thinking_spec opening closing c, s')"
proof -
  let ?s = "thinking_feed c (new_thinking_parser opening closing)"
  have s: "th_state ?s = LookingForOpening" "OpeningTag ?s = opening" "ClosingTag ?s = closing" "th_acc ?s = c"
    by (simp_all add: new_thinking_parser_def)
  have look: "thinking_eat ?s = (let trimmed = trim_left c in
     if prefix opening trimmed then
       (let after = trim_left (drop (length opening) trimmed) in
        Some (([], []), True,
          ?s\<lparr>th_state := if after = [] then ThinkingStartedEatingWhitespace else Thinking, th_acc := after\<rparr>))
     else if prefix trimmed opening then Some (([], []), False, ?s)
     else Some (([], c), False, ?s\<lparr>th_state := ThinkingDone, th_acc := []\<rparr>))"
    using thinking_eat_looking[of ?s] s assms by (simp add: Let_def)
  have "\<exists>q. thinking_shows ?s = Some (thinking_atom (thinking_spec opening closing c), q)"
  proof (cases "prefix opening (trim_left c)")
    case True
    let ?u = "trim_left (drop (length opening) (trim_left c))"
    have go: "thinking_shows ?s = thinking_shows (?s\<lparr>th_state :=
        if ?u = [] then ThinkingStartedEatingWhitespace else Thinking, th_acc := ?u\<rparr>)"
      using thinking_shows_go[of ?s "([], [])"] look True by (simp add: Let_def)
    show ?thesis
    proof (cases "?u = []")
      case u: True
      then have "thinking_spec opening closing c = ([], [])"
        using True assms by (simp add: thinking_spec_def Let_def go_cut_def unheld_def)
      then show ?thesis using go u by (simp add: thinking_shows_started)
    next
      case False
      then show ?thesis
        using go True thinking_shows_Thinking[of "?s\<lparr>th_state := Thinking, th_acc := ?u\<rparr>"] s assms
        by (simp add: thinking_spec_def Let_def split: option.splits) (auto split: option.splits)
    qed
  next
    case False
    then show ?thesis
      using look by (auto simp: Let_def thinking_spec_def thinking_shows_stop)
  qed
  then obtain q where q: "thinking_shows ?s = Some (thinking_atom (thinking_spec opening closing c), q)" by blast
  obtain th rem where "thinking_spec opening closing c = (th, rem)" by (cases "thinking_spec opening closing c")
  then show ?thesis
    using thinking_AddContent_shows[of "new_thinking_parser opening closing" c] q assms
    by (auto simp: new_thinking_parser_def)
qed

section \<open>Properties\<close>

text \<open>
  C5. The thinking parser computes its specification on the whole output, however the output
  arrives in chunks: with non-empty tags and chunks that do not end inside a white-space rune, no
  call panics, and the thinking and the content of all calls together are those of the text as
  one piece.
\<close>

theorem thinking_streams_specification:
  assumes "opening \<noteq> []" "closing \<noteq> []" "\<forall>c\<in>set cs. aligned c"
  shows "\<exists>s'. thinking_AddContents (new_thinking_parser opening closing) cs
    = Some (thinking_spec opening closing (concat cs), s')"
proof (cases "cs = []")
  case True
  then show ?thesis using assms by (simp add: thinking_spec_def)
next
  case False
  then show ?thesis
    using thinking_AddContents_concat[of "new_thinking_parser opening closing" cs]
      thinking_AddContent_spec[OF assms(1,2)] assms
    by (simp add: new_thinking_parser_def)
qed

theorem thinking_streams_specification_witness:
  "\<exists>s'. thinking_AddContents (new_thinking_parser ''<think>'' ''</think>'') ['' <thi'', ''nk> a</th'', ''ink> b'']
    = Some ((''a'', ''b''), s')"
proof -
  have "\<forall>c\<in>set ['' <thi'', ''nk> a</th'', ''ink> b'']. aligned c" by code_simp
  moreover have "thinking_spec ''<think>'' ''</think>'' (concat ['' <thi'', ''nk> a</th'', ''ink> b'']) = (''a'', ''b'')"
    by code_simp
  ultimately show ?thesis
    using thinking_streams_specification[of "''<think>''" "''</think>''" "['' <thi'', ''nk> a</th'', ''ink> b'']"]
    by (metis list.distinct(1))
qed

text \<open>
  From any state of the parser, with non-empty tags, \<open>AddContent\<close> returns: the loop ends and
  no index or slice of the code is out of range.
\<close>

theorem thinking_AddContent_returns:
  assumes "OpeningTag s \<noteq> []" "ClosingTag s \<noteq> []"
  shows "thinking_AddContent s c \<noteq> None"
  using thinking_AddContent_shows[OF assms, of c] by auto

theorem thinking_AddContent_returns_witness:
  "thinking_AddContent (new_thinking_parser ''<t>'' ''</t>'') ''<t>x'' \<noteq> None"
  by (rule thinking_AddContent_returns) (simp_all add: new_thinking_parser_def)

end
