(* ===== verification/ModelName.thy ===== *)
theory ModelName
  imports GoUtf8
begin

text \<open>
  \<^verbatim>\<open>types/model/name.go\<close>: structured model names, their validity, their textual forms
  (\<^verbatim>\<open>String\<close>, \<^verbatim>\<open>Filepath\<close>, \<^verbatim>\<open>DisplayShortest\<close>) and the parsers that read these back.
  Paths are those of a Unix build (\<^verbatim>\<open>filepath.Separator\<close> is a slash).
\<close>

section \<open>Library functions\<close>

text \<open>\<open>cmp.Or(a, b)\<close> on strings.\<close>

definition cmp_Or :: "string \<Rightarrow> string \<Rightarrow> string" where
  "cmp_Or a b = (if a \<noteq> [] then a else b)"

text \<open>\<open>strings.LastIndex\<close> as Go's number, for the comparisons of two such numbers.\<close>

definition last_index_int :: "string \<Rightarrow> string \<Rightarrow> int" where
  "last_index_int s sep = (case go_last_index s sep of None \<Rightarrow> -1 | Some i \<Rightarrow> int i)"

text \<open>
  \<open>strings.EqualFold\<close>, by a key: upper-case ASCII letters are lowered, and the two runes outside
  ASCII that fold to an ASCII letter (the Kelvin sign and the long s) are replaced by it. Two texts
  of which at least one is ASCII are equal under Unicode simple folding exactly if their keys are
  equal; every valid name and every constant the program compares with is ASCII.
\<close>

definition ascii_lower :: "char \<Rightarrow> char" where
  "ascii_lower c = (let n = of_char c :: nat in if 65 \<le> n \<and> n \<le> 90 then char_of (n + 32) else c)"

function fold_key :: "string \<Rightarrow> string" where
  "fold_key s =
     (if s = [] then []
      else if prefix [CHR 0xE2, CHR 0x84, CHR 0xAA] s then CHR ''k'' # fold_key (drop 3 s)
      else if prefix [CHR 0xC5, CHR 0xBF] s then CHR ''s'' # fold_key (drop 2 s)
      else ascii_lower (hd s) # fold_key (tl s))"
  by pat_completeness auto
termination by (relation "measure length") auto

declare fold_key.simps [simp del]

definition EqualFold_string :: "string \<Rightarrow> string \<Rightarrow> bool" where
  "EqualFold_string s t \<longleftrightarrow> fold_key s = fold_key t"

text \<open>
  \<open>filepath.Clean\<close> on a Unix build, over the elements of the path, and \<open>filepath.Join\<close>: empty
  arguments before the first non-empty one
  are left out.
\<close>

fun clean_elems :: "bool \<Rightarrow> string list \<Rightarrow> string list \<Rightarrow> string list" where
  "clean_elems rooted out [] = rev out"
| "clean_elems rooted out (e # es) =
     (if e = [] \<or> e = ''.'' then clean_elems rooted out es
      else if e = ''..'' then
        (case out of
           [] \<Rightarrow> clean_elems rooted (if rooted then [] else [''..'']) es
         | o1 # out' \<Rightarrow>
             if o1 = ''..'' then clean_elems rooted (''..'' # out) es
             else clean_elems rooted out' es)
      else clean_elems rooted (e # out) es)"

definition filepath_Clean :: "string \<Rightarrow> string" where
  "filepath_Clean path =
     (if path = [] then ''.''
      else
        let rooted = prefix ''/'' path;
            body = go_join (clean_elems rooted [] (go_split path ''/'')) ''/''
        in if rooted then ''/'' @ body else if body = [] then ''.'' else body)"

definition filepath_Join :: "string list \<Rightarrow> string" where
  "filepath_Join es =
     (let es' = dropWhile (\<lambda>e. e = []) es in
      if es' = [] then [] else filepath_Clean (go_join es' ''/''))"

section \<open>Names\<close>

definition MissingPart :: string where "MissingPart = ''!MISSING!''"

definition defaultHost :: string where "defaultHost = ''registry.ollama.ai''"
definition defaultNamespace :: string where "defaultNamespace = ''library''"
definition defaultTag :: string where "defaultTag = ''latest''"
definition defaultProtocolScheme :: string where "defaultProtocolScheme = ''https''"

datatype partKind = kindHost | kindNamespace | kindModel | kindTag | kindDigest

fun partKind_String :: "partKind \<Rightarrow> string" where
  "partKind_String kindHost = ''host''"
| "partKind_String kindNamespace = ''namespace''"
| "partKind_String kindModel = ''model''"
| "partKind_String kindTag = ''tag''"
| "partKind_String kindDigest = ''digest''"

record Name =
  Host :: string
  Namespace :: string
  Model :: string
  Tag :: string
  ProtocolScheme :: string

definition empty_Name :: Name where
  "empty_Name = \<lparr>Host = [], Namespace = [], Model = [], Tag = [], ProtocolScheme = []\<rparr>"

definition DefaultName :: Name where
  "DefaultName =
     \<lparr>Host = defaultHost, Namespace = defaultNamespace, Model = [], Tag = defaultTag,
      ProtocolScheme = defaultProtocolScheme\<rparr>"

section \<open>Validity\<close>

fun isValidLen :: "partKind \<Rightarrow> string \<Rightarrow> bool" where
  "isValidLen kindHost s = (1 \<le> length s \<and> length s \<le> 350)"
| "isValidLen kindTag s = (1 \<le> length s \<and> length s \<le> 80)"
| "isValidLen _ s = (1 \<le> length s \<and> length s \<le> 80)"

definition isAlphanumericOrUnderscore :: "char \<Rightarrow> bool" where
  "isAlphanumericOrUnderscore c \<longleftrightarrow>
     (let n = of_char c :: nat in
      65 \<le> n \<and> n \<le> 90 \<or> 97 \<le> n \<and> n \<le> 122 \<or> 48 \<le> n \<and> n \<le> 57 \<or> c = CHR ''_'')"

text \<open>
  The switch of \<open>isValidPart\<close> on a byte after the first. The code ranges over rune starts; a byte
  inside a rune follows a lead byte, which is no valid byte already.
\<close>

definition isValidByte :: "partKind \<Rightarrow> char \<Rightarrow> bool" where
  "isValidByte kind c \<longleftrightarrow>
     (if c = CHR ''_'' \<or> c = CHR ''-'' then True
      else if c = CHR ''.'' then kind \<noteq> kindNamespace
      else if c = CHR '':'' then kind = kindHost \<or> kind = kindDigest
      else isAlphanumericOrUnderscore c)"

definition isValidPart :: "partKind \<Rightarrow> string \<Rightarrow> bool" where
  "isValidPart kind s \<longleftrightarrow>
     isValidLen kind s \<and>
     (case s of [] \<Rightarrow> True | c # cs \<Rightarrow> isAlphanumericOrUnderscore c \<and> list_all (isValidByte kind) cs)"

definition IsValidNamespace :: "string \<Rightarrow> bool" where
  "IsValidNamespace s = isValidPart kindNamespace s"

definition IsFullyQualified :: "Name \<Rightarrow> bool" where
  "IsFullyQualified n =
     list_all (\<lambda>(kind, part). isValidPart kind part)
       [(kindHost, Host n), (kindNamespace, Namespace n), (kindModel, Model n), (kindTag, Tag n)]"

definition IsValid :: "Name \<Rightarrow> bool" where
  "IsValid n = IsFullyQualified n"

section \<open>Parsing\<close>

definition cutLast :: "string \<Rightarrow> string \<Rightarrow> string \<times> string \<times> bool" where
  "cutLast s sep =
     (case go_last_index s sep of
        Some i \<Rightarrow> (take i s, drop (i + length sep) s, True)
      | None \<Rightarrow> (s, [], False))"

definition cutPromised :: "string \<Rightarrow> string \<Rightarrow> string \<times> string \<times> bool" where
  "cutPromised s sep =
     (case cutLast s sep of
        (before, after, False) \<Rightarrow> (before, after, False)
      | (before, after, True) \<Rightarrow> (cmp_Or before MissingPart, cmp_Or after MissingPart, True))"

text \<open>\<open>ParseNameBare\<close> after the tag: the parts before it, from the last to the first.\<close>

definition ParseNameBare_path :: "Name \<Rightarrow> string \<Rightarrow> Name" where
  "ParseNameBare_path n1 s1 =
     (let (s2, model, promised) = cutPromised s1 ''/''
      in if \<not> promised then n1\<lparr>Model := s2\<rparr>
         else
           let n2 = n1\<lparr>Model := model\<rparr>;
               (s3, namespace, promised') = cutPromised s2 ''/''
           in if \<not> promised' then n2\<lparr>Namespace := s3\<rparr>
              else
                let n3 = n2\<lparr>Namespace := namespace\<rparr>
                in case go_cut s3 ''://'' of
                     Some (scheme, host) \<Rightarrow> n3\<lparr>ProtocolScheme := scheme, Host := host\<rparr>
                   | None \<Rightarrow> n3\<lparr>Host := s3\<rparr>)"

definition ParseNameBare :: "string \<Rightarrow> Name" where
  "ParseNameBare s0 =
     (let (s1, n1) =
        (if last_index_int s0 '':'' > last_index_int s0 ''/'' then
           (case cutPromised s0 '':'' of (b, a, _) \<Rightarrow> (b, empty_Name\<lparr>Tag := a\<rparr>))
         else (s0, empty_Name))
      in ParseNameBare_path n1 s1)"

definition Merge :: "Name \<Rightarrow> Name \<Rightarrow> Name" where
  "Merge a b =
     a\<lparr>Host := cmp_Or (Host a) (Host b), Namespace := cmp_Or (Namespace a) (Namespace b),
       Tag := cmp_Or (Tag a) (Tag b), ProtocolScheme := cmp_Or (ProtocolScheme a) (ProtocolScheme b)\<rparr>"

definition ParseName :: "string \<Rightarrow> Name" where
  "ParseName s = Merge (ParseNameBare s) DefaultName"

definition ParseNameFromFilepath :: "string \<Rightarrow> Name" where
  "ParseNameFromFilepath s =
     (case go_split s ''/'' of
        [h, ns, m, t] \<Rightarrow>
          (let n = empty_Name\<lparr>Host := h, Namespace := ns, Model := m, Tag := t\<rparr>
           in if \<not> IsFullyQualified n then empty_Name else n)
      | _ \<Rightarrow> empty_Name)"

section \<open>Printing\<close>

definition Name_String :: "Name \<Rightarrow> string" where
  "Name_String n =
     (if Host n \<noteq> [] then Host n @ ''/'' else []) @
     (if Namespace n \<noteq> [] then Namespace n @ ''/'' else []) @
     Model n @
     (if Tag n \<noteq> [] then '':'' @ Tag n else [])"

definition DisplayShortest :: "Name \<Rightarrow> string" where
  "DisplayShortest n =
     (if \<not> EqualFold_string (Host n) defaultHost then Host n @ ''/'' @ Namespace n @ ''/''
      else if \<not> EqualFold_string (Namespace n) defaultNamespace then Namespace n @ ''/''
      else []) @
     Model n @ '':'' @ Tag n"

text \<open>\<open>Filepath\<close> panics on a name that is not fully qualified: \<open>None\<close>.\<close>

definition Filepath :: "Name \<Rightarrow> string option" where
  "Filepath n =
     (if \<not> IsFullyQualified n then None
      else Some (filepath_Join [Host n, Namespace n, Model n, Tag n]))"

definition Name_EqualFold :: "Name \<Rightarrow> Name \<Rightarrow> bool" where
  "Name_EqualFold n m \<longleftrightarrow>
     EqualFold_string (Host n) (Host m) \<and> EqualFold_string (Namespace n) (Namespace m) \<and>
     EqualFold_string (Model n) (Model m) \<and> EqualFold_string (Tag n) (Tag m)"

text \<open>The two fields of the URL that \<open>BaseURL\<close> sets.\<close>

record url = url_Scheme :: string  url_Host :: string

definition BaseURL :: "Name \<Rightarrow> url" where
  "BaseURL n = \<lparr>url_Scheme = ProtocolScheme n, url_Host = Host n\<rparr>"

definition DisplayNamespaceModel :: "Name \<Rightarrow> string" where
  "DisplayNamespaceModel n = Namespace n @ ''/'' @ Model n"

section \<open>Valid parts\<close>

lemma isValidPart_chars:
  assumes "isValidPart kind s"
  shows "s \<noteq> []" "CHR ''/'' \<notin> set s" "kind \<noteq> kindHost \<Longrightarrow> kind \<noteq> kindDigest \<Longrightarrow> CHR '':'' \<notin> set s"
    "s \<noteq> ''.''" "s \<noteq> ''..''"
proof -
  show ne: "s \<noteq> []" using assms by (cases kind) (auto simp: isValidPart_def)
  then obtain c cs where s: "s = c # cs" by (cases s) auto
  have c: "isAlphanumericOrUnderscore c" and cs: "list_all (isValidByte kind) cs"
    using assms s by (auto simp: isValidPart_def)
  have alnum: "\<not> isAlphanumericOrUnderscore (CHR ''/'')" "\<not> isAlphanumericOrUnderscore (CHR '':'')"
    "\<not> isAlphanumericOrUnderscore (CHR ''.'')"
    by (simp_all add: isAlphanumericOrUnderscore_def Let_def)
  have byte: "\<not> isValidByte kind (CHR ''/'')" using alnum by (simp add: isValidByte_def)
  show "CHR ''/'' \<notin> set s" using c cs alnum byte by (auto simp: s list_all_iff)
  show "CHR '':'' \<notin> set s" if "kind \<noteq> kindHost" "kind \<noteq> kindDigest"
    using that c cs alnum by (auto simp: s list_all_iff isValidByte_def split: if_splits)
  show "s \<noteq> ''.''" "s \<noteq> ''..''" using c alnum by (auto simp: s)
qed

lemma IsFullyQualified_parts:
  assumes "IsFullyQualified n"
  shows "isValidPart kindHost (Host n)" "isValidPart kindNamespace (Namespace n)"
    "isValidPart kindModel (Model n)" "isValidPart kindTag (Tag n)"
  using assms by (simp_all add: IsFullyQualified_def)

lemma IsFullyQualified_chars:
  assumes "IsFullyQualified n"
  shows "Host n \<noteq> []" "Namespace n \<noteq> []" "Model n \<noteq> []" "Tag n \<noteq> []"
    "CHR ''/'' \<notin> set (Host n)" "CHR ''/'' \<notin> set (Namespace n)" "CHR ''/'' \<notin> set (Model n)"
    "CHR ''/'' \<notin> set (Tag n)" "CHR '':'' \<notin> set (Namespace n)" "CHR '':'' \<notin> set (Model n)"
    "CHR '':'' \<notin> set (Tag n)"
proof -
  note p = IsFullyQualified_parts[OF assms]
  show "Host n \<noteq> []" "CHR ''/'' \<notin> set (Host n)" by (rule isValidPart_chars[OF p(1)])+
  show "Namespace n \<noteq> []" "CHR ''/'' \<notin> set (Namespace n)" by (rule isValidPart_chars[OF p(2)])+
  show "Model n \<noteq> []" "CHR ''/'' \<notin> set (Model n)" by (rule isValidPart_chars[OF p(3)])+
  show "Tag n \<noteq> []" "CHR ''/'' \<notin> set (Tag n)" by (rule isValidPart_chars[OF p(4)])+
  show "CHR '':'' \<notin> set (Namespace n)" by (rule isValidPart_chars(3)[OF p(2)]) simp_all
  show "CHR '':'' \<notin> set (Model n)" by (rule isValidPart_chars(3)[OF p(3)]) simp_all
  show "CHR '':'' \<notin> set (Tag n)" by (rule isValidPart_chars(3)[OF p(4)]) simp_all
qed

lemma cutPromised_char:
  "c \<notin> set b \<Longrightarrow> cutPromised (a @ c # b) [c] = (cmp_Or a MissingPart, cmp_Or b MissingPart, True)"
  by (simp add: cutPromised_def cutLast_def go_last_index_char)

lemma cutPromised_none: "c \<notin> set s \<Longrightarrow> cutPromised s [c] = (s, [], False)"
  by (simp add: cutPromised_def cutLast_def go_last_index_char_None[THEN iffD2])

lemma last_index_int_char:
  "c \<notin> set b \<Longrightarrow> last_index_int (a @ c # b) [c] = int (length a)"
  "c \<notin> set s \<Longrightarrow> last_index_int s [c] = -1"
  by (simp_all add: last_index_int_def go_last_index_char go_last_index_char_None[THEN iffD2])

lemma last_index_int_less: "last_index_int s [c] < int (length s)"
proof (cases "go_last_index s [c]")
  case (Some i)
  then obtain a b where "s = a @ c # b" "i = length a" by (rule go_last_index_charE)
  then show ?thesis using Some by (simp add: last_index_int_def)
qed (simp add: last_index_int_def)

lemma cmp_Or_left: "a \<noteq> [] \<Longrightarrow> cmp_Or a b = a"
  by (simp add: cmp_Or_def)

section \<open>Reading names back\<close>

text \<open>The tag is split off first: no slash follows its colon.\<close>

lemma ParseNameBare_tag:
  assumes "CHR '':'' \<notin> set t" "CHR ''/'' \<notin> set t" "t \<noteq> []" "s \<noteq> []"
  shows "ParseNameBare (s @ CHR '':'' # t) = ParseNameBare_path (empty_Name\<lparr>Tag := t\<rparr>) s"
proof -
  have "last_index_int (s @ CHR '':'' # t) ''/'' < int (length s)"
  proof (cases "CHR ''/'' \<in> set s")
    case True
    then obtain a b where s: "s = a @ CHR ''/'' # b" "CHR ''/'' \<notin> set b" by (metis split_list_last)
    then show ?thesis
      using last_index_int_char(1)[of "CHR ''/''" "b @ CHR '':'' # t" a] assms by simp
  next
    case False
    then show ?thesis
      using last_index_int_char(2)[of "CHR ''/''" "s @ CHR '':'' # t"] assms by simp
  qed
  moreover have "last_index_int (s @ CHR '':'' # t) '':'' = int (length s)"
    using assms(1) by (rule last_index_int_char)
  ultimately show ?thesis
    using assms by (simp add: ParseNameBare_def cutPromised_char cmp_Or_left Let_def)
qed

lemma ParseNameBare_path_model:
  "CHR ''/'' \<notin> set m \<Longrightarrow> ParseNameBare_path n m = n\<lparr>Model := m\<rparr>"
  by (simp add: ParseNameBare_path_def cutPromised_none)

lemma ParseNameBare_path_namespace:
  assumes "CHR ''/'' \<notin> set ns" "CHR ''/'' \<notin> set m" "ns \<noteq> []" "m \<noteq> []"
  shows "ParseNameBare_path n (ns @ CHR ''/'' # m) = n\<lparr>Namespace := ns, Model := m\<rparr>"
  using assms by (simp add: ParseNameBare_path_def cutPromised_none cutPromised_char cmp_Or_left)

lemma go_cut_scheme_None: "CHR ''/'' \<notin> set h \<Longrightarrow> go_cut h ''://'' = None"
  by (auto simp: go_cut_None go_contains_iff)

lemma ParseNameBare_path_host:
  assumes "CHR ''/'' \<notin> set h" "CHR ''/'' \<notin> set ns" "CHR ''/'' \<notin> set m" "h \<noteq> []" "ns \<noteq> []" "m \<noteq> []"
  shows "ParseNameBare_path n (h @ CHR ''/'' # ns @ CHR ''/'' # m)
    = n\<lparr>Host := h, Namespace := ns, Model := m\<rparr>"
proof -
  have "cutPromised (h @ CHR ''/'' # ns @ CHR ''/'' # m) ''/'' = (h @ CHR ''/'' # ns, m, True)"
    using cutPromised_char[of "CHR ''/''" m "h @ CHR ''/'' # ns"] assms by (simp add: cmp_Or_left)
  then show ?thesis
    using assms by (simp add: ParseNameBare_path_def cutPromised_char cmp_Or_left go_cut_scheme_None)
qed

section \<open>Clean paths\<close>

text \<open>An element of a path that \<open>filepath.Clean\<close> leaves alone.\<close>

definition plain_elem :: "string \<Rightarrow> bool" where
  "plain_elem e \<longleftrightarrow> e \<noteq> [] \<and> e \<noteq> ''.'' \<and> e \<noteq> ''..'' \<and> CHR ''/'' \<notin> set e"

lemma isValidPart_plain: "isValidPart kind s \<Longrightarrow> plain_elem s"
  using isValidPart_chars by (simp add: plain_elem_def)

lemma go_split_join:
  "list_all (\<lambda>e. c \<notin> set e) es \<Longrightarrow> es \<noteq> [] \<Longrightarrow> go_split (go_join es [c]) [c] = es"
proof (induction es "[c]" rule: go_join.induct)
  case (2 a)
  then show ?case by (simp add: go_split_cut go_cut_char_None)
next
  case (3 a b as)
  then show ?case by (simp add: go_split_cut[of _ "a @ _"] go_cut_char)
qed simp

lemma clean_elems_plain:
  "list_all plain_elem es \<Longrightarrow> clean_elems r out es = rev out @ es"
  by (induction es arbitrary: out) (simp_all add: plain_elem_def)

lemma go_join_append:
  "as \<noteq> [] \<Longrightarrow> bs \<noteq> [] \<Longrightarrow> go_join (as @ bs) sep = go_join as sep @ sep @ go_join bs sep"
proof (induction as sep rule: go_join.induct)
  case (2 a sep)
  then show ?case by (cases bs) auto
qed auto

lemma go_join_hd: "es \<noteq> [] \<Longrightarrow> hd es \<noteq> [] \<Longrightarrow> go_join es sep \<noteq> [] \<and> hd (go_join es sep) = hd (hd es)"
  by (induction es sep rule: go_join.induct) auto

lemma filepath_Clean_plain:
  assumes "list_all plain_elem es" "es \<noteq> []"
  shows "filepath_Clean (go_join es ''/'') = go_join es ''/''"
    "filepath_Clean (''/'' @ go_join es ''/'') = ''/'' @ go_join es ''/''"
proof -
  have slash: "list_all (\<lambda>e. CHR ''/'' \<notin> set e) es" and hd: "hd es \<noteq> []" "hd (hd es) \<noteq> CHR ''/''"
    using assms by (cases es; cases "hd es"; auto simp: list_all_iff plain_elem_def)+
  note join = go_join_hd[OF assms(2) hd(1), of "''/''"]
  have "\<not> prefix ''/'' (go_join es ''/'')" using join hd by (cases "go_join es ''/''") auto
  then show "filepath_Clean (go_join es ''/'') = go_join es ''/''"
    using assms join slash by (simp add: filepath_Clean_def go_split_join clean_elems_plain)
  have "go_split (CHR ''/'' # go_join es ''/'') ''/'' = [] # es"
    using go_split_cut[of "''/''" "CHR ''/'' # go_join es ''/''"] go_cut_char[of "CHR ''/''" "[]"] slash assms
    by (simp add: go_split_join)
  then show "filepath_Clean (''/'' @ go_join es ''/'') = ''/'' @ go_join es ''/''"
    using assms by (simp add: filepath_Clean_def clean_elems_plain)
qed

lemma filepath_Join_plain:
  assumes "list_all plain_elem es" "es \<noteq> []"
  shows "filepath_Join es = go_join es ''/''"
proof -
  have "dropWhile (\<lambda>e. e = []) es = es" using assms by (cases es) (auto simp: plain_elem_def)
  then show ?thesis using assms by (simp add: filepath_Join_def filepath_Clean_plain)
qed

lemma IsFullyQualified_plain:
  "IsFullyQualified n \<Longrightarrow> list_all plain_elem [Host n, Namespace n, Model n, Tag n]"
  using IsFullyQualified_parts isValidPart_plain by simp blast

lemma Filepath_Some:
  "IsFullyQualified n \<Longrightarrow> Filepath n = Some (go_join [Host n, Namespace n, Model n, Tag n] ''/'')"
  using filepath_Join_plain[OF IsFullyQualified_plain] by (simp add: Filepath_def)

lemma ParseNameFromFilepath_parts:
  "ParseNameFromFilepath p \<noteq> empty_Name \<Longrightarrow>
     \<exists>h ns m t. go_split p ''/'' = [h, ns, m, t]
       \<and> ParseNameFromFilepath p = empty_Name\<lparr>Host := h, Namespace := ns, Model := m, Tag := t\<rparr>"
  by (auto simp: ParseNameFromFilepath_def Let_def split: list.splits if_splits)

section \<open>Folding\<close>

lemma EqualFold_refl [simp]: "EqualFold_string s s"
  by (simp add: EqualFold_string_def)

lemma EqualFold_sym: "EqualFold_string s t \<longleftrightarrow> EqualFold_string t s"
  by (auto simp: EqualFold_string_def)

section \<open>Properties\<close>

text \<open>
  C24. A valid name is read back from its printed form: \<open>ParseName(n.String())\<close> is the name, with
  the default protocol scheme (which \<open>String\<close> does not print).
\<close>

theorem ParseName_Name_String:
  assumes "IsFullyQualified n"
  shows "ParseName (Name_String n) = n\<lparr>ProtocolScheme := defaultProtocolScheme\<rparr>"
proof -
  note c = IsFullyQualified_chars[OF assms]
  have "Name_String n = (Host n @ CHR ''/'' # Namespace n @ CHR ''/'' # Model n) @ CHR '':'' # Tag n"
    using c by (simp add: Name_String_def)
  then have "ParseNameBare (Name_String n)
      = empty_Name\<lparr>Host := Host n, Namespace := Namespace n, Model := Model n, Tag := Tag n\<rparr>"
    using c ParseNameBare_tag[of "Tag n" "Host n @ CHR ''/'' # Namespace n @ CHR ''/'' # Model n"]
    by (simp add: ParseNameBare_path_host)
  then show ?thesis
    using c by (simp add: ParseName_def Merge_def DefaultName_def empty_Name_def cmp_Or_def)
qed

theorem ParseName_Name_String_witness:
  "ParseName (Name_String (DefaultName\<lparr>Host := ''h:80'', Model := ''m''\<rparr>))
    = DefaultName\<lparr>Host := ''h:80'', Model := ''m''\<rparr>"
proof -
  have "IsFullyQualified (DefaultName\<lparr>Host := ''h:80'', Model := ''m''\<rparr>)" by code_simp
  from ParseName_Name_String[OF this] show ?thesis by (simp add: DefaultName_def)
qed

text \<open>
  C25. \<open>Filepath\<close> and \<open>ParseNameFromFilepath\<close> are inverse to each other on the fully qualified
  names: a path is read as such a name exactly if it is the path of that name.
\<close>

theorem ParseNameFromFilepath_Filepath:
  assumes "IsFullyQualified n"
  shows "ParseNameFromFilepath p = n\<lparr>ProtocolScheme := []\<rparr> \<longleftrightarrow> Filepath n = Some p"
proof
  let ?es = "[Host n, Namespace n, Model n, Tag n]"
  have fp: "Filepath n = Some (go_join ?es ''/'')" by (rule Filepath_Some[OF assms])
  have split: "go_split (go_join ?es ''/'') ''/'' = ?es"
    using go_split_join[of "CHR ''/''" ?es] IsFullyQualified_chars[OF assms] by simp
  have q: "IsFullyQualified (n\<lparr>ProtocolScheme := []\<rparr>)"
    using assms by (simp add: IsFullyQualified_def)
  show "Filepath n = Some p" if eq: "ParseNameFromFilepath p = n\<lparr>ProtocolScheme := []\<rparr>"
  proof -
    have "n\<lparr>ProtocolScheme := []\<rparr> \<noteq> empty_Name"
      using IsFullyQualified_chars(1)[OF assms] by (cases n) (auto simp: empty_Name_def)
    then obtain h ns m t where "go_split p ''/'' = [h, ns, m, t]"
      "n\<lparr>ProtocolScheme := []\<rparr> = empty_Name\<lparr>Host := h, Namespace := ns, Model := m, Tag := t\<rparr>"
      using ParseNameFromFilepath_parts[of p] unfolding eq by blast
    then have "go_split p ''/'' = ?es" by (cases n) (simp add: empty_Name_def)
    then have "p = go_join ?es ''/''" using go_join_split[of "''/''" p] by simp
    then show ?thesis using fp by simp
  qed
  show "ParseNameFromFilepath p = n\<lparr>ProtocolScheme := []\<rparr>" if "Filepath n = Some p"
  proof -
    have "empty_Name\<lparr>Host := Host n, Namespace := Namespace n, Model := Model n, Tag := Tag n\<rparr>
        = n\<lparr>ProtocolScheme := []\<rparr>"
      by (cases n) (simp add: empty_Name_def)
    moreover have "go_split p ''/'' = ?es" using that fp split by simp
    ultimately show ?thesis using q by (simp add: ParseNameFromFilepath_def Let_def)
  qed
qed

theorem ParseNameFromFilepath_Filepath_witness:
  "Filepath (DefaultName\<lparr>Model := ''m''\<rparr>) = Some ''registry.ollama.ai/library/m/latest''"
proof -
  have q: "IsFullyQualified (DefaultName\<lparr>Model := ''m''\<rparr>)" by code_simp
  have "ParseNameFromFilepath ''registry.ollama.ai/library/m/latest''
      = (DefaultName\<lparr>Model := ''m''\<rparr>)\<lparr>ProtocolScheme := []\<rparr>"
    by code_simp
  then show ?thesis by (simp only: ParseNameFromFilepath_Filepath[OF q])
qed

text \<open>
  C21. The path of a name cannot leave the directory it is joined to: under any clean absolute
  directory, joining and cleaning yields exactly the four parts below the directory.
\<close>

theorem Filepath_contained:
  assumes "Filepath n = Some p" "list_all plain_elem ds" "ds \<noteq> []"
  shows "filepath_Join [''/'' @ go_join ds ''/'', p] = ''/'' @ go_join ds ''/'' @ ''/'' @ p
    \<and> go_split p ''/'' = [Host n, Namespace n, Model n, Tag n]"
proof -
  let ?es = "[Host n, Namespace n, Model n, Tag n]"
  have q: "IsFullyQualified n" using assms(1) by (auto simp: Filepath_def split: if_splits)
  then have p: "p = go_join ?es ''/''" using assms(1) Filepath_Some by simp
  have plain: "list_all plain_elem (ds @ ?es)" using assms(2) IsFullyQualified_plain[OF q] by simp
  have "filepath_Clean (''/'' @ go_join (ds @ ?es) ''/'') = ''/'' @ go_join (ds @ ?es) ''/''"
    by (rule filepath_Clean_plain(2)[OF plain]) simp
  moreover have "go_join (ds @ ?es) ''/'' = go_join ds ''/'' @ ''/'' @ p"
    using assms(3) p by (simp add: go_join_append)
  ultimately have "filepath_Join [''/'' @ go_join ds ''/'', p] = ''/'' @ go_join ds ''/'' @ ''/'' @ p"
    by (simp add: filepath_Join_def)
  moreover have "go_split p ''/'' = ?es"
    using go_split_join[of "CHR ''/''" ?es] IsFullyQualified_chars[OF q] p by simp
  ultimately show ?thesis by blast
qed

theorem Filepath_contained_witness:
  "filepath_Join [''/models/manifests'', ''h/n/m/t''] = ''/models/manifests/h/n/m/t''"
proof -
  have "Filepath \<lparr>Host = ''h'', Namespace = ''n'', Model = ''m'', Tag = ''t'', ProtocolScheme = []\<rparr> = Some ''h/n/m/t''"
    "list_all plain_elem [''models'', ''manifests'']"
    by code_simp+
  from Filepath_contained[OF this] show ?thesis by simp
qed

text \<open>
  \<open>DisplayShortest\<close> of a fully qualified name, which leaves out the default host and
  namespace, is parsed back to a fully qualified name that is the same up to case.
\<close>

theorem ParseName_DisplayShortest:
  assumes "IsFullyQualified n"
  shows "Name_EqualFold (ParseName (DisplayShortest n)) n \<and> IsFullyQualified (ParseName (DisplayShortest n))"
proof -
  note c = IsFullyQualified_chars[OF assms]
  note parts = IsFullyQualified_parts[OF assms]
  have def: "isValidPart kindHost defaultHost" "isValidPart kindNamespace defaultNamespace" by code_simp+
  note simps = ParseName_def Merge_def DefaultName_def empty_Name_def cmp_Or_def Name_EqualFold_def
    IsFullyQualified_def parts def c EqualFold_sym[of defaultHost] EqualFold_sym[of defaultNamespace]
  show ?thesis
  proof (cases "EqualFold_string (Host n) defaultHost")
    case host: True
    show ?thesis
    proof (cases "EqualFold_string (Namespace n) defaultNamespace")
      case True
      then have "ParseNameBare (DisplayShortest n) = empty_Name\<lparr>Model := Model n, Tag := Tag n\<rparr>"
        using host c ParseNameBare_tag[of "Tag n" "Model n"]
        by (simp add: DisplayShortest_def ParseNameBare_path_model)
      then show ?thesis using host True by (simp add: simps)
    next
      case False
      then have "ParseNameBare (DisplayShortest n)
          = empty_Name\<lparr>Namespace := Namespace n, Model := Model n, Tag := Tag n\<rparr>"
        using host c ParseNameBare_tag[of "Tag n" "Namespace n @ CHR ''/'' # Model n"]
        by (simp add: DisplayShortest_def ParseNameBare_path_namespace)
      then show ?thesis using host False by (simp add: simps)
    qed
  next
    case False
    then have "ParseNameBare (DisplayShortest n)
        = empty_Name\<lparr>Host := Host n, Namespace := Namespace n, Model := Model n, Tag := Tag n\<rparr>"
      using c ParseNameBare_tag[of "Tag n" "Host n @ CHR ''/'' # Namespace n @ CHR ''/'' # Model n"]
      by (simp add: DisplayShortest_def ParseNameBare_path_host)
    then show ?thesis using False by (simp add: simps)
  qed
qed

theorem ParseName_DisplayShortest_witness:
  "Name_EqualFold (ParseName ''m:t'') (DefaultName\<lparr>Host := ''Registry.ollama.ai'', Model := ''m'', Tag := ''t''\<rparr>)"
proof -
  have "IsFullyQualified (DefaultName\<lparr>Host := ''Registry.ollama.ai'', Model := ''m'', Tag := ''t''\<rparr>)"
    "DisplayShortest (DefaultName\<lparr>Host := ''Registry.ollama.ai'', Model := ''m'', Tag := ''t''\<rparr>) = ''m:t''"
    by code_simp+
  with ParseName_DisplayShortest[OF this(1)] show ?thesis by simp
qed

end
