(* ===== verification/ModelRef.thy ===== *)
theory ModelRef
  imports ModelName
begin

text \<open>
  \<^verbatim>\<open>internal/modelref/modelref.go\<close>: model references with an explicit source, \<open>:cloud\<close> or
  \<open>:local\<close> or a \<open>-cloud\<close> tag suffix.

  \<^verbatim>\<open>strings.ToLower\<close> is modelled on ASCII letters. The code only compares the lowered text, or
  its end, with ASCII constants, and no rune outside ASCII is lowered to one of their letters, so
  the comparisons give the same.
\<close>

section \<open>The code\<close>

datatype ModelSource = ModelSourceUnspecified | ModelSourceLocal | ModelSourceCloud

datatype modelref_error = ErrConflictingSourceSuffix string | ErrModelRequired

record ParsedRef =
  Original :: string
  Base :: string
  Source :: ModelSource

definition lower :: "string \<Rightarrow> string" where
  "lower s = map ascii_lower s"

definition parseSourceSuffix :: "string \<Rightarrow> string \<times> ModelSource \<times> bool" where
  "parseSourceSuffix raw =
     (case go_last_index raw '':'' of
        None \<Rightarrow> (raw, ModelSourceUnspecified, False)
      | Some idx \<Rightarrow>
          (let suffixRaw = trim_space (drop (idx + 1) raw);
               sfx = lower suffixRaw
           in if sfx = ''cloud'' then (take idx raw, ModelSourceCloud, True)
              else if sfx = ''local'' then (take idx raw, ModelSourceLocal, True)
              else if \<not> go_contains suffixRaw ''/'' \<and> suffix ''-cloud'' sfx then
                (take (idx + 1) raw @ take (length suffixRaw - length ''-cloud'') suffixRaw,
                 ModelSourceCloud, True)
              else (raw, ModelSourceUnspecified, False)))"

definition ParseRef :: "string \<Rightarrow> modelref_error + ParsedRef" where
  "ParseRef raw0 =
     (let raw = trim_space raw0 in
      if raw = [] then Inl ErrModelRequired
      else
        case parseSourceSuffix raw of
          (bas, source, explicit) \<Rightarrow>
            if explicit \<and> snd (snd (parseSourceSuffix bas)) then Inl (ErrConflictingSourceSuffix raw)
            else Inr \<lparr>Original = raw, Base = bas, Source = source\<rparr>)"

definition HasExplicitCloudSource :: "string \<Rightarrow> bool" where
  "HasExplicitCloudSource raw =
     (case ParseRef raw of Inl _ \<Rightarrow> False | Inr r \<Rightarrow> Source r = ModelSourceCloud)"

definition HasExplicitLocalSource :: "string \<Rightarrow> bool" where
  "HasExplicitLocalSource raw =
     (case ParseRef raw of Inl _ \<Rightarrow> False | Inr r \<Rightarrow> Source r = ModelSourceLocal)"

definition StripCloudSourceTag :: "string \<Rightarrow> string \<times> bool" where
  "StripCloudSourceTag raw =
     (case ParseRef raw of
        Inl _ \<Rightarrow> (trim_space raw, False)
      | Inr r \<Rightarrow> if Source r \<noteq> ModelSourceCloud then (trim_space raw, False) else (Base r, True))"

definition HasExplicitTag :: "string \<Rightarrow> bool" where
  "HasExplicitTag name \<longleftrightarrow> last_index_int name '':'' > last_index_int name ''/''"

definition toLegacyCloudPullName :: "string \<Rightarrow> string" where
  "toLegacyCloudPullName bas = (if HasExplicitTag bas then bas @ ''-cloud'' else bas @ '':cloud'')"

definition NormalizePullName :: "string \<Rightarrow> modelref_error + string \<times> bool" where
  "NormalizePullName raw =
     (case ParseRef raw of
        Inl e \<Rightarrow> Inl e
      | Inr r \<Rightarrow>
          if Source r \<noteq> ModelSourceCloud then Inr (Base r, False)
          else Inr (toLegacyCloudPullName (Base r), True))"

section \<open>Texts without white space\<close>

definition spaceless :: "string \<Rightarrow> bool" where
  "spaceless s \<longleftrightarrow> (\<forall>i\<in>set [0..<length s]. space_len (drop i s) = 0)"

lemma spaceless_drop: "spaceless s \<Longrightarrow> space_len (drop i s) = 0"
  using space_len_le(1)[of "[]"] by (cases "i < length s") (simp_all add: spaceless_def)

lemma spaceless_trim_space:
  assumes "spaceless s" shows "trim_space s = s"
proof -
  have "trim_left s = s" using spaceless_drop[OF assms, of 0] by (simp add: trim_left_stop)
  moreover have "space_len_r s = 0"
  proof (cases s rule: space_len_r_cases)
    case (some e)
    then have "drop (length s - length e) s = e" by (auto simp: suffix_def)
    then show ?thesis
      using spaceless_drop[OF assms, of "length s - length e"] space_len_prefix[OF some(1), of "[]"] some by simp
  qed
  ultimately show ?thesis by (simp add: trim_space_def trim_right_stop)
qed

lemma spaceless_suffix: "spaceless (a @ b) \<Longrightarrow> spaceless b"
proof -
  assume s: "spaceless (a @ b)"
  have "space_len (drop i b) = 0" for i
    using spaceless_drop[OF s, of "length a + i"] by simp
  then show "spaceless b" by (simp add: spaceless_def)
qed

text \<open>No white-space rune contains one of the bytes of the suffixes.\<close>

lemma space_encs_suffix_bytes: "e \<in> set space_encs \<Longrightarrow> set e \<inter> set '':-cloud'' = {}"
proof -
  have "\<forall>e\<in>set space_encs. \<forall>c\<in>set '':-cloud''. c \<notin> set e" by code_simp
  then show "e \<in> set space_encs \<Longrightarrow> set e \<inter> set '':-cloud'' = {}" by blast
qed

lemma spaceless_append:
  assumes s: "spaceless s" and t: "set t \<subseteq> set '':-cloud''"
  shows "spaceless (s @ t)"
  unfolding spaceless_def
proof
  fix i assume "i \<in> set [0..<length (s @ t)]"
  show "space_len (drop i (s @ t)) = 0"
  proof (cases "drop i (s @ t)" rule: space_len_cases)
    case (some e)
    let ?s = "drop i s" and ?t = "drop (i - length s) t"
    have dis: "set e \<inter> set ?t = {}"
      using space_encs_suffix_bytes[OF some(1)] t set_drop_subset[of "i - length s" t] by blast
    have "prefix e (?s @ ?t)" using some(2) by simp
    then have "prefix e ?s"
    proof (cases "prefix e ?s")
      case False
      with \<open>prefix e (?s @ ?t)\<close> obtain u where u: "e = ?s @ u" "prefix u ?t" "u \<noteq> []"
        by (auto simp: prefix_append)
      then have "hd u \<in> set e \<inter> set ?t" by (cases u) (auto simp: prefix_def)
      then show ?thesis using dis by blast
    qed
    then have "space_len ?s = length e" using space_len_prefix[OF some(1)] by (auto simp: prefix_def)
    then show ?thesis using spaceless_drop[OF s, of i] some(4) by simp
  qed
qed

section \<open>Source suffixes\<close>

lemma parseSourceSuffix_colon:
  assumes "CHR '':'' \<notin> set b"
  shows "parseSourceSuffix (a @ CHR '':'' # b) =
    (let suffixRaw = trim_space b; sfx = lower suffixRaw
     in if sfx = ''cloud'' then (a, ModelSourceCloud, True)
        else if sfx = ''local'' then (a, ModelSourceLocal, True)
        else if \<not> go_contains suffixRaw ''/'' \<and> suffix ''-cloud'' sfx then
          (a @ CHR '':'' # take (length suffixRaw - length ''-cloud'') suffixRaw, ModelSourceCloud, True)
        else (a @ CHR '':'' # b, ModelSourceUnspecified, False))"
  using assms by (simp add: parseSourceSuffix_def go_last_index_char Let_def)

lemma parseSourceSuffix_cloud: "parseSourceSuffix (a @ '':cloud'') = (a, ModelSourceCloud, True)"
proof -
  have "trim_space ''cloud'' = ''cloud''" "lower ''cloud'' = ''cloud''" by code_simp+
  then show ?thesis using parseSourceSuffix_colon[of "''cloud''" a] by simp
qed

lemma lower_append: "lower (a @ b) = lower a @ lower b"
  by (simp add: lower_def)

lemma parseSourceSuffix_tag_cloud:
  assumes "CHR '':'' \<notin> set b" "CHR ''/'' \<notin> set b" "trim_space (b @ ''-cloud'') = b @ ''-cloud''"
  shows "parseSourceSuffix (a @ CHR '':'' # b @ ''-cloud'') = (a @ CHR '':'' # b, ModelSourceCloud, True)"
proof -
  have low: "lower ''-cloud'' = ''-cloud''" by code_simp
  have "lower b @ ''-cloud'' \<noteq> ''cloud''"
    using arg_cong[of "lower b @ ''-cloud''" "''cloud''" length] by auto
  moreover have "lower b @ ''-cloud'' \<noteq> ''local''"
    using arg_cong[of "lower b @ ''-cloud''" "''local''" last] by auto
  moreover have "\<not> go_contains (b @ ''-cloud'') ''/''"
    using assms(2) by (auto simp: go_contains_def go_index_char_None[THEN iffD2])
  ultimately show ?thesis
    using assms parseSourceSuffix_colon[of "b @ ''-cloud''" a] low
    by (simp add: lower_append Let_def suffix_def)
qed

lemma HasExplicitTag_split:
  assumes "HasExplicitTag bas"
  obtains a b where "bas = a @ CHR '':'' # b" "CHR '':'' \<notin> set b" "CHR ''/'' \<notin> set b"
proof -
  have "go_last_index bas '':'' \<noteq> None"
    using assms by (auto simp: HasExplicitTag_def last_index_int_def split: option.splits)
  then obtain i where i: "go_last_index bas '':'' = Some i" by blast
  then obtain a b where ab: "bas = a @ CHR '':'' # b" "CHR '':'' \<notin> set b" "i = length a"
    by (rule go_last_index_charE)
  have "CHR ''/'' \<notin> set b"
  proof
    assume "CHR ''/'' \<in> set b"
    then obtain c d where b: "b = c @ CHR ''/'' # d" "CHR ''/'' \<notin> set d" by (metis split_list_last)
    then have "last_index_int bas ''/'' = int (length (a @ CHR '':'' # c))"
      using last_index_int_char(1)[OF b(2), of "a @ CHR '':'' # c"] ab(1) by simp
    then show False
      using assms last_index_int_char(1)[OF ab(2), of a] ab(1) by (simp add: HasExplicitTag_def)
  qed
  then show thesis using that ab by blast
qed

lemma parseSourceSuffix_pull_name:
  assumes "spaceless bas"
  shows "parseSourceSuffix (toLegacyCloudPullName bas) = (bas, ModelSourceCloud, True)"
proof (cases "HasExplicitTag bas")
  case True
  then obtain a b where ab: "bas = a @ CHR '':'' # b" "CHR '':'' \<notin> set b" "CHR ''/'' \<notin> set b"
    by (rule HasExplicitTag_split)
  have "spaceless b" using assms ab(1) spaceless_suffix[of "a @ '':''" b] by simp
  then have "trim_space (b @ ''-cloud'') = b @ ''-cloud''"
    by (intro spaceless_trim_space spaceless_append) auto
  then show ?thesis
    using True ab parseSourceSuffix_tag_cloud[of b a] by (simp add: toLegacyCloudPullName_def)
qed (simp add: toLegacyCloudPullName_def parseSourceSuffix_cloud)

section \<open>Properties\<close>

text \<open>
  C29. The name \<open>NormalizePullName\<close> makes of a cloud reference is a reference to the same base
  with the same source: it parses back to that base, and normalising it again changes nothing.
\<close>

theorem NormalizePullName_stable:
  assumes "ParseRef raw = Inr r" "Source r = ModelSourceCloud" "spaceless (Base r)"
  shows "\<exists>p. NormalizePullName raw = Inr (p, True)
    \<and> ParseRef p = Inr \<lparr>Original = p, Base = Base r, Source = ModelSourceCloud\<rparr>
    \<and> NormalizePullName p = Inr (p, True)"
proof -
  let ?p = "toLegacyCloudPullName (Base r)"
  have n: "NormalizePullName raw = Inr (?p, True)" using assms by (simp add: NormalizePullName_def)
  obtain bas src e where s: "parseSourceSuffix (trim_space raw) = (bas, src, e)"
    by (cases "parseSourceSuffix (trim_space raw)") auto
  have "e" if "src = ModelSourceCloud"
    using s that by (auto simp: parseSourceSuffix_def Let_def split: option.splits if_splits)
  then have base: "\<not> snd (snd (parseSourceSuffix (Base r)))"
    using assms(1,2) s by (auto simp: ParseRef_def Let_def split: if_splits)
  have "spaceless ?p"
    using assms(3) by (auto simp: toLegacyCloudPullName_def intro!: spaceless_append)
  then have "trim_space ?p = ?p" by (rule spaceless_trim_space)
  moreover have "?p \<noteq> []" by (simp add: toLegacyCloudPullName_def)
  ultimately have "ParseRef ?p = Inr \<lparr>Original = ?p, Base = Base r, Source = ModelSourceCloud\<rparr>"
    using parseSourceSuffix_pull_name[OF assms(3)] base by (simp add: ParseRef_def)
  then show ?thesis using n by (auto simp: NormalizePullName_def)
qed

theorem NormalizePullName_stable_witness:
  "\<exists>p. NormalizePullName '' m:8b:Cloud'' = Inr (p, True)
    \<and> ParseRef p = Inr \<lparr>Original = p, Base = ''m:8b'', Source = ModelSourceCloud\<rparr>
    \<and> NormalizePullName p = Inr (p, True)"
proof -
  let ?r = "\<lparr>Original = ''m:8b:Cloud'', Base = ''m:8b'', Source = ModelSourceCloud\<rparr>"
  have "ParseRef '' m:8b:Cloud'' = Inr ?r" "Source ?r = ModelSourceCloud" "spaceless (Base ?r)" by code_simp+
  from NormalizePullName_stable[OF this] show ?thesis by simp
qed

end
