(* ===== verification/ThinkValue.thy ===== *)
theory ThinkValue
  imports GoStrings
begin

text \<open>
  \<^verbatim>\<open>types/model/thinking.go\<close>: the thinking controls a model advertises, and the value a
  request carries. A Go \<^verbatim>\<open>any\<close> is a \<open>dyn\<close>, absent when it is nil; a nil pointer is \<open>None\<close>.
\<close>

section \<open>Values\<close>

text \<open>The dynamic types the code tells apart; \<open>DynOther\<close> stands for every other one (a JSON
  number, array or object).\<close>

datatype dyn = DynBool bool | DynString string | DynOther nat

section \<open>The descriptor of a model\<close>

record Thinking_desc =
  Values :: "dyn list"
  Default :: "dyn option"

text \<open>\<open>(t *Thinking) Supports(value)\<close>\<close>

definition Supports :: "Thinking_desc option \<Rightarrow> dyn option \<Rightarrow> bool" where
  "Supports t value =
     (case t of
        None \<Rightarrow> False
      | Some d \<Rightarrow>
          (case value of
             Some (DynBool b) \<Rightarrow> DynBool b \<in> set (Values d)
           | Some (DynString s) \<Rightarrow> DynString s \<in> set (Values d)
           | _ \<Rightarrow> False))"

text \<open>The loop of \<open>Valid\<close> over the values: \<open>seen\<close> is \<open>t.Values[:i]\<close>.\<close>

fun valid_values :: "dyn list \<Rightarrow> dyn list \<Rightarrow> bool" where
  "valid_values seen [] = True"
| "valid_values seen (v # vs) =
     (case v of
        DynBool _ \<Rightarrow> if v \<in> set seen then False else valid_values (seen @ [v]) vs
      | DynString s \<Rightarrow>
          if s = [] then False
          else if v \<in> set seen then False else valid_values (seen @ [v]) vs
      | DynOther _ \<Rightarrow> False)"

definition Valid :: "Thinking_desc option \<Rightarrow> bool" where
  "Valid t =
     (case t of
        None \<Rightarrow> False
      | Some d \<Rightarrow>
          if Values d = [] then False
          else if \<not> valid_values [] (Values d) then False
          else Supports t (Default d))"

definition Clone :: "Thinking_desc option \<Rightarrow> Thinking_desc option" where
  "Clone t = (case t of None \<Rightarrow> None | Some d \<Rightarrow> Some \<lparr>Values = Values d, Default = Default d\<rparr>)"

section \<open>The value of a request\<close>

text \<open>A \<open>*ThinkValue\<close>: the pointer may be nil, and so may its \<open>Value\<close>.\<close>

record ThinkValue = Value :: "dyn option"

definition ThinkValue_IsValid :: "ThinkValue option \<Rightarrow> bool" where
  "ThinkValue_IsValid t =
     (case t of
        None \<Rightarrow> True
      | Some tv \<Rightarrow>
          (case Value tv of
             None \<Rightarrow> True
           | Some (DynBool _) \<Rightarrow> True
           | Some (DynString _) \<Rightarrow> True
           | Some (DynOther _) \<Rightarrow> False))"

definition ThinkValue_IsBool :: "ThinkValue option \<Rightarrow> bool" where
  "ThinkValue_IsBool t =
     (case t of
        None \<Rightarrow> False
      | Some tv \<Rightarrow> (case Value tv of Some (DynBool _) \<Rightarrow> True | _ \<Rightarrow> False))"

definition ThinkValue_IsString :: "ThinkValue option \<Rightarrow> bool" where
  "ThinkValue_IsString t =
     (case t of
        None \<Rightarrow> False
      | Some tv \<Rightarrow> (case Value tv of Some (DynString _) \<Rightarrow> True | _ \<Rightarrow> False))"

definition ThinkValue_Bool :: "ThinkValue option \<Rightarrow> bool" where
  "ThinkValue_Bool t =
     (case t of
        None \<Rightarrow> False
      | Some tv \<Rightarrow>
          (case Value tv of
             None \<Rightarrow> False
           | Some (DynBool v) \<Rightarrow> v
           | Some (DynString _) \<Rightarrow> True
           | Some (DynOther _) \<Rightarrow> False))"

definition ThinkValue_String :: "ThinkValue option \<Rightarrow> string" where
  "ThinkValue_String t =
     (case t of
        None \<Rightarrow> []
      | Some tv \<Rightarrow>
          (case Value tv of
             None \<Rightarrow> []
           | Some (DynString v) \<Rightarrow> v
           | Some (DynBool v) \<Rightarrow> if v then ''medium'' else []
           | Some (DynOther _) \<Rightarrow> []))"

text \<open>
  \<open>UnmarshalJSON\<close>, after \<^verbatim>\<open>json.Unmarshal\<close> into an \<^verbatim>\<open>any\<close>, whose outcome is \<open>decoded\<close>: an
  error, or a value (nil for \<^verbatim>\<open>null\<close>). The receiver is left as it is on an error.
\<close>

datatype 'e think_error = JSONError 'e | ThinkTypeError

definition ThinkValue_UnmarshalJSON ::
  "ThinkValue \<Rightarrow> 'e + dyn option \<Rightarrow> 'e think_error option \<times> ThinkValue" where
  "ThinkValue_UnmarshalJSON t decoded =
     (case decoded of
        Inl e \<Rightarrow> (Some (JSONError e), t)
      | Inr None \<Rightarrow> (None, t\<lparr>Value := None\<rparr>)
      | Inr (Some (DynBool b)) \<Rightarrow> (None, t\<lparr>Value := Some (DynBool b)\<rparr>)
      | Inr (Some (DynString s)) \<Rightarrow> (None, t\<lparr>Value := Some (DynString s)\<rparr>)
      | Inr (Some (DynOther _)) \<Rightarrow> (Some ThinkTypeError, t))"

section \<open>Properties\<close>

lemma valid_values_iff:
  "distinct seen \<Longrightarrow> valid_values seen vs \<longleftrightarrow>
     distinct (seen @ vs) \<and> list_all (\<lambda>v. case v of DynBool _ \<Rightarrow> True | DynString s \<Rightarrow> s \<noteq> [] | DynOther _ \<Rightarrow> False) vs"
  by (induction seen vs rule: valid_values.induct) (auto split: dyn.splits)

text \<open>
  A descriptor is valid exactly if it lists at least one control, all controls are booleans
  or non-empty names, none is listed twice, and the default is one of them.
\<close>

theorem Valid_iff:
  "Valid (Some d) \<longleftrightarrow>
     distinct (Values d) \<and> (\<exists>v\<in>set (Values d). Default d = Some v) \<and>
     list_all (\<lambda>v. case v of DynBool _ \<Rightarrow> True | DynString s \<Rightarrow> s \<noteq> [] | DynOther _ \<Rightarrow> False) (Values d)"
  by (auto simp: Valid_def Supports_def valid_values_iff list_all_iff split: option.splits dyn.splits)

text \<open>
  C30. Decoding a request's thinking value from JSON leaves a value of a permitted type behind,
  and reports an error exactly when it changes nothing: for a malformed document, or one that is
  neither null, a boolean nor a string.
\<close>

theorem ThinkValue_UnmarshalJSON_valid:
  assumes "ThinkValue_IsValid (Some t)"
  shows "case ThinkValue_UnmarshalJSON t decoded of
     (None, t') \<Rightarrow> ThinkValue_IsValid (Some t') \<and> decoded = Inr (Value t')
   | (Some _, t') \<Rightarrow> t' = t \<and> (\<forall>v. decoded = Inr v \<longrightarrow> (\<exists>n. v = Some (DynOther n)))"
  using assms
  by (auto simp: ThinkValue_UnmarshalJSON_def ThinkValue_IsValid_def split: sum.splits option.splits dyn.splits)

theorem ThinkValue_UnmarshalJSON_valid_witness:
  "ThinkValue_IsValid (Some (snd (ThinkValue_UnmarshalJSON \<lparr>Value = None\<rparr> (Inr (Some (DynString ''high'')) :: nat + dyn option))))"
proof -
  have "ThinkValue_IsValid (Some \<lparr>Value = None\<rparr>)" by code_simp
  from ThinkValue_UnmarshalJSON_valid[OF this, of "Inr (Some (DynString ''high'')) :: nat + dyn option"]
  show ?thesis by (simp add: ThinkValue_UnmarshalJSON_def)
qed

end
