(* ===== verification/ParserCommon.thy ===== *)
theory ParserCommon
  imports Streaming ThinkValue
begin

text \<open>
  What the parsers of \<^verbatim>\<open>model/parsers\<close> share: \<open>splitAtTag\<close>, the holding back of white space
  and partial tags every \<open>eat\<close> does, the events, the numbering of tool calls, and the request
  values the \<open>Init\<close> functions read. The interface every parser offers for its tool calls is the
  locale \<open>call_numbering\<close>.
\<close>

section \<open>Values of the API\<close>

text \<open>
  A tool call: \<^verbatim>\<open>api.ToolCallFunction\<close> (the identifier around it is not set by the parsers). The
  arguments are a third-party ordered map, so their type is a parameter.
\<close>

record 'a ToolCall =
  tc_Index :: nat
  tc_Name :: string
  tc_Arguments :: 'a

text \<open>The fields of \<^verbatim>\<open>api.Message\<close> and \<^verbatim>\<open>api.Tool\<close> the parsers read.\<close>

record Message =
  msg_Role :: string
  msg_Content :: string

record 'p Tool =
  tool_Name :: string
  tool_Parameters :: 'p

text \<open>The prefill test of the \<open>Init\<close> functions: the last message is a non-empty assistant
  message.\<close>

definition assistant_prefill :: "Message option \<Rightarrow> bool" where
  "assistant_prefill lastMessage =
     (case lastMessage of
        None \<Rightarrow> False
      | Some m \<Rightarrow> msg_Role m = ''assistant'' \<and> msg_Content m \<noteq> [])"

section \<open>Events\<close>

text \<open>The three kinds of events of a parser; \<open>'c\<close> is what it knows of a tool call.\<close>

datatype 'c event = EvContent string | EvThinking string | EvCall 'c

fun event_atoms :: "'c event \<Rightarrow> 'c atom list" where
  "event_atoms (EvContent s) = map Content s"
| "event_atoms (EvThinking s) = map Think s"
| "event_atoms (EvCall c) = [Call c]"

text \<open>An event is appended only when its text is not empty.\<close>

definition emit :: "(string \<Rightarrow> 'c event) \<Rightarrow> string \<Rightarrow> 'c event list" where
  "emit ev s = (if s \<noteq> [] then [ev s] else [])"

lemma emit_atoms [simp]:
  "atoms event_atoms (emit EvContent s) = map Content s"
  "atoms event_atoms (emit EvThinking s) = map Think s"
  by (simp_all add: emit_def)

definition contents :: "'c event list \<Rightarrow> string" where
  "contents es = concat (map (\<lambda>e. case e of EvContent s \<Rightarrow> s | _ \<Rightarrow> []) es)"

definition thinkings :: "'c event list \<Rightarrow> string" where
  "thinkings es = concat (map (\<lambda>e. case e of EvThinking s \<Rightarrow> s | _ \<Rightarrow> []) es)"

definition raw_calls :: "'c event list \<Rightarrow> 'c list" where
  "raw_calls es = concat (map (\<lambda>e. case e of EvCall c \<Rightarrow> [c] | _ \<Rightarrow> []) es)"

lemma events_atoms:
  "contents es = content_of (atoms event_atoms es)"
  "thinkings es = thinking_of (atoms event_atoms es)"
  "raw_calls es = calls_of (atoms event_atoms es)"
  by (induction es) (auto simp: contents_def thinkings_def raw_calls_def split: event.splits)

lemma raw_calls_Nil: "raw_calls es = [] \<longleftrightarrow> (\<forall>e\<in>set es. \<forall>c. e \<noteq> EvCall c)"
  by (induction es) (auto simp: raw_calls_def split: event.splits)

lemma thinkings_Nil: "(\<forall>e\<in>set es. \<forall>s. e \<noteq> EvThinking s) \<Longrightarrow> thinkings es = []"
  by (induction es) (auto simp: thinkings_def split: event.splits)

section \<open>Tool calls\<close>

text \<open>
  What \<open>Add\<close> returns: content, thinking, tool calls and an error. The two shapes of the loop
  over the events: \<open>collect\<close> parses and numbers each call as it comes and gives up at the first
  one that fails, with the numbers given so far used up; \<open>gather\<close> only parses them, and
  \<open>index_from\<close> numbers the calls of a chunk at the end.
\<close>

type_synonym ('a, 'e) added = "string \<times> string \<times> 'a ToolCall list \<times> 'e option"

fun collect ::
  "('r \<Rightarrow> 'e + 'a ToolCall) \<Rightarrow> nat \<Rightarrow> 'r event list \<Rightarrow> ('e + string \<times> string \<times> 'a ToolCall list) \<times> nat" where
  "collect parse n [] = (Inr ([], [], []), n)"
| "collect parse n (EvContent s # es) =
     (case collect parse n es of
        (Inl e, m) \<Rightarrow> (Inl e, m)
      | (Inr (c, th, calls), m) \<Rightarrow> (Inr (s @ c, th, calls), m))"
| "collect parse n (EvThinking s # es) =
     (case collect parse n es of
        (Inl e, m) \<Rightarrow> (Inl e, m)
      | (Inr (c, th, calls), m) \<Rightarrow> (Inr (c, s @ th, calls), m))"
| "collect parse n (EvCall r # es) =
     (case parse r of
        Inl e \<Rightarrow> (Inl e, n)
      | Inr call \<Rightarrow>
          (case collect parse (Suc n) es of
             (Inl e, m) \<Rightarrow> (Inl e, m)
           | (Inr (c, th, calls), m) \<Rightarrow> (Inr (c, th, call\<lparr>tc_Index := n\<rparr> # calls), m)))"

fun index_from :: "nat \<Rightarrow> 'a ToolCall list \<Rightarrow> 'a ToolCall list" where
  "index_from n [] = []"
| "index_from n (c # cs) = c\<lparr>tc_Index := n\<rparr> # index_from (Suc n) cs"

fun gather ::
  "('r \<Rightarrow> 'e + 'a ToolCall) \<Rightarrow> 'r event list \<Rightarrow> 'e + string \<times> string \<times> 'a ToolCall list" where
  "gather parse [] = Inr ([], [], [])"
| "gather parse (EvContent s # es) =
     (case gather parse es of Inl e \<Rightarrow> Inl e | Inr (c, th, calls) \<Rightarrow> Inr (s @ c, th, calls))"
| "gather parse (EvThinking s # es) =
     (case gather parse es of Inl e \<Rightarrow> Inl e | Inr (c, th, calls) \<Rightarrow> Inr (c, s @ th, calls))"
| "gather parse (EvCall r # es) =
     (case parse r of
        Inl e \<Rightarrow> Inl e
      | Inr call \<Rightarrow>
          (case gather parse es of Inl e \<Rightarrow> Inl e | Inr (c, th, calls) \<Rightarrow> Inr (c, th, call # calls)))"

text \<open>Numbering at the end gives what numbering on the way gives, unless there is an error.\<close>

lemma collect_gather:
  "case gather parse es of
     Inl e \<Rightarrow> \<exists>m. collect parse n es = (Inl e, m)
   | Inr (c, th, calls) \<Rightarrow> collect parse n es = (Inr (c, th, index_from n calls), n + length calls)"
  by (induction parse n es rule: collect.induct) (auto split: sum.splits prod.splits)

lemma gather_Inl: "collect parse n es = (Inl e, m) \<Longrightarrow> gather parse es = Inl e"
  using collect_gather[where parse = parse and es = es and n = n] by (auto split: sum.splits)

lemma gather_Inr:
  "collect parse n es = (Inr (c, th, calls), m) \<Longrightarrow>
     \<exists>calls0. gather parse es = Inr (c, th, calls0) \<and> calls = index_from n calls0 \<and> m = n + length calls0"
  using collect_gather[where parse = parse and es = es and n = n] by (auto split: sum.splits)

lemma index_from_numbers: "map tc_Index (index_from n cs) = [n..<n + length cs]"
  "length (index_from n cs) = length cs"
  by (induction n cs rule: index_from.induct) (simp_all del: upt.simps add: upt_conv_Cons)

lemma index_from_numbers': "map tc_Index (index_from n cs) = [n..<n + length (index_from n cs)]"
  by (simp add: index_from_numbers)

text \<open>\<open>collect\<close> reads the content and the thinking off the events, and numbers the calls.\<close>

lemma collect_Inr:
  "collect parse n es = (Inr (c, th, calls), m) \<Longrightarrow>
     c = contents es \<and> th = thinkings es \<and> m = n + length calls \<and> map tc_Index calls = [n..<m]
     \<and> list_all2 (\<lambda>r call. \<exists>call0. parse r = Inr call0 \<and> tc_Name call = tc_Name call0
          \<and> tc_Arguments call = tc_Arguments call0) (raw_calls es) calls"
proof (induction parse n es arbitrary: c th calls m rule: collect.induct)
  case (4 parse n r es)
  then show ?case
    by (auto simp: contents_def thinkings_def raw_calls_def upt_conv_Cons
        split: sum.splits prod.splits simp del: upt.simps)
qed (auto simp: contents_def thinkings_def raw_calls_def split: sum.splits prod.splits)

lemma collect_Inl:
  "collect parse n es = (Inl e, m) \<Longrightarrow> \<exists>r\<in>set (raw_calls es). parse r = Inl e"
  by (induction parse n es arbitrary: m rule: collect.induct)
    (auto simp: raw_calls_def split: sum.splits prod.splits)

text \<open>A concrete call parser, for the examples that evaluate a parser: the text of a call is its
  name, and an empty one is an error.\<close>

definition echo_parse :: "unit Tool list \<Rightarrow> string \<Rightarrow> string + string ToolCall" where
  "echo_parse tools raw =
     (if raw = [] then Inl ''empty'' else Inr \<lparr>tc_Index = 0, tc_Name = raw, tc_Arguments = raw\<rparr>)"

section \<open>The numbers of tool calls\<close>

text \<open>
  The contract of \<open>Add\<close> about the numbers of the tool calls, for any parser: an \<open>Add\<close> without
  an error numbers its calls on from the parser's counter. Then over a whole stream the calls are
  numbered without a gap.
\<close>

text \<open>A whole stream: \<open>done\<close> is set for the last chunk, and the stream ends at an error.\<close>

fun stream ::
  "('p \<Rightarrow> string \<Rightarrow> bool \<Rightarrow> ('a, 'e) added option \<times> 'p) \<Rightarrow> 'p \<Rightarrow> string list
    \<Rightarrow> ('e + string \<times> string \<times> 'a ToolCall list) option" where
  "stream add p [] = Some (Inr ([], [], []))"
| "stream add p (s # cs) =
     (case add p s (cs = []) of
        (None, _) \<Rightarrow> None
      | (Some (_, _, _, Some e), _) \<Rightarrow> Some (Inl e)
      | (Some (c, th, calls, None), p') \<Rightarrow>
          (case stream add p' cs of
             None \<Rightarrow> None
           | Some (Inl e) \<Rightarrow> Some (Inl e)
           | Some (Inr (c', th', calls')) \<Rightarrow> Some (Inr (c @ c', th @ th', calls @ calls'))))"

locale call_numbering =
  fixes add :: "'p \<Rightarrow> string \<Rightarrow> bool \<Rightarrow> ('a, 'e) added option \<times> 'p"
    and idx :: "'p \<Rightarrow> nat"
  assumes numbered: "add p s final = (Some (c, th, calls, None), p') \<Longrightarrow>
      idx p' = idx p + length calls \<and> map tc_Index calls = [idx p..<idx p + length calls]"
begin

lemma stream_numbered:
  "stream add p cs = Some (Inr (c, th, calls)) \<Longrightarrow> map tc_Index calls = [idx p..<idx p + length calls]"
proof (induction cs arbitrary: p c th calls)
  case (Cons s cs)
  from Cons.prems obtain c1 th1 calls1 p1 c2 th2 calls2 where
    1: "add p s (cs = []) = (Some (c1, th1, calls1, None), p1)"
    "stream add p1 cs = Some (Inr (c2, th2, calls2))" "calls = calls1 @ calls2"
    by (auto split: prod.splits option.splits sum.splits)
  have 2: "idx p1 = idx p + length calls1" "map tc_Index calls1 = [idx p..<idx p + length calls1]"
    and 3: "map tc_Index calls2 = [idx p1..<idx p1 + length calls2]"
    using numbered[OF 1(1)] Cons.IH[OF 1(2)] by auto
  then show ?case
    using 1(3) upt_add_eq_append[of "idx p" "idx p + length calls1" "length calls2"] by (simp add: add.assoc)
qed simp

end

section \<open>Splitting at a tag\<close>

text \<open>
  \<open>splitAtTag(sb, tag, trimAfter)\<close>: the texts before and after the first tag, and what the
  buffer holds afterwards.
\<close>

definition splitAtTag :: "string \<Rightarrow> string \<Rightarrow> bool \<Rightarrow> (string \<times> string) \<times> string" where
  "splitAtTag sb tag trimAfter =
     (case go_cut sb tag of
        None \<Rightarrow> ((sb, []), [])
      | Some (before, after) \<Rightarrow>
          (let after' = if trimAfter then trim_left after else after
           in ((trim_right before, after'), after')))"

text \<open>
  The tail of every collecting state: the longest partial tag at the end of the buffer and the
  white space before it are ambiguous and stay in the buffer; the text before is emitted. (The
  code has the case without a partial tag as a branch of its own; it is the same with an overlap
  of 0.)
\<close>

definition withhold :: "string list \<Rightarrow> string \<Rightarrow> string \<times> string" where
  "withhold tags acc =
     (let overlapLen = max_overlap tags acc;
          beforePartialTag = take (length acc - overlapLen) acc;
          ambiguousStart = length beforePartialTag - trailingWhitespaceLen beforePartialTag
      in (take ambiguousStart acc, drop ambiguousStart acc))"

lemma withhold_eq: "withhold T s = (trim_right (unheld T s), drop (length (trim_right (unheld T s))) s)"
proof -
  let ?u = "unheld T s"
  obtain w where w: "?u = trim_right ?u @ w" using trim_right_split by blast
  have u: "prefix ?u s" by (simp add: unheld_def take_is_prefix)
  have "length ?u - trailingWhitespaceLen ?u = length (trim_right ?u)"
    using length_trim_right[of ?u] by (simp add: trailingWhitespaceLen_eq)
  moreover have "take (length (trim_right ?u)) s = trim_right ?u"
    using u w by (metis append_assoc append_eq_conv_conj prefixE)
  ultimately show ?thesis unfolding withhold_def Let_def unheld_def[symmetric] by simp
qed

lemma withhold_append_eq: "withhold T s = (u, h) \<Longrightarrow> s = u @ h"
  by (auto simp: withhold_def Let_def)

lemma withhold_length: "withhold T s = (u, h) \<Longrightarrow> length h \<le> length s"
  using withhold_append_eq[of T s u h] by simp

lemma withhold_trimmed: "withhold T s = (u, h) \<Longrightarrow> trim_right u = u"
  by (auto simp: withhold_eq)

section \<open>Holding back commutes with receiving more text\<close>

text \<open>Tags that do not start inside a rune.\<close>

definition good_tags :: "string list \<Rightarrow> bool" where
  "good_tags T \<longleftrightarrow> list_all (\<lambda>t. t \<noteq> [] \<and> \<not> cont_byte (hd t)) T"

lemma white_hd: "trim_right w = [] \<Longrightarrow> w \<noteq> [] \<Longrightarrow> \<not> cont_byte (hd w)"
proof (induction w rule: trim_right_induct)
  case (stop s)
  then show ?case by (simp add: trim_right_stop)
next
  case (step e s)
  then show ?case using space_encs_hd[of e] by (cases "s = []") (auto simp: trim_right_enc)
qed

text \<open>What is held back is white space and then a partial tag, if it is anything.\<close>

lemma withhold_split:
  assumes "withhold T s = (u, h)"
  obtains w where "h = w @ held T s" "trim_right w = []" "unheld T s = u @ w"
proof -
  obtain w where w: "unheld T s = trim_right (unheld T s) @ w" "trim_right w = []"
    using trim_right_split by blast
  have u: "u = trim_right (unheld T s)" using assms by (simp add: withhold_eq)
  then have "s = u @ (w @ held T s)" using w(1) by (metis append_assoc unheld_held)
  then have "h = w @ held T s" using withhold_append_eq[OF assms] by simp
  then show thesis using that w u by simp
qed

lemma withhold_hd:
  assumes "withhold T s = (u, h)" "good_tags T" "h \<noteq> []"
  shows "\<not> cont_byte (hd h)"
proof -
  obtain w where w: "h = w @ held T s" "trim_right w = []" using withhold_split[OF assms(1)] by blast
  show ?thesis
  proof (cases "w = []")
    case True
    then have "held T s \<noteq> []" using w assms(3) by simp
    then obtain t where "t \<in> set T" "prefix (held T s) t" using held_prefix[of T s] by blast
    then show ?thesis
      using assms(2) \<open>held T s \<noteq> []\<close> True w by (auto simp: good_tags_def list_all_iff prefix_def)
  next
    case False
    then show ?thesis using white_hd[OF w(2)] w(1) by simp
  qed
qed

lemma withhold_tag_free:
  assumes "withhold T s = (u, h)" "\<forall>t\<in>set T. \<not> go_contains s t"
  shows "tag_free T u (h @ c)"
proof -
  obtain w where w: "h = w @ held T s" "unheld T s = u @ w" using withhold_split[OF assms(1)] by blast
  have "tag_free T (unheld T s) (held T s)" by (rule tag_free_unheld) (use assms(2) in blast)
  then have "tag_free T (u @ w) (held T s @ c)" using tag_free_append w(2) by metis
  then show ?thesis using tag_free_left w(1) by (metis append_assoc)
qed

text \<open>A trimmed text that is emitted before the rest of a buffer.\<close>

lemma withhold_trim_right:
  assumes "withhold T s = (u, h)" "good_tags T" "aligned s" "prefix b (h @ c)"
  shows "trim_right (u @ b) = u @ trim_right b"
proof (cases "h = []")
  case True
  then have "aligned u" using assms(3) withhold_append_eq[OF assms(1)] by simp
  then show ?thesis using withhold_trimmed[OF assms(1)] by (simp add: trim_right_append)
next
  case False
  show ?thesis
  proof (cases "b = []")
    case True
    then show ?thesis using withhold_trimmed[OF assms(1)] by simp
  next
    case b: False
    then have "hd b = hd h" using False assms(4) by (cases h; cases b) auto
    then show ?thesis
      using withhold_trimmed[OF assms(1)] withhold_hd[OF assms(1,2) False] by (simp add: trim_right_append)
  qed
qed

lemma go_cut_prefix: "go_cut s t = Some (a, b) \<Longrightarrow> prefix a s"
  using go_cut_Some by (metis prefixI)

text \<open>
  The facts the parsers use: with \<open>(u, h) = withhold T s\<close> and no tag in \<open>s\<close>, looking for a tag
  in \<open>s @ c\<close>, splitting there and holding back do with \<open>h @ c\<close> what they do with \<open>s @ c\<close>, except
  that \<open>u\<close> stands in front.
\<close>

lemma withhold_commute:
  assumes w: "withhold T s = (u, h)" and no: "\<forall>t\<in>set T. \<not> go_contains s t"
    and good: "good_tags T" and al: "aligned s"
  shows "t \<in> set T \<Longrightarrow> go_cut (s @ c) t = map_option (\<lambda>(a, b). (u @ a, b)) (go_cut (h @ c) t)"
    and "t \<in> set T \<Longrightarrow> go_contains (s @ c) t = go_contains (h @ c) t"
    and "t \<in> set T \<Longrightarrow> go_index (s @ c) t = map_option (\<lambda>i. length u + i) (go_index (h @ c) t)"
    and "t \<in> set T \<Longrightarrow> go_contains (h @ c) t \<Longrightarrow>
      splitAtTag (s @ c) t tr = ((u @ fst (fst (splitAtTag (h @ c) t tr)), snd (fst (splitAtTag (h @ c) t tr))),
        snd (splitAtTag (h @ c) t tr))"
    and "withhold T (s @ c) = (u @ fst (withhold T (h @ c)), snd (withhold T (h @ c)))"
proof -
  have s: "s @ c = u @ (h @ c)" using withhold_append_eq[OF w] by simp
  have free: "tag_free T u (h @ c)" using withhold_tag_free[OF w no] .
  note hold = tag_free_hold[OF free]
  show cut: "t \<in> set T \<Longrightarrow> go_cut (s @ c) t = map_option (\<lambda>(a, b). (u @ a, b)) (go_cut (h @ c) t)"
    using hold(1) s by simp
  show "t \<in> set T \<Longrightarrow> go_contains (s @ c) t = go_contains (h @ c) t"
    using cut by (auto simp: go_contains_cut)
  show "t \<in> set T \<Longrightarrow> go_index (s @ c) t = map_option (\<lambda>i. length u + i) (go_index (h @ c) t)"
    using go_index_tag_free[OF tag_free_mem[OF free]] s by simp
  show "splitAtTag (s @ c) t tr = ((u @ fst (fst (splitAtTag (h @ c) t tr)), snd (fst (splitAtTag (h @ c) t tr))),
        snd (splitAtTag (h @ c) t tr))" if t: "t \<in> set T" "go_contains (h @ c) t"
  proof -
    obtain a b where ab: "go_cut (h @ c) t = Some (a, b)" using t(2) by (auto simp: go_contains_cut)
    have "trim_right (u @ a) = u @ trim_right a"
      using withhold_trim_right[OF w good al go_cut_prefix[OF ab]] .
    then show ?thesis using ab cut[OF t(1)] by (simp add: splitAtTag_def Let_def)
  qed
  have "prefix (unheld T (h @ c)) (h @ c)" by (metis prefixI unheld_held)
  then have "trim_right (u @ unheld T (h @ c)) = u @ trim_right (unheld T (h @ c))"
    by (rule withhold_trim_right[OF w good al])
  then show "withhold T (s @ c) = (u @ fst (withhold T (h @ c)), snd (withhold T (h @ c)))"
    using s hold(2) by (simp add: withhold_eq)
qed

section \<open>The first of two tags\<close>

text \<open>\<open>i != -1 && (j == -1 || i < j)\<close> for two results of \<^verbatim>\<open>strings.Index\<close>.\<close>

fun index_before :: "nat option \<Rightarrow> nat option \<Rightarrow> bool" where
  "index_before None j = False"
| "index_before (Some i) None = True"
| "index_before (Some i) (Some j) = (i < j)"

lemma index_before_shift [simp]:
  "index_before (map_option ((+) n) i) (map_option ((+) n) j) = index_before i j"
  by (cases i; cases j) simp_all

lemma go_index_nth: "go_index s t = Some i \<Longrightarrow> k < length t \<Longrightarrow> s ! (i + k) = t ! k"
  using go_index_Some[of s t i] by (metis add.commute le_add2 le_trans nth_drop nth_take)

text \<open>
  Tags that start with a byte they contain nowhere else cannot overlap, so which of two comes
  first is settled as soon as one of them is there.
\<close>

definition apart :: "string \<Rightarrow> string \<Rightarrow> bool" where
  "apart a b \<longleftrightarrow> a \<noteq> [] \<and> b \<noteq> [] \<and> hd a = hd b \<and> hd a \<notin> set (tl a) \<and> hd a \<notin> set (tl b)
     \<and> \<not> prefix a b \<and> \<not> prefix b a"

lemma apart_sym: "apart a b \<Longrightarrow> apart b a"
  by (auto simp: apart_def)

lemma apart_order:
  assumes ap: "apart a b" and i: "go_index (s @ c) a = Some i" "i + length a \<le> length s"
    and j: "go_index (s @ c) b = Some j" "length s < j + length b"
  shows "i < j"
proof (rule ccontr)
  assume "\<not> i < j"
  then have ji: "j \<le> i" by simp
  show False
  proof (cases "j = i")
    case True
    then have "prefix a (drop i (s @ c))" "prefix b (drop i (s @ c))"
      using go_index_prefix[OF i(1)] go_index_prefix[OF j(1)] by simp_all
    then show False using ap prefix_same_cases by (auto simp: apart_def)
  next
    case False
    then have k: "i - j < length b" "0 < i - j" using ji i(2) j(2) by auto
    have "a \<noteq> []" using ap by (simp add: apart_def)
    then have "(s @ c) ! i = hd a" using go_index_nth[OF i(1), of 0] by (simp add: hd_conv_nth)
    moreover have "(s @ c) ! i = b ! (i - j)" using go_index_nth[OF j(1) k(1)] ji by simp
    moreover have "b ! (i - j) \<in> set (tl b)"
      using k by (cases b) (auto simp: nth_Cons split: nat.splits)
    ultimately show False using ap by (auto simp: apart_def)
  qed
qed

lemma go_index_append_late:
  assumes "go_index s t = None" "go_index (s @ c) t = Some j"
  shows "length s < j + length t"
proof (rule ccontr)
  assume "\<not> length s < j + length t"
  then have "take (length t) (drop j s) = t"
    using go_index_Some[OF assms(2)] by simp
  then have "prefix t (drop j s)" by (metis take_is_prefix)
  then show False using assms(1) \<open>\<not> length s < j + length t\<close> by (auto simp: go_index_None)
qed

lemma index_before_append:
  assumes ap: "apart a b" and some: "go_contains s a \<or> go_contains s b"
  shows "index_before (go_index (s @ c) a) (go_index (s @ c) b) = index_before (go_index s a) (go_index s b)"
proof (cases "go_index s a")
  case None
  then obtain j where j: "go_index s b = Some j" using some by (auto simp: go_contains_def)
  show ?thesis
  proof (cases "go_index (s @ c) a")
    case (Some i)
    have "j < i"
      using apart_order[OF apart_sym[OF ap] go_index_append[OF j] go_index_bound[OF j] Some
          go_index_append_late[OF None Some]] .
    then show ?thesis using Some None go_index_append[OF j, of c] by simp
  qed (simp add: None)
next
  case (Some i)
  note a = go_index_append[OF this, of c]
  show ?thesis
  proof (cases "go_index s b")
    case None
    show ?thesis
    proof (cases "go_index (s @ c) b")
      case s: (Some j)
      have "i < j"
        using apart_order[OF ap a go_index_bound[OF Some] s go_index_append_late[OF None s]] .
      then show ?thesis using a s None Some by simp
    qed (simp add: a Some None)
  next
    case s: (Some j)
    then show ?thesis using a go_index_append[OF s, of c] Some by simp
  qed
qed

lemma splitAtTag_append:
  assumes "go_contains s t" "aligned s" "aligned c"
  shows "splitAtTag (s @ c) t False =
      ((fst (fst (splitAtTag s t False)), snd (splitAtTag s t False) @ c), snd (splitAtTag s t False) @ c)"
    "splitAtTag (s @ c) t True =
      (let after = if snd (splitAtTag s t True) = [] then trim_left c else snd (splitAtTag s t True) @ c
       in ((fst (fst (splitAtTag s t True)), after), after))"
    "snd (fst (splitAtTag s t tr)) = snd (splitAtTag s t tr)"
proof -
  obtain a b where ab: "go_cut s t = Some (a, b)" using assms(1) by (auto simp: go_contains_cut)
  have "suffix b s" using go_cut_Some[OF ab] by (metis append_assoc suffixI)
  then have "aligned b" using assms(2) aligned_suffix by blast
  then show "splitAtTag (s @ c) t True =
      (let after = if snd (splitAtTag s t True) = [] then trim_left c else snd (splitAtTag s t True) @ c
       in ((fst (fst (splitAtTag s t True)), after), after))"
    using ab go_cut_append[OF ab, of c] by (simp add: splitAtTag_def trim_left_append_cases Let_def)
  show "splitAtTag (s @ c) t False =
      ((fst (fst (splitAtTag s t False)), snd (splitAtTag s t False) @ c), snd (splitAtTag s t False) @ c)"
    "snd (fst (splitAtTag s t tr)) = snd (splitAtTag s t tr)"
    using ab go_cut_append[OF ab, of c] by (simp_all add: splitAtTag_def Let_def)
qed

lemma splitAtTag_shorter:
  "go_contains s t \<Longrightarrow> t \<noteq> [] \<Longrightarrow> length (snd (splitAtTag s t tr)) < length s"
proof -
  assume "go_contains s t" "t \<noteq> []"
  then obtain a b where ab: "go_cut s t = Some (a, b)" by (auto simp: go_contains_cut)
  have "length b < length s" using go_cut_Some[OF ab] \<open>t \<noteq> []\<close> by (cases t) auto
  then show ?thesis using ab length_trim_left[of b] by (simp add: splitAtTag_def Let_def)
qed

lemma splitAtTag_aligned: "aligned s \<Longrightarrow> aligned (snd (splitAtTag s t tr))"
proof (cases "go_cut s t")
  case (Some ab)
  assume "aligned s"
  moreover have "suffix (snd ab) s" using Some go_cut_Some[of s t "fst ab" "snd ab"] by (metis append_assoc prod.collapse suffixI)
  ultimately have "aligned (snd ab)" using aligned_suffix by blast
  then show ?thesis using Some by (cases ab) (simp add: splitAtTag_def Let_def aligned_trim_left)
qed (simp add: splitAtTag_def)

section \<open>Chunks\<close>

text \<open>
  Several parsers drop the white space after a closing tag as far as it has arrived in the same
  chunk. Their output does not depend on the chunks as long as no chunk starts with white space.
\<close>

definition ok_chunk :: "string \<Rightarrow> bool" where
  "ok_chunk c \<longleftrightarrow> aligned c \<and> trim_left c = c"

lemma ok_chunk_append: "ok_chunk c \<Longrightarrow> ok_chunk d \<Longrightarrow> ok_chunk (c @ d)"
  by (auto simp: ok_chunk_def aligned_append trim_left_append_cases)

lemma ok_chunk_trim_left: "aligned s \<Longrightarrow> ok_chunk c \<Longrightarrow> trim_left (s @ c) = trim_left s @ c"
  by (auto simp: ok_chunk_def trim_left_append_cases)

lemma ok_chunk_aligned: "ok_chunk c \<Longrightarrow> aligned c"
  by (simp add: ok_chunk_def)

lemma go_cut_suffix: "go_cut s t = Some (a, b) \<Longrightarrow> suffix b s"
  using go_cut_Some by (metis append_assoc suffixI)

lemma go_cut_shorter: "go_cut s t = Some (a, b) \<Longrightarrow> t \<noteq> [] \<Longrightarrow> length b < length s"
  using go_cut_Some[of s t a b] by (cases t) auto

lemma go_cut_aligned: "go_cut s t = Some (a, b) \<Longrightarrow> aligned s \<Longrightarrow> aligned b"
  using go_cut_suffix aligned_suffix by blast

lemma withhold_aligned: "withhold T s = (u, h) \<Longrightarrow> aligned s \<Longrightarrow> aligned h"
  using withhold_append_eq aligned_suffix suffixI by metis

section \<open>Streams of a parser that hides chunk boundaries\<close>

text \<open>\<open>collect\<close> in terms of what the events show, so the way text is cut into events is lost.\<close>

fun collect_calls ::
  "('r \<Rightarrow> 'e + 'a ToolCall) \<Rightarrow> nat \<Rightarrow> 'r list \<Rightarrow> ('e + 'a ToolCall list) \<times> nat" where
  "collect_calls parse n [] = (Inr [], n)"
| "collect_calls parse n (r # rs) =
     (case parse r of
        Inl e \<Rightarrow> (Inl e, n)
      | Inr call \<Rightarrow>
          (case collect_calls parse (Suc n) rs of
             (Inl e, m) \<Rightarrow> (Inl e, m)
           | (Inr calls, m) \<Rightarrow> (Inr (call\<lparr>tc_Index := n\<rparr> # calls), m)))"

lemma collect_eq:
  "collect parse n es =
     (case collect_calls parse n (raw_calls es) of
        (Inl e, m) \<Rightarrow> (Inl e, m)
      | (Inr calls, m) \<Rightarrow> (Inr (contents es, thinkings es, calls), m))"
  by (induction parse n es rule: collect.induct)
    (auto simp: contents_def thinkings_def raw_calls_def split: sum.splits prod.splits)

lemma collect_atoms:
  "atoms event_atoms es = atoms event_atoms es' \<Longrightarrow> collect parse n es = collect parse n es'"
proof -
  assume "atoms event_atoms es = atoms event_atoms es'"
  then have "contents es = contents es'" "thinkings es = thinkings es'" "raw_calls es = raw_calls es'"
    by (simp_all add: events_atoms)
  then show ?thesis by (simp only: collect_eq)
qed

lemma collect_append:
  "collect parse n (es @ es') =
     (case collect parse n es of
        (Inl e, m) \<Rightarrow> (Inl e, m)
      | (Inr (c, th, calls), m) \<Rightarrow>
          (case collect parse m es' of
             (Inl e, k) \<Rightarrow> (Inl e, k)
           | (Inr (c', th', calls'), k) \<Rightarrow> (Inr (c @ c', th @ th', calls @ calls'), k)))"
  by (induction parse n es rule: collect.induct) (auto split: sum.splits prod.splits)

text \<open>
  A parser whose \<open>Add\<close> drains the buffer, appends the events \<open>fin\<close> of the end of the stream and
  collects: over a stream it returns what it returns for the text as one chunk.
\<close>

locale streaming_parser = chunked eat mu feed event_atoms inv okc
  for eat :: "'s \<Rightarrow> 'r event list \<times> bool \<times> 's" and mu feed inv okc +
  fixes add :: "'s \<Rightarrow> string \<Rightarrow> bool \<Rightarrow> ('a, 'e) added option \<times> 's"
    and parse :: "'r \<Rightarrow> 'e + 'a ToolCall"
    and idx :: "'s \<Rightarrow> nat"
    and upd :: "nat \<Rightarrow> 's \<Rightarrow> 's"
    and fin :: "'s \<Rightarrow> 'r event list"
  assumes add_error: "inv p \<Longrightarrow> okc s \<Longrightarrow> drain eat (feed s p) [] = Some (es, q) \<Longrightarrow>
      collect parse (idx p) (es @ (if final then fin q else [])) = (Inl e, n) \<Longrightarrow>
      \<exists>q'. add p s final = (Some ([], [], [], Some e), q')"
    and add_final: "inv p \<Longrightarrow> okc s \<Longrightarrow> drain eat (feed s p) [] = Some (es, q) \<Longrightarrow>
      collect parse (idx p) (es @ fin q) = (Inr (c, th, calls), n) \<Longrightarrow>
      \<exists>q'. add p s True = (Some (c, th, calls, None), q')"
    and add_more: "inv p \<Longrightarrow> okc s \<Longrightarrow> drain eat (feed s p) [] = Some (es, q) \<Longrightarrow>
      collect parse (idx p) es = (Inr (c, th, calls), n) \<Longrightarrow>
      add p s False = (Some (c, th, calls, None), upd n q)"
    and upd_eat: "eat p = (es, k, p') \<Longrightarrow> eat (upd n p) = (es, k, upd n p')"
    and upd_feed: "feed s (upd n p) = upd n (feed s p)"
    and upd_idx: "inv p \<Longrightarrow> okc s \<Longrightarrow> drain eat (feed s p) [] = Some (es, q) \<Longrightarrow>
      collect parse (idx p) es = (Inr (c, th, calls), n) \<Longrightarrow> idx (upd n q) = n"
    and upd_inv: "inv p \<Longrightarrow> inv (upd n p)"
    and upd_fin: "fin (upd n p) = fin p"
begin

lemma upd_drain: "drain eat p [] = Some (es, q) \<Longrightarrow> drain eat (upd n p) [] = Some (es, upd n q)"
proof (induction "mu p" arbitrary: p es rule: less_induct)
  case less
  obtain es1 k p' where e: "eat p = (es1, k, p')" by (cases "eat p") auto
  show ?case
  proof (cases k)
    case True
    obtain es2 where d: "drain eat p' [] = Some (es2, q)" "es = es1 @ es2"
      using less.prems drain_unfold[of p] e True by (auto split: option.splits)
    have "mu p' < mu p" using eat_decreases e True by simp
    from less.hyps[OF this d(1)] show ?thesis
      using d(2) upd_eat[OF e] True by (subst drain_unfold) simp
  next
    case False
    then show ?thesis using less.prems drain_unfold[of p] e upd_eat[OF e] by (subst drain_unfold) simp
  qed
qed

lemma upd_run_chunks:
  "run_chunks eat feed cs p = Some (es, q) \<Longrightarrow> run_chunks eat feed cs (upd n p) = Some (es, upd n q)"
proof (induction cs arbitrary: p es)
  case (Cons c cs)
  then obtain es1 q1 es2 where d: "drain eat (feed c p) [] = Some (es1, q1)"
    "run_chunks eat feed cs q1 = Some (es2, q)" "es = es1 @ es2"
    by (auto split: option.splits)
  show ?case using upd_drain[OF d(1)] Cons.IH[OF d(2)] d(3) by (simp add: upd_feed)
qed simp

lemma stream_events:
  assumes "inv p" "\<forall>c\<in>set cs. okc c" "cs \<noteq> []" "run_chunks eat feed cs p = Some (es, q)"
  shows "stream add p cs = Some (fst (collect parse (idx p) (es @ fin q)))"
  using assms
proof (induction cs arbitrary: p es q)
  case (Cons s cs)
  obtain es1 q1 es2 where d: "drain eat (feed s p) [] = Some (es1, q1)"
    "run_chunks eat feed cs q1 = Some (es2, q)" "es = es1 @ es2"
    using Cons.prems(4) by (auto split: option.splits)
  have okc: "okc s" using Cons.prems(2) by simp
  show ?case
  proof (cases "cs = []")
    case True
    then have "es = es1" "q = q1" using d by auto
    then show ?thesis
      using add_error[OF Cons.prems(1) okc d(1), of True] add_final[OF Cons.prems(1) okc d(1)] True
      by (cases "collect parse (idx p) (es1 @ fin q1)"; cases "fst (collect parse (idx p) (es1 @ fin q1))")
        fastforce+
  next
    case False
    show ?thesis
    proof (cases "collect parse (idx p) es1")
      case (Pair r n)
      show ?thesis
      proof (cases r)
        case (Inl e)
        then show ?thesis
          using add_error[OF Cons.prems(1) okc d(1), of False] Pair False d(3)
          by (fastforce simp: collect_append)
      next
        case (Inr x)
        then obtain c th calls where x: "r = Inr (c, th, calls)" by (cases x) auto
        have inv1: "inv (upd n q1)"
          using inv_drain[OF inv_feed[OF Cons.prems(1) okc] d(1)] by (rule upd_inv)
        have "stream add (upd n q1) cs = Some (fst (collect parse n (es2 @ fin q)))"
          using Cons.IH[OF inv1 _ False upd_run_chunks[OF d(2)]] Cons.prems(2) Pair x
            upd_idx[OF Cons.prems(1) okc d(1)] by (simp add: upd_fin)
        then show ?thesis
          using add_more[OF Cons.prems(1) okc d(1)] Pair x False d(3)
          by (auto simp: collect_append split: sum.splits prod.splits)
      qed
    qed
  qed
qed simp

lemma stream_concat:
  assumes "inv p" "\<forall>c\<in>set cs. okc c" "cs \<noteq> []"
  shows "stream add p cs = stream add p [concat cs]"
proof -
  have okc: "okc (concat cs)"
    using assms(3,2) by (induction cs rule: list_nonempty_induct) (auto intro: okc_append)
  obtain es q where r: "run_chunks eat feed cs p = Some (es, q)" using run_chunks_Some by blast
  obtain es' q' where r': "run_chunks eat feed [concat cs] p = Some (es', q')" using run_chunks_Some by blast
  have "Some (atoms event_atoms es, q) = observe eat event_atoms (feed (concat cs) p)"
    using run_chunks_concat[OF assms] r by simp
  moreover have "Some (atoms event_atoms es', q') = observe eat event_atoms (feed (concat [concat cs]) p)"
    using run_chunks_concat[OF assms(1), of "[concat cs]"] r' okc by simp
  ultimately have "Some (atoms event_atoms es, q) = Some (atoms event_atoms es', q')" by simp
  then have "atoms event_atoms es = atoms event_atoms es'" "q' = q" by simp_all
  then have "collect parse (idx p) (es @ fin q) = collect parse (idx p) (es' @ fin q')"
    by (intro collect_atoms) simp
  then show ?thesis
    using stream_events[OF assms r] stream_events[OF assms(1) _ _ r'] okc by simp
qed

end

end
