(* ===== verification/TagScanner.thy ===== *)
theory TagScanner
  imports ParserCommon GoUtf8
begin

text \<open>
  The states of the parsers that collect text up to a tag, as an interface. In such a state
  \<open>eat\<close> looks for the first of some tags in the buffer; if there is one, the text before it is
  emitted and the state changes, otherwise everything but trailing white space and a partial tag is
  emitted. Such a state, and the states that skip white space, commute with receiving more text;
  each parser only has to show that its \<open>eat\<close> has this form.
\<close>

section \<open>The first of several tags\<close>

fun first_tag :: "string list \<Rightarrow> string \<Rightarrow> string option" where
  "first_tag [] s = None"
| "first_tag (t # T) s =
     (case first_tag T s of
        None \<Rightarrow> if go_contains s t then Some t else None
      | Some u \<Rightarrow> if index_before (go_index s t) (go_index s u) then Some t else Some u)"

fun all_apart :: "string list \<Rightarrow> bool" where
  "all_apart [] = True"
| "all_apart (t # T) = (list_all (apart t) T \<and> all_apart T)"

lemma index_before_contains: "index_before (go_index s a) j \<Longrightarrow> go_contains s a"
  by (cases "go_index s a") (auto simp: go_contains_def)

lemma first_tag_None: "first_tag T s = None \<longleftrightarrow> (\<forall>t\<in>set T. \<not> go_contains s t)"
  by (induction T) (auto split: option.splits)

lemma first_tag_Some: "first_tag T s = Some t \<Longrightarrow> t \<in> set T \<and> go_contains s t"
  by (induction T) (auto split: option.splits if_splits dest: index_before_contains)

lemma first_tag_shift:
  "(\<And>t. t \<in> set T \<Longrightarrow> go_index s t = map_option ((+) n) (go_index r t)) \<Longrightarrow> first_tag T s = first_tag T r"
proof (induction T)
  case (Cons t T)
  then have ih: "first_tag T s = first_tag T r" by simp
  have t: "go_index s t = map_option ((+) n) (go_index r t)" using Cons.prems by simp
  show ?case
  proof (cases "first_tag T r")
    case None
    then show ?thesis using ih t by (simp add: go_contains_def)
  next
    case (Some u)
    then have "go_index s u = map_option ((+) n) (go_index r u)"
      using first_tag_Some[OF Some] Cons.prems by simp
    then show ?thesis using ih t Some by simp
  qed
qed simp

lemma first_tag_append:
  "all_apart T \<Longrightarrow> first_tag T s = Some t \<Longrightarrow> first_tag T (s @ c) = Some t"
proof (induction T arbitrary: t)
  case (Cons v T)
  show ?case
  proof (cases "first_tag T s")
    case None
    then have v: "go_contains s v" "v = t" using Cons.prems(2) by (auto split: if_splits)
    then obtain i where i: "go_index s v = Some i" by (auto simp: go_contains_def)
    show ?thesis
    proof (cases "first_tag T (s @ c)")
      case (Some u)
      then have u: "u \<in> set T" "go_contains (s @ c) u" using first_tag_Some by blast+
      then obtain j where j: "go_index (s @ c) u = Some j" by (auto simp: go_contains_def)
      have "go_index s u = None" using None u(1) by (auto simp: first_tag_None go_contains_def)
      then have "i < j"
        using apart_order[OF _ go_index_append[OF i] go_index_bound[OF i] j] go_index_append_late[OF _ j]
          Cons.prems(1) u(1) by (auto simp: list_all_iff)
      then show ?thesis using Some v(2) go_index_append[OF i, of c] j by simp
    next
      case None
      then show ?thesis using v go_contains_append[OF v(1)] by simp
    qed
  next
    case (Some u)
    then have "first_tag T (s @ c) = Some u" using Cons by simp
    moreover have "index_before (go_index (s @ c) v) (go_index (s @ c) u)
        = index_before (go_index s v) (go_index s u)"
      using Cons.prems(1) first_tag_Some[OF Some] by (intro index_before_append) (auto simp: list_all_iff)
    ultimately show ?thesis using Cons.prems(2) Some by simp
  qed
qed simp

lemma first_tag_single: "first_tag [t] s = (if go_contains s t then Some t else None)"
  by simp

text \<open>How the code decides between two tags: the one is there and comes before the other.\<close>

lemma first_tag_two:
  "first_tag [a, b] s =
     (if index_before (go_index s a) (go_index s b) then Some a
      else if go_contains s b then Some b else None)"
  by (auto simp: go_contains_def split: option.splits)

lemma all_apart_single [simp]: "all_apart [t]"
  by simp

text \<open>Looking for a tag in a text that is put together from pieces.\<close>

lemma go_index_skip:
  "hd t \<notin> set a \<Longrightarrow> t \<noteq> [] \<Longrightarrow> go_index (a @ s) t = map_option ((+) (length a)) (go_index s t)"
proof (induction a)
  case (Cons x a)
  then have "\<not> prefix t (x # a @ s)" by (cases t) auto
  then show ?case using Cons by (cases "go_index s t") simp_all
qed (cases "go_index s t"; simp)

lemma go_index_apart:
  assumes "apart v t" shows "go_index (v @ s) t = map_option ((+) (length v)) (go_index s t)"
proof -
  obtain x v' where v: "v = x # v'" using assms by (cases v) (auto simp: apart_def)
  have "\<not> prefix t (v @ s)"
    using assms prefix_same_cases[of t "v @ s" v] by (auto simp: apart_def)
  moreover have "go_index (v' @ s) t = map_option ((+) (length v')) (go_index s t)"
    using assms v by (intro go_index_skip) (auto simp: apart_def)
  ultimately show ?thesis using v by (cases "go_index s t") simp_all
qed

lemma go_index_here [simp]: "go_index (t @ s) t = Some 0"
  by (intro go_index_eqI) auto

lemma go_index_absent: "hd t \<notin> set a \<Longrightarrow> t \<noteq> [] \<Longrightarrow> go_index a t = None"
  using go_index_skip[of t a "[]"] by simp

text \<open>\<open>go_cut\<close> for a tag whose place is known from \<open>go_index\<close>.\<close>

lemma go_cut_at: "go_index (a @ t @ b) t = Some (length a) \<Longrightarrow> go_cut (a @ t @ b) t = Some (a, b)"
  by (simp add: go_cut_def)

text \<open>Every tag starts with an angle or square bracket, which is no white space.\<close>

lemma trim_left_bracket: "trim_left (CHR ''<'' # s) = CHR ''<'' # s" "trim_left (CHR ''['' # s) = CHR ''['' # s"
  by (simp_all add: trim_left_stop space_len_def space_encs_def)

section \<open>Commuting with new text\<close>

locale tag_scanner = event_loop eat mu
  for eat :: "'s \<Rightarrow> 'r event list \<times> bool \<times> 's" and mu +
  fixes buf :: "'s \<Rightarrow> string"
    and setbuf :: "string \<Rightarrow> 's \<Rightarrow> 's"
  assumes buf_set [simp]: "buf (setbuf s p) = s"
    and set_set [simp]: "setbuf s (setbuf r p) = setbuf s p"
    and set_buf [simp]: "setbuf (buf p) p = p"
begin

text \<open>A state that skips white space and goes on as \<open>r\<close>.\<close>

lemma skip_shows:
  assumes "\<And>s. eat (setbuf s q) =
      (if trim_left s = [] then ([], False, setbuf [] q) else ([], True, setbuf (trim_left s) r))"
  shows "observe eat atom (setbuf s q) =
      (if trim_left s = [] then Some ([], setbuf [] q) else observe eat atom (setbuf (trim_left s) r))"
  using assms[of s] by (subst observe_unfold) simp

lemma skip_commute:
  assumes q: "\<And>s. eat (setbuf s q) =
      (if trim_left s = [] then ([], False, setbuf [] q) else ([], True, setbuf (trim_left s) r))"
    and al: "aligned (buf q)" and e: "eat q = (es, k, q')"
  shows "observe eat atom (setbuf (buf q @ c) q) = prepend (atoms atom es) (observe eat atom (setbuf (buf q' @ c) q'))"
  using e q[of "buf q"] skip_shows[OF q, of atom "buf q @ c"] skip_shows[OF q, of atom c] al
  by (cases "trim_left (buf q) = []") (auto simp: trim_left_append_cases)

lemma skip_after:
  assumes "\<And>s. eat (setbuf s q) =
      (if trim_left s = [] then ([], False, setbuf [] q) else ([], True, setbuf (trim_left s) r))"
  shows "observe eat atom (setbuf (trim_left c) (if trim_left c = [] then q else r)) = observe eat atom (setbuf c q)"
  using skip_shows[OF assms, of atom c] skip_shows[OF assms, of atom "[]"] by simp

text \<open>
  A collecting state: \<open>tr t\<close> says whether white space after the tag \<open>t\<close> is dropped, \<open>nxt t b\<close>
  is the state after it, where \<open>b\<close> says whether nothing follows the tag yet.
\<close>

lemma scan_commute:
  assumes scan: "\<And>s. eat (setbuf s p) =
      (case first_tag T s of
         None \<Rightarrow> (emit ev (fst (withhold T s)), False, setbuf (snd (withhold T s)) p)
       | Some t \<Rightarrow> (emit ev (fst (fst (splitAtTag s t (tr t)))), True,
           setbuf (snd (splitAtTag s t (tr t))) (nxt t (snd (splitAtTag s t (tr t)) = []))))"
    and ev: "ev = EvContent \<or> ev = EvThinking"
    and T: "good_tags T" "all_apart T"
    and al: "aligned (buf p)" "aligned c"
    and e: "eat p = (es, k, p')"
    and after: "\<And>t a. t \<in> set T \<Longrightarrow> aligned a \<Longrightarrow>
      (let a' = if tr t \<and> a = [] then trim_left c else a @ c
       in observe eat event_atoms (setbuf a' (nxt t (a' = []))))
        = observe eat event_atoms (setbuf (a @ c) (nxt t (a = [])))"
  shows "observe eat event_atoms (setbuf (buf p @ c) p)
    = prepend (atoms event_atoms es) (observe eat event_atoms (setbuf (buf p' @ c) p'))"
proof (cases "first_tag T (buf p)")
  case (Some t)
  then have t: "t \<in> set T" "go_contains (buf p) t" using first_tag_Some by blast+
  let ?x = "splitAtTag (buf p) t (tr t)"
  have p': "es = emit ev (fst (fst ?x))" "k = True" "p' = setbuf (snd ?x) (nxt t (snd ?x = []))"
    using e scan[of "buf p"] Some by simp_all
  let ?a = "if tr t \<and> snd ?x = [] then trim_left c else snd ?x @ c"
  have "fst (fst (splitAtTag (buf p @ c) t (tr t))) = fst (fst ?x) \<and> snd (splitAtTag (buf p @ c) t (tr t)) = ?a"
    using splitAtTag_append(1,2)[OF t(2) al] by (cases "tr t") (simp_all add: Let_def)
  then have "eat (setbuf (buf p @ c) p) = (es, True, setbuf ?a (nxt t (?a = [])))"
    using scan[of "buf p @ c"] first_tag_append[OF T(2) Some, of c] p'(1) by simp
  then have "observe eat event_atoms (setbuf (buf p @ c) p)
      = prepend (atoms event_atoms es) (observe eat event_atoms (setbuf ?a (nxt t (?a = []))))"
    by (rule observe_step)
  then show ?thesis
    using after[OF t(1) splitAtTag_aligned[OF al(1), of t "tr t"]] p'(3) by (simp add: Let_def)
next
  case None
  then have no: "\<forall>t\<in>set T. \<not> go_contains (buf p) t" by (simp add: first_tag_None)
  obtain u h where w: "withhold T (buf p) = (u, h)" by fastforce
  note wc = withhold_commute[OF w no T(1) al(1), where c = c]
  have p': "es = emit ev u" "p' = setbuf h p"
    using e scan[of "buf p"] None w by simp_all
  have first: "first_tag T (buf p @ c) = first_tag T (h @ c)"
    using wc(3) by (intro first_tag_shift[of T _ "length u"]) simp
  have emit: "atoms event_atoms (emit ev (u @ b)) = atoms event_atoms (emit ev u) @ atoms event_atoms (emit ev b)" for b
    using ev by auto
  show ?thesis
  proof (cases "first_tag T (h @ c)")
    case None
    then show ?thesis
      using observe_same_step[of "setbuf (buf p @ c) p" _ False _ "setbuf (h @ c) p", OF _ _ emit]
        scan[of "buf p @ c"] scan[of "h @ c"] first wc(5) p' by simp
  next
    case (Some t)
    then have "t \<in> set T" "go_contains (h @ c) t" using first_tag_Some by blast+
    from wc(4)[OF this] show ?thesis
      using observe_same_step[of "setbuf (buf p @ c) p" _ True _ "setbuf (h @ c) p", OF _ _ emit]
        scan[of "buf p @ c"] scan[of "h @ c"] first Some p' by simp
  qed
qed

end

end
