(* ===== verification/Qwen3.thy ===== *)
theory Qwen3
  imports TagScanner
begin

text \<open>
  \<^verbatim>\<open>model/parsers/qwen3.go\<close>. The decoding of a tool call's JSON goes through a third-party
  ordered map, so \<open>parseQwen3ToolCall\<close> takes the outcome of \<^verbatim>\<open>json.Unmarshal\<close> as an argument:
  \<open>unmarshal raw\<close> is an error or the name and the arguments.
\<close>

section \<open>The parser\<close>

datatype qwen3ParserState =
    Q3LookingForThinkingOpen
  | Q3ThinkingStartedEatingWhitespace
  | Q3CollectingThinking
  | Q3ThinkingDoneEatingWhitespace
  | Q3CollectingContent
  | Q3ToolStartedEatingWhitespace
  | Q3CollectingToolContent

definition qwen3ThinkingOpenTag :: string where "qwen3ThinkingOpenTag = ''<think>''"
definition qwen3ThinkingCloseTag :: string where "qwen3ThinkingCloseTag = ''</think>''"
definition qwen3ToolOpenTag :: string where "qwen3ToolOpenTag = ''<tool_call>''"
definition qwen3ToolCloseTag :: string where "qwen3ToolCloseTag = ''</tool_call>''"

record 'p Qwen3Parser =
  q3_state :: qwen3ParserState
  q3_buffer :: string
  q3_tools :: "'p Tool list"
  q3_callIndex :: nat
  q3_hasThinkingSupport :: bool
  q3_defaultThinking :: bool
  q3_maybeThinkingOpenAtBOL :: bool

text \<open>\<open>Qwen3Parser{hasThinkingSupport: h, defaultThinking: d}\<close>\<close>

definition new_Qwen3Parser :: "bool \<Rightarrow> bool \<Rightarrow> 'p Qwen3Parser" where
  "new_Qwen3Parser h d =
     \<lparr>q3_state = Q3LookingForThinkingOpen, q3_buffer = [], q3_tools = [], q3_callIndex = 0,
      q3_hasThinkingSupport = h, q3_defaultThinking = d, q3_maybeThinkingOpenAtBOL = False\<rparr>"

definition q3_HasToolSupport :: bool where "q3_HasToolSupport = True"

definition q3_PreservedTokens :: "string list" where
  "q3_PreservedTokens = [qwen3ThinkingOpenTag, qwen3ThinkingCloseTag, qwen3ToolOpenTag, qwen3ToolCloseTag]"

definition q3_Init :: "'p Tool list \<Rightarrow> ThinkValue option \<Rightarrow> 'p Qwen3Parser \<Rightarrow> 'p Qwen3Parser" where
  "q3_Init tools thinkValue p =
     (let thinkingEnabled =
        (if thinkValue = None then q3_defaultThinking p else ThinkValue_Bool thinkValue)
      in if q3_hasThinkingSupport p \<and> thinkingEnabled then
           p\<lparr>q3_tools := tools, q3_buffer := [], q3_callIndex := 0,
             q3_state := Q3CollectingThinking, q3_maybeThinkingOpenAtBOL := True\<rparr>
         else
           p\<lparr>q3_tools := tools, q3_buffer := [], q3_callIndex := 0,
             q3_state := Q3CollectingContent, q3_maybeThinkingOpenAtBOL := False\<rparr>)"

type_synonym qwen3Event = "string event"

definition q3_eatLeadingWhitespaceAndTransitionTo ::
  "qwen3ParserState \<Rightarrow> 'p Qwen3Parser \<Rightarrow> qwen3Event list \<times> bool \<times> 'p Qwen3Parser" where
  "q3_eatLeadingWhitespaceAndTransitionTo nextState p =
     (let trimmed = trim_left (q3_buffer p) in
      if trimmed = [] then ([], False, p\<lparr>q3_buffer := []\<rparr>)
      else ([], True, p\<lparr>q3_state := nextState, q3_buffer := trimmed\<rparr>))"

text \<open>The states in which a tag ends the text collected so far, and the state after it.\<close>

definition q3_split ::
  "(string \<Rightarrow> qwen3Event) \<Rightarrow> string \<Rightarrow> qwen3ParserState \<Rightarrow> qwen3ParserState \<Rightarrow> 'p Qwen3Parser
    \<Rightarrow> qwen3Event list \<times> bool \<times> 'p Qwen3Parser" where
  "q3_split ev tag emptyState fullState p =
     (case splitAtTag (q3_buffer p) tag True of
        ((before, after), buf) \<Rightarrow>
          (emit ev before, True,
           p\<lparr>q3_state := if after = [] then emptyState else fullState, q3_buffer := buf\<rparr>))"

definition q3_hold ::
  "(string \<Rightarrow> qwen3Event) \<Rightarrow> string list \<Rightarrow> 'p Qwen3Parser \<Rightarrow> qwen3Event list \<times> bool \<times> 'p Qwen3Parser" where
  "q3_hold ev tags p =
     (case withhold tags (q3_buffer p) of
        (unambiguous, ambiguous) \<Rightarrow> (emit ev unambiguous, False, p\<lparr>q3_buffer := ambiguous\<rparr>))"

definition q3_eat_thinking :: "'p Qwen3Parser \<Rightarrow> qwen3Event list \<times> bool \<times> 'p Qwen3Parser" where
  "q3_eat_thinking p =
     (let acc = q3_buffer p in
      if index_before (go_index acc qwen3ToolOpenTag) (go_index acc qwen3ThinkingCloseTag) then
        q3_split EvThinking qwen3ToolOpenTag Q3ToolStartedEatingWhitespace Q3CollectingToolContent p
      else if go_contains acc qwen3ThinkingCloseTag then
        q3_split EvThinking qwen3ThinkingCloseTag Q3ThinkingDoneEatingWhitespace Q3CollectingContent p
      else q3_hold EvThinking [qwen3ToolOpenTag, qwen3ThinkingCloseTag] p)"

definition q3_eat :: "'p Qwen3Parser \<Rightarrow> qwen3Event list \<times> bool \<times> 'p Qwen3Parser" where
  "q3_eat p =
     (case q3_state p of
        Q3LookingForThinkingOpen \<Rightarrow>
          (let trimmed = trim_left (q3_buffer p) in
           if prefix qwen3ThinkingOpenTag trimmed then
             (let after = trim_left (drop (length qwen3ThinkingOpenTag) trimmed) in
              ([], True,
               p\<lparr>q3_buffer := after,
                 q3_state := if after = [] then Q3ThinkingStartedEatingWhitespace else Q3CollectingThinking\<rparr>))
           else if prefix trimmed qwen3ThinkingOpenTag then ([], False, p)
           else if trimmed = [] then ([], False, p)
           else ([], True, p\<lparr>q3_state := Q3CollectingContent\<rparr>))
      | Q3ThinkingStartedEatingWhitespace \<Rightarrow> q3_eatLeadingWhitespaceAndTransitionTo Q3CollectingThinking p
      | Q3CollectingThinking \<Rightarrow>
          (if q3_maybeThinkingOpenAtBOL p then
             (let trimmed = trim_left (q3_buffer p) in
              if prefix qwen3ThinkingOpenTag trimmed then
                (let after = trim_left (drop (length qwen3ThinkingOpenTag) trimmed) in
                 if after = [] then ([], False, p\<lparr>q3_buffer := after\<rparr>)
                 else ([], True, p\<lparr>q3_buffer := after, q3_maybeThinkingOpenAtBOL := False\<rparr>))
              else if prefix trimmed qwen3ThinkingOpenTag then ([], False, p)
              else q3_eat_thinking (p\<lparr>q3_maybeThinkingOpenAtBOL := False\<rparr>))
           else q3_eat_thinking p)
      | Q3ThinkingDoneEatingWhitespace \<Rightarrow> q3_eatLeadingWhitespaceAndTransitionTo Q3CollectingContent p
      | Q3CollectingContent \<Rightarrow>
          (if go_contains (q3_buffer p) qwen3ToolOpenTag then
             q3_split EvContent qwen3ToolOpenTag Q3ToolStartedEatingWhitespace Q3CollectingToolContent p
           else q3_hold EvContent [qwen3ToolOpenTag] p)
      | Q3ToolStartedEatingWhitespace \<Rightarrow> q3_eatLeadingWhitespaceAndTransitionTo Q3CollectingToolContent p
      | Q3CollectingToolContent \<Rightarrow>
          (if go_contains (q3_buffer p) qwen3ToolCloseTag then
             (case splitAtTag (q3_buffer p) qwen3ToolCloseTag True of
                ((toolContent, _), buf) \<Rightarrow>
                  ([EvCall toolContent], True, p\<lparr>q3_buffer := buf, q3_state := Q3CollectingContent\<rparr>))
           else ([], False, p)))"

definition q3_feed :: "string \<Rightarrow> 'p Qwen3Parser \<Rightarrow> 'p Qwen3Parser" where
  "q3_feed s p = p\<lparr>q3_buffer := q3_buffer p @ s\<rparr>"

datatype 'e qwen3_error = Q3JSON 'e | Q3EmptyName

definition parseQwen3ToolCall ::
  "(string \<Rightarrow> 'e + string \<times> 'a) \<Rightarrow> string \<Rightarrow> 'e qwen3_error + 'a ToolCall" where
  "parseQwen3ToolCall unmarshal raw =
     (case unmarshal raw of
        Inl e \<Rightarrow> Inl (Q3JSON e)
      | Inr (name, arguments) \<Rightarrow>
          if name = [] then Inl Q3EmptyName
          else Inr \<lparr>tc_Index = 0, tc_Name = name, tc_Arguments = arguments\<rparr>)"

text \<open>\<open>done\<close> is ignored.\<close>

definition q3_Add ::
  "(string \<Rightarrow> 'e + string \<times> 'a) \<Rightarrow> 'p Qwen3Parser \<Rightarrow> string \<Rightarrow> bool
    \<Rightarrow> ('a, 'e qwen3_error) added option \<times> 'p Qwen3Parser" where
  "q3_Add unmarshal p s final =
     (case drain q3_eat (q3_feed s p) [] of
        None \<Rightarrow> (None, p)
      | Some (events, p') \<Rightarrow>
          (case collect (parseQwen3ToolCall unmarshal) (q3_callIndex p') events of
             (Inl e, n) \<Rightarrow> (Some ([], [], [], Some e), p'\<lparr>q3_callIndex := n\<rparr>)
           | (Inr (content, thinking, calls), n) \<Rightarrow>
               (Some (content, thinking, calls, None), p'\<lparr>q3_callIndex := n\<rparr>)))"

section \<open>The loop returns\<close>

fun q3_rank :: "'p Qwen3Parser \<Rightarrow> nat" where
  "q3_rank p = 2 * length (q3_buffer p) +
     (if q3_state p \<in> {Q3LookingForThinkingOpen, Q3ThinkingStartedEatingWhitespace,
        Q3ThinkingDoneEatingWhitespace, Q3ToolStartedEatingWhitespace} then 1 else 0)"

lemma q3_tags [simp]:
  "qwen3ToolOpenTag \<noteq> []" "qwen3ToolCloseTag \<noteq> []" "qwen3ThinkingOpenTag \<noteq> []" "qwen3ThinkingCloseTag \<noteq> []"
  "good_tags [qwen3ToolOpenTag, qwen3ThinkingCloseTag]" "good_tags [qwen3ToolOpenTag]"
  "apart qwen3ToolOpenTag qwen3ThinkingCloseTag"
proof -
  show "qwen3ToolOpenTag \<noteq> []" "qwen3ToolCloseTag \<noteq> []" "qwen3ThinkingOpenTag \<noteq> []" "qwen3ThinkingCloseTag \<noteq> []"
    by (simp_all add: qwen3ToolOpenTag_def qwen3ToolCloseTag_def qwen3ThinkingOpenTag_def qwen3ThinkingCloseTag_def)
  show "good_tags [qwen3ToolOpenTag, qwen3ThinkingCloseTag]" "good_tags [qwen3ToolOpenTag]"
    "apart qwen3ToolOpenTag qwen3ThinkingCloseTag"
    by code_simp+
qed

lemma q3_split_decreases:
  "q3_split ev tag e f p = (es, k, p') \<Longrightarrow> go_contains (q3_buffer p) tag \<Longrightarrow> tag \<noteq> [] \<Longrightarrow>
     q3_rank p' < 2 * length (q3_buffer p)"
  using splitAtTag_shorter[of "q3_buffer p" tag True]
  by (auto simp: q3_split_def split: prod.splits)

lemma q3_eat_thinking_decreases:
  "q3_eat_thinking p = (es, True, p') \<Longrightarrow> q3_rank p' < 2 * length (q3_buffer p)"
  by (auto simp: q3_eat_thinking_def q3_hold_def Let_def simp del: q3_rank.simps
      split: if_splits prod.splits dest: q3_split_decreases index_before_contains)

lemma q3_trim_decreases:
  assumes "prefix qwen3ThinkingOpenTag (trim_left s)"
  shows "length (trim_left (drop (length qwen3ThinkingOpenTag) (trim_left s))) < length s"
proof -
  have "0 < length qwen3ThinkingOpenTag" by simp
  moreover have "length qwen3ThinkingOpenTag \<le> length (trim_left s)" using assms by (rule prefix_length_le)
  ultimately show ?thesis
    using length_trim_left[of s] length_trim_left[of "drop (length qwen3ThinkingOpenTag) (trim_left s)"]
    by (simp only: length_drop)
qed

lemma q3_eat_decreases: "q3_eat p = (es, True, p') \<Longrightarrow> q3_rank p' < q3_rank p"
proof -
  assume e: "q3_eat p = (es, True, p')"
  show "q3_rank p' < q3_rank p"
  proof (cases "q3_state p")
    case Q3CollectingThinking
    have "q3_rank p' < 2 * length (q3_buffer p)"
      using e Q3CollectingThinking q3_trim_decreases[of "q3_buffer p"]
      by (auto simp: q3_eat_def Let_def split: if_splits dest!: q3_eat_thinking_decreases)
    then show ?thesis by simp
  next
    case Q3CollectingContent
    then have "q3_rank p' < 2 * length (q3_buffer p)"
      using e by (auto simp: q3_eat_def q3_hold_def simp del: q3_rank.simps
          split: if_splits prod.splits dest: q3_split_decreases)
    then show ?thesis by simp
  next
    case Q3CollectingToolContent
    then show ?thesis
      using e splitAtTag_shorter[of "q3_buffer p" qwen3ToolCloseTag True]
      by (auto simp: q3_eat_def split: if_splits prod.splits)
  next
    case Q3LookingForThinkingOpen
    then show ?thesis
      using e q3_trim_decreases[of "q3_buffer p"]
      by (auto simp: q3_eat_def Let_def split: if_splits)
  qed (use e length_trim_left[of "q3_buffer p"] in
      \<open>auto simp: q3_eat_def q3_eatLeadingWhitespaceAndTransitionTo_def Let_def split: if_splits\<close>)
qed

interpretation q3_loop: event_loop q3_eat q3_rank
  by unfold_locales (rule q3_eat_decreases)

abbreviation q3_shows :: "'p Qwen3Parser \<Rightarrow> (string atom list \<times> 'p Qwen3Parser) option" where
  "q3_shows \<equiv> observe q3_eat event_atoms"

section \<open>Chunk boundaries\<close>

interpretation q3_scan: tag_scanner q3_eat q3_rank q3_buffer "\<lambda>s p. p\<lparr>q3_buffer := s\<rparr>"
  by unfold_locales simp_all

text \<open>The states that eat white space, and the states that scan for a tag, in the form of the
  interface.\<close>

lemma q3_eat_skip:
  "(e, f) \<in> set [(Q3ThinkingStartedEatingWhitespace, Q3CollectingThinking),
      (Q3ThinkingDoneEatingWhitespace, Q3CollectingContent),
      (Q3ToolStartedEatingWhitespace, Q3CollectingToolContent)] \<Longrightarrow>
   q3_eat ((p\<lparr>q3_state := e\<rparr>)\<lparr>q3_buffer := s\<rparr>) =
     (if trim_left s = [] then ([], False, (p\<lparr>q3_state := e\<rparr>)\<lparr>q3_buffer := []\<rparr>)
      else ([], True, (p\<lparr>q3_state := f\<rparr>)\<lparr>q3_buffer := trim_left s\<rparr>))"
  by (auto simp: q3_eat_def q3_eatLeadingWhitespaceAndTransitionTo_def Let_def)

definition q3_after :: "string \<Rightarrow> bool \<Rightarrow> qwen3ParserState" where
  "q3_after t e =
     (if t = qwen3ThinkingCloseTag then (if e then Q3ThinkingDoneEatingWhitespace else Q3CollectingContent)
      else (if e then Q3ToolStartedEatingWhitespace else Q3CollectingToolContent))"

lemma q3_tag_neq [simp]: "qwen3ToolOpenTag \<noteq> qwen3ThinkingCloseTag"
  by code_simp

lemma q3_eat_scan:
  assumes "q3_state p = Q3CollectingThinking \<and> \<not> q3_maybeThinkingOpenAtBOL p \<and> ev = EvThinking
        \<and> T = [qwen3ToolOpenTag, qwen3ThinkingCloseTag]
      \<or> q3_state p = Q3CollectingContent \<and> ev = EvContent \<and> T = [qwen3ToolOpenTag]"
  shows "q3_eat (p\<lparr>q3_buffer := s\<rparr>) =
      (case first_tag T s of
         None \<Rightarrow> (emit ev (fst (withhold T s)), False, p\<lparr>q3_buffer := snd (withhold T s)\<rparr>)
       | Some t \<Rightarrow> (emit ev (fst (fst (splitAtTag s t True))), True,
           (p\<lparr>q3_state := q3_after t (snd (splitAtTag s t True) = [])\<rparr>)\<lparr>q3_buffer := snd (splitAtTag s t True)\<rparr>))"
proof -
  have "snd (fst (splitAtTag s t True)) = snd (splitAtTag s t True)" if "go_contains s t" for t
    using that by (auto simp: splitAtTag_def Let_def go_contains_cut)
  note after = this this[OF index_before_contains]
  from assms show ?thesis
  proof
    assume "q3_state p = Q3CollectingThinking \<and> \<not> q3_maybeThinkingOpenAtBOL p \<and> ev = EvThinking
        \<and> T = [qwen3ToolOpenTag, qwen3ThinkingCloseTag]"
    then show ?thesis
      by (simp add: q3_eat_def q3_eat_thinking_def q3_split_def q3_hold_def first_tag_two q3_after_def
          after split_beta del: first_tag.simps)
  next
    assume "q3_state p = Q3CollectingContent \<and> ev = EvContent \<and> T = [qwen3ToolOpenTag]"
    then show ?thesis
      by (simp add: q3_eat_def q3_split_def q3_hold_def q3_after_def after split_beta)
  qed
qed

lemma q3_commute:
  assumes st: "q3_state p \<noteq> Q3LookingForThinkingOpen" "\<not> q3_maybeThinkingOpenAtBOL p"
    and al: "aligned (q3_buffer p)" and c: "ok_chunk c" and e: "q3_eat p = (es, k, p')"
  shows "q3_shows (q3_feed c p) = prepend (atoms event_atoms es) (q3_shows (q3_feed c p'))"
proof -
  have skip: "q3_shows (q3_feed c p) = prepend (atoms event_atoms es) (q3_shows (q3_feed c p'))"
    if "(q3_state p, f) \<in> set [(Q3ThinkingStartedEatingWhitespace, Q3CollectingThinking),
      (Q3ThinkingDoneEatingWhitespace, Q3CollectingContent),
      (Q3ToolStartedEatingWhitespace, Q3CollectingToolContent)]" for f
  proof -
    have "p\<lparr>q3_state := q3_state p\<rparr> = p" by simp
    from q3_scan.skip_commute[OF q3_eat_skip[OF that, where p = p, unfolded this] al e]
    show ?thesis by (simp add: q3_feed_def)
  qed
  have after: "(let a' = if True \<and> a = [] then trim_left c else a @ c
       in q3_shows ((p\<lparr>q3_state := q3_after t (a' = [])\<rparr>)\<lparr>q3_buffer := a'\<rparr>))
     = q3_shows ((p\<lparr>q3_state := q3_after t (a = [])\<rparr>)\<lparr>q3_buffer := a @ c\<rparr>)" for t a
  proof (cases "a = []")
    case True
    have "(q3_after t True, q3_after t False) \<in> set [(Q3ThinkingStartedEatingWhitespace, Q3CollectingThinking),
      (Q3ThinkingDoneEatingWhitespace, Q3CollectingContent),
      (Q3ToolStartedEatingWhitespace, Q3CollectingToolContent)]" by (simp add: q3_after_def)
    then show ?thesis
      using q3_scan.skip_after[OF q3_eat_skip[where p = p and e = "q3_after t True" and f = "q3_after t False"], where atom = event_atoms and c = c] True
      by (simp add: Let_def if_distrib split: if_splits)
  qed simp
  have scan: "q3_shows (q3_feed c p) = prepend (atoms event_atoms es) (q3_shows (q3_feed c p'))"
    if "q3_state p = Q3CollectingThinking \<and> \<not> q3_maybeThinkingOpenAtBOL p \<and> ev = EvThinking
        \<and> T = [qwen3ToolOpenTag, qwen3ThinkingCloseTag]
      \<or> q3_state p = Q3CollectingContent \<and> ev = EvContent \<and> T = [qwen3ToolOpenTag]"
    for ev :: "string \<Rightarrow> string event" and T
    unfolding q3_feed_def
    by (rule q3_scan.scan_commute[where tr = "\<lambda>_. True" and nxt = "\<lambda>t e. p\<lparr>q3_state := q3_after t e\<rparr>",
          OF q3_eat_scan[OF that] _ _ _ al ok_chunk_aligned[OF c] e after]) (use that in auto)
  show ?thesis
  proof (cases "q3_state p")
    case Q3CollectingToolContent
    show ?thesis
    proof (cases "go_contains (q3_buffer p) qwen3ToolCloseTag")
      case True
      obtain b a where ab: "splitAtTag (q3_buffer p) qwen3ToolCloseTag True = ((b, a), a)"
        using splitAtTag_append(3)[OF True al ok_chunk_aligned[OF c], of True] by (metis prod.collapse)
      have "(if a = [] then trim_left c else a @ c) = a @ c" using c by (simp add: ok_chunk_def)
      then have "q3_eat (q3_feed c p) = (es, True, q3_feed c p')"
        using e Q3CollectingToolContent True go_contains_append[OF True, of c] ab
          splitAtTag_append(2)[OF True al ok_chunk_aligned[OF c]]
        by (auto simp: q3_eat_def q3_feed_def Let_def)
      then show ?thesis by (rule q3_loop.observe_step)
    next
      case False
      then show ?thesis using e Q3CollectingToolContent by (simp add: q3_eat_def)
    qed
  qed (use st skip scan in auto)
qed

section \<open>Streams\<close>

lemma q3_eat_fields:
  assumes "q3_eat p = (es, k, p')"
  shows "q3_callIndex p' = q3_callIndex p" "q3_tools p' = q3_tools p"
  using assms
  by (auto simp: q3_eat_def q3_eat_thinking_def q3_split_def q3_hold_def Let_def
      q3_eatLeadingWhitespaceAndTransitionTo_def split: qwen3ParserState.splits if_splits prod.splits)

lemma q3_eat_inv:
  assumes "q3_eat p = (es, k, p')" "aligned (q3_buffer p)" "\<not> q3_maybeThinkingOpenAtBOL p"
    "q3_state p \<noteq> Q3LookingForThinkingOpen"
  shows "aligned (q3_buffer p')" "\<not> q3_maybeThinkingOpenAtBOL p'" "q3_state p' \<noteq> Q3LookingForThinkingOpen"
proof -
  have split: "aligned d" if "splitAtTag (q3_buffer p) t tr = (x, d)" for t tr x d
    using splitAtTag_aligned[OF assms(2), of t tr] that by simp
  show "aligned (q3_buffer p')"
    using assms(1-3)
    by (auto simp: q3_eat_def q3_eat_thinking_def q3_split_def q3_hold_def Let_def
        q3_eatLeadingWhitespaceAndTransitionTo_def aligned_trim_left aligned_drop
        split: qwen3ParserState.splits if_splits prod.splits dest: split withhold_aligned)
  show "\<not> q3_maybeThinkingOpenAtBOL p'" "q3_state p' \<noteq> Q3LookingForThinkingOpen"
    using assms
    by (auto simp: q3_eat_def q3_eat_thinking_def q3_split_def q3_hold_def Let_def
        q3_eatLeadingWhitespaceAndTransitionTo_def split: qwen3ParserState.splits if_splits prod.splits)
qed

lemma q3_drain_callIndex:
  assumes "drain q3_eat p [] = Some (es, q)" shows "q3_callIndex q = q3_callIndex p"
  by (rule q3_loop.drain_invariant[of "\<lambda>x. q3_callIndex x = q3_callIndex p", OF _ _ assms])
    (auto dest: q3_eat_fields)

lemma q3_Add_eq:
  assumes "drain q3_eat (q3_feed s p) [] = Some (es, q)"
  shows "q3_Add unmarshal p s final =
     (case collect (parseQwen3ToolCall unmarshal) (q3_callIndex p) es of
        (Inl e, n) \<Rightarrow> (Some ([], [], [], Some e), q\<lparr>q3_callIndex := n\<rparr>)
      | (Inr (content, thinking, calls), n) \<Rightarrow> (Some (content, thinking, calls, None), q\<lparr>q3_callIndex := n\<rparr>))"
  using assms q3_drain_callIndex[OF assms] by (simp add: q3_Add_def q3_feed_def)

interpretation q3_calls: call_numbering "q3_Add unmarshal" q3_callIndex for unmarshal
proof
  fix p s final c th calls p'
  assume a: "q3_Add unmarshal p s final = (Some (c, th, calls, None), p')"
  obtain es q where d: "drain q3_eat (q3_feed s p) [] = Some (es, q)"
    using q3_loop.drain_Some by blast
  show "q3_callIndex p' = q3_callIndex p + length calls
      \<and> map tc_Index calls = [q3_callIndex p..<q3_callIndex p + length calls]"
    using a collect_Inr[of "parseQwen3ToolCall unmarshal" "q3_callIndex p" es]
    by (auto simp: q3_Add_eq[OF d] split: prod.splits sum.splits)
qed

lemma q3_feed_simps:
  "q3_feed d (q3_feed c p) = q3_feed (c @ d) p" "q3_buffer (q3_feed c p) = q3_buffer p @ c"
  "q3_state (q3_feed c p) = q3_state p" "q3_maybeThinkingOpenAtBOL (q3_feed c p) = q3_maybeThinkingOpenAtBOL p"
  by (simp_all add: q3_feed_def)

lemma q3_feed_upd: "q3_feed s (p\<lparr>q3_callIndex := n\<rparr>) = (q3_feed s p)\<lparr>q3_callIndex := n\<rparr>"
  by (simp add: q3_feed_def)

lemma q3_eat_upd:
  "q3_eat p = (es, k, p') \<Longrightarrow> q3_eat (p\<lparr>q3_callIndex := n\<rparr>) = (es, k, p'\<lparr>q3_callIndex := n\<rparr>)"
  by (auto simp: q3_eat_def q3_eat_thinking_def q3_split_def q3_hold_def Let_def
      q3_eatLeadingWhitespaceAndTransitionTo_def split: qwen3ParserState.splits if_splits prod.splits)

interpretation q3_streaming: streaming_parser q3_eat q3_rank q3_feed
  "\<lambda>p. aligned (q3_buffer p) \<and> \<not> q3_maybeThinkingOpenAtBOL p \<and> q3_state p \<noteq> Q3LookingForThinkingOpen"
  ok_chunk "q3_Add unmarshal" "parseQwen3ToolCall unmarshal" q3_callIndex
  "\<lambda>n p. p\<lparr>q3_callIndex := n\<rparr>" "\<lambda>_. []"
  for unmarshal :: "string \<Rightarrow> 'e + string \<times> 'a"
  by unfold_locales
    (auto simp: q3_Add_eq ok_chunk_append q3_feed_upd q3_feed_simps aligned_append ok_chunk_aligned
      intro: q3_commute q3_eat_upd dest: q3_eat_inv)

lemma q3_Add_returns: "fst (q3_Add unmarshal p s final) \<noteq> None"
proof -
  obtain es q where d: "drain q3_eat (q3_feed s p) [] = Some (es, q)" using q3_loop.drain_Some by blast
  show ?thesis by (simp add: q3_Add_eq[OF d] split: prod.splits sum.splits)
qed

text \<open>
  The code strips "exactly one" opening tag at the beginning of the thinking. When a chunk ends
  right after the tag, its flag stays set and a second tag is stripped as well; the same text in
  one chunk keeps the second tag.
\<close>

definition echo_unmarshal :: "string \<Rightarrow> string + string \<times> string" where
  "echo_unmarshal raw = Inr (raw, raw)"

lemma q3_strips_two_tags:
  "stream (q3_Add echo_unmarshal) (q3_Init ([] :: unit Tool list) None (new_Qwen3Parser True True))
     [''<think>'', ''<think>a''] = Some (Inr ([], ''a'', []))"
  "stream (q3_Add echo_unmarshal) (q3_Init ([] :: unit Tool list) None (new_Qwen3Parser True True))
     [''<think><think>a''] = Some (Inr ([], ''<think>a'', []))"
  by code_simp+

section \<open>Properties\<close>

text \<open>
  Without thinking (not supported by the model, or not requested), the output of the qwen3
  parser for a whole stream, its tool calls and errors included, is that of the text in one chunk,
  as long as no chunk starts with white space.
\<close>

theorem q3_stream_concat:
  assumes "\<forall>c\<in>set cs. ok_chunk c" "cs \<noteq> []" "\<not> h \<or> \<not> ThinkValue_Bool thinkValue \<and> thinkValue \<noteq> None"
  shows "stream (q3_Add unmarshal) (q3_Init tools thinkValue (new_Qwen3Parser h d)) cs
    = stream (q3_Add unmarshal) (q3_Init tools thinkValue (new_Qwen3Parser h d)) [concat cs]"
  by (rule q3_streaming.stream_concat[OF _ assms(1,2)])
    (use assms(3) in \<open>auto simp: q3_Init_def new_Qwen3Parser_def\<close>)

theorem q3_stream_concat_witness:
  "stream (q3_Add echo_unmarshal) (q3_Init ([] :: unit Tool list) None (new_Qwen3Parser False False))
     [''a <tool'', ''_call>f</tool_'', ''call>'', ''b'']
   = stream (q3_Add echo_unmarshal) (q3_Init ([] :: unit Tool list) None (new_Qwen3Parser False False))
     [concat [''a <tool'', ''_call>f</tool_'', ''call>'', ''b'']]"
  by (rule q3_stream_concat) code_simp+

text \<open>
  The tool calls of a qwen3 stream are numbered from 0 without a gap, across all chunks.
\<close>

theorem q3_calls_numbered:
  assumes "stream (q3_Add unmarshal) (q3_Init tools thinkValue p) cs = Some (Inr (c, th, calls))"
  shows "map tc_Index calls = [0..<length calls]"
  using q3_calls.stream_numbered[OF assms] by (simp add: q3_Init_def Let_def split: if_splits)

theorem q3_calls_numbered_witness:
  "map tc_Index [\<lparr>tc_Index = 0, tc_Name = ''f'', tc_Arguments = ''f''\<rparr>, \<lparr>tc_Index = 1, tc_Name = ''g'', tc_Arguments = ''g''\<rparr>]
    = [0, 1]"
proof -
  have "stream (q3_Add echo_unmarshal) (q3_Init ([] :: unit Tool list) None (new_Qwen3Parser True True))
      [''x<tool_call>f</tool_call> <tool_'', ''call>g</tool_call>'']
    = Some (Inr ([], ''x'', [\<lparr>tc_Index = 0, tc_Name = ''f'', tc_Arguments = ''f''\<rparr>, \<lparr>tc_Index = 1, tc_Name = ''g'', tc_Arguments = ''g''\<rparr>]))"
    by code_simp
  from q3_calls_numbered[OF this] show ?thesis by simp
qed

end
