(* ===== verification/Qwen3VL.thy ===== *)
theory Qwen3VL
  imports TagScanner
begin

text \<open>
  \<^verbatim>\<open>model/parsers/qwen3vl.go\<close>. \<open>unmarshal\<close> is the outcome of \<^verbatim>\<open>json.Unmarshal\<close> into the
  function of a tool call, as in \<open>parseJSONToolCall\<close>; it goes through a third-party ordered map.
\<close>

section \<open>The parser\<close>

definition thinkingCloseTag :: string where "thinkingCloseTag = ''</think>''"
definition vl_toolOpenTag :: string where "vl_toolOpenTag = ''<tool_call>''"
definition vl_toolCloseTag :: string where "vl_toolCloseTag = ''</tool_call>''"

datatype qwenVLParserState =
    CollectingThinkingContent
  | CollectingContent
  | CollectingToolContent
  | ThinkingDoneEatingWhitespace
  | ToolCallDoneEatingWhitespace

record 'p Qwen3VLParser =
  vl_state :: qwenVLParserState
  vl_buffer :: string
  vl_tools :: "'p Tool list"
  vl_callIndex :: nat
  vl_hasThinkingSupport :: bool

definition new_Qwen3VLParser :: "bool \<Rightarrow> 'p Qwen3VLParser" where
  "new_Qwen3VLParser h =
     \<lparr>vl_state = CollectingThinkingContent, vl_buffer = [], vl_tools = [], vl_callIndex = 0,
      vl_hasThinkingSupport = h\<rparr>"

definition vl_HasToolSupport :: bool where "vl_HasToolSupport = True"
definition vl_HasThinkingSupport :: "'p Qwen3VLParser \<Rightarrow> bool" where
  "vl_HasThinkingSupport p = vl_hasThinkingSupport p"
definition vl_PreservedTokens :: "string list" where
  "vl_PreservedTokens = [thinkingCloseTag, vl_toolOpenTag, vl_toolCloseTag]"

definition vl_setInitialState :: "Message option \<Rightarrow> 'p Qwen3VLParser \<Rightarrow> 'p Qwen3VLParser" where
  "vl_setInitialState lastMessage p =
     (if \<not> vl_HasThinkingSupport p then p\<lparr>vl_state := CollectingContent\<rparr>
      else if assistant_prefill lastMessage then p\<lparr>vl_state := CollectingContent\<rparr>
      else p\<lparr>vl_state := CollectingThinkingContent\<rparr>)"

definition vl_Init :: "'p Tool list \<Rightarrow> Message option \<Rightarrow> 'p Qwen3VLParser \<Rightarrow> 'p Qwen3VLParser" where
  "vl_Init tools lastMessage p = vl_setInitialState lastMessage (p\<lparr>vl_tools := tools, vl_callIndex := 0\<rparr>)"

type_synonym qwenVLEvent = "string event"

definition vl_eatLeadingWhitespaceAndTransitionTo ::
  "qwenVLParserState \<Rightarrow> 'p Qwen3VLParser \<Rightarrow> qwenVLEvent list \<times> bool \<times> 'p Qwen3VLParser" where
  "vl_eatLeadingWhitespaceAndTransitionTo nextState p =
     (let trimmed = trim_left (vl_buffer p) in
      if trimmed = [] then ([], False, p\<lparr>vl_buffer := []\<rparr>)
      else ([], True, p\<lparr>vl_state := nextState, vl_buffer := trimmed\<rparr>))"

definition vl_eat :: "'p Qwen3VLParser \<Rightarrow> qwenVLEvent list \<times> bool \<times> 'p Qwen3VLParser" where
  "vl_eat p =
     (let acc = vl_buffer p in
      case vl_state p of
        CollectingContent \<Rightarrow>
          (if go_contains acc vl_toolOpenTag then
             (case splitAtTag acc vl_toolOpenTag False of
                ((before, _), buf) \<Rightarrow>
                  (emit EvContent before, True, p\<lparr>vl_state := CollectingToolContent, vl_buffer := buf\<rparr>))
           else
             (case withhold [vl_toolOpenTag] acc of
                (unambiguous, ambiguous) \<Rightarrow> (emit EvContent unambiguous, False, p\<lparr>vl_buffer := ambiguous\<rparr>)))
      | CollectingToolContent \<Rightarrow>
          (case go_cut acc vl_toolCloseTag of
             Some (before, after) \<Rightarrow>
               ([EvCall before], True, p\<lparr>vl_state := ToolCallDoneEatingWhitespace, vl_buffer := after\<rparr>)
           | None \<Rightarrow> ([], False, p))
      | CollectingThinkingContent \<Rightarrow>
          (if index_before (go_index acc vl_toolOpenTag) (go_index acc thinkingCloseTag) then
             (case splitAtTag acc vl_toolOpenTag False of
                ((before, _), buf) \<Rightarrow>
                  (emit EvThinking before, True, p\<lparr>vl_state := CollectingToolContent, vl_buffer := buf\<rparr>))
           else if go_contains acc thinkingCloseTag then
             (case splitAtTag acc thinkingCloseTag True of
                ((thinking, remaining), buf) \<Rightarrow>
                  (emit EvThinking thinking, True,
                   p\<lparr>vl_state := if remaining = [] then ThinkingDoneEatingWhitespace else CollectingContent,
                     vl_buffer := buf\<rparr>))
           else
             (case withhold [vl_toolOpenTag, thinkingCloseTag] acc of
                (unambiguous, ambiguous) \<Rightarrow> (emit EvThinking unambiguous, False, p\<lparr>vl_buffer := ambiguous\<rparr>)))
      | ThinkingDoneEatingWhitespace \<Rightarrow> vl_eatLeadingWhitespaceAndTransitionTo CollectingContent p
      | ToolCallDoneEatingWhitespace \<Rightarrow> vl_eatLeadingWhitespaceAndTransitionTo CollectingContent p)"

definition vl_feed :: "string \<Rightarrow> 'p Qwen3VLParser \<Rightarrow> 'p Qwen3VLParser" where
  "vl_feed s p = p\<lparr>vl_buffer := vl_buffer p @ s\<rparr>"

text \<open>\<open>done\<close> is ignored; the calls of the chunk are numbered at the end.\<close>

definition vl_Add ::
  "(string \<Rightarrow> 'e + 'a ToolCall) \<Rightarrow> 'p Qwen3VLParser \<Rightarrow> string \<Rightarrow> bool
    \<Rightarrow> ('a, 'e) added option \<times> 'p Qwen3VLParser" where
  "vl_Add unmarshal p s final =
     (case drain vl_eat (vl_feed s p) [] of
        None \<Rightarrow> (None, p)
      | Some (events, p') \<Rightarrow>
          (case gather unmarshal events of
             Inl e \<Rightarrow> (Some ([], [], [], Some e), p')
           | Inr (content, thinking, calls) \<Rightarrow>
               (Some (content, thinking, index_from (vl_callIndex p') calls, None),
                p'\<lparr>vl_callIndex := vl_callIndex p' + length calls\<rparr>)))"

section \<open>The loop returns\<close>

fun vl_rank :: "'p Qwen3VLParser \<Rightarrow> nat" where
  "vl_rank p = 2 * length (vl_buffer p) +
     (if vl_state p \<in> {ThinkingDoneEatingWhitespace, ToolCallDoneEatingWhitespace} then 1 else 0)"

lemma vl_tags [simp]:
  "vl_toolOpenTag \<noteq> []" "vl_toolCloseTag \<noteq> []" "thinkingCloseTag \<noteq> []" "vl_toolOpenTag \<noteq> thinkingCloseTag"
  "good_tags [vl_toolOpenTag, thinkingCloseTag]" "good_tags [vl_toolOpenTag]" "apart vl_toolOpenTag thinkingCloseTag"
  by code_simp+

lemma vl_eat_decreases: "vl_eat p = (es, True, p') \<Longrightarrow> vl_rank p' < vl_rank p"
  using splitAtTag_shorter[of "vl_buffer p" vl_toolOpenTag False] length_trim_left[of "vl_buffer p"]
    splitAtTag_shorter[of "vl_buffer p" thinkingCloseTag True] go_cut_shorter[of "vl_buffer p" vl_toolCloseTag]
  by (auto simp: vl_eat_def vl_eatLeadingWhitespaceAndTransitionTo_def Let_def
      split: qwenVLParserState.splits if_splits prod.splits option.splits dest: index_before_contains)

interpretation vl_loop: event_loop vl_eat vl_rank
  by unfold_locales (rule vl_eat_decreases)

abbreviation vl_shows :: "'p Qwen3VLParser \<Rightarrow> (string atom list \<times> 'p Qwen3VLParser) option" where
  "vl_shows \<equiv> observe vl_eat event_atoms"

section \<open>Chunk boundaries\<close>

interpretation vl_scan: tag_scanner vl_eat vl_rank vl_buffer "\<lambda>s p. p\<lparr>vl_buffer := s\<rparr>"
  by unfold_locales simp_all

lemma vl_eat_skip:
  "e \<in> set [ThinkingDoneEatingWhitespace, ToolCallDoneEatingWhitespace] \<Longrightarrow>
   vl_eat ((p\<lparr>vl_state := e\<rparr>)\<lparr>vl_buffer := s\<rparr>) =
     (if trim_left s = [] then ([], False, (p\<lparr>vl_state := e\<rparr>)\<lparr>vl_buffer := []\<rparr>)
      else ([], True, (p\<lparr>vl_state := CollectingContent\<rparr>)\<lparr>vl_buffer := trim_left s\<rparr>))"
  by (auto simp: vl_eat_def vl_eatLeadingWhitespaceAndTransitionTo_def Let_def)

definition vl_after :: "string \<Rightarrow> bool \<Rightarrow> qwenVLParserState" where
  "vl_after t e =
     (if t = vl_toolOpenTag then CollectingToolContent
      else if e then ThinkingDoneEatingWhitespace else CollectingContent)"

definition vl_scans :: "qwenVLParserState \<Rightarrow> (string \<Rightarrow> qwenVLEvent) \<Rightarrow> string list \<Rightarrow> bool" where
  "vl_scans st ev T \<longleftrightarrow>
     st = CollectingThinkingContent \<and> ev = EvThinking \<and> T = [vl_toolOpenTag, thinkingCloseTag]
     \<or> st = CollectingContent \<and> ev = EvContent \<and> T = [vl_toolOpenTag]"

lemma vl_eat_scan:
  assumes "vl_scans (vl_state p) ev T"
  shows "vl_eat (p\<lparr>vl_buffer := s\<rparr>) =
      (case first_tag T s of
         None \<Rightarrow> (emit ev (fst (withhold T s)), False, p\<lparr>vl_buffer := snd (withhold T s)\<rparr>)
       | Some t \<Rightarrow> (emit ev (fst (fst (splitAtTag s t (t = thinkingCloseTag)))), True,
           (p\<lparr>vl_state := vl_after t (snd (splitAtTag s t (t = thinkingCloseTag)) = [])\<rparr>)
             \<lparr>vl_buffer := snd (splitAtTag s t (t = thinkingCloseTag))\<rparr>))"
proof -
  have after: "snd (fst (splitAtTag s t True)) = snd (splitAtTag s t True)" if "go_contains s t" for t
    using that by (auto simp: splitAtTag_def Let_def go_contains_cut)
  from assms show ?thesis unfolding vl_scans_def
  proof
    assume "vl_state p = CollectingThinkingContent \<and> ev = EvThinking \<and> T = [vl_toolOpenTag, thinkingCloseTag]"
    then show ?thesis
      by (simp add: vl_eat_def first_tag_two vl_after_def after split_beta vl_tags(4)[symmetric]
          del: first_tag.simps)
  next
    assume "vl_state p = CollectingContent \<and> ev = EvContent \<and> T = [vl_toolOpenTag]"
    then show ?thesis
      by (simp add: vl_eat_def vl_after_def split_beta vl_tags(4)[symmetric])
  qed
qed

lemma vl_commute:
  assumes al: "aligned (vl_buffer p)" and c: "aligned c" and e: "vl_eat p = (es, k, p')"
  shows "vl_shows (vl_feed c p) = prepend (atoms event_atoms es) (vl_shows (vl_feed c p'))"
proof -
  have skip: ?thesis if "vl_state p \<in> set [ThinkingDoneEatingWhitespace, ToolCallDoneEatingWhitespace]"
  proof -
    have "p\<lparr>vl_state := vl_state p\<rparr> = p" by simp
    from vl_scan.skip_commute[OF vl_eat_skip[OF that, where p = p, unfolded this] al e]
    show ?thesis by (simp add: vl_feed_def)
  qed
  have after: "(let a' = if t = thinkingCloseTag \<and> a = [] then trim_left c else a @ c
       in vl_shows ((p\<lparr>vl_state := vl_after t (a' = [])\<rparr>)\<lparr>vl_buffer := a'\<rparr>))
     = vl_shows ((p\<lparr>vl_state := vl_after t (a = [])\<rparr>)\<lparr>vl_buffer := a @ c\<rparr>)"
    if "t \<in> {vl_toolOpenTag, thinkingCloseTag}" for t a
  proof (cases "t = thinkingCloseTag \<and> a = []")
    case True
    then show ?thesis
      using vl_scan.skip_after[OF vl_eat_skip[where p = p and e = ThinkingDoneEatingWhitespace],
          where atom = event_atoms and c = c] vl_tags(4)[symmetric]
      by (cases "trim_left c = []") (simp_all add: Let_def vl_after_def)
  next
    case False
    then have "(if t = thinkingCloseTag \<and> a = [] then trim_left c else a @ c) = a @ c" by auto
    moreover have "vl_after t (a @ c = []) = vl_after t (a = [])"
      using False that by (auto simp: vl_after_def)
    ultimately show ?thesis by (simp add: Let_def)
  qed
  have scan: ?thesis if "vl_scans (vl_state p) ev T" for ev T
    unfolding vl_feed_def
    by (rule vl_scan.scan_commute[where tr = "\<lambda>t. t = thinkingCloseTag" and nxt = "\<lambda>t e. p\<lparr>vl_state := vl_after t e\<rparr>",
          OF vl_eat_scan[OF that] _ _ _ al c e after]) (use that in \<open>auto simp: vl_scans_def\<close>)
  show ?thesis
  proof (cases "vl_state p")
    case CollectingToolContent
    show ?thesis
    proof (cases "go_cut (vl_buffer p) vl_toolCloseTag")
      case (Some ab)
      then obtain a b where ab: "go_cut (vl_buffer p) vl_toolCloseTag = Some (a, b)" by (cases ab) auto
      have "vl_eat (vl_feed c p) = (es, True, vl_feed c p')"
        using e CollectingToolContent ab go_cut_append[OF ab, of c] by (auto simp: vl_eat_def vl_feed_def)
      then show ?thesis by (rule vl_loop.observe_step)
    next
      case None
      then show ?thesis using e CollectingToolContent by (simp add: vl_eat_def)
    qed
  qed (use skip scan in \<open>auto simp: vl_scans_def\<close>)
qed

section \<open>Streams\<close>

lemma vl_eat_fields:
  assumes "vl_eat p = (es, k, p')"
  shows "vl_callIndex p' = vl_callIndex p" "aligned (vl_buffer p) \<Longrightarrow> aligned (vl_buffer p')"
    "vl_eat (p\<lparr>vl_callIndex := n\<rparr>) = (es, k, p'\<lparr>vl_callIndex := n\<rparr>)"
proof -
  have split: "aligned d" if "aligned (vl_buffer p)" "splitAtTag (vl_buffer p) t tr = (x, d)" for t tr x d
    using splitAtTag_aligned[OF that(1), of t tr] that by simp
  show "vl_callIndex p' = vl_callIndex p" "vl_eat (p\<lparr>vl_callIndex := n\<rparr>) = (es, k, p'\<lparr>vl_callIndex := n\<rparr>)"
    "aligned (vl_buffer p) \<Longrightarrow> aligned (vl_buffer p')"
    using assms
    by (auto simp: vl_eat_def vl_eatLeadingWhitespaceAndTransitionTo_def Let_def aligned_trim_left
        split: qwenVLParserState.splits if_splits prod.splits option.splits
        dest: split withhold_aligned go_cut_aligned)
qed

lemma vl_drain_callIndex:
  assumes "drain vl_eat p [] = Some (es, q)" shows "vl_callIndex q = vl_callIndex p"
  by (rule vl_loop.drain_invariant[of "\<lambda>x. vl_callIndex x = vl_callIndex p", OF _ _ assms])
    (auto dest: vl_eat_fields)

lemma vl_Add_eq:
  assumes "drain vl_eat (vl_feed s p) [] = Some (es, q)"
  shows "vl_Add unmarshal p s final =
     (case gather unmarshal es of
        Inl e \<Rightarrow> (Some ([], [], [], Some e), q)
      | Inr (content, thinking, calls) \<Rightarrow>
          (Some (content, thinking, index_from (vl_callIndex p) calls, None),
           q\<lparr>vl_callIndex := vl_callIndex p + length calls\<rparr>))"
  using assms vl_drain_callIndex[OF assms] by (auto simp: vl_Add_def vl_feed_def split: sum.splits)

interpretation vl_calls: call_numbering "vl_Add unmarshal" vl_callIndex for unmarshal
proof
  fix p s final c th calls p'
  assume a: "vl_Add unmarshal p s final = (Some (c, th, calls, None), p')"
  obtain es q where d: "drain vl_eat (vl_feed s p) [] = Some (es, q)"
    using vl_loop.drain_Some by blast
  show "vl_callIndex p' = vl_callIndex p + length calls
      \<and> map tc_Index calls = [vl_callIndex p..<vl_callIndex p + length calls]"
    using a by (auto simp: vl_Add_eq[OF d] index_from_numbers split: prod.splits sum.splits)
qed

lemma vl_feed_simps:
  "vl_feed d (vl_feed c p) = vl_feed (c @ d) p" "vl_buffer (vl_feed c p) = vl_buffer p @ c"
  "vl_feed s (p\<lparr>vl_callIndex := n\<rparr>) = (vl_feed s p)\<lparr>vl_callIndex := n\<rparr>"
  by (simp_all add: vl_feed_def)

interpretation vl_streaming: streaming_parser vl_eat vl_rank vl_feed "\<lambda>p. aligned (vl_buffer p)"
  aligned "vl_Add unmarshal" unmarshal vl_callIndex "\<lambda>n p. p\<lparr>vl_callIndex := n\<rparr>" "\<lambda>_. []"
  for unmarshal :: "string \<Rightarrow> 'e + 'a ToolCall"
  by unfold_locales
    (auto simp: vl_Add_eq vl_feed_simps aligned_append vl_commute dest!: gather_Inl gather_Inr
      intro: vl_eat_fields)

lemma vl_Add_returns: "fst (vl_Add unmarshal p s final) \<noteq> None"
proof -
  obtain es q where d: "drain vl_eat (vl_feed s p) [] = Some (es, q)" using vl_loop.drain_Some by blast
  show ?thesis by (simp add: vl_Add_eq[OF d] split: prod.splits sum.splits)
qed

section \<open>Properties\<close>

text \<open>
  C14. The output of the qwen3-vl parser for a whole stream (content, thinking, numbered tool calls,
  or the first tool-call error) does not depend on how the text is cut into chunks: the white
  space after its closing tags is skipped across chunks. Chunks may even be cut inside a tag.
\<close>

theorem vl_stream_concat:
  assumes "\<forall>c\<in>set cs. aligned c" "cs \<noteq> []"
  shows "stream (vl_Add unmarshal) (vl_Init tools lastMessage (new_Qwen3VLParser h)) cs
    = stream (vl_Add unmarshal) (vl_Init tools lastMessage (new_Qwen3VLParser h)) [concat cs]"
  by (rule vl_streaming.stream_concat[OF _ assms])
    (simp add: vl_Init_def vl_setInitialState_def new_Qwen3VLParser_def)

theorem vl_stream_concat_witness:
  "stream (vl_Add (echo_parse [])) (vl_Init ([] :: unit Tool list) None (new_Qwen3VLParser True))
     [''a</th'', ''ink>'', '' b<tool_call'', ''>f</tool_call>'', '' c'']
   = stream (vl_Add (echo_parse [])) (vl_Init ([] :: unit Tool list) None (new_Qwen3VLParser True))
     [concat [''a</th'', ''ink>'', '' b<tool_call'', ''>f</tool_call>'', '' c'']]"
  by (rule vl_stream_concat) code_simp+

end
