(* ===== verification/Qwen3Coder.thy ===== *)
theory Qwen3Coder
  imports ParserCommon
begin

text \<open>
  \<^verbatim>\<open>model/parsers/qwen3coder.go\<close>: the streaming part (\<open>eat\<close>, \<open>parseEvents\<close>, \<open>Add\<close>,
  \<open>Init\<close>). \<open>parseToolCall\<close>, which turns the text of a call into a call by way of
  \<^verbatim>\<open>regexp\<close> and \<^verbatim>\<open>encoding/xml\<close>, is an argument of \<open>Add\<close> here.
\<close>

section \<open>The parser\<close>

definition toolOpenTag :: string where "toolOpenTag = ''<tool_call>''"
definition toolCloseTag :: string where "toolCloseTag = ''</tool_call>''"

datatype qwenParserState = LookingForToolStart | CoderCollectingToolContent

record 'p Qwen3CoderParser =
  qc_state :: qwenParserState
  qc_acc :: string
  qc_tools :: "'p Tool list"
  qc_callIndex :: nat

text \<open>A new parser, \<open>Qwen3CoderParser{}\<close>.\<close>

definition new_Qwen3CoderParser :: "'p Qwen3CoderParser" where
  "new_Qwen3CoderParser =
     \<lparr>qc_state = LookingForToolStart, qc_acc = [], qc_tools = [], qc_callIndex = 0\<rparr>"

definition qc_Init :: "'p Tool list \<Rightarrow> 'p Qwen3CoderParser \<Rightarrow> 'p Qwen3CoderParser" where
  "qc_Init tools p = p\<lparr>qc_tools := tools, qc_callIndex := 0\<rparr>"

text \<open>A call is known by its raw text.\<close>

type_synonym qwenEvent = "string event"

definition qc_eat :: "'p Qwen3CoderParser \<Rightarrow> qwenEvent list \<times> bool \<times> 'p Qwen3CoderParser" where
  "qc_eat p =
     (case qc_state p of
        LookingForToolStart \<Rightarrow>
          (case go_cut (qc_acc p) toolOpenTag of
             Some (before, after) \<Rightarrow>
               (emit EvContent (trim_right before), True,
                p\<lparr>qc_state := CoderCollectingToolContent, qc_acc := after\<rparr>)
           | None \<Rightarrow>
               (case withhold [toolOpenTag] (qc_acc p) of
                  (unambiguous, ambiguous) \<Rightarrow>
                    (emit EvContent unambiguous, False, p\<lparr>qc_acc := ambiguous\<rparr>)))
      | CoderCollectingToolContent \<Rightarrow>
          (case go_cut (qc_acc p) toolCloseTag of
             Some (before, after) \<Rightarrow>
               ([EvCall before], True, p\<lparr>qc_state := LookingForToolStart, qc_acc := trim_left after\<rparr>)
           | None \<Rightarrow> ([], False, p)))"

definition qc_feed :: "string \<Rightarrow> 'p Qwen3CoderParser \<Rightarrow> 'p Qwen3CoderParser" where
  "qc_feed s p = p\<lparr>qc_acc := qc_acc p @ s\<rparr>"

text \<open>The end of the stream in \<open>Add\<close>: what is left in the buffer becomes content.\<close>

definition qc_finish ::
  "qwenEvent list \<times> 'p Qwen3CoderParser \<Rightarrow> qwenEvent list \<times> 'p Qwen3CoderParser" where
  "qc_finish = (\<lambda>(events, p).
     (case qc_state p of
        LookingForToolStart \<Rightarrow> if qc_acc p \<noteq> [] then events @ [EvContent (qc_acc p)] else events
      | CoderCollectingToolContent \<Rightarrow> events @ [EvContent (toolOpenTag @ qc_acc p)],
      p\<lparr>qc_acc := [], qc_state := LookingForToolStart\<rparr>))"

definition qc_Add ::
  "('p Tool list \<Rightarrow> string \<Rightarrow> 'e + 'a ToolCall) \<Rightarrow> 'p Qwen3CoderParser \<Rightarrow> string \<Rightarrow> bool
    \<Rightarrow> ('a, 'e) added option \<times> 'p Qwen3CoderParser" where
  "qc_Add parseToolCall p s final =
     (case drain qc_eat (qc_feed s p) [] of
        None \<Rightarrow> (None, p)
      | Some r \<Rightarrow>
          (case (if final then qc_finish r else r) of
             (events, p') \<Rightarrow>
               (case collect (parseToolCall (qc_tools p')) (qc_callIndex p') events of
                  (Inl e, n) \<Rightarrow> (Some ([], [], [], Some e), p'\<lparr>qc_callIndex := n\<rparr>)
                | (Inr (content, _, calls), n) \<Rightarrow>
                    (Some (content, [], calls, None), p'\<lparr>qc_callIndex := n\<rparr>))))"

definition qc_HasToolSupport :: bool where "qc_HasToolSupport = True"
definition qc_HasThinkingSupport :: bool where "qc_HasThinkingSupport = False"
definition qc_PreservedTokens :: "string list" where "qc_PreservedTokens = [toolOpenTag, toolCloseTag]"

section \<open>The loop returns, and chunk boundaries\<close>

lemma tool_tags [simp]: "toolOpenTag \<noteq> []" "toolCloseTag \<noteq> []" "good_tags [toolOpenTag]"
proof -
  show "toolOpenTag \<noteq> []" "toolCloseTag \<noteq> []" by (simp_all add: toolOpenTag_def toolCloseTag_def)
  show "good_tags [toolOpenTag]" by code_simp
qed

interpretation qc_loop: event_loop qc_eat "\<lambda>p. length (qc_acc p)"
proof
  fix p :: "'p Qwen3CoderParser" and es p'
  assume "qc_eat p = (es, True, p')"
  then show "length (qc_acc p') < length (qc_acc p)"
    by (auto simp: qc_eat_def split: qwenParserState.splits option.splits prod.splits
        dest!: go_cut_shorter intro: le_less_trans[OF length_trim_left])
qed

abbreviation qc_shows :: "'p Qwen3CoderParser \<Rightarrow> (string atom list \<times> 'p Qwen3CoderParser) option" where
  "qc_shows \<equiv> observe qc_eat event_atoms"

lemma qc_commute:
  assumes al: "aligned (qc_acc p)" and c: "ok_chunk c" and e: "qc_eat p = (es, k, p')"
  shows "qc_shows (qc_feed c p) = prepend (atoms event_atoms es) (qc_shows (qc_feed c p'))"
proof (cases "qc_state p")
  case LookingForToolStart
  show ?thesis
  proof (cases "go_cut (qc_acc p) toolOpenTag")
    case (Some ab)
    then obtain a b where ab: "go_cut (qc_acc p) toolOpenTag = Some (a, b)" by (cases ab) auto
    from go_cut_append[OF this, of c] show ?thesis
      using e ab LookingForToolStart
      by (subst qc_loop.observe_unfold) (auto simp: qc_eat_def qc_feed_def)
  next
    case None
    obtain u h where w: "withhold [toolOpenTag] (qc_acc p) = (u, h)" by fastforce
    have no: "\<forall>t\<in>set [toolOpenTag]. \<not> go_contains (qc_acc p) t"
      using None by (simp add: go_contains_cut)
    note wc = withhold_commute[OF w no tool_tags(3) al, where c = c]
    have p': "es = emit EvContent u" "p' = p\<lparr>qc_acc := h\<rparr>"
      using e None w LookingForToolStart by (auto simp: qc_eat_def)
    show ?thesis
    proof (cases "go_cut (h @ c) toolOpenTag")
      case (Some ab)
      then obtain a b where ab: "go_cut (h @ c) toolOpenTag = Some (a, b)" by (cases ab) auto
      then have t: "trim_right (u @ a) = u @ trim_right a"
        using withhold_trim_right[OF w tool_tags(3) al go_cut_prefix[OF ab]] by simp
      show ?thesis
      proof (rule qc_loop.observe_same_step)
        show "qc_eat (qc_feed c p) = (emit EvContent (u @ trim_right a), True,
            p\<lparr>qc_state := CoderCollectingToolContent, qc_acc := b\<rparr>)"
          using t ab wc(1)[of toolOpenTag] LookingForToolStart by (simp add: qc_eat_def qc_feed_def)
        show "qc_eat (qc_feed c p') = (emit EvContent (trim_right a), True,
            p\<lparr>qc_state := CoderCollectingToolContent, qc_acc := b\<rparr>)"
          using ab p' LookingForToolStart by (simp add: qc_eat_def qc_feed_def)
      qed (simp add: p')
    next
      case None
      obtain v g where v: "withhold [toolOpenTag] (h @ c) = (v, g)" by fastforce
      show ?thesis
      proof (rule qc_loop.observe_same_step)
        show "qc_eat (qc_feed c p) = (emit EvContent (u @ v), False, p\<lparr>qc_acc := g\<rparr>)"
          using None v wc(1)[of toolOpenTag] wc(5) LookingForToolStart by (simp add: qc_eat_def qc_feed_def)
        show "qc_eat (qc_feed c p') = (emit EvContent v, False, p\<lparr>qc_acc := g\<rparr>)"
          using None v p' LookingForToolStart by (simp add: qc_eat_def qc_feed_def)
      qed (simp add: p')
    qed
  qed
next
  case CoderCollectingToolContent
  show ?thesis
  proof (cases "go_cut (qc_acc p) toolCloseTag")
    case (Some ab)
    then obtain a b where ab: "go_cut (qc_acc p) toolCloseTag = Some (a, b)" by (cases ab) auto
    have "trim_left (b @ c) = trim_left b @ c"
      using ok_chunk_trim_left[OF go_cut_aligned[OF ab al] c] .
    then show ?thesis
      using e ab go_cut_append[OF ab, of c] CoderCollectingToolContent
      by (subst qc_loop.observe_unfold) (auto simp: qc_eat_def qc_feed_def)
  next
    case None
    then show ?thesis using e CoderCollectingToolContent by (simp add: qc_eat_def)
  qed
qed

lemma qc_eat_fields:
  assumes "qc_eat p = (es, k, p')"
  shows "qc_tools p' = qc_tools p" "qc_callIndex p' = qc_callIndex p" "thinkings es = []"
    "aligned (qc_acc p) \<Longrightarrow> aligned (qc_acc p')"
proof -
  show "qc_tools p' = qc_tools p" "qc_callIndex p' = qc_callIndex p" "thinkings es = []"
    using assms
    by (auto simp: qc_eat_def emit_def thinkings_def split: qwenParserState.splits option.splits prod.splits)
  show "aligned (qc_acc p) \<Longrightarrow> aligned (qc_acc p')"
    using assms
    by (auto simp: qc_eat_def split: qwenParserState.splits option.splits prod.splits
        intro!: aligned_trim_left dest: go_cut_aligned withhold_aligned)
qed

lemma thinkings_append [simp]: "thinkings (es @ es') = thinkings es @ thinkings es'"
  by (simp add: thinkings_def)

lemma qc_drain_fields:
  assumes "drain qc_eat p [] = Some (es, q)"
  shows "qc_tools q = qc_tools p" "qc_callIndex q = qc_callIndex p" "thinkings es = []"
proof -
  show "qc_tools q = qc_tools p"
    by (rule qc_loop.drain_invariant[of "\<lambda>x. qc_tools x = qc_tools p", OF _ _ assms]) (auto dest: qc_eat_fields(1))
  show "qc_callIndex q = qc_callIndex p"
    by (rule qc_loop.drain_invariant[of "\<lambda>x. qc_callIndex x = qc_callIndex p", OF _ _ assms])
      (auto dest: qc_eat_fields(2))
  have "\<forall>e\<in>set es. \<forall>s. e \<noteq> EvThinking s"
    by (rule qc_loop.drain_events[of "\<lambda>_. True", OF _ _ assms])
      (auto simp: qc_eat_def emit_def split: qwenParserState.splits option.splits prod.splits if_splits)
  then show "thinkings es = []" by (rule thinkings_Nil)
qed

definition qc_fin :: "'p Qwen3CoderParser \<Rightarrow> qwenEvent list" where
  "qc_fin p = fst (qc_finish ([], p))"

lemma qc_finish_eq: "qc_finish (es, p) = (es @ qc_fin p, p\<lparr>qc_acc := [], qc_state := LookingForToolStart\<rparr>)"
  by (simp add: qc_fin_def qc_finish_def split: qwenParserState.splits)

lemma qc_fin_thinkings: "thinkings (qc_fin p) = []"
  by (simp add: qc_fin_def qc_finish_def thinkings_def split: qwenParserState.splits)

text \<open>\<open>Add\<close> in one equation, once the buffer is drained.\<close>

lemma qc_Add_eq:
  assumes "drain qc_eat (qc_feed s p) [] = Some (es, q)"
  shows "qc_Add pc p s final =
     (case collect (pc (qc_tools p)) (qc_callIndex p) (es @ (if final then qc_fin q else [])) of
        (Inl e, n) \<Rightarrow> (Some ([], [], [], Some e), (if final then q\<lparr>qc_acc := [], qc_state := LookingForToolStart\<rparr> else q)\<lparr>qc_callIndex := n\<rparr>)
      | (Inr (content, _, calls), n) \<Rightarrow>
          (Some (content, [], calls, None), (if final then q\<lparr>qc_acc := [], qc_state := LookingForToolStart\<rparr> else q)\<lparr>qc_callIndex := n\<rparr>))"
  using assms qc_drain_fields(1,2)[OF assms]
  by (auto simp: qc_Add_def qc_finish_eq qc_feed_def split: prod.splits sum.splits)

interpretation qc_calls: call_numbering "qc_Add pc" qc_callIndex for pc
proof
  fix p s final c th calls p'
  assume a: "qc_Add pc p s final = (Some (c, th, calls, None), p')"
  obtain es q where d: "drain qc_eat (qc_feed s p) [] = Some (es, q)"
    using qc_loop.drain_Some by blast
  show "qc_callIndex p' = qc_callIndex p + length calls
      \<and> map tc_Index calls = [qc_callIndex p..<qc_callIndex p + length calls]"
    using a collect_Inr[of "pc (qc_tools p)" "qc_callIndex p" "es @ (if final then qc_fin q else [])"]
    by (auto simp: qc_Add_eq[OF d] split: prod.splits sum.splits)
qed

interpretation qc_streaming: streaming_parser qc_eat "\<lambda>p. length (qc_acc p)" qc_feed
  "\<lambda>p. aligned (qc_acc p) \<and> qc_tools p = tools" ok_chunk "qc_Add pc" "pc tools" qc_callIndex
  "\<lambda>n p. p\<lparr>qc_callIndex := n\<rparr>" qc_fin
  for pc :: "'p Tool list \<Rightarrow> string \<Rightarrow> 'e + 'a ToolCall" and tools
proof
  fix p p' q :: "'p Qwen3CoderParser" and es k c d s n final
  show "qc_feed d (qc_feed c p) = qc_feed (c @ d) p" by (simp add: qc_feed_def)
  show "ok_chunk c \<Longrightarrow> ok_chunk d \<Longrightarrow> ok_chunk (c @ d)" by (rule ok_chunk_append)
  show "aligned (qc_acc p) \<and> qc_tools p = tools \<Longrightarrow> ok_chunk c \<Longrightarrow>
      aligned (qc_acc (qc_feed c p)) \<and> qc_tools (qc_feed c p) = tools"
    by (simp add: qc_feed_def ok_chunk_def aligned_append)
  show "aligned (qc_acc p) \<and> qc_tools p = tools \<Longrightarrow> qc_eat p = (es, k, p') \<Longrightarrow>
      aligned (qc_acc p') \<and> qc_tools p' = tools"
    using qc_eat_fields by metis
  show "aligned (qc_acc p) \<and> qc_tools p = tools \<Longrightarrow> ok_chunk c \<Longrightarrow> qc_eat p = (es, k, p') \<Longrightarrow>
      qc_shows (qc_feed c p) = prepend (atoms event_atoms es) (qc_shows (qc_feed c p'))"
    by (rule qc_commute) auto
  show "qc_eat p = (es, k, p') \<Longrightarrow> qc_eat (p\<lparr>qc_callIndex := n\<rparr>) = (es, k, p'\<lparr>qc_callIndex := n\<rparr>)"
    by (auto simp: qc_eat_def split: qwenParserState.splits option.splits prod.splits)
  show "qc_feed s (p\<lparr>qc_callIndex := n\<rparr>) = (qc_feed s p)\<lparr>qc_callIndex := n\<rparr>" by (simp add: qc_feed_def)
  show "aligned (qc_acc p) \<and> qc_tools p = tools \<Longrightarrow>
      aligned (qc_acc (p\<lparr>qc_callIndex := n\<rparr>)) \<and> qc_tools (p\<lparr>qc_callIndex := n\<rparr>) = tools" by simp
  show "qc_fin (p\<lparr>qc_callIndex := n\<rparr>) = qc_fin p" by (simp add: qc_fin_def qc_finish_def split: qwenParserState.splits)
next
  fix p q :: "'p Qwen3CoderParser" and es s final e n
  assume "aligned (qc_acc p) \<and> qc_tools p = tools" "ok_chunk s" "drain qc_eat (qc_feed s p) [] = Some (es, q)"
    "collect (pc tools) (qc_callIndex p) (es @ (if final then qc_fin q else [])) = (Inl e, n)"
  then show "\<exists>q'. qc_Add pc p s final = (Some ([], [], [], Some e), q')" by (simp add: qc_Add_eq)
next
  fix p q :: "'p Qwen3CoderParser" and es s c th calls n
  assume a: "aligned (qc_acc p) \<and> qc_tools p = tools" "ok_chunk s" "drain qc_eat (qc_feed s p) [] = Some (es, q)"
    "collect (pc tools) (qc_callIndex p) (es @ qc_fin q) = (Inr (c, th, calls), n)"
  then have "th = []" using collect_Inr[OF a(4)] qc_drain_fields(3)[OF a(3)] by (simp add: qc_fin_thinkings)
  then show "\<exists>q'. qc_Add pc p s True = (Some (c, th, calls, None), q')" using a by (simp add: qc_Add_eq)
next
  fix p q :: "'p Qwen3CoderParser" and es s c th calls n
  assume a: "aligned (qc_acc p) \<and> qc_tools p = tools" "ok_chunk s" "drain qc_eat (qc_feed s p) [] = Some (es, q)"
    "collect (pc tools) (qc_callIndex p) es = (Inr (c, th, calls), n)"
  then have "th = []" using collect_Inr[OF a(4)] qc_drain_fields(3)[OF a(3)] by simp
  then show "qc_Add pc p s False = (Some (c, th, calls, None), q\<lparr>qc_callIndex := n\<rparr>)"
    using a by (simp add: qc_Add_eq)
qed simp

text \<open>Without the opening tag nothing but held-back text is ever in the buffer.\<close>



lemma qc_plain_drain:
  assumes "qc_state p = LookingForToolStart" "\<not> go_contains (qc_acc p) toolOpenTag"
    "withhold [toolOpenTag] (qc_acc p) = (u, h)"
  shows "drain qc_eat p [] = Some (emit EvContent u, p\<lparr>qc_acc := h\<rparr>)"
  using assms by (subst drain.simps) (simp add: qc_eat_def flip: go_cut_None)

lemma qc_plain_stream:
  assumes "qc_state p = LookingForToolStart" "\<not> go_contains (qc_acc p @ concat cs) toolOpenTag" "cs \<noteq> []"
  shows "stream (qc_Add pc) p cs = Some (Inr (qc_acc p @ concat cs, [], []))"
  using assms
proof (induction cs arbitrary: p)
  case (Cons s cs)
  obtain u h where w: "withhold [toolOpenTag] (qc_acc p @ s) = (u, h)" by fastforce
  have "\<not> go_contains (qc_acc p @ s) toolOpenTag"     using Cons.prems(2) go_contains_append[of "qc_acc p @ s" toolOpenTag "concat cs"] by auto
  then have d: "drain qc_eat (qc_feed s p) [] = Some (emit EvContent u, p\<lparr>qc_acc := h\<rparr>)"
    using qc_plain_drain[of "qc_feed s p" u h] Cons.prems(1) w by (simp add: qc_feed_def)
  note uh = withhold_append_eq[OF w]
  show ?case
  proof (cases "cs = []")
    case True
    then show ?thesis
      using uh Cons.prems(1)
      by (simp add: qc_Add_eq[OF d] qc_fin_def qc_finish_def emit_def)
  next
    case False
    have "qc_acc p @ concat (s # cs) = u @ (h @ concat cs)" using uh by simp
    then have "\<not> go_contains (h @ concat cs) toolOpenTag"       using Cons.prems(2) go_contains_right by metis
    then have "stream (qc_Add pc) (p\<lparr>qc_acc := h\<rparr>) cs = Some (Inr (h @ concat cs, [], []))"
      using Cons.IH[of "p\<lparr>qc_acc := h\<rparr>"] Cons.prems(1) False by simp
    then show ?thesis
      using False uh by (simp add: qc_Add_eq[OF d] emit_def)
  qed
qed simp

section \<open>Properties\<close>

text \<open>
  Text without a tool call passes through unchanged: whatever the chunks, a stream that
  never contains the opening tag is returned as content, byte for byte, white space and partial
  tags included.
\<close>

theorem qc_plain_text:
  assumes "\<not> go_contains (concat cs) toolOpenTag" "cs \<noteq> []"
  shows "stream (qc_Add pc) (qc_Init tools new_Qwen3CoderParser) cs = Some (Inr (concat cs, [], []))"
  using qc_plain_stream[of "qc_Init tools new_Qwen3CoderParser" cs pc] assms
  by (simp add: qc_Init_def new_Qwen3CoderParser_def)

theorem qc_plain_text_witness:
  "stream (qc_Add echo_parse) (qc_Init [] new_Qwen3CoderParser) ['' a <to'', ''  x <tool_'']
    = Some (Inr ('' a <to  x <tool_'', [], []))"
proof -
  have "\<not> go_contains (concat ['' a <to'', ''  x <tool_'']) toolOpenTag" by code_simp
  from qc_plain_text[OF this] show ?thesis by (simp del: stream.simps)
qed



text \<open>
  The tool calls of a stream are numbered 0, 1, 2 and so on, in the order in which they stand
  in the text, across all chunks.
\<close>

theorem qc_calls_numbered:
  assumes "stream (qc_Add pc) (qc_Init tools p) cs = Some (Inr (c, th, calls))"
  shows "map tc_Index calls = [0..<length calls]"
  using qc_calls.stream_numbered[OF assms] by (simp add: qc_Init_def)

theorem qc_calls_numbered_witness:
  "map tc_Index [\<lparr>tc_Index = 0, tc_Name = ''f'', tc_Arguments = ''f''\<rparr>, \<lparr>tc_Index = 1, tc_Name = ''g'', tc_Arguments = ''g''\<rparr>]
    = [0, 1]"
proof -
  have "stream (qc_Add echo_parse) (qc_Init [] new_Qwen3CoderParser)
      [''x<tool_call>f</tool_call> <tool_'', ''call>g</tool_call>'']
    = Some (Inr (''x'', [], [\<lparr>tc_Index = 0, tc_Name = ''f'', tc_Arguments = ''f''\<rparr>, \<lparr>tc_Index = 1, tc_Name = ''g'', tc_Arguments = ''g''\<rparr>]))"
    by code_simp
  from qc_calls_numbered[OF this] show ?thesis by simp
qed

end
