(* ===== verification/Qwen35.thy ===== *)
theory Qwen35
  imports Qwen3Coder
begin

text \<open>
  \<^verbatim>\<open>model/parsers/qwen35.go\<close>: thinking first, then everything is handed to a qwen3-coder
  parser, which is part of the state.
\<close>

section \<open>The parser\<close>

datatype qwen35ParserState = Q35CollectingThinking | Q35ThinkingDoneEatingWhitespace | Q35CollectingContent

definition qwen35ThinkingOpenTag :: string where "qwen35ThinkingOpenTag = ''<think>''"
definition qwen35ThinkingCloseTag :: string where "qwen35ThinkingCloseTag = ''</think>''"
definition qwen35ToolCallOpenTag :: string where "qwen35ToolCallOpenTag = ''<tool_call>''"

record 'p Qwen35Parser =
  q35_toolParser :: "'p Qwen3CoderParser"
  q35_state :: qwen35ParserState
  q35_buffer :: string
  q35_allowLeadingThinkOpenTag :: bool
  q35_trimLeadingThinkingSpace :: bool

definition q35_HasToolSupport :: bool where "q35_HasToolSupport = True"
definition q35_HasThinkingSupport :: bool where "q35_HasThinkingSupport = True"
definition q35_PreservedTokens :: "string list" where
  "q35_PreservedTokens = [qwen35ThinkingOpenTag, qwen35ThinkingCloseTag, toolOpenTag, toolCloseTag]"

text \<open>\<open>Init\<close> sets every field.\<close>

definition q35_Init :: "'p Tool list \<Rightarrow> Message option \<Rightarrow> ThinkValue option \<Rightarrow> 'p Qwen35Parser" where
  "q35_Init tools lastMessage thinkValue =
     (let thinkingEnabled = (if thinkValue = None then True else ThinkValue_Bool thinkValue);
          thinks = (thinkingEnabled \<and> \<not> assistant_prefill lastMessage)
      in \<lparr>q35_toolParser = qc_Init tools new_Qwen3CoderParser,
          q35_state = if thinks then Q35CollectingThinking else Q35CollectingContent,
          q35_buffer = [], q35_allowLeadingThinkOpenTag = thinks, q35_trimLeadingThinkingSpace = False\<rparr>)"

type_synonym qwen35Event = "unit event"

definition q35_eatLeadingWhitespaceAndTransitionTo ::
  "qwen35ParserState \<Rightarrow> 'p Qwen35Parser \<Rightarrow> qwen35Event list \<times> bool \<times> 'p Qwen35Parser" where
  "q35_eatLeadingWhitespaceAndTransitionTo nextState p =
     (let trimmed = trim_left (q35_buffer p) in
      if trimmed = [] then ([], False, p\<lparr>q35_buffer := []\<rparr>)
      else ([], True, p\<lparr>q35_state := nextState, q35_buffer := trimmed\<rparr>))"

text \<open>\<open>maybeConsumeLeadingThinkOpenTag\<close>: handled, whether to go on, and the parser.\<close>

definition maybeConsumeLeadingThinkOpenTag ::
  "string \<Rightarrow> 'p Qwen35Parser \<Rightarrow> bool \<times> bool \<times> 'p Qwen35Parser" where
  "maybeConsumeLeadingThinkOpenTag acc p =
     (if \<not> q35_allowLeadingThinkOpenTag p then (False, False, p)
      else
        let trimmed = trim_left acc in
        if prefix qwen35ThinkingOpenTag trimmed then
          (let after = trim_left (drop (length qwen35ThinkingOpenTag) trimmed) in
           (True, after \<noteq> [],
            p\<lparr>q35_buffer := after, q35_allowLeadingThinkOpenTag := False,
              q35_trimLeadingThinkingSpace := (after = [])\<rparr>))
        else if prefix trimmed qwen35ThinkingOpenTag then (True, False, p)
        else (False, False, p\<lparr>q35_allowLeadingThinkOpenTag := False\<rparr>))"

definition q35_hold :: "'p Qwen35Parser \<Rightarrow> qwen35Event list \<times> bool \<times> 'p Qwen35Parser" where
  "q35_hold p =
     (case withhold [qwen35ThinkingCloseTag, qwen35ToolCallOpenTag] (q35_buffer p) of
        (unambiguous, ambiguous) \<Rightarrow> (emit EvThinking unambiguous, False, p\<lparr>q35_buffer := ambiguous\<rparr>))"

text \<open>
  The rest of the thinking state. A tool call that starts before the thinking is closed is given
  the missing closing tag; this branch comes after the one for a partial tag at the end.
\<close>

definition q35_eat_thinking :: "'p Qwen35Parser \<Rightarrow> qwen35Event list \<times> bool \<times> 'p Qwen35Parser" where
  "q35_eat_thinking p =
     (let acc = q35_buffer p in
      if go_contains acc qwen35ThinkingCloseTag then
        (case splitAtTag acc qwen35ThinkingCloseTag True of
           ((thinking, remaining), buf) \<Rightarrow>
             (emit EvThinking thinking, True,
              p\<lparr>q35_state := if remaining = [] then Q35ThinkingDoneEatingWhitespace else Q35CollectingContent,
                q35_buffer := buf\<rparr>))
      else if max_overlap [qwen35ThinkingCloseTag, qwen35ToolCallOpenTag] acc > 0 then q35_hold p
      else if go_contains acc qwen35ToolCallOpenTag then
        (case splitAtTag acc qwen35ToolCallOpenTag True of
           ((thinking, tooling), _) \<Rightarrow>
             ([], True,
              p\<lparr>q35_buffer := thinking @ qwen35ThinkingCloseTag @ qwen35ToolCallOpenTag @ tooling\<rparr>))
      else q35_hold p)"

definition q35_eat :: "'p Qwen35Parser \<Rightarrow> qwen35Event list \<times> bool \<times> 'p Qwen35Parser" where
  "q35_eat p =
     (case q35_state p of
        Q35CollectingThinking \<Rightarrow>
          (let acc = q35_buffer p in
           case maybeConsumeLeadingThinkOpenTag acc p of
             (handled, continueNow, p1) \<Rightarrow>
               if handled then ([], continueNow, p1)
               else if q35_trimLeadingThinkingSpace p1 then
                 (let acc' = trim_left acc; p2 = p1\<lparr>q35_buffer := acc'\<rparr> in
                  if acc' = [] then ([], False, p2)
                  else q35_eat_thinking (p2\<lparr>q35_trimLeadingThinkingSpace := False\<rparr>))
               else q35_eat_thinking p1)
      | Q35ThinkingDoneEatingWhitespace \<Rightarrow> q35_eatLeadingWhitespaceAndTransitionTo Q35CollectingContent p
      | Q35CollectingContent \<Rightarrow>
          (if q35_buffer p = [] then ([], False, p)
           else ([EvContent (q35_buffer p)], False, p\<lparr>q35_buffer := []\<rparr>)))"

definition q35_feed :: "string \<Rightarrow> 'p Qwen35Parser \<Rightarrow> 'p Qwen35Parser" where
  "q35_feed s p = p\<lparr>q35_buffer := q35_buffer p @ s\<rparr>"

text \<open>The loop of \<open>Add\<close> over the events: content goes to the tool parser, with \<open>done\<close>.\<close>

fun q35_handle ::
  "('p Tool list \<Rightarrow> string \<Rightarrow> 'e + 'a ToolCall) \<Rightarrow> bool \<Rightarrow> qwen35Event list \<Rightarrow> 'p Qwen3CoderParser
    \<Rightarrow> ('e + string \<times> string \<times> 'a ToolCall list) option \<times> 'p Qwen3CoderParser" where
  "q35_handle pc final [] tp = (Some (Inr ([], [], [])), tp)"
| "q35_handle pc final (EvContent s # es) tp =
     (case qc_Add pc tp s final of
        (None, tp') \<Rightarrow> (None, tp')
      | (Some (_, _, _, Some e), tp') \<Rightarrow> (Some (Inl e), tp')
      | (Some (c, _, calls, None), tp') \<Rightarrow>
          (case q35_handle pc final es tp' of
             (Some (Inr (c', th', calls')), tp'') \<Rightarrow> (Some (Inr (c @ c', th', calls @ calls')), tp'')
           | r \<Rightarrow> r))"
| "q35_handle pc final (EvThinking s # es) tp =
     (case q35_handle pc final es tp of
        (Some (Inr (c', th', calls')), tp'') \<Rightarrow> (Some (Inr (c', s @ th', calls')), tp'')
      | r \<Rightarrow> r)"
| "q35_handle pc final (EvCall _ # es) tp = q35_handle pc final es tp"

definition q35_Add ::
  "('p Tool list \<Rightarrow> string \<Rightarrow> 'e + 'a ToolCall) \<Rightarrow> 'p Qwen35Parser \<Rightarrow> string \<Rightarrow> bool
    \<Rightarrow> ('a, 'e) added option \<times> 'p Qwen35Parser" where
  "q35_Add pc p s final =
     (case drain q35_eat (q35_feed s p) [] of
        None \<Rightarrow> (None, p)
      | Some (events, p') \<Rightarrow>
          (case q35_handle pc final events (q35_toolParser p') of
             (None, tp) \<Rightarrow> (None, p'\<lparr>q35_toolParser := tp\<rparr>)
           | (Some (Inl e), tp) \<Rightarrow> (Some ([], [], [], Some e), p'\<lparr>q35_toolParser := tp\<rparr>)
           | (Some (Inr (content, thinking, calls)), tp) \<Rightarrow>
               (Some (content, thinking, calls, None), p'\<lparr>q35_toolParser := tp\<rparr>)))"

section \<open>The loop returns\<close>

text \<open>
  A tool call without a closing tag makes the buffer longer, but the closing tag that is put in
  front of it is found in the next round.
\<close>

definition q35_rank :: "'p Qwen35Parser \<Rightarrow> nat" where
  "q35_rank p =
     (case q35_state p of
        Q35CollectingThinking \<Rightarrow>
          (if q35_allowLeadingThinkOpenTag p then 8 else 0) +
          (if q35_trimLeadingThinkingSpace p then 4 else 0) +
          (if go_contains (q35_buffer p) qwen35ThinkingCloseTag then 2 else 3)
      | Q35ThinkingDoneEatingWhitespace \<Rightarrow> 1
      | Q35CollectingContent \<Rightarrow> 0)"

lemma q35_eat_thinking_decreases:
  assumes "q35_eat_thinking p = (es, True, p')" "q35_state p = Q35CollectingThinking"
  shows "q35_rank p' < (if q35_allowLeadingThinkOpenTag p then 8 else 0)
      + (if q35_trimLeadingThinkingSpace p then 4 else 0)
      + (if go_contains (q35_buffer p) qwen35ThinkingCloseTag then 2 else 3)"
  using assms
  by (auto simp: q35_eat_thinking_def q35_hold_def q35_rank_def Let_def split: if_splits prod.splits)

lemma q35_eat_decreases: "q35_eat p = (es, True, p') \<Longrightarrow> q35_rank p' < q35_rank p"
proof (cases "q35_state p")
  case Q35CollectingThinking
  assume e: "q35_eat p = (es, True, p')"
  then show ?thesis
    using Q35CollectingThinking
    by (auto simp: q35_eat_def maybeConsumeLeadingThinkOpenTag_def Let_def q35_rank_def[of p]
        split: if_splits dest!: q35_eat_thinking_decreases) (auto simp: q35_rank_def)
qed (auto simp: q35_eat_def q35_eatLeadingWhitespaceAndTransitionTo_def q35_rank_def Let_def split: if_splits)

interpretation q35_loop: event_loop q35_eat q35_rank
  by unfold_locales (rule q35_eat_decreases)

lemma q35_Add_returns: "fst (q35_Add pc p s final) \<noteq> None"
proof -
  have qc: "fst (qc_Add pc tp s final) \<noteq> None" for tp s
  proof -
    obtain es q where d: "drain qc_eat (qc_feed s tp) [] = Some (es, q)" using qc_loop.drain_Some by blast
    show ?thesis by (simp add: qc_Add_eq[OF d] split: prod.splits sum.splits)
  qed
  have handle: "fst (q35_handle pc final es tp) \<noteq> None" for es tp
  proof (induction es arbitrary: tp)
    case (Cons e es)
    show ?case
    proof (cases e)
      case (EvContent s)
      then show ?thesis
        using qc[of tp s] Cons.IH by (auto split: prod.splits option.splits sum.splits) (metis fst_conv option.distinct(1))+
    next
      case (EvThinking s)
      then show ?thesis using Cons.IH[of tp] by (auto split: prod.splits option.splits sum.splits)
    next
      case (EvCall s)
      then show ?thesis using Cons.IH[of tp] by simp
    qed
  qed simp
  obtain es q where d: "drain q35_eat (q35_feed s p) [] = Some (es, q)" using q35_loop.drain_Some by blast
  show ?thesis
    using handle[of es "q35_toolParser q"]
    by (auto simp: q35_Add_def d split: prod.splits option.splits sum.splits)
qed

section \<open>Content\<close>

text \<open>Once it is in content mode, the parser is its tool parser, as long as there is text.\<close>

lemma q35_content_drain:
  assumes "q35_state p = Q35CollectingContent" "q35_buffer p = []" "s \<noteq> []"
  shows "drain q35_eat (q35_feed s p) [] = Some ([EvContent s], p)"
  using assms by (subst drain.simps) (simp add: q35_eat_def q35_feed_def)

lemma q35_content_Add:
  assumes "q35_state p = Q35CollectingContent" "q35_buffer p = []" "s \<noteq> []"
  shows "q35_Add pc p s final =
     (case qc_Add pc (q35_toolParser p) s final of
        (None, tp) \<Rightarrow> (None, p\<lparr>q35_toolParser := tp\<rparr>)
      | (Some (c, th, calls, Some e), tp) \<Rightarrow> (Some ([], [], [], Some e), p\<lparr>q35_toolParser := tp\<rparr>)
      | (Some (c, th, calls, None), tp) \<Rightarrow> (Some (c, [], calls, None), p\<lparr>q35_toolParser := tp\<rparr>))"
  by (auto simp: q35_Add_def q35_content_drain[OF assms] split: prod.splits option.splits)

lemma qc_Add_thinking: "fst (qc_Add pc p s final) = Some (c, th, calls, e) \<Longrightarrow> th = []"
  by (auto simp: qc_Add_def split: option.splits prod.splits sum.splits)

lemma q35_content_stream:
  assumes "q35_state p = Q35CollectingContent" "q35_buffer p = []" "\<forall>c\<in>set cs. c \<noteq> []"
  shows "stream (q35_Add pc) p cs = stream (qc_Add pc) (q35_toolParser p) cs"
  using assms
proof (induction cs arbitrary: p)
  case (Cons s cs)
  obtain r tp where r: "qc_Add pc (q35_toolParser p) s (cs = []) = (r, tp)" by fastforce
  have "stream (q35_Add pc) (p\<lparr>q35_toolParser := tp\<rparr>) cs = stream (qc_Add pc) tp cs"
    using Cons.IH[of "p\<lparr>q35_toolParser := tp\<rparr>"] Cons.prems by simp
  then show ?case
    using q35_content_Add[of p s pc "cs = []"] Cons.prems r qc_Add_thinking[of pc "q35_toolParser p" s "cs = []"]
    by (auto split: option.splits prod.splits)
qed simp

section \<open>Deviations\<close>

text \<open>
  A partial tag at the end of the buffer is looked for before a complete tool call: a tool call
  that arrives together with the beginning of another tag is shown to the user as thinking.
\<close>

lemma q35_leaks_tool_call:
  "stream (q35_Add echo_parse) (q35_Init [] None None) [''a<tool_call>f<'', ''/tool_call>''] =
     Some (Inr ([], ''a<tool_call>f</tool_call>'', []))"
  "stream (q35_Add echo_parse) (q35_Init [] None None) [''a<tool_call>f'', ''</tool_call>''] =
     Some (Inr ([], ''a'', [\<lparr>tc_Index = 0, tc_Name = ''f'', tc_Arguments = ''f''\<rparr>]))"
  by code_simp+

text \<open>
  The tool parser is told about the end of the stream only together with text: when the last
  chunk is empty, what the tool parser holds back is lost.
\<close>

lemma q35_end_is_dropped:
  "stream (q35_Add echo_parse) (q35_Init [] None (Some \<lparr>Value = Some (DynBool False)\<rparr>)) [''if a <'', []] =
     Some (Inr (''if a'', [], []))"
  "stream (qc_Add echo_parse) (qc_Init [] new_Qwen3CoderParser) [''if a <'', []] =
     Some (Inr (''if a <'', [], []))"
  by code_simp+

section \<open>Properties\<close>

text \<open>
  With thinking off, or after an assistant prefill, the qwen3.5 parser does to a stream of
  non-empty chunks exactly what a fresh qwen3-coder parser does to it: content, tool calls with
  their numbers, and errors.
\<close>

theorem q35_content_is_coder:
  assumes "thinkValue \<noteq> None \<and> \<not> ThinkValue_Bool thinkValue \<or> assistant_prefill lastMessage"
    "\<forall>c\<in>set cs. c \<noteq> []"
  shows "stream (q35_Add pc) (q35_Init tools lastMessage thinkValue) cs
    = stream (qc_Add pc) (qc_Init tools new_Qwen3CoderParser) cs"
  using q35_content_stream[of "q35_Init tools lastMessage thinkValue" cs pc] assms
  by (auto simp: q35_Init_def Let_def)

theorem q35_content_is_coder_witness:
  "stream (q35_Add echo_parse) (q35_Init [] None (Some \<lparr>Value = Some (DynBool False)\<rparr>)) [''a <'', ''tool_call>f</tool_call>'']
    = stream (qc_Add echo_parse) (qc_Init [] new_Qwen3CoderParser) [''a <'', ''tool_call>f</tool_call>'']"
  by (rule q35_content_is_coder) code_simp+

end
