(* ===== verification/Nemotron.thy ===== *)
theory Nemotron
  imports Qwen3Coder
begin

text \<open>
  \<^verbatim>\<open>model/parsers/nemotron3nano.go\<close>: thinking is separated here, everything after it goes to
  a qwen3-coder parser. The parser has no loop; after stripping an opening tag \<open>Add\<close> calls itself
  once more with no new text.
\<close>

section \<open>The parser\<close>

datatype Nemotron3NanoParserState =
    Nemotron3NanoCollectingThinking
  | Nemotron3NanoSkipWhitespaceAfterThinking
  | Nemotron3NanoCollectingContent

definition nemotronThinkOpen :: string where "nemotronThinkOpen = ''<think>''"
definition nemotronThinkClose :: string where "nemotronThinkClose = ''</think>''"
definition nemotronToolCallOpen :: string where "nemotronToolCallOpen = ''<tool_call>''"

record 'p Nemotron3NanoParser =
  nn_state :: Nemotron3NanoParserState
  nn_buffer :: string
  nn_toolParser :: "'p Qwen3CoderParser"
  nn_maybeThinkingOpenAtBOL :: bool
  nn_skipThinkingLeadingWS :: bool

definition nn_HasToolSupport :: bool where "nn_HasToolSupport = True"
definition nn_HasThinkingSupport :: bool where "nn_HasThinkingSupport = True"
definition nn_PreservedTokens :: "string list" where
  "nn_PreservedTokens = [nemotronThinkOpen, nemotronThinkClose, toolOpenTag, toolCloseTag]"

text \<open>\<open>Init\<close> sets every field.\<close>

definition nn_Init :: "'p Tool list \<Rightarrow> Message option \<Rightarrow> ThinkValue option \<Rightarrow> 'p Nemotron3NanoParser" where
  "nn_Init tools lastMessage thinkValue =
     (let thinkingEnabled = (thinkValue = None \<or> ThinkValue_Bool thinkValue);
          content = (\<not> thinkingEnabled \<or> assistant_prefill lastMessage)
      in \<lparr>nn_state = if content then Nemotron3NanoCollectingContent else Nemotron3NanoCollectingThinking,
          nn_buffer = [], nn_toolParser = qc_Init tools new_Qwen3CoderParser,
          nn_maybeThinkingOpenAtBOL = \<not> content, nn_skipThinkingLeadingWS = False\<rparr>)"

text \<open>\<open>stripOpeningThinkTag\<close>, with the parser it leaves behind.\<close>

definition stripOpeningThinkTag :: "'p Nemotron3NanoParser \<Rightarrow> bool \<times> 'p Nemotron3NanoParser" where
  "stripOpeningThinkTag p =
     (if \<not> nn_maybeThinkingOpenAtBOL p then (False, p)
      else
        let trimmed = trim_left (nn_buffer p) in
        if trimmed = [] then (False, p\<lparr>nn_buffer := []\<rparr>)
        else if prefix nemotronThinkOpen trimmed then
          (True, p\<lparr>nn_buffer := trim_left (drop (length nemotronThinkOpen) trimmed),
             nn_maybeThinkingOpenAtBOL := False, nn_skipThinkingLeadingWS := True\<rparr>)
        else if overlap trimmed nemotronThinkOpen = length trimmed then
          (False, p\<lparr>nn_buffer := trimmed\<rparr>)
        else (False, p\<lparr>nn_maybeThinkingOpenAtBOL := False\<rparr>))"

text \<open>\<open>emitThinking\<close>: what is emitted; the rest stays in the buffer.\<close>

definition emitThinking :: "string \<Rightarrow> 'p Nemotron3NanoParser \<Rightarrow> string \<times> 'p Nemotron3NanoParser" where
  "emitThinking bufStr p =
     (case withhold [nemotronThinkClose, nemotronToolCallOpen] bufStr of
        (unambiguous, ambiguous) \<Rightarrow> (unambiguous, p\<lparr>nn_buffer := ambiguous\<rparr>))"

text \<open>Where the thinking ends: before the closing tag, or before a tool call that comes first. The
  remainder is what goes on to the tool parser.\<close>

definition thinking_end :: "string \<Rightarrow> (nat \<times> string) option" where
  "thinking_end bufStr =
     (let thinkIdx = go_index bufStr nemotronThinkClose; toolIdx = go_index bufStr nemotronToolCallOpen in
      if index_before thinkIdx toolIdx then
        map_option (\<lambda>i. (i, trim_left (drop (i + length nemotronThinkClose) bufStr))) thinkIdx
      else map_option (\<lambda>i. (i, drop i bufStr)) toolIdx)"

text \<open>The part of \<open>Add\<close> after the opening tag has been dealt with.\<close>

definition nn_think ::
  "('p Tool list \<Rightarrow> string \<Rightarrow> 'e + 'a ToolCall) \<Rightarrow> 'p Nemotron3NanoParser \<Rightarrow> bool
    \<Rightarrow> ('a, 'e) added option \<times> 'p Nemotron3NanoParser" where
  "nn_think pc p final =
     (let bufStr = nn_buffer p in
      case thinking_end bufStr of
        Some (endIdx, remainder) \<Rightarrow>
          (let thinking = trim_right (take endIdx bufStr); p1 = p\<lparr>nn_buffer := []\<rparr> in
           if remainder = [] then
             (Some ([], thinking, [], None), p1\<lparr>nn_state := Nemotron3NanoSkipWhitespaceAfterThinking\<rparr>)
           else
             (case qc_Add pc (nn_toolParser p) remainder final of
                (None, tp) \<Rightarrow> (None, p1\<lparr>nn_state := Nemotron3NanoCollectingContent, nn_toolParser := tp\<rparr>)
              | (Some (content, _, calls, err), tp) \<Rightarrow>
                  (Some (content, thinking, calls, err),
                   p1\<lparr>nn_state := Nemotron3NanoCollectingContent, nn_toolParser := tp\<rparr>)))
      | None \<Rightarrow>
          (case emitThinking bufStr p of
             (thinking, p1) \<Rightarrow>
               if final then (Some ([], thinking @ nn_buffer p1, [], None), p1\<lparr>nn_buffer := []\<rparr>)
               else (Some ([], thinking, [], None), p1)))"

function nn_Add ::
  "('p Tool list \<Rightarrow> string \<Rightarrow> 'e + 'a ToolCall) \<Rightarrow> 'p Nemotron3NanoParser \<Rightarrow> string \<Rightarrow> bool
    \<Rightarrow> ('a, 'e) added option \<times> 'p Nemotron3NanoParser" where
  "nn_Add pc p s final =
     (case nn_state p of
        Nemotron3NanoCollectingContent \<Rightarrow>
          (case qc_Add pc (nn_toolParser p) s final of (r, tp) \<Rightarrow> (r, p\<lparr>nn_toolParser := tp\<rparr>))
      | Nemotron3NanoSkipWhitespaceAfterThinking \<Rightarrow>
          (let s' = trim_left s in
           if s' = [] then (Some ([], [], [], None), p)
           else
             (case qc_Add pc (nn_toolParser p) s' final of
                (r, tp) \<Rightarrow> (r, p\<lparr>nn_state := Nemotron3NanoCollectingContent, nn_toolParser := tp\<rparr>)))
      | Nemotron3NanoCollectingThinking \<Rightarrow>
          (let p0 = p\<lparr>nn_buffer := nn_buffer p @ s\<rparr>;
               trimmed = trim_left (nn_buffer p0) in
           if nn_skipThinkingLeadingWS p0 \<and> trimmed = [] then
             (Some ([], [], [], None), p0\<lparr>nn_buffer := trimmed\<rparr>)
           else
             let p1 = (if nn_skipThinkingLeadingWS p0
                       then p0\<lparr>nn_buffer := trimmed, nn_skipThinkingLeadingWS := False\<rparr> else p0) in
             case stripOpeningThinkTag p1 of
               (True, p2) \<Rightarrow> nn_Add pc p2 [] final
             | (False, p2) \<Rightarrow>
                 (let trimmed' = trim_left (nn_buffer p2) in
                  if nn_maybeThinkingOpenAtBOL p2
                     \<and> (trimmed' = [] \<or> overlap trimmed' nemotronThinkOpen = length trimmed') then
                    (let p3 = p2\<lparr>nn_buffer := trimmed'\<rparr> in
                     if final then
                       (Some ([], nn_buffer p3, [], None),
                        p3\<lparr>nn_buffer := [], nn_maybeThinkingOpenAtBOL := False\<rparr>)
                     else (Some ([], [], [], None), p3))
                  else nn_think pc p2 final)))"
  by pat_completeness auto
termination
  by (relation "measure (\<lambda>(pc, p, s, final). if nn_maybeThinkingOpenAtBOL p then 1 else 0)")
    (auto simp: stripOpeningThinkTag_def Let_def split: if_splits)

declare nn_Add.simps [simp del]

section \<open>The numbers of the tool calls\<close>

lemma stripOpening_toolParser: "stripOpeningThinkTag p = (b, p') \<Longrightarrow> nn_toolParser p' = nn_toolParser p"
  by (auto simp: stripOpeningThinkTag_def Let_def split: if_splits)

lemma nn_think_numbered:
  "nn_think pc p final = (Some (c, th, calls, None), p') \<Longrightarrow>
     qc_callIndex (nn_toolParser p') = qc_callIndex (nn_toolParser p) + length calls
     \<and> map tc_Index calls = [qc_callIndex (nn_toolParser p)..<qc_callIndex (nn_toolParser p) + length calls]"
  by (auto simp: nn_think_def emitThinking_def Let_def split: option.splits prod.splits if_splits
      dest: qc_calls.numbered)

interpretation nn_calls: call_numbering "nn_Add pc" "\<lambda>p. qc_callIndex (nn_toolParser p)" for pc
proof
  fix p s final c th calls p'
  assume "nn_Add pc p s final = (Some (c, th, calls, None), p')"
  then show "qc_callIndex (nn_toolParser p') = qc_callIndex (nn_toolParser p) + length calls
     \<and> map tc_Index calls = [qc_callIndex (nn_toolParser p)..<qc_callIndex (nn_toolParser p) + length calls]"
  proof (induction pc p s final rule: nn_Add.induct)
    case (1 pc p s final)
    show ?case
    proof (cases "nn_state p")
      case Nemotron3NanoCollectingContent
      then show ?thesis
        using "1.prems" by (subst (asm) nn_Add.simps) (auto split: prod.splits dest: qc_calls.numbered)
    next
      case Nemotron3NanoSkipWhitespaceAfterThinking
      then show ?thesis
        using "1.prems"
        by (subst (asm) nn_Add.simps) (auto simp: Let_def split: prod.splits if_splits dest: qc_calls.numbered)
    next
      case Nemotron3NanoCollectingThinking
      let ?p0 = "p\<lparr>nn_buffer := nn_buffer p @ s\<rparr>"
      let ?p1 = "if nn_skipThinkingLeadingWS ?p0
        then ?p0\<lparr>nn_buffer := trim_left (nn_buffer ?p0), nn_skipThinkingLeadingWS := False\<rparr> else ?p0"
      obtain b p2 where strip: "stripOpeningThinkTag ?p1 = (b, p2)" by fastforce
      have tp: "nn_toolParser p2 = nn_toolParser p" using stripOpening_toolParser[OF strip] by simp
      show ?thesis
      proof (cases "nn_skipThinkingLeadingWS ?p0 \<and> trim_left (nn_buffer ?p0) = []")
        case True
        then show ?thesis
          using "1.prems" Nemotron3NanoCollectingThinking by (subst (asm) nn_Add.simps) (auto simp: Let_def)
      next
        case go: False
        show ?thesis
        proof (cases b)
          case True
          then have "nn_Add pc p2 [] final = (Some (c, th, calls, None), p')"
            using "1.prems" Nemotron3NanoCollectingThinking go strip
            by (subst (asm) nn_Add.simps) (simp add: Let_def split: if_splits)
          then show ?thesis
            using "1.IH"[OF Nemotron3NanoCollectingThinking refl refl go refl strip[symmetric]] True tp by simp
        next
          case False
          then show ?thesis
            using "1.prems" Nemotron3NanoCollectingThinking go strip tp nn_think_numbered[of pc p2 final c th calls p']
            by (subst (asm) nn_Add.simps) (auto simp: Let_def split: if_splits)
        qed
      qed
    qed
  qed
qed

lemma qc_Add_Some: "qc_Add pc tp s final = (r, tp') \<Longrightarrow> \<exists>x. r = Some x"
proof -
  assume a: "qc_Add pc tp s final = (r, tp')"
  obtain es q where d: "drain qc_eat (qc_feed s tp) [] = Some (es, q)" using qc_loop.drain_Some by blast
  show ?thesis using a by (auto simp: qc_Add_eq[OF d] split: prod.splits sum.splits)
qed

lemma nn_think_Some: "nn_think pc p final = (r, p') \<Longrightarrow> \<exists>x. r = Some x"
  by (auto simp: nn_think_def emitThinking_def Let_def split: option.splits prod.splits if_splits
      dest: qc_Add_Some)

lemma nn_Add_returns: "fst (nn_Add pc p s final) \<noteq> None"
proof -
  have flag: "\<exists>x. r = Some x" if "\<not> nn_maybeThinkingOpenAtBOL p" "nn_Add pc p s final = (r, p')" for p s r p'
    using that
    by (subst (asm) nn_Add.simps)
      (auto simp: Let_def stripOpeningThinkTag_def split: Nemotron3NanoParserState.splits prod.splits if_splits
        dest: qc_Add_Some nn_think_Some)
  obtain r p' where r: "nn_Add pc p s final = (r, p')" by fastforce
  then have "\<exists>x. r = Some x"
    by (subst (asm) nn_Add.simps)
      (auto simp: Let_def stripOpeningThinkTag_def split: Nemotron3NanoParserState.splits prod.splits if_splits
        dest: qc_Add_Some nn_think_Some flag[rotated])
  then show ?thesis using r by auto
qed

section \<open>Thinking without an end\<close>

lemma thinking_end_None:
  "\<not> go_contains s nemotronThinkClose \<Longrightarrow> \<not> go_contains s nemotronToolCallOpen \<Longrightarrow> thinking_end s = None"
  by (simp add: thinking_end_def go_contains_def)

lemma nn_think_open:
  assumes "\<not> go_contains (nn_buffer p) nemotronThinkClose" "\<not> go_contains (nn_buffer p) nemotronToolCallOpen"
    "withhold [nemotronThinkClose, nemotronToolCallOpen] (nn_buffer p) = (u, h)"
  shows "nn_think pc p final =
    (if final then (Some ([], u @ h, [], None), p\<lparr>nn_buffer := []\<rparr>) else (Some ([], u, [], None), p\<lparr>nn_buffer := h\<rparr>))"
  using assms by (simp add: nn_think_def emitThinking_def thinking_end_None)

lemma nn_open_stream:
  assumes "nn_state p = Nemotron3NanoCollectingThinking" "\<not> nn_skipThinkingLeadingWS p" "cs \<noteq> []"
    "\<not> nn_maybeThinkingOpenAtBOL p \<or> trim_left (nn_buffer p @ hd cs) \<noteq> []
       \<and> \<not> prefix (trim_left (nn_buffer p @ hd cs)) nemotronThinkOpen
       \<and> \<not> prefix nemotronThinkOpen (trim_left (nn_buffer p @ hd cs))"
    "\<not> go_contains (nn_buffer p @ concat cs) nemotronThinkClose"
    "\<not> go_contains (nn_buffer p @ concat cs) nemotronToolCallOpen"
  shows "stream (nn_Add pc) p cs = Some (Inr ([], nn_buffer p @ concat cs, []))"
  using assms
proof (induction cs arbitrary: p)
  case (Cons s cs)
  define q where "q = p\<lparr>nn_buffer := nn_buffer p @ s, nn_maybeThinkingOpenAtBOL := False\<rparr>"
  then have q: "nn_buffer q = nn_buffer p @ s" "nn_state q = nn_state p" "\<not> nn_maybeThinkingOpenAtBOL q"
    "nn_skipThinkingLeadingWS q = nn_skipThinkingLeadingWS p" by simp_all
  obtain u h where w: "withhold [nemotronThinkClose, nemotronToolCallOpen] (nn_buffer p @ s) = (u, h)" by fastforce
  note uh = withhold_append_eq[OF w]
  have "nn_Add pc p s final = nn_think pc q final" for final
  proof (cases "nn_maybeThinkingOpenAtBOL p")
    case True
    then show ?thesis
      using Cons.prems(1,2,4) overlap_length[of "trim_left (nn_buffer p @ s)" nemotronThinkOpen]
      by (subst nn_Add.simps) (auto simp: Let_def stripOpeningThinkTag_def q_def)
  next
    case False
    then have q_eq: "q = p\<lparr>nn_buffer := nn_buffer p @ s\<rparr>" unfolding q_def by (cases p) simp
    then show ?thesis
      using Cons.prems(1,2) False
      by (subst nn_Add.simps) (simp add: Let_def stripOpeningThinkTag_def q_eq)
  qed
  moreover have "\<not> go_contains (nn_buffer p @ s) nemotronThinkClose" "\<not> go_contains (nn_buffer p @ s) nemotronToolCallOpen"
    using Cons.prems(5,6) go_contains_append[of "nn_buffer p @ s" _ "concat cs"] by auto
  ultimately have add: "nn_Add pc p s final = (if final then (Some ([], u @ h, [], None), q\<lparr>nn_buffer := []\<rparr>)
      else (Some ([], u, [], None), q\<lparr>nn_buffer := h\<rparr>))" for final
    using nn_think_open[of q u h pc] w q by simp
  show ?case
  proof (cases "cs = []")
    case True
    then show ?thesis using uh by (simp add: add)
  next
    case False
    have "nn_buffer p @ concat (s # cs) = u @ (h @ concat cs)" using uh by simp
    then have "\<not> go_contains (h @ concat cs) nemotronThinkClose" "\<not> go_contains (h @ concat cs) nemotronToolCallOpen"
      using Cons.prems(5,6) go_contains_right by metis+
    then have "stream (nn_Add pc) (q\<lparr>nn_buffer := h\<rparr>) cs = Some (Inr ([], h @ concat cs, []))"
      using Cons.IH[of "q\<lparr>nn_buffer := h\<rparr>"] Cons.prems(1,2) False q by simp
    then show ?thesis using False uh by (simp add: add)
  qed
qed simp

section \<open>Properties\<close>

text \<open>
  When a thinking model never closes its thinking, nothing of it is lost: for a stream that
  has neither end marker, and whose first chunk shows that no opening tag comes first, the
  thinking that is returned is the whole text, with the white space and partial tags at its end.
\<close>

theorem nn_open_thinking_is_complete:
  assumes "thinkValue = None \<or> ThinkValue_Bool thinkValue" "\<not> assistant_prefill lastMessage"
    "cs \<noteq> []" "trim_left (hd cs) \<noteq> []" "\<not> prefix (trim_left (hd cs)) nemotronThinkOpen"
    "\<not> prefix nemotronThinkOpen (trim_left (hd cs))"
    "\<not> go_contains (concat cs) nemotronThinkClose" "\<not> go_contains (concat cs) nemotronToolCallOpen"
  shows "stream (nn_Add pc) (nn_Init tools lastMessage thinkValue) cs = Some (Inr ([], concat cs, []))"
  using nn_open_stream[of "nn_Init tools lastMessage thinkValue" cs pc] assms
  by (auto simp: nn_Init_def Let_def)

theorem nn_open_thinking_is_complete_witness:
  "stream (nn_Add echo_parse) (nn_Init [] None None) ['' a'', '' <'', ''b </th'']
    = Some (Inr ([], '' a <b </th'', []))"
proof -
  have "stream (nn_Add echo_parse) (nn_Init [] None None) ['' a'', '' <'', ''b </th'']
      = Some (Inr ([], concat ['' a'', '' <'', ''b </th''], []))"
    by (rule nn_open_thinking_is_complete) code_simp+
  then show ?thesis by (simp del: stream.simps)
qed

end
