(* ===== verification/Olmo3Think.thy ===== *)
theory Olmo3Think
  imports ParserCommon
begin

text \<open>
  \<^verbatim>\<open>model/parsers/olmo3_think.go\<close>: a parser for a model whose output starts with thinking and
  ends it with a closing tag. No tool calls.
\<close>

section \<open>The parser\<close>

definition olmo3ThinkCloseTag :: string where "olmo3ThinkCloseTag = ''</think>''"

datatype olmo3ThinkParserState = Olmo3CollectingThink | Olmo3CollectingContent

record Olmo3ThinkParser =
  o3_state :: olmo3ThinkParserState
  o3_buffer :: string

definition new_Olmo3ThinkParser :: Olmo3ThinkParser where
  "new_Olmo3ThinkParser = \<lparr>o3_state = Olmo3CollectingThink, o3_buffer = []\<rparr>"

definition o3_Init :: "Message option \<Rightarrow> Olmo3ThinkParser \<Rightarrow> Olmo3ThinkParser" where
  "o3_Init lastMessage p =
     (if assistant_prefill lastMessage then p\<lparr>o3_state := Olmo3CollectingContent\<rparr>
      else p\<lparr>o3_state := Olmo3CollectingThink\<rparr>)"

type_synonym olmo3Event = "unit event"

definition o3_eat :: "Olmo3ThinkParser \<Rightarrow> olmo3Event list \<times> bool \<times> Olmo3ThinkParser" where
  "o3_eat p =
     (let bufStr = o3_buffer p in
      if bufStr = [] then ([], False, p)
      else
        case o3_state p of
          Olmo3CollectingThink \<Rightarrow>
            (case go_cut bufStr olmo3ThinkCloseTag of
               Some (before, after) \<Rightarrow>
                 (emit EvThinking (trim_right before), True,
                  p\<lparr>o3_buffer := trim_left after, o3_state := Olmo3CollectingContent\<rparr>)
             | None \<Rightarrow>
                 (case withhold [olmo3ThinkCloseTag] bufStr of
                    (unambiguous, ambiguous) \<Rightarrow>
                      (emit EvThinking unambiguous, False, p\<lparr>o3_buffer := ambiguous\<rparr>)))
        | Olmo3CollectingContent \<Rightarrow> (emit EvContent bufStr, False, p\<lparr>o3_buffer := []\<rparr>))"

definition o3_feed :: "string \<Rightarrow> Olmo3ThinkParser \<Rightarrow> Olmo3ThinkParser" where
  "o3_feed s p = p\<lparr>o3_buffer := o3_buffer p @ s\<rparr>"

text \<open>\<open>done\<close> is ignored.\<close>

definition o3_Add ::
  "Olmo3ThinkParser \<Rightarrow> string \<Rightarrow> bool \<Rightarrow> ('a, 'e) added option \<times> Olmo3ThinkParser" where
  "o3_Add p s final =
     (case drain o3_eat (o3_feed s p) [] of
        None \<Rightarrow> (None, p)
      | Some (events, p') \<Rightarrow> (Some (contents events, thinkings events, [], None), p'))"

definition o3_HasToolSupport :: bool where "o3_HasToolSupport = False"
definition o3_HasThinkingSupport :: bool where "o3_HasThinkingSupport = True"
definition o3_PreservedTokens :: "string list" where "o3_PreservedTokens = [olmo3ThinkCloseTag]"

section \<open>The loop returns, and chunk boundaries\<close>

fun o3_rank :: "Olmo3ThinkParser \<Rightarrow> nat" where
  "o3_rank p = (case o3_state p of Olmo3CollectingThink \<Rightarrow> 1 | Olmo3CollectingContent \<Rightarrow> 0)"

lemma o3_tags [simp]: "olmo3ThinkCloseTag \<noteq> []" "good_tags [olmo3ThinkCloseTag]"
proof -
  show "olmo3ThinkCloseTag \<noteq> []" by (simp add: olmo3ThinkCloseTag_def)
  show "good_tags [olmo3ThinkCloseTag]" by code_simp
qed

interpretation o3_loop: event_loop o3_eat o3_rank
  by unfold_locales
    (auto simp: o3_eat_def Let_def split: olmo3ThinkParserState.splits option.splits prod.splits if_splits)

abbreviation o3_shows :: "Olmo3ThinkParser \<Rightarrow> (unit atom list \<times> Olmo3ThinkParser) option" where
  "o3_shows \<equiv> observe o3_eat event_atoms"

text \<open>In the thinking state the test for an empty buffer changes nothing.\<close>

lemma o3_eat_think:
  "o3_state p = Olmo3CollectingThink \<Longrightarrow> o3_eat p =
     (case go_cut (o3_buffer p) olmo3ThinkCloseTag of
        Some (before, after) \<Rightarrow>
          (emit EvThinking (trim_right before), True,
           p\<lparr>o3_buffer := trim_left after, o3_state := Olmo3CollectingContent\<rparr>)
      | None \<Rightarrow>
          (emit EvThinking (fst (withhold [olmo3ThinkCloseTag] (o3_buffer p))), False,
           p\<lparr>o3_buffer := snd (withhold [olmo3ThinkCloseTag] (o3_buffer p))\<rparr>))"
  using withhold_append_eq[of "[olmo3ThinkCloseTag]" "[]"]
  by (cases "withhold [olmo3ThinkCloseTag] []")
    (auto simp: o3_eat_def Let_def go_cut_def emit_def split: option.splits prod.splits)

lemma o3_shows_think:
  "o3_state p = Olmo3CollectingThink \<Longrightarrow> o3_shows p =
     (case go_cut (o3_buffer p) olmo3ThinkCloseTag of
        Some (before, after) \<Rightarrow>
          prepend (map Think (trim_right before))
            (o3_shows (p\<lparr>o3_buffer := trim_left after, o3_state := Olmo3CollectingContent\<rparr>))
      | None \<Rightarrow>
          Some (map Think (fst (withhold [olmo3ThinkCloseTag] (o3_buffer p))),
            p\<lparr>o3_buffer := snd (withhold [olmo3ThinkCloseTag] (o3_buffer p))\<rparr>))"
  by (subst o3_loop.observe_unfold) (simp add: o3_eat_think split: option.splits)

lemma o3_shows_content:
  "o3_state p = Olmo3CollectingContent \<Longrightarrow> o3_shows p = Some (map Content (o3_buffer p), p\<lparr>o3_buffer := []\<rparr>)"
  by (subst o3_loop.observe_unfold) (auto simp: o3_eat_def Let_def)

lemma o3_commute:
  assumes al: "aligned (o3_buffer p)" and c: "ok_chunk c" and e: "o3_eat p = (es, k, p')"
  shows "o3_shows (o3_feed c p) = prepend (atoms event_atoms es) (o3_shows (o3_feed c p'))"
proof (cases "o3_state p")
  case st: Olmo3CollectingThink
  let ?T = "[olmo3ThinkCloseTag]"
  show ?thesis
  proof (cases "go_cut (o3_buffer p) olmo3ThinkCloseTag")
    case (Some ab)
    then obtain a b where ab: "go_cut (o3_buffer p) olmo3ThinkCloseTag = Some (a, b)" by (cases ab) auto
    have "trim_left (b @ c) = trim_left b @ c"
      using ok_chunk_trim_left[OF go_cut_aligned[OF ab al] c] .
    then have "o3_eat (o3_feed c p) = (es, True, o3_feed c p')"
      using e ab go_cut_append[OF ab, of c] st by (auto simp: o3_eat_think o3_feed_def)
    then show ?thesis by (rule o3_loop.observe_step)
  next
    case None
    obtain u h where w: "withhold ?T (o3_buffer p) = (u, h)" by fastforce
    have no: "\<forall>t\<in>set ?T. \<not> go_contains (o3_buffer p) t" using None by (simp add: go_contains_cut)
    note wc = withhold_commute[OF w no o3_tags(2) al, where c = c]
    have p': "es = emit EvThinking u" "p' = p\<lparr>o3_buffer := h\<rparr>"
      using e None w st by (auto simp: o3_eat_think)
    have "trim_right (u @ a) = u @ trim_right a" if "go_cut (h @ c) olmo3ThinkCloseTag = Some (a, b)" for a b
      using withhold_trim_right[OF w o3_tags(2) al go_cut_prefix[OF that]] .
    then show ?thesis
      using wc(1)[of olmo3ThinkCloseTag] wc(5) st
      by (auto simp: o3_shows_think o3_feed_def p' split: option.splits)
  qed
next
  case Olmo3CollectingContent
  then show ?thesis
    using e by (auto simp: o3_shows_content o3_eat_def o3_feed_def Let_def split: if_splits)
qed

lemma o3_eat_fields:
  assumes "o3_eat p = (es, k, p')"
  shows "raw_calls es = []" "aligned (o3_buffer p) \<Longrightarrow> aligned (o3_buffer p')"
  using assms
  by (auto simp: o3_eat_def Let_def emit_def raw_calls_def intro!: aligned_trim_left
      dest: go_cut_aligned withhold_aligned
      split: olmo3ThinkParserState.splits option.splits prod.splits if_splits)

lemma o3_drain_calls:
  assumes "drain o3_eat p [] = Some (es, q)" shows "raw_calls es = []"
proof -
  have "\<forall>e\<in>set es. \<forall>c. e \<noteq> EvCall c"
    by (rule o3_loop.drain_events[of "\<lambda>_. True", OF _ _ assms]) 
      (auto simp: o3_eat_def Let_def emit_def
        split: olmo3ThinkParserState.splits option.splits prod.splits if_splits)
  then show ?thesis by (simp add: raw_calls_Nil)
qed

lemma o3_collect: "drain o3_eat p [] = Some (es, q) \<Longrightarrow> collect parse n es = (Inr (contents es, thinkings es, []), n)"
  by (simp add: collect_eq o3_drain_calls)

interpretation o3_streaming: streaming_parser o3_eat o3_rank o3_feed "\<lambda>p. aligned (o3_buffer p)" ok_chunk
  o3_Add parse "\<lambda>_. 0" "\<lambda>n p. p" "\<lambda>_. []"
  for parse :: "unit \<Rightarrow> 'e + 'a ToolCall"
proof
  fix p p' q :: Olmo3ThinkParser and es k c d s n final e th calls
  show "o3_feed d (o3_feed c p) = o3_feed (c @ d) p" by (simp add: o3_feed_def)
  show "ok_chunk c \<Longrightarrow> ok_chunk d \<Longrightarrow> ok_chunk (c @ d)" by (rule ok_chunk_append)
  show "aligned (o3_buffer p) \<Longrightarrow> ok_chunk c \<Longrightarrow> aligned (o3_buffer (o3_feed c p))"
    by (simp add: o3_feed_def ok_chunk_def aligned_append)
  show "aligned (o3_buffer p) \<Longrightarrow> o3_eat p = (es, k, p') \<Longrightarrow> aligned (o3_buffer p')"
    using o3_eat_fields by blast
  show "aligned (o3_buffer p) \<Longrightarrow> ok_chunk c \<Longrightarrow> o3_eat p = (es, k, p') \<Longrightarrow>
      o3_shows (o3_feed c p) = prepend (atoms event_atoms es) (o3_shows (o3_feed c p'))"
    by (rule o3_commute)
qed (auto simp: o3_collect o3_Add_def)

text \<open>
  Two consequences of the code that its documentation does not say. At the end of the stream the
  held-back text is dropped (\<open>done\<close> is not looked at), and white space after the closing tag is
  trimmed only when it comes in the chunk that completes the tag.
\<close>

lemma o3_end_is_dropped:
  "(stream o3_Add (o3_Init None new_Olmo3ThinkParser) [''if a <'']
      :: (string + string \<times> string \<times> string ToolCall list) option) = Some (Inr ([], ''if a'', []))"
  by code_simp

lemma o3_white_space_after_tag:
  "(stream o3_Add (o3_Init None new_Olmo3ThinkParser) [''a</think> b'']
      :: (string + string \<times> string \<times> string ToolCall list) option) = Some (Inr (''b'', ''a'', []))"
  "(stream o3_Add (o3_Init None new_Olmo3ThinkParser) [''a</think>'', '' b'']
      :: (string + string \<times> string \<times> string ToolCall list) option) = Some (Inr ('' b'', ''a'', []))"
  by code_simp+

section \<open>Properties\<close>



end
