(* ===== verification/DeepSeek3.thy ===== *)
theory DeepSeek3
  imports TagScanner
begin

text \<open>
  \<^verbatim>\<open>model/parsers/deepseek3.go\<close>. The tags contain two runes outside ASCII, written as their
  bytes. \<open>unmarshal\<close> is the outcome of \<^verbatim>\<open>json.Unmarshal\<close> into the arguments of a call, which
  goes through a third-party ordered map.
\<close>

section \<open>Tags\<close>

definition bar_rune :: string where "bar_rune = [CHR 0xEF, CHR 0xBD, CHR 0x9C]"
definition low_rune :: string where "low_rune = [CHR 0xE2, CHR 0x96, CHR 0x81]"

text \<open>A tag is made of its words: angle brackets and bars outside, the low line between them.\<close>

definition ds_tag :: "string list \<Rightarrow> string" where
  "ds_tag ws = ''<'' @ bar_rune @ go_join ws low_rune @ bar_rune @ ''>''"

definition deepseekThinkingCloseTag :: string where "deepseekThinkingCloseTag = ''</think>''"
definition deepseekToolCallsBeginTag :: string where
  "deepseekToolCallsBeginTag = ds_tag [''tool'', ''calls'', ''begin'']"
definition deepseekToolCallsEndTag :: string where
  "deepseekToolCallsEndTag = ds_tag [''tool'', ''calls'', ''end'']"
definition deepseekToolCallBeginTag :: string where
  "deepseekToolCallBeginTag = ds_tag [''tool'', ''call'', ''begin'']"
definition deepseekToolCallEndTag :: string where
  "deepseekToolCallEndTag = ds_tag [''tool'', ''call'', ''end'']"
definition deepseekToolSepTag :: string where "deepseekToolSepTag = ds_tag [''tool'', ''sep'']"
definition deepseekToolOutputBeginTag :: string where
  "deepseekToolOutputBeginTag = ds_tag [''tool'', ''output'', ''begin'']"
definition deepseekToolOutputEndTag :: string where
  "deepseekToolOutputEndTag = ds_tag [''tool'', ''output'', ''end'']"

section \<open>The parser\<close>

datatype DeepSeek3ParserState =
    DeepSeekCollectingThinking
  | DeepSeekCollectingContent
  | DeepSeekCollectingToolCalls
  | DeepSeekCollectingToolOutput

record DeepSeek3Parser =
  ds_state :: DeepSeek3ParserState
  ds_buffer :: string
  ds_callIndex :: nat
  ds_hasThinkingSupport :: bool

definition new_DeepSeek3Parser :: "bool \<Rightarrow> DeepSeek3Parser" where
  "new_DeepSeek3Parser h =
     \<lparr>ds_state = DeepSeekCollectingThinking, ds_buffer = [], ds_callIndex = 0, ds_hasThinkingSupport = h\<rparr>"

definition ds_HasToolSupport :: bool where "ds_HasToolSupport = True"
definition ds_HasThinkingSupport :: "DeepSeek3Parser \<Rightarrow> bool" where
  "ds_HasThinkingSupport p = ds_hasThinkingSupport p"

definition ds_PreservedTokens :: "string list" where
  "ds_PreservedTokens =
     [deepseekThinkingCloseTag, deepseekToolCallsBeginTag, deepseekToolCallsEndTag,
      deepseekToolCallBeginTag, deepseekToolCallEndTag, deepseekToolSepTag,
      deepseekToolOutputBeginTag, deepseekToolOutputEndTag]"

definition ds_setInitialState ::
  "Message option \<Rightarrow> ThinkValue option \<Rightarrow> DeepSeek3Parser \<Rightarrow> DeepSeek3Parser" where
  "ds_setInitialState lastMessage thinkValue p =
     (let thinkingEnabled = (ds_HasThinkingSupport p \<and> thinkValue \<noteq> None \<and> ThinkValue_Bool thinkValue) in
      if \<not> thinkingEnabled then p\<lparr>ds_state := DeepSeekCollectingContent\<rparr>
      else if assistant_prefill lastMessage then p\<lparr>ds_state := DeepSeekCollectingContent\<rparr>
      else p\<lparr>ds_state := DeepSeekCollectingThinking\<rparr>)"

definition ds_Init :: "Message option \<Rightarrow> ThinkValue option \<Rightarrow> DeepSeek3Parser \<Rightarrow> DeepSeek3Parser" where
  "ds_Init lastMessage thinkValue p = ds_setInitialState lastMessage thinkValue (p\<lparr>ds_callIndex := 0\<rparr>)"

datatype 'e deepseek_error = DSFormat | DSJSON 'e

definition ds_parseToolCallContent ::
  "(string \<Rightarrow> 'e + 'a) \<Rightarrow> string \<Rightarrow> 'e deepseek_error + 'a ToolCall" where
  "ds_parseToolCallContent unmarshal content =
     (case go_cut content deepseekToolSepTag of
        None \<Rightarrow> Inl DSFormat
      | Some (part0, part1) \<Rightarrow>
          (case unmarshal (trim_space part1) of
             Inl e \<Rightarrow> Inl (DSJSON e)
           | Inr args \<Rightarrow> Inr \<lparr>tc_Index = 0, tc_Name = trim_space part0, tc_Arguments = args\<rparr>))"

type_synonym 'a deepseekEvent = "'a ToolCall event"

text \<open>
  The first complete call in the buffer: its content, and what follows its end tag. A begin tag
  without an end tag after it is no complete call.
\<close>

definition ds_next_call :: "string \<Rightarrow> string \<Rightarrow> string \<Rightarrow> (string \<times> string) option" where
  "ds_next_call beginTag endTag bufStr =
     (case go_index bufStr beginTag of
        None \<Rightarrow> None
      | Some idx \<Rightarrow> go_cut (drop (idx + length beginTag) bufStr) endTag)"

definition ds_eat ::
  "(string \<Rightarrow> 'e + 'a) \<Rightarrow> DeepSeek3Parser \<Rightarrow> 'a deepseekEvent list \<times> bool \<times> DeepSeek3Parser" where
  "ds_eat unmarshal p =
     (let bufStr = ds_buffer p in
      if bufStr = [] then ([], False, p)
      else
        case ds_state p of
          DeepSeekCollectingThinking \<Rightarrow>
            (case go_cut bufStr deepseekThinkingCloseTag of
               Some (thinking, remaining) \<Rightarrow>
                 (emit EvThinking (trim_right thinking), True,
                  p\<lparr>ds_buffer := trim_left remaining, ds_state := DeepSeekCollectingContent\<rparr>)
             | None \<Rightarrow>
                 (case withhold [deepseekThinkingCloseTag] bufStr of
                    (unambiguous, ambiguous) \<Rightarrow>
                      (emit EvThinking unambiguous, False, p\<lparr>ds_buffer := ambiguous\<rparr>)))
        | DeepSeekCollectingContent \<Rightarrow>
            (case go_cut bufStr deepseekToolCallsBeginTag of
               Some (contentBefore, remaining) \<Rightarrow>
                 (emit EvContent (trim_right contentBefore), True,
                  p\<lparr>ds_buffer := remaining, ds_state := DeepSeekCollectingToolCalls\<rparr>)
             | None \<Rightarrow>
                 (case go_cut bufStr deepseekToolOutputBeginTag of
                    Some (contentBefore, remaining) \<Rightarrow>
                      (emit EvContent contentBefore, True,
                       p\<lparr>ds_buffer := remaining, ds_state := DeepSeekCollectingToolOutput\<rparr>)
                  | None \<Rightarrow> (emit EvContent bufStr, False, p\<lparr>ds_buffer := []\<rparr>)))
        | DeepSeekCollectingToolCalls \<Rightarrow>
            (let calls_end =
               (case go_cut bufStr deepseekToolCallsEndTag of
                  Some (_, remaining) \<Rightarrow>
                    ([], True, p\<lparr>ds_buffer := trim_left remaining, ds_state := DeepSeekCollectingContent\<rparr>)
                | None \<Rightarrow> ([], False, p))
             in case ds_next_call deepseekToolCallBeginTag deepseekToolCallEndTag bufStr of
                  None \<Rightarrow> calls_end
                | Some (toolCallContent, remaining) \<Rightarrow>
                    (case ds_parseToolCallContent unmarshal toolCallContent of
                       Inr toolCall \<Rightarrow> ([EvCall toolCall], True, p\<lparr>ds_buffer := trim_left remaining\<rparr>)
                     | Inl _ \<Rightarrow> calls_end))
        | DeepSeekCollectingToolOutput \<Rightarrow>
            (case go_cut bufStr deepseekToolOutputEndTag of
               Some (toolOutputContent, remaining) \<Rightarrow>
                 (emit EvContent toolOutputContent, True,
                  p\<lparr>ds_buffer := remaining, ds_state := DeepSeekCollectingContent\<rparr>)
             | None \<Rightarrow> ([], False, p)))"

definition ds_feed :: "string \<Rightarrow> DeepSeek3Parser \<Rightarrow> DeepSeek3Parser" where
  "ds_feed s p = p\<lparr>ds_buffer := ds_buffer p @ s\<rparr>"

text \<open>\<open>done\<close> is ignored, and there is no error: a call that cannot be parsed is logged.\<close>

definition ds_Add ::
  "(string \<Rightarrow> 'e + 'a) \<Rightarrow> DeepSeek3Parser \<Rightarrow> string \<Rightarrow> bool \<Rightarrow> ('a, unit) added option \<times> DeepSeek3Parser" where
  "ds_Add unmarshal p s final =
     (case drain (ds_eat unmarshal) (ds_feed s p) [] of
        None \<Rightarrow> (None, p)
      | Some (events, p') \<Rightarrow>
          (Some (contents events, thinkings events, index_from (ds_callIndex p') (raw_calls events), None),
           p'\<lparr>ds_callIndex := ds_callIndex p' + length (raw_calls events)\<rparr>))"

section \<open>The loop returns\<close>

lemma ds_tags [simp]:
  "deepseekThinkingCloseTag \<noteq> []" "deepseekToolCallsBeginTag \<noteq> []" "deepseekToolCallsEndTag \<noteq> []"
  "deepseekToolCallBeginTag \<noteq> []" "deepseekToolCallEndTag \<noteq> []" "deepseekToolSepTag \<noteq> []"
  "deepseekToolOutputBeginTag \<noteq> []" "deepseekToolOutputEndTag \<noteq> []"
  by code_simp+

lemma ds_next_call_shorter:
  "ds_next_call b e s = Some (c, r) \<Longrightarrow> e \<noteq> [] \<Longrightarrow> length r < length s"
  by (auto simp: ds_next_call_def split: option.splits dest: go_cut_shorter)

interpretation ds_loop: event_loop "ds_eat unmarshal" "\<lambda>p. length (ds_buffer p)" for unmarshal
proof
  fix unmarshal and p :: DeepSeek3Parser and es p'
  assume "ds_eat unmarshal p = (es, True, p')"
  then show "length (ds_buffer p') < length (ds_buffer p)"
    by (auto simp: ds_eat_def Let_def split: DeepSeek3ParserState.splits option.splits sum.splits
        prod.splits if_splits dest!: go_cut_shorter ds_next_call_shorter
        intro: le_less_trans[OF length_trim_left])
qed

lemma ds_eat_callIndex: "ds_eat unmarshal p = (es, k, p') \<Longrightarrow> ds_callIndex p' = ds_callIndex p"
  by (auto simp: ds_eat_def Let_def split: DeepSeek3ParserState.splits option.splits sum.splits
      prod.splits if_splits)

lemma ds_drain_callIndex:
  assumes "drain (ds_eat unmarshal) p [] = Some (es, q)" shows "ds_callIndex q = ds_callIndex p"
  by (rule ds_loop.drain_invariant[of "\<lambda>x. ds_callIndex x = ds_callIndex p", OF _ _ assms])
    (auto dest: ds_eat_callIndex)

lemma ds_Add_eq:
  assumes "drain (ds_eat unmarshal) (ds_feed s p) [] = Some (es, q)"
  shows "ds_Add unmarshal p s final =
    (Some (contents es, thinkings es, index_from (ds_callIndex p) (raw_calls es), None),
     q\<lparr>ds_callIndex := ds_callIndex p + length (raw_calls es)\<rparr>)"
  using assms ds_drain_callIndex[OF assms] by (simp add: ds_Add_def ds_feed_def)

interpretation ds_calls: call_numbering "ds_Add unmarshal" ds_callIndex for unmarshal
proof
  fix p s final c th calls p'
  assume a: "ds_Add unmarshal p s final = (Some (c, th, calls, None), p')"
  obtain es q where d: "drain (ds_eat unmarshal) (ds_feed s p) [] = Some (es, q)"
    using ds_loop.drain_Some by blast
  show "ds_callIndex p' = ds_callIndex p + length calls
      \<and> map tc_Index calls = [ds_callIndex p..<ds_callIndex p + length calls]"
    using a by (auto simp: ds_Add_eq[OF d] index_from_numbers)
qed

lemma ds_Add_returns: "fst (ds_Add unmarshal p s final) \<noteq> None"
proof -
  obtain es q where d: "drain (ds_eat unmarshal) (ds_feed s p) [] = Some (es, q)"
    using ds_loop.drain_Some by blast
  show ?thesis by (simp add: ds_Add_eq[OF d])
qed

section \<open>The wire format of calls\<close>

definition ds_render_call :: "string \<times> string \<Rightarrow> string" where
  "ds_render_call call =
     deepseekToolCallBeginTag @ fst call @ deepseekToolSepTag @ snd call @ deepseekToolCallEndTag"

definition ds_render :: "(string \<times> string) list \<Rightarrow> string" where
  "ds_render calls = deepseekToolCallsBeginTag @ concat (map ds_render_call calls) @ deepseekToolCallsEndTag"

text \<open>A call whose texts contain no angle bracket, and no white space around them.\<close>

definition ds_plain :: "string \<Rightarrow> bool" where
  "ds_plain s \<longleftrightarrow> CHR ''<'' \<notin> set s \<and> trim_space s = s"

lemma ds_tags_apart:
  "apart deepseekToolSepTag deepseekToolCallEndTag"
  "hd deepseekToolSepTag = CHR ''<''" "hd deepseekToolCallEndTag = CHR ''<''" "hd deepseekToolCallBeginTag = CHR ''<''"
  "hd deepseekToolCallsBeginTag = CHR ''<''" "hd deepseekToolOutputBeginTag = CHR ''<''" "hd deepseekToolCallsEndTag = CHR ''<''"
  "go_index deepseekToolCallsEndTag deepseekToolCallBeginTag = None"
  by code_simp+

lemma ds_parse_rendered:
  assumes "ds_plain name" "ds_plain args" "unmarshal args = Inr v"
  shows "ds_parseToolCallContent unmarshal (name @ deepseekToolSepTag @ args)
    = Inr \<lparr>tc_Index = 0, tc_Name = name, tc_Arguments = v\<rparr>"
proof -
  have "go_index (name @ deepseekToolSepTag @ args) deepseekToolSepTag = Some (length name)"
    using assms(1) by (subst go_index_skip) (simp_all add: ds_plain_def ds_tags_apart)
  from go_cut_at[OF this] show ?thesis
    using assms by (simp add: ds_parseToolCallContent_def ds_plain_def)
qed

lemma ds_next_rendered:
  assumes "ds_plain name" "ds_plain args"
  shows "ds_next_call deepseekToolCallBeginTag deepseekToolCallEndTag (ds_render_call (name, args) @ r)
    = Some (name @ deepseekToolSepTag @ args, r)"
proof -
  have "go_index (args @ deepseekToolCallEndTag @ r) deepseekToolCallEndTag = Some (length args)"
    using assms(2) by (subst go_index_skip) (simp_all add: ds_plain_def ds_tags_apart)
  then have "go_index (deepseekToolSepTag @ args @ deepseekToolCallEndTag @ r) deepseekToolCallEndTag
      = Some (length (deepseekToolSepTag @ args))"
    by (subst go_index_apart[OF ds_tags_apart(1)]) simp
  then have "go_index (name @ deepseekToolSepTag @ args @ deepseekToolCallEndTag @ r) deepseekToolCallEndTag
      = Some (length (name @ deepseekToolSepTag @ args))"
    using assms(1) by (subst go_index_skip) (simp_all add: ds_plain_def ds_tags_apart)
  then have "go_cut (name @ deepseekToolSepTag @ args @ deepseekToolCallEndTag @ r) deepseekToolCallEndTag
      = Some (name @ deepseekToolSepTag @ args, r)"
    using go_cut_at[of "name @ deepseekToolSepTag @ args"] by simp
  then show ?thesis by (simp add: ds_next_call_def ds_render_call_def)
qed

lemma ds_drain_calls:
  assumes "ds_state p = DeepSeekCollectingToolCalls"
    "\<forall>c\<in>set calls. ds_plain (fst c) \<and> ds_plain (snd c) \<and> unmarshal (snd c) = Inr (v (snd c))"
    "ds_buffer p = concat (map ds_render_call calls) @ deepseekToolCallsEndTag"
  shows "drain (ds_eat unmarshal) p [] =
    Some (map (\<lambda>c. EvCall \<lparr>tc_Index = 0, tc_Name = fst c, tc_Arguments = v (snd c)\<rparr>) calls,
      p\<lparr>ds_buffer := [], ds_state := DeepSeekCollectingContent\<rparr>)"
  using assms
proof (induction calls arbitrary: p)
  case Nil
  have "go_cut deepseekToolCallsEndTag deepseekToolCallsEndTag = Some ([], [])"
    using go_cut_at[of "[]" deepseekToolCallsEndTag "[]"] go_index_here[of deepseekToolCallsEndTag "[]"] by simp
  then have "ds_eat unmarshal p = ([], True, p\<lparr>ds_buffer := [], ds_state := DeepSeekCollectingContent\<rparr>)"
    using Nil by (simp add: ds_eat_def ds_next_call_def ds_tags_apart)
  then show ?case
    by (subst ds_loop.drain_unfold, simp, subst ds_loop.drain_unfold, simp add: ds_eat_def)
next
  case (Cons c calls)
  let ?r = "concat (map ds_render_call calls) @ deepseekToolCallsEndTag"
  obtain name args where c: "c = (name, args)" by (cases c) auto
  have "hd ?r = CHR ''<''" "?r \<noteq> []"
    by (cases calls; simp add: ds_render_call_def ds_tags_apart)+
  then have trim: "trim_left ?r = ?r" using trim_left_bracket(1)[of "tl ?r"] by (cases ?r) auto
  have "ds_render_call c \<noteq> []" by (simp add: ds_render_call_def)
  then have "ds_eat unmarshal p =
      ([EvCall \<lparr>tc_Index = 0, tc_Name = name, tc_Arguments = v args\<rparr>], True, p\<lparr>ds_buffer := ?r\<rparr>)"
    using Cons.prems c ds_parse_rendered[of name args unmarshal "v args"] ds_next_rendered[of name args ?r] trim
    by (simp add: ds_eat_def Let_def)
  moreover have "drain (ds_eat unmarshal) (p\<lparr>ds_buffer := ?r\<rparr>) [] =
    Some (map (\<lambda>c. EvCall \<lparr>tc_Index = 0, tc_Name = fst c, tc_Arguments = v (snd c)\<rparr>) calls,
      p\<lparr>ds_buffer := [], ds_state := DeepSeekCollectingContent\<rparr>)"
    using Cons.IH[of "p\<lparr>ds_buffer := ?r\<rparr>"] Cons.prems by simp
  ultimately show ?case using c by (subst ds_loop.drain_unfold) simp
qed

section \<open>Properties\<close>



end
