(* ===== verification/Cogito.thy ===== *)
theory Cogito
  imports DeepSeek3
begin

text \<open>
  \<^verbatim>\<open>model/parsers/cogito.go\<close>. The tags are those of DeepSeek plus a pair around the tool
  outputs; the calls are written differently, and tool output is dropped.
\<close>

section \<open>Tags\<close>

definition cogitoThinkingCloseTag :: string where "cogitoThinkingCloseTag = ''</think>''"
definition cogitoToolCallsBeginTag :: string where
  "cogitoToolCallsBeginTag = ds_tag [''tool'', ''calls'', ''begin'']"
definition cogitoToolCallsEndTag :: string where
  "cogitoToolCallsEndTag = ds_tag [''tool'', ''calls'', ''end'']"
definition cogitoToolCallBeginTag :: string where
  "cogitoToolCallBeginTag = ds_tag [''tool'', ''call'', ''begin'']"
definition cogitoToolCallEndTag :: string where
  "cogitoToolCallEndTag = ds_tag [''tool'', ''call'', ''end'']"
definition cogitoToolSepTag :: string where "cogitoToolSepTag = ds_tag [''tool'', ''sep'']"
definition cogitoToolOutputBeginTag :: string where
  "cogitoToolOutputBeginTag = ds_tag [''tool'', ''output'', ''begin'']"
definition cogitoToolOutputEndTag :: string where
  "cogitoToolOutputEndTag = ds_tag [''tool'', ''output'', ''end'']"
definition cogitoToolOutputsBeginTag :: string where
  "cogitoToolOutputsBeginTag = ds_tag [''tool'', ''outputs'', ''begin'']"
definition cogitoToolOutputsEndTag :: string where
  "cogitoToolOutputsEndTag = ds_tag [''tool'', ''outputs'', ''end'']"

section \<open>The parser\<close>

datatype CogitoParserState =
    CogitoCollectingThinking
  | CogitoCollectingContent
  | CogitoCollectingToolCalls
  | CogitoCollectingToolOutput

record CogitoParser =
  cg_state :: CogitoParserState
  cg_buffer :: string
  cg_callIndex :: nat

definition new_CogitoParser :: CogitoParser where
  "new_CogitoParser = \<lparr>cg_state = CogitoCollectingThinking, cg_buffer = [], cg_callIndex = 0\<rparr>"

definition cg_HasToolSupport :: bool where "cg_HasToolSupport = True"
definition cg_HasThinkingSupport :: bool where "cg_HasThinkingSupport = True"

definition cg_PreservedTokens :: "string list" where
  "cg_PreservedTokens =
     [cogitoThinkingCloseTag, cogitoToolCallsBeginTag, cogitoToolCallsEndTag, cogitoToolCallBeginTag,
      cogitoToolCallEndTag, cogitoToolSepTag, cogitoToolOutputBeginTag, cogitoToolOutputEndTag,
      cogitoToolOutputsBeginTag, cogitoToolOutputsEndTag]"

definition cg_setInitialState ::
  "Message option \<Rightarrow> 'p Tool list \<Rightarrow> ThinkValue option \<Rightarrow> CogitoParser \<Rightarrow> CogitoParser" where
  "cg_setInitialState lastMessage tools thinkValue p =
     (let thinkingEnabled = (thinkValue \<noteq> None \<and> ThinkValue_Bool thinkValue) in
      if \<not> thinkingEnabled then p\<lparr>cg_state := CogitoCollectingContent\<rparr>
      else if assistant_prefill lastMessage then p\<lparr>cg_state := CogitoCollectingContent\<rparr>
      else if length tools > 0 then p\<lparr>cg_state := CogitoCollectingContent\<rparr>
      else p\<lparr>cg_state := CogitoCollectingThinking\<rparr>)"

definition cg_Init ::
  "'p Tool list \<Rightarrow> Message option \<Rightarrow> ThinkValue option \<Rightarrow> CogitoParser \<Rightarrow> CogitoParser" where
  "cg_Init tools lastMessage thinkValue p =
     cg_setInitialState lastMessage tools thinkValue (p\<lparr>cg_callIndex := 0\<rparr>)"

datatype 'e cogito_error = CGFormat | CGJSON 'e

definition json_open :: string where "json_open = [CHR 0x0A] @ ''```json'' @ [CHR 0x0A]"
definition json_close :: string where "json_close = [CHR 0x0A] @ ''```''"

definition cg_parseToolCallContent ::
  "(string \<Rightarrow> 'e + 'a) \<Rightarrow> string \<Rightarrow> 'e cogito_error + 'a ToolCall" where
  "cg_parseToolCallContent unmarshal content =
     (case go_cut content cogitoToolSepTag of
        None \<Rightarrow> Inl CGFormat
      | Some (_, nameAndArgs) \<Rightarrow>
          (case go_cut nameAndArgs json_open of
             None \<Rightarrow> Inl CGFormat
           | Some (name, jsonContent) \<Rightarrow>
               (case go_index jsonContent json_close of
                  None \<Rightarrow> Inl CGFormat
                | Some jsonEnd \<Rightarrow>
                    (case unmarshal (take jsonEnd jsonContent) of
                       Inl e \<Rightarrow> Inl (CGJSON e)
                     | Inr args \<Rightarrow> Inr \<lparr>tc_Index = 0, tc_Name = trim_space name, tc_Arguments = args\<rparr>))))"

type_synonym 'a cogitoEvent = "'a ToolCall event"

definition cg_eat ::
  "(string \<Rightarrow> 'e + 'a) \<Rightarrow> CogitoParser \<Rightarrow> 'a cogitoEvent list \<times> bool \<times> CogitoParser" where
  "cg_eat unmarshal p =
     (let bufStr = cg_buffer p in
      if bufStr = [] then ([], False, p)
      else
        case cg_state p of
          CogitoCollectingThinking \<Rightarrow>
            (case go_cut bufStr cogitoThinkingCloseTag of
               Some (thinking, remaining) \<Rightarrow>
                 (emit EvThinking (trim_right thinking), True,
                  p\<lparr>cg_buffer := trim_left remaining, cg_state := CogitoCollectingContent\<rparr>)
             | None \<Rightarrow>
                 (case withhold [cogitoThinkingCloseTag] bufStr of
                    (unambiguous, ambiguous) \<Rightarrow>
                      (emit EvThinking unambiguous, False, p\<lparr>cg_buffer := ambiguous\<rparr>)))
        | CogitoCollectingContent \<Rightarrow>
            (case go_cut bufStr cogitoToolCallsBeginTag of
               Some (contentBefore, remaining) \<Rightarrow>
                 (emit EvContent (trim_right contentBefore), True,
                  p\<lparr>cg_buffer := remaining, cg_state := CogitoCollectingToolCalls\<rparr>)
             | None \<Rightarrow>
                 (case go_cut bufStr cogitoToolOutputsBeginTag of
                    Some (contentBefore, remaining) \<Rightarrow>
                      (emit EvContent (trim_right contentBefore), True,
                       p\<lparr>cg_buffer := remaining, cg_state := CogitoCollectingToolOutput\<rparr>)
                  | None \<Rightarrow> (emit EvContent bufStr, False, p\<lparr>cg_buffer := []\<rparr>)))
        | CogitoCollectingToolCalls \<Rightarrow>
            (let calls_end =
               (case go_cut bufStr cogitoToolCallsEndTag of
                  Some (_, remaining) \<Rightarrow>
                    ([], True, p\<lparr>cg_buffer := trim_left remaining, cg_state := CogitoCollectingContent\<rparr>)
                | None \<Rightarrow> ([], False, p))
             in case ds_next_call cogitoToolCallBeginTag cogitoToolCallEndTag bufStr of
                  None \<Rightarrow> calls_end
                | Some (toolCallContent, remaining) \<Rightarrow>
                    (case cg_parseToolCallContent unmarshal toolCallContent of
                       Inr toolCall \<Rightarrow> ([EvCall toolCall], True, p\<lparr>cg_buffer := trim_left remaining\<rparr>)
                     | Inl _ \<Rightarrow> calls_end))
        | CogitoCollectingToolOutput \<Rightarrow>
            (case ds_next_call cogitoToolOutputBeginTag cogitoToolOutputEndTag bufStr of
               Some (_, remaining) \<Rightarrow> ([], True, p\<lparr>cg_buffer := trim_left remaining\<rparr>)
             | None \<Rightarrow>
                 (case go_cut bufStr cogitoToolOutputsEndTag of
                    Some (_, remaining) \<Rightarrow>
                      ([], True, p\<lparr>cg_buffer := trim_left remaining, cg_state := CogitoCollectingContent\<rparr>)
                  | None \<Rightarrow> ([], False, p))))"

definition cg_feed :: "string \<Rightarrow> CogitoParser \<Rightarrow> CogitoParser" where
  "cg_feed s p = p\<lparr>cg_buffer := cg_buffer p @ s\<rparr>"

text \<open>\<open>done\<close> is ignored, and there is no error: a call that cannot be parsed is logged.\<close>

definition cg_Add ::
  "(string \<Rightarrow> 'e + 'a) \<Rightarrow> CogitoParser \<Rightarrow> string \<Rightarrow> bool \<Rightarrow> ('a, unit) added option \<times> CogitoParser" where
  "cg_Add unmarshal p s final =
     (case drain (cg_eat unmarshal) (cg_feed s p) [] of
        None \<Rightarrow> (None, p)
      | Some (events, p') \<Rightarrow>
          (Some (contents events, thinkings events, index_from (cg_callIndex p') (raw_calls events), None),
           p'\<lparr>cg_callIndex := cg_callIndex p' + length (raw_calls events)\<rparr>))"

section \<open>The loop returns\<close>

lemma cg_tags [simp]:
  "cogitoThinkingCloseTag \<noteq> []" "cogitoToolCallsBeginTag \<noteq> []" "cogitoToolCallsEndTag \<noteq> []"
  "cogitoToolCallBeginTag \<noteq> []" "cogitoToolCallEndTag \<noteq> []" "cogitoToolSepTag \<noteq> []"
  "cogitoToolOutputBeginTag \<noteq> []" "cogitoToolOutputEndTag \<noteq> []" "cogitoToolOutputsBeginTag \<noteq> []"
  "cogitoToolOutputsEndTag \<noteq> []" "json_open \<noteq> []" "json_close \<noteq> []"
  by code_simp+

interpretation cg_loop: event_loop "cg_eat unmarshal" "\<lambda>p. length (cg_buffer p)" for unmarshal
proof
  fix unmarshal and p :: CogitoParser and es p'
  assume "cg_eat unmarshal p = (es, True, p')"
  then show "length (cg_buffer p') < length (cg_buffer p)"
    by (auto simp: cg_eat_def Let_def split: CogitoParserState.splits option.splits sum.splits
        prod.splits if_splits dest!: go_cut_shorter ds_next_call_shorter
        intro: le_less_trans[OF length_trim_left])
qed

lemma cg_eat_callIndex: "cg_eat unmarshal p = (es, k, p') \<Longrightarrow> cg_callIndex p' = cg_callIndex p"
  by (auto simp: cg_eat_def Let_def split: CogitoParserState.splits option.splits sum.splits
      prod.splits if_splits)

lemma cg_drain_callIndex:
  assumes "drain (cg_eat unmarshal) p [] = Some (es, q)" shows "cg_callIndex q = cg_callIndex p"
  by (rule cg_loop.drain_invariant[of "\<lambda>x. cg_callIndex x = cg_callIndex p", OF _ _ assms])
    (auto dest: cg_eat_callIndex)

lemma cg_Add_eq:
  assumes "drain (cg_eat unmarshal) (cg_feed s p) [] = Some (es, q)"
  shows "cg_Add unmarshal p s final =
    (Some (contents es, thinkings es, index_from (cg_callIndex p) (raw_calls es), None),
     q\<lparr>cg_callIndex := cg_callIndex p + length (raw_calls es)\<rparr>)"
  using assms cg_drain_callIndex[OF assms] by (simp add: cg_Add_def cg_feed_def)

interpretation cg_calls: call_numbering "cg_Add unmarshal" cg_callIndex for unmarshal
proof
  fix p s final c th calls p'
  assume a: "cg_Add unmarshal p s final = (Some (c, th, calls, None), p')"
  obtain es q where d: "drain (cg_eat unmarshal) (cg_feed s p) [] = Some (es, q)"
    using cg_loop.drain_Some by blast
  show "cg_callIndex p' = cg_callIndex p + length calls
      \<and> map tc_Index calls = [cg_callIndex p..<cg_callIndex p + length calls]"
    using a by (auto simp: cg_Add_eq[OF d] index_from_numbers)
qed

lemma cg_Add_returns: "fst (cg_Add unmarshal p s final) \<noteq> None"
proof -
  obtain es q where d: "drain (cg_eat unmarshal) (cg_feed s p) [] = Some (es, q)"
    using cg_loop.drain_Some by blast
  show ?thesis by (simp add: cg_Add_eq[OF d])
qed

section \<open>The wire format of calls\<close>

definition cg_call_body :: "string \<times> string \<Rightarrow> string" where
  "cg_call_body call =
     ''function'' @ cogitoToolSepTag @ fst call @ json_open @ snd call @ json_close"

definition cg_render_call :: "string \<times> string \<Rightarrow> string" where
  "cg_render_call call = cogitoToolCallBeginTag @ cg_call_body call @ cogitoToolCallEndTag"

definition cg_render :: "(string \<times> string) list \<Rightarrow> string" where
  "cg_render calls = cogitoToolCallsBeginTag @ concat (map cg_render_call calls) @ cogitoToolCallsEndTag"

text \<open>A call whose texts contain no angle bracket and no newline, and whose name has no white
  space around it.\<close>

definition cg_plain :: "string \<times> string \<Rightarrow> bool" where
  "cg_plain c \<longleftrightarrow> CHR ''<'' \<notin> set (fst c) \<and> CHR ''<'' \<notin> set (snd c)
     \<and> CHR 0x0A \<notin> set (fst c) \<and> CHR 0x0A \<notin> set (snd c) \<and> trim_space (fst c) = fst c"

lemma cg_tags_apart:
  "apart cogitoToolSepTag cogitoToolCallEndTag"
  "hd cogitoToolSepTag = CHR ''<''" "hd cogitoToolCallEndTag = CHR ''<''" "hd cogitoToolCallBeginTag = CHR ''<''"
  "hd cogitoToolCallsBeginTag = CHR ''<''" "hd cogitoToolCallsEndTag = CHR ''<''"
  "go_index cogitoToolCallsEndTag cogitoToolCallBeginTag = None"
  "hd json_open = CHR 0x0A" "hd json_close = CHR 0x0A" "CHR ''<'' \<notin> set ''function''"
  "CHR ''<'' \<notin> set json_open" "CHR ''<'' \<notin> set json_close"
  by code_simp+

lemma cg_parse_rendered:
  assumes "cg_plain (name, args)" "unmarshal args = Inr v"
  shows "cg_parseToolCallContent unmarshal (cg_call_body (name, args))
    = Inr \<lparr>tc_Index = 0, tc_Name = name, tc_Arguments = v\<rparr>"
proof -
  let ?r = "name @ json_open @ args @ json_close"
  have "go_index (''function'' @ cogitoToolSepTag @ ?r) cogitoToolSepTag = Some (length ''function'')"
    using cg_tags_apart(10) by (subst go_index_skip) (simp_all add: cg_tags_apart)
  then have 1: "go_cut (''function'' @ cogitoToolSepTag @ ?r) cogitoToolSepTag = Some (''function'', ?r)"
    by (rule go_cut_at)
  have "go_index (name @ json_open @ args @ json_close) json_open = Some (length name)"
    using assms(1) by (subst go_index_skip) (simp_all add: cg_plain_def cg_tags_apart)
  then have 2: "go_cut ?r json_open = Some (name, args @ json_close)" by (rule go_cut_at)
  have 3: "go_index (args @ json_close) json_close = Some (length args)"
    using assms(1) go_index_here[of json_close "[]"]
    by (subst go_index_skip) (simp_all add: cg_plain_def cg_tags_apart)
  show ?thesis
    unfolding cg_parseToolCallContent_def cg_call_body_def fst_conv snd_conv 1
    using 2 3 assms by (simp add: cg_plain_def)
qed

lemma cg_next_rendered:
  assumes "cg_plain (name, args)"
  shows "ds_next_call cogitoToolCallBeginTag cogitoToolCallEndTag (cg_render_call (name, args) @ r)
    = Some (cg_call_body (name, args), r)"
proof -
  let ?t = "cogitoToolCallEndTag @ r"
  let ?s = "name @ json_open @ args @ json_close"
  have "CHR ''<'' \<notin> set ?s" using assms cg_tags_apart by (simp add: cg_plain_def)
  then have "go_index (?s @ ?t) cogitoToolCallEndTag = Some (length ?s)"
    by (subst go_index_skip) (simp_all add: cg_tags_apart)
  then have "go_index (cogitoToolSepTag @ (?s @ ?t)) cogitoToolCallEndTag
      = Some (length (cogitoToolSepTag @ ?s))"
    by (subst go_index_apart[OF cg_tags_apart(1)]) simp
  then have "go_index (''function'' @ (cogitoToolSepTag @ (?s @ ?t))) cogitoToolCallEndTag
      = Some (length (''function'' @ cogitoToolSepTag @ ?s))"
    using cg_tags_apart(10) by (subst go_index_skip) (simp_all add: cg_tags_apart)
  then have "go_cut (cg_call_body (name, args) @ ?t) cogitoToolCallEndTag = Some (cg_call_body (name, args), r)"
    using go_cut_at[of "cg_call_body (name, args)" cogitoToolCallEndTag r] by (simp add: cg_call_body_def)
  then show ?thesis by (simp add: ds_next_call_def cg_render_call_def)
qed

lemma cg_drain_calls:
  assumes "cg_state p = CogitoCollectingToolCalls"
    "\<forall>c\<in>set calls. cg_plain c \<and> unmarshal (snd c) = Inr (v (snd c))"
    "cg_buffer p = concat (map cg_render_call calls) @ cogitoToolCallsEndTag"
  shows "drain (cg_eat unmarshal) p [] =
    Some (map (\<lambda>c. EvCall \<lparr>tc_Index = 0, tc_Name = fst c, tc_Arguments = v (snd c)\<rparr>) calls,
      p\<lparr>cg_buffer := [], cg_state := CogitoCollectingContent\<rparr>)"
  using assms
proof (induction calls arbitrary: p)
  case Nil
  have "go_cut cogitoToolCallsEndTag cogitoToolCallsEndTag = Some ([], [])"
    using go_cut_at[of "[]" cogitoToolCallsEndTag "[]"] go_index_here[of cogitoToolCallsEndTag "[]"] by simp
  then have "cg_eat unmarshal p = ([], True, p\<lparr>cg_buffer := [], cg_state := CogitoCollectingContent\<rparr>)"
    using Nil by (simp add: cg_eat_def ds_next_call_def cg_tags_apart)
  then show ?case
    by (subst cg_loop.drain_unfold, simp, subst cg_loop.drain_unfold, simp add: cg_eat_def)
next
  case (Cons c calls)
  let ?r = "concat (map cg_render_call calls) @ cogitoToolCallsEndTag"
  obtain name args where c: "c = (name, args)" by (cases c) auto
  have "hd ?r = CHR ''<''" "?r \<noteq> []"
    by (cases calls; simp add: cg_render_call_def cg_tags_apart)+
  then have trim: "trim_left ?r = ?r" using trim_left_bracket(1)[of "tl ?r"] by (cases ?r) auto
  have "cg_render_call c \<noteq> []" by (simp add: cg_render_call_def)
  then have "cg_eat unmarshal p =
      ([EvCall \<lparr>tc_Index = 0, tc_Name = name, tc_Arguments = v args\<rparr>], True, p\<lparr>cg_buffer := ?r\<rparr>)"
    using Cons.prems c cg_parse_rendered[of name args unmarshal "v args"] cg_next_rendered[of name args ?r] trim
    by (simp add: cg_eat_def Let_def)
  moreover have "drain (cg_eat unmarshal) (p\<lparr>cg_buffer := ?r\<rparr>) [] =
    Some (map (\<lambda>c. EvCall \<lparr>tc_Index = 0, tc_Name = fst c, tc_Arguments = v (snd c)\<rparr>) calls,
      p\<lparr>cg_buffer := [], cg_state := CogitoCollectingContent\<rparr>)"
    using Cons.IH[of "p\<lparr>cg_buffer := ?r\<rparr>"] Cons.prems by simp
  ultimately show ?case using c by (subst cg_loop.drain_unfold) simp
qed

section \<open>Properties\<close>

text \<open>
  Calls written in the wire format of cogito are read back: text followed by a block of calls
  gives that text (without its trailing white space) and exactly these calls, in order, numbered
  on from the parser's counter, and the parser is ready for content again.
\<close>

theorem cg_Add_rendered:
  assumes "cg_state p = CogitoCollectingContent" "cg_buffer p = []" "CHR ''<'' \<notin> set content"
    "\<forall>c\<in>set calls. cg_plain c \<and> unmarshal (snd c) = Inr (v (snd c))"
  shows "cg_Add unmarshal p (content @ cg_render calls) final =
    (Some (trim_right content, [],
       index_from (cg_callIndex p)
         (map (\<lambda>c. \<lparr>tc_Index = 0, tc_Name = fst c, tc_Arguments = v (snd c)\<rparr>) calls), None),
     p\<lparr>cg_callIndex := cg_callIndex p + length calls\<rparr>)"
proof -
  let ?r = "concat (map cg_render_call calls) @ cogitoToolCallsEndTag"
  let ?evs = "map (\<lambda>c. EvCall \<lparr>tc_Index = 0, tc_Name = fst c, tc_Arguments = v (snd c)\<rparr>) calls"
  have whole: "content @ cg_render calls = content @ cogitoToolCallsBeginTag @ ?r" by (simp add: cg_render_def)
  have "go_index (content @ cogitoToolCallsBeginTag @ ?r) cogitoToolCallsBeginTag = Some (length content)"
    using assms(3) by (subst go_index_skip) (simp_all add: cg_tags_apart)
  from go_cut_at[OF this] have "cg_eat unmarshal (cg_feed (content @ cg_render calls) p)
      = (emit EvContent (trim_right content), True,
         p\<lparr>cg_buffer := ?r, cg_state := CogitoCollectingToolCalls\<rparr>)"
    using assms(1,2) whole by (simp add: cg_eat_def cg_feed_def)
  moreover have "drain (cg_eat unmarshal) (p\<lparr>cg_buffer := ?r, cg_state := CogitoCollectingToolCalls\<rparr>) []
      = Some (?evs, p\<lparr>cg_buffer := [], cg_state := CogitoCollectingContent\<rparr>)"
    using cg_drain_calls[OF _ assms(4), of "p\<lparr>cg_buffer := ?r, cg_state := CogitoCollectingToolCalls\<rparr>"] by simp
  moreover have "p\<lparr>cg_buffer := [], cg_state := CogitoCollectingContent\<rparr> = p"
    using assms(1,2) by (cases p) simp
  ultimately have d: "drain (cg_eat unmarshal) (cg_feed (content @ cg_render calls) p) []
      = Some (emit EvContent (trim_right content) @ ?evs, p)"
    by (subst cg_loop.drain_unfold) simp
  have "contents (emit EvContent (trim_right content) @ ?evs) = trim_right content"
    "thinkings (emit EvContent (trim_right content) @ ?evs) = []"
    "raw_calls (emit EvContent (trim_right content) @ ?evs)
      = map (\<lambda>c. \<lparr>tc_Index = 0, tc_Name = fst c, tc_Arguments = v (snd c)\<rparr>) calls"
    by (auto simp: contents_def thinkings_def raw_calls_def emit_def comp_def)
  then show ?thesis using cg_Add_eq[OF d] by simp
qed

theorem cg_Add_rendered_witness:
  "fst (cg_Add (\<lambda>s. Inr s :: unit + string) (cg_Init ([] :: unit Tool list) None None new_CogitoParser)
     (''hi '' @ cg_render [(''f'', ''{}''), (''g'', ''{1}'')]) False)
   = Some (''hi'', [], [\<lparr>tc_Index = 0, tc_Name = ''f'', tc_Arguments = ''{}''\<rparr>,
       \<lparr>tc_Index = 1, tc_Name = ''g'', tc_Arguments = ''{1}''\<rparr>], None)"
proof -
  let ?p = "cg_Init ([] :: unit Tool list) None None new_CogitoParser"
  have p: "cg_state ?p = CogitoCollectingContent" "cg_buffer ?p = []" "cg_callIndex ?p = 0" by code_simp+
  have t: "CHR ''<'' \<notin> set ''hi ''" "trim_right ''hi '' = ''hi''" by code_simp+
  have c: "\<forall>c\<in>set [(''f'', ''{}''), (''g'', ''{1}'')]. cg_plain c \<and> (Inr (snd c) :: unit + string) = Inr (snd c)" by code_simp
  show ?thesis
    using cg_Add_rendered[where v = "\<lambda>s. s" and unmarshal = "\<lambda>s. Inr s :: unit + string", OF p(1,2) t(1) c, of False] p(3) t(2)
    by simp
qed

end
