(* ===== verification/Ministral.thy ===== *)
theory Ministral
  imports TagScanner
begin

text \<open>
  \<^verbatim>\<open>model/parsers/ministral.go\<close>. The arguments of a call are cut out of the stream by counting
  brackets (\<open>findJSONEnd\<close>); decoding them is \<open>unmarshal\<close>, the outcome of \<^verbatim>\<open>json.Unmarshal\<close>
  into a third-party ordered map.
\<close>

section \<open>The end of a JSON object\<close>

text \<open>
  \<open>findJSONEnd\<close>: the loop ranges over runes; every byte it tests for is ASCII, and an escaped rune
  of several bytes is skipped byte by byte with the same result, so bytes are enough.
\<close>

fun json_end :: "int \<Rightarrow> bool \<Rightarrow> bool \<Rightarrow> nat \<Rightarrow> string \<Rightarrow> nat option" where
  "json_end depth inString escaped i [] = None"
| "json_end depth inString escaped i (r # s) =
     (if inString then
        (if escaped then json_end depth True False (Suc i) s
         else if r = CHR 0x5C then json_end depth True True (Suc i) s
         else if r = CHR 0x22 then json_end depth False False (Suc i) s
         else json_end depth True False (Suc i) s)
      else if r = CHR 0x22 then json_end depth True escaped (Suc i) s
      else if r = CHR ''{'' \<or> r = CHR ''['' then json_end (depth + 1) False escaped (Suc i) s
      else if r = CHR ''}'' \<or> r = CHR '']'' then
        (if depth - 1 = 0 then Some i else json_end (depth - 1) False escaped (Suc i) s)
      else json_end depth False escaped (Suc i) s)"

definition findJSONEnd :: "string \<Rightarrow> nat option" where
  "findJSONEnd s = json_end 0 False False 0 s"

section \<open>The parser\<close>

datatype ministralParserState =
    MinistralCollectingContent
  | MinistralCollectingThinkingContent
  | MinistralCollectingToolName
  | MinistralCollectingToolArgs

definition ministralToolCallsTag :: string where "ministralToolCallsTag = ''[TOOL_CALLS]''"
definition ministralThinkTag :: string where "ministralThinkTag = ''[THINK]''"
definition ministralThinkEndTag :: string where "ministralThinkEndTag = ''[/THINK]''"
definition ministralArgsTag :: string where "ministralArgsTag = ''[ARGS]''"

record 'p MinistralParser =
  ms_state :: ministralParserState
  ms_buffer :: string
  ms_tools :: "'p Tool list"
  ms_callIndex :: nat
  ms_hasThinkingSupport :: bool
  ms_pendingToolName :: string

definition new_MinistralParser :: "bool \<Rightarrow> 'p MinistralParser" where
  "new_MinistralParser h =
     \<lparr>ms_state = MinistralCollectingContent, ms_buffer = [], ms_tools = [], ms_callIndex = 0,
      ms_hasThinkingSupport = h, ms_pendingToolName = []\<rparr>"

definition ms_HasToolSupport :: bool where "ms_HasToolSupport = True"
definition ms_HasThinkingSupport :: "'p MinistralParser \<Rightarrow> bool" where
  "ms_HasThinkingSupport p = ms_hasThinkingSupport p"
definition ms_PreservedTokens :: "string list" where
  "ms_PreservedTokens = [ministralToolCallsTag, ministralThinkTag, ministralThinkEndTag, ministralArgsTag]"

definition ms_setInitialState :: "Message option \<Rightarrow> 'p MinistralParser \<Rightarrow> 'p MinistralParser" where
  "ms_setInitialState lastMessage p =
     (if \<not> ms_HasThinkingSupport p then p\<lparr>ms_state := MinistralCollectingContent\<rparr>
      else if assistant_prefill lastMessage then p\<lparr>ms_state := MinistralCollectingContent\<rparr>
      else p\<lparr>ms_state := MinistralCollectingThinkingContent\<rparr>)"

definition ms_Init :: "'p Tool list \<Rightarrow> Message option \<Rightarrow> 'p MinistralParser \<Rightarrow> 'p MinistralParser" where
  "ms_Init tools lastMessage p = ms_setInitialState lastMessage (p\<lparr>ms_tools := tools, ms_callIndex := 0\<rparr>)"

datatype 'e ministral_error = ToolNotFound string | MSJSON 'e

fun toolByName :: "'p Tool list \<Rightarrow> string \<Rightarrow> 'e ministral_error + 'p Tool" where
  "toolByName [] n = Inl (ToolNotFound n)"
| "toolByName (t # tools) n = (if tool_Name t = n then Inr t else toolByName tools n)"

text \<open>A tool-call event has the name and the raw arguments.\<close>

type_synonym ministralEvent = "(string \<times> string) event"

definition ms_eat :: "'p MinistralParser \<Rightarrow> ministralEvent list \<times> bool \<times> 'p MinistralParser" where
  "ms_eat p =
     (let bufStr = ms_buffer p in
      case ms_state p of
        MinistralCollectingContent \<Rightarrow>
          (case go_cut bufStr ministralToolCallsTag of
             Some (before, after) \<Rightarrow>
               (emit EvContent (trim_right before), True,
                p\<lparr>ms_buffer := after, ms_state := MinistralCollectingToolName\<rparr>)
           | None \<Rightarrow>
               (case go_cut bufStr ministralThinkTag of
                  Some (before, after) \<Rightarrow>
                    (emit EvContent (trim_right before), True,
                     p\<lparr>ms_buffer := after, ms_state := MinistralCollectingThinkingContent\<rparr>)
                | None \<Rightarrow>
                    (case withhold [ministralToolCallsTag, ministralThinkTag] bufStr of
                       (unambiguous, ambiguous) \<Rightarrow>
                         (emit EvContent unambiguous, False, p\<lparr>ms_buffer := ambiguous\<rparr>))))
      | MinistralCollectingThinkingContent \<Rightarrow>
          (case go_cut bufStr ministralThinkEndTag of
             Some (thinkingContent, after) \<Rightarrow>
               (emit EvThinking thinkingContent, True,
                p\<lparr>ms_buffer := trim_left after, ms_state := MinistralCollectingContent\<rparr>)
           | None \<Rightarrow>
               (let overlapLen = overlap bufStr ministralThinkEndTag in
                if overlapLen > 0 then
                  (emit EvThinking (take (length bufStr - overlapLen) bufStr), False,
                   p\<lparr>ms_buffer := drop (length bufStr - overlapLen) bufStr\<rparr>)
                else (emit EvThinking bufStr, False, p\<lparr>ms_buffer := []\<rparr>)))
      | MinistralCollectingToolName \<Rightarrow>
          (case go_cut bufStr ministralArgsTag of
             Some (toolName, after) \<Rightarrow>
               ([], True,
                p\<lparr>ms_pendingToolName := toolName, ms_buffer := after, ms_state := MinistralCollectingToolArgs\<rparr>)
           | None \<Rightarrow> ([], False, p))
      | MinistralCollectingToolArgs \<Rightarrow>
          (case findJSONEnd bufStr of
             Some jsonEnd \<Rightarrow>
               ([EvCall (ms_pendingToolName p, take (jsonEnd + 1) bufStr)], True,
                p\<lparr>ms_pendingToolName := [], ms_buffer := drop (jsonEnd + 1) bufStr,
                  ms_state := MinistralCollectingContent\<rparr>)
           | None \<Rightarrow> ([], False, p)))"

definition ms_feed :: "string \<Rightarrow> 'p MinistralParser \<Rightarrow> 'p MinistralParser" where
  "ms_feed s p = p\<lparr>ms_buffer := ms_buffer p @ s\<rparr>"

text \<open>
  The loop of \<open>Add\<close> over the events. Unlike in the other parsers, an error returns what has been
  collected so far, with the calls not numbered.
\<close>

fun ms_handle ::
  "(string \<Rightarrow> 'e + 'a) \<Rightarrow> 'p Tool list \<Rightarrow> ministralEvent list \<Rightarrow> ('a, 'e ministral_error) added" where
  "ms_handle unmarshal tools [] = ([], [], [], None)"
| "ms_handle unmarshal tools (EvContent s # es) =
     (case ms_handle unmarshal tools es of (c, th, calls, err) \<Rightarrow> (s @ c, th, calls, err))"
| "ms_handle unmarshal tools (EvThinking s # es) =
     (case ms_handle unmarshal tools es of (c, th, calls, err) \<Rightarrow> (c, s @ th, calls, err))"
| "ms_handle unmarshal tools (EvCall (name, args) # es) =
     (case toolByName tools name of
        Inl toolErr \<Rightarrow> ([], [], [], Some toolErr)
      | Inr tool \<Rightarrow>
          (case unmarshal args of
             Inl jsonErr \<Rightarrow> ([], [], [], Some (MSJSON jsonErr))
           | Inr a \<Rightarrow>
               (case ms_handle unmarshal tools es of
                  (c, th, calls, err) \<Rightarrow>
                    (c, th, \<lparr>tc_Index = 0, tc_Name = tool_Name tool, tc_Arguments = a\<rparr> # calls, err))))"

definition ms_Add ::
  "(string \<Rightarrow> 'e + 'a) \<Rightarrow> 'p MinistralParser \<Rightarrow> string \<Rightarrow> bool
    \<Rightarrow> ('a, 'e ministral_error) added option \<times> 'p MinistralParser" where
  "ms_Add unmarshal p s final =
     (case drain ms_eat (ms_feed s p) [] of
        None \<Rightarrow> (None, p)
      | Some (events, p') \<Rightarrow>
          (case ms_handle unmarshal (ms_tools p') events of
             (content, thinking, calls, Some e) \<Rightarrow> (Some (content, thinking, calls, Some e), p')
           | (content, thinking, calls, None) \<Rightarrow>
               (Some (content, thinking, index_from (ms_callIndex p') calls, None),
                p'\<lparr>ms_callIndex := ms_callIndex p' + length calls\<rparr>)))"

section \<open>The loop returns\<close>

lemma json_end_bound: "json_end d q e i s = Some j \<Longrightarrow> i \<le> j \<and> j < i + length s"
proof (induction s arbitrary: d q e i)
  case (Cons r s)
  have IH: "Suc i \<le> j \<and> j < Suc i + length s" if "json_end d' q' e' (Suc i) s = Some j" for d' q' e'
    using Cons.IH[OF that] .
  have "j = i \<or> (\<exists>d' q' e'. json_end d' q' e' (Suc i) s = Some j)"
    using Cons.prems by (simp split: if_splits) blast+
  then show ?case using IH by fastforce
qed simp

lemma findJSONEnd_bound: "findJSONEnd s = Some j \<Longrightarrow> j < length s"
  using json_end_bound[of 0 False False 0 s j] by (simp add: findJSONEnd_def)

lemma ms_tags [simp]:
  "ministralToolCallsTag \<noteq> []" "ministralThinkTag \<noteq> []" "ministralThinkEndTag \<noteq> []" "ministralArgsTag \<noteq> []"
  by code_simp+

interpretation ms_loop: event_loop ms_eat "\<lambda>p. length (ms_buffer p)"
proof
  fix p :: "'p MinistralParser" and es p'
  assume "ms_eat p = (es, True, p')"
  then show "length (ms_buffer p') < length (ms_buffer p)"
    by (auto simp: ms_eat_def Let_def split: ministralParserState.splits option.splits prod.splits if_splits
        dest!: go_cut_shorter findJSONEnd_bound intro: le_less_trans[OF length_trim_left])
qed

lemma ms_eat_fields:
  "ms_eat p = (es, k, p') \<Longrightarrow> ms_callIndex p' = ms_callIndex p \<and> ms_tools p' = ms_tools p"
  by (auto simp: ms_eat_def Let_def split: ministralParserState.splits option.splits prod.splits if_splits)

lemma ms_drain_fields:
  assumes "drain ms_eat p [] = Some (es, q)"
  shows "ms_callIndex q = ms_callIndex p" "ms_tools q = ms_tools p"
proof -
  have "ms_callIndex q = ms_callIndex p \<and> ms_tools q = ms_tools p"
    by (rule ms_loop.drain_invariant[of "\<lambda>x. ms_callIndex x = ms_callIndex p \<and> ms_tools x = ms_tools p",
          OF _ _ assms]) (auto dest: ms_eat_fields)
  then show "ms_callIndex q = ms_callIndex p" "ms_tools q = ms_tools p" by blast+
qed

lemma ms_Add_eq:
  assumes "drain ms_eat (ms_feed s p) [] = Some (es, q)"
  shows "ms_Add unmarshal p s final =
    (case ms_handle unmarshal (ms_tools p) es of
       (content, thinking, calls, Some e) \<Rightarrow> (Some (content, thinking, calls, Some e), q)
     | (content, thinking, calls, None) \<Rightarrow>
         (Some (content, thinking, index_from (ms_callIndex p) calls, None),
          q\<lparr>ms_callIndex := ms_callIndex p + length calls\<rparr>))"
  using assms ms_drain_fields[OF assms] by (auto simp: ms_Add_def ms_feed_def split: prod.splits option.splits)

interpretation ms_calls: call_numbering "ms_Add unmarshal" ms_callIndex for unmarshal
proof
  fix p s final c th calls p'
  assume a: "ms_Add unmarshal p s final = (Some (c, th, calls, None), p')"
  obtain es q where d: "drain ms_eat (ms_feed s p) [] = Some (es, q)"
    using ms_loop.drain_Some by blast
  show "ms_callIndex p' = ms_callIndex p + length calls
      \<and> map tc_Index calls = [ms_callIndex p..<ms_callIndex p + length calls]"
    using a by (auto simp: ms_Add_eq[OF d] index_from_numbers split: prod.splits option.splits)
qed

lemma ms_Add_returns: "fst (ms_Add unmarshal p s final) \<noteq> None"
proof -
  obtain es q where d: "drain ms_eat (ms_feed s p) [] = Some (es, q)" using ms_loop.drain_Some by blast
  show ?thesis by (simp add: ms_Add_eq[OF d] split: prod.splits option.splits)
qed

section \<open>JSON texts\<close>

text \<open>
  The shape of a JSON text, as far as brackets and strings go: strings with their raw bodies,
  brackets around a list of parts, and everything else (white space, commas, colons, numbers,
  names) as plain text.
\<close>

datatype json_text = JPlain string | JString string | JBrackets bool "json_text list"

fun render_json :: "json_text \<Rightarrow> string" where
  "render_json (JPlain s) = s"
| "render_json (JString s) = CHR 0x22 # s @ [CHR 0x22]"
| "render_json (JBrackets obj ts) =
     (if obj then ''{'' else ''['') @ concat (map render_json ts) @ (if obj then ''}'' else '']'')"

text \<open>The body of a string: every quote is escaped, and no escape is left open.\<close>

fun string_body :: "string \<Rightarrow> bool" where
  "string_body [] = True"
| "string_body (c # s) =
     (if c = CHR 0x22 then False
      else if c = CHR 0x5C then (case s of [] \<Rightarrow> False | _ # s' \<Rightarrow> string_body s')
      else string_body s)"

fun wf_json :: "json_text \<Rightarrow> bool" where
  "wf_json (JPlain s) = (list_all (\<lambda>c. c \<notin> set (CHR 0x22 # ''{}[]'')) s)"
| "wf_json (JString s) = string_body s"
| "wf_json (JBrackets obj ts) = list_all wf_json ts"

lemma json_end_plain:
  "list_all (\<lambda>c. c \<notin> set (CHR 0x22 # ''{}[]'')) s \<Longrightarrow>
     json_end d False False i (s @ r) = json_end d False False (i + length s) r"
  by (induction s arbitrary: i) auto

lemma json_end_body:
  "string_body s \<Longrightarrow> json_end d True False i (s @ CHR 0x22 # r) = json_end d False False (i + length s + 1) r"
proof (induction s arbitrary: i rule: string_body.induct)
  case (2 c s)
  have quote: "c \<noteq> CHR 0x22" using "2.prems" by (simp split: if_splits)
  show ?case
  proof (cases "c = CHR 0x5C")
    case True
    then obtain x s' where s: "s = x # s'" "string_body s'"
      using "2.prems" by (cases s) auto
    have "json_end d True False (Suc (Suc i)) (s' @ CHR 0x22 # r) = json_end d False False (Suc (Suc i) + length s' + 1) r"
      using "2.IH"(1)[OF quote True s(1) s(2)] .
    then show ?thesis using True s(1) by simp
  next
    case False
    then have "string_body s" using "2.prems" quote by simp
    from "2.IH"(2)[OF quote False this] show ?thesis using quote False by simp
  qed
qed simp

lemma json_end_skip:
  "wf_json t \<Longrightarrow> d \<ge> 1 \<Longrightarrow>
     json_end d False False i (render_json t @ r) = json_end d False False (i + length (render_json t)) r"
proof (induction t arbitrary: d i r)
  case (JPlain s)
  then show ?case by (simp add: json_end_plain)
next
  case (JString s)
  then show ?case using json_end_body[of s d "Suc i" r] by simp
next
  case (JBrackets obj ts)
  have parts: "json_end (d + 1) False False j (concat (map render_json us) @ w)
      = json_end (d + 1) False False (j + length (concat (map render_json us))) w"
    if "set us \<subseteq> set ts" for us j w
    using that
  proof (induction us arbitrary: j)
    case (Cons u us)
    then show ?case
      using JBrackets.IH[of u "d + 1" j] JBrackets.prems by (simp add: list_all_iff add.assoc)
  qed simp
  show ?case
    using parts[of ts "Suc i"] JBrackets.prems(2) by (cases obj) (simp_all add: add.assoc)
qed

lemma json_end_parts:
  "d \<ge> 1 \<Longrightarrow> list_all wf_json us \<Longrightarrow> json_end d False False j (concat (map render_json us) @ w)
    = json_end d False False (j + length (concat (map render_json us))) w"
proof (induction us arbitrary: j)
  case (Cons u us)
  then show ?case using json_end_skip[of u d j] by (simp add: add.assoc)
qed simp

lemma findJSONEnd_brackets:
  assumes "list_all wf_json ts"
  shows "findJSONEnd (render_json (JBrackets obj ts) @ r) = Some (length (render_json (JBrackets obj ts)) - 1)"
  using json_end_parts[of 1 ts "Suc 0"] assms by (cases obj) (simp_all add: findJSONEnd_def)

text \<open>
  The bracket counter finds the end of a JSON object: whatever follows it and whatever strings it
  contains - brackets, escaped quotes, escaped backslashes -, the index returned is that of the
  closing bracket of the root.
\<close>

theorem findJSONEnd_render:
  "wf_json (JBrackets obj ts) \<Longrightarrow>
     findJSONEnd (render_json (JBrackets obj ts) @ r) = Some (length (render_json (JBrackets obj ts)) - 1)"
  using findJSONEnd_brackets by simp

theorem findJSONEnd_render_witness:
  "findJSONEnd (''{'' @ [CHR 0x22, CHR 0x5C, CHR 0x22, CHR ''}'', CHR 0x22] @ '':[1]}}}'') = Some 10"
  using findJSONEnd_render[of True "[JString [CHR 0x5C, CHR 0x22, CHR ''}''], JPlain '':'', JBrackets False [JPlain ''1'']]" "''}}''"]
  by simp

section \<open>A call as the model writes it\<close>

definition ms_render :: "string \<Rightarrow> string \<Rightarrow> json_text list \<Rightarrow> string" where
  "ms_render content name args =
     content @ ministralToolCallsTag @ name @ ministralArgsTag @ render_json (JBrackets True args)"

lemma ms_tag_hd: "hd ministralToolCallsTag = CHR ''[''" "hd ministralArgsTag = CHR ''[''"
  by (simp_all add: ministralToolCallsTag_def ministralArgsTag_def)

lemma ms_tag_here:
  assumes "CHR ''['' \<notin> set a" "t \<noteq> []" "hd t = CHR ''[''"
  shows "go_cut (a @ t @ b) t = Some (a, b)"
proof -
  have "go_index (a @ t @ b) t = Some (length a)"
    using go_index_skip[of t a "t @ b"] assms by simp
  then show ?thesis by (rule go_cut_at)
qed

lemma toolByName_found:
  "tool \<in> set tools \<Longrightarrow> \<exists>tool'. toolByName tools (tool_Name tool) = Inr tool' \<and> tool_Name tool' = tool_Name tool"
  by (induction tools) auto

lemma ms_drain_render:
  assumes content: "CHR ''['' \<notin> set content" and name: "CHR ''['' \<notin> set name"
    and args: "list_all wf_json args"
    and p: "ms_state p = MinistralCollectingContent" "ms_buffer p = ms_render content name args"
  shows "drain ms_eat p [] =
    Some (emit EvContent (trim_right content) @ [EvCall (name, render_json (JBrackets True args))],
      p\<lparr>ms_buffer := [], ms_pendingToolName := []\<rparr>)"
proof -
  let ?j = "render_json (JBrackets True args)"
  let ?q = "p\<lparr>ms_buffer := name @ ministralArgsTag @ ?j, ms_state := MinistralCollectingToolName\<rparr>"
  let ?r = "p\<lparr>ms_pendingToolName := name, ms_buffer := ?j, ms_state := MinistralCollectingToolArgs\<rparr>"
  let ?s = "p\<lparr>ms_pendingToolName := [], ms_buffer := [], ms_state := MinistralCollectingContent\<rparr>"
  have "go_cut (ms_buffer p) ministralToolCallsTag = Some (content, name @ ministralArgsTag @ ?j)"
    using ms_tag_here[OF content ms_tags(1)] p(2) by (simp add: ms_render_def ms_tag_hd del: render_json.simps)
  then have 1: "ms_eat p = (emit EvContent (trim_right content), True, ?q)"
    using p(1) by (simp add: ms_eat_def)
  have "go_cut (ms_buffer ?q) ministralArgsTag = Some (name, ?j)"
    using ms_tag_here[OF name ms_tags(4)] by (simp add: ms_tag_hd del: render_json.simps)
  then have 2: "ms_eat ?q = ([], True, ?r)" by (simp add: ms_eat_def)
  have "findJSONEnd ?j = Some (length ?j - 1)" using findJSONEnd_brackets[OF args, of True "[]"] by simp
  then have 3: "ms_eat ?r = ([EvCall (name, ?j)], True, ?s)" by (simp add: ms_eat_def)
  have 4: "ms_eat ?s = ([], False, ?s)"
    by (simp add: ms_eat_def go_cut_def withhold_def emit_def ministralToolCallsTag_def ministralThinkTag_def)
  have "?s = p\<lparr>ms_buffer := [], ms_pendingToolName := []\<rparr>" using p(1) by simp
  with 1 2 3 4 show ?thesis
    by (simp add: ms_loop.drain_unfold)
qed

text \<open>
  C26. A call in the format of the model - text, the call tag, the name of a tool that was given, the
  arguments tag and a JSON object - comes out of \<open>Add\<close> as the text without its trailing white
  space and exactly that call, with the next number; the arguments are what decoding the object
  gives, whatever strings are in it.
\<close>

theorem ms_Add_rendered:
  fixes unmarshal :: "string \<Rightarrow> 'e + 'a" and p :: "'p MinistralParser"
  assumes "CHR ''['' \<notin> set content" "CHR ''['' \<notin> set (tool_Name tool)" "list_all wf_json args"
    and "tool \<in> set (ms_tools p)" "unmarshal (render_json (JBrackets True args)) = Inr a"
    and "ms_state p = MinistralCollectingContent" "ms_buffer p = []"
  shows "fst (ms_Add unmarshal p (ms_render content (tool_Name tool) args) final) =
    Some (trim_right content, [], [\<lparr>tc_Index = ms_callIndex p, tc_Name = tool_Name tool, tc_Arguments = a\<rparr>], None)"
proof -
  let ?s = "ms_render content (tool_Name tool) args"
  have "drain ms_eat (ms_feed ?s p) [] =
    Some (emit EvContent (trim_right content) @ [EvCall (tool_Name tool, render_json (JBrackets True args))],
      (ms_feed ?s p)\<lparr>ms_buffer := [], ms_pendingToolName := []\<rparr>)"
    by (rule ms_drain_render) (use assms in \<open>simp_all add: ms_feed_def\<close>)
  note add = ms_Add_eq[OF this]
  obtain tool' where tool': "(toolByName (ms_tools p) (tool_Name tool) :: 'e ministral_error + 'p Tool) = Inr tool'"
    "tool_Name tool' = tool_Name tool"
    using toolByName_found[OF assms(4)] by blast
  show ?thesis
    unfolding add using tool' assms(5) by (simp add: emit_def del: render_json.simps)
qed

theorem ms_Add_rendered_witness:
  "fst (ms_Add (\<lambda>s. if s = ''{[1]}'' then Inr s else Inl ())
      (ms_Init [\<lparr>tool_Name = ''f'', tool_Parameters = ()\<rparr>] None (new_MinistralParser False))
      ''hi [TOOL_CALLS]f[ARGS]{[1]}'' False)
    = Some (''hi'', [], [\<lparr>tc_Index = 0, tc_Name = ''f'', tc_Arguments = ''{[1]}''\<rparr>], None)"
proof -
  let ?p = "ms_Init [\<lparr>tool_Name = ''f'', tool_Parameters = ()\<rparr>] None (new_MinistralParser False)"
  have "ms_state ?p = MinistralCollectingContent" "ms_buffer ?p = []" "ms_callIndex ?p = 0"
    "ms_tools ?p = [\<lparr>tool_Name = ''f'', tool_Parameters = ()\<rparr>]"
    by (simp_all add: ms_Init_def ms_setInitialState_def ms_HasThinkingSupport_def new_MinistralParser_def)
  moreover have "ms_render ''hi '' ''f'' [JBrackets False [JPlain ''1'']] = ''hi [TOOL_CALLS]f[ARGS]{[1]}''"
    by (simp add: ms_render_def ministralToolCallsTag_def ministralArgsTag_def)
  moreover have "trim_right ''hi '' = ''hi''" by code_simp
  ultimately show ?thesis
    using ms_Add_rendered[of "''hi ''" "\<lparr>tool_Name = ''f'', tool_Parameters = ()\<rparr>"
        "[JBrackets False [JPlain ''1'']]" ?p "\<lambda>s. if s = ''{[1]}'' then Inr s else Inl ()" "''{[1]}''" False]
    by simp
qed

end
