(* ===== verification/GoRunes.thy ===== *)
theory GoRunes
  imports Main
begin

text \<open>
  Texts as lists of runes, for the code that reads rune by rune: \<^verbatim>\<open>unicode.IsSpace\<close>,
  \<^verbatim>\<open>strings.TrimSpace\<close>, \<^verbatim>\<open>strconv.IsPrint\<close> and the ASCII parts of \<^verbatim>\<open>strings.ToLower\<close> and
  \<^verbatim>\<open>strings.ToUpper\<close>. The Unicode tables behind \<^verbatim>\<open>strconv.IsPrint\<close> outside ASCII are an argument.
\<close>

type_synonym rune = nat
type_synonym runes = "rune list"

definition rs :: "string \<Rightarrow> runes" where "rs s = map of_char s"

text \<open>Texts in the code stay folded as \<open>rs ''...''\<close>; \<open>rs_simps\<close> unfolds them where the runes matter.\<close>

lemma rs_simps: "rs [] = []" "rs (c # s) = of_char c # rs s"
  by (simp_all add: rs_def)

lemma rs_inject [simp]: "rs s = rs t \<longleftrightarrow> s = t"
proof -
  have "inj (of_char :: char \<Rightarrow> nat)" by (rule inj_of_char)
  then show ?thesis by (simp add: rs_def inj_map_eq_map)
qed

lemma rs_not_Nil [simp]: "rs (c # s) \<noteq> []"
  by (simp add: rs_def)

definition rune_space :: "rune \<Rightarrow> bool" where
  "rune_space r \<longleftrightarrow>
     9 \<le> r \<and> r \<le> 13 \<or> r = 32 \<or> r = 0x85 \<or> r = 0xA0 \<or> r = 0x1680 \<or> 0x2000 \<le> r \<and> r \<le> 0x200A
     \<or> r = 0x2028 \<or> r = 0x2029 \<or> r = 0x202F \<or> r = 0x205F \<or> r = 0x3000"

definition rtrim_left :: "runes \<Rightarrow> runes" where "rtrim_left s = dropWhile rune_space s"
definition rtrim_right :: "runes \<Rightarrow> runes" where "rtrim_right s = rev (dropWhile rune_space (rev s))"
definition rtrim :: "runes \<Rightarrow> runes" where "rtrim s = rtrim_right (rtrim_left s)"

definition isPrint :: "(rune \<Rightarrow> bool) \<Rightarrow> rune \<Rightarrow> bool" where
  "isPrint up r \<longleftrightarrow> (if r < 128 then 32 \<le> r \<and> r \<le> 126 else up r)"

definition rlower :: "rune \<Rightarrow> rune" where "rlower r = (if 65 \<le> r \<and> r \<le> 90 then r + 32 else r)"
definition rupper :: "rune \<Rightarrow> rune" where "rupper r = (if 97 \<le> r \<and> r \<le> 122 then r - 32 else r)"

text \<open>The bytes of a rune and of a text (UTF-8).\<close>

definition rune_bytes :: "rune \<Rightarrow> string" where
  "rune_bytes r =
     (if r < 0x80 then [char_of r]
      else if r < 0x800 then [char_of (0xC0 + r div 64), char_of (0x80 + r mod 64)]
      else if r < 0x10000 then
        [char_of (0xE0 + r div 4096), char_of (0x80 + (r div 64) mod 64), char_of (0x80 + r mod 64)]
      else
        [char_of (0xF0 + r div 262144), char_of (0x80 + (r div 4096) mod 64),
         char_of (0x80 + (r div 64) mod 64), char_of (0x80 + r mod 64)])"

definition bytes :: "runes \<Rightarrow> string" where "bytes s = concat (map rune_bytes s)"

lemma bytes_rs_ascii: "list_all (\<lambda>c. (of_char c :: nat) < 128) s \<Longrightarrow> bytes (rs s) = s"
  by (induction s) (simp_all add: bytes_def rs_def rune_bytes_def)

lemma rtrim_Nil [simp]: "rtrim [] = []"
  by (simp add: rtrim_def rtrim_left_def rtrim_right_def)

lemma rtrim_id:
  "s = [] \<or> \<not> rune_space (hd s) \<and> \<not> rune_space (last s) \<Longrightarrow> rtrim s = s"
proof (cases "s = []")
  case False
  assume "s = [] \<or> \<not> rune_space (hd s) \<and> \<not> rune_space (last s)"
  with False have "dropWhile rune_space s = s" "dropWhile rune_space (rev s) = rev s"
    by (simp_all add: dropWhile_eq_self_iff hd_rev)
  then show ?thesis by (simp add: rtrim_def rtrim_left_def rtrim_right_def)
qed simp

text \<open>With a first rune that is no white space, only the right end is trimmed.\<close>

lemma rtrim_Cons:
  assumes "\<not> rune_space c"
  obtains p where "rtrim (c # s) = c # p" "\<exists>w. s = p @ w \<and> list_all rune_space w"
proof -
  have l: "rtrim_left (c # s) = c # s" using assms by (simp add: rtrim_left_def)
  let ?d = "dropWhile rune_space (rev s)" and ?t = "takeWhile rune_space (rev s)"
  have s: "s = rev ?d @ rev ?t" by (metis rev_append rev_rev_ident takeWhile_dropWhile_id)
  have w: "list_all rune_space (rev ?t)" by (auto simp: list_all_iff dest: set_takeWhileD)
  have "rtrim (c # s) = c # rev ?d"
  proof (cases "?d = []")
    case True
    then show ?thesis using l assms by (simp add: rtrim_def rtrim_right_def dropWhile_append)
  next
    case False
    then show ?thesis using l by (simp add: rtrim_def rtrim_right_def dropWhile_append)
  qed
  then show thesis using that s w by blast
qed

end
