(* ===== verification/Modelfile.thy ===== *)
theory Modelfile
  imports GoRunes
begin

text \<open>
  \<^verbatim>\<open>parser/parser.go\<close>: the Modelfile format. \<open>Command_String\<close> and \<open>Modelfile_String\<close> print
  commands, \<open>ParseFile\<close> reads them with a state machine over runes. The decoding of the file (byte
  order mark, UTF-8) happens in a third-party reader; the model starts from its runes. \<open>up\<close> is
  \<^verbatim>\<open>strconv.IsPrint\<close> outside ASCII.
\<close>

section \<open>Commands and their text\<close>

record Command =
  Cmd_Name :: runes
  Cmd_Args :: runes

definition dq :: rune where "dq = 0x22"
definition nl :: rune where "nl = 10"
definition triple :: runes where "triple = [dq, dq, dq]"

fun runes_contain :: "runes \<Rightarrow> runes \<Rightarrow> bool" where
  "runes_contain t [] = (t = [])"
| "runes_contain t (r # s) = (take (length t) (r # s) = t \<or> runes_contain t s)"

definition quote :: "runes \<Rightarrow> runes" where
  "quote s =
     (if nl \<in> set s \<or> (s \<noteq> [] \<and> hd s = 32) \<or> (s \<noteq> [] \<and> last s = 32) then
        if dq \<in> set s then triple @ s @ triple else [dq] @ s @ [dq]
      else s)"

definition unquote :: "runes \<Rightarrow> runes option" where
  "unquote s =
     (if length s \<ge> 3 \<and> take 3 s = triple then
        if length s \<ge> 6 \<and> drop (length s - 3) s = triple then Some (take (length s - 6) (drop 3 s)) else None
      else if length s \<ge> 1 \<and> hd s = dq then
        if length s \<ge> 2 \<and> last s = dq then Some (take (length s - 2) (drop 1 s)) else None
      else Some s)"

text \<open>\<open>strings.Cut(s, ": ")\<close>\<close>

fun cut_colon :: "runes \<Rightarrow> runes \<times> runes" where
  "cut_colon [] = ([], [])"
| "cut_colon (r # s) =
     (if r = of_char CHR '':'' \<and> s \<noteq> [] \<and> hd s = 32 then ([], tl s)
      else (case cut_colon s of (a, b) \<Rightarrow> (r # a, b)))"

definition upper_commands :: "runes list" where
  "upper_commands =
     [rs ''license'', rs ''template'', rs ''system'', rs ''adapter'', rs ''renderer'', rs ''parser'',
      rs ''requires'', rs ''draft'']"

definition Command_String :: "Command \<Rightarrow> runes" where
  "Command_String c =
     (if Cmd_Name c = rs ''model'' then rs ''FROM '' @ Cmd_Args c
      else if Cmd_Name c \<in> set upper_commands then map rupper (Cmd_Name c) @ [32] @ quote (Cmd_Args c)
      else if Cmd_Name c = rs ''message'' then
        (case cut_colon (Cmd_Args c) of
           (role, message) \<Rightarrow> rs ''MESSAGE '' @ role @ [32] @ quote message)
      else rs ''PARAMETER '' @ Cmd_Name c @ [32] @ quote (Cmd_Args c))"

definition Modelfile_String :: "Command list \<Rightarrow> runes" where
  "Modelfile_String cs = concat (map (\<lambda>c. Command_String c @ [nl]) cs)"

section \<open>The state machine\<close>

datatype mf_state = stateNil | stateName | stateValue | stateParameter | stateMessage | stateComment

datatype rune_error = errInvalidCommand | errInvalidMessageRole | errUnexpectedEOF

definition isAlpha :: "rune \<Rightarrow> bool" where
  "isAlpha r \<longleftrightarrow> of_char CHR ''a'' \<le> r \<and> r \<le> of_char CHR ''z'' \<or> of_char CHR ''A'' \<le> r \<and> r \<le> of_char CHR ''Z''"

definition isNumber :: "rune \<Rightarrow> bool" where
  "isNumber r \<longleftrightarrow> of_char CHR ''0'' \<le> r \<and> r \<le> of_char CHR ''9''"

definition isSpace :: "rune \<Rightarrow> bool" where "isSpace r \<longleftrightarrow> r = 32 \<or> r = 9"
definition isNewline :: "rune \<Rightarrow> bool" where "isNewline r \<longleftrightarrow> r = 13 \<or> r = 10"

definition isValidMessageRole :: "runes \<Rightarrow> bool" where
  "isValidMessageRole role \<longleftrightarrow> role \<in> {rs ''system'', rs ''user'', rs ''assistant''}"

text \<open>
  The buffer of a command name holds one arbitrary rune and then letters. Outside ASCII, the only
  runes with an ASCII lower case are those of i and k, which begin no command, so \<open>rlower\<close> is
  enough.
\<close>

definition isValidCommand :: "runes \<Rightarrow> bool" where
  "isValidCommand cmd \<longleftrightarrow>
     map rlower cmd \<in> {rs ''from'', rs ''license'', rs ''template'', rs ''system'', rs ''adapter'', rs ''draft'',
       rs ''renderer'', rs ''parser'', rs ''parameter'', rs ''message'', rs ''requires''}"

fun parseRuneForState :: "rune \<Rightarrow> mf_state \<Rightarrow> rune_error + mf_state \<times> rune" where
  "parseRuneForState r stateNil =
     (if r = of_char CHR ''#'' then Inr (stateComment, 0)
      else if isSpace r \<or> isNewline r then Inr (stateNil, 0)
      else Inr (stateName, r))"
| "parseRuneForState r stateName =
     (if isAlpha r then Inr (stateName, r)
      else if isSpace r then Inr (stateValue, 0)
      else Inl errInvalidCommand)"
| "parseRuneForState r stateValue =
     (if isNewline r then Inr (stateNil, r)
      else if isSpace r then Inr (stateNil, r)
      else Inr (stateValue, r))"
| "parseRuneForState r stateParameter =
     (if isAlpha r \<or> isNumber r \<or> r = of_char CHR ''_'' then Inr (stateParameter, r)
      else if isSpace r then Inr (stateValue, 0)
      else Inl errUnexpectedEOF)"
| "parseRuneForState r stateMessage =
     (if isAlpha r then Inr (stateMessage, r)
      else if isSpace r then Inr (stateValue, 0)
      else Inl errUnexpectedEOF)"
| "parseRuneForState r stateComment =
     (if isNewline r then Inr (stateNil, 0) else Inr (stateComment, 0))"

text \<open>
  The errors of \<open>ParseFile\<close>: a bare \<^verbatim>\<open>io.ErrUnexpectedEOF\<close> (at the end of the file), one wrapped
  with the buffer, a \<open>ParserError\<close> with its line, and the missing FROM line.
\<close>

datatype mf_error = UnexpectedEOF | UnexpectedEOF_in runes | ParserError nat rune_error | errMissingFrom

record mf =
  mf_cmd :: Command
  mf_curr :: mf_state
  mf_currLine :: nat
  mf_b :: runes
  mf_role :: runes
  mf_Commands :: "Command list"

definition mf_init :: mf where
  "mf_init =
     \<lparr>mf_cmd = \<lparr>Cmd_Name = [], Cmd_Args = []\<rparr>, mf_curr = stateNil, mf_currLine = 1, mf_b = [],
      mf_role = [], mf_Commands = []\<rparr>"

text \<open>The end of the loop body: \<open>b.WriteRune(r)\<close> for a printable rune; before it, for a transition,
  \<open>b.Reset()\<close> and \<open>curr = next\<close>.\<close>

definition mf_write :: "(rune \<Rightarrow> bool) \<Rightarrow> rune \<Rightarrow> mf \<Rightarrow> mf" where
  "mf_write up r s = (if isPrint up r then s\<lparr>mf_b := mf_b s @ [r]\<rparr> else s)"

definition mf_enter :: "(rune \<Rightarrow> bool) \<Rightarrow> mf_state \<Rightarrow> rune \<Rightarrow> mf \<Rightarrow> mf" where
  "mf_enter up next r s = mf_write up r (s\<lparr>mf_b := [], mf_curr := next\<rparr>)"

text \<open>A finished value becomes the arguments of the current command.\<close>

definition mf_finish :: "runes \<Rightarrow> mf \<Rightarrow> mf" where
  "mf_finish v s =
     (let args = if mf_role s \<noteq> [] then mf_role s @ rs '': '' @ v else v;
          cmd = (mf_cmd s)\<lparr>Cmd_Args := args\<rparr>
      in s\<lparr>mf_role := [], mf_cmd := cmd, mf_Commands := mf_Commands s @ [cmd]\<rparr>)"

definition mf_setName :: "runes \<Rightarrow> mf \<Rightarrow> mf" where
  "mf_setName n s = s\<lparr>mf_cmd := (mf_cmd s)\<lparr>Cmd_Name := n\<rparr>\<rparr>"

text \<open>The body of the loop.\<close>

definition mf_step :: "(rune \<Rightarrow> bool) \<Rightarrow> mf \<Rightarrow> rune \<Rightarrow> mf_error + mf" where
  "mf_step up s0 r0 =
     (let s = (if isNewline r0 then s0\<lparr>mf_currLine := mf_currLine s0 + 1\<rparr> else s0) in
      case parseRuneForState r0 (mf_curr s) of
        Inl errUnexpectedEOF \<Rightarrow> Inl (UnexpectedEOF_in (mf_b s))
      | Inl e \<Rightarrow> Inl (ParserError (mf_currLine s) e)
      | Inr (next, r) \<Rightarrow>
          if next = mf_curr s then Inr (mf_write up r s)
          else
            (case mf_curr s of
               stateName \<Rightarrow>
                 if \<not> isValidCommand (mf_b s) then Inl (ParserError (mf_currLine s) errInvalidCommand)
                 else
                   (let n = map rlower (mf_b s) in
                    if n = rs ''from'' then Inr (mf_enter up next r (mf_setName (rs ''model'') s))
                    else if n = rs ''parameter'' then Inr (mf_enter up stateParameter r s)
                    else if n = rs ''message'' then Inr (mf_enter up stateMessage r (mf_setName n s))
                    else Inr (mf_enter up next r (mf_setName n s)))
             | stateParameter \<Rightarrow> Inr (mf_enter up next r (mf_setName (mf_b s) s))
             | stateMessage \<Rightarrow>
                 if \<not> isValidMessageRole (mf_b s) then Inl (ParserError (mf_currLine s) errInvalidMessageRole)
                 else Inr (mf_enter up next r (s\<lparr>mf_role := mf_b s\<rparr>))
             | stateComment \<Rightarrow> Inr (mf_enter up next r s)
             | stateNil \<Rightarrow> Inr (mf_enter up next r s)
             | stateValue \<Rightarrow>
                 (case unquote (rtrim (mf_b s)) of
                    None \<Rightarrow> Inr (s\<lparr>mf_b := mf_b s @ [r]\<rparr>)
                  | Some v \<Rightarrow>
                      if isSpace r then Inr (s\<lparr>mf_b := mf_b s @ [r]\<rparr>)
                      else Inr (mf_enter up next r (mf_finish v s)))))"

fun mf_run :: "(rune \<Rightarrow> bool) \<Rightarrow> mf \<Rightarrow> runes \<Rightarrow> mf_error + mf" where
  "mf_run up s [] = Inr s"
| "mf_run up s (r # rest) =
     (case mf_step up s r of Inl e \<Rightarrow> Inl e | Inr s' \<Rightarrow> mf_run up s' rest)"

text \<open>The end of the file flushes the buffer.\<close>

definition mf_flush :: "mf \<Rightarrow> mf_error + mf" where
  "mf_flush s =
     (case mf_curr s of
        stateComment \<Rightarrow> Inr s
      | stateNil \<Rightarrow> Inr s
      | stateValue \<Rightarrow>
          (case unquote (rtrim (mf_b s)) of
             None \<Rightarrow> Inl UnexpectedEOF
           | Some v \<Rightarrow> Inr (mf_finish v s))
      | _ \<Rightarrow> Inl UnexpectedEOF)"

definition ParseFile :: "(rune \<Rightarrow> bool) \<Rightarrow> runes \<Rightarrow> mf_error + Command list" where
  "ParseFile up input =
     (case mf_run up mf_init input of
        Inl e \<Rightarrow> Inl e
      | Inr s \<Rightarrow>
          (case mf_flush s of
             Inl e \<Rightarrow> Inl e
           | Inr s' \<Rightarrow>
               if \<exists>c\<in>set (mf_Commands s'). Cmd_Name c = rs ''model'' then Inr (mf_Commands s')
               else Inl errMissingFrom))"

section \<open>Runs\<close>

lemma mf_run_append:
  "mf_run up s (a @ b) = (case mf_run up s a of Inl e \<Rightarrow> Inl e | Inr s' \<Rightarrow> mf_run up s' b)"
  by (induction a arbitrary: s) (auto split: sum.splits)

text \<open>What a value may consist of without being changed: printable runes and blanks.\<close>

definition value_rune :: "(rune \<Rightarrow> bool) \<Rightarrow> rune \<Rightarrow> bool" where
  "value_rune up r \<longleftrightarrow> isPrint up r \<or> isSpace r \<or> isNewline r"

definition newlines :: "runes \<Rightarrow> nat" where "newlines s = length (filter isNewline s)"

lemma newlines_simps [simp]:
  "newlines [] = 0" "newlines (r # s) = (if isNewline r then Suc (newlines s) else newlines s)"
  "newlines (s @ t) = newlines s + newlines t"
  by (simp_all add: newlines_def)

lemma mf_step_value:
  assumes "mf_curr s = stateValue" "value_rune up r"
    "isNewline r \<Longrightarrow> unquote (rtrim (mf_b s)) = None"
  shows "mf_step up s r = Inr (s\<lparr>mf_b := mf_b s @ [r], mf_currLine := mf_currLine s + newlines [r]\<rparr>)"
proof (cases "isNewline r")
  case True
  then show ?thesis using assms by (simp add: mf_step_def Let_def)
next
  case False
  then show ?thesis
    using assms by (cases "isSpace r") (auto simp: mf_step_def Let_def mf_write_def value_rune_def split: option.splits)
qed

text \<open>In the value state the buffer takes the runes as they come, up to a newline that ends it.\<close>

lemma mf_run_value:
  assumes "mf_curr s = stateValue" "list_all (value_rune up) v"
    "\<And>p r q. v = p @ r # q \<Longrightarrow> isNewline r \<Longrightarrow> unquote (rtrim (mf_b s @ p)) = None"
  shows "mf_run up s v = Inr (s\<lparr>mf_b := mf_b s @ v, mf_currLine := mf_currLine s + newlines v\<rparr>)"
  using assms
proof (induction v arbitrary: s)
  case (Cons r v)
  let ?s = "s\<lparr>mf_b := mf_b s @ [r], mf_currLine := mf_currLine s + newlines [r]\<rparr>"
  have "mf_step up s r = Inr ?s"
    using Cons.prems(1,2) Cons.prems(3)[of "[]" r v] by (intro mf_step_value) auto
  moreover have "mf_run up ?s v = Inr (?s\<lparr>mf_b := mf_b ?s @ v, mf_currLine := mf_currLine ?s + newlines v\<rparr>)"
  proof (rule Cons.IH)
    fix p r' q assume "v = p @ r' # q" "isNewline r'"
    then show "unquote (rtrim (mf_b ?s @ p)) = None"
      using Cons.prems(3)[of "r # p" r' q] by simp
  qed (use Cons.prems in auto)
  ultimately show ?case by simp
qed simp

text \<open>The newline that ends a value.\<close>

lemma mf_step_end:
  assumes "mf_curr s = stateValue" "unquote (rtrim (mf_b s)) = Some v"
  shows "mf_step up s nl =
    Inr ((mf_finish v s)\<lparr>mf_b := [], mf_curr := stateNil, mf_currLine := Suc (mf_currLine s)\<rparr>)"
  using assms by (simp add: mf_step_def nl_def isNewline_def isSpace_def mf_enter_def mf_write_def mf_finish_def isPrint_def Let_def)

section \<open>Quoting\<close>

text \<open>
  The values that survive printing and parsing: no rune that the parser drops; without quotes no
  carriage return, nothing that looks like a quote and no blank at the ends; inside triple quotes
  no triple quote.
\<close>

definition quotable :: "(rune \<Rightarrow> bool) \<Rightarrow> runes \<Rightarrow> bool" where
  "quotable up s =
     (list_all (value_rune up) s \<and>
      (if quote s = s then
         13 \<notin> set s \<and> (s = [] \<or> hd s \<noteq> dq \<and> \<not> rune_space (hd s) \<and> \<not> rune_space (last s))
       else dq \<in> set s \<longrightarrow> \<not> runes_contain triple s))"

lemma runes_contain_iff: "runes_contain t s \<longleftrightarrow> (\<exists>a b. s = a @ t @ b)"
proof (induction s)
  case Nil
  then show ?case by auto
next
  case (Cons r s)
  have "take (length t) (r # s) = t \<longleftrightarrow> (\<exists>b. r # s = t @ b)"
    by (metis append_eq_conv_conj append_take_drop_id)
  moreover have "(\<exists>a b. r # s = a @ t @ b) \<longleftrightarrow> (\<exists>b. r # s = t @ b) \<or> (\<exists>a b. s = a @ t @ b)"
    by (metis append_Cons append_Nil append_eq_Cons_conv)
  ultimately show ?case using Cons.IH by simp
qed

lemma dq_no_space [simp]: "\<not> rune_space dq"
  by (simp add: dq_def rune_space_def)

lemma unquote_triple: "unquote (triple @ s @ triple) = Some s"
  by (simp add: unquote_def triple_def)

lemma unquote_single: "dq \<notin> set s \<Longrightarrow> unquote ([dq] @ s @ [dq]) = Some s"
  by (cases s; cases "tl s") (auto simp: unquote_def triple_def)

lemma quote_cases:
  obtains (raw) "quote s = s" "nl \<notin> set s"
  | (single) "quote s = [dq] @ s @ [dq]" "dq \<notin> set s"
  | (triple) "quote s = triple @ s @ triple" "dq \<in> set s"
proof (cases "nl \<in> set s \<or> (s \<noteq> [] \<and> hd s = 32) \<or> (s \<noteq> [] \<and> last s = 32)")
  case True
  then show thesis using single triple by (cases "dq \<in> set s") (auto simp: quote_def)
next
  case False
  then show thesis using raw by (auto simp: quote_def)
qed

text \<open>Inside the quotes no newline ends the value.\<close>

lemma unquote_open_single:
  assumes "dq \<notin> set p"
  shows "unquote (rtrim (dq # p)) = None"
proof -
  obtain p' w where p: "rtrim (dq # p) = dq # p'" "p = p' @ w" using rtrim_Cons[OF dq_no_space] by metis
  then have "dq \<notin> set p'" using assms by simp
  then have "take 3 (dq # p') \<noteq> triple" "p' \<noteq> [] \<Longrightarrow> last p' \<noteq> dq"
    using last_in_set[of p'] by (cases p'; auto simp: triple_def)+
  then show ?thesis unfolding p(1) by (auto simp: unquote_def)
qed

lemma unquote_open_triple:
  assumes "\<not> runes_contain triple p"
  shows "unquote (rtrim (triple @ p)) = None"
proof -
  obtain p' w where p: "rtrim (dq # [dq, dq] @ p) = dq # p'" "[dq, dq] @ p = p' @ w" "list_all rune_space w"
    using rtrim_Cons[OF dq_no_space] by metis
  have w: "dq \<notin> set w" using p(3) by (auto simp: list_all_iff)
  obtain q where q: "p' = [dq, dq] @ q" "p = q @ w"
  proof (cases p')
    case Nil
    then show thesis using p(2) w by (cases w) auto
  next
    case (Cons a p1)
    then show thesis using p(2) w that by (cases p1; cases w) auto
  qed
  have eq: "rtrim (triple @ p) = triple @ q" using p(1) q by (simp add: triple_def)
  have "\<not> (length q \<ge> 3 \<and> drop (length q - 3) q = triple)"
  proof
    assume "length q \<ge> 3 \<and> drop (length q - 3) q = triple"
    then have "q = take (length q - 3) q @ triple @ []" by (metis append_Nil2 append_take_drop_id)
    then have "p = take (length q - 3) q @ triple @ w" using q(2) by (metis append.assoc append_Nil2)
    then show False using assms by (auto simp: runes_contain_iff)
  qed
  moreover have "drop (length q) (triple @ q) = drop (length q - 3) q" if "3 \<le> length q"
    using that drop_append[of "length q" triple q] by (simp add: triple_def numeral_3_eq_3)
  ultimately show ?thesis unfolding eq by (auto simp: unquote_def triple_def)
qed

text \<open>The whole value: from the blank before it to the newline after it.\<close>

lemma mf_run_quoted:
  assumes "mf_curr s = stateValue" "mf_b s = []" "quotable up v"
  shows "mf_run up s (quote v @ [nl]) =
    Inr ((mf_finish v s)\<lparr>mf_b := [], mf_curr := stateNil, mf_currLine := mf_currLine s + newlines v + 1\<rparr>)"
proof -
  note q = assms(3)[unfolded quotable_def]
  have ok: "list_all (value_rune up) v" using q by simp
  have dq: "value_rune up dq" "\<not> isNewline dq" by (simp_all add: value_rune_def isPrint_def dq_def isNewline_def)
  have run: "mf_run up s (quote v) = Inr (s\<lparr>mf_b := quote v, mf_currLine := mf_currLine s + newlines v\<rparr>)
    \<and> unquote (rtrim (quote v)) = Some v"
  proof (cases v rule: quote_cases)
    case raw
    then have no: "\<not> isNewline r" if "r \<in> set v" for r
      using q that by (auto simp: isNewline_def nl_def)
    have "mf_run up s v = Inr (s\<lparr>mf_b := mf_b s @ v, mf_currLine := mf_currLine s + newlines v\<rparr>)"
      by (rule mf_run_value[OF assms(1) ok]) (use no in auto)
    moreover have "rtrim v = v" using q raw by (intro rtrim_id) auto
    moreover have "unquote v = Some v"
      using q raw by (cases v) (auto simp: unquote_def triple_def)
    ultimately show ?thesis using raw(1) assms(2) by simp
  next
    case single
    have "mf_run up s (dq # v @ [dq]) = Inr (s\<lparr>mf_b := mf_b s @ dq # v @ [dq], mf_currLine := mf_currLine s + newlines (dq # v @ [dq])\<rparr>)"
    proof (rule mf_run_value[OF assms(1)])
      fix p r q assume a: "dq # v @ [dq] = p @ r # q" "isNewline r"
      have "p \<noteq> []" "q \<noteq> []" using a dq(2) by auto
      then obtain p' where p: "p = dq # p'" "v @ [dq] = p' @ r # q" using a by (cases p) auto
      obtain q' where "q = q' @ [dq]" using \<open>q \<noteq> []\<close> p(2) by (cases q rule: rev_cases) auto
      then have "v = p' @ r # q'" using p(2) by simp
      then show "unquote (rtrim (mf_b s @ p)) = None"
        using single(2) unquote_open_single[of p'] p(1) assms(2) by simp
    qed (use ok dq in auto)
    moreover have "rtrim (dq # v @ [dq]) = dq # v @ [dq]" by (rule rtrim_id) simp
    ultimately show ?thesis using single unquote_single[OF single(2)] assms(2) dq(2) by simp
  next
    case triple
    have no: "\<not> runes_contain Modelfile.triple v" using q triple by (auto simp: Modelfile.triple_def)
    have "mf_run up s (quote v) = Inr (s\<lparr>mf_b := mf_b s @ quote v, mf_currLine := mf_currLine s + newlines (quote v)\<rparr>)"
    proof (rule mf_run_value[OF assms(1)])
      show "list_all (value_rune up) (quote v)" using ok dq triple(1) by (simp add: Modelfile.triple_def)
      fix p r q assume a: "quote v = p @ r # q" "isNewline r"
      then have r: "r \<noteq> dq" using dq(2) by auto
      obtain p' where p: "p = Modelfile.triple @ p'" "v @ Modelfile.triple = p' @ r # q"
        using a(1) r unfolding triple(1) Modelfile.triple_def
        by (cases p; cases "tl p"; cases "tl (tl p)") auto
      have "prefix_of_v": "\<exists>q'. v = p' @ q'"
        using p(2) r unfolding Modelfile.triple_def by (auto simp: append_eq_append_conv2 append_eq_Cons_conv Cons_eq_append_conv)
      then have "\<not> runes_contain Modelfile.triple p'" using no unfolding runes_contain_iff by (metis append.assoc)
      then show "unquote (rtrim (mf_b s @ p)) = None"
        using unquote_open_triple[of p'] p(1) assms(2) by simp
    qed
    moreover have "rtrim (quote v) = quote v" using triple(1) by (intro rtrim_id) (simp add: Modelfile.triple_def)
    moreover have "newlines (quote v) = newlines v" using dq(2) triple(1) by (simp add: Modelfile.triple_def)
    ultimately show ?thesis using unquote_triple triple(1) assms(2) by simp
  qed
  show ?thesis
    unfolding mf_run_append using run mf_step_end[of "s\<lparr>mf_b := quote v, mf_currLine := mf_currLine s + newlines v\<rparr>" v up] assms(1)
    by (simp add: mf_finish_def Let_def)
qed

section \<open>Command names\<close>

text \<open>The state after a command name, and the blank after it, have been read in the initial state.\<close>

definition mf_at :: "mf_state \<Rightarrow> runes \<Rightarrow> mf \<Rightarrow> mf" where
  "mf_at st n s = (mf_setName n s)\<lparr>mf_b := [], mf_curr := st\<rparr>"

lemmas mf_eval = mf_step_def mf_enter_def mf_write_def mf_setName_def mf_at_def isPrint_def isAlpha_def isSpace_def
  isNewline_def isValidCommand_def rlower_def Let_def rs_simps

lemma mf_run_name:
  assumes "mf_curr s = stateNil"
  shows "mf_run up s (rs ''FROM '') = Inr (mf_at stateValue (rs ''model'') s)"
    and "mf_run up s (rs ''MESSAGE '') = Inr (mf_at stateMessage (rs ''message'') s)"
    and "mf_run up s (rs ''PARAMETER '') = Inr (s\<lparr>mf_b := [], mf_curr := stateParameter\<rparr>)"
  using assms by (simp_all add: mf_eval)

lemma mf_run_upper:
  assumes "mf_curr s = stateNil" "n \<in> set upper_commands"
  shows "mf_run up s (map rupper n @ [32]) = Inr (mf_at stateValue n s)"
  using assms unfolding upper_commands_def by (auto simp: mf_eval rupper_def)

text \<open>A parameter name.\<close>

definition parameter_rune :: "rune \<Rightarrow> bool" where
  "parameter_rune r \<longleftrightarrow> isAlpha r \<or> isNumber r \<or> r = of_char CHR ''_''"

lemma parameter_rune_print: "parameter_rune r \<Longrightarrow> isPrint up r \<and> \<not> isNewline r"
  by (auto simp: parameter_rune_def isAlpha_def isNumber_def isPrint_def isNewline_def)

lemma mf_run_parameter:
  assumes "mf_curr s = stateParameter" "list_all parameter_rune n"
  shows "mf_run up s n = Inr (s\<lparr>mf_b := mf_b s @ n\<rparr>)"
  using assms
proof (induction n arbitrary: s)
  case (Cons r n)
  have "mf_step up s r = Inr (s\<lparr>mf_b := mf_b s @ [r]\<rparr>)"
    using Cons.prems parameter_rune_print[of r up]
    by (auto simp: mf_step_def mf_write_def Let_def parameter_rune_def)
  then show ?case using Cons.IH[of "s\<lparr>mf_b := mf_b s @ [r]\<rparr>"] Cons.prems by simp
qed simp

lemma mf_step_parameter_end:
  "mf_curr s = stateParameter \<Longrightarrow> mf_step up s 32 = Inr (mf_at stateValue (mf_b s) s)"
  by (simp add: mf_eval isNumber_def)

lemma mf_run_role:
  assumes "mf_curr s = stateMessage" "mf_b s = []" "isValidMessageRole role"
  shows "mf_run up s (role @ [32]) = Inr (s\<lparr>mf_b := [], mf_curr := stateValue, mf_role := role\<rparr>)"
proof -
  have "\<forall>r\<in>{rs ''system'', rs ''user'', rs ''assistant''}.
    mf_run up s (r @ [32]) = Inr (s\<lparr>mf_b := [], mf_curr := stateValue, mf_role := r\<rparr>)"
    using assms(1,2) by (simp add: mf_eval isValidMessageRole_def)
  then show ?thesis using assms(3) by (auto simp: isValidMessageRole_def)
qed

section \<open>Commands\<close>

text \<open>
  The commands that are printed so that they can be read back. A model path is printed without
  quotes, so it must not need them; a message starts with its role; every other name that is not
  one of the keywords is printed as a parameter.
\<close>

definition printable :: "(rune \<Rightarrow> bool) \<Rightarrow> Command \<Rightarrow> bool" where
  "printable up c =
     (if Cmd_Name c = rs ''model'' then quotable up (Cmd_Args c) \<and> quote (Cmd_Args c) = Cmd_Args c
      else if Cmd_Name c \<in> set upper_commands then quotable up (Cmd_Args c)
      else if Cmd_Name c = rs ''message'' then
        (case cut_colon (Cmd_Args c) of
           (role, message) \<Rightarrow> isValidMessageRole role \<and> quotable up message \<and> Cmd_Args c = role @ rs '': '' @ message)
      else list_all parameter_rune (Cmd_Name c) \<and> quotable up (Cmd_Args c))"

definition mf_rest :: "mf \<Rightarrow> mf_state \<times> runes" where
  "mf_rest s = (mf_curr s, mf_role s)"

lemma mf_run_command:
  assumes "mf_curr s = stateNil" "mf_role s = []" "printable up c"
  shows "\<exists>s'. mf_run up s (Command_String c @ [nl]) = Inr s' \<and> mf_curr s' = stateNil \<and> mf_role s' = []
    \<and> mf_Commands s' = mf_Commands s @ [\<lparr>Cmd_Name = Cmd_Name c, Cmd_Args = Cmd_Args c\<rparr>]"
proof -
  note pr = assms(3)[unfolded printable_def]
  consider (model) "Cmd_Name c = rs ''model''"
    | (upper) "Cmd_Name c \<in> set upper_commands" "Cmd_Name c \<noteq> rs ''model''"
    | (message) "Cmd_Name c = rs ''message''" "Cmd_Name c \<noteq> rs ''model''" "Cmd_Name c \<notin> set upper_commands"
    | (parameter) "Cmd_Name c \<noteq> rs ''message''" "Cmd_Name c \<noteq> rs ''model''" "Cmd_Name c \<notin> set upper_commands"
    by blast
  then show ?thesis
  proof cases
    case model
    let ?s = "mf_at stateValue (rs ''model'') s"
    have "mf_run up ?s (quote (Cmd_Args c) @ [nl]) =
        Inr ((mf_finish (Cmd_Args c) ?s)\<lparr>mf_b := [], mf_curr := stateNil, mf_currLine := mf_currLine ?s + newlines (Cmd_Args c) + 1\<rparr>)"
      using pr model by (intro mf_run_quoted) (simp_all add: mf_at_def mf_setName_def)
    then show ?thesis
      using model assms(1,2) pr mf_run_name(1)[OF assms(1), of up]
      by (simp add: Command_String_def mf_run_append mf_finish_def mf_at_def mf_setName_def Let_def)
  next
    case upper
    let ?s = "mf_at stateValue (Cmd_Name c) s"
    have "mf_run up ?s (quote (Cmd_Args c) @ [nl]) =
        Inr ((mf_finish (Cmd_Args c) ?s)\<lparr>mf_b := [], mf_curr := stateNil, mf_currLine := mf_currLine ?s + newlines (Cmd_Args c) + 1\<rparr>)"
      using pr upper by (intro mf_run_quoted) (simp_all add: mf_at_def mf_setName_def)
    moreover have "Command_String c @ [nl] = (map rupper (Cmd_Name c) @ [32]) @ quote (Cmd_Args c) @ [nl]"
      using upper by (simp add: Command_String_def)
    ultimately show ?thesis
      unfolding \<open>Command_String c @ [nl] = _\<close> mf_run_append[of up s "map rupper (Cmd_Name c) @ [32]"]
      using assms(1,2) pr mf_run_upper[OF assms(1) upper(1), of up]
      by (simp add: mf_finish_def mf_at_def mf_setName_def Let_def)
  next
    case message
    obtain role m where rm: "cut_colon (Cmd_Args c) = (role, m)" by fastforce
    then have p: "isValidMessageRole role" "quotable up m" "Cmd_Args c = role @ rs '': '' @ m"
      using pr message by auto
    let ?s = "(mf_at stateMessage (rs ''message'') s)\<lparr>mf_b := [], mf_curr := stateValue, mf_role := role\<rparr>"
    have "mf_run up (mf_at stateMessage (rs ''message'') s) (role @ [32]) = Inr ?s"
      by (rule mf_run_role) (use p(1) in \<open>simp_all add: mf_at_def\<close>)
    moreover have "mf_run up ?s (quote m @ [nl]) =
        Inr ((mf_finish m ?s)\<lparr>mf_b := [], mf_curr := stateNil, mf_currLine := mf_currLine ?s + newlines m + 1\<rparr>)"
      by (rule mf_run_quoted) (use p(2) in simp_all)
    moreover have "Command_String c @ [nl] = rs ''MESSAGE '' @ (role @ [32]) @ quote m @ [nl]"
      using message rm by (simp add: Command_String_def)
    moreover have "role \<noteq> []" using p(1) by (auto simp: isValidMessageRole_def rs_def)
    ultimately show ?thesis
      unfolding \<open>Command_String c @ [nl] = _\<close> mf_run_append[of up s "rs ''MESSAGE ''"] mf_run_append[of up _ "role @ [32]"]
      using assms(1,2) pr mf_run_name(2)[OF assms(1), of up] p(3) message(1)
      by (simp add: mf_finish_def mf_at_def mf_setName_def Let_def)
  next
    case parameter
    let ?n = "Cmd_Name c"
    let ?par = "s\<lparr>mf_b := [], mf_curr := stateParameter\<rparr>"
    let ?s = "mf_at stateValue ?n (?par\<lparr>mf_b := ?n\<rparr>)"
    have "list_all parameter_rune ?n" using pr parameter by simp
    then have "mf_run up ?par ?n = Inr (?par\<lparr>mf_b := ?n\<rparr>)" using mf_run_parameter[of ?par ?n up] by simp
    moreover have "mf_step up (?par\<lparr>mf_b := ?n\<rparr>) 32 = Inr ?s"
      using mf_step_parameter_end[of "?par\<lparr>mf_b := ?n\<rparr>" up] by simp
    moreover have "mf_run up ?s (quote (Cmd_Args c) @ [nl]) =
        Inr ((mf_finish (Cmd_Args c) ?s)\<lparr>mf_b := [], mf_curr := stateNil, mf_currLine := mf_currLine ?s + newlines (Cmd_Args c) + 1\<rparr>)"
      using pr parameter by (intro mf_run_quoted) (simp_all add: mf_at_def mf_setName_def)
    moreover have "Command_String c @ [nl] = rs ''PARAMETER '' @ ?n @ [32] @ quote (Cmd_Args c) @ [nl]"
      using parameter by (simp add: Command_String_def)
    ultimately show ?thesis
      unfolding \<open>Command_String c @ [nl] = _\<close> mf_run_append[of up s "rs ''PARAMETER ''"] mf_run_append[of up _ ?n]
      using assms(1,2) pr mf_run_name(3)[OF assms(1), of up]
      by (simp add: mf_finish_def mf_at_def mf_setName_def Let_def)
  qed
qed

lemma mf_run_commands:
  assumes "mf_curr s = stateNil" "mf_role s = []" "list_all (printable up) cs"
  shows "\<exists>s'. mf_run up s (Modelfile_String cs) = Inr s' \<and> mf_curr s' = stateNil \<and> mf_role s' = []
    \<and> mf_Commands s' = mf_Commands s @ cs"
  using assms
proof (induction cs arbitrary: s)
  case (Cons c cs)
  have "printable up c" using Cons.prems(3) by simp_all
  from mf_run_command[OF Cons.prems(1,2) this] obtain s1 where
    1: "mf_run up s (Command_String c @ [nl]) = Inr s1" "mf_curr s1 = stateNil" "mf_role s1 = []"
      "mf_Commands s1 = mf_Commands s @ [c]" by auto
  have "list_all (printable up) cs" using Cons.prems(3) by simp_all
  from Cons.IH[OF 1(2,3) this] obtain s2 where
    2: "mf_run up s1 (Modelfile_String cs) = Inr s2" "mf_curr s2 = stateNil" "mf_role s2 = []"
      "mf_Commands s2 = mf_Commands s1 @ cs" by blast
  have "Modelfile_String (c # cs) = (Command_String c @ [nl]) @ Modelfile_String cs"
    by (simp add: Modelfile_String_def)
  then show ?case using 1 2 mf_run_append[of up s "Command_String c @ [nl]"] by simp
qed (simp add: Modelfile_String_def)

section \<open>What can be parsed\<close>

text \<open>The invariant of the state machine: names are names, texts are made of runes of values.\<close>

definition command_typed :: "(rune \<Rightarrow> bool) \<Rightarrow> Command \<Rightarrow> bool" where
  "command_typed up c \<longleftrightarrow> list_all parameter_rune (Cmd_Name c) \<and> list_all (value_rune up) (Cmd_Args c)"

definition mf_inv :: "(rune \<Rightarrow> bool) \<Rightarrow> mf \<Rightarrow> bool" where
  "mf_inv up s \<longleftrightarrow>
     list_all (command_typed up) (mf_Commands s) \<and> list_all parameter_rune (Cmd_Name (mf_cmd s)) \<and>
     list_all (value_rune up) (mf_b s) \<and> list_all (value_rune up) (mf_role s) \<and>
     (mf_curr s = stateParameter \<longrightarrow> list_all parameter_rune (mf_b s))"

lemma rtrim_subset: "set (rtrim s) \<subseteq> set s"
  unfolding rtrim_def rtrim_left_def rtrim_right_def
  by (auto dest!: set_dropWhileD)

lemma unquote_subset: "unquote s = Some v \<Longrightarrow> set v \<subseteq> set s"
  by (auto simp: unquote_def split: if_splits dest!: in_set_takeD in_set_dropD)

lemma valid_command_parameter_runes:
  "isValidCommand b \<Longrightarrow> list_all parameter_rune (map rlower b)"
  unfolding isValidCommand_def
  by (elim insertE; simp add: rs_simps parameter_rune_def isAlpha_def)

lemma mf_write_inv:
  "mf_inv up (s\<lparr>mf_b := []\<rparr>) \<Longrightarrow> next \<noteq> stateParameter \<or> \<not> isPrint up r \<Longrightarrow> mf_inv up (mf_enter up next r s)"
  by (auto simp: mf_inv_def mf_enter_def mf_write_def value_rune_def)

lemma mf_finish_inv:
  assumes "mf_inv up s" "list_all (value_rune up) v"
  shows "mf_inv up (mf_finish v s)"
proof -
  have "list_all (value_rune up) (rs '': '')"
    by (simp add: rs_simps value_rune_def isPrint_def)
  then show ?thesis using assms by (auto simp: mf_inv_def mf_finish_def command_typed_def Let_def)
qed

lemma parse_rune_same:
  "parseRuneForState r cs = Inr (cs, r') \<Longrightarrow> cs = stateParameter \<Longrightarrow> parameter_rune r'"
  by (auto simp: parameter_rune_def split: if_splits)

lemma parse_rune_parameter: "parseRuneForState r cs = Inr (stateParameter, r') \<Longrightarrow> cs = stateParameter"
  by (cases cs) (auto split: if_splits)

lemma parse_rune_name: "parseRuneForState r stateName = Inr (nxt, r') \<Longrightarrow> nxt \<noteq> stateName \<Longrightarrow> nxt = stateValue \<and> r' = 0"
  by (auto split: if_splits)

lemma mf_inv_setName: "mf_inv up s \<Longrightarrow> list_all parameter_rune n \<Longrightarrow> mf_inv up (mf_setName n s)"
  by (auto simp: mf_inv_def mf_setName_def)

lemma mf_inv_reset: "mf_inv up s \<Longrightarrow> mf_inv up (s\<lparr>mf_b := []\<rparr>)"
  by (auto simp: mf_inv_def)

lemma print_0 [simp]: "\<not> isPrint up 0"
  by (simp add: isPrint_def)

lemma mf_step_inv:
  assumes "mf_inv up s0" "mf_step up s0 r0 = Inr s'"
  shows "mf_inv up s'"
proof -
  define s where "s = (if isNewline r0 then s0\<lparr>mf_currLine := mf_currLine s0 + 1\<rparr> else s0)"
  have inv: "mf_inv up s" using assms(1) by (simp add: s_def mf_inv_def)
  obtain nxt r where p: "parseRuneForState r0 (mf_curr s) = Inr (nxt, r)"
    using assms(2) by (auto simp: mf_step_def Let_def s_def[symmetric] split: sum.splits rune_error.splits)
  note step = assms(2)[unfolded mf_step_def Let_def, folded s_def, unfolded p, simplified]
  show ?thesis
  proof (cases "nxt = mf_curr s")
    case True
    then have "s' = mf_write up r s" using step by simp
    moreover have "mf_curr s = stateParameter \<Longrightarrow> parameter_rune r" using parse_rune_same[of r0 "mf_curr s" r] p True by simp
    ultimately show ?thesis using inv by (auto simp: mf_write_def mf_inv_def value_rune_def)
  next
    case False
    have np: "nxt \<noteq> stateParameter" using parse_rune_parameter p False by metis
    show ?thesis
    proof (cases "mf_curr s")
      case stateName
      then have r: "nxt = stateValue" "r = 0" using parse_rune_name[of r0 nxt r] p False by simp_all
      have valid: "isValidCommand (mf_b s)" using step False stateName by (simp split: if_splits)
      have n: "list_all parameter_rune (map rlower (mf_b s))" by (rule valid_command_parameter_runes[OF valid])
      have model: "list_all parameter_rune (rs ''model'')" by (simp add: rs_simps parameter_rune_def isAlpha_def)
      show ?thesis
        using step False stateName valid r mf_inv_setName[OF inv n] mf_inv_setName[OF inv model] inv
        by (auto split: if_splits intro!: mf_write_inv mf_inv_reset)
    next
      case stateValue
      have v: "value_rune up r" using stateValue p False by (auto simp: value_rune_def split: if_splits)
      have more: "mf_inv up (s\<lparr>mf_b := mf_b s @ [r]\<rparr>)" using inv v stateValue by (auto simp: mf_inv_def)
      show ?thesis
      proof (cases "unquote (rtrim (mf_b s))")
        case (Some w)
        then have "set w \<subseteq> set (mf_b s)" using unquote_subset rtrim_subset by blast
        then have "list_all (value_rune up) w" using inv by (auto simp: mf_inv_def list_all_iff)
        from mf_finish_inv[OF inv this] show ?thesis
          using step False stateValue Some more np by (auto split: if_splits intro!: mf_write_inv mf_inv_reset)
      qed (use step False stateValue more in auto)
    next
      case stateParameter
      then have "list_all parameter_rune (mf_b s)" using inv by (simp add: mf_inv_def)
      then show ?thesis
        using step False stateParameter np mf_inv_setName[OF inv] by (auto intro!: mf_write_inv mf_inv_reset)
    next
      case stateMessage
      have "mf_inv up (s\<lparr>mf_role := mf_b s\<rparr>)" using inv by (auto simp: mf_inv_def)
      then show ?thesis
        using step False stateMessage np by (auto split: if_splits intro!: mf_write_inv mf_inv_reset)
    qed (use step False np inv in \<open>auto intro!: mf_write_inv mf_inv_reset\<close>)
  qed
qed

lemma mf_run_inv: "mf_inv up s \<Longrightarrow> mf_run up s input = Inr s' \<Longrightarrow> mf_inv up s'"
  by (induction input arbitrary: s) (auto split: sum.splits dest: mf_step_inv)

lemma mf_flush_inv:
  assumes "mf_inv up s" "mf_flush s = Inr s'" shows "mf_inv up s'"
proof (cases "mf_curr s = stateValue")
  case True
  then obtain v where v: "unquote (rtrim (mf_b s)) = Some v" "s' = mf_finish v s"
    using assms(2) by (auto simp: mf_flush_def split: option.splits)
  then have "set v \<subseteq> set (mf_b s)" using unquote_subset rtrim_subset by blast
  then have "list_all (value_rune up) v" using assms(1) by (auto simp: mf_inv_def list_all_iff)
  then show ?thesis using v(2) mf_finish_inv[OF assms(1)] by simp
next
  case False
  then show ?thesis using assms by (auto simp: mf_flush_def split: mf_state.splits)
qed

text \<open>The line counter.\<close>

lemma mf_finish_line [simp]: "mf_currLine (mf_finish v s) = mf_currLine s"
  by (simp add: mf_finish_def Let_def)

lemma mf_enter_line [simp]: "mf_currLine (mf_enter up st r s) = mf_currLine s"
  by (simp add: mf_enter_def mf_write_def)

lemma mf_setName_line [simp]: "mf_currLine (mf_setName n s) = mf_currLine s"
  by (simp add: mf_setName_def)

lemma mf_step_line:
  "mf_step up s r = Inr s' \<Longrightarrow> mf_currLine s' = mf_currLine s + newlines [r]"
  "mf_step up s r = Inl (ParserError l e) \<Longrightarrow> l = mf_currLine s + newlines [r]"
  by (auto simp: mf_step_def Let_def mf_write_def
      split: sum.splits rune_error.splits prod.splits if_splits mf_state.splits option.splits)

lemma mf_run_error_line:
  "mf_run up s input = Inl (ParserError l e) \<Longrightarrow>
     \<exists>p r q. input = p @ r # q \<and> l = mf_currLine s + newlines (p @ [r])"
proof (induction input arbitrary: s)
  case (Cons r input)
  show ?case
  proof (cases "mf_step up s r")
    case (Inl e')
    then have "l = mf_currLine s + newlines [r]" using Cons.prems mf_step_line(2) by simp
    then show ?thesis by (intro exI[of _ "[]"]) auto
  next
    case (Inr s')
    then have "mf_run up s' input = Inl (ParserError l e)" using Cons.prems by simp
    from Cons.IH[OF this] obtain p r' q where "input = p @ r' # q" "l = mf_currLine s' + newlines (p @ [r'])"
      by blast
    then show ?thesis using mf_step_line(1)[OF Inr] by (intro exI[of _ "r # p"]) auto
  qed
qed simp

section \<open>Where printing and parsing part\<close>

text \<open>
  A parameter may carry the name of a command: \<^verbatim>\<open>PARAMETER model x\<close> counts as the FROM line. A
  blank too many before the name gives a parameter without a name. A triple quote inside a
  multi-line text ends it early.
\<close>

lemmas mf_compute = ParseFile_def mf_init_def mf_eval nl_def isNumber_def mf_flush_def mf_finish_def unquote_def
  dq_def triple_def quote_def rtrim_def rtrim_left_def rtrim_right_def rune_space_def Modelfile_String_def
  Command_String_def upper_commands_def rupper_def isValidMessageRole_def

lemma ParseFile_parameter_model:
  "ParseFile up (rs ''PARAMETER model x'') = Inr [\<lparr>Cmd_Name = rs ''model'', Cmd_Args = rs ''x''\<rparr>]"
  by (simp add: mf_compute)

lemma ParseFile_nameless_parameter:
  "ParseFile up (rs ''FROM m'' @ [nl] @ rs ''PARAMETER  seed 1'') =
     Inr [\<lparr>Cmd_Name = rs ''model'', Cmd_Args = rs ''m''\<rparr>, \<lparr>Cmd_Name = [], Cmd_Args = rs ''seed 1''\<rparr>]"
  by (simp add: mf_compute)

lemma ParseFile_triple_quote:
  "ParseFile up (Modelfile_String
      [\<lparr>Cmd_Name = rs ''model'', Cmd_Args = rs ''m''\<rparr>,
       \<lparr>Cmd_Name = rs ''system'', Cmd_Args = triple @ [nl] @ rs ''FROM x''\<rparr>]) =
     Inr [\<lparr>Cmd_Name = rs ''model'', Cmd_Args = rs ''m''\<rparr>, \<lparr>Cmd_Name = rs ''system'', Cmd_Args = []\<rparr>,
          \<lparr>Cmd_Name = rs ''model'', Cmd_Args = rs ''x'' @ triple\<rparr>]"
  by (simp add: mf_compute)

section \<open>Properties\<close>

text \<open>
  C10. A Modelfile that is printed is read back: for commands whose arguments can be quoted (no rune
  the parser drops; without quotes nothing that the parser would trim or take for a quote; in triple
  quotes no triple quote) and that include a FROM line, parsing the printed text gives the commands,
  multi-line templates and messages included.
\<close>

theorem ParseFile_Modelfile_String:
  assumes "list_all (printable up) cs" "\<exists>c\<in>set cs. Cmd_Name c = rs ''model''"
  shows "ParseFile up (Modelfile_String cs) = Inr cs"
proof -
  have "mf_curr mf_init = stateNil" "mf_role mf_init = []" "mf_Commands mf_init = []"
    by (simp_all add: mf_init_def)
  with mf_run_commands[of mf_init up cs] assms(1) obtain s where
    "mf_run up mf_init (Modelfile_String cs) = Inr s" "mf_curr s = stateNil" "mf_Commands s = cs" by auto
  then show ?thesis using assms(2) by (simp add: ParseFile_def mf_flush_def)
qed

theorem ParseFile_Modelfile_String_witness:
  "ParseFile (\<lambda>_. False) (rs ''FROM llama3'' @ [nl] @ rs ''SYSTEM '' @ [dq] @ rs ''be'' @ [nl] @ rs ''kind'' @ [dq, nl]
      @ rs ''MESSAGE user hi'' @ [nl])
    = Inr [\<lparr>Cmd_Name = rs ''model'', Cmd_Args = rs ''llama3''\<rparr>,
       \<lparr>Cmd_Name = rs ''system'', Cmd_Args = rs ''be'' @ [nl] @ rs ''kind''\<rparr>,
       \<lparr>Cmd_Name = rs ''message'', Cmd_Args = rs ''user: hi''\<rparr>]"
proof -
  let ?cs = "[\<lparr>Cmd_Name = rs ''model'', Cmd_Args = rs ''llama3''\<rparr>,
       \<lparr>Cmd_Name = rs ''system'', Cmd_Args = rs ''be'' @ [nl] @ rs ''kind''\<rparr>,
       \<lparr>Cmd_Name = rs ''message'', Cmd_Args = rs ''user: hi''\<rparr>]"
  have "list_all (printable (\<lambda>_. False)) ?cs" "\<exists>c\<in>set ?cs. Cmd_Name c = rs ''model''" by (simp_all add: printable_def quotable_def value_rune_def mf_compute)
  moreover have "Modelfile_String ?cs = rs ''FROM llama3'' @ [nl] @ rs ''SYSTEM '' @ [dq] @ rs ''be'' @ [nl] @ rs ''kind'' @ [dq, nl]
      @ rs ''MESSAGE user hi'' @ [nl]" by (simp add: mf_compute)
  ultimately show ?thesis using ParseFile_Modelfile_String[of "\<lambda>_. False" ?cs] by simp
qed

text \<open>
  C35. Whatever the file, the commands of a parsed Modelfile are well-typed: names consist of letters,
  digits and underscores, arguments of printable runes, blanks and line ends, and one command is a
  FROM line.
\<close>

theorem ParseFile_typed:
  assumes "ParseFile up input = Inr cs"
  shows "list_all (command_typed up) cs \<and> (\<exists>c\<in>set cs. Cmd_Name c = rs ''model'')"
proof -
  obtain s s' where s: "mf_run up mf_init input = Inr s" "mf_flush s = Inr s'" "cs = mf_Commands s'"
    "\<exists>c\<in>set cs. Cmd_Name c = rs ''model''"
    using assms by (auto simp: ParseFile_def split: sum.splits if_splits)
  have "mf_inv up mf_init" by (simp add: mf_inv_def mf_init_def)
  from mf_flush_inv[OF mf_run_inv[OF this s(1)] s(2)] show ?thesis using s(3,4) by (simp add: mf_inv_def)
qed

theorem ParseFile_typed_witness:
  "list_all (command_typed (\<lambda>_. False)) [\<lparr>Cmd_Name = rs ''model'', Cmd_Args = rs ''m''\<rparr>]
    \<and> (\<exists>c\<in>set [\<lparr>Cmd_Name = rs ''model'', Cmd_Args = rs ''m''\<rparr>]. Cmd_Name c = rs ''model'')"
proof -
  have "ParseFile (\<lambda>_. False) (rs ''FROM m'') = Inr [\<lparr>Cmd_Name = rs ''model'', Cmd_Args = rs ''m''\<rparr>]" by (simp add: mf_compute)
  then show ?thesis by (rule ParseFile_typed)
qed



end
