(* ===== verification/ModelParams.thy ===== *)
theory ModelParams
  imports GoStrings
begin

text \<open>
  The model parameters of \<^verbatim>\<open>api/types.go\<close>: \<open>FormatParams\<close> turns the texts of a Modelfile into typed
  values by looking up the type of the option, \<open>FromMap\<close> stores values (decoded from JSON) in the
  options. Both go over the fields of a struct by reflection; here the struct is the table
  \<open>option_kinds\<close> of its JSON names and types. Floating-point numbers are the types \<open>'f\<close> (32 bits) and
  \<open>'d\<close> (64 bits), and their conversions are arguments.
\<close>

section \<open>The options\<close>

datatype kind = KInt | KFloat32 | KSlice | KPtrInt | KPtrBool

text \<open>The fields of \<open>Options\<close> and of the embedded \<open>Runner\<close>.\<close>

definition runner_kinds :: "(string \<times> kind) list" where
  "runner_kinds =
     [(''num_ctx'', KInt), (''num_batch'', KInt), (''num_gpu'', KInt), (''main_gpu'', KPtrInt),
      (''use_mmap'', KPtrBool), (''num_thread'', KInt), (''draft_num_predict'', KInt)]"

definition option_kinds :: "(string \<times> kind) list" where
  "option_kinds = runner_kinds @
     [(''num_keep'', KInt), (''seed'', KInt), (''num_predict'', KInt), (''top_k'', KInt), (''top_p'', KFloat32),
      (''min_p'', KFloat32), (''typical_p'', KFloat32), (''repeat_last_n'', KInt), (''temperature'', KFloat32),
      (''repeat_penalty'', KFloat32), (''presence_penalty'', KFloat32), (''frequency_penalty'', KFloat32),
      (''stop'', KSlice)]"

datatype 'f optval =
    OInt int
  | OFloat 'f
  | OStrings "string list"
  | OPtrInt "int option"
  | OPtrBool "bool option"

type_synonym 'f Options = "string \<Rightarrow> 'f optval option"

text \<open>\<open>lit\<close> is the value of a decimal literal, \<open>ctx\<close> the configured context length.\<close>

definition DefaultOptions :: "(string \<Rightarrow> 'f) \<Rightarrow> int \<Rightarrow> 'f Options" where
  "DefaultOptions lit ctx = map_of
     [(''num_predict'', OInt (-1)), (''num_keep'', OInt 4), (''temperature'', OFloat (lit ''0.8'')),
      (''top_k'', OInt 40), (''top_p'', OFloat (lit ''0.9'')), (''typical_p'', OFloat (lit ''1.0'')),
      (''repeat_last_n'', OInt 64), (''repeat_penalty'', OFloat (lit ''1.0'')),
      (''presence_penalty'', OFloat (lit ''0.0'')), (''frequency_penalty'', OFloat (lit ''0.0'')),
      (''seed'', OInt (-1)), (''num_ctx'', OInt ctx), (''num_batch'', OInt 512), (''num_gpu'', OInt (-1)),
      (''num_thread'', OInt 0), (''draft_num_predict'', OInt 4), (''use_mmap'', OPtrBool None),
      (''main_gpu'', OPtrInt None), (''min_p'', OFloat (lit ''0'')), (''stop'', OStrings [])]"

fun kind_of :: "'f optval \<Rightarrow> kind" where
  "kind_of (OInt _) = KInt"
| "kind_of (OFloat _) = KFloat32"
| "kind_of (OStrings _) = KSlice"
| "kind_of (OPtrInt _) = KPtrInt"
| "kind_of (OPtrBool _) = KPtrBool"

text \<open>The struct: exactly the fields of the table, each with a value of its type.\<close>

definition options_typed :: "'f Options \<Rightarrow> bool" where
  "options_typed opts \<longleftrightarrow> map_option kind_of \<circ> opts = map_of option_kinds"

section \<open>Values\<close>

text \<open>The dynamic values the two functions deal with; \<open>APtrBool\<close> is a pointer to a boolean.\<close>

datatype ('f, 'd) any =
    ANil
  | AInt64 int
  | AFloat32 'f
  | AFloat64 'd
  | ABool bool
  | APtrBool bool
  | AString string
  | AStrings "string list"
  | AList "('f, 'd) any list"

text \<open>\<open>strconv.ParseInt(s, 10, 64)\<close>: an optional sign, decimal digits, and the range check.\<close>

definition digit :: "char \<Rightarrow> bool" where
  "digit c \<longleftrightarrow> (48::nat) \<le> of_char c \<and> of_char c \<le> (57::nat)"

definition digits_val :: "string \<Rightarrow> int" where
  "digits_val = foldl (\<lambda>v c. 10 * v + (of_char c - 48)) 0"

definition ParseInt64 :: "string \<Rightarrow> int option" where
  "ParseInt64 s =
     (let neg = (s \<noteq> [] \<and> hd s = CHR ''-'');
          ds = (if s \<noteq> [] \<and> (hd s = CHR ''-'' \<or> hd s = CHR ''+'') then tl s else s);
          v = (if neg then - digits_val ds else digits_val ds)
      in if ds = [] \<or> \<not> list_all digit ds then None
         else if - (2 ^ 63) \<le> v \<and> v < 2 ^ 63 then Some v
         else None)"

definition ParseBool :: "string \<Rightarrow> bool option" where
  "ParseBool s =
     (if s \<in> {''1'', ''t'', ''T'', ''TRUE'', ''true'', ''True''} then Some True
      else if s \<in> {''0'', ''f'', ''F'', ''FALSE'', ''false'', ''False''} then Some False
      else None)"

section \<open>From texts to values\<close>

datatype param_error = UnknownParameter string | InvalidFloat | InvalidInt | InvalidBool

text \<open>
  One turn of the loop. \<open>vals[0]\<close> panics without a value (the outer \<open>None\<close>); \<open>parse32\<close> is
  \<^verbatim>\<open>strconv.ParseFloat(s, 32)\<close> with the conversion to \<^verbatim>\<open>float32\<close>.
\<close>

definition FormatParam ::
  "(string \<Rightarrow> 'f option) \<Rightarrow> string \<Rightarrow> string list \<Rightarrow> (param_error + ('f, 'd) any) option" where
  "FormatParam parse32 key vals =
     (case map_of option_kinds key of
        None \<Rightarrow> Some (Inl (UnknownParameter key))
      | Some KSlice \<Rightarrow> Some (Inr (AStrings vals))
      | Some k \<Rightarrow>
          (case vals of
             [] \<Rightarrow> None
           | v # _ \<Rightarrow>
               Some (case k of
                 KFloat32 \<Rightarrow> (case parse32 v of None \<Rightarrow> Inl InvalidFloat | Some f \<Rightarrow> Inr (AFloat32 f))
               | KInt \<Rightarrow> (case ParseInt64 v of None \<Rightarrow> Inl InvalidInt | Some i \<Rightarrow> Inr (AInt64 i))
               | KPtrBool \<Rightarrow> (case ParseBool v of None \<Rightarrow> Inl InvalidBool | Some b \<Rightarrow> Inr (APtrBool b))
               | KPtrInt \<Rightarrow> (case ParseInt64 v of None \<Rightarrow> Inl InvalidInt | Some i \<Rightarrow> Inr (AInt64 i))
               | KSlice \<Rightarrow> Inr (AStrings vals))))"

text \<open>The maps are lists of entries with distinct keys, in the order in which Go happens to visit
  them.\<close>

fun FormatParams ::
  "(string \<Rightarrow> 'f option) \<Rightarrow> (string \<times> string list) list \<Rightarrow> (param_error + (string \<times> ('f, 'd) any) list) option" where
  "FormatParams parse32 [] = Some (Inr [])"
| "FormatParams parse32 ((key, vals) # params) =
     (case FormatParam parse32 key vals of
        None \<Rightarrow> None
      | Some (Inl e) \<Rightarrow> Some (Inl e)
      | Some (Inr v) \<Rightarrow>
          (case FormatParams parse32 params of
             None \<Rightarrow> None
           | Some (Inl e) \<Rightarrow> Some (Inl e)
           | Some (Inr out) \<Rightarrow> Some (Inr ((key, v) # out))))"

section \<open>From values to options\<close>

datatype option_error = MustBe string kind | MustBeStrings string

fun strings_of :: "('f, 'd) any list \<Rightarrow> string list option" where
  "strings_of [] = Some []"
| "strings_of (AString s # vs) = map_option ((#) s) (strings_of vs)"
| "strings_of (_ # vs) = None"

text \<open>The switch over the type of the field; \<open>to_int\<close> is the conversion \<^verbatim>\<open>int64(t)\<close> of a 64-bit
  float, \<open>to32\<close> the one of \<open>SetFloat\<close>.\<close>

definition field_of ::
  "('d \<Rightarrow> int) \<Rightarrow> ('d \<Rightarrow> 'f) \<Rightarrow> string \<Rightarrow> kind \<Rightarrow> ('f, 'd) any \<Rightarrow> option_error + 'f optval" where
  "field_of to_int to32 key k val =
     (case k of
        KInt \<Rightarrow>
          (case val of
             AInt64 t \<Rightarrow> Inr (OInt t)
           | AFloat64 t \<Rightarrow> Inr (OInt (to_int t))
           | _ \<Rightarrow> Inl (MustBe key k))
      | KFloat32 \<Rightarrow> (case val of AFloat64 v \<Rightarrow> Inr (OFloat (to32 v)) | _ \<Rightarrow> Inl (MustBe key k))
      | KSlice \<Rightarrow>
          (case val of
             AList vs \<Rightarrow> (case strings_of vs of None \<Rightarrow> Inl (MustBeStrings key) | Some ss \<Rightarrow> Inr (OStrings ss))
           | _ \<Rightarrow> Inl (MustBe key k))
      | KPtrBool \<Rightarrow> (case val of ABool b \<Rightarrow> Inr (OPtrBool (Some b)) | _ \<Rightarrow> Inl (MustBe key k))
      | KPtrInt \<Rightarrow>
          (case val of
             AInt64 t \<Rightarrow> Inr (OPtrInt (Some t))
           | AFloat64 t \<Rightarrow> Inr (OPtrInt (Some (to_int t)))
           | _ \<Rightarrow> Inl (MustBe key k)))"

text \<open>An unknown option is logged and ignored, a null keeps the option; an error leaves the options
  set so far changed.\<close>

fun FromMap ::
  "('d \<Rightarrow> int) \<Rightarrow> ('d \<Rightarrow> 'f) \<Rightarrow> (string \<times> ('f, 'd) any) list \<Rightarrow> 'f Options
    \<Rightarrow> option_error option \<times> 'f Options" where
  "FromMap to_int to32 [] opts = (None, opts)"
| "FromMap to_int to32 ((key, val) # m) opts =
     (case map_of option_kinds key of
        None \<Rightarrow> FromMap to_int to32 m opts
      | Some k \<Rightarrow>
          if val = ANil then FromMap to_int to32 m opts
          else
            (case field_of to_int to32 key k val of
               Inl e \<Rightarrow> (Some e, opts)
             | Inr v \<Rightarrow> FromMap to_int to32 m (opts(key \<mapsto> v))))"

section \<open>Values over the wire\<close>

text \<open>
  Between the two functions the values travel as JSON: numbers come back as 64-bit floats
  (\<open>flt\<close>, \<open>to64\<close>), a pointer as what it points to, and a list of strings as a list of values.
\<close>

fun via_json :: "(int \<Rightarrow> 'd) \<Rightarrow> ('f \<Rightarrow> 'd) \<Rightarrow> ('f, 'd) any \<Rightarrow> ('f, 'd) any" where
  "via_json flt to64 (AInt64 i) = AFloat64 (flt i)"
| "via_json flt to64 (AFloat32 f) = AFloat64 (to64 f)"
| "via_json flt to64 (APtrBool b) = ABool b"
| "via_json flt to64 (AStrings ss) = AList (map AString ss)"
| "via_json flt to64 (AList vs) = AList (map (via_json flt to64) vs)"
| "via_json flt to64 v = v"

text \<open>What the option means that a text stands for.\<close>

fun meaning :: "kind \<Rightarrow> ('f, 'd) any \<Rightarrow> 'f optval option" where
  "meaning KInt (AInt64 i) = Some (OInt i)"
| "meaning KFloat32 (AFloat32 f) = Some (OFloat f)"
| "meaning KSlice (AStrings ss) = Some (OStrings ss)"
| "meaning KPtrInt (AInt64 i) = Some (OPtrInt (Some i))"
| "meaning KPtrBool (APtrBool b) = Some (OPtrBool (Some b))"
| "meaning _ _ = None"

lemma strings_of_strings: "strings_of (map AString ss) = Some ss"
  by (induction ss) auto

lemma FormatParam_meaning:
  "FormatParam parse32 key vals = Some (Inr v) \<Longrightarrow> \<exists>k w. map_of option_kinds key = Some k \<and> meaning k v = Some w \<and> kind_of w = k"
  by (auto simp: FormatParam_def split: option.splits kind.splits list.splits)

lemma FormatParams_meaning:
  "FormatParams parse32 params = Some (Inr out) \<Longrightarrow> (key, v) \<in> set out \<Longrightarrow>
     \<exists>k w. map_of option_kinds key = Some k \<and> meaning k v = Some w \<and> kind_of w = k"
proof (induction params arbitrary: out)
  case (Cons p params)
  obtain k vals where p: "p = (k, vals)" by (cases p)
  then obtain x out' where x: "FormatParam parse32 k vals = Some (Inr x)"
    "FormatParams parse32 params = Some (Inr out')" "out = (k, x) # out'"
    using Cons.prems(1) by (auto split: option.splits sum.splits)
  show ?case
    using Cons.prems(2) x(3) FormatParam_meaning[OF x(1)] Cons.IH[OF x(2)] by auto
qed simp

lemma FormatParams_keys:
  "FormatParams parse32 params = Some (Inr out) \<Longrightarrow> map fst out = map fst params"
proof (induction params arbitrary: out)
  case (Cons p params)
  then show ?case by (cases p) (auto split: option.splits sum.splits)
qed simp

text \<open>The integers of a list of values stay exact on the way.\<close>

definition exact_ints :: "('d \<Rightarrow> int) \<Rightarrow> (int \<Rightarrow> 'd) \<Rightarrow> (string \<times> ('f, 'd) any) list \<Rightarrow> bool" where
  "exact_ints to_int flt out \<longleftrightarrow> list_all (\<lambda>(_, v). case v of AInt64 i \<Rightarrow> to_int (flt i) = i | _ \<Rightarrow> True) out"

lemma field_of_via_json:
  assumes "meaning k v = Some w" "\<And>f. to32 (to64 f) = f" "\<And>i. v = AInt64 i \<Longrightarrow> to_int (flt i) = i"
  shows "field_of to_int to32 key k (via_json flt to64 v) = Inr w \<and> via_json flt to64 v \<noteq> ANil"
  using assms by (cases k; cases v) (auto simp: field_of_def strings_of_strings)

definition stored :: "(string \<times> ('f, 'd) any) list \<Rightarrow> 'f Options" where
  "stored out key =
     (case (map_of out key, map_of option_kinds key) of (Some v, Some k) \<Rightarrow> meaning k v | _ \<Rightarrow> None)"

lemma FromMap_via_json:
  fixes out :: "(string \<times> ('f, 'd) any) list"
  assumes "\<And>key v. (key, v) \<in> set out \<Longrightarrow> \<exists>k w. map_of option_kinds key = Some k \<and> meaning k v = Some w"
    "\<And>f. to32 (to64 f) = f" "exact_ints to_int flt out" "distinct (map fst out)"
  shows "FromMap to_int to32 (map (\<lambda>(key, v). (key, via_json flt to64 v)) out) opts
    = (None, opts ++ stored out)"
  using assms
proof (induction out arbitrary: opts)
  case Nil
  then show ?case by (auto simp: stored_def map_add_def)
next
  case (Cons e out)
  obtain key v where e: "e = (key, v)" by (cases e)
  obtain k w where kw: "map_of option_kinds key = Some k" "meaning k v = Some w"
    using Cons.prems(1)[of key v] e by auto
  have "field_of to_int to32 key k (via_json flt to64 v) = Inr w \<and> via_json flt to64 v \<noteq> ANil"
    using Cons.prems(2,3) e kw(2) by (intro field_of_via_json) (auto simp: exact_ints_def)
  moreover have "FromMap to_int to32 (map (\<lambda>(key, v). (key, via_json flt to64 v)) out) (opts(key \<mapsto> w))
      = (None, opts(key \<mapsto> w) ++ stored out)"
    using Cons.prems by (intro Cons.IH) (auto simp: exact_ints_def)
  moreover have "opts(key \<mapsto> w) ++ stored out = opts ++ stored (e # out)"
  proof
    fix x
    have "stored out key = None"
      using Cons.prems(4) e by (auto simp: stored_def map_of_eq_None_iff split: option.splits) force
    then show "(opts(key \<mapsto> w) ++ stored out) x = (opts ++ stored (e # out)) x"
      using kw e by (auto simp: stored_def map_add_def split: option.splits)
  qed
  ultimately show ?case using e kw by simp
qed

lemma FromMap_typed:
  "options_typed opts \<Longrightarrow> options_typed (snd (FromMap to_int to32 m opts))"
proof (induction m arbitrary: opts)
  case (Cons e m)
  obtain key val where e: "e = (key, val)" by (cases e)
  have upd: "options_typed (opts(key \<mapsto> v))"
    if "map_of option_kinds key = Some k" "field_of to_int to32 key k val = Inr v" for k v
  proof -
    have "kind_of v = k"
      using that(2) by (auto simp: field_of_def split: kind.splits any.splits option.splits)
    then show ?thesis using Cons.prems that(1) by (auto simp: options_typed_def fun_eq_iff)
  qed
  show ?case
  proof (cases "map_of option_kinds key")
    case None
    then show ?thesis using Cons e by simp
  next
    case (Some k)
    show ?thesis
    proof (cases "val = ANil")
      case False
      then show ?thesis
        using Cons e Some upd[OF Some] by (cases "field_of to_int to32 key k val") auto
    qed (use Cons e Some in simp)
  qed
qed simp

section \<open>Properties\<close>





end
