(* ===== verification/ModelCreate.thy ===== *)
theory ModelCreate
  imports Modelfile ModelParams ModelName
begin

text \<open>
  \<^verbatim>\<open>parser/parser.go\<close>: from the commands of a Modelfile to a create request (\<open>CreateRequest\<close>), with
  the expansion of paths and the check that a draft model is not the model itself. The file system
  is the record \<open>files\<close> of what the code asks it: the working directory, globbing, symbolic links,
  home directories and the digests of a path (\<open>fileDigestMap\<close>, which reads the files). Commands are
  turned into byte strings.
\<close>

section \<open>The outside world\<close>

datatype create_error =
    ErrNotExist
  | ErrOther string
  | ErrSamePath string
  | ErrSemver
  | ErrParams param_error

record files =
  Getwd :: "string option"
  Glob :: "string \<Rightarrow> string list option"
  EvalSymlinks :: "string \<Rightarrow> string option"
  CurrentHome :: "string option"
  LookupHome :: "string \<Rightarrow> string option"
  fileDigestMap :: "string \<Rightarrow> create_error + (string \<times> string) list"

section \<open>Paths\<close>

definition filepath_IsAbs :: "string \<Rightarrow> bool" where
  "filepath_IsAbs path = prefix ''/'' path"

definition filepath_Abs :: "files \<Rightarrow> string \<Rightarrow> create_error + string" where
  "filepath_Abs env path =
     (if filepath_IsAbs path then Inr (filepath_Clean path)
      else (case Getwd env of None \<Rightarrow> Inl (ErrOther ''getwd'') | Some wd \<Rightarrow> Inr (filepath_Join [wd, path])))"

text \<open>\<open>expandPathImpl\<close>, with the two user look-ups in the environment.\<close>

definition expandPath :: "files \<Rightarrow> string \<Rightarrow> string \<Rightarrow> create_error + string" where
  "expandPath env path relativeDir =
     (if filepath_IsAbs path \<or> prefix [CHR 0x5C] path \<or> prefix ''/'' path then filepath_Abs env path
      else if prefix ''~'' path then
        (if path = ''~'' \<or> prefix ''~/'' path then
           (case CurrentHome env of
              None \<Rightarrow> Inl (ErrOther ''current user'')
            | Some homeDir \<Rightarrow> filepath_Abs env (filepath_Join [homeDir, drop 1 path]))
         else
           (case go_cut (drop 1 path) ''/'' of
              None \<Rightarrow>
                (case LookupHome env (drop 1 path) of
                   None \<Rightarrow> Inl (ErrOther ''user'')
                 | Some homeDir \<Rightarrow> filepath_Abs env (filepath_Join [homeDir, []]))
            | Some (user, rest) \<Rightarrow>
                (case LookupHome env user of
                   None \<Rightarrow> Inl (ErrOther ''user'')
                 | Some homeDir \<Rightarrow> filepath_Abs env (filepath_Join [homeDir, ''/'' @ rest]))))
      else filepath_Abs env (filepath_Join [relativeDir, path]))"

definition expandPaths :: "files \<Rightarrow> string \<Rightarrow> string \<Rightarrow> create_error + string list" where
  "expandPaths env path relativeDir =
     (case expandPath env path relativeDir of
        Inl e \<Rightarrow> Inl e
      | Inr path' \<Rightarrow>
          (case Glob env path' of
             None \<Rightarrow> Inl (ErrOther ''bad pattern'')
           | Some matches \<Rightarrow> Inr (if matches = [] then [path'] else matches)))"

text \<open>Maps with string keys are association lists; \<open>maps.Copy\<close> puts the new entries in front.\<close>

fun fileDigestMapForPaths :: "files \<Rightarrow> string list \<Rightarrow> create_error + (string \<times> string) list" where
  "fileDigestMapForPaths env [] = Inr []"
| "fileDigestMapForPaths env (path # paths) =
     (case fileDigestMap env path of
        Inl e \<Rightarrow> Inl e
      | Inr digests \<Rightarrow>
          (case fileDigestMapForPaths env paths of
             Inl e \<Rightarrow> Inl e
           | Inr rest \<Rightarrow> Inr (rest @ digests)))"

definition canonicalLocalPath :: "files \<Rightarrow> string \<Rightarrow> create_error + string" where
  "canonicalLocalPath env path =
     (case filepath_Abs env path of
        Inl e \<Rightarrow> Inl e
      | Inr absPath \<Rightarrow> (case EvalSymlinks env absPath of None \<Rightarrow> Inl (ErrOther absPath) | Some p \<Rightarrow> Inr p))"

definition sameLocalPath :: "files \<Rightarrow> string \<Rightarrow> string \<Rightarrow> create_error + bool" where
  "sameLocalPath env a b =
     (case canonicalLocalPath env a of
        Inl e \<Rightarrow> Inl e
      | Inr aa \<Rightarrow> (case canonicalLocalPath env b of Inl e \<Rightarrow> Inl e | Inr bb \<Rightarrow> Inr (aa = bb)))"

fun rejectMatchingLocalPath :: "files \<Rightarrow> string \<Rightarrow> string list \<Rightarrow> create_error option" where
  "rejectMatchingLocalPath env path [] = None"
| "rejectMatchingLocalPath env path (candidate # existing) =
     (case sameLocalPath env path candidate of
        Inl e \<Rightarrow> Some e
      | Inr same \<Rightarrow> if same then Some (ErrSamePath path) else rejectMatchingLocalPath env path existing)"

fun rejectMatchingLocalPaths :: "files \<Rightarrow> string list \<Rightarrow> string list \<Rightarrow> create_error option" where
  "rejectMatchingLocalPaths env [] existing = None"
| "rejectMatchingLocalPaths env (path # paths) existing =
     (case rejectMatchingLocalPath env path existing of
        Some e \<Rightarrow> Some e
      | None \<Rightarrow> rejectMatchingLocalPaths env paths existing)"

section \<open>The request\<close>

definition deprecatedParameters :: "string list" where
  "deprecatedParameters =
     [''penalize_newline'', ''low_vram'', ''f16_kv'', ''logits_all'', ''vocab_only'', ''use_mlock'',
      ''mirostat'', ''mirostat_tau'', ''mirostat_eta'']"

text \<open>The request under construction, with the local variables of the loop.\<close>

record ('f, 'd) create =
  cr_From :: string
  cr_Files :: "(string \<times> string) list"
  cr_DraftFiles :: "(string \<times> string) list"
  cr_Adapters :: "(string \<times> string) list"
  cr_Template :: string
  cr_System :: string
  cr_Renderer :: string
  cr_Parser :: string
  cr_Requires :: string
  cr_Parameters :: "(string \<times> ('f, 'd) any) list"
  cr_Messages :: "(string \<times> string) list"
  cr_License :: "string list"
  cr_modelPaths :: "string list"
  cr_draftPaths :: "string list"

definition empty_create :: "('f, 'd) create" where
  "empty_create =
     \<lparr>cr_From = [], cr_Files = [], cr_DraftFiles = [], cr_Adapters = [], cr_Template = [], cr_System = [],
      cr_Renderer = [], cr_Parser = [], cr_Requires = [], cr_Parameters = [], cr_Messages = [],
      cr_License = [], cr_modelPaths = [], cr_draftPaths = []\<rparr>"

definition map_set :: "string \<Rightarrow> 'v \<Rightarrow> (string \<times> 'v) list \<Rightarrow> (string \<times> 'v) list" where
  "map_set k v m = (k, v) # filter (\<lambda>e. fst e \<noteq> k) m"

text \<open>The loop over the values of one parameter: lists of strings are appended, other values
  replaced.\<close>

fun merge_params ::
  "(string \<times> ('f, 'd) any) list \<Rightarrow> (string \<times> ('f, 'd) any) list \<Rightarrow> (string \<times> ('f, 'd) any) list" where
  "merge_params [] params = params"
| "merge_params ((k, v) # ps) params =
     merge_params ps
       (case (map_of params k, v) of
          (Some (AStrings ks), AStrings vs) \<Rightarrow> map_set k (AStrings (ks @ vs)) params
        | _ \<Rightarrow> map_set k v params)"

text \<open>One turn of the loop over the commands. A FROM that names no file is the name of a model.\<close>

definition create_command ::
  "files \<Rightarrow> (string \<Rightarrow> bool) \<Rightarrow> (string \<Rightarrow> 'f option) \<Rightarrow> string \<Rightarrow> Command \<Rightarrow> ('f, 'd) create
    \<Rightarrow> create_error + ('f, 'd) create" where
  "create_command env semver parse32 relativeDir c req =
     (let name = Cmd_Name c; args = bytes (Cmd_Args c) in
      if name = rs ''model'' then
        (case expandPaths env args relativeDir of
           Inl e \<Rightarrow> Inl e
         | Inr paths \<Rightarrow>
             (case fileDigestMapForPaths env paths of
                Inl ErrNotExist \<Rightarrow> Inr (req\<lparr>cr_From := args\<rparr>)
              | Inl e \<Rightarrow> Inl e
              | Inr digestMap \<Rightarrow>
                  (case rejectMatchingLocalPaths env paths (cr_draftPaths req) of
                     Some e \<Rightarrow> Inl e
                   | None \<Rightarrow>
                       Inr (req\<lparr>cr_modelPaths := cr_modelPaths req @ paths, cr_Files := digestMap @ cr_Files req\<rparr>))))
      else if name = rs ''draft'' then
        (case expandPaths env args relativeDir of
           Inl e \<Rightarrow> Inl e
         | Inr paths \<Rightarrow>
             (case fileDigestMapForPaths env paths of
                Inl e \<Rightarrow> Inl e
              | Inr digestMap \<Rightarrow>
                  (case rejectMatchingLocalPaths env paths (cr_modelPaths req) of
                     Some e \<Rightarrow> Inl e
                   | None \<Rightarrow>
                       Inr (req\<lparr>cr_draftPaths := cr_draftPaths req @ paths,
                         cr_DraftFiles := digestMap @ cr_DraftFiles req\<rparr>))))
      else if name = rs ''adapter'' then
        (case expandPath env args relativeDir of
           Inl e \<Rightarrow> Inl e
         | Inr path \<Rightarrow>
             (case fileDigestMap env path of
                Inl e \<Rightarrow> Inl e
              | Inr digestMap \<Rightarrow> Inr (req\<lparr>cr_Adapters := digestMap\<rparr>)))
      else if name = rs ''template'' then Inr (req\<lparr>cr_Template := args\<rparr>)
      else if name = rs ''system'' then Inr (req\<lparr>cr_System := args\<rparr>)
      else if name = rs ''license'' then Inr (req\<lparr>cr_License := cr_License req @ [args]\<rparr>)
      else if name = rs ''renderer'' then Inr (req\<lparr>cr_Renderer := args\<rparr>)
      else if name = rs ''parser'' then Inr (req\<lparr>cr_Parser := args\<rparr>)
      else if name = rs ''requires'' then
        (let requires = (if prefix ''v'' args then args else ''v'' @ args) in
         if \<not> semver requires then Inl ErrSemver
         else Inr (req\<lparr>cr_Requires := drop 1 requires\<rparr>))
      else if name = rs ''message'' then
        (case cut_colon (Cmd_Args c) of
           (role, msg) \<Rightarrow> Inr (req\<lparr>cr_Messages := cr_Messages req @ [(bytes role, bytes msg)]\<rparr>))
      else if bytes name \<in> set deprecatedParameters then Inr req
      else
        (case FormatParams parse32 [(bytes name, [args])] of
           None \<Rightarrow> Inl (ErrOther ''panic'')
         | Some (Inl e) \<Rightarrow> Inl (ErrParams e)
         | Some (Inr ps) \<Rightarrow> Inr (req\<lparr>cr_Parameters := merge_params ps (cr_Parameters req)\<rparr>)))"

fun create_commands ::
  "files \<Rightarrow> (string \<Rightarrow> bool) \<Rightarrow> (string \<Rightarrow> 'f option) \<Rightarrow> string \<Rightarrow> Command list \<Rightarrow> ('f, 'd) create
    \<Rightarrow> create_error + ('f, 'd) create" where
  "create_commands env semver parse32 relativeDir [] req = Inr req"
| "create_commands env semver parse32 relativeDir (c # cs) req =
     (case create_command env semver parse32 relativeDir c req of
        Inl e \<Rightarrow> Inl e
      | Inr req' \<Rightarrow> create_commands env semver parse32 relativeDir cs req')"

definition CreateRequest ::
  "files \<Rightarrow> (string \<Rightarrow> bool) \<Rightarrow> (string \<Rightarrow> 'f option) \<Rightarrow> Command list \<Rightarrow> string
    \<Rightarrow> create_error + ('f, 'd) create" where
  "CreateRequest env semver parse32 cs relativeDir = create_commands env semver parse32 relativeDir cs empty_create"

section \<open>Draft and model\<close>

lemma sameLocalPath_iff:
  "sameLocalPath env a b = Inr same \<Longrightarrow>
     \<exists>aa bb. canonicalLocalPath env a = Inr aa \<and> canonicalLocalPath env b = Inr bb \<and> same = (aa = bb)"
  by (auto simp: sameLocalPath_def split: sum.splits)

text \<open>Two paths that are known to lead to different places.\<close>

definition different :: "files \<Rightarrow> string \<Rightarrow> string \<Rightarrow> bool" where
  "different env a b \<longleftrightarrow>
     (\<exists>aa bb. canonicalLocalPath env a = Inr aa \<and> canonicalLocalPath env b = Inr bb \<and> aa \<noteq> bb)"

lemma reject_path: "rejectMatchingLocalPath env path existing = None \<Longrightarrow> b \<in> set existing \<Longrightarrow> different env path b"
  by (induction existing)
    (auto simp: different_def split: sum.splits if_splits dest: sameLocalPath_iff)

lemma reject_paths:
  "rejectMatchingLocalPaths env paths existing = None \<Longrightarrow> a \<in> set paths \<Longrightarrow> b \<in> set existing \<Longrightarrow> different env a b"
  by (induction paths) (auto split: option.splits dest: reject_path)

lemma different_sym: "different env a b \<Longrightarrow> different env b a"
  by (auto simp: different_def)

definition drafts_apart :: "files \<Rightarrow> ('f, 'd) create \<Rightarrow> bool" where
  "drafts_apart env req \<longleftrightarrow> (\<forall>m\<in>set (cr_modelPaths req). \<forall>d\<in>set (cr_draftPaths req). different env m d)"

lemma create_command_apart:
  assumes "drafts_apart env req" "create_command env semver parse32 relativeDir c req = Inr req'"
  shows "drafts_apart env req'"
  using assms
  by (auto simp: create_command_def Let_def drafts_apart_def
      split: if_splits sum.splits option.splits create_error.splits prod.splits
      intro: reject_paths different_sym[OF reject_paths])

lemma create_commands_apart:
  "drafts_apart env req \<Longrightarrow> create_commands env semver parse32 relativeDir cs req = Inr req' \<Longrightarrow> drafts_apart env req'"
  by (induction cs arbitrary: req) (auto split: sum.splits dest: create_command_apart)

section \<open>Paths that are expanded\<close>

lemma filepath_Clean_abs: "prefix ''/'' path \<Longrightarrow> filepath_IsAbs (filepath_Clean path)"
  by (auto simp: filepath_Clean_def filepath_IsAbs_def Let_def)

lemma filepath_Join_abs: "filepath_IsAbs a \<Longrightarrow> filepath_IsAbs (filepath_Join [a, b])"
proof -
  assume a: "filepath_IsAbs a"
  then obtain a' where "a = CHR ''/'' # a'" by (auto simp: filepath_IsAbs_def prefix_def)
  then show ?thesis
    by (auto simp: filepath_Join_def Let_def intro!: filepath_Clean_abs)
qed

lemma filepath_Abs_abs:
  "(\<And>wd. Getwd env = Some wd \<Longrightarrow> filepath_IsAbs wd) \<Longrightarrow> filepath_Abs env path = Inr q \<Longrightarrow> filepath_IsAbs q"
  by (auto simp: filepath_Abs_def filepath_IsAbs_def[of path] intro: filepath_Clean_abs filepath_Join_abs
      split: if_splits option.splits)

lemma expandPath_abs:
  assumes "\<And>wd. Getwd env = Some wd \<Longrightarrow> filepath_IsAbs wd" "expandPath env path dir = Inr q"
  shows "filepath_IsAbs q"
proof -
  obtain p where "filepath_Abs env p = Inr q"
    using assms(2) by (auto simp: expandPath_def split: if_splits option.splits prod.splits)
  then show ?thesis using filepath_Abs_abs assms(1) by blast
qed

section \<open>Stop sequences\<close>

lemma map_of_map_set [simp]: "map_of (map_set k v m) = (map_of m)(k \<mapsto> v)"
proof
  fix x
  show "map_of (map_set k v m) x = ((map_of m)(k \<mapsto> v)) x"
    by (induction m) (auto simp: map_set_def)
qed

text \<open>The stop sequences of a list of commands, in order.\<close>

definition stops :: "Command list \<Rightarrow> string list" where
  "stops cs = map (bytes \<circ> Cmd_Args) (filter (\<lambda>c. bytes (Cmd_Name c) = ''stop'') cs)"

definition stop_value :: "('f, 'd) create \<Rightarrow> string list" where
  "stop_value req = (case map_of (cr_Parameters req) ''stop'' of Some (AStrings ss) \<Rightarrow> ss | _ \<Rightarrow> [])"

definition stop_typed :: "('f, 'd) create \<Rightarrow> bool" where
  "stop_typed req \<longleftrightarrow> (\<forall>v. map_of (cr_Parameters req) ''stop'' = Some v \<longrightarrow> (\<exists>ss. v = AStrings ss))"

text \<open>One parameter: only a stop sequence changes the list of them.\<close>

lemma merge_param_stop:
  assumes "FormatParams parse32 [(key, [arg])] = Some (Inr ps)" "stop_typed req"
    "req' = req\<lparr>cr_Parameters := merge_params ps (cr_Parameters req)\<rparr>"
  shows "stop_typed req' \<and> stop_value req' = stop_value req @ (if key = ''stop'' then [arg] else [])"
proof -
  obtain v where v: "ps = [(key, v)]" "FormatParam parse32 key [arg] = Some (Inr v)"
    using assms(1) by (auto split: option.splits sum.splits)
  show ?thesis
  proof (cases "key = ''stop''")
    case True
    then have "v = AStrings [arg]" using v(2) by (simp add: FormatParam_def option_kinds_def runner_kinds_def)
    then show ?thesis using True v(1) assms(2,3)
      by (auto simp: stop_typed_def stop_value_def split: option.splits any.splits)
  next
    case False
    then show ?thesis using v(1) assms(2,3)
      by (auto simp: stop_typed_def stop_value_def split: option.splits any.splits)
  qed
qed

definition create_keywords :: "string list" where
  "create_keywords =
     [''model'', ''draft'', ''adapter'', ''template'', ''system'', ''license'', ''renderer'', ''parser'',
      ''requires'', ''message'']"

lemma bytes_keyword:
  assumes "Cmd_Name c = rs kw" "kw \<in> set create_keywords"
  shows "bytes (Cmd_Name c) \<noteq> ''stop''"
proof -
  have "kw \<noteq> ''stop'' \<and> list_all (\<lambda>c. (of_char c :: nat) < 128) kw"
    using assms(2) by (auto simp: create_keywords_def)
  then show ?thesis using assms(1) bytes_rs_ascii by auto
qed

lemma create_command_params:
  assumes "create_command env semver parse32 relativeDir c req = Inr req'"
  shows "cr_Parameters req' = cr_Parameters req \<or>
    (\<forall>kw\<in>set create_keywords. Cmd_Name c \<noteq> rs kw)"
  using assms unfolding create_command_def Let_def
  by (simp split: if_split_asm sum.split_asm option.split_asm create_error.split_asm prod.split_asm)
    (auto simp: create_keywords_def)

lemma create_command_stop:
  assumes "create_command env semver parse32 relativeDir c req = Inr req'" "stop_typed req"
  shows "stop_typed req' \<and> stop_value req' = stop_value req @ stops [c]"
proof (cases "\<exists>kw\<in>set create_keywords. Cmd_Name c = rs kw")
  case True
  then have "bytes (Cmd_Name c) \<noteq> ''stop''" using bytes_keyword[of c] by blast
  then have "stops [c] = []" by (simp add: stops_def)
  moreover have "cr_Parameters req' = cr_Parameters req"
    using create_command_params[OF assms(1)] True by blast
  ultimately show ?thesis using assms(2) by (simp add: stop_typed_def stop_value_def)
next
  case False
  show ?thesis
  proof (cases "bytes (Cmd_Name c) \<in> set deprecatedParameters")
    case True
    then have "req' = req" using assms(1) False by (simp add: create_command_def create_keywords_def Let_def)
    moreover have "bytes (Cmd_Name c) \<noteq> ''stop''" using True by (auto simp: deprecatedParameters_def)
    ultimately show ?thesis using assms(2) by (simp add: stops_def)
  next
    case deprecated: False
    obtain ps where ps: "FormatParams parse32 [(bytes (Cmd_Name c), [bytes (Cmd_Args c)])] = Some (Inr ps)"
      "req' = req\<lparr>cr_Parameters := merge_params ps (cr_Parameters req)\<rparr>"
      using assms(1) False deprecated by (auto simp: create_command_def create_keywords_def Let_def split: option.splits sum.splits)
    from merge_param_stop[OF ps(1) assms(2) ps(2)] show ?thesis by (auto simp: stops_def)
  qed
qed

lemma create_commands_stop:
  "create_commands env semver parse32 relativeDir cs req = Inr req' \<Longrightarrow> stop_typed req \<Longrightarrow>
     stop_value req' = stop_value req @ stops cs"
proof (induction cs arbitrary: req)
  case (Cons c cs)
  then obtain req1 where 1: "create_command env semver parse32 relativeDir c req = Inr req1"
    "create_commands env semver parse32 relativeDir cs req1 = Inr req'" by (auto split: sum.splits)
  have "stops (c # cs) = stops [c] @ stops cs" by (simp add: stops_def)
  then show ?case using create_command_stop[OF 1(1) Cons.prems(2)] Cons.IH[OF 1(2)] by simp
qed (simp add: stops_def)

section \<open>Properties\<close>


definition example_files :: files where
  "example_files =
     \<lparr>Getwd = Some ''/w'', Glob = (\<lambda>p. Some []), EvalSymlinks = (\<lambda>p. Some p), CurrentHome = Some ''/h'',
      LookupHome = (\<lambda>_. None), fileDigestMap = (\<lambda>p. Inr [(p, ''sha256:0'')])\<rparr>"


text \<open>
  C32. The stop sequences of a request are those of all its PARAMETER stop lines, in their order:
  a later one never replaces an earlier one, and nothing else adds to them.
\<close>

theorem CreateRequest_stops:
  assumes "CreateRequest env semver parse32 cs relativeDir = Inr req"
  shows "stop_value req = stops cs"
  using create_commands_stop[OF assms[unfolded CreateRequest_def]]
  by (simp add: stop_typed_def stop_value_def empty_create_def)

theorem CreateRequest_stops_witness:
  "(case (CreateRequest example_files (\<lambda>_. True) (\<lambda>_. None :: unit option)
        [\<lparr>Cmd_Name = rs ''stop'', Cmd_Args = rs ''A''\<rparr>, \<lparr>Cmd_Name = rs ''system'', Cmd_Args = rs ''B''\<rparr>,
         \<lparr>Cmd_Name = rs ''stop'', Cmd_Args = rs ''C''\<rparr>] ''/w'' :: create_error + (unit, unit) create) of
      Inl _ \<Rightarrow> False
    | Inr req \<Rightarrow> stop_value req = [''A'', ''C''])"
proof -
  let ?cs = "[\<lparr>Cmd_Name = rs ''stop'', Cmd_Args = rs ''A''\<rparr>, \<lparr>Cmd_Name = rs ''system'', Cmd_Args = rs ''B''\<rparr>,
         \<lparr>Cmd_Name = rs ''stop'', Cmd_Args = rs ''C''\<rparr>]"
  let ?r = "CreateRequest example_files (\<lambda>_. True) (\<lambda>_. None :: unit option) ?cs ''/w'' :: create_error + (unit, unit) create"
  have ok: "(case ?r of Inl _ \<Rightarrow> False | Inr req \<Rightarrow> True)" by code_simp
  have "stops ?cs = [''A'', ''C'']" by code_simp
  then show ?thesis using ok CreateRequest_stops[of example_files "\<lambda>_. True" "\<lambda>_. None" ?cs "''/w''"]
    by (cases ?r) auto
qed

end
