(* ===== verification/AnthropicStream.thy ===== *)
theory AnthropicStream
  imports GoStrings
begin

text \<open>
  \<^verbatim>\<open>anthropic/anthropic.go\<close>, the response side: \<open>ToMessagesResponse\<close> converts a complete chat
  response, \<open>StreamConverter\<close> a stream of them into Anthropic's events. The arguments of a tool call
  (a third-party ordered map) are of type \<open>'a\<close>, and \<open>marshal\<close> is \<^verbatim>\<open>json.Marshal\<close> on them. The
  contract of the stream is a client that follows Anthropic's protocol and assembles the message.
\<close>

section \<open>Chat responses\<close>

text \<open>The fields of \<^verbatim>\<open>api.ChatResponse\<close> and of its parts that are read.\<close>

record Metrics =
  PromptEvalCount :: int
  PromptEvalCachedCount :: "int option"
  EvalCount :: int

record 'a CallOut =
  co_ID :: string
  co_Name :: string
  co_Arguments :: 'a

record 'a ChatResponse =
  chat_Model :: string
  chat_Thinking :: string
  chat_Content :: string
  chat_ToolCalls :: "'a CallOut list"
  chat_Done :: bool
  chat_DoneReason :: string
  chat_Metrics :: Metrics

section \<open>Usage and stop reason\<close>

record Usage =
  InputTokens :: int
  CacheReadInputTokens :: "int option"
  OutputTokens :: int

fun intValue :: "int option \<Rightarrow> int" where
  "intValue None = 0"
| "intValue (Some v) = v"

definition UsageFromMetrics :: "Metrics \<Rightarrow> Usage" where
  "UsageFromMetrics metrics =
     (let total = max 0 (PromptEvalCount metrics);
          cached = map_option (\<lambda>c. min (max 0 c) total) (PromptEvalCachedCount metrics)
      in \<lparr>InputTokens = total - intValue cached, CacheReadInputTokens = cached,
          OutputTokens = EvalCount metrics\<rparr>)"

definition mapStopReason :: "string \<Rightarrow> bool \<Rightarrow> string" where
  "mapStopReason reason hasToolCalls =
     (if hasToolCalls then ''tool_use''
      else if reason = ''stop'' then ''end_turn''
      else if reason = ''length'' then ''max_tokens''
      else if reason \<noteq> [] then ''stop_sequence''
      else [])"

section \<open>A complete response\<close>

text \<open>Content blocks: \<open>'i\<close> is what a tool_use block has as its input.\<close>

datatype 'i block = BThinking string | BText string | BTool string string 'i

record 'a MessagesResponse =
  mr_ID :: string
  mr_Model :: string
  mr_Content :: "'a block list"
  mr_StopReason :: string
  mr_Usage :: Usage

definition ToMessagesResponse :: "string \<Rightarrow> 'a ChatResponse \<Rightarrow> 'a MessagesResponse" where
  "ToMessagesResponse mid r =
     \<lparr>mr_ID = mid, mr_Model = chat_Model r,
      mr_Content =
        (if chat_Thinking r \<noteq> [] then [BThinking (chat_Thinking r)] else []) @
        (if chat_Content r \<noteq> [] then [BText (chat_Content r)] else []) @
        map (\<lambda>tc. BTool (co_ID tc) (co_Name tc) (co_Arguments tc)) (chat_ToolCalls r),
      mr_StopReason = mapStopReason (chat_DoneReason r) (chat_ToolCalls r \<noteq> []),
      mr_Usage = UsageFromMetrics (chat_Metrics r)\<rparr>"

section \<open>The stream converter\<close>

datatype delta = DThinking string | DText string | DJson string

text \<open>A started block is empty; the input of a started tool block is an empty map.\<close>

datatype started = SThinking | SText | STool string string

datatype StreamEvent =
    MessageStart string string Usage
  | BlockStart int started
  | BlockDelta int delta
  | BlockStop int
  | MessageDelta string int "int option" int
  | MessageStop

record StreamConverter =
  sc_ID :: string
  sc_Model :: string
  sc_firstWrite :: bool
  sc_contentIndex :: int
  sc_inputTokens :: int
  sc_cacheReadTokens :: "int option"
  sc_outputTokens :: int
  sc_estimatedInputTokens :: int
  sc_thinkingStarted :: bool
  sc_thinkingDone :: bool
  sc_textStarted :: bool
  sc_toolCallsSent :: "string set"

definition NewStreamConverter :: "string \<Rightarrow> string \<Rightarrow> int \<Rightarrow> StreamConverter" where
  "NewStreamConverter mid model estimatedInputTokens =
     \<lparr>sc_ID = mid, sc_Model = model, sc_firstWrite = True, sc_contentIndex = 0, sc_inputTokens = 0,
      sc_cacheReadTokens = None, sc_outputTokens = 0, sc_estimatedInputTokens = estimatedInputTokens,
      sc_thinkingStarted = False, sc_thinkingDone = False, sc_textStarted = False, sc_toolCallsSent = {}\<rparr>"

text \<open>The parts of \<open>Process\<close>, in its order: the start of the message, ...\<close>

definition sc_start :: "'a ChatResponse \<Rightarrow> StreamConverter \<Rightarrow> StreamEvent list \<times> StreamConverter" where
  "sc_start r c =
     (if sc_firstWrite c then
        (let usage = UsageFromMetrics (chat_Metrics r);
             input0 = InputTokens usage;
             cached = CacheReadInputTokens usage;
             input = (if input0 = 0 \<and> intValue cached = 0 \<and> sc_estimatedInputTokens c > 0
                      then sc_estimatedInputTokens c else input0)
         in ([MessageStart (sc_ID c) (sc_Model c)
                \<lparr>InputTokens = input, CacheReadInputTokens = cached, OutputTokens = 0\<rparr>],
             c\<lparr>sc_firstWrite := False, sc_inputTokens := input, sc_cacheReadTokens := cached\<rparr>))
      else ([], c))"

text \<open>... closing the open block and going on to the next index, ...\<close>

definition sc_closeText :: "StreamConverter \<Rightarrow> StreamEvent list \<times> StreamConverter" where
  "sc_closeText c =
     (if sc_textStarted c then
        ([BlockStop (sc_contentIndex c)], c\<lparr>sc_contentIndex := sc_contentIndex c + 1, sc_textStarted := False\<rparr>)
      else ([], c))"

definition sc_closeThinking :: "StreamConverter \<Rightarrow> StreamEvent list \<times> StreamConverter" where
  "sc_closeThinking c =
     (if sc_thinkingStarted c \<and> \<not> sc_thinkingDone c then
        ([BlockStop (sc_contentIndex c)], c\<lparr>sc_thinkingDone := True, sc_contentIndex := sc_contentIndex c + 1\<rparr>)
      else ([], c))"

text \<open>... thinking, ...\<close>

definition sc_thinking :: "string \<Rightarrow> StreamConverter \<Rightarrow> StreamEvent list \<times> StreamConverter" where
  "sc_thinking t c =
     (if t \<noteq> [] \<and> \<not> sc_thinkingDone c then
        (case sc_closeText c of
           (stop, c1) \<Rightarrow>
             (let start = (if sc_thinkingStarted c1 then [] else [BlockStart (sc_contentIndex c1) SThinking])
              in (stop @ start @ [BlockDelta (sc_contentIndex c1) (DThinking t)], c1\<lparr>sc_thinkingStarted := True\<rparr>)))
      else ([], c))"

text \<open>... content, ...\<close>

definition sc_content :: "string \<Rightarrow> StreamConverter \<Rightarrow> StreamEvent list \<times> StreamConverter" where
  "sc_content s c =
     (if s \<noteq> [] then
        (case sc_closeThinking c of
           (stop, c1) \<Rightarrow>
             (let start = (if sc_textStarted c1 then [] else [BlockStart (sc_contentIndex c1) SText])
              in (stop @ start @ [BlockDelta (sc_contentIndex c1) (DText s)], c1\<lparr>sc_textStarted := True\<rparr>)))
      else ([], c))"

text \<open>... one tool call (a call whose arguments cannot be encoded only closes what is open), ...\<close>

definition sc_tool :: "('a \<Rightarrow> string option) \<Rightarrow> 'a CallOut \<Rightarrow> StreamConverter \<Rightarrow> StreamEvent list \<times> StreamConverter" where
  "sc_tool marshal tc c =
     (if co_ID tc \<in> sc_toolCallsSent c then ([], c)
      else
        (case sc_closeThinking c of
           (stop1, c1) \<Rightarrow>
             (case sc_closeText c1 of
                (stop2, c2) \<Rightarrow>
                  (case marshal (co_Arguments tc) of
                     None \<Rightarrow> (stop1 @ stop2, c2)
                   | Some argsJSON \<Rightarrow>
                       (stop1 @ stop2 @
                          [BlockStart (sc_contentIndex c2) (STool (co_ID tc) (co_Name tc)),
                           BlockDelta (sc_contentIndex c2) (DJson argsJSON),
                           BlockStop (sc_contentIndex c2)],
                        c2\<lparr>sc_toolCallsSent := insert (co_ID tc) (sc_toolCallsSent c2),
                          sc_contentIndex := sc_contentIndex c2 + 1\<rparr>)))))"

fun sc_tools :: "('a \<Rightarrow> string option) \<Rightarrow> 'a CallOut list \<Rightarrow> StreamConverter \<Rightarrow> StreamEvent list \<times> StreamConverter" where
  "sc_tools marshal [] c = ([], c)"
| "sc_tools marshal (tc # tcs) c =
     (case sc_tool marshal tc c of
        (es, c1) \<Rightarrow> (case sc_tools marshal tcs c1 of (es', c2) \<Rightarrow> (es @ es', c2)))"

text \<open>... and the end.\<close>

definition sc_end :: "'a ChatResponse \<Rightarrow> StreamConverter \<Rightarrow> StreamEvent list \<times> StreamConverter" where
  "sc_end r c =
     (if chat_Done r then
        (let stop = (if sc_textStarted c then [BlockStop (sc_contentIndex c)]
                     else if sc_thinkingStarted c \<and> \<not> sc_thinkingDone c then [BlockStop (sc_contentIndex c)]
                     else []);
             usage = UsageFromMetrics (chat_Metrics r);
             c' = c\<lparr>sc_inputTokens := InputTokens usage, sc_cacheReadTokens := CacheReadInputTokens usage,
                    sc_outputTokens := OutputTokens usage\<rparr>
         in (stop @
               [MessageDelta (mapStopReason (chat_DoneReason r) (sc_toolCallsSent c \<noteq> {}))
                  (sc_inputTokens c') (sc_cacheReadTokens c') (sc_outputTokens c'),
                MessageStop], c'))
      else ([], c))"

definition Process ::
  "('a \<Rightarrow> string option) \<Rightarrow> 'a ChatResponse \<Rightarrow> StreamConverter \<Rightarrow> StreamEvent list \<times> StreamConverter" where
  "Process marshal r c =
     (case sc_start r c of (e0, c0) \<Rightarrow>
      case sc_thinking (chat_Thinking r) c0 of (e1, c1) \<Rightarrow>
      case sc_content (chat_Content r) c1 of (e2, c2) \<Rightarrow>
      case sc_tools marshal (chat_ToolCalls r) c2 of (e3, c3) \<Rightarrow>
      case sc_end r c3 of (e4, c4) \<Rightarrow> (e0 @ e1 @ e2 @ e3 @ e4, c4))"

fun process_all ::
  "('a \<Rightarrow> string option) \<Rightarrow> 'a ChatResponse list \<Rightarrow> StreamConverter \<Rightarrow> StreamEvent list \<times> StreamConverter" where
  "process_all marshal [] c = ([], c)"
| "process_all marshal (r # rs) c =
     (case Process marshal r c of
        (es, c1) \<Rightarrow> (case process_all marshal rs c1 of (es', c2) \<Rightarrow> (es @ es', c2)))"

section \<open>The client\<close>

text \<open>
  A client of the protocol: a message starts, blocks are opened with the next index, extended by
  deltas of their kind and closed, one at a time, and the message ends once. It gives up (\<open>None\<close>) at
  an event that does not fit.
\<close>

datatype client =
    CStart
  | CIdle "string block list"
  | COpen "string block list" "string block"
  | CEnded "string block list" string
  | CStopped "string block list" string

fun open_block :: "started \<Rightarrow> string block" where
  "open_block SThinking = BThinking []"
| "open_block SText = BText []"
| "open_block (STool i n) = BTool i n []"

fun extend_block :: "string block \<Rightarrow> delta \<Rightarrow> string block option" where
  "extend_block (BThinking s) (DThinking t) = Some (BThinking (s @ t))"
| "extend_block (BText s) (DText t) = Some (BText (s @ t))"
| "extend_block (BTool i n s) (DJson t) = Some (BTool i n (s @ t))"
| "extend_block _ _ = None"

fun client_step :: "client \<Rightarrow> StreamEvent \<Rightarrow> client option" where
  "client_step CStart (MessageStart _ _ _) = Some (CIdle [])"
| "client_step (CIdle bs) (BlockStart i b) = (if i = int (length bs) then Some (COpen bs (open_block b)) else None)"
| "client_step (COpen bs b) (BlockDelta i d) =
     (if i = int (length bs) then map_option (COpen bs) (extend_block b d) else None)"
| "client_step (COpen bs b) (BlockStop i) = (if i = int (length bs) then Some (CIdle (bs @ [b])) else None)"
| "client_step (CIdle bs) (MessageDelta reason _ _ _) = Some (CEnded bs reason)"
| "client_step (CEnded bs reason) MessageStop = Some (CStopped bs reason)"
| "client_step _ _ = None"

fun client_run :: "client \<Rightarrow> StreamEvent list \<Rightarrow> client option" where
  "client_run cl [] = Some cl"
| "client_run cl (e # es) = (case client_step cl e of None \<Rightarrow> None | Some cl' \<Rightarrow> client_run cl' es)"

lemma client_run_append:
  "client_run cl (a @ b) = (case client_run cl a of None \<Rightarrow> None | Some cl' \<Rightarrow> client_run cl' b)"
  by (induction a arbitrary: cl) (auto split: option.splits)

section \<open>The converter and its client\<close>

text \<open>What the converter's flags say about the client.\<close>

definition in_step :: "StreamConverter \<Rightarrow> client \<Rightarrow> bool" where
  "in_step c cl \<longleftrightarrow>
     (if sc_firstWrite c then
        cl = CStart \<and> sc_contentIndex c = 0 \<and> \<not> sc_thinkingStarted c \<and> \<not> sc_thinkingDone c \<and> \<not> sc_textStarted c
      else if sc_textStarted c then
        \<not> (sc_thinkingStarted c \<and> \<not> sc_thinkingDone c) \<and>
        (\<exists>bs s. cl = COpen bs (BText s) \<and> sc_contentIndex c = int (length bs))
      else if sc_thinkingStarted c \<and> \<not> sc_thinkingDone c then
        (\<exists>bs s. cl = COpen bs (BThinking s) \<and> sc_contentIndex c = int (length bs))
      else (\<exists>bs. cl = CIdle bs \<and> sc_contentIndex c = int (length bs)))"

lemma sc_start_in_step:
  "in_step c cl \<Longrightarrow> sc_start r c = (es, c') \<Longrightarrow> \<exists>cl'. client_run cl es = Some cl' \<and> in_step c' cl' \<and> \<not> sc_firstWrite c'"
  by (auto simp: sc_start_def in_step_def Let_def split: if_splits)

lemma sc_close_in_step:
  "in_step c cl \<Longrightarrow> \<not> sc_firstWrite c \<Longrightarrow> sc_closeText c = (es, c') \<Longrightarrow>
     \<exists>cl'. client_run cl es = Some cl' \<and> in_step c' cl' \<and> \<not> sc_firstWrite c' \<and> \<not> sc_textStarted c'"
  "in_step c cl \<Longrightarrow> \<not> sc_firstWrite c \<Longrightarrow> sc_closeThinking c = (es, c') \<Longrightarrow>
     \<exists>cl'. client_run cl es = Some cl' \<and> in_step c' cl' \<and> \<not> sc_firstWrite c'
       \<and> \<not> (sc_thinkingStarted c' \<and> \<not> sc_thinkingDone c') \<and> sc_textStarted c' = sc_textStarted c"
  by (auto simp: sc_closeText_def sc_closeThinking_def in_step_def split: if_splits)

lemma sc_thinking_in_step:
  "in_step c cl \<Longrightarrow> \<not> sc_firstWrite c \<Longrightarrow> sc_thinking t c = (es, c') \<Longrightarrow>
     \<exists>cl'. client_run cl es = Some cl' \<and> in_step c' cl' \<and> \<not> sc_firstWrite c'"
  by (auto simp: sc_thinking_def sc_closeText_def in_step_def Let_def split: if_splits prod.splits)

lemma sc_content_in_step:
  "in_step c cl \<Longrightarrow> \<not> sc_firstWrite c \<Longrightarrow> sc_content s c = (es, c') \<Longrightarrow>
     \<exists>cl'. client_run cl es = Some cl' \<and> in_step c' cl' \<and> \<not> sc_firstWrite c'"
  by (auto simp: sc_content_def sc_closeThinking_def in_step_def Let_def split: if_splits prod.splits)

lemma sc_tool_in_step:
  assumes "in_step c cl" "\<not> sc_firstWrite c" "sc_tool marshal tc c = (es, c')"
  shows "\<exists>cl'. client_run cl es = Some cl' \<and> in_step c' cl' \<and> \<not> sc_firstWrite c'"
proof (cases "co_ID tc \<in> sc_toolCallsSent c")
  case True
  then show ?thesis using assms by (simp add: sc_tool_def)
next
  case False
  obtain e1 c1 where 1: "sc_closeThinking c = (e1, c1)" by fastforce
  obtain e2 c2 where 2: "sc_closeText c1 = (e2, c2)" by fastforce
  obtain cl1 where cl1: "client_run cl e1 = Some cl1" "in_step c1 cl1" "\<not> sc_firstWrite c1"
      "\<not> (sc_thinkingStarted c1 \<and> \<not> sc_thinkingDone c1)"
    using sc_close_in_step(2)[OF assms(1,2) 1] by blast
  obtain cl2 where cl2: "client_run cl1 e2 = Some cl2" "in_step c2 cl2" "\<not> sc_firstWrite c2" "\<not> sc_textStarted c2"
    using sc_close_in_step(1)[OF cl1(2,3) 2] by blast
  have "\<not> (sc_thinkingStarted c2 \<and> \<not> sc_thinkingDone c2)"
    using cl1(4) 2 by (auto simp: sc_closeText_def split: if_splits)
  then obtain bs where bs: "cl2 = CIdle bs" "sc_contentIndex c2 = int (length bs)"
    using cl2 by (auto simp: in_step_def)
  show ?thesis
    using assms(3) False 1 2 cl1(1) cl2 bs
    by (auto simp: sc_tool_def client_run_append in_step_def split: option.splits)
qed

lemma sc_tools_in_step:
  "in_step c cl \<Longrightarrow> \<not> sc_firstWrite c \<Longrightarrow> sc_tools marshal tcs c = (es, c') \<Longrightarrow>
     \<exists>cl'. client_run cl es = Some cl' \<and> in_step c' cl' \<and> \<not> sc_firstWrite c'"
proof (induction tcs arbitrary: c cl es)
  case (Cons tc tcs)
  obtain e1 c1 e2 where 1: "sc_tool marshal tc c = (e1, c1)" "sc_tools marshal tcs c1 = (e2, c')" "es = e1 @ e2"
    using Cons.prems(3) by (auto split: prod.splits)
  from sc_tool_in_step[OF Cons.prems(1,2) 1(1)] obtain cl1 where
    cl1: "client_run cl e1 = Some cl1" "in_step c1 cl1" "\<not> sc_firstWrite c1" by blast
  from Cons.IH[OF cl1(2,3) 1(2)] show ?case using cl1(1) 1(3) by (auto simp: client_run_append)
qed simp

text \<open>The parts of one \<open>Process\<close>, put together.\<close>

lemma Process_in_step:
  assumes "in_step c cl" "Process marshal r c = (es, c')"
  shows "if chat_Done r then \<exists>bs. client_run cl es = Some (CStopped bs (mapStopReason (chat_DoneReason r) (sc_toolCallsSent c' \<noteq> {})))
    else \<exists>cl'. client_run cl es = Some cl' \<and> in_step c' cl'"
proof -
  obtain e0 c0 where 0: "sc_start r c = (e0, c0)" by fastforce
  obtain e1 c1 where 1: "sc_thinking (chat_Thinking r) c0 = (e1, c1)" by fastforce
  obtain e2 c2 where 2: "sc_content (chat_Content r) c1 = (e2, c2)" by fastforce
  obtain e3 c3 where 3: "sc_tools marshal (chat_ToolCalls r) c2 = (e3, c3)" by fastforce
  obtain e4 where 4: "sc_end r c3 = (e4, c')" "es = e0 @ e1 @ e2 @ e3 @ e4"
    using assms(2) 0 1 2 3 by (auto simp: Process_def split: prod.splits)
  obtain cl0 where cl0: "client_run cl e0 = Some cl0" "in_step c0 cl0" "\<not> sc_firstWrite c0"
    using sc_start_in_step[OF assms(1) 0] by blast
  obtain cl1 where cl1: "client_run cl0 e1 = Some cl1" "in_step c1 cl1" "\<not> sc_firstWrite c1"
    using sc_thinking_in_step[OF cl0(2,3) 1] by blast
  obtain cl2 where cl2: "client_run cl1 e2 = Some cl2" "in_step c2 cl2" "\<not> sc_firstWrite c2"
    using sc_content_in_step[OF cl1(2,3) 2] by blast
  obtain cl3 where cl3: "client_run cl2 e3 = Some cl3" "in_step c3 cl3" "\<not> sc_firstWrite c3"
    using sc_tools_in_step[OF cl2(2,3) 3] by blast
  have run: "client_run cl es = client_run cl3 e4"
    using cl0(1) cl1(1) cl2(1) cl3(1) 4(2) by (simp add: client_run_append)
  show ?thesis
  proof (cases "chat_Done r")
    case True
    then have "\<exists>bs. client_run cl3 e4 = Some (CStopped bs (mapStopReason (chat_DoneReason r) (sc_toolCallsSent c' \<noteq> {})))"
      using 4(1) cl3 by (auto simp: sc_end_def in_step_def Let_def split: if_splits)
    then show ?thesis using run True by simp
  next
    case False
    then show ?thesis using run 4(1) cl3 by (auto simp: sc_end_def)
  qed
qed

text \<open>A stream in which exactly the last response is marked as done.\<close>

definition done_last :: "'a ChatResponse list \<Rightarrow> bool" where
  "done_last rs \<longleftrightarrow> rs \<noteq> [] \<and> chat_Done (last rs) \<and> list_all (\<lambda>r. \<not> chat_Done r) (butlast rs)"

lemma done_last_Cons: "done_last (r # rs) \<longleftrightarrow> (if rs = [] then chat_Done r else \<not> chat_Done r \<and> done_last rs)"
  by (auto simp: done_last_def)

lemma process_all_in_step:
  "in_step c cl \<Longrightarrow> done_last rs \<Longrightarrow> process_all marshal rs c = (es, c') \<Longrightarrow>
     \<exists>bs. client_run cl es = Some (CStopped bs (mapStopReason (chat_DoneReason (last rs)) (sc_toolCallsSent c' \<noteq> {})))"
proof (induction rs arbitrary: c cl es)
  case (Cons r rs)
  obtain e1 c1 e2 where 1: "Process marshal r c = (e1, c1)" "process_all marshal rs c1 = (e2, c')" "es = e1 @ e2"
    using Cons.prems(3) by (auto split: prod.splits)
  show ?case
  proof (cases "rs = []")
    case True
    then show ?thesis using Process_in_step[OF Cons.prems(1) 1(1)] Cons.prems(2) 1 by (auto simp: done_last_Cons)
  next
    case False
    then obtain cl1 where cl1: "client_run cl e1 = Some cl1" "in_step c1 cl1"
      using Process_in_step[OF Cons.prems(1) 1(1)] Cons.prems(2) by (auto simp: done_last_Cons)
    have "done_last rs" using Cons.prems(2) False by (simp add: done_last_Cons)
    from Cons.IH[OF cl1(2) this 1(2)] show ?thesis using cl1(1) 1(3) False by (simp add: client_run_append)
  qed
qed (simp add: done_last_def)

section \<open>Streaming and not streaming\<close>

text \<open>
  The blocks the client should have after thinking \<open>T\<close>, content \<open>C\<close> and the tool calls \<open>tcs\<close>, and
  what the converter and the client look like then.
\<close>

definition thinking_block :: "string \<Rightarrow> string block list" where
  "thinking_block T = (if T \<noteq> [] then [BThinking T] else [])"

definition text_block :: "string \<Rightarrow> string block list" where
  "text_block C = (if C \<noteq> [] then [BText C] else [])"

definition tool_block :: "('a \<Rightarrow> string option) \<Rightarrow> 'a CallOut \<Rightarrow> string block" where
  "tool_block marshal tc = BTool (co_ID tc) (co_Name tc) (the (marshal (co_Arguments tc)))"

definition delivered :: "('a \<Rightarrow> string option) \<Rightarrow> string \<Rightarrow> string \<Rightarrow> 'a CallOut list \<Rightarrow> StreamConverter \<Rightarrow> client \<Rightarrow> bool" where
  "delivered marshal T C tcs c cl \<longleftrightarrow>
     sc_toolCallsSent c = co_ID ` set tcs \<and> \<not> sc_firstWrite c \<and>
     sc_thinkingStarted c = (T \<noteq> []) \<and> sc_thinkingDone c = (T \<noteq> [] \<and> (C \<noteq> [] \<or> tcs \<noteq> [])) \<and>
     sc_textStarted c = (C \<noteq> [] \<and> tcs = []) \<and>
     (let closed = (if tcs \<noteq> [] then thinking_block T @ text_block C @ map (tool_block marshal) tcs
                    else if C \<noteq> [] then thinking_block T else [])
      in sc_contentIndex c = int (length closed) \<and>
         cl = (if tcs \<noteq> [] then CIdle closed
               else if C \<noteq> [] then COpen closed (BText C)
               else if T \<noteq> [] then COpen closed (BThinking T)
               else CIdle closed))"

lemma delivered_start:
  "sc_start r (NewStreamConverter mid model est) = (es, c) \<Longrightarrow>
     \<exists>cl. client_run CStart es = Some cl \<and> delivered marshal [] [] [] c cl"
  by (auto simp: sc_start_def NewStreamConverter_def delivered_def Let_def)

lemma delivered_thinking:
  assumes "delivered marshal T C tcs c cl" "sc_thinking t c = (es, c')" "t \<noteq> [] \<Longrightarrow> C = [] \<and> tcs = []"
  shows "\<exists>cl'. client_run cl es = Some cl' \<and> delivered marshal (T @ t) C tcs c' cl'"
proof (cases "t = []")
  case True
  then show ?thesis using assms(1,2) by (simp add: sc_thinking_def)
next
  case False
  then show ?thesis using assms
    by (auto simp: sc_thinking_def sc_closeText_def delivered_def thinking_block_def Let_def split: if_splits)
qed

lemma delivered_content:
  assumes "delivered marshal T C tcs c cl" "sc_content s c = (es, c')" "s \<noteq> [] \<Longrightarrow> tcs = []"
  shows "\<exists>cl'. client_run cl es = Some cl' \<and> delivered marshal T (C @ s) tcs c' cl'"
proof (cases "s = []")
  case True
  then show ?thesis using assms(1,2) by (simp add: sc_content_def)
next
  case False
  then show ?thesis using assms
    by (auto simp: sc_content_def sc_closeThinking_def delivered_def thinking_block_def Let_def split: if_splits)
qed

lemma delivered_close:
  assumes "delivered marshal T C [] c cl" "sc_closeThinking c = (e1, c1)" "sc_closeText c1 = (e2, c2)"
  shows "client_run cl (e1 @ e2) = Some (CIdle (thinking_block T @ text_block C))
    \<and> sc_contentIndex c2 = int (length (thinking_block T @ text_block C))
    \<and> sc_thinkingStarted c2 = (T \<noteq> []) \<and> sc_thinkingDone c2 = (T \<noteq> []) \<and> \<not> sc_textStarted c2
    \<and> sc_toolCallsSent c2 = {} \<and> \<not> sc_firstWrite c2"
proof (cases "C = []")
  case True
  then show ?thesis using assms
    by (cases "T = []")
      (auto simp: sc_closeThinking_def sc_closeText_def delivered_def thinking_block_def text_block_def)
next
  case False
  then show ?thesis using assms
    by (auto simp: sc_closeThinking_def sc_closeText_def delivered_def text_block_def Let_def)
qed

lemma delivered_tool:
  assumes "delivered marshal T C tcs c cl" "sc_tool marshal tc c = (es, c')"
    "co_ID tc \<notin> co_ID ` set tcs" "marshal (co_Arguments tc) = Some js"
  shows "\<exists>cl'. client_run cl es = Some cl' \<and> delivered marshal T C (tcs @ [tc]) c' cl'"
proof (cases "tcs = []")
  case True
  obtain e1 c1 e2 c2 where 1: "sc_closeThinking c = (e1, c1)" "sc_closeText c1 = (e2, c2)" by (metis surj_pair)
  note close = delivered_close[OF assms(1)[unfolded True] 1]
  have "co_ID tc \<notin> sc_toolCallsSent c" using assms(1,3) by (simp add: delivered_def)
  then have es: "es = (e1 @ e2) @ [BlockStart (sc_contentIndex c2) (STool (co_ID tc) (co_Name tc)),
       BlockDelta (sc_contentIndex c2) (DJson js), BlockStop (sc_contentIndex c2)]"
    "c' = c2\<lparr>sc_toolCallsSent := insert (co_ID tc) (sc_toolCallsSent c2), sc_contentIndex := sc_contentIndex c2 + 1\<rparr>"
    using assms(2,4) 1 by (simp_all add: sc_tool_def)
  have "client_run cl es = Some (CIdle ((thinking_block T @ text_block C) @ [tool_block marshal tc]))"
    unfolding es(1) client_run_append[of cl "e1 @ e2"] using close assms(4) by (simp add: tool_block_def)
  then show ?thesis
    using close es(2) True by (simp add: delivered_def Let_def)
next
  case False
  then show ?thesis using assms
    by (auto simp: sc_tool_def sc_closeThinking_def sc_closeText_def delivered_def tool_block_def Let_def)
qed

lemma delivered_tools:
  assumes "delivered marshal T C tcs c cl" "sc_tools marshal new c = (es, c')"
    "distinct (map co_ID (tcs @ new))" "list_all (\<lambda>tc. marshal (co_Arguments tc) \<noteq> None) new"
  shows "\<exists>cl'. client_run cl es = Some cl' \<and> delivered marshal T C (tcs @ new) c' cl'"
  using assms
proof (induction new arbitrary: tcs c cl es)
  case (Cons tc new)
  obtain e1 c1 e2 where 1: "sc_tool marshal tc c = (e1, c1)" "sc_tools marshal new c1 = (e2, c')" "es = e1 @ e2"
    using Cons.prems(2) by (auto split: prod.splits)
  obtain js where "marshal (co_Arguments tc) = Some js" using Cons.prems(4) by auto
  then obtain cl1 where cl1: "client_run cl e1 = Some cl1" "delivered marshal T C (tcs @ [tc]) c1 cl1"
    using delivered_tool[OF Cons.prems(1) 1(1)] Cons.prems(3) by auto
  from Cons.IH[OF cl1(2) 1(2)] Cons.prems(3,4) show ?case
    using cl1(1) 1(3) by (auto simp: client_run_append)
qed simp

lemma delivered_end:
  assumes "delivered marshal T C tcs c cl" "sc_end r c = (es, c')" "chat_Done r"
  shows "client_run cl es =
    Some (CStopped (thinking_block T @ text_block C @ map (tool_block marshal) tcs)
      (mapStopReason (chat_DoneReason r) (tcs \<noteq> [])))"
  using assms by (auto simp: sc_end_def delivered_def thinking_block_def text_block_def Let_def)

text \<open>
  A stream as models produce it: thinking, then content, then tool calls. The same stream as one
  response.
\<close>

fun phased :: "bool \<Rightarrow> bool \<Rightarrow> 'a ChatResponse list \<Rightarrow> bool" where
  "phased content tools [] = True"
| "phased content tools (r # rs) =
     ((content \<or> tools \<longrightarrow> chat_Thinking r = []) \<and> (tools \<longrightarrow> chat_Content r = []) \<and>
      phased (content \<or> chat_Content r \<noteq> []) (tools \<or> chat_ToolCalls r \<noteq> []) rs)"

definition whole :: "'a ChatResponse list \<Rightarrow> 'a ChatResponse" where
  "whole rs = (last rs)
     \<lparr>chat_Thinking := concat (map chat_Thinking rs), chat_Content := concat (map chat_Content rs),
      chat_ToolCalls := concat (map chat_ToolCalls rs)\<rparr>"

text \<open>The input of a tool block as the stream sends it.\<close>

fun encoded :: "('a \<Rightarrow> string option) \<Rightarrow> 'a block \<Rightarrow> string block" where
  "encoded marshal (BThinking s) = BThinking s"
| "encoded marshal (BText s) = BText s"
| "encoded marshal (BTool i n a) = BTool i n (the (marshal a))"

lemma delivered_parts:
  assumes "delivered marshal T C tcs c0 cl0"
    "sc_thinking (chat_Thinking r) c0 = (e1, c1)" "sc_content (chat_Content r) c1 = (e2, c2)"
    "sc_tools marshal (chat_ToolCalls r) c2 = (e3, c3)" "sc_end r c3 = (e4, c4)"
    "phased (C \<noteq> []) (tcs \<noteq> []) (r # rs)" "distinct (map co_ID (tcs @ chat_ToolCalls r))"
    "list_all (\<lambda>tc. marshal (co_Arguments tc) \<noteq> None) (chat_ToolCalls r)"
  shows "if chat_Done r then client_run cl0 (e1 @ e2 @ e3 @ e4) =
      Some (CStopped (thinking_block (T @ chat_Thinking r) @ text_block (C @ chat_Content r) @
        map (tool_block marshal) (tcs @ chat_ToolCalls r))
        (mapStopReason (chat_DoneReason r) (tcs @ chat_ToolCalls r \<noteq> [])))
    else \<exists>cl'. client_run cl0 (e1 @ e2 @ e3 @ e4) = Some cl' \<and>
      delivered marshal (T @ chat_Thinking r) (C @ chat_Content r) (tcs @ chat_ToolCalls r) c4 cl'"
proof -
  have phase: "chat_Thinking r \<noteq> [] \<Longrightarrow> C = [] \<and> tcs = []" "chat_Content r \<noteq> [] \<Longrightarrow> tcs = []"
    using assms(6) by auto
  obtain cl1 where cl1: "client_run cl0 e1 = Some cl1" "delivered marshal (T @ chat_Thinking r) C tcs c1 cl1"
    using delivered_thinking[OF assms(1,2)] phase(1) by blast
  obtain cl2 where cl2: "client_run cl1 e2 = Some cl2"
      "delivered marshal (T @ chat_Thinking r) (C @ chat_Content r) tcs c2 cl2"
    using delivered_content[OF cl1(2) assms(3)] phase(2) by blast
  obtain cl3 where cl3: "client_run cl2 e3 = Some cl3"
      "delivered marshal (T @ chat_Thinking r) (C @ chat_Content r) (tcs @ chat_ToolCalls r) c3 cl3"
    using delivered_tools[OF cl2(2) assms(4,7,8)] by blast
  have run: "client_run cl0 (e1 @ e2 @ e3 @ e4) = client_run cl3 e4"
    using cl1(1) cl2(1) cl3(1) by (simp add: client_run_append)
  show ?thesis
  proof (cases "chat_Done r")
    case True
    then show ?thesis using run delivered_end[OF cl3(2) assms(5)] by simp
  next
    case False
    then show ?thesis using run cl3(2) assms(5) by (auto simp: sc_end_def)
  qed
qed

lemma delivered_stream:
  assumes "delivered marshal T C tcs c cl" "done_last rs" "phased (C \<noteq> []) (tcs \<noteq> []) rs"
    "distinct (map co_ID (tcs @ concat (map chat_ToolCalls rs)))"
    "list_all (\<lambda>tc. marshal (co_Arguments tc) \<noteq> None) (concat (map chat_ToolCalls rs))"
  shows "client_run cl (fst (process_all marshal rs c)) =
    Some (CStopped (thinking_block (T @ concat (map chat_Thinking rs)) @ text_block (C @ concat (map chat_Content rs)) @
        map (tool_block marshal) (tcs @ concat (map chat_ToolCalls rs)))
      (mapStopReason (chat_DoneReason (last rs)) (tcs @ concat (map chat_ToolCalls rs) \<noteq> [])))"
  using assms
proof (induction rs arbitrary: T C tcs c cl)
  case (Cons r rs)
  have start: "sc_start r c = ([], c)" using Cons.prems(1) by (simp add: sc_start_def delivered_def)
  obtain e1 c1 where 1: "sc_thinking (chat_Thinking r) c = (e1, c1)" by fastforce
  obtain e2 c2 where 2: "sc_content (chat_Content r) c1 = (e2, c2)" by fastforce
  obtain e3 c3 where 3: "sc_tools marshal (chat_ToolCalls r) c2 = (e3, c3)" by fastforce
  obtain e4 c4 where 4: "sc_end r c3 = (e4, c4)" by fastforce
  have p: "Process marshal r c = (e1 @ e2 @ e3 @ e4, c4)" using start 1 2 3 4 by (simp add: Process_def)
  note parts = delivered_parts[OF Cons.prems(1) 1 2 3 4 Cons.prems(3)]
  show ?case
  proof (cases "rs = []")
    case True
    then show ?thesis using parts Cons.prems p by (simp add: done_last_Cons)
  next
    case False
    then have d: "\<not> chat_Done r" "done_last rs" using Cons.prems(2) by (simp_all add: done_last_Cons)
    then obtain cl' where cl': "client_run cl (e1 @ e2 @ e3 @ e4) = Some cl'"
        "delivered marshal (T @ chat_Thinking r) (C @ chat_Content r) (tcs @ chat_ToolCalls r) c4 cl'"
      using parts Cons.prems(4,5) by (auto simp: Int_Un_distrib)
    have "phased (C @ chat_Content r \<noteq> []) (tcs @ chat_ToolCalls r \<noteq> []) rs" using Cons.prems(3) by simp
    note IH = Cons.IH[OF cl'(2) d(2) this]
    obtain es' c' where rest: "process_all marshal rs c4 = (es', c')" by fastforce
    have "client_run cl (fst (process_all marshal (r # rs) c)) = client_run cl' es'"
      using p rest cl'(1) client_run_append[of cl "e1 @ e2 @ e3 @ e4"] by simp
    then show ?thesis using IH rest False Cons.prems(4,5) by simp
  qed
qed (simp add: done_last_def)

section \<open>Properties\<close>

text \<open>
  C9. Every stream of the converter follows the protocol: whatever thinking, content and tool calls
  (with repeated identifiers or arguments that cannot be encoded) the responses bring in whatever
  order, as long as exactly the last one is marked as done, the client accepts all events - blocks
  opened with the next index, extended only by deltas of their kind, closed before the next one and
  before the end - and the message is stopped.
\<close>

theorem StreamConverter_follows_protocol:
  assumes "done_last rs" "process_all marshal rs (NewStreamConverter mid model est) = (es, c)"
  shows "\<exists>bs. client_run CStart es = Some (CStopped bs (mapStopReason (chat_DoneReason (last rs)) (sc_toolCallsSent c \<noteq> {})))"
  by (rule process_all_in_step[OF _ assms]) (simp add: in_step_def NewStreamConverter_def)

definition example_response :: "string \<Rightarrow> string \<Rightarrow> unit CallOut list \<Rightarrow> bool \<Rightarrow> unit ChatResponse" where
  "example_response t s tcs d =
     \<lparr>chat_Model = ''m'', chat_Thinking = t, chat_Content = s, chat_ToolCalls = tcs, chat_Done = d,
      chat_DoneReason = ''stop'',
      chat_Metrics = \<lparr>PromptEvalCount = 3, PromptEvalCachedCount = Some 1, EvalCount = 2\<rparr>\<rparr>"

theorem StreamConverter_follows_protocol_witness:
  "\<exists>bs. client_run CStart (fst (process_all (\<lambda>_. None)
      [example_response [] ''a'' [] False, example_response ''t'' [] [\<lparr>co_ID = ''i'', co_Name = ''f'', co_Arguments = ()\<rparr>] False,
       example_response [] ''b'' [] True] (NewStreamConverter ''x'' ''m'' 0)))
    = Some (CStopped bs ''end_turn'')"
proof -
  let ?rs = "[example_response [] ''a'' [] False, example_response ''t'' [] [\<lparr>co_ID = ''i'', co_Name = ''f'', co_Arguments = ()\<rparr>] False,
       example_response [] ''b'' [] True]"
  obtain es c where p: "process_all (\<lambda>_. None) ?rs (NewStreamConverter ''x'' ''m'' 0) = (es, c)" by fastforce
  have "sc_toolCallsSent (snd (process_all (\<lambda>_. None) ?rs (NewStreamConverter ''x'' ''m'' 0))) = {}"
    by (simp add: example_response_def Process_def sc_start_def sc_thinking_def sc_content_def sc_tool_def sc_end_def
        sc_closeThinking_def sc_closeText_def NewStreamConverter_def Let_def)
  then have "sc_toolCallsSent c = {}" using p by simp
  moreover have "done_last ?rs" by (simp add: done_last_def example_response_def)
  ultimately show ?thesis
    using StreamConverter_follows_protocol[of ?rs "\<lambda>_. None" "''x''" "''m''" 0 es c] p
    by (simp add: mapStopReason_def example_response_def)
qed

text \<open>
  C8. Streaming and not streaming agree: for a stream of thinking, then content, then tool calls
  (each phase in any number of pieces; distinct identifiers, arguments that can be encoded), the
  message that the client assembles has exactly the blocks and the stop reason that
  \<open>ToMessagesResponse\<close> gives for the whole response at once.
\<close>

theorem StreamConverter_assembles_response:
  assumes "done_last rs" "phased False False rs" "distinct (map co_ID (concat (map chat_ToolCalls rs)))"
    "list_all (\<lambda>tc. marshal (co_Arguments tc) \<noteq> None) (concat (map chat_ToolCalls rs))"
  shows "client_run CStart (fst (process_all marshal rs (NewStreamConverter mid model est))) =
    Some (CStopped (map (encoded marshal) (mr_Content (ToMessagesResponse mid (whole rs))))
      (mr_StopReason (ToMessagesResponse mid (whole rs))))"
proof -
  obtain r rs' where rs: "rs = r # rs'" using assms(1) by (cases rs) (auto simp: done_last_def)
  obtain e0 c0 where 0: "sc_start r (NewStreamConverter mid model est) = (e0, c0)" by fastforce
  from delivered_start[OF this] obtain cl0 where cl0: "client_run CStart e0 = Some cl0" "delivered marshal [] [] [] c0 cl0" by blast
  have "sc_start r c0 = ([], c0)" using cl0(2) by (simp add: sc_start_def delivered_def)
  then have "fst (process_all marshal rs (NewStreamConverter mid model est)) = e0 @ fst (process_all marshal rs c0)"
    using 0 rs by (simp add: Process_def split: prod.splits)
  moreover have "phased ([] \<noteq> []) ([] \<noteq> []) rs" using assms(2) by simp
  moreover have "map (encoded marshal \<circ> (\<lambda>tc. BTool (co_ID tc) (co_Name tc) (co_Arguments tc))) = map (tool_block marshal)"
    by (simp add: fun_eq_iff tool_block_def)
  ultimately show ?thesis
    using delivered_stream[OF cl0(2) assms(1)] assms(3,4) cl0(1)
    by (simp add: client_run_append ToMessagesResponse_def whole_def thinking_block_def text_block_def)
qed

theorem StreamConverter_assembles_response_witness:
  "client_run CStart (fst (process_all (\<lambda>_. Some ''{}'')
      [example_response ''t'' [] [] False, example_response ''u'' ''a'' [] False,
       example_response [] ''b'' [\<lparr>co_ID = ''i'', co_Name = ''f'', co_Arguments = ()\<rparr>] True] (NewStreamConverter ''x'' ''m'' 0)))
    = Some (CStopped [BThinking ''tu'', BText ''ab'', BTool ''i'' ''f'' ''{}''] ''tool_use'')"
  using StreamConverter_assembles_response[of "[example_response ''t'' [] [] False, example_response ''u'' ''a'' [] False,
       example_response [] ''b'' [\<lparr>co_ID = ''i'', co_Name = ''f'', co_Arguments = ()\<rparr>] True]" "\<lambda>_. Some ''{}''" "''x''" "''m''" 0]
  by (simp add: done_last_def example_response_def whole_def ToMessagesResponse_def mapStopReason_def)

text \<open>
  The usage never goes out of range, whatever the metrics say (negative counts, more cached than
  evaluated tokens): the tokens read from the cache and the other input tokens are not negative, and
  together they are the evaluated prompt tokens.
\<close>

theorem UsageFromMetrics_bounds:
  "0 \<le> InputTokens (UsageFromMetrics m) \<and> 0 \<le> intValue (CacheReadInputTokens (UsageFromMetrics m))
    \<and> InputTokens (UsageFromMetrics m) + intValue (CacheReadInputTokens (UsageFromMetrics m)) = max 0 (PromptEvalCount m)"
  by (cases "PromptEvalCachedCount m") (auto simp: UsageFromMetrics_def Let_def)

end
