(* ===== verification/AnthropicRequest.thy ===== *)
theory AnthropicRequest
  imports AnthropicStream ThinkValue GoSpace
begin

text \<open>
  \<^verbatim>\<open>anthropic/anthropic.go\<close>, the request side: \<open>FromMessagesRequest\<close> converts a messages request
  into a chat request. Arguments of the definitions: \<open>toLower\<close> is \<^verbatim>\<open>strings.ToLower\<close> (the Unicode
  tables), \<open>b64\<close> decodes base64, \<open>marshal\<close> encodes a value as JSON, \<open>schema\<close> decodes the JSON schema
  of a tool into its parameters.
\<close>

section \<open>Values and blocks\<close>

text \<open>A decoded JSON value; the keys of an object are distinct, numbers are kept as their text.\<close>

datatype json = JNull | JBool bool | JNum string | JStr string | JArr "json list" | JObj "(string \<times> json) list"

fun str_field :: "(string \<times> json) list \<Rightarrow> string \<Rightarrow> string option" where
  "str_field m k = (case map_of m k of Some (JStr s) \<Rightarrow> Some s | _ \<Rightarrow> None)"

fun or_empty :: "string option \<Rightarrow> string" where
  "or_empty None = []"
| "or_empty (Some s) = s"

record WebSearchResult =
  ws_Type :: string
  ws_URL :: string
  ws_Title :: string

text \<open>The \<^verbatim>\<open>any\<close> of a block's content: nil, decoded JSON, or one of the two structs.\<close>

datatype content_any = CNil | CJson json | CResults "WebSearchResult list" | CError string

record ImageSource =
  is_Type :: string
  is_Data :: string

record 'a ContentBlock =
  cb_Type :: string
  cb_Text :: "string option"
  cb_Source :: "ImageSource option"
  cb_ID :: string
  cb_Name :: string
  cb_Input :: 'a
  cb_ToolUseID :: string
  cb_Content :: content_any
  cb_Thinking :: "string option"

record 'a MessageParam =
  mp_Role :: string
  mp_Content :: "'a ContentBlock list"

record 'a ApiMessage =
  am_Role :: string
  am_Content :: string
  am_Thinking :: string
  am_Images :: "string list"
  am_ToolCalls :: "'a CallOut list"
  am_ToolCallID :: string

datatype convert_error =
    InvalidImageSource
  | ImageSourceType string
  | BadBase64
  | MissingID
  | MissingName
  | InvalidToolResultImage
  | InvalidSchema string

section \<open>Parts of a message\<close>

definition resolveImageSource :: "(string \<Rightarrow> string option) \<Rightarrow> ImageSource \<Rightarrow> convert_error + string" where
  "resolveImageSource b64 source =
     (if is_Type source \<noteq> ''base64'' then Inl (ImageSourceType (is_Type source))
      else (case b64 (is_Data source) of None \<Rightarrow> Inl BadBase64 | Some d \<Rightarrow> Inr d))"

fun tool_result_blocks :: "(string \<Rightarrow> string option) \<Rightarrow> json list \<Rightarrow> convert_error + string \<times> string list" where
  "tool_result_blocks b64 [] = Inr ([], [])"
| "tool_result_blocks b64 (cb # c) =
     (case cb of
        JObj m \<Rightarrow>
          (if map_of m ''type'' = Some (JStr ''text'') then
             (case tool_result_blocks b64 c of
                Inl e \<Rightarrow> Inl e
              | Inr (text, images) \<Rightarrow> Inr (or_empty (str_field m ''text'') @ text, images))
           else if map_of m ''type'' = Some (JStr ''image'') then
             (case map_of m ''source'' of
                Some (JObj s) \<Rightarrow>
                  (case resolveImageSource b64
                      \<lparr>is_Type = or_empty (str_field s ''type''), is_Data = or_empty (str_field s ''data'')\<rparr> of
                     Inl e \<Rightarrow> Inl e
                   | Inr img \<Rightarrow>
                       (case tool_result_blocks b64 c of
                          Inl e \<Rightarrow> Inl e
                        | Inr (text, images) \<Rightarrow> Inr (text, img # images)))
              | _ \<Rightarrow> Inl InvalidToolResultImage)
           else tool_result_blocks b64 c)
      | _ \<Rightarrow> tool_result_blocks b64 c)"

definition convertToolResultContent ::
  "(string \<Rightarrow> string option) \<Rightarrow> content_any \<Rightarrow> convert_error + string \<times> string list" where
  "convertToolResultContent b64 content =
     (case content of
        CJson (JStr c) \<Rightarrow> Inr (c, [])
      | CJson (JArr c) \<Rightarrow> tool_result_blocks b64 c
      | _ \<Rightarrow> Inr ([], []))"

definition result_line :: "string \<Rightarrow> string \<Rightarrow> string" where
  "result_line title url = ''- '' @ title @ '': '' @ url @ [CHR 0x0A]"

definition search_error :: "string \<Rightarrow> string" where
  "search_error errorCode =
     (if errorCode = [] then ''web_search_tool_result_error'' else ''web_search_tool_result_error: '' @ errorCode)"

text \<open>The loop over decoded results: an error block replaces everything.\<close>

fun search_results :: "string \<Rightarrow> json list \<Rightarrow> string" where
  "search_results acc [] = acc"
| "search_results acc (item # c) =
     (case item of
        JObj m \<Rightarrow>
          (if map_of m ''type'' = Some (JStr ''web_search_result'') then
             search_results
               (acc @ result_line (or_empty (str_field m ''title'')) (or_empty (str_field m ''url''))) c
           else if map_of m ''type'' = Some (JStr ''web_search_tool_result_error'') then
             search_error (or_empty (str_field m ''error_code''))
           else search_results acc c)
      | _ \<Rightarrow> search_results acc c)"

definition formatWebSearchToolResultContent :: "(content_any \<Rightarrow> string option) \<Rightarrow> content_any \<Rightarrow> string" where
  "formatWebSearchToolResultContent marshal content =
     (case content of
        CJson (JStr c) \<Rightarrow> c
      | CResults c \<Rightarrow>
          concat (map (\<lambda>item. result_line (ws_Title item) (ws_URL item))
            (filter (\<lambda>item. ws_Type item = ''web_search_result'') c))
      | CJson (JArr c) \<Rightarrow> search_results [] c
      | CJson (JObj m) \<Rightarrow>
          if map_of m ''type'' = Some (JStr ''web_search_tool_result_error'') then
            search_error (or_empty (str_field m ''error_code''))
          else or_empty (marshal content)
      | CError errorCode \<Rightarrow> search_error errorCode
      | _ \<Rightarrow> or_empty (marshal content))"

section \<open>One message\<close>

text \<open>The local variables of the loop over the blocks.\<close>

record 'a parts =
  pt_text :: string
  pt_images :: "string list"
  pt_toolCalls :: "'a CallOut list"
  pt_thinking :: string
  pt_toolResults :: "'a ApiMessage list"

definition empty_parts :: "'a parts" where
  "empty_parts = \<lparr>pt_text = [], pt_images = [], pt_toolCalls = [], pt_thinking = [], pt_toolResults = []\<rparr>"

definition tool_message :: "string \<Rightarrow> string list \<Rightarrow> string \<Rightarrow> 'a ApiMessage" where
  "tool_message content images callID =
     \<lparr>am_Role = ''tool'', am_Content = content, am_Thinking = [], am_Images = images, am_ToolCalls = [],
      am_ToolCallID = callID\<rparr>"

definition convert_block ::
  "(string \<Rightarrow> string option) \<Rightarrow> (content_any \<Rightarrow> string option) \<Rightarrow> 'a ContentBlock \<Rightarrow> 'a parts \<Rightarrow> convert_error + 'a parts" where
  "convert_block b64 marshal block s =
     (let t = cb_Type block;
          call = \<lparr>co_ID = cb_ID block, co_Name = cb_Name block, co_Arguments = cb_Input block\<rparr> in
      if t = ''text'' then Inr (s\<lparr>pt_text := pt_text s @ or_empty (cb_Text block)\<rparr>)
      else if t = ''image'' then
        (case cb_Source block of
           None \<Rightarrow> Inl InvalidImageSource
         | Some source \<Rightarrow>
             (case resolveImageSource b64 source of
                Inl e \<Rightarrow> Inl e
              | Inr decoded \<Rightarrow> Inr (s\<lparr>pt_images := pt_images s @ [decoded]\<rparr>)))
      else if t = ''tool_use'' then
        (if cb_ID block = [] then Inl MissingID
         else if cb_Name block = [] then Inl MissingName
         else Inr (s\<lparr>pt_toolCalls := pt_toolCalls s @ [call]\<rparr>))
      else if t = ''tool_result'' then
        (case convertToolResultContent b64 (cb_Content block) of
           Inl e \<Rightarrow> Inl e
         | Inr (content, images) \<Rightarrow>
             Inr (s\<lparr>pt_toolResults := pt_toolResults s @ [tool_message content images (cb_ToolUseID block)]\<rparr>))
      else if t = ''thinking'' then
        (case cb_Thinking block of None \<Rightarrow> Inr s | Some th \<Rightarrow> Inr (s\<lparr>pt_thinking := th\<rparr>))
      else if t = ''server_tool_use'' then Inr (s\<lparr>pt_toolCalls := pt_toolCalls s @ [call]\<rparr>)
      else if t = ''web_search_tool_result'' then
        Inr (s\<lparr>pt_toolResults := pt_toolResults s @
          [tool_message (formatWebSearchToolResultContent marshal (cb_Content block)) [] (cb_ToolUseID block)]\<rparr>)
      else Inr s)"

fun convert_blocks ::
  "(string \<Rightarrow> string option) \<Rightarrow> (content_any \<Rightarrow> string option) \<Rightarrow> 'a ContentBlock list \<Rightarrow> 'a parts \<Rightarrow> convert_error + 'a parts" where
  "convert_blocks b64 marshal [] s = Inr s"
| "convert_blocks b64 marshal (block # bs) s =
     (case convert_block b64 marshal block s of Inl e \<Rightarrow> Inl e | Inr s' \<Rightarrow> convert_blocks b64 marshal bs s')"

definition convertMessage ::
  "(string \<Rightarrow> string) \<Rightarrow> (string \<Rightarrow> string option) \<Rightarrow> (content_any \<Rightarrow> string option) \<Rightarrow> 'a MessageParam
    \<Rightarrow> convert_error + 'a ApiMessage list" where
  "convertMessage toLower b64 marshal msg =
     (let role = toLower (mp_Role msg) in
      case convert_blocks b64 marshal (mp_Content msg) empty_parts of
        Inl e \<Rightarrow> Inl e
      | Inr s \<Rightarrow>
          (let first = (if role = ''user'' \<and> pt_toolResults s \<noteq> [] then pt_toolResults s else []);
               main = (if pt_text s \<noteq> [] \<or> pt_images s \<noteq> [] \<or> pt_toolCalls s \<noteq> [] \<or> pt_thinking s \<noteq> [] then
                         [\<lparr>am_Role = role, am_Content = pt_text s, am_Thinking = pt_thinking s,
                           am_Images = pt_images s, am_ToolCalls = pt_toolCalls s, am_ToolCallID = []\<rparr>]
                       else []);
               rest = (if role \<noteq> ''user'' \<or> pt_toolResults s = [] then pt_toolResults s else [])
           in Inr (first @ main @ rest)))"

section \<open>Tools\<close>

record ToolDef =
  td_Type :: string
  td_Name :: string
  td_Description :: string
  td_InputSchema :: string

datatype 'p tool_params = NoParams | SearchParams | Params 'p

record 'p ApiTool =
  at_Name :: string
  at_Description :: string
  at_Parameters :: "'p tool_params"

definition convertTool :: "(string \<Rightarrow> 'p option) \<Rightarrow> ToolDef \<Rightarrow> convert_error + 'p ApiTool \<times> bool" where
  "convertTool schema t =
     (if prefix ''web_search'' (td_Type t) then
        Inr (\<lparr>at_Name = ''web_search'',
              at_Description = ''Search the web for current information. Use this to find up-to-date information about any topic.'',
              at_Parameters = SearchParams\<rparr>, True)
      else if td_InputSchema t \<noteq> [] then
        (case schema (td_InputSchema t) of
           None \<Rightarrow> Inl (InvalidSchema (td_Name t))
         | Some p \<Rightarrow>
             Inr (\<lparr>at_Name = td_Name t, at_Description = td_Description t, at_Parameters = Params p\<rparr>, False))
      else Inr (\<lparr>at_Name = td_Name t, at_Description = td_Description t, at_Parameters = NoParams\<rparr>, False))"

text \<open>The loop over the tools; a tool of the user that collides with the built-in search is dropped.\<close>

fun convert_tools :: "(string \<Rightarrow> 'p option) \<Rightarrow> bool \<Rightarrow> ToolDef list \<Rightarrow> convert_error + 'p ApiTool list" where
  "convert_tools schema builtin [] = Inr []"
| "convert_tools schema builtin (t # ts) =
     (if builtin \<and> \<not> prefix ''web_search'' (td_Type t) \<and> td_Name t = ''web_search'' then convert_tools schema builtin ts
      else
        (case convertTool schema t of
           Inl e \<Rightarrow> Inl e
         | Inr (tool, _) \<Rightarrow>
             (case convert_tools schema builtin ts of Inl e \<Rightarrow> Inl e | Inr tools \<Rightarrow> Inr (tool # tools))))"

section \<open>The request\<close>

datatype 'd req_option = QInt int | QFloat 'd | QStrings "string list"

record ('a, 'd) MessagesRequest =
  rq_Model :: string
  rq_MaxTokens :: int
  rq_Messages :: "'a MessageParam list"
  rq_System :: content_any
  rq_Stream :: bool
  rq_Temperature :: "'d option"
  rq_TopP :: "'d option"
  rq_TopK :: "int option"
  rq_StopSequences :: "string list"
  rq_Tools :: "ToolDef list"
  rq_Thinking :: "string option"
  rq_Effort :: "string option"

record ('a, 'p, 'd) ChatRequest =
  rc_Model :: string
  rc_Messages :: "'a ApiMessage list"
  rc_Options :: "(string \<times> 'd req_option) list"
  rc_Stream :: bool
  rc_Tools :: "'p ApiTool list"
  rc_Think :: "ThinkValue option"

definition ValidateLegacyThinking :: "ThinkValue option \<Rightarrow> bool" where
  "ValidateLegacyThinking think \<longleftrightarrow>
     (if \<not> ThinkValue_IsString think then True
      else ThinkValue_String think \<in> {''low'', ''medium'', ''high'', ''max''})"

definition plain_message :: "string \<Rightarrow> string \<Rightarrow> 'a ApiMessage" where
  "plain_message role content =
     \<lparr>am_Role = role, am_Content = content, am_Thinking = [], am_Images = [], am_ToolCalls = [], am_ToolCallID = []\<rparr>"

fun system_text :: "json list \<Rightarrow> string" where
  "system_text [] = []"
| "system_text (JObj m # sys) =
     (if map_of m ''type'' = Some (JStr ''text'') then or_empty (str_field m ''text'') else []) @ system_text sys"
| "system_text (_ # sys) = system_text sys"

definition system_messages :: "content_any \<Rightarrow> 'a ApiMessage list" where
  "system_messages system =
     (case system of
        CJson (JStr sys) \<Rightarrow> if sys \<noteq> [] then [plain_message ''system'' sys] else []
      | CJson (JArr sys) \<Rightarrow> if system_text sys \<noteq> [] then [plain_message ''system'' (system_text sys)] else []
      | _ \<Rightarrow> [])"

fun convert_messages ::
  "(string \<Rightarrow> string) \<Rightarrow> (string \<Rightarrow> string option) \<Rightarrow> (content_any \<Rightarrow> string option) \<Rightarrow> 'a MessageParam list
    \<Rightarrow> convert_error + 'a ApiMessage list" where
  "convert_messages toLower b64 marshal [] = Inr []"
| "convert_messages toLower b64 marshal (msg # msgs) =
     (case convertMessage toLower b64 marshal msg of
        Inl e \<Rightarrow> Inl e
      | Inr converted \<Rightarrow>
          (case convert_messages toLower b64 marshal msgs of
             Inl e \<Rightarrow> Inl e
           | Inr rest \<Rightarrow> Inr (converted @ rest)))"

definition request_options :: "('a, 'd) MessagesRequest \<Rightarrow> (string \<times> 'd req_option) list" where
  "request_options r =
     [(''num_predict'', QInt (rq_MaxTokens r))] @
     (case rq_Temperature r of None \<Rightarrow> [] | Some t \<Rightarrow> [(''temperature'', QFloat t)]) @
     (case rq_TopP r of None \<Rightarrow> [] | Some t \<Rightarrow> [(''top_p'', QFloat t)]) @
     (case rq_TopK r of None \<Rightarrow> [] | Some t \<Rightarrow> [(''top_k'', QInt t)]) @
     (if rq_StopSequences r \<noteq> [] then [(''stop'', QStrings (rq_StopSequences r))] else [])"

text \<open>\<open>thinking\<close> is the optional descriptor of the model.\<close>

definition request_think ::
  "(string \<Rightarrow> string) \<Rightarrow> Thinking_desc option \<Rightarrow> ('a, 'd) MessagesRequest \<Rightarrow> ThinkValue option" where
  "request_think toLower thinking r =
     (let think0 =
        (if rq_Thinking r = Some ''disabled'' then Some \<lparr>Value = Some (DynBool False)\<rparr>
         else if rq_Thinking r = Some ''enabled'' then Some \<lparr>Value = Some (DynBool True)\<rparr>
         else None)
      in case (think0, rq_Effort r) of
           (None, Some effort) \<Rightarrow>
             (if Valid thinking then
                (if effort \<noteq> [] then Some \<lparr>Value = Some (DynString effort)\<rparr> else None)
              else
                (let e0 = toLower (trim_space effort);
                     e1 = (if e0 = ''xhigh'' then ''high'' else e0);
                     legacyThink = Some \<lparr>Value = Some (DynString e1)\<rparr>
                 in if ValidateLegacyThinking legacyThink then legacyThink else None))
         | _ \<Rightarrow> think0)"

definition FromMessagesRequest ::
  "(string \<Rightarrow> string) \<Rightarrow> (string \<Rightarrow> string option) \<Rightarrow> (content_any \<Rightarrow> string option) \<Rightarrow> (string \<Rightarrow> 'p option)
    \<Rightarrow> Thinking_desc option \<Rightarrow> ('a, 'd) MessagesRequest \<Rightarrow> convert_error + ('a, 'p, 'd) ChatRequest" where
  "FromMessagesRequest toLower b64 marshal schema thinking r =
     (case convert_messages toLower b64 marshal (rq_Messages r) of
        Inl e \<Rightarrow> Inl e
      | Inr msgs \<Rightarrow>
          (let hasBuiltinWebSearch = list_ex (\<lambda>t. prefix ''web_search'' (td_Type t)) (rq_Tools r) in
           case convert_tools schema hasBuiltinWebSearch (rq_Tools r) of
             Inl e \<Rightarrow> Inl e
           | Inr tools \<Rightarrow>
               Inr \<lparr>rc_Model = rq_Model r, rc_Messages = system_messages (rq_System r) @ msgs,
                 rc_Options = request_options r, rc_Stream = rq_Stream r, rc_Tools = tools,
                 rc_Think = request_think toLower thinking r\<rparr>))"

section \<open>What a message becomes\<close>

text \<open>
  The contents of a message, kind by kind, without accumulators: the reference for the loop.
\<close>

definition texts_of :: "'a ContentBlock list \<Rightarrow> string" where
  "texts_of bs = concat (map (\<lambda>b. or_empty (cb_Text b)) (filter (\<lambda>b. cb_Type b = ''text'') bs))"

definition images_of :: "(string \<Rightarrow> string option) \<Rightarrow> 'a ContentBlock list \<Rightarrow> string list" where
  "images_of b64 bs =
     concat (map (\<lambda>b. case cb_Source b of None \<Rightarrow> [] | Some s \<Rightarrow> (case b64 (is_Data s) of None \<Rightarrow> [] | Some d \<Rightarrow> [d]))
       (filter (\<lambda>b. cb_Type b = ''image'') bs))"

definition calls_in :: "'a ContentBlock list \<Rightarrow> 'a CallOut list" where
  "calls_in bs =
     map (\<lambda>b. \<lparr>co_ID = cb_ID b, co_Name = cb_Name b, co_Arguments = cb_Input b\<rparr>)
       (filter (\<lambda>b. cb_Type b \<in> {''tool_use'', ''server_tool_use''}) bs)"

definition last_thinking :: "string \<Rightarrow> 'a ContentBlock list \<Rightarrow> string" where
  "last_thinking th bs =
     foldl (\<lambda>t b. case cb_Thinking b of None \<Rightarrow> t | Some t' \<Rightarrow> t') th (filter (\<lambda>b. cb_Type b = ''thinking'') bs)"

definition result_message ::
  "(string \<Rightarrow> string option) \<Rightarrow> (content_any \<Rightarrow> string option) \<Rightarrow> 'a ContentBlock \<Rightarrow> 'a ApiMessage" where
  "result_message b64 marshal b =
     (if cb_Type b = ''tool_result'' then
        (case convertToolResultContent b64 (cb_Content b) of
           Inl e \<Rightarrow> tool_message [] [] (cb_ToolUseID b)
         | Inr (content, images) \<Rightarrow> tool_message content images (cb_ToolUseID b))
      else tool_message (formatWebSearchToolResultContent marshal (cb_Content b)) [] (cb_ToolUseID b))"

definition results_in ::
  "(string \<Rightarrow> string option) \<Rightarrow> (content_any \<Rightarrow> string option) \<Rightarrow> 'a ContentBlock list \<Rightarrow> 'a ApiMessage list" where
  "results_in b64 marshal bs =
     map (result_message b64 marshal) (filter (\<lambda>b. cb_Type b \<in> {''tool_result'', ''web_search_tool_result''}) bs)"

lemmas contents_defs = texts_of_def images_of_def calls_in_def last_thinking_def results_in_def

text \<open>The blocks that are rejected, and with which error.\<close>

definition block_error :: "(string \<Rightarrow> string option) \<Rightarrow> 'a ContentBlock \<Rightarrow> convert_error option" where
  "block_error b64 b =
     (if cb_Type b = ''image'' then
        (case cb_Source b of
           None \<Rightarrow> Some InvalidImageSource
         | Some s \<Rightarrow> (case resolveImageSource b64 s of Inl e \<Rightarrow> Some e | Inr _ \<Rightarrow> None))
      else if cb_Type b = ''tool_use'' then
        (if cb_ID b = [] then Some MissingID else if cb_Name b = [] then Some MissingName else None)
      else if cb_Type b = ''tool_result'' then
        (case convertToolResultContent b64 (cb_Content b) of Inl e \<Rightarrow> Some e | Inr _ \<Rightarrow> None)
      else None)"

lemma convert_block_error:
  "convert_block b64 marshal b s = Inl e \<longleftrightarrow> block_error b64 b = Some e"
  by (auto simp: convert_block_def block_error_def Let_def split: option.splits sum.splits prod.splits)

definition with_blocks ::
  "(string \<Rightarrow> string option) \<Rightarrow> (content_any \<Rightarrow> string option) \<Rightarrow> 'a ContentBlock list \<Rightarrow> 'a parts \<Rightarrow> 'a parts" where
  "with_blocks b64 marshal bs s = s
     \<lparr>pt_text := pt_text s @ texts_of bs, pt_images := pt_images s @ images_of b64 bs,
      pt_toolCalls := pt_toolCalls s @ calls_in bs, pt_thinking := last_thinking (pt_thinking s) bs,
      pt_toolResults := pt_toolResults s @ results_in b64 marshal bs\<rparr>"

lemma convert_block_ok:
  assumes "convert_block b64 marshal b s = Inr s'"
  shows "s' = with_blocks b64 marshal [b] s"
  using assms
  by (auto simp: convert_block_def with_blocks_def contents_defs result_message_def resolveImageSource_def Let_def
      split: if_splits option.splits sum.splits prod.splits)

lemma with_blocks_Cons:
  "with_blocks b64 marshal bs (with_blocks b64 marshal [b] s) = with_blocks b64 marshal (b # bs) s"
  by (simp add: with_blocks_def contents_defs)

lemma convert_blocks_eq:
  "convert_blocks b64 marshal bs s =
     (case List.find (\<lambda>b. block_error b64 b \<noteq> None) bs of
        Some b \<Rightarrow> Inl (the (block_error b64 b))
      | None \<Rightarrow> Inr (with_blocks b64 marshal bs s))"
proof (induction bs arbitrary: s)
  case Nil
  then show ?case by (simp add: with_blocks_def contents_defs)
next
  case (Cons b bs)
  show ?case
  proof (cases "convert_block b64 marshal b s")
    case (Inl e)
    then show ?thesis using convert_block_error[of b64 marshal b s e] by simp
  next
    case (Inr s')
    then have "block_error b64 b = None" using convert_block_error[of b64 marshal b s] by (cases "block_error b64 b") auto
    moreover have "with_blocks b64 marshal bs s' = with_blocks b64 marshal (b # bs) s"
      using convert_block_ok[OF Inr] with_blocks_Cons by metis
    ultimately show ?thesis using Inr Cons.IH[of s'] by (simp split: option.splits)
  qed
qed

section \<open>Properties\<close>

text \<open>
  C33. What a message becomes: the first rejected block gives its error; otherwise the texts, images,
  tool calls and the last thinking make one message of the role, if there is any of them, and each
  tool result makes a message of its own, in order - before the message of a user, so that results
  directly follow the calls they answer, and after any other.
\<close>

theorem convertMessage_spec:
  "convertMessage toLower b64 marshal msg =
     (let bs = mp_Content msg; role = toLower (mp_Role msg); results = results_in b64 marshal bs;
          main = (if texts_of bs = [] \<and> images_of b64 bs = [] \<and> calls_in bs = [] \<and> last_thinking [] bs = [] then []
                  else [\<lparr>am_Role = role, am_Content = texts_of bs, am_Thinking = last_thinking [] bs,
                         am_Images = images_of b64 bs, am_ToolCalls = calls_in bs, am_ToolCallID = []\<rparr>])
      in case List.find (\<lambda>b. block_error b64 b \<noteq> None) bs of
           Some b \<Rightarrow> Inl (the (block_error b64 b))
         | None \<Rightarrow> Inr (if role = ''user'' then results @ main else main @ results))"
  by (auto simp: convertMessage_def convert_blocks_eq with_blocks_def empty_parts_def Let_def split: option.splits)

lemma convert_tools_search:
  "convert_tools schema True ts = Inr tools \<Longrightarrow> \<forall>t\<in>set tools. at_Name t = ''web_search'' \<longrightarrow> at_Parameters t = SearchParams"
  by (induction ts arbitrary: tools) (auto simp: convertTool_def split: if_splits sum.splits option.splits)



end
