(* ===== verification/HarmonyNames.thy ===== *)
theory HarmonyNames
  imports GoUtf8
begin

text \<open>
  \<^verbatim>\<open>FunctionNameMap\<close> of \<^verbatim>\<open>harmony/harmonyparser.go\<close>: the names of the user's tools are replaced by
  identifiers a harmony model can write, and the name in a call of the model is replaced back. The
  two Go maps are partial functions; that they are finite is the invariant \<open>finite_names\<close>, and it
  is what makes the search for a free name end.

  \<open>up\<close> tells whether a rune outside ASCII is a letter or a digit (the tables of \<^verbatim>\<open>unicode\<close>).
\<close>

section \<open>Decimal numbers\<close>

text \<open>\<^verbatim>\<open>fmt.Sprintf("%d", n)\<close> of a count.\<close>

fun decimal :: "nat \<Rightarrow> string" where
  "decimal n = (if n < 10 then [char_of (48 + n)] else decimal (n div 10) @ [char_of (48 + n mod 10)])"

declare decimal.simps [simp del]

fun decimal_value :: "string \<Rightarrow> nat" where
  "decimal_value [] = 0"
| "decimal_value (c # cs) = (of_char c - 48) * 10 ^ length cs + decimal_value cs"

lemma decimal_value_snoc: "decimal_value (s @ [c]) = 10 * decimal_value s + (of_char c - 48)"
  by (induction s) (simp_all add: algebra_simps)

lemma of_char_digit: "d < 10 \<Longrightarrow> of_char (char_of (48 + d) :: char) = (48 + d :: nat)"
  by (simp add: of_char_of)

lemma decimal_value_decimal: "decimal_value (decimal n) = n"
proof (induction n rule: decimal.induct)
  case (1 n)
  then show ?case
    by (cases "n < 10") (simp_all add: decimal.simps[of n] decimal_value_snoc of_char_digit)
qed

lemma decimal_inject [simp]: "decimal m = decimal n \<longleftrightarrow> m = n"
  by (metis decimal_value_decimal)

section \<open>Identifiers\<close>

definition digit_byte :: "char \<Rightarrow> bool" where "digit_byte c = byte_in 48 57 c"

definition ident_byte :: "char \<Rightarrow> bool" where
  "ident_byte c \<longleftrightarrow> byte_in 65 90 c \<or> byte_in 97 122 c \<or> digit_byte c \<or> c = CHR ''_'' \<or> c = CHR ''$''"

text \<open>The function \<open>mapper\<close> on one rune; an invalid byte is the replacement rune, no letter.\<close>

definition mapper :: "(string \<Rightarrow> bool) \<Rightarrow> string \<Rightarrow> string" where
  "mapper up r =
     (case r of
        [c] \<Rightarrow>
          if c = CHR '' '' \<or> c = CHR ''-'' \<or> c = CHR ''.'' then ''_''
          else if ident_byte c then [c] else []
      | _ \<Rightarrow> if up r then r else [])"

definition convertToValidChars :: "(string \<Rightarrow> bool) \<Rightarrow> string \<Rightarrow> string" where
  "convertToValidChars up userFunctionName =
     (let candidate = concat (map (mapper up) (explode userFunctionName)) in
      if candidate = [] then ''unnamed''
      else if digit_byte (hd candidate) then ''_'' @ candidate
      else candidate)"

text \<open>Identifiers: the texts it can return.\<close>

definition ts_identifier :: "(string \<Rightarrow> bool) \<Rightarrow> string \<Rightarrow> bool" where
  "ts_identifier up s \<longleftrightarrow> s \<noteq> [] \<and> \<not> digit_byte (hd s) \<and>
     (\<exists>rs. s = concat rs \<and> (\<forall>r\<in>set rs. (\<exists>c. r = [c] \<and> ident_byte c) \<or> 1 < length r \<and> up r))"

lemma ident_byte_underscore: "ident_byte (CHR ''_'')" "\<not> digit_byte (CHR ''_'')"
  by (simp_all add: ident_byte_def digit_byte_def byte_in_def)

lemma mapper_ident:
  assumes "r \<noteq> []"
  shows "mapper up r = [] \<or> (\<exists>c. mapper up r = [c] \<and> ident_byte c) \<or> 1 < length (mapper up r) \<and> up (mapper up r)"
proof (cases r)
  case (Cons c r')
  then show ?thesis by (cases r') (auto simp: mapper_def ident_byte_underscore)
qed (use assms in simp)

lemma explode_nonempty: "r \<in> set (explode s) \<Longrightarrow> r \<noteq> []"
proof (induction s rule: explode.induct)
  case (1 s)
  then show ?case using rune_len_pos[of s] by (subst (asm) (2) explode.simps) (auto split: if_splits)
qed

lemma identifier_convert: "ts_identifier up (convertToValidChars up u)"
proof -
  let ?rs = "filter (\<lambda>r. r \<noteq> []) (map (mapper up) (explode u))"
  let ?c = "concat (map (mapper up) (explode u))"
  have "concat xs = concat (filter (\<lambda>r. r \<noteq> []) xs)" for xs :: "string list" by (induction xs) auto
  then have c: "?c = concat ?rs" .
  have rs: "\<forall>r\<in>set ?rs. (\<exists>c. r = [c] \<and> ident_byte c) \<or> 1 < length r \<and> up r"
  proof
    fix r assume "r \<in> set ?rs"
    then obtain x where x: "x \<in> set (explode u)" "r = mapper up x" "r \<noteq> []" by auto
    from mapper_ident[OF explode_nonempty[OF x(1)], of up] x(2,3)
    show "(\<exists>c. r = [c] \<and> ident_byte c) \<or> 1 < length r \<and> up r" by simp
  qed
  consider (none) "?c = []" | (digit) "?c \<noteq> []" "digit_byte (hd ?c)" | (other) "?c \<noteq> []" "\<not> digit_byte (hd ?c)"
    by blast
  then show ?thesis
  proof cases
    case none
    have u: "convertToValidChars up u = ''unnamed''" using none by (simp add: convertToValidChars_def)
    have "list_all ident_byte ''unnamed''" by (simp add: ident_byte_def digit_byte_def byte_in_def)
    then have "\<forall>r\<in>set (map (\<lambda>c. [c]) ''unnamed''). \<exists>c. r = [c] \<and> ident_byte c" by (simp add: list_all_iff)
    moreover have "\<not> digit_byte (hd ''unnamed'')" by (simp add: digit_byte_def byte_in_def)
    ultimately show ?thesis unfolding ts_identifier_def u
      by (intro conjI exI[of _ "map (\<lambda>c. [c]) ''unnamed''"]) simp_all
  next
    case digit
    then have "convertToValidChars up u = concat (''_'' # ?rs)"
      using c by (simp add: convertToValidChars_def Let_def)
    moreover have "\<forall>r\<in>set (''_'' # ?rs). (\<exists>c. r = [c] \<and> ident_byte c) \<or> 1 < length r \<and> up r"
      using rs ident_byte_underscore by simp
    ultimately show ?thesis
      unfolding ts_identifier_def using ident_byte_underscore(2)
      by (intro conjI exI[of _ "''_'' # ?rs"]) simp_all
  next
    case other
    then have "convertToValidChars up u = concat ?rs" using c by (simp add: convertToValidChars_def Let_def)
    then show ?thesis unfolding ts_identifier_def using rs other c by (intro conjI exI[of _ ?rs]) simp_all
  qed
qed

text \<open>ASCII texts explode into their bytes, and an ASCII identifier is converted to itself.\<close>

lemma explode_ascii: "\<forall>c\<in>set s. (of_char c :: nat) < 128 \<Longrightarrow> explode s = map (\<lambda>c. [c]) s"
proof (induction s)
  case (Cons c s)
  then have "rune_len (c # s) = 1" by (auto simp: rune_len_def byte_in_def split: list.splits)
  then show ?case using Cons by (subst explode.simps) simp
qed simp

lemma ident_byte_ascii: "ident_byte c \<Longrightarrow> (of_char c :: nat) < 128"
  by (auto simp: ident_byte_def digit_byte_def byte_in_def)

lemma convert_identifier:
  assumes "s \<noteq> []" "\<not> digit_byte (hd s)" "list_all ident_byte s"
  shows "convertToValidChars up s = s"
proof -
  have "mapper up [c] = [c]" if "ident_byte c" for c
    using that by (auto simp: mapper_def ident_byte_def digit_byte_def byte_in_def)
  then have "concat (map (mapper up) (map (\<lambda>c. [c]) s)) = s"
    using assms(3) by (induction s) auto
  moreover have "explode s = map (\<lambda>c. [c]) s"
    using assms(3) ident_byte_ascii by (intro explode_ascii) (auto simp: list_all_iff)
  ultimately show ?thesis using assms by (simp add: convertToValidChars_def Let_def)
qed

section \<open>The map\<close>

record FunctionNameMap =
  userToHarmony :: "string \<rightharpoonup> string"
  harmonyToUser :: "string \<rightharpoonup> string"

definition NewFunctionNameMap :: FunctionNameMap where
  "NewFunctionNameMap = \<lparr>userToHarmony = Map.empty, harmonyToUser = Map.empty\<rparr>"

text \<open>The loop of \<open>deriveName\<close>; nothing bounds it in the code.\<close>

partial_function (option) deriveName_loop ::
  "(string \<rightharpoonup> string) \<Rightarrow> string \<Rightarrow> string \<Rightarrow> nat \<Rightarrow> string option" where
  "deriveName_loop names originalCandidate candidate count =
     (if names candidate = None then Some candidate
      else deriveName_loop names originalCandidate (originalCandidate @ ''_'' @ decimal count) (count + 1))"

declare deriveName_loop.simps [code]

definition deriveName :: "(string \<Rightarrow> bool) \<Rightarrow> FunctionNameMap \<Rightarrow> string \<Rightarrow> string option" where
  "deriveName up m userFunctionName =
     (let originalCandidate = convertToValidChars up userFunctionName
      in deriveName_loop (harmonyToUser m) originalCandidate originalCandidate 2)"

definition builtin_names :: "string list" where
  "builtin_names = [''browser.open'', ''browser.search'', ''browser.find'', ''python'']"

definition ConvertAndAdd ::
  "(string \<Rightarrow> bool) \<Rightarrow> FunctionNameMap \<Rightarrow> string \<Rightarrow> (string \<times> FunctionNameMap) option" where
  "ConvertAndAdd up m userFunctionName =
     (case deriveName up m userFunctionName of
        None \<Rightarrow> None
      | Some derived \<Rightarrow>
          (let harmonyFunctionName =
                 (if userFunctionName \<in> set builtin_names then userFunctionName else derived)
           in Some (harmonyFunctionName,
                m\<lparr>userToHarmony := (userToHarmony m)(userFunctionName \<mapsto> harmonyFunctionName),
                  harmonyToUser := (harmonyToUser m)(harmonyFunctionName \<mapsto> userFunctionName)\<rparr>)))"

definition OriginalFromConverted :: "FunctionNameMap \<Rightarrow> string \<Rightarrow> string" where
  "OriginalFromConverted m harmonyFunctionName =
     (case harmonyToUser m harmonyFunctionName of
        Some userFunctionName \<Rightarrow> userFunctionName
      | None \<Rightarrow> harmonyFunctionName)"

section \<open>A free name is found\<close>

text \<open>The candidates, in the order they are tried.\<close>

fun candidate_name :: "string \<Rightarrow> nat \<Rightarrow> string" where
  "candidate_name u 0 = u"
| "candidate_name u (Suc k) = u @ ''_'' @ decimal (k + 2)"

lemma candidate_name_inject: "candidate_name u j = candidate_name u k \<longleftrightarrow> j = k"
  by (cases j; cases k) auto

lemma free_candidate: "finite (dom names) \<Longrightarrow> \<exists>k. names (candidate_name u k) = None"
proof (rule ccontr)
  assume f: "finite (dom names)" and no: "\<nexists>k. names (candidate_name u k) = None"
  from no have "range (candidate_name u) \<subseteq> dom names" by auto
  then have "finite (range (candidate_name u))" using f finite_subset by blast
  moreover have "inj (candidate_name u)" by (simp add: inj_def candidate_name_inject)
  ultimately show False using finite_imageD infinite_UNIV_nat by blast
qed

lemma deriveName_loop_first:
  assumes "names (candidate_name u k) = None" "\<forall>j. i \<le> j \<and> j < k \<longrightarrow> names (candidate_name u j) \<noteq> None" "i \<le> k"
  shows "deriveName_loop names u (candidate_name u i) (i + 2) = Some (candidate_name u k)"
  using assms
proof (induction "k - i" arbitrary: i)
  case 0
  then show ?case by (subst deriveName_loop.simps) simp
next
  case (Suc d)
  then obtain y where "names (candidate_name u i) = Some y" by force
  moreover have "deriveName_loop names u (candidate_name u (Suc i)) (Suc i + 2) = Some (candidate_name u k)"
    using Suc by (intro Suc.hyps(1)) auto
  ultimately show ?case by (subst deriveName_loop.simps) (simp add: numeral_2_eq_2)
qed

lemma deriveName_first:
  assumes "finite (dom (harmonyToUser m))"
  shows "\<exists>k. deriveName up m u = Some (candidate_name (convertToValidChars up u) k)
    \<and> harmonyToUser m (candidate_name (convertToValidChars up u) k) = None
    \<and> (\<forall>j<k. harmonyToUser m (candidate_name (convertToValidChars up u) j) \<noteq> None)"
proof -
  let ?u = "convertToValidChars up u" and ?n = "harmonyToUser m"
  obtain k where k: "?n (candidate_name ?u k) = None" "\<forall>j<k. ?n (candidate_name ?u j) \<noteq> None"
    using exists_least_iff[of "\<lambda>k. ?n (candidate_name ?u k) = None"] free_candidate[OF assms] by blast
  then have "deriveName_loop ?n ?u (candidate_name ?u 0) (0 + 2) = Some (candidate_name ?u k)"
    by (intro deriveName_loop_first) auto
  then have "deriveName up m u = Some (candidate_name ?u k)" by (simp add: deriveName_def numeral_2_eq_2)
  then show ?thesis using k by blast
qed

section \<open>Converting a list of names\<close>

fun convert_names ::
  "(string \<Rightarrow> bool) \<Rightarrow> FunctionNameMap \<Rightarrow> string list \<Rightarrow> (string list \<times> FunctionNameMap) option" where
  "convert_names up m [] = Some ([], m)"
| "convert_names up m (u # us) =
     (case ConvertAndAdd up m u of
        None \<Rightarrow> None
      | Some (h, m1) \<Rightarrow>
          (case convert_names up m1 us of
             None \<Rightarrow> None
           | Some (hs, m2) \<Rightarrow> Some (h # hs, m2)))"

definition finite_names :: "FunctionNameMap \<Rightarrow> bool" where
  "finite_names m \<longleftrightarrow> finite (dom (harmonyToUser m))"

lemma finite_names_New [simp]: "finite_names NewFunctionNameMap"
  by (simp add: finite_names_def NewFunctionNameMap_def)

lemma ConvertAndAdd_returns:
  assumes "finite_names m"
  obtains h m' where "ConvertAndAdd up m u = Some (h, m')" "finite_names m'"
    "harmonyToUser m' = (harmonyToUser m)(h \<mapsto> u)" "userToHarmony m' = (userToHarmony m)(u \<mapsto> h)"
    "u \<in> set builtin_names \<and> h = u \<or> u \<notin> set builtin_names \<and> harmonyToUser m h = None
       \<and> (\<exists>k. h = candidate_name (convertToValidChars up u) k
            \<and> (\<forall>j<k. harmonyToUser m (candidate_name (convertToValidChars up u) j) \<noteq> None))"
proof -
  obtain k where "deriveName up m u = Some (candidate_name (convertToValidChars up u) k)"
    "harmonyToUser m (candidate_name (convertToValidChars up u) k) = None"
    "\<forall>j<k. harmonyToUser m (candidate_name (convertToValidChars up u) j) \<noteq> None"
    using deriveName_first assms unfolding finite_names_def by blast
  note k = this
  let ?h = "if u \<in> set builtin_names then u else candidate_name (convertToValidChars up u) k"
  let ?m = "m\<lparr>userToHarmony := (userToHarmony m)(u \<mapsto> ?h), harmonyToUser := (harmonyToUser m)(?h \<mapsto> u)\<rparr>"
  show thesis
  proof (rule that[of ?h ?m])
    show "ConvertAndAdd up m u = Some (?h, ?m)" using k(1) by (simp add: ConvertAndAdd_def Let_def)
    show "finite_names ?m" using assms by (simp add: finite_names_def)
    show "u \<in> set builtin_names \<and> ?h = u \<or> u \<notin> set builtin_names \<and> harmonyToUser m ?h = None
       \<and> (\<exists>k. ?h = candidate_name (convertToValidChars up u) k
            \<and> (\<forall>j<k. harmonyToUser m (candidate_name (convertToValidChars up u) j) \<noteq> None))"
    proof (cases "u \<in> set builtin_names")
      case False
      then show ?thesis using k(2,3) by (simp only: if_False simp_thms) blast
    qed simp
  qed simp_all
qed

lemma convert_names_returns:
  "finite_names m \<Longrightarrow> \<exists>hs m'. convert_names up m us = Some (hs, m') \<and> finite_names m' \<and> length hs = length us"
proof (induction us arbitrary: m)
  case (Cons u us)
  from Cons.prems obtain h m1 where "ConvertAndAdd up m u = Some (h, m1)" "finite_names m1"
    by (rule ConvertAndAdd_returns)
  then show ?case using Cons.IH[of m1] by auto
qed simp

section \<open>Derived names are identifiers\<close>

lemma digit_char: "d < 10 \<Longrightarrow> digit_byte (char_of (48 + d :: nat))"
  by (simp add: digit_byte_def byte_in_def of_char_digit)

lemma decimal_digits: "list_all digit_byte (decimal n)"
proof (induction n rule: decimal.induct)
  case (1 n)
  then show ?case by (cases "n < 10") (simp_all add: decimal.simps[of n] digit_char)
qed

lemma digit_ident: "digit_byte c \<Longrightarrow> ident_byte c"
  by (simp add: ident_byte_def)

lemma ts_identifier_append:
  assumes "ts_identifier up s" "list_all ident_byte t"
  shows "ts_identifier up (s @ t)"
proof -
  obtain rs where rs: "s = concat rs" "\<forall>r\<in>set rs. (\<exists>c. r = [c] \<and> ident_byte c) \<or> 1 < length r \<and> up r"
    using assms(1) by (auto simp: ts_identifier_def)
  have "concat (map (\<lambda>c. [c]) t) = t" by (induction t) auto
  then have "s @ t = concat (rs @ map (\<lambda>c. [c]) t)" using rs(1) by simp
  moreover have "\<forall>r\<in>set (rs @ map (\<lambda>c. [c]) t). (\<exists>c. r = [c] \<and> ident_byte c) \<or> 1 < length r \<and> up r"
    using rs(2) assms(2) by (auto simp: list_all_iff)
  ultimately show ?thesis using assms(1) unfolding ts_identifier_def by (metis append_is_Nil_conv hd_append2)
qed

lemma candidate_identifier: "ts_identifier up (candidate_name (convertToValidChars up u) k)"
proof (cases k)
  case (Suc j)
  have "list_all ident_byte (''_'' @ decimal (j + 2))"
    using decimal_digits[of "j + 2"] ident_byte_underscore by (auto simp: list_all_iff digit_ident)
  then show ?thesis using ts_identifier_append[OF identifier_convert] Suc by simp
qed (simp add: identifier_convert)

text \<open>No converted name is one of the built-in names with a dot, and only a name that converts to
  \<^verbatim>\<open>python\<close> at once is that one.\<close>

lemma long_rune_bytes: "1 < rune_len s \<Longrightarrow> c \<in> set (take (rune_len s) s) \<Longrightarrow> 128 \<le> (of_char c :: nat)"
proof -
  assume len: "1 < rune_len s" and c: "c \<in> set (take (rune_len s) s)"
  define P where "P = (\<lambda>c :: char. 128 \<le> (of_char c :: nat))"
  have P: "byte_in lo hi c \<Longrightarrow> 128 \<le> lo \<Longrightarrow> P c" for lo hi c by (simp add: P_def byte_in_def)
  have Ps: "byte_in 0xC2 0xDF c \<Longrightarrow> P c" "byte_in 0x80 0xBF c \<Longrightarrow> P c" "byte_in 0xE0 0xE0 c \<Longrightarrow> P c"
    "byte_in 0xA0 0xBF c \<Longrightarrow> P c" "byte_in 0xE1 0xEC c \<Longrightarrow> P c" "byte_in 0xEE 0xEF c \<Longrightarrow> P c"
    "byte_in 0xED 0xED c \<Longrightarrow> P c" "byte_in 0x80 0x9F c \<Longrightarrow> P c" "byte_in 0xF0 0xF0 c \<Longrightarrow> P c"
    "byte_in 0x90 0xBF c \<Longrightarrow> P c" "byte_in 0xF1 0xF3 c \<Longrightarrow> P c" "byte_in 0xF4 0xF4 c \<Longrightarrow> P c"
    "byte_in 0x80 0x8F c \<Longrightarrow> P c" for c
    by (simp_all add: P)
  obtain a b s' where s: "s = a # b # s'"
    using len by (auto simp: rune_len_def split: list.splits)
  let ?two = "byte_in 0xC2 0xDF a \<and> byte_in 0x80 0xBF b"
  have "list_all P (take (rune_len s) s)"
  proof (cases ?two)
    case True
    then show ?thesis unfolding s rune_len_def by (simp add: Ps)
  next
    case two: False
    then obtain x s'' where s': "s' = x # s''" using len s by (cases s') (auto simp: rune_len_def split: if_splits)
    let ?three = "((byte_in 0xE0 0xE0 a \<and> byte_in 0xA0 0xBF b)
      \<or> ((byte_in 0xE1 0xEC a \<or> byte_in 0xEE 0xEF a) \<and> byte_in 0x80 0xBF b)
      \<or> (byte_in 0xED 0xED a \<and> byte_in 0x80 0x9F b)) \<and> byte_in 0x80 0xBF x"
    show ?thesis
    proof (cases ?three)
      case True
      then have "rune_len s = 3" using two unfolding s s' rune_len_def by simp
      moreover have "P a" "P b" "P x" using True Ps by blast+
      ultimately show ?thesis by (simp add: s s' numeral_3_eq_3)
    next
      case three: False
      then obtain y s3 where s'': "s'' = y # s3"       proof (cases s'')
        case Nil
        then have "rune_len s = 1"
          using two three unfolding s s' Nil rune_len_def by (simp only: list.case if_False)
        then show ?thesis using len by simp
      qed (use that in blast)
      let ?four = "((byte_in 0xF0 0xF0 a \<and> byte_in 0x90 0xBF b) \<or> (byte_in 0xF1 0xF3 a \<and> byte_in 0x80 0xBF b)
        \<or> (byte_in 0xF4 0xF4 a \<and> byte_in 0x80 0x8F b)) \<and> byte_in 0x80 0xBF x \<and> byte_in 0x80 0xBF y"
      have rl: "rune_len s = (if ?four then 4 else 1)"
        using two three unfolding s s' s'' rune_len_def by (simp only: list.case if_False)
      then have f: "?four" using len by (auto split: if_splits)
      then have "P a" "P b" "P x" "P y" using Ps by blast+
      then show ?thesis using rl f by (simp add: s s' s'' numeral_eq_Suc)
    qed
  qed
  then show "128 \<le> (of_char c :: nat)" using c by (simp add: list_all_iff P_def)
qed

lemma explode_bytes: "r \<in> set (explode s) \<Longrightarrow> 1 < length r \<Longrightarrow> c \<in> set r \<Longrightarrow> 128 \<le> (of_char c :: nat)"
proof (induction s rule: explode.induct)
  case (1 s)
  have "s \<noteq> []" using "1.prems"(1) by auto
  then have "r = take (rune_len s) s \<or> r \<in> set (explode (drop (rune_len s) s))"
    using "1.prems"(1) by (subst (asm) explode.simps) auto
  then show ?case
  proof
    assume r: "r = take (rune_len s) s"
    then have "1 < rune_len s" using "1.prems"(2) by simp
    then show ?thesis using long_rune_bytes r "1.prems"(3) by blast
  next
    assume "r \<in> set (explode (drop (rune_len s) s))"
    then show ?thesis using "1.IH"[OF \<open>s \<noteq> []\<close>] "1.prems" by blast
  qed
qed

lemma convert_no_dot: "CHR ''.'' \<notin> set (convertToValidChars up u)"
proof -
  have "CHR ''.'' \<notin> set (mapper up r)" if "r \<in> set (explode u)" for r
  proof -
    have "CHR ''.'' \<notin> set r" if "1 < length r"
      using explode_bytes[OF \<open>r \<in> set (explode u)\<close> that, of "CHR ''.''"] by auto
    then show ?thesis
      by (auto simp: mapper_def ident_byte_def digit_byte_def byte_in_def split: list.splits)
  qed
  then have "CHR ''.'' \<notin> set (concat (map (mapper up) (explode u)))" by auto
  then show ?thesis by (simp add: convertToValidChars_def Let_def)
qed

lemma candidate_builtin:
  assumes "candidate_name (convertToValidChars up u) k \<in> set builtin_names"
  shows "convertToValidChars up u = ''python''" "candidate_name (convertToValidChars up u) k = ''python''"
proof -
  let ?h = "candidate_name (convertToValidChars up u) k"
  have dot: "\<not> digit_byte (CHR ''.'')" by (simp add: digit_byte_def byte_in_def)
  then have "CHR ''.'' \<notin> set ?h"
    using convert_no_dot[of up u] decimal_digits by (cases k) (auto simp: list_all_iff)
  then show h: "?h = ''python''" using assms by (auto simp: builtin_names_def)
  show "convertToValidChars up u = ''python''"
  proof (cases k)
    case (Suc j)
    have "decimal (j + 2) \<noteq> []" by (subst decimal.simps) simp
    then have "last ?h \<in> set (decimal (j + 2))" using Suc by simp
    moreover have "\<not> digit_byte (last ''python'')" by (simp add: digit_byte_def byte_in_def)
    ultimately show ?thesis using h decimal_digits[of "j + 2"] by (auto simp: list_all_iff)
  qed (use h in simp)
qed

section \<open>Reading names back\<close>

lemma convert_names_keeps:
  assumes "finite_names m" "convert_names up m us = Some (hs, m')" "harmonyToUser m x = Some v"
    "x \<in> set builtin_names \<Longrightarrow> x \<in> set us \<Longrightarrow> v = x"
  shows "harmonyToUser m' x = Some v"
  using assms
proof (induction us arbitrary: m hs)
  case (Cons u us)
  obtain h m1 where 1: "ConvertAndAdd up m u = Some (h, m1)" "finite_names m1"
    "harmonyToUser m1 = (harmonyToUser m)(h \<mapsto> u)"
    "u \<in> set builtin_names \<and> h = u \<or> u \<notin> set builtin_names \<and> harmonyToUser m h = None"
    using ConvertAndAdd_returns[OF Cons.prems(1), of up u] by metis
  obtain hs' where "convert_names up m1 us = Some (hs', m')"
    using Cons.prems(2) 1(1) by (auto split: option.splits)
  moreover have "harmonyToUser m1 x = Some v"
    using 1(3,4) Cons.prems(3,4) by auto
  ultimately show ?case using Cons.IH[OF 1(2)] Cons.prems(4) by simp
qed simp

lemma convert_names_back_from:
  assumes "finite_names m" "convert_names up m us = Some (hs, m')"
    "''python'' \<in> set us \<Longrightarrow> \<forall>u\<in>set us. convertToValidChars up u = ''python'' \<longrightarrow> u = ''python''"
  shows "map (harmonyToUser m') hs = map Some us"
  using assms
proof (induction us arbitrary: m hs)
  case (Cons u us)
  obtain h m1 where 1: "ConvertAndAdd up m u = Some (h, m1)" "finite_names m1"
    "harmonyToUser m1 = (harmonyToUser m)(h \<mapsto> u)"
    "u \<in> set builtin_names \<and> h = u \<or> (\<exists>k. h = candidate_name (convertToValidChars up u) k)"
    using ConvertAndAdd_returns[OF Cons.prems(1), of up u] by metis
  obtain hs' where 2: "convert_names up m1 us = Some (hs', m')" "hs = h # hs'"
    using Cons.prems(2) 1(1) by (auto split: option.splits)
  have "u = h" if "h \<in> set builtin_names" "h \<in> set us"
    using 1(4) candidate_builtin[of up u] that Cons.prems(3) by fastforce
  then have "harmonyToUser m' h = Some u"
    by (intro convert_names_keeps[OF 1(2) 2(1)]) (simp_all add: 1(3))
  moreover have "map (harmonyToUser m') hs' = map Some us"
    using Cons.IH[OF 1(2) 2(1)] Cons.prems(3) by simp
  ultimately show ?case using 2(2) by simp
qed simp

text \<open>
  The one way a name is lost: a built-in name is not renamed even when an earlier tool already has
  it, and takes its entry over.
\<close>

lemma builtin_takes_over:
  "map_option (\<lambda>(hs, m). (hs, map (OriginalFromConverted m) hs))
     (convert_names (\<lambda>_. False) NewFunctionNameMap [''py+thon'', ''python'']) =
   Some ([''python'', ''python''], [''python'', ''python''])"
  by code_simp

section \<open>Properties\<close>

text \<open>
  C39. Registering a tool always comes to an end, however many names are taken: the loop over the
  suffixes finds a name that no registered tool has - the first free one of \<^verbatim>\<open>f\<close>, \<^verbatim>\<open>f_2\<close>, \<^verbatim>\<open>f_3\<close>
  and so on - and that name is a TypeScript identifier; only the built-in names are kept as they are.
\<close>

theorem ConvertAndAdd_finds_name:
  assumes "finite_names m"
  shows "\<exists>h m'. ConvertAndAdd up m u = Some (h, m') \<and> OriginalFromConverted m' h = u \<and> finite_names m' \<and>
    (if u \<in> set builtin_names then h = u
     else harmonyToUser m h = None \<and> ts_identifier up h \<and>
       (\<exists>k. h = candidate_name (convertToValidChars up u) k \<and>
          (\<forall>j<k. harmonyToUser m (candidate_name (convertToValidChars up u) j) \<noteq> None)))"
proof -
  obtain h m' where h: "ConvertAndAdd up m u = Some (h, m')" "finite_names m'"
    "harmonyToUser m' = (harmonyToUser m)(h \<mapsto> u)"
    "u \<in> set builtin_names \<and> h = u \<or> u \<notin> set builtin_names \<and> harmonyToUser m h = None
       \<and> (\<exists>k. h = candidate_name (convertToValidChars up u) k
            \<and> (\<forall>j<k. harmonyToUser m (candidate_name (convertToValidChars up u) j) \<noteq> None))"
    by (rule ConvertAndAdd_returns[OF assms])
  have "OriginalFromConverted m' h = u" using h(3) by (simp add: OriginalFromConverted_def)
  moreover have "u \<notin> set builtin_names \<Longrightarrow> ts_identifier up h" using h(4) candidate_identifier by blast
  ultimately show ?thesis using h(1,2,4) by auto
qed

theorem ConvertAndAdd_finds_name_witness:
  "\<exists>h m'. ConvertAndAdd (\<lambda>_. False) NewFunctionNameMap ''get weather'' = Some (h, m') \<and>
     OriginalFromConverted m' h = ''get weather''"
  using ConvertAndAdd_finds_name[of NewFunctionNameMap "\<lambda>_. False" "''get weather''"] by auto



end
