(* ===== verification/Harmony.thy ===== *)
theory Harmony
  imports HarmonyNames ParserCommon
begin

text \<open>
  \<^verbatim>\<open>harmony/harmonyparser.go\<close>: the parser of the harmony format (messages with a header naming a
  role, a channel and a recipient), the handler that turns its events into content, thinking and a
  tool call, and the accumulator of the text of the call. The loop of \<open>AddContent\<close> is the loop of
  \<open>Streaming\<close>; the handler is run over whole streams by \<open>stream\<close>, as the other output parsers are.

  \<open>None\<close> stands for a call that does not return: a loop that does not end (there is none, as
  is proved) or a method called through a nil pointer. \<open>unmarshal\<close> is \<^verbatim>\<open>json.Unmarshal\<close> into the
  arguments of a call, \<open>up\<close> the tables of \<^verbatim>\<open>unicode\<close> (see \<open>HarmonyNames\<close>).
\<close>

section \<open>The parser\<close>

datatype harmonyParserState =
  LookingForMessageStart | ParsingHeader | ParsingContent

definition harmonyParserState_String :: "harmonyParserState \<Rightarrow> string" where
  "harmonyParserState_String s =
     (case s of
        LookingForMessageStart \<Rightarrow> ''LookingForMessageStart''
      | ParsingHeader \<Rightarrow> ''ParsingHeader''
      | ParsingContent \<Rightarrow> ''ParsingContent'')"

record HarmonyParser =
  hp_state :: harmonyParserState
  hp_MessageStartTag :: string
  hp_MessageEndTag :: string
  hp_HeaderEndTag :: string
  hp_acc :: string
  hp_lifetimeAcc :: string

record HarmonyHeader =
  hh_Role :: string
  hh_Channel :: string
  hh_Recipient :: string

datatype HarmonyEvent =
  HarmonyEventMessageStart
| HarmonyEventHeaderComplete HarmonyHeader
| HarmonyEventContentEmitted string
| HarmonyEventMessageEnd

definition AddImplicitStart :: "HarmonyParser \<Rightarrow> HarmonyParser" where
  "AddImplicitStart s = s\<lparr>hp_acc := hp_acc s @ ''<|start|>assistant''\<rparr>"

text \<open>The last message of a request, with the thinking that came with it.\<close>

record PrefillMessage = Message +
  msg_Thinking :: string

definition AddImplicitStartOrPrefill :: "PrefillMessage option \<Rightarrow> HarmonyParser \<Rightarrow> HarmonyParser" where
  "AddImplicitStartOrPrefill lastMessage s =
     (case lastMessage of
        None \<Rightarrow> AddImplicitStart s
      | Some m \<Rightarrow>
          if msg_Role m = ''assistant'' \<and> msg_Content m \<noteq> [] then
            s\<lparr>hp_acc := hp_acc s @ ''<|start|>assistant<|channel|>final<|message|>''\<rparr>
          else if msg_Role m = ''assistant'' \<and> msg_Thinking m \<noteq> [] then
            s\<lparr>hp_acc := hp_acc s @ ''<|start|>assistant<|channel|>analysis<|message|>''\<rparr>
          else AddImplicitStart s)"

definition constrainTag :: string where "constrainTag = ''<|constrain|>''"
definition channelTag :: string where "channelTag = ''<|channel|>''"

text \<open>The three steps of \<open>parseHeader\<close>: a blank before the constraint, the channel, the tokens.\<close>

definition space_constrain :: "string \<Rightarrow> string" where
  "space_constrain raw =
     (case go_cut raw constrainTag of
        None \<Rightarrow> raw
      | Some (before, after) \<Rightarrow> trim_space (before @ '' '' @ constrainTag @ after))"

definition cut_channel :: "string \<Rightarrow> string \<times> string" where
  "cut_channel raw =
     (case go_cut raw channelTag of
        None \<Rightarrow> ([], raw)
      | Some (before, after) \<Rightarrow>
          (let idx = (case index_space after of None \<Rightarrow> length after | Some i \<Rightarrow> i)
           in (take idx after, trim_space (before @ drop idx after))))"

definition parseHeader :: "string \<Rightarrow> HarmonyHeader" where
  "parseHeader raw =
     (case cut_channel (space_constrain raw) of
        (channel, raw') \<Rightarrow>
          (case go_fields raw' of
             [] \<Rightarrow> \<lparr>hh_Role = [], hh_Channel = channel, hh_Recipient = []\<rparr>
           | role # tokens \<Rightarrow>
               (let header = (if prefix ''to='' role
                      then \<lparr>hh_Role = ''tool'', hh_Channel = channel, hh_Recipient = drop 3 role\<rparr>
                      else \<lparr>hh_Role = role, hh_Channel = channel, hh_Recipient = []\<rparr>)
                in case tokens of
                     [] \<Rightarrow> header
                   | token # _ \<Rightarrow>
                       if hh_Recipient header = [] \<and> prefix ''to='' token
                       then header\<lparr>hh_Recipient := drop 3 token\<rparr> else header)))"

definition harmony_eat :: "HarmonyParser \<Rightarrow> HarmonyEvent list \<times> bool \<times> HarmonyParser" where
  "harmony_eat s =
     (case hp_state s of
        LookingForMessageStart \<Rightarrow>
          (case go_cut (hp_acc s) (hp_MessageStartTag s) of
             Some (before, after) \<Rightarrow>
               ([HarmonyEventMessageStart], True, s\<lparr>hp_acc := after, hp_state := ParsingHeader\<rparr>)
           | None \<Rightarrow> ([], False, s))
      | ParsingHeader \<Rightarrow>
          (case go_cut (hp_acc s) (hp_HeaderEndTag s) of
             Some (header, after) \<Rightarrow>
               ([HarmonyEventHeaderComplete (parseHeader header)], True,
                s\<lparr>hp_acc := after, hp_state := ParsingContent\<rparr>)
           | None \<Rightarrow> ([], False, s))
      | ParsingContent \<Rightarrow>
          (case go_cut (hp_acc s) (hp_MessageEndTag s) of
             Some (content, after) \<Rightarrow>
               ((if content \<noteq> [] then [HarmonyEventContentEmitted content] else []) @ [HarmonyEventMessageEnd],
                True, s\<lparr>hp_acc := after, hp_state := LookingForMessageStart\<rparr>)
           | None \<Rightarrow>
               (let overlapLen = overlap (hp_acc s) (hp_MessageEndTag s) in
                if overlapLen > 0 then
                  (let content = take (length (hp_acc s) - overlapLen) (hp_acc s);
                       remaining = drop (length (hp_acc s) - overlapLen) (hp_acc s);
                       s' = s\<lparr>hp_acc := remaining\<rparr>
                   in if content = [] then ([], False, s')
                      else ([HarmonyEventContentEmitted content], False, s'))
                else
                  (let content = hp_acc s in
                   if content = [] then ([], False, s)
                   else ([HarmonyEventContentEmitted content], False, s\<lparr>hp_acc := []\<rparr>)))))"

definition harmony_feed :: "string \<Rightarrow> HarmonyParser \<Rightarrow> HarmonyParser" where
  "harmony_feed content s = s\<lparr>hp_lifetimeAcc := hp_lifetimeAcc s @ content, hp_acc := hp_acc s @ content\<rparr>"

definition harmony_parse :: "string \<Rightarrow> HarmonyParser \<Rightarrow> (HarmonyEvent list \<times> HarmonyParser) option" where
  "harmony_parse content s = drain harmony_eat (harmony_feed content s) []"

section \<open>The accumulator of a tool call\<close>

datatype harmonyToolCallState = harmonyToolCallState_Normal | harmonyToolCallState_ToolCalling

record HarmonyToolCallAccumulator =
  ta_state :: harmonyToolCallState
  ta_acc :: string
  ta_currentToolName :: "string option"

definition SetToolName :: "string \<Rightarrow> HarmonyToolCallAccumulator \<Rightarrow> HarmonyToolCallAccumulator" where
  "SetToolName toolName a = a\<lparr>ta_currentToolName := Some toolName\<rparr>"

definition ta_Add :: "string \<Rightarrow> HarmonyToolCallAccumulator \<Rightarrow> HarmonyToolCallAccumulator" where
  "ta_Add content a = a\<lparr>ta_acc := ta_acc a @ content\<rparr>"

definition ta_Drain ::
  "HarmonyToolCallAccumulator \<Rightarrow> (string option \<times> string) \<times> HarmonyToolCallAccumulator" where
  "ta_Drain a = ((ta_currentToolName a, ta_acc a), a\<lparr>ta_state := harmonyToolCallState_Normal, ta_acc := []\<rparr>)"

definition ta_Content :: "HarmonyToolCallAccumulator \<Rightarrow> string" where "ta_Content a = ta_acc a"

definition CreateToolParser :: HarmonyToolCallAccumulator where
  "CreateToolParser = \<lparr>ta_state = harmonyToolCallState_Normal, ta_acc = [], ta_currentToolName = None\<rparr>"

section \<open>The message handler\<close>

datatype harmonyMessageState = Normal | Thinking | ToolCalling

record HarmonyMessageHandler =
  hm_state :: harmonyMessageState
  hm_HarmonyParser :: "HarmonyParser option"
  hm_FunctionNameMap :: FunctionNameMap
  hm_toolAccumulator :: "HarmonyToolCallAccumulator option"
  hm_convertedTools :: "string set"

definition NewHarmonyParser :: HarmonyParser where
  "NewHarmonyParser =
     \<lparr>hp_state = LookingForMessageStart, hp_MessageStartTag = ''<|start|>'', hp_MessageEndTag = ''<|end|>'',
      hp_HeaderEndTag = ''<|message|>'', hp_acc = [], hp_lifetimeAcc = []\<rparr>"

definition NewHarmonyMessageHandler :: HarmonyMessageHandler where
  "NewHarmonyMessageHandler =
     \<lparr>hm_state = Normal, hm_HarmonyParser = Some NewHarmonyParser, hm_FunctionNameMap = NewFunctionNameMap,
      hm_toolAccumulator = None, hm_convertedTools = {}\<rparr>"

text \<open>
  One event, on the state of the handler, the accumulator (which is shared: \<open>SetToolName\<close> writes
  through the pointer) and the three texts built so far.
\<close>

type_synonym handling =
  "harmonyMessageState \<times> HarmonyToolCallAccumulator option \<times> string \<times> string \<times> string"

definition handle_recipient :: "string \<Rightarrow> handling \<Rightarrow> handling option" where
  "handle_recipient recipient w =
     (case w of
        (st, Some a, texts) \<Rightarrow> Some (ToolCalling, Some (SetToolName recipient a), texts)
      | (st, None, texts) \<Rightarrow> None)"

fun handle_event :: "HarmonyEvent \<Rightarrow> handling \<Rightarrow> handling option" where
  "handle_event (HarmonyEventHeaderComplete header) (st, a, texts) =
     (if hh_Channel header = ''analysis'' then
        (if hh_Recipient header \<noteq> [] then handle_recipient (hh_Recipient header) (st, a, texts)
         else Some (Thinking, a, texts))
      else if hh_Channel header = ''commentary'' then
        (if hh_Recipient header \<noteq> [] then handle_recipient (hh_Recipient header) (st, a, texts)
         else Some (Normal, a, texts))
      else if hh_Channel header = ''final'' then Some (Normal, a, texts)
      else Some (st, a, texts))"
| "handle_event (HarmonyEventContentEmitted content) (st, a, contentSb, thinkingSb, toolContentSb) =
     (case st of
        Normal \<Rightarrow> Some (st, a, contentSb @ content, thinkingSb, toolContentSb)
      | Thinking \<Rightarrow> Some (st, a, contentSb, thinkingSb @ content, toolContentSb)
      | ToolCalling \<Rightarrow> Some (st, a, contentSb, thinkingSb, toolContentSb @ content))"
| "handle_event HarmonyEventMessageEnd (st, a, texts) = Some (Normal, a, texts)"
| "handle_event HarmonyEventMessageStart w = Some w"

fun handle_events :: "HarmonyEvent list \<Rightarrow> handling \<Rightarrow> handling option" where
  "handle_events [] w = Some w"
| "handle_events (e # es) w =
     (case handle_event e w of None \<Rightarrow> None | Some w' \<Rightarrow> handle_events es w')"

definition hm_AddContent ::
  "string \<Rightarrow> HarmonyToolCallAccumulator option \<Rightarrow> HarmonyMessageHandler
    \<Rightarrow> ((string \<times> string \<times> string) \<times> HarmonyToolCallAccumulator option \<times> HarmonyMessageHandler) option" where
  "hm_AddContent content toolParser h =
     (case hm_HarmonyParser h of
        None \<Rightarrow> None
      | Some s \<Rightarrow>
          (case harmony_parse content s of
             None \<Rightarrow> None
           | Some (events, s') \<Rightarrow>
               (case handle_events events (hm_state h, toolParser, [], [], []) of
                  None \<Rightarrow> None
                | Some (st, toolParser', texts) \<Rightarrow>
                    Some (texts, toolParser', h\<lparr>hm_HarmonyParser := Some s', hm_state := st\<rparr>))))"

text \<open>\<open>Init\<close>; the names of the tools are converted one after the other.\<close>

fun init_tools ::
  "(string \<Rightarrow> bool) \<Rightarrow> 'p Tool list \<Rightarrow> FunctionNameMap \<Rightarrow> string set
    \<Rightarrow> ('p Tool list \<times> FunctionNameMap \<times> string set) option" where
  "init_tools up [] m converted = Some ([], m, converted)"
| "init_tools up (tool # tools) m converted =
     (if tool_Name tool \<noteq> [] then
        (case ConvertAndAdd up m (tool_Name tool) of
           None \<Rightarrow> None
         | Some (name, m') \<Rightarrow>
             (case init_tools up tools m' (insert (tool_Name tool) converted) of
                None \<Rightarrow> None
              | Some (tools', r) \<Rightarrow> Some (tool\<lparr>tool_Name := name\<rparr> # tools', r)))
      else
        (case init_tools up tools m converted of
           None \<Rightarrow> None
         | Some (tools', r) \<Rightarrow> Some (tool # tools', r)))"

definition hm_Init ::
  "(string \<Rightarrow> bool) \<Rightarrow> 'p Tool list \<Rightarrow> PrefillMessage option \<Rightarrow> HarmonyMessageHandler
    \<Rightarrow> ('p Tool list \<times> HarmonyMessageHandler) option" where
  "hm_Init up tools lastMessage h =
     (let s = (case hm_HarmonyParser h of None \<Rightarrow> NewHarmonyParser | Some s \<Rightarrow> s);
          s' = (case lastMessage of
                  Some m \<Rightarrow> AddImplicitStartOrPrefill (Some m) s
                | None \<Rightarrow> AddImplicitStart s);
          h' = h\<lparr>hm_HarmonyParser := Some s', hm_toolAccumulator := Some CreateToolParser\<rparr>
      in if tools = [] then Some (tools, h')
         else (case init_tools up tools (hm_FunctionNameMap h') (hm_convertedTools h') of
                 None \<Rightarrow> None
               | Some (processedTools, m, converted) \<Rightarrow>
                   Some (processedTools, h'\<lparr>hm_FunctionNameMap := m, hm_convertedTools := converted\<rparr>)))"

text \<open>\<open>Add\<close>; the error is the text that could not be parsed.\<close>

definition trim_prefix :: "string \<Rightarrow> string \<Rightarrow> string" where
  "trim_prefix p s = (if prefix p s then drop (length p) s else s)"

definition hm_Add ::
  "(string \<Rightarrow> 'a option) \<Rightarrow> HarmonyMessageHandler \<Rightarrow> string \<Rightarrow> bool \<Rightarrow> ('a, string) added option \<times> HarmonyMessageHandler" where
  "hm_Add unmarshal h s final =
     (case hm_AddContent s (hm_toolAccumulator h) h of
        None \<Rightarrow> (None, h)
      | Some ((content, thinking, toolContent), None, h1) \<Rightarrow>
          if toolContent \<noteq> [] \<or> final then (None, h1)
          else (Some (content, thinking, [], None), h1)
      | Some ((content, thinking, toolContent), Some a, h1) \<Rightarrow>
          (let a1 = (if toolContent \<noteq> [] then ta_Add toolContent a else a) in
           if final then
             (case ta_Drain a1 of
                ((toolName, raw), a2) \<Rightarrow>
                  (let h2 = h1\<lparr>hm_toolAccumulator := Some a2\<rparr> in
                   case toolName of
                     None \<Rightarrow> (Some (content, thinking, [], None), h2)
                   | Some toolName \<Rightarrow>
                       (let name = OriginalFromConverted (hm_FunctionNameMap h2) (trim_prefix ''functions.'' toolName) in
                        case unmarshal raw of
                          None \<Rightarrow> (Some ([], [], [], Some raw), h2)
                        | Some args \<Rightarrow>
                            (Some (content, thinking,
                               [\<lparr>tc_Index = 0, tc_Name = name, tc_Arguments = args\<rparr>], None), h2))))
           else (Some (content, thinking, [], None), h1\<lparr>hm_toolAccumulator := Some a1\<rparr>)))"

definition hm_HasToolSupport :: bool where "hm_HasToolSupport = True"
definition hm_HasThinkingSupport :: bool where "hm_HasThinkingSupport = True"

definition hm_PreservedTokens :: "string list" where
  "hm_PreservedTokens = [''<|start|>'', ''<|end|>'', ''<|message|>'', ''<|channel|>'', ''<|constrain|>'']"

section \<open>The loop returns, and chunk boundaries\<close>

text \<open>What the events show: starts, headers, single bytes of content, ends.\<close>

datatype hatom = HStart | HHeader HarmonyHeader | HChar char | HEnd

fun harmony_atoms :: "HarmonyEvent \<Rightarrow> hatom list" where
  "harmony_atoms HarmonyEventMessageStart = [HStart]"
| "harmony_atoms (HarmonyEventHeaderComplete header) = [HHeader header]"
| "harmony_atoms (HarmonyEventContentEmitted content) = map HChar content"
| "harmony_atoms HarmonyEventMessageEnd = [HEnd]"

text \<open>The tags are set once and for all; \<open>with_tags\<close> are the states with the handler's tags.\<close>

definition startTag :: string where "startTag = ''<|start|>''"
definition endTag :: string where "endTag = ''<|end|>''"
definition headerTag :: string where "headerTag = ''<|message|>''"

lemma harmony_tags [simp]: "startTag \<noteq> []" "endTag \<noteq> []" "headerTag \<noteq> []"
  by (simp_all add: startTag_def endTag_def headerTag_def)

definition set_tags :: "HarmonyParser \<Rightarrow> HarmonyParser" where
  "set_tags s = s\<lparr>hp_MessageStartTag := startTag, hp_MessageEndTag := endTag, hp_HeaderEndTag := headerTag\<rparr>"

definition tagged :: "HarmonyParser \<Rightarrow> bool" where
  "tagged s \<longleftrightarrow> hp_MessageStartTag s = startTag \<and> hp_MessageEndTag s = endTag \<and> hp_HeaderEndTag s = headerTag"

text \<open>One step of a parser with these tags; without an end tag, the text before the longest partial
  tag is emitted, all of it if there is none.\<close>

definition tagged_eat :: "HarmonyParser \<Rightarrow> HarmonyEvent list \<times> bool \<times> HarmonyParser" where
  "tagged_eat s =
     (case hp_state s of
        LookingForMessageStart \<Rightarrow>
          (case go_cut (hp_acc s) startTag of
             Some (before, after) \<Rightarrow>
               ([HarmonyEventMessageStart], True, s\<lparr>hp_acc := after, hp_state := ParsingHeader\<rparr>)
           | None \<Rightarrow> ([], False, s))
      | ParsingHeader \<Rightarrow>
          (case go_cut (hp_acc s) headerTag of
             Some (header, after) \<Rightarrow>
               ([HarmonyEventHeaderComplete (parseHeader header)], True,
                s\<lparr>hp_acc := after, hp_state := ParsingContent\<rparr>)
           | None \<Rightarrow> ([], False, s))
      | ParsingContent \<Rightarrow>
          (case go_cut (hp_acc s) endTag of
             Some (content, after) \<Rightarrow>
               ((if content \<noteq> [] then [HarmonyEventContentEmitted content] else []) @ [HarmonyEventMessageEnd],
                True, s\<lparr>hp_acc := after, hp_state := LookingForMessageStart\<rparr>)
           | None \<Rightarrow>
               ((if unheld [endTag] (hp_acc s) \<noteq> []
                 then [HarmonyEventContentEmitted (unheld [endTag] (hp_acc s))] else []),
                False, s\<lparr>hp_acc := held [endTag] (hp_acc s)\<rparr>)))"

lemma harmony_eat_tagged: "tagged s \<Longrightarrow> harmony_eat s = tagged_eat s"
  by (cases s) (auto simp: harmony_eat_def tagged_eat_def tagged_def Let_def unheld_def held_def
      split: harmonyParserState.split option.split)

lemma tagged_eat_tagged: "tagged s \<Longrightarrow> tagged_eat s = (es, k, s') \<Longrightarrow> tagged s'"
  by (auto simp: tagged_eat_def tagged_def split: harmonyParserState.splits option.splits if_splits)

interpretation harmony_loop: event_loop tagged_eat "\<lambda>s. length (hp_acc s)"
  by unfold_locales
    (auto simp: tagged_eat_def dest: go_cut_shorter split: harmonyParserState.splits option.splits if_splits)

lemma harmony_drain: "tagged s \<Longrightarrow> drain harmony_eat s [] = drain tagged_eat s []"
  by (rule harmony_loop.drain_cong[of tagged]) (auto simp: harmony_eat_tagged dest: tagged_eat_tagged)

lemma feed_simps [simp]:
  "hp_state (harmony_feed c s) = hp_state s" "hp_acc (harmony_feed c s) = hp_acc s @ c"
  by (simp_all add: harmony_feed_def)

lemma emitted_atoms [simp]:
  "atoms harmony_atoms (if s \<noteq> [] then [HarmonyEventContentEmitted s] else []) = map HChar s"
  by simp

lemma harmony_commute:
  assumes e: "tagged_eat p = (es, k, p')"
  shows "observe tagged_eat harmony_atoms (harmony_feed c p) =
    prepend (atoms harmony_atoms es) (observe tagged_eat harmony_atoms (harmony_feed c p'))"
proof (cases "hp_state p")
  case LookingForMessageStart
  show ?thesis
  proof (cases "go_cut (hp_acc p) startTag")
    case None
    then show ?thesis using e LookingForMessageStart by (simp add: tagged_eat_def)
  next
    case (Some ab)
    then obtain a b where ab: "go_cut (hp_acc p) startTag = Some (a, b)" by (cases ab) auto
    then have "tagged_eat (harmony_feed c p) = (es, True, harmony_feed c p')"
      using e LookingForMessageStart go_cut_append[OF ab, of c] by (auto simp: tagged_eat_def harmony_feed_def)
    then show ?thesis by (rule harmony_loop.observe_step)
  qed
next
  case ParsingHeader
  show ?thesis
  proof (cases "go_cut (hp_acc p) headerTag")
    case None
    then show ?thesis using e ParsingHeader by (simp add: tagged_eat_def)
  next
    case (Some ab)
    then obtain a b where ab: "go_cut (hp_acc p) headerTag = Some (a, b)" by (cases ab) auto
    then have "tagged_eat (harmony_feed c p) = (es, True, harmony_feed c p')"
      using e ParsingHeader go_cut_append[OF ab, of c] by (auto simp: tagged_eat_def harmony_feed_def)
    then show ?thesis by (rule harmony_loop.observe_step)
  qed
next
  case st: ParsingContent
  show ?thesis
  proof (cases "go_cut (hp_acc p) endTag")
    case (Some ab)
    then obtain a b where ab: "go_cut (hp_acc p) endTag = Some (a, b)" by (cases ab) auto
    then have "tagged_eat (harmony_feed c p) = (es, True, harmony_feed c p')"
      using e st go_cut_append[OF ab, of c] by (auto simp: tagged_eat_def harmony_feed_def)
    then show ?thesis by (rule harmony_loop.observe_step)
  next
    case None
    let ?u = "unheld [endTag] (hp_acc p)" and ?h = "held [endTag] (hp_acc p)"
    have p': "atoms harmony_atoms es = map HChar ?u" "p' = p\<lparr>hp_acc := ?h\<rparr>"
      using e st None by (auto simp: tagged_eat_def)
    have no: "go_cut (hp_acc p) t = None" if "t \<in> set [endTag]" for t using None that by simp
    have hold: "go_cut (hp_acc p @ c) endTag = map_option (\<lambda>(a, b). (?u @ a, b)) (go_cut (?h @ c) endTag)"
      "unheld [endTag] (hp_acc p @ c) = ?u @ unheld [endTag] (?h @ c)"
      "held [endTag] (hp_acc p @ c) = held [endTag] (?h @ c)"
      using hold_append[where T = "[endTag]" and s = "hp_acc p", OF no] by (auto simp del: unheld_held)
    obtain es1 k1 q1 where 1: "tagged_eat (harmony_feed c p) = (es1, k1, q1)"
      by (cases "tagged_eat (harmony_feed c p)") auto
    obtain es2 k2 q2 where 2: "tagged_eat (harmony_feed c p') = (es2, k2, q2)"
      by (cases "tagged_eat (harmony_feed c p')") auto
    have "k1 = k2 \<and> q1 = q2 \<and> atoms harmony_atoms es1 = map HChar ?u @ atoms harmony_atoms es2"
      using 1 2 st hold p'(2)
      by (cases "go_cut (?h @ c) endTag") (auto simp: tagged_eat_def harmony_feed_def)
    then show ?thesis
      using harmony_loop.observe_same_step[where p = "harmony_feed c p" and es = es1 and k = k2 and r = q2
          and q = "harmony_feed c p'" and es' = es2 and atom = harmony_atoms and as = "map HChar ?u"] 1 2 p'(1)
      by simp
  qed
qed

interpretation harmony_chunked: chunked tagged_eat "\<lambda>s. length (hp_acc s)" harmony_feed harmony_atoms tagged "\<lambda>_. True"
proof
  fix p p' :: HarmonyParser and c d :: string and es k
  show "harmony_feed d (harmony_feed c p) = harmony_feed (c @ d) p" by (simp add: harmony_feed_def)
  show "tagged p \<Longrightarrow> tagged (harmony_feed c p)" by (simp add: tagged_def harmony_feed_def)
  show "tagged p \<Longrightarrow> tagged_eat p = (es, k, p') \<Longrightarrow> tagged p'" by (rule tagged_eat_tagged)
  show "tagged_eat p = (es, k, p') \<Longrightarrow> observe tagged_eat harmony_atoms (harmony_feed c p) =
      prepend (atoms harmony_atoms es) (observe tagged_eat harmony_atoms (harmony_feed c p'))"
    by (rule harmony_commute)
qed simp

section \<open>The handler over a stream\<close>

text \<open>
  What the handler makes of events when it has an accumulator: the texts, the state and the name of
  the tool are a function of the events alone.
\<close>

type_synonym texts3 = "string \<times> string \<times> string"

fun hstep :: "HarmonyEvent \<Rightarrow> harmonyMessageState \<times> string option \<Rightarrow> texts3 \<times> harmonyMessageState \<times> string option" where
  "hstep HarmonyEventMessageStart (st, n) = (([], [], []), st, n)"
| "hstep (HarmonyEventHeaderComplete header) (st, n) =
     (([], [], []),
      if hh_Channel header = ''analysis'' \<or> hh_Channel header = ''commentary'' then
        if hh_Recipient header \<noteq> [] then (ToolCalling, Some (hh_Recipient header))
        else if hh_Channel header = ''analysis'' then (Thinking, n) else (Normal, n)
      else if hh_Channel header = ''final'' then (Normal, n) else (st, n))"
| "hstep (HarmonyEventContentEmitted s) (st, n) =
     ((case st of Normal \<Rightarrow> (s, [], []) | Thinking \<Rightarrow> ([], s, []) | ToolCalling \<Rightarrow> ([], [], s)), st, n)"
| "hstep HarmonyEventMessageEnd (st, n) = (([], [], []), Normal, n)"

fun hscan :: "HarmonyEvent list \<Rightarrow> harmonyMessageState \<times> string option \<Rightarrow> texts3 \<times> harmonyMessageState \<times> string option" where
  "hscan [] w = (([], [], []), w)"
| "hscan (e # es) w =
     (case hstep e w of
        ((c, t, l), w1) \<Rightarrow> (case hscan es w1 of ((c', t', l'), w2) \<Rightarrow> ((c @ c', t @ t', l @ l'), w2)))"

lemma handle_event_hstep:
  "handle_event e (st, Some a, c, t, l) =
     (case hstep e (st, ta_currentToolName a) of
        ((c', t', l'), st', n') \<Rightarrow> Some (st', Some (a\<lparr>ta_currentToolName := n'\<rparr>), c @ c', t @ t', l @ l'))"
  by (cases e) (auto simp: handle_recipient_def SetToolName_def split: harmonyMessageState.split)

lemma handle_events_hscan:
  "handle_events es (st, Some a, c, t, l) =
     (case hscan es (st, ta_currentToolName a) of
        ((c', t', l'), st', n') \<Rightarrow> Some (st', Some (a\<lparr>ta_currentToolName := n'\<rparr>), c @ c', t @ t', l @ l'))"
proof (induction es arbitrary: st a c t l)
  case (Cons e es)
  obtain c1 t1 l1 st1 n1 where "hstep e (st, ta_currentToolName a) = ((c1, t1, l1), st1, n1)"
    by (metis prod.exhaust)
  then show ?case
    by (simp add: handle_event_hstep Cons.IH split: prod.split)
qed simp

lemma hscan_append:
  "hscan (es @ es') w =
     (case hscan es w of
        ((c, t, l), w1) \<Rightarrow> (case hscan es' w1 of ((c', t', l'), w2) \<Rightarrow> ((c @ c', t @ t', l @ l'), w2)))"
  by (induction es arbitrary: w) (auto split: prod.splits)

text \<open>Only the atoms matter.\<close>

fun atom_event :: "hatom \<Rightarrow> HarmonyEvent" where
  "atom_event HStart = HarmonyEventMessageStart"
| "atom_event (HHeader header) = HarmonyEventHeaderComplete header"
| "atom_event (HChar c) = HarmonyEventContentEmitted [c]"
| "atom_event HEnd = HarmonyEventMessageEnd"

lemma hscan_chars: "hscan (map (atom_event \<circ> HChar) s) w = hstep (HarmonyEventContentEmitted s) w"
  by (induction s arbitrary: w) (auto split: harmonyMessageState.split)

lemma hscan_atoms: "hscan (map atom_event (atoms harmony_atoms es)) w = hscan es w"
proof (induction es arbitrary: w)
  case (Cons e es)
  have "hscan (map atom_event (harmony_atoms e)) w = hstep e w"
    by (cases e) (auto simp: hscan_chars split: prod.split)
  then show ?case by (simp add: hscan_append Cons.IH)
qed simp

text \<open>What a whole stream returns.\<close>

definition finished ::
  "(string \<Rightarrow> 'a option) \<Rightarrow> FunctionNameMap \<Rightarrow> string \<Rightarrow> texts3 \<times> harmonyMessageState \<times> string option
    \<Rightarrow> string + string \<times> string \<times> 'a ToolCall list" where
  "finished unmarshal m acc r =
     (case r of
        ((content, thinking, tool), st, name) \<Rightarrow>
          (case name of
             None \<Rightarrow> Inr (content, thinking, [])
           | Some toolName \<Rightarrow>
               (case unmarshal (acc @ tool) of
                  None \<Rightarrow> Inl (acc @ tool)
                | Some args \<Rightarrow>
                    Inr (content, thinking,
                      [\<lparr>tc_Index = 0, tc_Name = OriginalFromConverted m (trim_prefix ''functions.'' toolName),
                        tc_Arguments = args\<rparr>]))))"

lemma hm_stream_events:
  assumes "hm_HarmonyParser h = Some p" "hm_toolAccumulator h = Some a" "tagged p" "cs \<noteq> []"
    "run_chunks tagged_eat harmony_feed cs p = Some (es, q)"
  shows "stream (hm_Add unmarshal) h cs =
    Some (finished unmarshal (hm_FunctionNameMap h) (ta_acc a) (hscan es (hm_state h, ta_currentToolName a)))"
  using assms
proof (induction cs arbitrary: h p a es)
  case (Cons s cs)
  obtain es1 q1 es2 where d: "drain tagged_eat (harmony_feed s p) [] = Some (es1, q1)"
    "run_chunks tagged_eat harmony_feed cs q1 = Some (es2, q)" "es = es1 @ es2"
    using Cons.prems(5) by (auto split: option.splits)
  have tp: "tagged (harmony_feed s p)" using Cons.prems(3) by (simp add: tagged_def harmony_feed_def)
  then have parse: "harmony_parse s p = Some (es1, q1)" using d(1) by (simp add: harmony_parse_def harmony_drain)
  have tq: "tagged q1" using harmony_chunked.inv_drain[OF tp d(1)] .
  obtain c1 t1 l1 st1 n1 where sc: "hscan es1 (hm_state h, ta_currentToolName a) = ((c1, t1, l1), st1, n1)"
    by (metis prod.exhaust)
  let ?a = "a\<lparr>ta_currentToolName := n1\<rparr>"
  let ?h = "h\<lparr>hm_HarmonyParser := Some q1, hm_state := st1\<rparr>"
  have add: "hm_AddContent s (hm_toolAccumulator h) h = Some ((c1, t1, l1), Some ?a, ?h)"
    using parse sc Cons.prems(1,2) by (simp add: hm_AddContent_def handle_events_hscan)
  have acc: "(if l1 \<noteq> [] then ta_Add l1 ?a else ?a) = ?a\<lparr>ta_acc := ta_acc a @ l1\<rparr>"
    by (simp add: ta_Add_def)
  show ?case
  proof (cases "cs = []")
    case True
    then show ?thesis
      using add acc d sc
      by (auto simp: hm_Add_def Let_def ta_Drain_def finished_def split: option.splits)
  next
    case False
    let ?h1 = "?h\<lparr>hm_toolAccumulator := Some (?a\<lparr>ta_acc := ta_acc a @ l1\<rparr>)\<rparr>"
    have "hm_Add unmarshal h s False = (Some (c1, t1, [], None), ?h1)"
      using add acc by (simp add: hm_Add_def Let_def)
    moreover have "stream (hm_Add unmarshal) ?h1 cs =
      Some (finished unmarshal (hm_FunctionNameMap h) (ta_acc a @ l1) (hscan es2 (st1, n1)))"
      using Cons.IH[of ?h1 q1 "?a\<lparr>ta_acc := ta_acc a @ l1\<rparr>" es2] tq False d(2) by simp
    ultimately show ?thesis
      using False d(3) sc
      by (auto simp: hscan_append finished_def split: prod.splits option.splits)
  qed
qed simp

text \<open>So a stream is what is shown for its whole text.\<close>

lemma hm_stream_observe:
  assumes "hm_HarmonyParser h = Some p" "hm_toolAccumulator h = Some a" "tagged p" "cs \<noteq> []"
    "observe tagged_eat harmony_atoms (harmony_feed (concat cs) p) = Some (as, q)"
  shows "stream (hm_Add unmarshal) h cs =
    Some (finished unmarshal (hm_FunctionNameMap h) (ta_acc a)
      (hscan (map atom_event as) (hm_state h, ta_currentToolName a)))"
proof -
  obtain es q' where r: "run_chunks tagged_eat harmony_feed cs p = Some (es, q')"
    using harmony_loop.run_chunks_Some by blast
  then have "atoms harmony_atoms es = as"
    using harmony_chunked.run_chunks_concat[OF assms(3) _ assms(4)] assms(5) by simp
  then show ?thesis using hm_stream_events[OF assms(1-4) r] hscan_atoms[of es] by simp
qed

lemma NewHarmonyParser_tagged: "tagged NewHarmonyParser"
  by (simp add: tagged_def NewHarmonyParser_def startTag_def endTag_def headerTag_def)

section \<open>Rendered messages\<close>

text \<open>Messages and a call, as a model of this format writes them.\<close>

definition message_wire :: "string \<times> string \<Rightarrow> string" where
  "message_wire m = ''<|start|>assistant<|channel|>'' @ fst m @ ''<|message|>'' @ snd m @ ''<|end|>''"

definition call_wire :: "string \<Rightarrow> string \<Rightarrow> string" where
  "call_wire name args =
     ''<|start|>assistant<|channel|>commentary to=functions.'' @ name @ '' <|constrain|>json<|message|>'' @ args"

definition channels :: "string list" where "channels = [''analysis'', ''commentary'', ''final'']"

definition message_ok :: "string \<times> string \<Rightarrow> bool" where
  "message_ok m \<longleftrightarrow> fst m \<in> set channels \<and> \<not> go_contains (snd m) endTag"

definition message_header :: "string \<Rightarrow> HarmonyHeader" where
  "message_header ch = \<lparr>hh_Role = ''assistant'', hh_Channel = ch, hh_Recipient = []\<rparr>"

definition call_header :: "string \<Rightarrow> HarmonyHeader" where
  "call_header name = \<lparr>hh_Role = ''assistant'', hh_Channel = ''commentary'', hh_Recipient = ''functions.'' @ name\<rparr>"

lemma tag_heads [simp]:
  "hd startTag \<notin> set (tl startTag)" "hd headerTag \<notin> set (tl headerTag)" "hd endTag \<notin> set (tl endTag)"
  "hd constrainTag \<notin> set (tl constrainTag)" "hd channelTag \<notin> set (tl channelTag)"
  "constrainTag \<noteq> []" "channelTag \<noteq> []"
  by (simp_all add: startTag_def headerTag_def endTag_def constrainTag_def channelTag_def)

lemma channel_headers:
  assumes "ch \<in> set channels"
  shows "\<not> go_contains (''assistant<|channel|>'' @ ch) headerTag"
    "parseHeader (''assistant<|channel|>'' @ ch) = message_header ch"
proof -
  have "\<forall>ch\<in>set channels. \<not> go_contains (''assistant<|channel|>'' @ ch) headerTag \<and>
      parseHeader (''assistant<|channel|>'' @ ch) = message_header ch" by code_simp
  then show "\<not> go_contains (''assistant<|channel|>'' @ ch) headerTag"
    "parseHeader (''assistant<|channel|>'' @ ch) = message_header ch" using assms by blast+
qed

text \<open>The header of a call; the name of the tool is any identifier of ASCII bytes.\<close>

lemma ident_plain: "ident_byte c \<Longrightarrow> plain_char c \<and> c \<noteq> CHR ''<''"
  by (auto simp: ident_byte_def digit_byte_def plain_char_def byte_in_def)

definition call_front :: "string \<Rightarrow> string" where
  "call_front name = ''assistant<|channel|>commentary to=functions.'' @ name @ '' ''"

lemma call_front_cuts:
  assumes "list_all ident_byte name"
  shows "\<not> go_contains (call_front name @ constrainTag @ ''json'') headerTag"
    "\<not> go_contains (call_front name) constrainTag"
proof -
  have no: "CHR ''<'' \<notin> set name" using assms ident_plain by (auto simp: list_all_iff)
  have "go_index (name @ s) t = map_option (\<lambda>i. length name + i) (go_index s t)"
    if "t \<noteq> []" "hd t = CHR ''<''" for s t
    using go_index_after[of t name] that no by simp
  then show "\<not> go_contains (call_front name @ constrainTag @ ''json'') headerTag"
    "\<not> go_contains (call_front name) constrainTag"
    by (simp_all add: go_contains_def call_front_def constrainTag_def headerTag_def)
qed

lemma call_front_parse:
  assumes "list_all ident_byte name"
  shows "parseHeader (call_front name @ constrainTag @ ''json'') = call_header name"
proof -
  let ?rest = "'' to=functions.'' @ name @ ''  '' @ constrainTag @ ''json''"
  have plain: "plain_char (CHR ''a'')" "plain_char (CHR ''n'')" by (simp_all add: plain_char_def byte_in_def)
  have 1: "space_constrain (call_front name @ constrainTag @ ''json'') =
      ''assistant'' @ channelTag @ ''commentary'' @ ?rest"
  proof -
    have "go_cut (call_front name @ constrainTag @ ''json'') constrainTag = Some (call_front name, ''json'')"
      by (rule go_cut_first) (simp_all add: call_front_cuts[OF assms])
    moreover have "call_front name @ '' '' @ constrainTag @ ''json'' = ''assistant'' @ channelTag @ ''commentary'' @ ?rest"
      by (simp add: call_front_def channelTag_def)
    moreover have "trim_space (''assistant'' @ channelTag @ ''commentary'' @ ?rest) = ''assistant'' @ channelTag @ ''commentary'' @ ?rest"
      by (rule trim_space_plain) (simp_all add: plain)
    ultimately show ?thesis by (simp only: space_constrain_def option.case prod.case)
  qed
  have 2: "cut_channel (''assistant'' @ channelTag @ ''commentary'' @ ?rest) = (''commentary'', ''assistant'' @ ?rest)"
  proof -
    have "\<not> go_contains ''assistant'' channelTag" by code_simp
    then have "go_cut (''assistant'' @ channelTag @ ''commentary'' @ ?rest) channelTag = Some (''assistant'', ''commentary'' @ ?rest)"
      by (intro go_cut_first) simp_all
    moreover have "list_all plain_char ''commentary''" by (simp add: plain_char_def byte_in_def)
    then have "index_space (''commentary'' @ ?rest) = Some (length ''commentary'')"
      using index_space_plain[of "''commentary''" ?rest] by (simp add: space_len_blank)
    moreover have "trim_space (''assistant'' @ ?rest) = ''assistant'' @ ?rest"
      by (rule trim_space_plain) (simp_all add: plain)
    ultimately show ?thesis unfolding cut_channel_def by (simp only: option.case prod.case Let_def) simp
  qed
  have 3: "go_fields (''assistant'' @ ?rest) = [''assistant'', ''to=functions.'' @ name, constrainTag @ ''json'']"
  proof -
    have p: "list_all plain_char ''assistant''" "list_all plain_char (''to=functions.'' @ name)"
      "list_all plain_char (constrainTag @ ''json'')"
      using assms ident_plain by (auto simp: constrainTag_def plain_char_def byte_in_def list_all_iff)
    have "''assistant'' @ ?rest =
        ''assistant'' @ CHR '' '' # ((''to=functions.'' @ name) @ CHR '' '' # (CHR '' '' # (constrainTag @ ''json'')))"
      by simp
    moreover have "go_fields (''assistant'' @ CHR '' '' # s) = ''assistant'' # go_fields s" for s
      by (rule go_fields_plain(2)[OF _ p(1)]) simp
    moreover have "go_fields ((''to=functions.'' @ name) @ CHR '' '' # s) = (''to=functions.'' @ name) # go_fields s" for s
      by (rule go_fields_plain(2)[OF _ p(2)]) simp
    moreover have "go_fields (constrainTag @ ''json'') = [constrainTag @ ''json'']"
      by (rule go_fields_plain(1)[OF _ p(3)]) simp
    ultimately show ?thesis by (simp only: go_fields_blank)
  qed
  show ?thesis
    unfolding parseHeader_def 1 2 prod.case 3 list.case Let_def by (simp add: call_header_def)
qed

text \<open>What the parser shows for a message and for a call.\<close>

lemma observe_message:
  assumes "message_ok m" "hp_state p = LookingForMessageStart" "hp_acc p = message_wire m @ r"
  shows "observe tagged_eat harmony_atoms p =
    prepend (HStart # HHeader (message_header (fst m)) # map HChar (snd m) @ [HEnd])
      (observe tagged_eat harmony_atoms (p\<lparr>hp_acc := r\<rparr>))"
proof -
  let ?h = "''assistant<|channel|>'' @ fst m"
  have m: "fst m \<in> set channels" "\<not> go_contains (snd m) endTag" using assms(1) by (auto simp: message_ok_def)
  have acc: "hp_acc p = [] @ startTag @ ?h @ headerTag @ snd m @ endTag @ r"
    using assms(3) by (simp add: message_wire_def startTag_def headerTag_def endTag_def)
  have c1: "go_cut (hp_acc p) startTag = Some ([], ?h @ headerTag @ snd m @ endTag @ r)"
    unfolding acc by (rule go_cut_first) (simp_all add: go_contains_def)
  have c2: "go_cut (?h @ headerTag @ snd m @ endTag @ r) headerTag = Some (?h, snd m @ endTag @ r)"
    by (rule go_cut_first) (simp, simp, rule channel_headers(1)[OF m(1)])
  have c3: "go_cut (snd m @ endTag @ r) endTag = Some (snd m, r)"
    by (rule go_cut_first) (simp_all add: m(2))
  let ?p1 = "p\<lparr>hp_acc := ?h @ headerTag @ snd m @ endTag @ r, hp_state := ParsingHeader\<rparr>"
  let ?p2 = "?p1\<lparr>hp_acc := snd m @ endTag @ r, hp_state := ParsingContent\<rparr>"
  have p3: "?p2\<lparr>hp_acc := r, hp_state := LookingForMessageStart\<rparr> = p\<lparr>hp_acc := r\<rparr>"
    using assms(2) by (cases p) simp
  have "tagged_eat p = ([HarmonyEventMessageStart], True, ?p1)"
    using assms(2) c1 by (simp add: tagged_eat_def)
  moreover have "tagged_eat ?p1 = ([HarmonyEventHeaderComplete (message_header (fst m))], True, ?p2)"
    using c2 channel_headers(2)[OF m(1)] by (simp add: tagged_eat_def)
  moreover have "tagged_eat ?p2 =
      ((if snd m \<noteq> [] then [HarmonyEventContentEmitted (snd m)] else []) @ [HarmonyEventMessageEnd], True, p\<lparr>hp_acc := r\<rparr>)"
    using c3 p3 by (simp add: tagged_eat_def)
  ultimately show ?thesis
    by (simp only: harmony_loop.observe_step prepend_simps(4) atoms_simps emitted_atoms harmony_atoms.simps) simp
qed

text \<open>The text of a call has arrived when it does not end in the beginning of an end tag.\<close>

definition args_ok :: "string \<Rightarrow> bool" where
  "args_ok args \<longleftrightarrow> \<not> go_contains args endTag \<and> overlap args endTag = 0"

lemma observe_call:
  assumes "list_all ident_byte name" "args_ok args" "hp_state p = LookingForMessageStart"
    "hp_acc p = call_wire name args"
  shows "\<exists>q. observe tagged_eat harmony_atoms p = Some (HStart # HHeader (call_header name) # map HChar args, q)"
proof -
  let ?h = "call_front name @ constrainTag @ ''json''"
  have acc: "hp_acc p = [] @ startTag @ ?h @ headerTag @ args"
    using assms(4) by (simp add: call_wire_def startTag_def headerTag_def constrainTag_def call_front_def)
  have c1: "go_cut (hp_acc p) startTag = Some ([], ?h @ headerTag @ args)"
    unfolding acc by (rule go_cut_first) (simp_all add: go_contains_def)
  have c2: "go_cut (?h @ headerTag @ args) headerTag = Some (?h, args)"
    by (rule go_cut_first) (simp_all add: call_front_cuts(1)[OF assms(1)])
  have c3: "go_cut args endTag = None" "held [endTag] args = []" "unheld [endTag] args = args"
    using assms(2) by (simp_all add: args_ok_def go_cut_None held_def unheld_def)
  let ?p1 = "p\<lparr>hp_acc := ?h @ headerTag @ args, hp_state := ParsingHeader\<rparr>"
  let ?p2 = "?p1\<lparr>hp_acc := args, hp_state := ParsingContent\<rparr>"
  have "tagged_eat p = ([HarmonyEventMessageStart], True, ?p1)"
    using assms(3) c1 by (simp add: tagged_eat_def)
  moreover have "tagged_eat ?p1 = ([HarmonyEventHeaderComplete (call_header name)], True, ?p2)"
    using c2 call_front_parse[OF assms(1)] by (simp add: tagged_eat_def)
  moreover have "tagged_eat ?p2 =
      ((if args \<noteq> [] then [HarmonyEventContentEmitted args] else []), False, ?p2\<lparr>hp_acc := []\<rparr>)"
    using c3 by (simp add: tagged_eat_def)
  ultimately show ?thesis
    by (simp only: harmony_loop.observe_step harmony_loop.observe_stop prepend_simps atoms_simps emitted_atoms
        harmony_atoms.simps) simp
qed

lemma hscan_message:
  assumes "message_ok m"
  shows "hscan (map atom_event (HStart # HHeader (message_header (fst m)) # map HChar (snd m) @ [HEnd])) (Normal, n) =
    ((if fst m = ''analysis'' then ([], snd m, []) else (snd m, [], [])), Normal, n)"
  using assms by (auto simp: message_ok_def message_header_def channels_def hscan_append hscan_chars)

lemma hscan_call:
  "hscan (map atom_event (HStart # HHeader (call_header name) # map HChar args)) (Normal, n) =
    (([], [], args), ToolCalling, Some (''functions.'' @ name))"
  by (simp add: call_header_def hscan_chars)

definition answer_of :: "(string \<times> string) list \<Rightarrow> string" where
  "answer_of ms = concat (map snd (filter (\<lambda>m. fst m \<noteq> ''analysis'') ms))"

definition analysis_of :: "(string \<times> string) list \<Rightarrow> string" where
  "analysis_of ms = concat (map snd (filter (\<lambda>m. fst m = ''analysis'') ms))"

lemma observe_session:
  assumes "list_all message_ok ms" "list_all ident_byte name" "args_ok args"
    "hp_state p = LookingForMessageStart" "hp_acc p = concat (map message_wire ms) @ call_wire name args"
  shows "\<exists>as q. observe tagged_eat harmony_atoms p = Some (as, q) \<and>
    hscan (map atom_event as) (Normal, n) =
      ((answer_of ms, analysis_of ms, args), ToolCalling, Some (''functions.'' @ name))"
  using assms(1,4,5)
proof (induction ms arbitrary: p)
  case Nil
  then show ?case
    using observe_call[OF assms(2,3), of p] hscan_call[of name args n] by (auto simp: answer_of_def analysis_of_def)
next
  case (Cons m ms)
  let ?r = "concat (map message_wire ms) @ call_wire name args"
  obtain as q where rest: "observe tagged_eat harmony_atoms (p\<lparr>hp_acc := ?r\<rparr>) = Some (as, q)"
    "hscan (map atom_event as) (Normal, n) =
      ((answer_of ms, analysis_of ms, args), ToolCalling, Some (''functions.'' @ name))"
    using Cons.IH[of "p\<lparr>hp_acc := ?r\<rparr>"] Cons.prems by auto
  have m: "message_ok m" using Cons.prems(1) by simp
  let ?as = "HStart # HHeader (message_header (fst m)) # map HChar (snd m) @ [HEnd]"
  have "observe tagged_eat harmony_atoms p = Some (?as @ as, q)"
    using observe_message[OF m Cons.prems(2), of ?r] rest(1) Cons.prems(3) by simp
  moreover have "hscan (map atom_event (?as @ as)) (Normal, n) =
      ((answer_of (m # ms), analysis_of (m # ms), args), ToolCalling, Some (''functions.'' @ name))"
    unfolding map_append hscan_append hscan_message[OF m] by (simp add: rest(2) answer_of_def analysis_of_def)
  ultimately show ?case by blast
qed

text \<open>The names \<open>Init\<close> gives to the tools.\<close>

lemma init_tools_names:
  assumes "init_tools up tools m conv = Some (tools', m', conv')"
  shows "length tools' = length tools \<and>
    convert_names up m (map (tool_Name \<circ> fst) (filter (\<lambda>(t, t'). tool_Name t \<noteq> []) (zip tools tools'))) =
      Some (map (tool_Name \<circ> snd) (filter (\<lambda>(t, t'). tool_Name t \<noteq> []) (zip tools tools')), m')"
  using assms
  by (induction tools arbitrary: m conv tools') (auto split: if_splits option.splits prod.splits)

lemma init_tools_back:
  assumes "init_tools up tools NewFunctionNameMap conv = Some (tools', m', conv')"
    "\<forall>t\<in>set tools. convertToValidChars up (tool_Name t) = ''python'' \<longrightarrow> tool_Name t = ''python''"
    "i < length tools" "tool_Name (tools ! i) \<noteq> []"
  shows "OriginalFromConverted m' (tool_Name (tools' ! i)) = tool_Name (tools ! i)"
proof -
  let ?P = "filter (\<lambda>(t, t'). tool_Name t \<noteq> []) (zip tools tools')"
  note names = init_tools_names[OF assms(1)]
  have "map (harmonyToUser m') (map (tool_Name \<circ> snd) ?P) = map Some (map (tool_Name \<circ> fst) ?P)"
    by (rule convert_names_back_from[OF finite_names_New])
      (use names assms(2) in \<open>auto dest: set_zip_leftD\<close>)
  then have "\<forall>x\<in>set ?P. harmonyToUser m' (tool_Name (snd x)) = Some (tool_Name (fst x))"
    by (simp add: comp_def)
  moreover have "(tools ! i, tools' ! i) \<in> set ?P"
    using assms(3,4) names by (auto simp: set_zip)
  ultimately have "harmonyToUser m' (tool_Name (tools' ! i)) = Some (tool_Name (tools ! i))" by fastforce
  then show ?thesis by (simp add: OriginalFromConverted_def)
qed

lemma init_tools_returns:
  "finite_names m \<Longrightarrow> \<exists>r. init_tools up tools m conv = Some r"
proof (induction tools arbitrary: m conv)
  case (Cons t tools)
  obtain h m1 where "ConvertAndAdd up m (tool_Name t) = Some (h, m1)" "finite_names m1"
    using Cons.prems by (rule ConvertAndAdd_returns)
  then show ?case
    using Cons.IH[OF \<open>finite_names m1\<close>, of "insert (tool_Name t) conv"] Cons.IH[OF Cons.prems, of conv] by auto
qed simp

lemma hm_Init_New:
  assumes "hm_Init up tools lastMessage NewHarmonyMessageHandler = Some (tools', h)"
  shows "\<exists>p. hm_HarmonyParser h = Some p \<and> tagged p \<and> hp_state p = LookingForMessageStart
      \<and> (lastMessage = None \<longrightarrow> hp_acc p = ''<|start|>assistant'')"
    and "hm_toolAccumulator h = Some CreateToolParser" "hm_state h = Normal"
    and "tools = [] \<and> tools' = [] \<or>
      (\<exists>conv. init_tools up tools NewFunctionNameMap {} = Some (tools', hm_FunctionNameMap h, conv))"
  using assms NewHarmonyParser_tagged
  by (auto simp: hm_Init_def Let_def NewHarmonyMessageHandler_def NewHarmonyParser_def AddImplicitStart_def
      AddImplicitStartOrPrefill_def tagged_def split: option.splits if_splits prod.splits)

text \<open>
  At the end of the stream nothing is flushed: text that looks like the beginning of an end tag is
  lost, as \<open>done\<close> only looks at the accumulated tool call.
\<close>

definition unit_tools :: "string list \<Rightarrow> unit Tool list" where
  "unit_tools names = map (\<lambda>n. \<lparr>tool_Name = n, tool_Parameters = ()\<rparr>) names"

definition session ::
  "string list \<Rightarrow> string list \<Rightarrow> (string + string \<times> string \<times> string ToolCall list) option" where
  "session names cs =
     (case hm_Init (\<lambda>_. False) (unit_tools names) None NewHarmonyMessageHandler of
        None \<Rightarrow> None
      | Some (_, h) \<Rightarrow> stream (hm_Add Some) h cs)"

lemma harmony_end_is_dropped:
  "session [] [''<|channel|>final<|message|>if a <''] = Some (Inr (''if a '', [], []))"
  by code_simp

section \<open>Properties\<close>

text \<open>
  C38. What a harmony handler returns for a stream - content, thinking, the tool call or the error -
  does not depend on how the output is cut into chunks, whatever the tools and the last message it
  was initialised with; and it always returns.
\<close>

theorem hm_stream_concat:
  assumes "hm_Init up tools lastMessage NewHarmonyMessageHandler = Some (tools', h)" "cs \<noteq> []"
  shows "stream (hm_Add unmarshal) h cs = stream (hm_Add unmarshal) h [concat cs] \<and>
    stream (hm_Add unmarshal) h cs \<noteq> None"
proof -
  obtain p where p: "hm_HarmonyParser h = Some p" "tagged p" using hm_Init_New(1)[OF assms(1)] by blast
  note a = hm_Init_New(2)[OF assms(1)]
  obtain as q where o: "observe tagged_eat harmony_atoms (harmony_feed (concat cs) p) = Some (as, q)"
    using harmony_loop.observe_Some by blast
  show ?thesis
    using hm_stream_observe[OF p(1) a p(2) assms(2) o, of unmarshal]
      hm_stream_observe[OF p(1) a p(2), of "[concat cs]" as q unmarshal] o by simp
qed

theorem hm_stream_concat_witness:
  "\<exists>h. hm_Init (\<lambda>_. False) (unit_tools []) None NewHarmonyMessageHandler = Some (unit_tools [], h) \<and>
    stream (hm_Add Some) h [''<|chan'', ''nel|>final<|message|>a<|e'', ''nd|>''] =
    stream (hm_Add Some) h [concat [''<|chan'', ''nel|>final<|message|>a<|e'', ''nd|>'']]"
proof -
  obtain h where h: "hm_Init (\<lambda>_. False) (unit_tools []) None NewHarmonyMessageHandler = Some (unit_tools [], h)"
    by (simp add: hm_Init_def unit_tools_def Let_def)
  have "stream (hm_Add Some) h [''<|chan'', ''nel|>final<|message|>a<|e'', ''nd|>''] =
      stream (hm_Add Some) h [concat [''<|chan'', ''nel|>final<|message|>a<|e'', ''nd|>'']]"
    by (rule hm_stream_concat[OF h, THEN conjunct1]) simp
  then show ?thesis using h by blast
qed

text \<open>
  C7. A whole session: after the tools are registered, the model writes messages - analysis,
  commentary, final answers - and then a call of one of the tools, by the name it was given for it,
  cut into chunks at will. The handler returns the texts of the answers as content, the analysis as
  thinking, and one call that carries the user's own name of that tool and the decoded arguments.
\<close>

theorem hm_session:
  assumes "hm_Init up tools None NewHarmonyMessageHandler = Some (tools', h)"
    "\<forall>t\<in>set tools. convertToValidChars up (tool_Name t) = ''python'' \<longrightarrow> tool_Name t = ''python''"
    "i < length tools" "tool_Name (tools ! i) \<noteq> []" "list_all ident_byte (tool_Name (tools' ! i))"
    "list_all message_ok ms" "args_ok args" "unmarshal args = Some v" "cs \<noteq> []"
    "''<|start|>assistant'' @ concat cs = concat (map message_wire ms) @ call_wire (tool_Name (tools' ! i)) args"
  shows "stream (hm_Add unmarshal) h cs = Some (Inr (answer_of ms, analysis_of ms,
    [\<lparr>tc_Index = 0, tc_Name = tool_Name (tools ! i), tc_Arguments = v\<rparr>]))"
proof -
  obtain p where p: "hm_HarmonyParser h = Some p" "tagged p" "hp_state p = LookingForMessageStart"
    "hp_acc p = ''<|start|>assistant''" using hm_Init_New(1)[OF assms(1)] by blast
  note h = hm_Init_New(2,3)[OF assms(1)]
  obtain conv where "init_tools up tools NewFunctionNameMap {} = Some (tools', hm_FunctionNameMap h, conv)"
    using hm_Init_New(4)[OF assms(1)] assms(3) by auto
  from init_tools_back[OF this assms(2-4)]
  have name: "OriginalFromConverted (hm_FunctionNameMap h) (tool_Name (tools' ! i)) = tool_Name (tools ! i)" .
  obtain as q where s: "observe tagged_eat harmony_atoms (harmony_feed (concat cs) p) = Some (as, q)"
    "hscan (map atom_event as) (Normal, None) =
      ((answer_of ms, analysis_of ms, args), ToolCalling, Some (''functions.'' @ tool_Name (tools' ! i)))"
    using observe_session[OF assms(6,5,7), of "harmony_feed (concat cs) p" None] p(3,4) assms(10) by auto
  have "stream (hm_Add unmarshal) h cs = Some (finished unmarshal (hm_FunctionNameMap h) []
      ((answer_of ms, analysis_of ms, args), ToolCalling, Some (''functions.'' @ tool_Name (tools' ! i))))"
    using hm_stream_observe[OF p(1) h(1) p(2) assms(9) s(1), of unmarshal] s(2) h(2)
    by (simp add: CreateToolParser_def)
  then show ?thesis using assms(8) name by (simp add: finished_def trim_prefix_def)
qed

theorem hm_session_witness:
  "session [''get-weather''] [''<|channel|>analysis<|message|>h'', ''m<|end|><|start|>assistant<|channel|>comme'',
      ''ntary to=functions.get_weather <|constrain|>json<|message|>{}''] =
    Some (Inr ([], ''hm'', [\<lparr>tc_Index = 0, tc_Name = ''get-weather'', tc_Arguments = ''{}''\<rparr>]))"
proof -
  let ?tools = "unit_tools [''get-weather'']"
  let ?cs = "[''<|channel|>analysis<|message|>h'', ''m<|end|><|start|>assistant<|channel|>comme'',
      ''ntary to=functions.get_weather <|constrain|>json<|message|>{}'']"
  have "map_option fst (hm_Init (\<lambda>_. False) ?tools None NewHarmonyMessageHandler) = Some (unit_tools [''get_weather''])"
    by code_simp
  then obtain h where h: "hm_Init (\<lambda>_. False) ?tools None NewHarmonyMessageHandler = Some (unit_tools [''get_weather''], h)"
    by auto
  have names: "tool_Name (?tools ! 0) = ''get-weather''" "tool_Name (unit_tools [''get_weather''] ! 0) = ''get_weather''"
    "length ?tools = 1" by (simp_all add: unit_tools_def)
  have ms: "list_all message_ok [(''analysis'', ''hm'')]" "args_ok ''{}''" "list_all ident_byte ''get_weather''"
    "convertToValidChars (\<lambda>_. False) ''get-weather'' \<noteq> ''python''" by code_simp+
  then have py: "\<forall>t\<in>set ?tools. convertToValidChars (\<lambda>_. False) (tool_Name t) = ''python'' \<longrightarrow> tool_Name t = ''python''"
    by (simp add: unit_tools_def)
  have wire: "''<|start|>assistant'' @ concat ?cs = concat (map message_wire [(''analysis'', ''hm'')]) @
      call_wire (tool_Name (unit_tools [''get_weather''] ! 0)) ''{}''"
    by (simp add: message_wire_def call_wire_def unit_tools_def)
  have "stream (hm_Add Some) h ?cs = Some (Inr (answer_of [(''analysis'', ''hm'')], analysis_of [(''analysis'', ''hm'')],
      [\<lparr>tc_Index = 0, tc_Name = tool_Name (?tools ! 0), tc_Arguments = ''{}''\<rparr>]))"
    by (rule hm_session[OF h py _ _ _ ms(1,2) _ _ wire]) (use names ms(3) in simp_all)
  then show ?thesis
    unfolding session_def h by (simp add: answer_of_def analysis_of_def unit_tools_def del: stream.simps)
qed

end
