(* ===== verification/CacheTrie.thy ===== *)
theory CacheTrie
  imports Main "HOL-Library.Sublist"
begin

text \<open>
  \<^verbatim>\<open>mlxrunner/cache_trie.go\<close>: the compressed prefix trie of the prompt cache. The nodes are shared
  and changed in place, so the trie is a store of nodes: a pointer is a number, \<open>th_heap\<close> gives the
  node it points to, \<open>th_next\<close> is the next unused pointer, and \<open>th_paged\<close> is the byte counter the
  operations of the program are given (\<^verbatim>\<open>pagedOutBytes\<close> of the prefix cache).

  Parameters: \<open>sz\<close> is the size of a snapshot and a \<open>layer\<close> the operations \<open>Split\<close> and \<open>Merge\<close> of one
  layer of the model's cache (GPU arrays; a layer that keeps no state is \<open>None\<close>). A slice that is
  \<^verbatim>\<open>nil\<close> is empty. Closing a snapshot releases GPU memory, and a snapshot that is still lazy adds to
  the counter when it is copied out; neither is part of the model. A panic of an operation (and an index
  out of range) is \<open>None\<close>.
\<close>

section \<open>Nodes\<close>

text \<open>The fields that make up the tree, and then those of the cached states.\<close>

record 'k linked =
  tn_tokens :: "'k list"
  tn_endOffset :: nat
  tn_parent :: "nat option"
  tn_children :: "nat list"

record ('k, 's) trieNode = "'k linked" +
  tn_lastUsed :: nat
  tn_snapshots :: "'s option list"
  tn_user :: bool

record ('k, 's) trie =
  th_heap :: "nat \<Rightarrow> ('k, 's) trieNode"
  th_next :: nat
  th_paged :: int

record 's layer =
  ly_Split :: "'s \<Rightarrow> nat \<Rightarrow> 's option \<times> 's option"
  ly_Merge :: "'s option \<Rightarrow> 's option \<Rightarrow> 's option"

definition upd_node :: "nat \<Rightarrow> (('k, 's) trieNode \<Rightarrow> ('k, 's) trieNode) \<Rightarrow> ('k, 's) trie \<Rightarrow> ('k, 's) trie" where
  "upd_node n f st = st\<lparr>th_heap := (th_heap st)(n := f (th_heap st n))\<rparr>"

definition startOffset :: "('k, 's) trieNode \<Rightarrow> nat" where
  "startOffset nd = tn_endOffset nd - length (tn_tokens nd)"

fun snaps_bytes :: "('s \<Rightarrow> int) \<Rightarrow> 's option list \<Rightarrow> int" where
  "snaps_bytes sz [] = 0"
| "snaps_bytes sz (None # ss) = snaps_bytes sz ss"
| "snaps_bytes sz (Some s # ss) = sz s + snaps_bytes sz ss"

definition snapshotBytes :: "('s \<Rightarrow> int) \<Rightarrow> ('k, 's) trieNode \<Rightarrow> int" where
  "snapshotBytes sz nd = snaps_bytes sz (tn_snapshots nd)"

definition swapSnapshots ::
  "('s \<Rightarrow> int) \<Rightarrow> nat \<Rightarrow> 's option list \<Rightarrow> ('k, 's) trie \<Rightarrow> 's option list \<times> ('k, 's) trie" where
  "swapSnapshots sz n snaps st =
     (tn_snapshots (th_heap st n),
      (upd_node n (\<lambda>nd. nd\<lparr>tn_snapshots := snaps\<rparr>) st)
        \<lparr>th_paged := th_paged st - snapshotBytes sz (th_heap st n) + snaps_bytes sz snaps\<rparr>)"

definition setSnapshots ::
  "('s \<Rightarrow> int) \<Rightarrow> nat \<Rightarrow> 's option list \<Rightarrow> ('k, 's) trie \<Rightarrow> ('k, 's) trie" where
  "setSnapshots sz n snaps st = snd (swapSnapshots sz n snaps st)"

definition hasSnapshots :: "('k, 's) trieNode \<Rightarrow> bool" where
  "hasSnapshots nd = list_ex (\<lambda>s. s \<noteq> None) (tn_snapshots nd)"

definition hasAllSnapshots :: "('k, 's) trieNode \<Rightarrow> 'c option list \<Rightarrow> bool" where
  "hasAllSnapshots nd caches =
     (tn_snapshots nd \<noteq> [] \<and>
      list_all (\<lambda>(i, c). c = None \<or> (i < length (tn_snapshots nd) \<and> tn_snapshots nd ! i \<noteq> None))
        (zip [0..<length caches] caches))"

section \<open>Searching\<close>

text \<open>The length of the common front of an edge and the remaining tokens.\<close>

fun match_len :: "'k list \<Rightarrow> 'k list \<Rightarrow> nat" where
  "match_len (e # es) (t # ts) = (if e = t then Suc (match_len es ts) else 0)"
| "match_len _ _ = 0"

text \<open>The best child so far: the node, the tokens matched, and whether its whole edge is.\<close>

type_synonym best = "(nat \<times> nat \<times> bool) option"

fun better :: "nat \<Rightarrow> bool \<Rightarrow> best \<Rightarrow> bool" where
  "better j full None = True"
| "better j full (Some (_, bestMatched, bestFull)) = ((full \<and> \<not> bestFull) \<or> (full = bestFull \<and> bestMatched < j))"

fun best_child :: "(nat \<Rightarrow> ('k, 's) trieNode) \<Rightarrow> 'k list \<Rightarrow> nat list \<Rightarrow> best \<Rightarrow> best" where
  "best_child h rest [] best = best"
| "best_child h rest (child # cs) best =
     (let edge = tn_tokens (h child) in
      if edge = [] \<or> rest = [] \<or> hd edge \<noteq> hd rest then best_child h rest cs best
      else (let j = match_len edge rest; full = (j = length edge)
            in best_child h rest cs (if better j full best then Some (child, j, full) else best)))"

lemma match_len_le: "match_len e ts \<le> length e" "match_len e ts \<le> length ts"
  by (induction e ts rule: match_len.induct) auto

lemma match_len_pos: "e \<noteq> [] \<Longrightarrow> ts \<noteq> [] \<Longrightarrow> hd e = hd ts \<Longrightarrow> 0 < match_len e ts"
  by (cases e; cases ts) auto

definition candidate_child :: "(nat \<Rightarrow> ('k, 's) trieNode) \<Rightarrow> 'k list \<Rightarrow> nat \<Rightarrow> bool" where
  "candidate_child h rest c \<longleftrightarrow> tn_tokens (h c) \<noteq> [] \<and> rest \<noteq> [] \<and> hd (tn_tokens (h c)) = hd rest"

definition child_match :: "(nat \<Rightarrow> ('k, 's) trieNode) \<Rightarrow> 'k list \<Rightarrow> nat \<Rightarrow> nat \<times> nat \<times> bool" where
  "child_match h rest c =
     (let j = match_len (tn_tokens (h c)) rest in (c, j, j = length (tn_tokens (h c))))"

lemma best_child_Cons:
  "best_child h rest (c # cs) best =
     (if candidate_child h rest c
      then best_child h rest cs
        (if better (fst (snd (child_match h rest c))) (snd (snd (child_match h rest c))) best
         then Some (child_match h rest c) else best)
      else best_child h rest cs best)"
  by (auto simp: candidate_child_def child_match_def Let_def)

declare best_child.simps(2) [simp del]

lemma best_child_inv:
  assumes "\<And>c. c \<in> set cs \<Longrightarrow> candidate_child h rest c \<Longrightarrow> P (child_match h rest c)"
    and "\<And>x. best = Some x \<Longrightarrow> P x" and "best_child h rest cs best = Some x"
  shows "P x"
  using assms
proof (induction cs arbitrary: best)
  case Nil
  then show ?case by simp
next
  case (Cons c cs)
  note bc = Cons.prems(3)[unfolded best_child_Cons]
  have IH: "best_child h rest cs b = Some x \<Longrightarrow> (\<And>y. b = Some y \<Longrightarrow> P y) \<Longrightarrow> P x" for b
    using Cons.IH[of b] Cons.prems(1) by simp
  show ?case
  proof (cases "candidate_child h rest c")
    case True
    have p: "P (child_match h rest c)" using Cons.prems(1)[of c] True by simp
    show ?thesis
    proof (rule IH[OF bc[unfolded if_P[OF True]]])
      fix y assume "(if better (fst (snd (child_match h rest c))) (snd (snd (child_match h rest c))) best
         then Some (child_match h rest c) else best) = Some y"
      then show "P y" using p Cons.prems(2)[of y] by (cases "y = child_match h rest c") (auto split: if_splits)
    qed
  next
    case False
    then show ?thesis using bc IH Cons.prems(2) by simp
  qed
qed

lemma best_child_Some:
  "best_child h rest cs None = Some (c, j, full) \<Longrightarrow>
     c \<in> set cs \<and> tn_tokens (h c) \<noteq> [] \<and> rest \<noteq> [] \<and> hd (tn_tokens (h c)) = hd rest
       \<and> j = match_len (tn_tokens (h c)) rest \<and> full = (j = length (tn_tokens (h c)))"
  using best_child_inv[of cs h rest "\<lambda>(c, j, full). c \<in> set cs \<and> tn_tokens (h c) \<noteq> [] \<and> rest \<noteq> []
      \<and> hd (tn_tokens (h c)) = hd rest \<and> j = match_len (tn_tokens (h c)) rest
      \<and> full = (j = length (tn_tokens (h c)))" None "(c, j, full)"]
  by (simp add: candidate_child_def child_match_def Let_def)

lemma best_child_progress: "best_child h rest cs None = Some (c, j, full) \<Longrightarrow> 0 < j \<and> j \<le> length rest"
  using best_child_Some[of h rest cs c j full] match_len_pos match_len_le(2) by blast

text \<open>The loop of \<open>findBestMatch\<close>, on the tokens that are left.\<close>

function find_from :: "(nat \<Rightarrow> ('k, 's) trieNode) \<Rightarrow> nat \<Rightarrow> 'k list \<Rightarrow> nat list \<times> nat" where
  "find_from h node rest =
     (if rest = [] then ([], 0)
      else (case best_child h rest (tn_children (h node)) None of
              None \<Rightarrow> ([], 0)
            | Some (best, bestMatched, bestFull) \<Rightarrow>
                if \<not> bestFull then ([best], bestMatched)
                else (case find_from h best (drop bestMatched rest) of
                        (path, matched) \<Rightarrow> (best # path, bestMatched + matched))))"
  by pat_completeness auto
termination
proof (relation "measure (\<lambda>(h, node, rest). length rest)", goal_cases)
  case (2 h node rest x best y bestMatched bestFull)
  then have "0 < bestMatched" using best_child_progress by metis
  then show ?case using 2 by simp
qed simp

declare find_from.simps [simp del]

definition findBestMatch :: "(nat \<Rightarrow> ('k, 's) trieNode) \<Rightarrow> nat option \<Rightarrow> 'k list \<Rightarrow> nat list \<times> nat" where
  "findBestMatch h root tokens =
     (case root of
        None \<Rightarrow> ([], 0)
      | Some r \<Rightarrow> (case find_from h r tokens of (path, matched) \<Rightarrow> (r # path, matched)))"

section \<open>Changing the trie\<close>

definition appendChild ::
  "nat \<Rightarrow> 'k list \<Rightarrow> nat \<Rightarrow> ('k, 's) trie \<Rightarrow> nat \<times> ('k, 's) trie" where
  "appendChild n tokens endOffset st =
     (let child = th_next st;
          nd = \<lparr>tn_tokens = tokens, tn_endOffset = endOffset, tn_parent = Some n, tn_children = [],
                tn_lastUsed = tn_lastUsed (th_heap st n), tn_snapshots = [], tn_user = False\<rparr>
      in (child,
          upd_node n (\<lambda>x. x\<lparr>tn_children := tn_children x @ [child]\<rparr>)
            (st\<lparr>th_heap := (th_heap st)(child := nd), th_next := Suc child\<rparr>)))"

definition removeNode :: "('s \<Rightarrow> int) \<Rightarrow> nat \<Rightarrow> ('k, 's) trie \<Rightarrow> ('k, 's) trie option" where
  "removeNode sz node st =
     (case tn_parent (th_heap st node) of
        None \<Rightarrow> None
      | Some p \<Rightarrow>
          if tn_children (th_heap st node) \<noteq> [] then None
          else Some (setSnapshots sz node []
                 (upd_node node (\<lambda>x. x\<lparr>tn_parent := None\<rparr>)
                   (upd_node p (\<lambda>x. x\<lparr>tn_children := remove1 node (tn_children x)\<rparr>) st))))"

text \<open>The first occurrence of a child is replaced.\<close>

fun replace1 :: "'a \<Rightarrow> 'a \<Rightarrow> 'a list \<Rightarrow> 'a list" where
  "replace1 x y [] = []"
| "replace1 x y (z # zs) = (if z = x then y # zs else z # replace1 x y zs)"

fun split_snaps ::
  "'s layer option list \<Rightarrow> nat \<Rightarrow> 's option list \<Rightarrow> ('s option \<times> 's option) list option" where
  "split_snaps caches off [] = Some []"
| "split_snaps caches off (None # ss) = map_option ((#) (None, None)) (split_snaps (tl caches) off ss)"
| "split_snaps [] off (Some s # ss) = None"
| "split_snaps (c # cs) off (Some s # ss) =
     map_option ((#) (case c of None \<Rightarrow> (None, None) | Some l \<Rightarrow> ly_Split l s off)) (split_snaps cs off ss)"

text \<open>\<open>splitNode\<close>: the new parent and the shortened node, ...\<close>

definition split_edge :: "nat \<Rightarrow> nat \<Rightarrow> ('k, 's) trie \<Rightarrow> ('k, 's) trie" where
  "split_edge node at st =
     (let nd = th_heap st node; newParent = th_next st;
          np = \<lparr>tn_tokens = take at (tn_tokens nd), tn_endOffset = startOffset nd + at,
                tn_parent = tn_parent nd, tn_children = [node], tn_lastUsed = tn_lastUsed nd,
                tn_snapshots = [], tn_user = False\<rparr>
      in upd_node node (\<lambda>x. x\<lparr>tn_tokens := drop at (tn_tokens x)\<rparr>)
           (st\<lparr>th_heap := (th_heap st)(newParent := np), th_next := Suc newParent\<rparr>))"

text \<open>... the snapshots, divided between the two, ...\<close>

definition split_snapshots ::
  "('s \<Rightarrow> int) \<Rightarrow> 's layer option list \<Rightarrow> nat \<Rightarrow> nat \<Rightarrow> ('k, 's) trie \<Rightarrow> ('k, 's) trie option" where
  "split_snapshots sz caches node newParent st =
     (if hasSnapshots (th_heap st node) then
        (case swapSnapshots sz node [] st of
           (oldSnaps, st1) \<Rightarrow>
             map_option (\<lambda>ps. setSnapshots sz node (map snd ps) (setSnapshots sz newParent (map fst ps) st1))
               (split_snaps caches (tn_endOffset (th_heap st newParent)) oldSnaps))
      else Some st)"

text \<open>... and the new parent in the place of the node.\<close>

definition split_relink :: "nat \<Rightarrow> nat \<Rightarrow> ('k, 's) trie \<Rightarrow> ('k, 's) trie" where
  "split_relink node newParent st =
     upd_node node (\<lambda>x. x\<lparr>tn_parent := Some newParent\<rparr>)
       (case tn_parent (th_heap st node) of
          None \<Rightarrow> st
        | Some p \<Rightarrow> upd_node p (\<lambda>x. x\<lparr>tn_children := replace1 node newParent (tn_children x)\<rparr>) st)"

definition splitNode ::
  "('s \<Rightarrow> int) \<Rightarrow> 's layer option list \<Rightarrow> nat \<Rightarrow> nat \<Rightarrow> ('k, 's) trie \<Rightarrow> (nat \<times> ('k, 's) trie) option" where
  "splitNode sz caches node at st =
     (if at = 0 \<or> length (tn_tokens (th_heap st node)) \<le> at then None
      else map_option (\<lambda>st1. (th_next st, split_relink node (th_next st) st1))
             (split_snapshots sz caches node (th_next st) (split_edge node at st)))"

text \<open>\<open>nodeSnaps[i]\<close> where the slice may be \<^verbatim>\<open>nil\<close>; the outer \<open>None\<close> is an index out of range.\<close>

definition snap_at :: "'s option list \<Rightarrow> nat \<Rightarrow> 's option option" where
  "snap_at snaps i = (if snaps = [] then Some None else if i < length snaps then Some (snaps ! i) else None)"

fun merge_snaps ::
  "nat \<Rightarrow> 's layer option list \<Rightarrow> 's option list \<Rightarrow> 's option list \<Rightarrow> 's option list option" where
  "merge_snaps i [] ns cs = Some []"
| "merge_snaps i (None # ls) ns cs = map_option ((#) None) (merge_snaps (Suc i) ls ns cs)"
| "merge_snaps i (Some l # ls) ns cs =
     (case (snap_at ns i, snap_at cs i) of
        (Some p, Some c) \<Rightarrow> map_option ((#) (ly_Merge l p c)) (merge_snaps (Suc i) ls ns cs)
      | _ \<Rightarrow> None)"

definition merge_snapshots ::
  "('s \<Rightarrow> int) \<Rightarrow> 's layer option list \<Rightarrow> nat \<Rightarrow> nat \<Rightarrow> ('k, 's) trie \<Rightarrow> ('k, 's) trie option" where
  "merge_snapshots sz caches node child st =
     (if tn_snapshots (th_heap st node) \<noteq> [] \<or> tn_snapshots (th_heap st child) \<noteq> [] then
        (case swapSnapshots sz node [] st of
           (nodeSnaps, st1) \<Rightarrow>
             (case swapSnapshots sz child [] st1 of
                (childSnaps, st2) \<Rightarrow>
                  map_option (\<lambda>merged. setSnapshots sz node merged st2)
                    (merge_snaps 0 caches nodeSnaps childSnaps)))
      else Some st)"

fun adopt :: "nat \<Rightarrow> nat list \<Rightarrow> ('k, 's) trie \<Rightarrow> ('k, 's) trie" where
  "adopt node [] st = st"
| "adopt node (gc # gcs) st = adopt node gcs (upd_node gc (\<lambda>x. x\<lparr>tn_parent := Some node\<rparr>) st)"

definition mergeWithChild ::
  "('s \<Rightarrow> int) \<Rightarrow> 's layer option list \<Rightarrow> nat \<Rightarrow> ('k, 's) trie \<Rightarrow> ('k, 's) trie option" where
  "mergeWithChild sz caches node st =
     (case tn_children (th_heap st node) of
        [child] \<Rightarrow>
          (let cd = th_heap st child;
               st1 = upd_node node (\<lambda>x. x\<lparr>tn_tokens := tn_tokens x @ tn_tokens cd, tn_endOffset := tn_endOffset cd\<rparr>) st
           in case merge_snapshots sz caches node child st1 of
                None \<Rightarrow> None
              | Some st2 \<Rightarrow>
                  (let st3 = adopt node (tn_children cd) (upd_node node (\<lambda>x. x\<lparr>tn_children := tn_children cd\<rparr>) st2);
                       st4 = upd_node node (\<lambda>x. x\<lparr>tn_user := tn_user cd,
                               tn_lastUsed := max (tn_lastUsed x) (tn_lastUsed cd)\<rparr>) st3
                   in Some (upd_node child (\<lambda>x. x\<lparr>tn_parent := None, tn_children := []\<rparr>) st4)))
      | _ \<Rightarrow> None)"

section \<open>The tree of nodes\<close>

text \<open>
  \<open>trie_ok N r h\<close>: the nodes reachable from the root \<open>r\<close> are the finite set \<open>N\<close>, linked as a tree
  in both directions; edges are not empty, end offsets add up along the edges, and the edges of
  siblings start with different tokens. The predicates read only the links, so they are stated for
  any extension of the linked part of a node.
\<close>

definition links_ok :: "nat set \<Rightarrow> (nat \<Rightarrow> ('k, 'z) linked_scheme) \<Rightarrow> nat \<Rightarrow> bool" where
  "links_ok N h n \<longleftrightarrow> set (tn_children (h n)) \<subseteq> N \<and> distinct (tn_children (h n)) \<and>
     (\<forall>c\<in>set (tn_children (h n)). tn_parent (h c) = Some n) \<and>
     inj_on (\<lambda>c. hd (tn_tokens (h c))) (set (tn_children (h n)))"

definition edge_ok :: "nat set \<Rightarrow> (nat \<Rightarrow> ('k, 'z) linked_scheme) \<Rightarrow> nat \<Rightarrow> bool" where
  "edge_ok N h n \<longleftrightarrow> tn_tokens (h n) \<noteq> [] \<and>
     (\<exists>p\<in>N. tn_parent (h n) = Some p \<and> n \<in> set (tn_children (h p)) \<and>
        tn_endOffset (h n) = tn_endOffset (h p) + length (tn_tokens (h n)))"

definition trie_ok :: "nat set \<Rightarrow> nat \<Rightarrow> (nat \<Rightarrow> ('k, 'z) linked_scheme) \<Rightarrow> bool" where
  "trie_ok N r h \<longleftrightarrow> finite N \<and> r \<in> N \<and>
     tn_tokens (h r) = [] \<and> tn_endOffset (h r) = 0 \<and> tn_parent (h r) = None \<and>
     (\<forall>n\<in>N. links_ok N h n) \<and> (\<forall>n\<in>N. n \<noteq> r \<longrightarrow> edge_ok N h n)"

definition links :: "(nat \<Rightarrow> ('k, 'z) linked_scheme) \<Rightarrow> nat \<Rightarrow> 'k linked" where
  "links h n = linked.truncate (h n)"

lemma links_simps [simp]:
  "tn_tokens (links h n) = tn_tokens (h n)" "tn_endOffset (links h n) = tn_endOffset (h n)"
  "tn_parent (links h n) = tn_parent (h n)" "tn_children (links h n) = tn_children (h n)"
  by (simp_all add: links_def linked.truncate_def)

lemma trie_ok_links: "trie_ok N r (links h) \<longleftrightarrow> trie_ok N r h"
  by (simp add: trie_ok_def links_ok_def edge_ok_def)

lemma trie_ok_parts:
  assumes "trie_ok N r h"
  shows "finite N" "r \<in> N" "tn_tokens (h r) = []" "tn_endOffset (h r) = 0" "tn_parent (h r) = None"
    "n \<in> N \<Longrightarrow> links_ok N h n" "n \<in> N \<Longrightarrow> n \<noteq> r \<Longrightarrow> edge_ok N h n"
  using assms by (auto simp: trie_ok_def)

lemma trie_child:
  assumes "trie_ok N r h" "n \<in> N" "c \<in> set (tn_children (h n))"
  shows "c \<in> N" "c \<noteq> r" "c \<noteq> n" "tn_parent (h c) = Some n" "tn_tokens (h c) \<noteq> []"
    "tn_endOffset (h c) = tn_endOffset (h n) + length (tn_tokens (h c))"
proof -
  have l: "links_ok N h n" using trie_ok_parts(6)[OF assms(1,2)] .
  then show c: "c \<in> N" "tn_parent (h c) = Some n" using assms(3) by (auto simp: links_ok_def)
  then show "c \<noteq> r" using trie_ok_parts(5)[OF assms(1)] by auto
  then have "edge_ok N h c" using trie_ok_parts(7)[OF assms(1) c(1)] by blast
  then show "tn_tokens (h c) \<noteq> []" "tn_endOffset (h c) = tn_endOffset (h n) + length (tn_tokens (h c))"
    using c(2) by (auto simp: edge_ok_def)
  then show "c \<noteq> n" by auto
qed

lemma trie_grandchild:
  assumes "trie_ok N r h" "n \<in> N" "c \<in> set (tn_children (h n))"
  shows "n \<notin> set (tn_children (h c)) \<and> c \<notin> set (tn_children (h c))"
proof -
  note c = trie_child[OF assms]
  have "n \<notin> set (tn_children (h c))"
  proof
    assume "n \<in> set (tn_children (h c))"
    then have "tn_endOffset (h n) = tn_endOffset (h c) + length (tn_tokens (h n))"
      by (rule trie_child(6)[OF assms(1) c(1)])
    then show False using c(5,6) by simp
  qed
  then show ?thesis using trie_child(3)[OF assms(1) c(1), of c] by auto
qed

lemma trie_siblings:
  assumes "trie_ok N r h" "n \<in> N" "c \<in> set (tn_children (h n))" "d \<in> set (tn_children (h n))"
    "hd (tn_tokens (h c)) = hd (tn_tokens (h d))"
  shows "c = d"
  using trie_ok_parts(6)[OF assms(1,2)] assms(3-5) by (auto simp: links_ok_def inj_on_def)

section \<open>The stored sequences\<close>

text \<open>What a trie stores: the sequences spelled by the paths down from a node, and their fronts.\<close>

inductive spelled :: "(nat \<Rightarrow> ('k, 'z) linked_scheme) \<Rightarrow> nat \<Rightarrow> 'k list \<Rightarrow> bool" for h where
  here: "spelled h n []"
| down: "c \<in> set (tn_children (h n)) \<Longrightarrow> spelled h c v \<Longrightarrow> spelled h n (tn_tokens (h c) @ v)"

definition stored :: "(nat \<Rightarrow> ('k, 'z) linked_scheme) \<Rightarrow> nat \<Rightarrow> 'k list set" where
  "stored h n = {w. \<exists>v. spelled h n v \<and> prefix w v}"

lemma spelled_links: "spelled (links h) n v \<longleftrightarrow> spelled h n v"
proof
  show "spelled (links h) n v \<Longrightarrow> spelled h n v"
    by (induction rule: spelled.induct) (auto intro: spelled.intros)
  show "spelled h n v \<Longrightarrow> spelled (links h) n v"
  proof (induction rule: spelled.induct)
    case (down c n v)
    then show ?case using spelled.down[of c "links h" n v] by simp
  qed (rule spelled.here)
qed

lemma stored_links [simp]: "stored (links h) n = stored h n"
  by (simp add: stored_def spelled_links)

lemma stored_Nil [simp]: "[] \<in> stored h n"
  by (auto simp: stored_def intro: spelled.here)

lemma stored_prefix: "w \<in> stored h n \<Longrightarrow> prefix u w \<Longrightarrow> u \<in> stored h n"
  by (auto simp: stored_def intro: prefix_order.trans)

lemma stored_down:
  "c \<in> set (tn_children (h n)) \<Longrightarrow> w \<in> stored h c \<Longrightarrow> tn_tokens (h c) @ w \<in> stored h n"
  by (auto simp: stored_def intro: spelled.down)

lemma stored_edge: "c \<in> set (tn_children (h n)) \<Longrightarrow> prefix w (tn_tokens (h c)) \<Longrightarrow> w \<in> stored h n"
  using stored_prefix[OF stored_down[of c h n "[]"]] by simp

text \<open>A stored sequence that is not empty goes through one child.\<close>

lemma stored_cases:
  assumes "w \<in> stored h n" "w \<noteq> []"
  obtains c where "c \<in> set (tn_children (h n))"
    "prefix w (tn_tokens (h c)) \<or> (\<exists>u. w = tn_tokens (h c) @ u \<and> u \<in> stored h c)"
proof -
  obtain v where v: "spelled h n v" "prefix w v" using assms(1) by (auto simp: stored_def)
  from v(1) show thesis
  proof cases
    case here
    then show ?thesis using v(2) assms(2) by simp
  next
    case (down c v')
    have "prefix w (tn_tokens (h c)) \<or> (\<exists>u. w = tn_tokens (h c) @ u \<and> prefix u v')"
      using v(2) down(1) by (auto simp: prefix_append)
    then show ?thesis using that[OF down(2)] down(3) by (auto simp: stored_def)
  qed
qed

section \<open>The best match is the longest stored front\<close>

lemma match_len_take: "take (match_len e ts) e = take (match_len e ts) ts"
  by (induction e ts rule: match_len.induct) auto

lemma match_len_max: "prefix (take k ts) e \<Longrightarrow> k \<le> length ts \<Longrightarrow> k \<le> match_len e ts"
proof (induction e ts arbitrary: k rule: match_len.induct)
  case (1 e es t ts)
  then show ?case by (cases k) auto
qed (auto simp: take_Nil)

text \<open>In a well-formed trie there is at most one child to look at.\<close>

lemma best_child_unique:
  assumes "trie_ok N r h" "n \<in> N" "c \<in> set (tn_children (h n))" "candidate_child h rest c"
  shows "best_child h rest (tn_children (h n)) None = Some (child_match h rest c)"
proof -
  have only: "d = c" if "d \<in> set (tn_children (h n))" "candidate_child h rest d" for d
    using trie_siblings[OF assms(1,2) that(1) assms(3)] that(2) assms(4) by (simp add: candidate_child_def)
  have "best_child h rest cs b = Some (child_match h rest c)"
    if "set cs \<subseteq> set (tn_children (h n))" "distinct cs" "b = None \<and> c \<in> set cs \<or> b = Some (child_match h rest c) \<and> c \<notin> set cs"
    for cs and b :: best
    using that
  proof (induction cs arbitrary: b)
    case (Cons d cs)
    show ?case
    proof (cases "d = c")
      case True
      then have "best_child h rest (d # cs) b = best_child h rest cs (Some (child_match h rest c))"
        using Cons.prems(3) assms(4) by (auto simp: best_child_Cons)
      then show ?thesis using Cons.IH[of "Some (child_match h rest c)"] Cons.prems True by simp
    next
      case False
      then have "\<not> candidate_child h rest d" using only[of d] Cons.prems(1) by auto
      then show ?thesis using Cons.IH[of b] Cons.prems False by (auto simp: best_child_Cons)
    qed
  qed simp
  then show ?thesis using assms(3) trie_ok_parts(6)[OF assms(1,2)] by (simp add: links_ok_def)
qed

text \<open>A path of nodes downwards, and the tokens along it.\<close>

fun walk :: "(nat \<Rightarrow> ('k, 'z) linked_scheme) \<Rightarrow> nat \<Rightarrow> nat list \<Rightarrow> bool" where
  "walk h n [] = True"
| "walk h n (c # cs) \<longleftrightarrow> c \<in> set (tn_children (h n)) \<and> walk h c cs"

definition along :: "(nat \<Rightarrow> ('k, 'z) linked_scheme) \<Rightarrow> nat list \<Rightarrow> 'k list" where
  "along h path = concat (map (\<lambda>c. tn_tokens (h c)) path)"

lemma along_simps [simp]:
  "along h [] = []" "along h (c # cs) = tn_tokens (h c) @ along h cs" "along h (as @ bs) = along h as @ along h bs"
  by (simp_all add: along_def)

lemma walk_append: "walk h n (as @ bs) \<longleftrightarrow> walk h n as \<and> walk h (last (n # as)) bs"
  by (induction as arbitrary: n) auto

lemma walk_in: "trie_ok N r h \<Longrightarrow> n \<in> N \<Longrightarrow> walk h n path \<Longrightarrow> set path \<subseteq> N - {r}"
proof (induction path arbitrary: n)
  case (Cons c cs)
  then show ?case using trie_child[OF Cons.prems(1,2), of c] Cons.IH[of c] by auto
qed simp

lemma walk_last: "trie_ok N r h \<Longrightarrow> n \<in> N \<Longrightarrow> walk h n path \<Longrightarrow> last (n # path) \<in> N"
  using walk_in[of N r h n path] last_in_set[of "n # path"] by auto

lemma walk_endOffset:
  "trie_ok N r h \<Longrightarrow> n \<in> N \<Longrightarrow> walk h n path \<Longrightarrow>
     tn_endOffset (h (last (n # path))) = tn_endOffset (h n) + length (along h path)"
proof (induction path arbitrary: n)
  case (Cons c cs)
  then show ?case using trie_child[OF Cons.prems(1,2), of c] Cons.IH[of c] by simp
qed simp

lemma walk_stored: "walk h n path \<Longrightarrow> along h path \<in> stored h n"
proof (induction path arbitrary: n)
  case (Cons c cs)
  then show ?case using stored_down[of c h n "along h cs"] by simp
qed simp

text \<open>
  What \<open>findBestMatch\<close> finds: a path whose edges, except for the last, are matched completely, the
  last one at least in its first token; and no longer front of the tokens is stored.
\<close>

definition is_match ::
  "(nat \<Rightarrow> ('k, 'z) linked_scheme) \<Rightarrow> nat \<Rightarrow> 'k list \<Rightarrow> nat list \<Rightarrow> nat \<Rightarrow> bool" where
  "is_match h n rest path m \<longleftrightarrow> walk h n path \<and> m \<le> length rest \<and> prefix (take m rest) (along h path) \<and>
     (path = [] \<longrightarrow> m = 0) \<and> (path \<noteq> [] \<longrightarrow> length (along h (butlast path)) < m) \<and>
     (\<forall>k\<le>length rest. take k rest \<in> stored h n \<longrightarrow> k \<le> m)"

lemma no_candidate:
  assumes "trie_ok N r h" "n \<in> N" "best_child h rest (tn_children (h n)) None = None" "rest \<noteq> []"
    "take k rest \<in> stored h n"
  shows "k = 0"
proof (rule ccontr)
  assume "k \<noteq> 0"
  then have ne: "take k rest \<noteq> []" using assms(4) by (cases k; cases rest) auto
  from assms(5) ne obtain c where c: "c \<in> set (tn_children (h n))"
    "prefix (take k rest) (tn_tokens (h c)) \<or> (\<exists>u. take k rest = tn_tokens (h c) @ u \<and> u \<in> stored h c)"
    by (rule stored_cases)
  have "hd (tn_tokens (h c)) = hd rest"
    using c(2) ne trie_child(5)[OF assms(1,2) c(1)] \<open>k \<noteq> 0\<close> assms(4)
    by (cases rest; cases "tn_tokens (h c)"; cases k) auto
  then have "candidate_child h rest c"
    using trie_child(5)[OF assms(1,2) c(1)] assms(4) by (simp add: candidate_child_def)
  then show False using best_child_unique[OF assms(1,2) c(1)] assms(3) by simp
qed

lemma find_from_match:
  fixes h :: "nat \<Rightarrow> ('k, 's) trieNode"
  assumes "trie_ok N r h" "n \<in> N" "find_from h n rest = (path, m)"
  shows "is_match h n rest path m"
  using assms(2,3)
proof (induction "length rest" arbitrary: n rest path m rule: less_induct)
  case less
  note ok = assms(1)
  have via: "\<exists>c. c \<in> set (tn_children (h n)) \<and> candidate_child h rest c \<and>
      (prefix (take k rest) (tn_tokens (h c)) \<or> (\<exists>u. take k rest = tn_tokens (h c) @ u \<and> u \<in> stored h c))"
    if k: "take k rest \<in> stored h n" "rest \<noteq> []" "k \<noteq> 0" for k
  proof -
    have ne: "take k rest \<noteq> []" using k by (cases k; cases rest) auto
    obtain c where c: "c \<in> set (tn_children (h n))"
      "prefix (take k rest) (tn_tokens (h c)) \<or> (\<exists>u. take k rest = tn_tokens (h c) @ u \<and> u \<in> stored h c)"
      using stored_cases[OF k(1) ne] by blast
    moreover have "tn_tokens (h c) \<noteq> []" using trie_child(5)[OF ok less.prems(1) c(1)] .
    moreover have "hd (tn_tokens (h c)) = hd rest"
      using c(2) k \<open>tn_tokens (h c) \<noteq> []\<close> by (cases rest; cases "tn_tokens (h c)"; cases k) auto
    ultimately show ?thesis using k(2) by (auto simp: candidate_child_def)
  qed
  show ?case
  proof (cases "rest = []")
    case True
    then show ?thesis using less.prems(2) by (simp add: find_from.simps is_match_def)
  next
    case ne: False
    show ?thesis
    proof (cases "best_child h rest (tn_children (h n)) None")
      case None
      then have pm: "path = []" "m = 0" using less.prems(2) ne by (simp_all add: find_from.simps[of h n])
      have "k = 0" if "take k rest \<in> stored h n" for k
        using via[OF that ne] best_child_unique[OF ok less.prems(1)] None by fastforce
      then show ?thesis using pm by (simp add: is_match_def)
    next
      case (Some x)
      then obtain c j full where b: "best_child h rest (tn_children (h n)) None = Some (c, j, full)" by (cases x) auto
      let ?e = "tn_tokens (h c)"
      note bc = best_child_Some[OF b]
      have c: "c \<in> set (tn_children (h n))" "candidate_child h rest c" "j = match_len ?e rest" "full = (j = length ?e)"
        using bc by (auto simp: candidate_child_def)
      have j: "0 < j" "j \<le> length rest" using best_child_progress[OF b] by auto
      have only: "d = c" if "d \<in> set (tn_children (h n))" "candidate_child h rest d" for d
        using trie_siblings[OF ok less.prems(1) that(1) c(1)] that(2) c(2) by (simp add: candidate_child_def)
      have take: "take j rest = take j ?e" using match_len_take[of ?e rest] c(3) by simp
      have edge: "k \<le> j" if "prefix (take k rest) ?e" "k \<le> length rest" for k
        using match_len_max[OF that] c(3) by simp
      show ?thesis
      proof (cases full)
        case False
        then have pm: "path = [c]" "m = j" using less.prems(2) ne b by (simp_all add: find_from.simps[of h n])
        have "k \<le> j" if k: "k \<le> length rest" "take k rest \<in> stored h n" for k
        proof (cases "k = 0")
          case False
          then have "prefix (take k rest) ?e \<or> (\<exists>u. take k rest = ?e @ u)"
            using via[OF k(2) ne] only by blast
          moreover have "\<not> (\<exists>u. take k rest = ?e @ u)"
          proof
            assume "\<exists>u. take k rest = ?e @ u"
            then have pe: "prefix ?e rest" by (metis prefixI prefix_order.trans take_is_prefix)
            then have "prefix (take (length ?e) rest) ?e" by (auto simp: prefix_def)
            then have "length ?e \<le> j" using edge prefix_length_le[OF pe] by blast
            then show False using \<open>\<not> full\<close> c(3,4) match_len_le(1)[of ?e rest] by simp
          qed
          ultimately show ?thesis using edge k(1) by blast
        qed simp
        then show ?thesis using pm c(1) j take by (simp add: is_match_def take_is_prefix)
      next
        case True
        obtain path' m' where r: "find_from h c (drop j rest) = (path', m')" by fastforce
        then have pm: "path = c # path'" "m = j + m'"
          using less.prems(2) ne b True by (simp_all add: find_from.simps[of h n])
        have rest: "rest = ?e @ drop j rest" "j = length ?e" using take True c(4) by (metis append_take_drop_id take_all_iff order_refl)+
        have cN: "c \<in> N" using trie_child(1)[OF ok less.prems(1) c(1)] .
        have IH: "is_match h c (drop j rest) path' m'" using less.hyps[OF _ cN r] j by simp
        have "k \<le> j + m'" if k: "k \<le> length rest" "take k rest \<in> stored h n" for k
        proof (cases "k = 0")
          case False
          then consider "prefix (take k rest) ?e" | u where "take k rest = ?e @ u" "u \<in> stored h c"
            using via[OF k(2) ne] only by blast
          then show ?thesis
          proof cases
            case 1
            then show ?thesis using edge k(1) by fastforce
          next
            case (2 u)
            have "length u = k - j" "j \<le> k" using arg_cong[OF 2(1), of length] k(1) rest(2) by simp_all
            moreover have "take k rest = ?e @ take (k - j) (drop j rest)"
              using rest \<open>j \<le> k\<close> by (metis take_all take_append)
            then have "u = take (k - j) (drop j rest)" using 2(1) by simp
            ultimately have "k - j \<le> m'" using IH 2(2) k(1) by (auto simp: is_match_def)
            then show ?thesis by simp
          qed
        qed simp
        moreover have "take (j + m') rest = ?e @ take m' (drop j rest)"
          using rest by (metis take_add take_all_iff append_eq_conv_conj order_refl)
        moreover have "length (along h (butlast (c # path'))) < j + m'"
          using IH j(1) rest(2) by (cases "path' = []") (auto simp: is_match_def)
        ultimately show ?thesis
          using IH c(1) pm j by (auto simp: is_match_def)
      qed
    qed
  qed
qed

section \<open>What the operations do to the links\<close>

text \<open>Snapshots and times are not links.\<close>

lemma links_upd: "links (h(n := nd)) = (links h)(n := linked.truncate nd)"
  by (simp add: links_def fun_eq_iff)

lemma truncate_links: "linked.truncate (h n) = links h n"
  by (simp add: links_def)

lemma swapSnapshots_simps [simp]:
  "links (th_heap (snd (swapSnapshots sz n ss st))) = links (th_heap st)"
  "th_next (snd (swapSnapshots sz n ss st)) = th_next st"
  "links (th_heap (setSnapshots sz n ss st)) = links (th_heap st)"
  "th_next (setSnapshots sz n ss st) = th_next st"
  by (simp_all add: setSnapshots_def swapSnapshots_def upd_node_def links_def linked.truncate_def fun_eq_iff)

definition split_links :: "nat \<Rightarrow> nat \<Rightarrow> nat \<Rightarrow> (nat \<Rightarrow> 'k linked) \<Rightarrow> nat \<Rightarrow> 'k linked" where
  "split_links np n at h =
     (let h1 = h(np := \<lparr>tn_tokens = take at (tn_tokens (h n)),
                  tn_endOffset = tn_endOffset (h n) - length (tn_tokens (h n)) + at,
                  tn_parent = tn_parent (h n), tn_children = [n]\<rparr>,
                n := (h n)\<lparr>tn_tokens := drop at (tn_tokens (h n)), tn_parent := Some np\<rparr>)
      in case tn_parent (h n) of
           None \<Rightarrow> h1
         | Some p \<Rightarrow> h1(p := (h1 p)\<lparr>tn_children := replace1 n np (tn_children (h1 p))\<rparr>))"

lemma upd_node_links:
  "(\<And>nd. linked.truncate (f nd) = g (linked.truncate nd)) \<Longrightarrow>
     links (th_heap (upd_node n f st)) = (links (th_heap st))(n := g (links (th_heap st) n))"
  by (simp add: upd_node_def links_def fun_eq_iff)

lemma upd_node_next [simp]: "th_next (upd_node n f st) = th_next st"
  by (simp add: upd_node_def)

lemma linked_updates:
  "linked.truncate (nd\<lparr>tn_tokens := ts\<rparr>) = (linked.truncate nd)\<lparr>tn_tokens := ts\<rparr>"
  "linked.truncate (nd\<lparr>tn_endOffset := e\<rparr>) = (linked.truncate nd)\<lparr>tn_endOffset := e\<rparr>"
  "linked.truncate (nd\<lparr>tn_parent := p\<rparr>) = (linked.truncate nd)\<lparr>tn_parent := p\<rparr>"
  "linked.truncate (nd\<lparr>tn_children := cs\<rparr>) = (linked.truncate nd)\<lparr>tn_children := cs\<rparr>"
  "tn_tokens (linked.truncate nd) = tn_tokens nd" "tn_children (linked.truncate nd) = tn_children nd"
  "tn_parent (linked.truncate nd) = tn_parent nd" "tn_endOffset (linked.truncate nd) = tn_endOffset nd"
  by (simp_all add: linked.truncate_def)

lemma upd_links [simp]:
  "links (th_heap (upd_node n (\<lambda>x. x\<lparr>tn_tokens := f (tn_tokens x)\<rparr>) st)) =
     (links (th_heap st))(n := (links (th_heap st) n)\<lparr>tn_tokens := f (tn_tokens (links (th_heap st) n))\<rparr>)"
  "links (th_heap (upd_node n (\<lambda>x. x\<lparr>tn_tokens := ts, tn_endOffset := e\<rparr>) st)) =
     (links (th_heap st))(n := (links (th_heap st) n)\<lparr>tn_tokens := ts, tn_endOffset := e\<rparr>)"
  "links (th_heap (upd_node n (\<lambda>x. x\<lparr>tn_parent := p\<rparr>) st)) =
     (links (th_heap st))(n := (links (th_heap st) n)\<lparr>tn_parent := p\<rparr>)"
  "links (th_heap (upd_node n (\<lambda>x. x\<lparr>tn_children := g (tn_children x)\<rparr>) st)) =
     (links (th_heap st))(n := (links (th_heap st) n)\<lparr>tn_children := g (tn_children (links (th_heap st) n))\<rparr>)"
  "links (th_heap (upd_node n (\<lambda>x. x\<lparr>tn_children := cs\<rparr>) st)) =
     (links (th_heap st))(n := (links (th_heap st) n)\<lparr>tn_children := cs\<rparr>)"
  "links (th_heap (upd_node n (\<lambda>x. x\<lparr>tn_parent := p, tn_children := cs\<rparr>) st)) =
     (links (th_heap st))(n := (links (th_heap st) n)\<lparr>tn_parent := p, tn_children := cs\<rparr>)"
  "links (th_heap (upd_node n (\<lambda>x. x\<lparr>tn_user := u, tn_lastUsed := l x\<rparr>) st)) = links (th_heap st)"
  by (simp_all add: upd_node_def links_def fun_eq_iff linked.truncate_def)

lemma split_snapshots_links:
  "split_snapshots sz caches n np st = Some st' \<Longrightarrow>
     links (th_heap st') = links (th_heap st) \<and> th_next st' = th_next st"
proof -
  assume s: "split_snapshots sz caches n np st = Some st'"
  obtain old s1 where sw: "swapSnapshots sz n [] st = (old, s1)" by fastforce
  then have "links (th_heap s1) = links (th_heap st)" "th_next s1 = th_next st"
    by (metis snd_conv swapSnapshots_simps(1), metis snd_conv swapSnapshots_simps(2))
  then show ?thesis using s sw by (auto simp: split_snapshots_def split: if_splits)
qed

lemma split_edge_links:
  "n \<noteq> th_next st \<Longrightarrow> links (th_heap (split_edge n at st)) =
     (links (th_heap st))(th_next st := \<lparr>tn_tokens = take at (tn_tokens (th_heap st n)),
          tn_endOffset = startOffset (th_heap st n) + at, tn_parent = tn_parent (th_heap st n), tn_children = [n]\<rparr>,
        n := (links (th_heap st) n)\<lparr>tn_tokens := drop at (tn_tokens (th_heap st n))\<rparr>)"
  "th_next (split_edge n at st) = Suc (th_next st)"
  by (simp_all add: split_edge_def Let_def links_upd linked.truncate_def)

lemma splitNode_links:
  assumes "splitNode sz caches n at st = Some (np, st')" "n \<noteq> th_next st"
    "tn_parent (th_heap st n) \<noteq> Some n" "tn_parent (th_heap st n) \<noteq> Some (th_next st)"
  shows "np = th_next st" "th_next st' = Suc np" "0 < at" "at < length (tn_tokens (th_heap st n))"
    "links (th_heap st') = split_links np n at (links (th_heap st))"
proof -
  obtain s1 where s1: "split_snapshots sz caches n (th_next st) (split_edge n at st) = Some s1"
    "np = th_next st" "st' = split_relink n np s1" and at: "0 < at" "at < length (tn_tokens (th_heap st n))"
    using assms(1) by (auto simp: splitNode_def split: if_splits)
  show "np = th_next st" "0 < at" "at < length (tn_tokens (th_heap st n))" using s1(2) at by simp_all
  have l: "links (th_heap s1) = links (th_heap (split_edge n at st))" "th_next s1 = Suc np"
    using split_snapshots_links[OF s1(1)] s1(2) by (simp_all add: split_edge_links(2))
  have p: "tn_parent (th_heap s1 n) = tn_parent (th_heap st n)"
  proof -
    have "links (th_heap s1) n = (links (th_heap st) n)\<lparr>tn_tokens := drop at (tn_tokens (th_heap st n))\<rparr>"
      by (simp add: l(1) split_edge_links(1)[OF assms(2)])
    then have "tn_parent (links (th_heap s1) n) = tn_parent (links (th_heap st) n)" by simp
    then show ?thesis by simp
  qed
  show "th_next st' = Suc np" using l(2) by (simp add: s1(3) split_relink_def split: option.split)
  show "links (th_heap st') = split_links np n at (links (th_heap st))"
  proof (cases "tn_parent (th_heap st n)")
    case None
    then show ?thesis
      unfolding s1(3) split_relink_def split_links_def p None option.case upd_links
      by (simp add: l(1) split_edge_links(1)[OF assms(2)] s1(2) startOffset_def Let_def None)
  next
    case (Some q)
    then have q: "q \<noteq> n" "q \<noteq> np" using assms(3,4) s1(2) by auto
    then show ?thesis
      unfolding s1(3) split_relink_def split_links_def p Some option.case upd_links
      by (simp add: l(1) split_edge_links(1)[OF assms(2)] s1(2) startOffset_def Let_def Some fun_upd_twist)
  qed
qed

section \<open>Splitting a node\<close>

lemma replace1_set: "distinct zs \<Longrightarrow> x \<in> set zs \<Longrightarrow> set (replace1 x y zs) = insert y (set zs - {x})"
  by (induction zs) auto

lemma replace1_distinct: "distinct zs \<Longrightarrow> y \<notin> set zs \<Longrightarrow> distinct (replace1 x y zs)"
proof (induction zs)
  case (Cons z zs)
  have "set (replace1 x y zs) \<subseteq> insert y (set zs)" by (induction zs) auto
  then show ?case using Cons by auto
qed simp

text \<open>The links before and after.\<close>

lemma split_links_at:
  assumes "trie_ok N r h" "n \<in> N" "n \<noteq> r" "np \<notin> N" "0 < at" "at < length (tn_tokens (h n))"
  obtains p where "p \<in> N" "p \<noteq> n" "p \<noteq> np" "n \<noteq> np" "tn_parent (h n) = Some p" "n \<in> set (tn_children (h p))"
    "tn_endOffset (h n) = tn_endOffset (h p) + length (tn_tokens (h n))"
    "split_links np n at h np = \<lparr>tn_tokens = take at (tn_tokens (h n)), tn_endOffset = tn_endOffset (h p) + at,
       tn_parent = Some p, tn_children = [n]\<rparr>"
    "split_links np n at h n = (h n)\<lparr>tn_tokens := drop at (tn_tokens (h n)), tn_parent := Some np\<rparr>"
    "split_links np n at h p = (h p)\<lparr>tn_children := replace1 n np (tn_children (h p))\<rparr>"
    "\<And>m. m \<noteq> np \<Longrightarrow> m \<noteq> n \<Longrightarrow> m \<noteq> p \<Longrightarrow> split_links np n at h m = h m"
proof -
  obtain p where p: "p \<in> N" "tn_parent (h n) = Some p" "n \<in> set (tn_children (h p))"
    "tn_endOffset (h n) = tn_endOffset (h p) + length (tn_tokens (h n))"
    using trie_ok_parts(7)[OF assms(1,2,3)] by (auto simp: edge_ok_def)
  have "p \<noteq> n" using trie_child(3)[OF assms(1) p(1,3)] by auto
  moreover have "p \<noteq> np" "n \<noteq> np" using p(1) assms(2,4) by auto
  ultimately show thesis
    using that[of p] p by (simp add: split_links_def Let_def)
qed

lemma split_trie_ok:
  assumes "trie_ok N r h" "n \<in> N" "n \<noteq> r" "np \<notin> N" "0 < at" "at < length (tn_tokens (h n))"
  shows "trie_ok (insert np N) r (split_links np n at h)"
proof -
  note ok = assms(1)
  obtain p where p: "p \<in> N" "p \<noteq> n" "p \<noteq> np" "n \<noteq> np" "tn_parent (h n) = Some p" "n \<in> set (tn_children (h p))"
    "tn_endOffset (h n) = tn_endOffset (h p) + length (tn_tokens (h n))"
    and hnp: "split_links np n at h np = \<lparr>tn_tokens = take at (tn_tokens (h n)), tn_endOffset = tn_endOffset (h p) + at,
       tn_parent = Some p, tn_children = [n]\<rparr>"
    and hn: "split_links np n at h n = (h n)\<lparr>tn_tokens := drop at (tn_tokens (h n)), tn_parent := Some np\<rparr>"
    and hp: "split_links np n at h p = (h p)\<lparr>tn_children := replace1 n np (tn_children (h p))\<rparr>"
    and hm: "\<And>m. m \<noteq> np \<Longrightarrow> m \<noteq> n \<Longrightarrow> m \<noteq> p \<Longrightarrow> split_links np n at h m = h m"
    using split_links_at[OF assms] by blast
  let ?h = "split_links np n at h" and ?N = "insert np N"
  have lp: "set (tn_children (h p)) \<subseteq> N" "distinct (tn_children (h p))"
    using trie_ok_parts(6)[OF ok p(1)] by (auto simp: links_ok_def)
  have np: "np \<notin> set (tn_children (h m))" if "m \<in> N" for m
    using trie_ok_parts(6)[OF ok that] assms(4) by (auto simp: links_ok_def)
  have ne: "m \<noteq> np" if "m \<in> N" for m using that assms(4) by auto
  have children: "tn_children (?h m) = (if m = p then replace1 n np (tn_children (h p)) else tn_children (h m))"
    if "m \<in> N" for m
    using ne[OF that] hn hp hm p by (cases "m = n"; cases "m = p") auto
  have old: "tn_parent (?h m) = tn_parent (h m)" "tn_tokens (?h m) = tn_tokens (h m)" if "m \<in> N" "m \<noteq> n" for m
    using ne[OF that(1)] that(2) hp hm by (cases "m = p"; auto)+
  have eo: "tn_endOffset (?h m) = tn_endOffset (h m)" if "m \<in> N" for m
    using ne[OF that] hp hm hn p(2) by (cases "m = p"; cases "m = n") auto
  have setp: "set (tn_children (?h p)) = insert np (set (tn_children (h p)) - {n})"
    using children[OF p(1)] replace1_set[OF lp(2) p(6)] by simp
  have n_only: "n \<notin> set (tn_children (h m))" if "m \<in> N" "m \<noteq> p" for m
    using trie_child(4)[OF ok that(1), of n] p(5) that(2) by auto
  have hdn: "hd (tn_tokens (?h np)) = hd (tn_tokens (h n))" using hnp assms(5,6) by simp
  have links: "links_ok ?N ?h m" if m: "m \<in> ?N" for m
  proof -
    consider (new) "m = np" | (parent) "m = p" | (other) "m \<in> N" "m \<noteq> p" using m by blast
    then show ?thesis
    proof cases
      case new
      then show ?thesis using hnp hn assms(2) by (simp add: links_ok_def)
    next
      case parent
      have "tn_parent (?h c) = Some p" if "c \<in> set (tn_children (?h p))" for c
        using that setp hnp old(1)[of c] trie_child(1,4)[OF ok p(1), of c] by auto
      moreover have "inj_on (\<lambda>c. hd (tn_tokens (?h c))) (set (tn_children (?h p)))"
      proof (rule inj_onI)
        fix c d assume cd: "c \<in> set (tn_children (?h p))" "d \<in> set (tn_children (?h p))"
          "hd (tn_tokens (?h c)) = hd (tn_tokens (?h d))"
        let ?o = "\<lambda>x. if x = np then n else x"
        have o: "?o x \<in> set (tn_children (h p))" "hd (tn_tokens (?h x)) = hd (tn_tokens (h (?o x)))"
          if "x \<in> set (tn_children (?h p))" for x
          using that setp hdn p(6) lp(1) old(2)[of x] by auto
        have "?o c = ?o d" using trie_siblings[OF ok p(1) o(1)[OF cd(1)] o(1)[OF cd(2)]] o(2) cd by simp
        then show "c = d" using cd(1,2) setp by (auto split: if_splits)
      qed
      moreover have "distinct (tn_children (?h p))"
        using children[OF p(1)] replace1_distinct[OF lp(2) np[OF p(1)]] by simp
      moreover have "set (tn_children (?h p)) \<subseteq> ?N" using setp lp(1) by auto
      ultimately show ?thesis using parent by (simp add: links_ok_def)
    next
      case other
      have lm: "links_ok N h m" using trie_ok_parts(6)[OF ok other(1)] .
      have c: "tn_children (?h m) = tn_children (h m)" using children other by simp
      have in_N: "x \<in> N \<and> x \<noteq> n" if "x \<in> set (tn_children (h m))" for x
        using that lm n_only[OF other] by (auto simp: links_ok_def)
      have "inj_on (\<lambda>c. hd (tn_tokens (?h c))) (set (tn_children (h m))) = inj_on (\<lambda>c. hd (tn_tokens (h c))) (set (tn_children (h m)))"
        by (rule inj_on_cong) (use in_N old(2) in simp)
      then show ?thesis using lm c in_N old(1) by (auto simp: links_ok_def)
    qed
  qed
  have edges: "edge_ok ?N ?h m" if m: "m \<in> ?N" "m \<noteq> r" for m
  proof -
    consider (new) "m = np" | (node) "m = n" | (other) "m \<in> N" "m \<noteq> n" using m by blast
    then show ?thesis
    proof cases
      case new
      have "tn_tokens (h n) \<noteq> []" using assms(6) by auto
      then show ?thesis unfolding edge_ok_def new
        using hnp p(1) setp eo[OF p(1)] assms(5,6) by (intro conjI bexI[of _ p]) auto
    next
      case node
      then show ?thesis unfolding edge_ok_def
        using hn hnp p(7) assms(5,6) by (intro conjI bexI[of _ np]) auto
    next
      case other
      obtain q where q: "q \<in> N" "tn_parent (h m) = Some q" "m \<in> set (tn_children (h q))"
        "tn_endOffset (h m) = tn_endOffset (h q) + length (tn_tokens (h m))" "tn_tokens (h m) \<noteq> []"
        using trie_ok_parts(7)[OF ok other(1) m(2)] by (auto simp: edge_ok_def)
      have "m \<in> set (tn_children (?h q))" using q(1,3) children setp other by (cases "q = p") auto
      then show ?thesis unfolding edge_ok_def
        using q old[OF other] eo[OF q(1)] eo[OF other(1)] by (intro conjI bexI[of _ q]) auto
    qed
  qed
  have "tn_tokens (?h r) = []" "tn_endOffset (?h r) = 0" "tn_parent (?h r) = None"
    using old[of r] eo[of r] trie_ok_parts(2-5)[OF ok] assms(3) by simp_all
  then show ?thesis using links edges trie_ok_parts(1,2)[OF ok] by (simp add: trie_ok_def)
qed

lemma split_stored:
  assumes "trie_ok N r h" "n \<in> N" "n \<noteq> r" "np \<notin> N" "0 < at" "at < length (tn_tokens (h n))" "m \<in> N"
  shows "stored (split_links np n at h) m = stored h m"
proof -
  note ok = assms(1)
  obtain p where p: "p \<in> N" "p \<noteq> n" "p \<noteq> np" "n \<noteq> np" "tn_parent (h n) = Some p" "n \<in> set (tn_children (h p))"
    "tn_endOffset (h n) = tn_endOffset (h p) + length (tn_tokens (h n))"
    and hnp: "split_links np n at h np = \<lparr>tn_tokens = take at (tn_tokens (h n)), tn_endOffset = tn_endOffset (h p) + at,
       tn_parent = Some p, tn_children = [n]\<rparr>"
    and hn: "split_links np n at h n = (h n)\<lparr>tn_tokens := drop at (tn_tokens (h n)), tn_parent := Some np\<rparr>"
    and hp: "split_links np n at h p = (h p)\<lparr>tn_children := replace1 n np (tn_children (h p))\<rparr>"
    and hm: "\<And>m. m \<noteq> np \<Longrightarrow> m \<noteq> n \<Longrightarrow> m \<noteq> p \<Longrightarrow> split_links np n at h m = h m"
    using split_links_at[OF assms(1-6)] by blast
  let ?h = "split_links np n at h" and ?T = "tn_tokens (h n)"
  have ne: "m \<noteq> np" if "m \<in> N" for m using that assms(4) by auto
  have tokens: "tn_tokens (?h m) = tn_tokens (h m)" if "m \<in> N" "m \<noteq> n" for m
    using ne[OF that(1)] that(2) hp hm by (cases "m = p") auto
  have children: "set (tn_children (?h m)) = (if m = p then insert np (set (tn_children (h p)) - {n}) else set (tn_children (h m)))"
    if "m \<in> N" for m
    using ne[OF that] hn hp hm p(2,6) trie_ok_parts(6)[OF ok p(1)]
    by (cases "m = n"; cases "m = p") (auto simp: replace1_set links_ok_def)
  have other_parent: "m = p" if "m \<in> N" "n \<in> set (tn_children (h m))" for m
    using trie_child(4)[OF ok that] p(5) by simp
  have to: "spelled ?h m v" if "spelled h m v" "m \<in> N" for m v
    using that
  proof (induction rule: spelled.induct)
    case (down c m v)
    have cN: "c \<in> N" using trie_child(1)[OF ok down.prems down.hyps(1)] .
    note IH = down.IH[OF cN]
    show ?case
    proof (cases "c = n")
      case True
      then have m: "m = p" using other_parent down by blast
      have "spelled ?h np (tn_tokens (?h n) @ v)"
        using spelled.down[of n ?h np v] hnp IH True by simp
      then have "spelled ?h p (tn_tokens (?h np) @ tn_tokens (?h n) @ v)"
        using spelled.down[of np ?h p "tn_tokens (?h n) @ v"] children[OF p(1)] by simp
      then show ?thesis using hnp hn True m by (simp flip: append_assoc)
    next
      case False
      then have "spelled ?h m (tn_tokens (?h c) @ v)"
        using spelled.down[of c ?h m v] children[OF down.prems] down.hyps(1) IH False by (simp split: if_splits)
      then show ?thesis using tokens[OF cN False] by simp
    qed
  qed (rule spelled.here)
  have below: "(m \<in> N \<longrightarrow> v \<in> stored h m) \<and> (m = np \<longrightarrow> take at ?T @ v \<in> stored h p)" if "spelled ?h m v" for m v
    using that
  proof (induction rule: spelled.induct)
    case (here m)
    have "take at ?T \<in> stored h p" by (rule stored_edge[where c = n]) (simp_all add: p(6) take_is_prefix)
    then show ?case by simp
  next
    case (down c m v)
    show ?case
    proof (cases "m = np")
      case True
      then have "c = n" using down.hyps(1) hnp by simp
      then have "?T @ v \<in> stored h p" using down.IH assms(2) stored_down[where c = n and h = h and n = p] p(6) by simp
      then show ?thesis using True \<open>c = n\<close> hn ne by (auto simp flip: append_assoc)
    next
      case False
      have "tn_tokens (?h c) @ v \<in> stored h m" if m: "m \<in> N"
      proof (cases "c = np")
        case True
        then have "m = p" using down.hyps(1) children[OF m] trie_child(1)[OF ok m, of np] assms(4)
          by (auto split: if_splits)
        then show ?thesis using True down.IH hnp by simp
      next
        case c: False
        then have "c \<in> set (tn_children (h m))" "c \<noteq> n"
          using down.hyps(1) children[OF m] other_parent[OF m] by (auto split: if_splits)
        then show ?thesis
          using stored_down[of c h m v] trie_child(1)[OF ok m, of c] down.IH tokens[of c] by simp
      qed
      then show ?thesis using False by simp
    qed
  qed
  show ?thesis
  proof (intro set_eqI iffI)
    fix w assume "w \<in> stored ?h m"
    then obtain v where "spelled ?h m v" "prefix w v" by (auto simp: stored_def)
    then show "w \<in> stored h m" using below[of m v] assms(7) stored_prefix by blast
  next
    fix w assume "w \<in> stored h m"
    then show "w \<in> stored ?h m" using to assms(7) by (auto simp: stored_def)
  qed
qed

section \<open>Appending and removing a leaf\<close>

lemma appendChild_links:
  "appendChild n ts e st = (c, st') \<Longrightarrow> n \<noteq> th_next st \<Longrightarrow>
     c = th_next st \<and> th_next st' = Suc c \<and>
     links (th_heap st') = (links (th_heap st))
       (c := \<lparr>tn_tokens = ts, tn_endOffset = e, tn_parent = Some n, tn_children = []\<rparr>,
        n := (links (th_heap st) n)\<lparr>tn_children := tn_children (links (th_heap st) n) @ [c]\<rparr>)"
  by (auto simp: appendChild_def Let_def upd_node_def links_def linked.truncate_def fun_eq_iff)

definition append_links :: "nat \<Rightarrow> nat \<Rightarrow> 'k list \<Rightarrow> (nat \<Rightarrow> 'k linked) \<Rightarrow> nat \<Rightarrow> 'k linked" where
  "append_links c n ts h =
     h(c := \<lparr>tn_tokens = ts, tn_endOffset = tn_endOffset (h n) + length ts, tn_parent = Some n, tn_children = []\<rparr>,
       n := (h n)\<lparr>tn_children := tn_children (h n) @ [c]\<rparr>)"

lemma append_trie_ok:
  assumes "trie_ok N r h" "n \<in> N" "c \<notin> N" "ts \<noteq> []" "\<forall>d\<in>set (tn_children (h n)). hd (tn_tokens (h d)) \<noteq> hd ts"
  shows "trie_ok (insert c N) r (append_links c n ts h)"
proof -
  note ok = assms(1)
  let ?h = "append_links c n ts h"
  have cn: "c \<noteq> n" using assms(2,3) by auto
  have ne: "m \<noteq> c" if "m \<in> N" for m using that assms(3) by auto
  have hc: "?h c = \<lparr>tn_tokens = ts, tn_endOffset = tn_endOffset (h n) + length ts, tn_parent = Some n, tn_children = []\<rparr>"
    using cn by (simp add: append_links_def)
  have old: "tn_parent (?h m) = tn_parent (h m)" "tn_tokens (?h m) = tn_tokens (h m)"
    "tn_endOffset (?h m) = tn_endOffset (h m)"
    "tn_children (?h m) = (if m = n then tn_children (h n) @ [c] else tn_children (h m))" if "m \<in> N" for m
    using ne[OF that] by (auto simp: append_links_def)
  have links: "links_ok (insert c N) ?h m" if m: "m \<in> insert c N" for m
  proof (cases "m = c")
    case True
    then show ?thesis using hc by (simp add: links_ok_def)
  next
    case False
    then have m: "m \<in> N" using m by simp
    note lm = trie_ok_parts(6)[OF ok m]
    have sub: "x \<in> N" if "x \<in> set (tn_children (h m))" for x using that lm by (auto simp: links_ok_def)
    have inj: "inj_on (\<lambda>c. hd (tn_tokens (?h c))) (set (tn_children (h m)))"
      using lm sub old(2) by (auto simp: links_ok_def inj_on_def)
    show ?thesis
    proof (cases "m = n")
      case True
      have "hd (tn_tokens (?h c)) \<notin> (\<lambda>c. hd (tn_tokens (?h c))) ` (set (tn_children (h n)))"
        using assms(5) hc old(2) sub True by auto
      then have "inj_on (\<lambda>c. hd (tn_tokens (?h c))) (set (tn_children (?h n)))"
        using inj old(4)[OF assms(2)] True assms(3) sub by (auto simp: inj_on_insert)
      then show ?thesis using True lm old m hc sub assms(3) by (auto simp: links_ok_def)
    next
      case False
      then show ?thesis using lm old m inj sub by (auto simp: links_ok_def)
    qed
  qed
  have edges: "edge_ok (insert c N) ?h m" if m: "m \<in> insert c N" "m \<noteq> r" for m
  proof (cases "m = c")
    case True
    then show ?thesis using hc old[OF assms(2)] assms(2,4) by (auto simp: edge_ok_def)
  next
    case False
    then have mN: "m \<in> N" using m by simp
    obtain q where q: "q \<in> N" "tn_parent (h m) = Some q" "m \<in> set (tn_children (h q))"
      "tn_endOffset (h m) = tn_endOffset (h q) + length (tn_tokens (h m))" "tn_tokens (h m) \<noteq> []"
      using trie_ok_parts(7)[OF ok mN m(2)] by (auto simp: edge_ok_def)
    then show ?thesis unfolding edge_ok_def
      using old[OF mN] old[OF q(1)] by (intro conjI bexI[of _ q]) auto
  qed
  show ?thesis
    using links edges trie_ok_parts(1-5)[OF ok] old[OF trie_ok_parts(2)[OF ok]] by (simp add: trie_ok_def)
qed

lemma walk_unique:
  assumes "trie_ok N r h" "n \<in> N"
  shows "walk h n p \<Longrightarrow> walk h n q \<Longrightarrow> last (n # p) = last (n # q) \<Longrightarrow> p = q"
proof (induction p arbitrary: q rule: rev_induct)
  case Nil
  then have "length (along h q) = 0" using walk_endOffset[OF assms Nil(2)] by simp
  then show ?case
    using Nil(2) trie_child(5)[OF assms] by (cases q) auto
next
  case (snoc c p)
  have "q \<noteq> []"
  proof
    assume "q = []"
    then have "length (along h (p @ [c])) = 0" using walk_endOffset[OF assms snoc.prems(1)] snoc.prems(3) by simp
    moreover have "last (n # p) \<in> N" using walk_last[OF assms, of p] snoc.prems(1) by (simp add: walk_append)
    then have "tn_tokens (h c) \<noteq> []" using trie_child(5)[OF assms(1)] snoc.prems(1) by (auto simp: walk_append)
    ultimately show False by simp
  qed
  then obtain q' d where q: "q = q' @ [d]" by (metis rev_exhaust)
  have inN: "last (n # p) \<in> N" "last (n # q') \<in> N"
    using walk_last[OF assms, of p] walk_last[OF assms, of q'] snoc.prems(1,2) q by (simp_all add: walk_append)
  have cd: "c = d" using snoc.prems(3) q by simp
  have "c \<in> set (tn_children (h (last (n # p))))" "d \<in> set (tn_children (h (last (n # q'))))"
    using snoc.prems(1,2) q by (auto simp: walk_append)
  then have "last (n # p) = last (n # q')"
    using trie_child(4)[OF assms(1) inN(1), of c] trie_child(4)[OF assms(1) inN(2), of d] cd by simp
  then show ?case using snoc.IH[of q'] snoc.prems(1,2) q cd by (simp add: walk_append)
qed

lemma append_stored:
  assumes "trie_ok N r h" "n \<in> N" "c \<notin> N" "m \<in> N" "walk h m path" "last (m # path) = n"
  shows "stored (append_links c n ts h) m = stored h m \<union> {u. prefix u (along h path @ ts)}"
proof -
  note ok = assms(1)
  let ?h = "append_links c n ts h"
  have cn: "c \<noteq> n" using assms(2,3) by auto
  have ne: "m \<noteq> c" if "m \<in> N" for m using that assms(3) by auto
  have hc: "tn_tokens (?h c) = ts" "tn_children (?h c) = []" using cn by (simp_all add: append_links_def)
  have old: "tn_tokens (?h m) = tn_tokens (h m)"
    "tn_children (?h m) = (if m = n then tn_children (h n) @ [c] else tn_children (h m))" if "m \<in> N" for m
    using ne[OF that] by (auto simp: append_links_def)
  have up: "spelled ?h m v" if "spelled h m v" "m \<in> N" for m v
    using that
  proof (induction rule: spelled.induct)
    case (down d m v)
    have "d \<in> N" using trie_child(1)[OF ok down.prems down.hyps(1)] .
    moreover have "d \<in> set (tn_children (?h m))"
      using old(2)[OF down.prems] down.hyps(1) by (cases "m = n") simp_all
    ultimately show ?case using spelled.down[of d ?h m v] down.IH old(1)[of d] by simp
  qed (rule spelled.here)
  have walk_up: "walk ?h m p \<and> along ?h p = along h p" if "walk h m p" "m \<in> N" for m p
    using that
  proof (induction p arbitrary: m)
    case (Cons d p)
    have "d \<in> N" using trie_child(1)[OF ok Cons.prems(2), of d] Cons.prems(1) by simp
    then show ?case using Cons.IH[of d] Cons.prems old[of d] old[OF Cons.prems(2)] by auto
  qed simp
  have below: "v \<in> stored h m \<or> (\<exists>p. walk h m p \<and> last (m # p) = n \<and> v = along h p @ ts)"
    if "spelled ?h m v" "m \<in> N" for m v
    using that
  proof (induction rule: spelled.induct)
    case (down d m v)
    show ?case
    proof (cases "d = c")
      case True
      then have "m = n" using down.hyps(1) old(2)[OF down.prems] trie_child(1)[OF ok down.prems, of c] assms(3)
        by (auto split: if_splits)
      moreover have "v = []" using down.hyps(2) True hc(2) by (cases rule: spelled.cases) auto
      ultimately show ?thesis using True hc(1) by (intro disjI2 exI[of _ "[]"]) simp
    next
      case False
      then have d: "d \<in> set (tn_children (h m))" using down.hyps(1) old(2)[OF down.prems] by (auto split: if_splits)
      have dN: "d \<in> N" using trie_child(1)[OF ok down.prems d] .
      consider "v \<in> stored h d" | p where "walk h d p" "last (d # p) = n" "v = along h p @ ts"
        using down.IH[OF dN] by blast
      then show ?thesis
      proof cases
        case 1
        then show ?thesis using stored_down[of d h m v] d old(1)[OF dN] by simp
      next
        case (2 p)
        then show ?thesis using d old(1)[OF dN] by (intro disjI2 exI[of _ "d # p"]) simp
      qed
    qed
  qed simp
  show ?thesis
  proof (intro set_eqI iffI)
    fix w assume "w \<in> stored ?h m"
    then obtain v where v: "spelled ?h m v" "prefix w v" by (auto simp: stored_def)
    from below[OF v(1) assms(4)] show "w \<in> stored h m \<union> {u. prefix u (along h path @ ts)}"
      using v(2) stored_prefix walk_unique[OF ok assms(4) _ assms(5)] assms(6) by fastforce
  next
    fix w assume "w \<in> stored h m \<union> {u. prefix u (along h path @ ts)}"
    then consider "w \<in> stored h m" | "prefix w (along h path @ ts)" by blast
    then show "w \<in> stored ?h m"
    proof cases
      case 1
      then show ?thesis using up assms(4) by (auto simp: stored_def)
    next
      case 2
      have "walk ?h m (path @ [c])" "along ?h (path @ [c]) = along h path @ ts"
        using walk_up[OF assms(5,4)] assms(6) old(2)[OF assms(2)] hc(1) by (simp_all add: walk_append)
      then show ?thesis using walk_stored stored_prefix 2 by metis
    qed
  qed
qed

text \<open>Removing a leaf.\<close>

definition remove_links :: "nat \<Rightarrow> nat \<Rightarrow> (nat \<Rightarrow> 'k linked) \<Rightarrow> nat \<Rightarrow> 'k linked" where
  "remove_links n p h =
     (let h1 = h(p := (h p)\<lparr>tn_children := remove1 n (tn_children (h p))\<rparr>)
      in h1(n := (h1 n)\<lparr>tn_parent := None\<rparr>))"

lemma removeNode_links:
  assumes "removeNode sz n st = Some st'"
  obtains p where "tn_parent (th_heap st n) = Some p" "tn_children (th_heap st n) = []"
    "links (th_heap st') = remove_links n p (links (th_heap st))" "th_next st' = th_next st"
proof -
  obtain p where "tn_parent (th_heap st n) = Some p" "tn_children (th_heap st n) = []"
    "st' = setSnapshots sz n [] (upd_node n (\<lambda>x. x\<lparr>tn_parent := None\<rparr>)
       (upd_node p (\<lambda>x. x\<lparr>tn_children := remove1 n (tn_children x)\<rparr>) st))"
    using assms by (auto simp: removeNode_def split: option.splits if_splits)
  then show thesis using that[of p] by (simp add: remove_links_def Let_def)
qed

lemma remove_trie_ok:
  assumes "trie_ok N r h" "n \<in> N" "tn_parent (h n) = Some p" "tn_children (h n) = []"
  shows "trie_ok (N - {n}) r (remove_links n p h)"
proof -
  note ok = assms(1)
  let ?h = "remove_links n p h"
  have nr: "n \<noteq> r" using trie_ok_parts(5)[OF ok] assms(3) by auto
  have p: "p \<in> N" "n \<in> set (tn_children (h p))" using trie_ok_parts(7)[OF ok assms(2) nr] assms(3) by (auto simp: edge_ok_def)
  have pn: "p \<noteq> n" using trie_child(3)[OF ok p] by auto
  have old: "tn_parent (?h m) = tn_parent (h m)" "tn_tokens (?h m) = tn_tokens (h m)"
    "tn_endOffset (?h m) = tn_endOffset (h m)"
    "tn_children (?h m) = (if m = p then remove1 n (tn_children (h p)) else tn_children (h m))" if "m \<noteq> n" for m
    using that by (auto simp: remove_links_def Let_def)
  have n_only: "n \<notin> set (tn_children (h m))" if "m \<in> N" "m \<noteq> p" for m
    using trie_child(4)[OF ok that(1), of n] assms(3) that(2) by auto
  have chs: "set (tn_children (?h m)) = set (tn_children (h m)) - {n}" "distinct (tn_children (?h m))"
    if "m \<in> N" "m \<noteq> n" for m
    using old(4)[OF that(2)] trie_ok_parts(6)[OF ok that(1)] n_only[OF that(1)] by (auto simp: links_ok_def)
  have links: "links_ok (N - {n}) ?h m" if m: "m \<in> N - {n}" for m
  proof -
    have lm: "links_ok N h m" using trie_ok_parts(6)[OF ok] m by simp
    have "inj_on (\<lambda>c. hd (tn_tokens (?h c))) (set (tn_children (h m)) - {n})"
      using lm old(2) by (auto simp: links_ok_def inj_on_def)
    then show ?thesis using lm chs[of m] m old(1) by (auto simp: links_ok_def)
  qed
  have edges: "edge_ok (N - {n}) ?h m" if m: "m \<in> N - {n}" "m \<noteq> r" for m
  proof -
    obtain q where q: "q \<in> N" "tn_parent (h m) = Some q" "m \<in> set (tn_children (h q))"
      "tn_endOffset (h m) = tn_endOffset (h q) + length (tn_tokens (h m))" "tn_tokens (h m) \<noteq> []"
      using trie_ok_parts(7)[OF ok, of m] m by (auto simp: edge_ok_def)
    have "q \<noteq> n" using q(3) assms(4) by auto
    then show ?thesis unfolding edge_ok_def
      using q old[of m] old[of q] chs(1)[of q] m by (intro conjI bexI[of _ q]) auto
  qed
  show ?thesis
    using links edges trie_ok_parts(1-5)[OF ok] old[of r] nr by (simp add: trie_ok_def)
qed

section \<open>Merging a node with its only child\<close>

definition merge_links :: "nat \<Rightarrow> nat \<Rightarrow> (nat \<Rightarrow> 'k linked) \<Rightarrow> nat \<Rightarrow> 'k linked" where
  "merge_links n c h m =
     (if m = c then (h c)\<lparr>tn_parent := None, tn_children := []\<rparr>
      else if m = n then
        \<lparr>tn_tokens = tn_tokens (h n) @ tn_tokens (h c), tn_endOffset = tn_endOffset (h c),
         tn_parent = tn_parent (h n), tn_children = tn_children (h c)\<rparr>
      else if m \<in> set (tn_children (h c)) then (h m)\<lparr>tn_parent := Some n\<rparr>
      else h m)"

lemma merge_snapshots_links:
  assumes "merge_snapshots sz caches n c st = Some st'"
  shows "links (th_heap st') = links (th_heap st) \<and> th_next st' = th_next st"
proof -
  obtain ns s1 where 1: "swapSnapshots sz n [] st = (ns, s1)" by fastforce
  obtain cs s2 where 2: "swapSnapshots sz c [] s1 = (cs, s2)" by fastforce
  have "links (th_heap s1) = links (th_heap st)" "th_next s1 = th_next st"
    "links (th_heap s2) = links (th_heap s1)" "th_next s2 = th_next s1"
    using swapSnapshots_simps(1,2)[of sz n "[]" st] swapSnapshots_simps(1,2)[of sz c "[]" s1] 1 2 by simp_all
  then show ?thesis using assms 1 2 by (auto simp: merge_snapshots_def split: if_splits)
qed

lemma adopt_links:
  "links (th_heap (adopt n gcs st)) =
     (\<lambda>m. if m \<in> set gcs then (links (th_heap st) m)\<lparr>tn_parent := Some n\<rparr> else links (th_heap st) m)"
  "th_next (adopt n gcs st) = th_next st"
  by (induction gcs arbitrary: st) (auto simp: fun_eq_iff)

lemma mergeWithChild_links:
  assumes "mergeWithChild sz caches n st = Some st'" "trie_ok N r (links (th_heap st))" "n \<in> N"
  obtains c where "tn_children (th_heap st n) = [c]" "links (th_heap st') = merge_links n c (links (th_heap st))"
    "th_next st' = th_next st"
proof -
  note ok = assms(2)
  let ?h = "links (th_heap st)"
  obtain c where c: "tn_children (th_heap st n) = [c]"
    using assms(1) by (auto simp: mergeWithChild_def split: list.splits)
  let ?s1 = "upd_node n (\<lambda>x. x\<lparr>tn_tokens := tn_tokens x @ tn_tokens (th_heap st c), tn_endOffset := tn_endOffset (th_heap st c)\<rparr>) st"
  obtain s2 where s2: "merge_snapshots sz caches n c ?s1 = Some s2"
    "st' = upd_node c (\<lambda>x. x\<lparr>tn_parent := None, tn_children := []\<rparr>)
       (upd_node n (\<lambda>x. x\<lparr>tn_user := tn_user (th_heap st c), tn_lastUsed := max (tn_lastUsed x) (tn_lastUsed (th_heap st c))\<rparr>)
         (adopt n (tn_children (th_heap st c)) (upd_node n (\<lambda>x. x\<lparr>tn_children := tn_children (th_heap st c)\<rparr>) s2)))"
    using assms(1) c by (auto simp: mergeWithChild_def Let_def split: option.splits)
  have cn: "c \<in> set (tn_children (?h n))" using c by simp
  note child = trie_child[OF ok assms(3) cn]
  have gc: "n \<notin> set (tn_children (?h c))" "c \<notin> set (tn_children (?h c))"
    using trie_grandchild[OF ok assms(3) cn] by simp_all
  have l1: "links (th_heap ?s1) = ?h(n := (?h n)\<lparr>tn_tokens := tn_tokens (?h n) @ tn_tokens (?h c), tn_endOffset := tn_endOffset (?h c)\<rparr>)"
    by (simp add: upd_node_def links_def fun_eq_iff linked.truncate_def)
  have l2: "links (th_heap s2) = links (th_heap ?s1)" "th_next s2 = th_next ?s1"
    using merge_snapshots_links[OF s2(1)] by simp_all
  have "links (th_heap st') = merge_links n c ?h"
    unfolding s2(2) upd_links adopt_links l2(1) l1
    using child(3) gc by (auto simp: merge_links_def fun_eq_iff)
  moreover have "th_next st' = th_next st" using l2(2) by (simp add: s2(2) adopt_links)
  ultimately show thesis using that c by blast
qed

lemma merge_trie_ok:
  assumes "trie_ok N r h" "n \<in> N" "n \<noteq> r" "tn_children (h n) = [c]"
  shows "trie_ok (N - {c}) r (merge_links n c h)"
proof -
  note ok = assms(1)
  let ?h = "merge_links n c h"
  have cn: "c \<in> set (tn_children (h n))" using assms(4) by simp
  note child = trie_child[OF ok assms(2) cn]
  have gc: "n \<notin> set (tn_children (h c))" "c \<notin> set (tn_children (h c))"
    using trie_grandchild[OF ok assms(2) cn] by simp_all
  have hn: "?h n = \<lparr>tn_tokens = tn_tokens (h n) @ tn_tokens (h c), tn_endOffset = tn_endOffset (h c),
         tn_parent = tn_parent (h n), tn_children = tn_children (h c)\<rparr>"
    using child(3) by (simp add: merge_links_def)
  have old: "tn_tokens (?h m) = tn_tokens (h m)" "tn_endOffset (?h m) = tn_endOffset (h m)"
    "tn_children (?h m) = tn_children (h m)"
    "tn_parent (?h m) = (if m \<in> set (tn_children (h c)) then Some n else tn_parent (h m))"
    if "m \<noteq> c" "m \<noteq> n" for m
    using that by (auto simp: merge_links_def)
  have ne: "tn_tokens (h n) \<noteq> []" using trie_ok_parts(7)[OF ok assms(2,3)] by (simp add: edge_ok_def)
  have hd: "hd (tn_tokens (?h m)) = hd (tn_tokens (h m))" if "m \<noteq> c" for m
    using old(1)[OF that] hn ne by (cases "m = n") auto
  have c_only: "c \<notin> set (tn_children (h m))" if "m \<in> N" "m \<noteq> n" for m
    using trie_child(4)[OF ok that(1), of c] child(4) that(2) by auto
  have links: "links_ok (N - {c}) ?h m" if m: "m \<in> N - {c}" for m
  proof (cases "m = n")
    case True
    have lc: "links_ok N h c" using trie_ok_parts(6)[OF ok child(1)] .
    have "inj_on (\<lambda>c. hd (tn_tokens (?h c))) (set (tn_children (h c))) = inj_on (\<lambda>c. hd (tn_tokens (h c))) (set (tn_children (h c)))"
      by (rule inj_on_cong) (use hd gc(2) in metis)
    moreover have "tn_parent (?h x) = Some n" if "x \<in> set (tn_children (h c))" for x
      using old(4)[of x] that gc by auto
    ultimately show ?thesis using True lc hn gc(2) by (auto simp: links_ok_def)
  next
    case False
    have lm: "links_ok N h m" using trie_ok_parts(6)[OF ok] m by simp
    have cs: "tn_children (?h m) = tn_children (h m)" using old(3)[of m] m False by simp
    have "inj_on (\<lambda>c. hd (tn_tokens (?h c))) (set (tn_children (h m))) = inj_on (\<lambda>c. hd (tn_tokens (h c))) (set (tn_children (h m)))"
      by (rule inj_on_cong) (use hd c_only[of m] m False in \<open>metis DiffD1\<close>)
    moreover have "tn_parent (?h x) = Some m" if x: "x \<in> set (tn_children (h m))" for x
    proof -
      have "x \<noteq> c" using c_only[of m] m False x by auto
      moreover have px: "tn_parent (h x) = Some m" using lm x by (auto simp: links_ok_def)
      moreover have "x \<notin> set (tn_children (h c))" using trie_child(4)[OF ok child(1), of x] px m by auto
      ultimately show ?thesis using old(4)[of x] hn by (cases "x = n") auto
    qed
    ultimately show ?thesis using lm cs c_only[of m] m False by (auto simp: links_ok_def)
  qed
  have edges: "edge_ok (N - {c}) ?h m" if m: "m \<in> N - {c}" "m \<noteq> r" for m
  proof -
    obtain q where q: "q \<in> N" "tn_parent (h m) = Some q" "m \<in> set (tn_children (h q))"
      "tn_endOffset (h m) = tn_endOffset (h q) + length (tn_tokens (h m))" "tn_tokens (h m) \<noteq> []"
      using trie_ok_parts(7)[OF ok, of m] m by (auto simp: edge_ok_def)
    show ?thesis
    proof (cases "q = c")
      case True
      then have "m \<noteq> n" using q(3) gc by auto
      then show ?thesis unfolding edge_ok_def
        using q True old[of m] m hn child(3) assms(2) by (intro conjI bexI[of _ n]) auto
    next
      case False
      have mc: "m \<notin> set (tn_children (h c))"
        using trie_child(4)[OF ok child(1), of m] q(2) False by auto
      have qn: "q \<noteq> n" using q(3) assms(4) m by auto
      have "tn_parent (?h m) = Some q" "tn_tokens (?h m) \<noteq> []"
        using old[of m] hn q(2,5) mc m by (cases "m = n"; auto)+
      moreover have "tn_endOffset (?h m) = tn_endOffset (?h q) + length (tn_tokens (?h m))"
        using old[of m] old[of q] hn q(4) child(6) m False qn by (cases "m = n") auto
      moreover have "m \<in> set (tn_children (?h q))" using old(3)[OF False qn] q(3) by simp
      ultimately show ?thesis unfolding edge_ok_def using q(1) False by auto
    qed
  qed
  have "r \<noteq> c" "r \<notin> set (tn_children (h c))" using child(2) trie_child(2)[OF ok child(1)] by auto
  then show ?thesis
    using links edges trie_ok_parts(1-5)[OF ok] old[of r] assms(3) by (simp add: trie_ok_def)
qed

lemma merge_stored:
  assumes "trie_ok N r h" "n \<in> N" "n \<noteq> r" "tn_children (h n) = [c]" "m \<in> N" "m \<noteq> n" "m \<noteq> c"
  shows "stored (merge_links n c h) m = stored h m"
proof -
  note ok = assms(1)
  let ?h = "merge_links n c h"
  have cn: "c \<in> set (tn_children (h n))" using assms(4) by simp
  note child = trie_child[OF ok assms(2) cn]
  have gc: "n \<notin> set (tn_children (h c))" "c \<notin> set (tn_children (h c))"
    using trie_grandchild[OF ok assms(2) cn] by simp_all
  have hn: "tn_tokens (?h n) = tn_tokens (h n) @ tn_tokens (h c)" "tn_children (?h n) = tn_children (h c)"
    using child(3) by (simp_all add: merge_links_def)
  have old: "tn_tokens (?h m) = tn_tokens (h m)" "tn_children (?h m) = tn_children (h m)"
    if "m \<noteq> c" "m \<noteq> n" for m
    using that by (auto simp: merge_links_def)
  have c_only: "c \<notin> set (tn_children (h m))" if "m \<in> N" "m \<noteq> n" for m
    using trie_child(4)[OF ok that(1), of c] child(4) that(2) by auto
  text \<open>A path of the old trie that does not end in the merged child is a path of the new one.\<close>
  have up: "(m \<noteq> n \<and> m \<noteq> c \<longrightarrow> v \<in> stored ?h m) \<and> (m = n \<longrightarrow> (\<forall>p. n \<in> set (tn_children (?h p)) \<longrightarrow> tn_tokens (h n) @ v \<in> stored ?h p))
      \<and> (m = c \<longrightarrow> v \<in> stored ?h n)" if "spelled h m v" "m \<in> N" for m v
    using that
  proof (induction rule: spelled.induct)
    case (here m)
    have "tn_tokens (h n) \<in> stored ?h p" if "n \<in> set (tn_children (?h p))" for p
      by (rule stored_edge[where c = n]) (simp_all add: hn that)
    then show ?case by simp
  next
    case (down d m v)
    have dN: "d \<in> N" "d \<noteq> m" "d \<noteq> r" using trie_child(1,2,3)[OF ok down.prems down.hyps(1)] by auto
    note IH = down.IH[OF dN(1)]
    consider (n) "m = n" | (c) "m = c" | (other) "m \<noteq> n" "m \<noteq> c" by blast
    then show ?case
    proof cases
      case n
      then have "d = c" using down.hyps(1) assms(4) by simp
      then have "v \<in> stored ?h n" using IH by simp
      then have "tn_tokens (h n) @ tn_tokens (h d) @ v \<in> stored ?h p" if "n \<in> set (tn_children (?h p))" for p
        using stored_down[of n ?h p v] that hn(1) \<open>d = c\<close> by simp
      then show ?thesis using n child(3) by simp
    next
      case c
      then have "d \<noteq> n" "d \<noteq> c" using down.hyps(1) gc by auto
      then have "tn_tokens (h d) @ v \<in> stored ?h n"
        using stored_down[of d ?h n v] down.hyps(1) c hn(2) old(1)[of d] IH by simp
      then show ?thesis using c child(3) by simp
    next
      case other
      have dc: "d \<noteq> c" using c_only[OF down.prems other(1)] down.hyps(1) by auto
      have d: "d \<in> set (tn_children (?h m))" using down.hyps(1) old(2)[OF other(2,1)] by simp
      have "tn_tokens (h d) @ v \<in> stored ?h m"
      proof (cases "d = n")
        case True
        then show ?thesis using IH d by simp
      next
        case False
        then show ?thesis using stored_down[of d ?h m v] d old(1)[OF dc False] IH dc by simp
      qed
      then show ?thesis using other by simp
    qed
  qed
  have below: "(m \<noteq> n \<longrightarrow> v \<in> stored h m) \<and> (m = n \<longrightarrow> v \<in> stored h c)" if "spelled ?h m v" "m \<in> N" "m \<noteq> c" for m v
    using that
  proof (induction rule: spelled.induct)
    case (down d m v)
    show ?case
    proof (cases "m = n")
      case True
      then have d: "d \<in> set (tn_children (h c))" using down.hyps(1) hn(2) by simp
      have dd: "d \<in> N" "d \<noteq> c" "d \<noteq> n" using trie_child(1)[OF ok child(1) d] d gc by auto
      then have "tn_tokens (?h d) @ v \<in> stored h c"
        using stored_down[of d h c v] d down.IH old(1)[of d] by simp
      then show ?thesis using True by simp
    next
      case False
      then have d: "d \<in> set (tn_children (h m))" using down.hyps(1) old(2)[of m] down.prems by simp
      have dd: "d \<in> N" "d \<noteq> c" using trie_child(1)[OF ok down.prems(1) d] d c_only[OF down.prems(1) False] by auto
      have "tn_tokens (?h d) @ v \<in> stored h m"
      proof (cases "d = n")
        case True
        then have "v \<in> stored h c" using down.IH[OF dd] by simp
        then have "tn_tokens (h c) @ v \<in> stored h n" using stored_down[of c h n v] cn by simp
        then show ?thesis using stored_down[of n h m "tn_tokens (h c) @ v"] d True hn(1) by simp
      next
        case False
        then show ?thesis using stored_down[of d h m v] d dd down.IH old(1)[of d] by simp
      qed
      then show ?thesis using False by simp
    qed
  qed simp
  show ?thesis
  proof (intro set_eqI iffI)
    fix w assume "w \<in> stored ?h m"
    then obtain v where "spelled ?h m v" "prefix w v" by (auto simp: stored_def)
    then show "w \<in> stored h m" using below[of m v] assms(5-7) stored_prefix by blast
  next
    fix w assume "w \<in> stored h m"
    then obtain v where "spelled h m v" "prefix w v" by (auto simp: stored_def)
    then show "w \<in> stored ?h m" using up[of m v] assms(5-7) stored_prefix by blast
  qed
qed

section \<open>The snapshots\<close>

text \<open>
  The rest of the invariant: pointers in use are below the next one, a node has no snapshots or one
  slot for each of the \<open>K\<close> layers, and the counter is the total size of the snapshots in the trie.
\<close>

definition total_bytes :: "('s \<Rightarrow> int) \<Rightarrow> nat set \<Rightarrow> ('k, 's) trie \<Rightarrow> int" where
  "total_bytes sz N st = (\<Sum>n\<in>N. snapshotBytes sz (th_heap st n))"

definition snaps_ok :: "nat \<Rightarrow> nat set \<Rightarrow> ('k, 's) trie \<Rightarrow> bool" where
  "snaps_ok K N st \<longleftrightarrow> (\<forall>n\<in>N. tn_snapshots (th_heap st n) = [] \<or> length (tn_snapshots (th_heap st n)) = K)"

definition trie_state :: "('s \<Rightarrow> int) \<Rightarrow> nat \<Rightarrow> nat set \<Rightarrow> nat \<Rightarrow> ('k, 's) trie \<Rightarrow> bool" where
  "trie_state sz K N r st \<longleftrightarrow> trie_ok N r (th_heap st) \<and> (\<forall>n\<in>N. n < th_next st) \<and> snaps_ok K N st \<and>
     th_paged st = total_bytes sz N st"

text \<open>What a change of the snapshots of one node does to the counter and the total.\<close>

lemma swapSnapshots_heap:
  "swapSnapshots sz n ss st = (old, st') \<Longrightarrow>
     old = tn_snapshots (th_heap st n) \<and> th_paged st' = th_paged st - snapshotBytes sz (th_heap st n) + snaps_bytes sz ss
     \<and> th_next st' = th_next st
     \<and> th_heap st' = (th_heap st)(n := (th_heap st n)\<lparr>tn_snapshots := ss\<rparr>)"
  by (auto simp: swapSnapshots_def upd_node_def)

lemma setSnapshots_heap:
  "th_paged (setSnapshots sz n ss st) = th_paged st - snapshotBytes sz (th_heap st n) + snaps_bytes sz ss"
  "th_heap (setSnapshots sz n ss st) = (th_heap st)(n := (th_heap st n)\<lparr>tn_snapshots := ss\<rparr>)"
  by (simp_all add: setSnapshots_def swapSnapshots_def upd_node_def)

text \<open>The counter is right for a set of nodes; the snapshots are the last of the fields to change.\<close>

definition counted :: "('s \<Rightarrow> int) \<Rightarrow> nat set \<Rightarrow> ('k, 's) trie \<Rightarrow> bool" where
  "counted sz N st \<longleftrightarrow> th_paged st = total_bytes sz N st"

lemma counted_cong:
  assumes "\<And>n. n \<in> N \<Longrightarrow> tn_snapshots (th_heap st' n) = tn_snapshots (th_heap st n)" "th_paged st' = th_paged st"
  shows "counted sz N st' = counted sz N st"
  using assms by (simp add: counted_def total_bytes_def snapshotBytes_def cong: sum.cong)

lemma counted_upd:
  "(\<And>x. tn_snapshots (f x) = tn_snapshots x) \<Longrightarrow> counted sz N (upd_node n f st) = counted sz N st"
  by (rule counted_cong) (simp_all add: upd_node_def)

lemma counted_set:
  assumes "finite N" "n \<in> N" "counted sz N st"
  shows "counted sz N (setSnapshots sz n ss st)"
proof -
  have "total_bytes sz N (setSnapshots sz n ss st) = snaps_bytes sz ss + (\<Sum>m\<in>N - {n}. snapshotBytes sz (th_heap st m))"
    using assms(1,2) by (simp add: total_bytes_def setSnapshots_heap sum.remove[of N n] snapshotBytes_def)
  moreover have "total_bytes sz N st = snapshotBytes sz (th_heap st n) + (\<Sum>m\<in>N - {n}. snapshotBytes sz (th_heap st m))"
    using assms(1,2) by (simp add: total_bytes_def sum.remove[of N n])
  ultimately show ?thesis using assms(3) by (simp add: counted_def setSnapshots_heap(1))
qed

lemma counted_insert:
  "finite N \<Longrightarrow> tn_snapshots (th_heap st n) = [] \<Longrightarrow> counted sz (insert n N) st = counted sz N st"
  by (cases "n \<in> N") (auto simp: counted_def total_bytes_def snapshotBytes_def insert_absorb)

lemma counted_remove:
  "finite N \<Longrightarrow> tn_snapshots (th_heap st n) = [] \<Longrightarrow> counted sz (N - {n}) st = counted sz N st"
  by (cases "n \<in> N") (auto simp: counted_def total_bytes_def snapshotBytes_def sum.remove)

text \<open>Splitting and merging the snapshots never leaves the slices.\<close>

lemma split_snaps_Some:
  "length ss \<le> length caches \<Longrightarrow> \<exists>ps. split_snaps caches off ss = Some ps \<and> length ps = length ss"
proof (induction caches off ss rule: split_snaps.induct)
  case (2 caches off ss)
  then have "length ss \<le> length (tl caches)" by (cases caches) auto
  then show ?case using 2 by auto
qed auto

lemma snap_at_Some: "ns = [] \<or> length ns = K \<Longrightarrow> i < K \<Longrightarrow> snap_at ns i \<noteq> None"
  by (auto simp: snap_at_def)

lemma merge_snaps_Some:
  assumes "ns = [] \<or> length ns = K" "cs = [] \<or> length cs = K"
  shows "i + length caches = K \<Longrightarrow> \<exists>ms. merge_snaps i caches ns cs = Some ms \<and> length ms = length caches"
  using assms
proof (induction i caches ns cs rule: merge_snaps.induct)
  case (3 i l ls ns cs)
  obtain p c where pc: "snap_at ns i = Some p" "snap_at cs i = Some c"
    using snap_at_Some[of ns K i] snap_at_Some[of cs K i] 3 by auto
  have "\<exists>ms. merge_snaps (Suc i) ls ns cs = Some ms \<and> length ms = length ls"
    by (rule "3.IH"[of "snap_at ns i" "snap_at cs i" p c]) (use pc 3 in auto)
  then show ?case using pc by auto
qed auto

section \<open>The operations keep the invariant\<close>

lemma appendChild_state:
  assumes "trie_state sz K N r st" "n \<in> N" "ts \<noteq> []" "e = tn_endOffset (th_heap st n) + length ts"
    "\<forall>d\<in>set (tn_children (th_heap st n)). hd (tn_tokens (th_heap st d)) \<noteq> hd ts" "appendChild n ts e st = (c, st')"
  shows "trie_state sz K (insert c N) r st'" "c \<notin> N"
    "links (th_heap st') = append_links c n ts (links (th_heap st))"
proof -
  have ok: "trie_ok N r (links (th_heap st))" and fresh: "\<forall>n\<in>N. n < th_next st" and sn: "snaps_ok K N st"
    and b: "counted sz N st"
    using assms(1) by (auto simp: trie_state_def counted_def trie_ok_links)
  have n: "n \<noteq> th_next st" using fresh assms(2) by auto
  note l = appendChild_links[OF assms(6) n]
  show c: "c \<notin> N" using l fresh by auto
  show links: "links (th_heap st') = append_links c n ts (links (th_heap st))"
    using l assms(4) by (simp add: append_links_def)
  have "trie_ok (insert c N) r (links (th_heap st'))"
    unfolding links by (rule append_trie_ok[OF ok assms(2) c assms(3)]) (use assms(5) in simp)
  then have "trie_ok (insert c N) r (th_heap st')" by (simp only: trie_ok_links)
  moreover have "tn_snapshots (th_heap st' m) = (if m = c then [] else tn_snapshots (th_heap st m))" for m
    using assms(6) n by (auto simp: appendChild_def Let_def upd_node_def)
  moreover have "th_paged st' = th_paged st" using assms(6) by (auto simp: appendChild_def Let_def upd_node_def)
  moreover have "counted sz N st' = counted sz N st"
    by (rule counted_cong) (use calculation(2,3) c in auto)
  then have "counted sz N st'" using b by simp
  then have "counted sz (insert c N) st'"
    using counted_insert[of N st' c sz] calculation(2) trie_ok_parts(1)[OF ok] by simp
  ultimately show "trie_state sz K (insert c N) r st'"
    using conjunct1[OF l] conjunct1[OF conjunct2[OF l]] fresh sn
    by (auto simp: trie_state_def snaps_ok_def counted_def)
qed

lemma removeNode_state:
  assumes "trie_state sz K N r st" "n \<in> N" "removeNode sz n st = Some st'"
  shows "trie_state sz K (N - {n}) r st'" "n \<noteq> r"
proof -
  have ok: "trie_ok N r (links (th_heap st))" and fresh: "\<forall>n\<in>N. n < th_next st" and sn: "snaps_ok K N st"
    and b: "counted sz N st"
    using assms(1) by (auto simp: trie_state_def counted_def trie_ok_links)
  obtain p where p: "tn_parent (th_heap st n) = Some p" "tn_children (th_heap st n) = []"
    "links (th_heap st') = remove_links n p (links (th_heap st))" "th_next st' = th_next st"
    by (rule removeNode_links[OF assms(3)])
  show "n \<noteq> r" using trie_ok_parts(5)[OF ok] p(1) by auto
  let ?s = "upd_node n (\<lambda>x. x\<lparr>tn_parent := None\<rparr>) (upd_node p (\<lambda>x. x\<lparr>tn_children := remove1 n (tn_children x)\<rparr>) st)"
  have st': "st' = setSnapshots sz n [] ?s" using assms(3) p by (auto simp: removeNode_def)
  have sm: "tn_snapshots (th_heap st' m) = (if m = n then [] else tn_snapshots (th_heap st m))" for m
    by (simp add: st' setSnapshots_heap upd_node_def)
  have "counted sz N ?s" using b by (simp add: counted_upd)
  then have "counted sz N st'" unfolding st' using trie_ok_parts(1)[OF ok] assms(2) by (rule counted_set[rotated 2])
  then have "counted sz (N - {n}) st'" using counted_remove[of N st' n sz] trie_ok_parts(1)[OF ok] sm by simp
  moreover have "trie_ok (N - {n}) r (links (th_heap st'))"
    unfolding p(3) by (rule remove_trie_ok[OF ok assms(2)]) (simp_all add: p)
  then have "trie_ok (N - {n}) r (th_heap st')" by (simp only: trie_ok_links)
  ultimately show "trie_state sz K (N - {n}) r st'"
    using fresh sn p(4) sm by (auto simp: trie_state_def trie_ok_links snaps_ok_def counted_def)
qed

text \<open>Splitting: it does not panic, the node is still the end of its path, and nothing else is stored.\<close>

lemma split_snapshots_state:
  assumes "finite N" "n \<in> N" "np \<in> N" "snaps_ok K N st" "length caches = K" "counted sz N st"
    "tn_snapshots (th_heap st np) = []"
  shows "\<exists>st'. split_snapshots sz caches n np st = Some st' \<and> snaps_ok K N st' \<and> counted sz N st'"
proof (cases "hasSnapshots (th_heap st n)")
  case True
  obtain old s1 where sw: "swapSnapshots sz n [] st = (old, s1)" by fastforce
  have s1: "s1 = setSnapshots sz n [] st" using sw by (simp add: setSnapshots_def)
  have old: "old = tn_snapshots (th_heap st n)" using swapSnapshots_heap[OF sw] by simp
  have "length old = K" using True assms(2,4) old by (auto simp: snaps_ok_def hasSnapshots_def)
  then obtain ps where ps: "split_snaps caches (tn_endOffset (th_heap st np)) old = Some ps" "length ps = K"
    using split_snaps_Some[of old caches] assms(5) by fastforce
  let ?st = "setSnapshots sz n (map snd ps) (setSnapshots sz np (map fst ps) s1)"
  have "counted sz N ?st"
    using assms(1-3,6) unfolding s1 by (intro counted_set) auto
  moreover have "snaps_ok K N ?st" using assms(4) ps(2) by (auto simp: snaps_ok_def s1 setSnapshots_heap)
  ultimately show ?thesis using True sw ps(1) by (simp add: split_snapshots_def)
qed (use assms in \<open>simp add: split_snapshots_def\<close>)

lemma splitNode_state:
  assumes "trie_state sz K N r st" "n \<in> N" "length caches = K" "0 < at" "at < length (tn_tokens (th_heap st n))"
  shows "\<exists>np st'. splitNode sz caches n at st = Some (np, st') \<and> np \<notin> N \<and> n \<noteq> r \<and>
    trie_state sz K (insert np N) r st' \<and> links (th_heap st') = split_links np n at (links (th_heap st))"
proof -
  have ok: "trie_ok N r (links (th_heap st))" and fresh: "\<forall>n\<in>N. n < th_next st" and sn: "snaps_ok K N st"
    and b: "counted sz N st"
    using assms(1) by (auto simp: trie_state_def counted_def trie_ok_links)
  note fin = trie_ok_parts(1)[OF ok]
  have nr: "n \<noteq> r" using trie_ok_parts(3)[OF ok] assms(5) by auto
  let ?np = "th_next st" and ?s1 = "split_edge n at st"
  have np: "?np \<notin> N" "n \<noteq> ?np" using fresh assms(2) by auto
  have sm: "tn_snapshots (th_heap ?s1 m) = (if m = ?np then [] else tn_snapshots (th_heap st m))" for m
    using np(2) by (auto simp: split_edge_def Let_def upd_node_def)
  have "counted sz N ?s1 = counted sz N st"
    by (rule counted_cong) (use sm np in \<open>auto simp: split_edge_def Let_def upd_node_def\<close>)
  then have c1: "counted sz (insert ?np N) ?s1" using counted_insert[OF fin, of ?s1 ?np sz] sm b by simp
  have "snaps_ok K (insert ?np N) ?s1" using sn sm by (simp add: snaps_ok_def)
  then obtain s2 where s2: "split_snapshots sz caches n ?np ?s1 = Some s2" "snaps_ok K (insert ?np N) s2"
    "counted sz (insert ?np N) s2"
    using split_snapshots_state[of "insert ?np N" n ?np K ?s1 caches sz] fin assms(2,3) c1 sm by auto
  let ?st' = "split_relink n ?np s2"
  have split: "splitNode sz caches n at st = Some (?np, ?st')"
    using assms(4,5) s2(1) by (simp add: splitNode_def)
  obtain p where p: "p \<in> N" "tn_parent (th_heap st n) = Some p" "n \<in> set (tn_children (th_heap st p))"
    using trie_ok_parts(7)[OF ok assms(2) nr] by (auto simp: edge_ok_def)
  have "p \<noteq> n" using trie_child(3)[OF ok p(1), of n] p(3) by auto
  then have pn: "tn_parent (th_heap st n) \<noteq> Some n" "tn_parent (th_heap st n) \<noteq> Some ?np"
    using p np by auto
  note l = splitNode_links[OF split np(2) pn]
  have "trie_ok (insert ?np N) r (links (th_heap ?st'))"
    unfolding l(5) by (rule split_trie_ok[OF ok assms(2) nr np(1) assms(4)]) (use assms(5) in simp)
  then have "trie_ok (insert ?np N) r (th_heap ?st')" by (simp only: trie_ok_links)
  moreover have "tn_snapshots (th_heap ?st' m) = tn_snapshots (th_heap s2 m)" for m
    by (auto simp: split_relink_def upd_node_def split: option.split)
  then have "snaps_ok K (insert ?np N) ?st'" using s2(2) by (simp add: snaps_ok_def)
  moreover have "counted sz (insert ?np N) ?st'"
    using s2(3) by (simp add: split_relink_def counted_upd split: option.split)
  moreover have "\<forall>n\<in>insert ?np N. n < th_next ?st'" using l(2) fresh by auto
  ultimately show ?thesis using split np(1) nr l(5) by (auto simp: trie_state_def counted_def)
qed

lemma merge_snapshots_state:
  assumes "finite N" "n \<in> N" "c \<in> N" "n \<noteq> c" "snaps_ok K N st" "length caches = K" "counted sz N st"
  shows "\<exists>st'. merge_snapshots sz caches n c st = Some st' \<and> snaps_ok K N st' \<and> counted sz N st' \<and>
    tn_snapshots (th_heap st' c) = []"
proof (cases "tn_snapshots (th_heap st n) \<noteq> [] \<or> tn_snapshots (th_heap st c) \<noteq> []")
  case True
  obtain ns s1 where sw1: "swapSnapshots sz n [] st = (ns, s1)" by fastforce
  obtain cs s2 where sw2: "swapSnapshots sz c [] s1 = (cs, s2)" by fastforce
  have s2: "s1 = setSnapshots sz n [] st" "s2 = setSnapshots sz c [] s1"
    using sw1 sw2 by (simp_all add: setSnapshots_def)
  have nc: "ns = tn_snapshots (th_heap st n)" "cs = tn_snapshots (th_heap st c)"
    using swapSnapshots_heap[OF sw1] swapSnapshots_heap[OF sw2] assms(4) by simp_all
  then obtain ms where ms: "merge_snaps 0 caches ns cs = Some ms" "length ms = K"
    using merge_snaps_Some[of ns K cs 0 caches] assms(2,3,5,6) by (auto simp: snaps_ok_def)
  let ?st = "setSnapshots sz n ms s2"
  have "counted sz N ?st" using assms(1-3,7) unfolding s2 by (intro counted_set) auto
  moreover have "snaps_ok K N ?st" using assms(5) ms(2) by (auto simp: snaps_ok_def s2 setSnapshots_heap)
  moreover have "tn_snapshots (th_heap ?st c) = []" using assms(4) by (simp add: s2 setSnapshots_heap)
  ultimately show ?thesis using True sw1 sw2 ms(1) by (simp add: merge_snapshots_def)
qed (use assms in \<open>simp add: merge_snapshots_def\<close>)

lemma adopt_snapshots [simp]:
  "tn_snapshots (th_heap (adopt n gcs st) m) = tn_snapshots (th_heap st m)" "th_paged (adopt n gcs st) = th_paged st"
  by (induction gcs arbitrary: st) (auto simp: upd_node_def)

lemma mergeWithChild_state:
  assumes "trie_state sz K N r st" "n \<in> N" "n \<noteq> r" "length caches = K" "tn_children (th_heap st n) = [c]"
  shows "\<exists>st'. mergeWithChild sz caches n st = Some st' \<and> trie_state sz K (N - {c}) r st' \<and>
    links (th_heap st') = merge_links n c (links (th_heap st))"
proof -
  have ok: "trie_ok N r (links (th_heap st))" and fresh: "\<forall>n\<in>N. n < th_next st" and sn: "snaps_ok K N st"
    and b: "counted sz N st"
    using assms(1) by (auto simp: trie_state_def counted_def trie_ok_links)
  note fin = trie_ok_parts(1)[OF ok]
  have cn: "c \<in> set (tn_children (links (th_heap st) n))" using assms(5) by simp
  note child = trie_child[OF ok assms(2) cn]
  let ?s1 = "upd_node n (\<lambda>x. x\<lparr>tn_tokens := tn_tokens x @ tn_tokens (th_heap st c), tn_endOffset := tn_endOffset (th_heap st c)\<rparr>) st"
  have "snaps_ok K N ?s1" using sn by (auto simp: snaps_ok_def upd_node_def)
  moreover have "counted sz N ?s1" using b by (simp add: counted_upd)
  ultimately obtain s2 where s2: "merge_snapshots sz caches n c ?s1 = Some s2" "snaps_ok K N s2"
    "counted sz N s2" "tn_snapshots (th_heap s2 c) = []"
    using merge_snapshots_state[OF fin assms(2) child(1)] child(3) assms(4) by blast
  let ?st' = "upd_node c (\<lambda>x. x\<lparr>tn_parent := None, tn_children := []\<rparr>)
       (upd_node n (\<lambda>x. x\<lparr>tn_user := tn_user (th_heap st c), tn_lastUsed := max (tn_lastUsed x) (tn_lastUsed (th_heap st c))\<rparr>)
         (adopt n (tn_children (th_heap st c)) (upd_node n (\<lambda>x. x\<lparr>tn_children := tn_children (th_heap st c)\<rparr>) s2)))"
  have merge: "mergeWithChild sz caches n st = Some ?st'"
    using assms(5) s2(1) by (simp add: mergeWithChild_def Let_def)
  obtain c' where "tn_children (th_heap st n) = [c']" "links (th_heap ?st') = merge_links n c' (links (th_heap st))"
    "th_next ?st' = th_next st"
    by (rule mergeWithChild_links[OF merge ok assms(2)])
  then have l: "links (th_heap ?st') = merge_links n c (links (th_heap st))" "th_next ?st' = th_next st"
    using assms(5) by simp_all
  have "trie_ok (N - {c}) r (links (th_heap ?st'))"
    unfolding l(1) by (rule merge_trie_ok[OF ok assms(2,3)]) (use assms(5) in simp)
  then have "trie_ok (N - {c}) r (th_heap ?st')" by (simp only: trie_ok_links)
  moreover have sm: "tn_snapshots (th_heap ?st' m) = tn_snapshots (th_heap s2 m)" for m
    by (auto simp: upd_node_def)
  then have "snaps_ok K (N - {c}) ?st'" using s2(2) by (simp add: snaps_ok_def)
  moreover have "counted sz N ?st' = counted sz N s2"
    by (rule counted_cong[OF sm]) (simp add: upd_node_def)
  then have "counted sz (N - {c}) ?st'" using counted_remove[OF fin, of ?st' c sz] s2(3,4) sm by simp
  ultimately show ?thesis using merge l fresh by (auto simp: trie_state_def counted_def)
qed

text \<open>Without layers a node with snapshots cannot be split: their slice is indexed all the same.\<close>

lemma split_snaps_without_layers: "list_ex (\<lambda>s. s \<noteq> None) ss \<Longrightarrow> split_snaps [] off ss = None"
proof (induction ss)
  case (Cons s ss)
  then show ?case by (cases s) auto
qed simp

lemma splitNode_without_layers:
  assumes "hasSnapshots (th_heap st n)" "n \<noteq> th_next st"
  shows "splitNode sz [] n at st = None"
proof -
  have "tn_snapshots (th_heap (split_edge n at st) n) = tn_snapshots (th_heap st n)"
    using assms(2) by (simp add: split_edge_def Let_def upd_node_def)
  then show ?thesis
    using assms(1) split_snaps_without_layers
    by (auto simp: splitNode_def split_snapshots_def hasSnapshots_def swapSnapshots_def split: prod.splits)
qed

section \<open>Properties\<close>

text \<open>
  C18. In a trie whose nodes form a tree with non-empty edges and different first tokens on siblings,
  \<open>findBestMatch\<close> returns a path from the root and the length of the longest front of the tokens that is
  stored: the matched tokens are the beginning of what the path spells, the last edge of the path is
  matched in at least one token, and no longer front of the tokens lies in the trie.
\<close>

theorem findBestMatch_longest:
  assumes "trie_ok N r h" "findBestMatch h (Some r) tokens = (path, matched)"
  shows "hd path = r \<and> walk h r (tl path) \<and> matched \<le> length tokens \<and>
    prefix (take matched tokens) (along h (tl path)) \<and> length (along h (butlast (tl path))) \<le> matched \<and>
    (\<forall>k\<le>length tokens. take k tokens \<in> stored h r \<longleftrightarrow> k \<le> matched)"
proof -
  obtain p where p: "find_from h r tokens = (p, matched)" "path = r # p"
    using assms(2) by (auto simp: findBestMatch_def split: prod.splits)
  have m: "is_match h r tokens p matched"
    by (rule find_from_match[OF assms(1) _ p(1)]) (use assms(1) in \<open>simp add: trie_ok_def\<close>)
  have "take k tokens \<in> stored h r" if "k \<le> matched" for k
  proof -
    have "prefix (take k tokens) (take matched tokens)" using take_is_prefix[of k "take matched tokens"] that by (simp add: min_def)
    then show ?thesis using m walk_stored[of h r p] by (meson is_match_def prefix_order.trans stored_prefix)
  qed
  then show ?thesis using m p(2) by (cases "p = []") (auto simp: is_match_def)
qed

text \<open>A trie with the edge 5, 6, 7 below the root, of which 5, 6, 9 matches two tokens.\<close>

definition trie_example :: "nat \<Rightarrow> (nat, unit) trieNode" where
  "trie_example n =
     (if n = 0
      then \<lparr>tn_tokens = [], tn_endOffset = 0, tn_parent = None, tn_children = [1], tn_lastUsed = 0,
            tn_snapshots = [], tn_user = False\<rparr>
      else \<lparr>tn_tokens = [5, 6, 7], tn_endOffset = 3, tn_parent = Some 0, tn_children = [], tn_lastUsed = 0,
            tn_snapshots = [Some ()], tn_user = False\<rparr>)"

lemma trie_example_ok: "trie_ok {0, 1} 0 trie_example"
  by (auto simp: trie_ok_def links_ok_def edge_ok_def trie_example_def)

theorem findBestMatch_longest_witness:
  "findBestMatch trie_example (Some 0) [5, 6, 9] = ([0, 1], 2) \<and> take 2 [5, 6, 9] \<in> stored trie_example 0 \<and>
    take 3 [5, 6, 9] \<notin> stored trie_example 0"
proof -
  have "findBestMatch trie_example (Some 0) [5, 6, 9] = ([0, 1], 2)"
    by (simp add: findBestMatch_def find_from.simps[of _ "0"] best_child_Cons candidate_child_def child_match_def
        trie_example_def)
  moreover from findBestMatch_longest[OF trie_example_ok this]
  have "take k [5, 6, 9] \<in> stored trie_example 0 \<longleftrightarrow> k \<le> 2" if "k \<le> 3" for k using that by simp
  from this[of 2] this[of 3]
  have "take 2 [5, 6, 9] \<in> stored trie_example 0 \<and> take 3 [5, 6, 9] \<notin> stored trie_example 0" by simp
  ultimately show ?thesis by simp
qed

text \<open>
  C16. Splitting a node inside its edge never panics. It adds one node and keeps everything the cache
  relies on: the tree, one snapshot slot per layer, the byte counter that is the sum of the sizes of all
  snapshots, the offset at which the node ends, and the stored sequences.
\<close>

theorem splitNode_keeps:
  assumes "trie_state sz K N r st" "n \<in> N" "length caches = K" "0 < at" "at < length (tn_tokens (th_heap st n))"
  shows "\<exists>np st'. splitNode sz caches n at st = Some (np, st') \<and> np \<notin> N \<and> trie_state sz K (insert np N) r st' \<and>
    tn_endOffset (th_heap st' np) = startOffset (th_heap st n) + at \<and>
    tn_endOffset (th_heap st' n) = tn_endOffset (th_heap st n) \<and>
    tn_parent (th_heap st' n) = Some np \<and> stored (th_heap st') r = stored (th_heap st) r"
proof -
  obtain np st' where s: "splitNode sz caches n at st = Some (np, st')" "np \<notin> N" "n \<noteq> r"
    "trie_state sz K (insert np N) r st'" and l: "links (th_heap st') = split_links np n at (links (th_heap st))"
    using splitNode_state[OF assms] by blast
  have ok: "trie_ok N r (links (th_heap st))" using assms(1) by (simp add: trie_state_def trie_ok_links)
  have np: "n \<noteq> np" using assms(2) s(2) by auto
  have rN: "r \<in> N" using ok by (simp add: trie_ok_def)
  have "stored (links (th_heap st')) r = stored (links (th_heap st)) r"
    unfolding l by (rule split_stored[OF ok assms(2) s(3,2) assms(4) _ rN]) (use assms(5) in simp)
  moreover have "tn_endOffset (links (th_heap st') n) = tn_endOffset (th_heap st n) \<and>
      tn_parent (links (th_heap st') n) = Some np \<and>
      tn_endOffset (links (th_heap st') np) = startOffset (th_heap st n) + at"
    unfolding l using np by (auto simp: split_links_def Let_def startOffset_def split: option.split)
  ultimately show ?thesis using s by (simp only: stored_links links_simps) blast
qed


theorem splitNode_keeps_witness:
  "\<exists>np st'. splitNode (\<lambda>_. 2) [None] 1 1 \<lparr>th_heap = trie_example, th_next = 2, th_paged = 2\<rparr> = Some (np, st') \<and>
    np \<notin> {0, 1} \<and> trie_state (\<lambda>_. 2) 1 (insert np {0, 1}) 0 st' \<and> tn_endOffset (th_heap st' np) = 1"
proof -
  let ?st = "\<lparr>th_heap = trie_example, th_next = 2, th_paged = 2\<rparr>"
  have "trie_state (\<lambda>_. 2) 1 {0, 1} 0 ?st"
    using trie_example_ok
    by (simp add: trie_state_def snaps_ok_def total_bytes_def) (simp add: trie_example_def snapshotBytes_def)
  from splitNode_keeps[OF this, of 1 "[None]" 1] show ?thesis
    by (auto simp: trie_example_def startOffset_def)
qed

end
