(* ===== verification/CacheLayers.thy ===== *)
theory CacheLayers
  imports CacheTrie
begin

text \<open>
  The layers of the live cache of a model (\<^verbatim>\<open>mlxrunner/cache\<close>): the interface \<^verbatim>\<open>Cache\<close>, its contract
  as the locale \<open>cache_layer\<close>, and the two kinds of layers it is proved for: the position-sliceable
  \<^verbatim>\<open>KVCache\<close> and the cumulative \<^verbatim>\<open>RecurrentCache\<close>.

  The contract speaks about tokens: a layer \<open>holds\<close> a sequence of tokens when its state is the one the
  model computes from them, and a snapshot \<open>covers\<close> a sequence from an offset on when it can bring a
  layer that has the front of the sequence to the state after it. Arrays are lists along the position,
  and an entry is what the model computes for a position from the tokens up to it; what it computes is
  arbitrary (\<open>entry\<close>, \<open>state_of\<close>). A snapshot of a KV layer owns its range here; that the code keeps
  it as an index into the live buffer until the range is overwritten is the subject of the theory
  \<open>KVCache\<close>, which shows that its layer is this one to every client.
\<close>

section \<open>Captures during a write\<close>

text \<open>
  \<open>pendingSnapshots\<close>: the slots \<open>offsets[i]\<close>, \<open>captured[i]\<close> as one list of pairs; without a schedule both
  slices are \<^verbatim>\<open>nil\<close>. A panic of \<open>prepare\<close> is \<open>None\<close>. The function that makes a snapshot may change the
  layer, so \<open>captureReached\<close> passes its state on.
\<close>

record 's pendingSnapshots =
  pd_slots :: "(nat \<times> 's option) list option"
  pd_base :: nat

definition no_pending :: "'s pendingSnapshots" where
  "no_pending = \<lparr>pd_slots = None, pd_base = 0\<rparr>"

fun check_offsets :: "nat \<Rightarrow> nat option \<Rightarrow> nat list \<Rightarrow> bool" where
  "check_offsets cur prev [] = True"
| "check_offsets cur prev (x # xs) =
     (cur \<le> x \<and> (case prev of None \<Rightarrow> True | Some y \<Rightarrow> y < x) \<and> check_offsets cur (Some x) xs)"

definition pd_prepare :: "nat \<Rightarrow> nat list \<Rightarrow> 's pendingSnapshots \<Rightarrow> 's pendingSnapshots option" where
  "pd_prepare currentOffset offsets p =
     (if pd_slots p \<noteq> None then None
      else if \<not> check_offsets currentOffset None offsets then None
      else Some \<lparr>pd_slots = Some (map (\<lambda>x. (x, None)) offsets), pd_base = currentOffset\<rparr>)"

definition pd_offsets :: "'s pendingSnapshots \<Rightarrow> nat list" where
  "pd_offsets p = (case pd_slots p of None \<Rightarrow> [] | Some xs \<Rightarrow> map fst xs)"

definition pd_take :: "'s pendingSnapshots \<Rightarrow> 's option list \<times> 's pendingSnapshots" where
  "pd_take p = ((case pd_slots p of None \<Rightarrow> [] | Some xs \<Rightarrow> map snd xs), p\<lparr>pd_slots := None\<rparr>)"

fun capture_slots ::
  "nat \<Rightarrow> ('st \<Rightarrow> 's option \<times> 'st) \<Rightarrow> (nat \<times> 's option) list \<Rightarrow> 'st \<Rightarrow> bool \<times> (nat \<times> 's option) list \<times> 'st" where
  "capture_slots reached snap [] st = (False, [], st)"
| "capture_slots reached snap ((x, c) # xs) st =
     (if c = None \<and> x = reached
      then (case snap st of (s, st1) \<Rightarrow>
              case capture_slots reached snap xs st1 of (_, ys, st2) \<Rightarrow> (True, (x, s) # ys, st2))
      else (case capture_slots reached snap xs st of (b, ys, st1) \<Rightarrow> (b, (x, c) # ys, st1)))"

definition captureReached ::
  "nat \<Rightarrow> ('st \<Rightarrow> 's option \<times> 'st) \<Rightarrow> 's pendingSnapshots \<Rightarrow> 'st \<Rightarrow> 's pendingSnapshots \<times> 'st" where
  "captureReached reached snap p st =
     (case pd_slots p of
        None \<Rightarrow> (p, st)
      | Some xs \<Rightarrow>
          (case capture_slots reached snap xs st of
             (captured, ys, st1) \<Rightarrow>
               (p\<lparr>pd_slots := Some ys, pd_base := if captured then reached else pd_base p\<rparr>, st1)))"

definition scheduledIn :: "nat \<Rightarrow> nat \<Rightarrow> 's pendingSnapshots \<Rightarrow> nat list" where
  "scheduledIn start e p = filter (\<lambda>x. start \<le> x \<and> x \<le> e) (pd_offsets p)"

text \<open>What \<open>prepare\<close> asks for is an ascending schedule that has not been passed.\<close>

lemma check_offsets_iff:
  "check_offsets cur prev xs \<longleftrightarrow>
     (\<forall>x\<in>set xs. cur \<le> x \<and> (\<forall>y. prev = Some y \<longrightarrow> y < x)) \<and> sorted_wrt (<) xs"
  by (induction xs arbitrary: prev) (auto split: option.splits)

section \<open>The interface\<close>

record ('c, 's) cache_ops =
  co_Offset :: "'c \<Rightarrow> nat"
  co_Free :: "'c \<Rightarrow> 'c"
  co_Snapshot :: "nat \<Rightarrow> 'c \<Rightarrow> 's option"
  co_Restore :: "'s option \<Rightarrow> nat \<Rightarrow> 'c \<Rightarrow> bool \<times> 'c"
  co_Merge :: "'s option \<Rightarrow> 's option \<Rightarrow> 's option"
  co_Split :: "'s \<Rightarrow> nat \<Rightarrow> 's option \<times> 's option"
  co_PrepareSnapshots :: "nat list \<Rightarrow> 'c \<Rightarrow> 'c option"
  co_TakeSnapshots :: "'c \<Rightarrow> 's option list \<times> 'c"

locale cache_layer =
  fixes ops :: "('c, 's) cache_ops"
    and holds :: "'c \<Rightarrow> 'k list \<Rightarrow> bool"
    and covers :: "'s \<Rightarrow> nat \<Rightarrow> 'k list \<Rightarrow> bool"
  assumes offset: "holds c w \<Longrightarrow> co_Offset ops c = length w"
    and free: "holds c w \<Longrightarrow> holds (co_Free ops c) []"
    and rewind: "holds c w \<Longrightarrow> co_Restore ops None t c = (True, c') \<Longrightarrow> t \<le> length w \<and> holds c' (take t w)"
    and restore: "holds c w \<Longrightarrow> prefix w v \<Longrightarrow> covers s a v \<Longrightarrow> co_Restore ops (Some s) t c = (True, c') \<Longrightarrow>
      t \<le> length v \<and> holds c' (take t v)"
    and refuse: "holds c w \<Longrightarrow> co_Restore ops sn t c = (False, c') \<Longrightarrow> holds c' w"
    and snapshot: "holds c w \<Longrightarrow> a \<le> length w \<Longrightarrow> co_Snapshot ops a c = Some s \<Longrightarrow> covers s a w"
    and split: "covers s a w \<Longrightarrow> a \<le> b \<Longrightarrow> b \<le> length w \<Longrightarrow> co_Split ops s b = (p, q) \<Longrightarrow>
      (\<forall>s'. p = Some s' \<longrightarrow> covers s' a (take b w)) \<and> (\<forall>s'. q = Some s' \<longrightarrow> covers s' b w)"
    and merge: "(\<And>s. p = Some s \<Longrightarrow> covers s a (take b w)) \<Longrightarrow> (\<And>s. q = Some s \<Longrightarrow> covers s b w) \<Longrightarrow>
      a \<le> b \<Longrightarrow> b \<le> length w \<Longrightarrow> co_Merge ops p q = Some m \<Longrightarrow> covers m a w"
begin

text \<open>A layer that restores a snapshot of a longer sequence stays on the way to it.\<close>

lemma restore_prefix:
  assumes "holds c w" "prefix w v" "prefix u v" "covers s a u" "length w \<le> length u"
    "co_Restore ops (Some s) t c = (b, c')"
  shows "\<exists>w'. holds c' w' \<and> prefix w' v"
proof (cases b)
  case True
  have "prefix w u" using prefix_length_prefix[OF assms(2,3,5)] .
  moreover have "co_Restore ops (Some s) t c = (True, c')" using assms(6) True by simp
  ultimately have "holds c' (take t u)" using restore[OF assms(1) _ assms(4)] by blast
  then show ?thesis using assms(3) take_is_prefix prefix_order.trans by blast
next
  case False
  then have "co_Restore ops (Some s) t c = (False, c')" using assms(6) by simp
  then have "holds c' w" by (rule refuse[OF assms(1)])
  then show ?thesis using assms(2) by blast
qed

end

section \<open>The key-value layer\<close>

text \<open>
  The buffer of keys and values, of which the first \<open>offset\<close> slots are in use, grows by multiples of
  \<open>step\<close> slots that are filled with zeros.
\<close>

record 'v kvBuffer =
  kv_keys :: "'v list option"
  kv_offset :: nat
  kv_step :: nat

record 'v kvCopy =
  kc_keys :: "'v list"
  kc_fromOffset :: nat
  kc_toOffset :: nat

definition new_buffer :: "'v kvBuffer" where
  "new_buffer = \<lparr>kv_keys = None, kv_offset = 0, kv_step = 256\<rparr>"

definition grow_buffer :: "'v \<Rightarrow> nat \<Rightarrow> nat \<Rightarrow> nat \<Rightarrow> 'v list option \<Rightarrow> 'v list" where
  "grow_buffer zero step prev L buf =
     (let steps = (step + L - 1) div step;
          newKeys = replicate (steps * step) zero
      in case buf of
           None \<Rightarrow> newKeys
         | Some b \<Rightarrow> if length b < prev + L then (if prev mod step \<noteq> 0 then take prev b else b) @ newKeys else b)"

definition write_buffer :: "'v \<Rightarrow> nat \<Rightarrow> nat \<Rightarrow> 'v list \<Rightarrow> 'v list option \<Rightarrow> 'v list" where
  "write_buffer zero step prev keys buf =
     (let L = length keys; grown = grow_buffer zero step prev L buf
      in take prev grown @ keys @ drop (prev + L) grown)"

definition kv_append :: "'v \<Rightarrow> 'v list \<Rightarrow> 'v kvBuffer \<Rightarrow> 'v kvBuffer" where
  "kv_append zero keys c =
     c\<lparr>kv_keys := Some (write_buffer zero (kv_step c) (kv_offset c) keys (kv_keys c)),
        kv_offset := kv_offset c + length keys\<rparr>"

definition kv_copy :: "nat \<Rightarrow> nat \<Rightarrow> 'v kvBuffer \<Rightarrow> 'v kvCopy option" where
  "kv_copy fromOffset toOffset c =
     (case kv_keys c of
        None \<Rightarrow> None
      | Some b \<Rightarrow>
          if toOffset \<le> fromOffset then None
          else Some \<lparr>kc_keys = drop fromOffset (take toOffset b), kc_fromOffset = fromOffset,
                 kc_toOffset = toOffset\<rparr>)"

definition kv_Snapshot :: "nat \<Rightarrow> 'v kvBuffer \<Rightarrow> 'v kvCopy option" where
  "kv_Snapshot fromOffset c = kv_copy fromOffset (kv_offset c) c"

definition kv_Restore :: "'v \<Rightarrow> 'v kvCopy option \<Rightarrow> nat \<Rightarrow> 'v kvBuffer \<Rightarrow> bool \<times> 'v kvBuffer" where
  "kv_Restore zero snapshot target c =
     (case snapshot of
        None \<Rightarrow> if kv_offset c < target then (False, c) else (True, c\<lparr>kv_offset := target\<rparr>)
      | Some snap \<Rightarrow>
          if kc_toOffset snap < target \<or> kv_offset c < kc_fromOffset snap then (False, c)
          else (let c1 = kv_append zero (kc_keys snap) (c\<lparr>kv_offset := kc_fromOffset snap\<rparr>)
                in (True, if target < kv_offset c1 then c1\<lparr>kv_offset := target\<rparr> else c1)))"

definition kv_Merge :: "'v kvCopy option \<Rightarrow> 'v kvCopy option \<Rightarrow> 'v kvCopy option" where
  "kv_Merge parent child =
     (case (parent, child) of
        (Some p, Some ch) \<Rightarrow>
          Some \<lparr>kc_keys = kc_keys p @ kc_keys ch, kc_fromOffset = kc_fromOffset p, kc_toOffset = kc_toOffset ch\<rparr>
      | _ \<Rightarrow> None)"

definition kv_Split :: "'v kvCopy \<Rightarrow> nat \<Rightarrow> 'v kvCopy option \<times> 'v kvCopy option" where
  "kv_Split snap at =
     (let splitIdx = int at - int (kc_fromOffset snap);
          seqLen = int (kc_toOffset snap) - int (kc_fromOffset snap)
      in if splitIdx \<le> 0 then (None, Some snap)
         else if seqLen \<le> splitIdx then (Some snap, None)
         else (Some \<lparr>kc_keys = take (nat splitIdx) (kc_keys snap), kc_fromOffset = kc_fromOffset snap, kc_toOffset = at\<rparr>,
               Some \<lparr>kc_keys = drop (nat splitIdx) (kc_keys snap), kc_fromOffset = at, kc_toOffset = kc_toOffset snap\<rparr>))"

definition kv_Free :: "'v kvBuffer \<Rightarrow> 'v kvBuffer" where
  "kv_Free c = c\<lparr>kv_keys := None, kv_offset := 0\<rparr>"

text \<open>The entries the model computes for a sequence.\<close>

definition entries :: "('k list \<Rightarrow> 'v) \<Rightarrow> 'k list \<Rightarrow> 'v list" where
  "entries entry w = map (\<lambda>i. entry (take (Suc i) w)) [0..<length w]"

lemma length_entries [simp]: "length (entries entry w) = length w"
  by (simp add: entries_def)

lemma entries_take: "take n (entries entry w) = entries entry (take n w)"
proof (rule nth_equalityI)
  fix i assume "i < length (take n (entries entry w))"
  then have "i < n" "i < length w" by simp_all
  then show "take n (entries entry w) ! i = entries entry (take n w) ! i" by (simp add: entries_def)
qed simp

definition kv_holds :: "('k list \<Rightarrow> 'v) \<Rightarrow> 'v kvBuffer \<Rightarrow> 'k list \<Rightarrow> bool" where
  "kv_holds entry c w \<longleftrightarrow> kv_offset c = length w \<and> 0 < kv_step c \<and>
     (w \<noteq> [] \<longrightarrow> (\<exists>b. kv_keys c = Some b \<and> length w \<le> length b \<and> take (length w) b = entries entry w))"

definition kv_covers :: "('k list \<Rightarrow> 'v) \<Rightarrow> 'v kvCopy \<Rightarrow> nat \<Rightarrow> 'k list \<Rightarrow> bool" where
  "kv_covers entry s a w \<longleftrightarrow> a < length w \<and> kc_fromOffset s = a \<and> kc_toOffset s = length w \<and>
     kc_keys s = drop a (entries entry w)"


subsection \<open>Writing\<close>

text \<open>The slots below the offset.\<close>

definition kv_live :: "'v kvBuffer \<Rightarrow> 'v list" where
  "kv_live c = take (kv_offset c) (case kv_keys c of None \<Rightarrow> [] | Some b \<Rightarrow> b)"

definition kv_ok :: "'v kvBuffer \<Rightarrow> bool" where
  "kv_ok c \<longleftrightarrow> 0 < kv_step c \<and> length (kv_live c) = kv_offset c"

lemma kv_holds_live: "kv_holds entry c w \<longleftrightarrow> kv_ok c \<and> kv_live c = entries entry w"
proof
  assume "kv_holds entry c w"
  then show "kv_ok c \<and> kv_live c = entries entry w"
    by (cases "w = []") (auto simp: kv_holds_def kv_ok_def kv_live_def entries_def)
next
  assume l: "kv_ok c \<and> kv_live c = entries entry w"
  then have "kv_offset c = length w" by (metis kv_ok_def length_entries)
  then show "kv_holds entry c w" using l
    by (auto simp: kv_holds_def kv_ok_def kv_live_def split: option.splits)
qed

lemma div_up: "0 < (s::nat) \<Longrightarrow> l \<le> (s + l - 1) div s * s"
  using div_mult_mod_eq[of "s + l - 1" s] mod_less_divisor[of s "s + l - 1"] by linarith

lemma kv_append_live:
  assumes "kv_ok c"
  shows "kv_ok (kv_append zero ks c)" "kv_live (kv_append zero ks c) = kv_live c @ ks"
    "kv_offset (kv_append zero ks c) = kv_offset c + length ks"
proof -
  let ?p = "kv_offset c" and ?L = "length ks" and ?s = "kv_step c"
  have s: "0 < ?s" using assms by (simp add: kv_ok_def)
  define grown where "grown = grow_buffer zero ?s ?p ?L (kv_keys c)"
  have fresh: "?L \<le> (?s + ?L - 1) div ?s * ?s" by (rule div_up[OF s])
  have app: "kv_append zero ks c = c\<lparr>kv_keys := Some (take ?p grown @ ks @ drop (?p + ?L) grown), kv_offset := ?p + ?L\<rparr>"
    by (simp only: kv_append_def write_buffer_def Let_def grown_def)
  have live: "kv_live c = take ?p (case kv_keys c of None \<Rightarrow> [] | Some b \<Rightarrow> b)" by (simp add: kv_live_def)
  have len: "length (kv_live c) = ?p" using assms by (simp add: kv_ok_def)
  have "take ?p grown = kv_live c" using len fresh by (auto simp: grown_def grow_buffer_def Let_def live split: option.splits)
  moreover have "?p + ?L \<le> length grown" using len fresh by (auto simp: grown_def grow_buffer_def Let_def live split: option.splits)
  ultimately show "kv_ok (kv_append zero ks c)" "kv_live (kv_append zero ks c) = kv_live c @ ks"
    "kv_offset (kv_append zero ks c) = ?p + ?L"
    using s len by (auto simp: app kv_ok_def kv_live_def)
qed

lemma kv_live_rewind:
  assumes "kv_ok c" "t \<le> kv_offset c"
  shows "kv_ok (c\<lparr>kv_offset := t\<rparr>)" "kv_live (c\<lparr>kv_offset := t\<rparr>) = take t (kv_live c)"
  using assms by (auto simp: kv_ok_def kv_live_def min_def split: option.splits)

text \<open>What a successful restore leaves: the range of the snapshot behind the front that was there.\<close>

lemma kv_Restore_live:
  assumes "kv_ok c" "kv_Restore zero sn t c = (True, c')"
    "\<And>s. sn = Some s \<Longrightarrow> kc_toOffset s = kc_fromOffset s + length (kc_keys s)"
  shows "kv_ok c'" "t \<le> (case sn of None \<Rightarrow> kv_offset c | Some s \<Rightarrow> kc_toOffset s)"
    "kv_live c' = take t (case sn of None \<Rightarrow> kv_live c | Some s \<Rightarrow> take (kc_fromOffset s) (kv_live c) @ kc_keys s)"
proof -
  have len: "length (kv_live c) = kv_offset c" using assms(1) by (simp add: kv_ok_def)
  show "t \<le> (case sn of None \<Rightarrow> kv_offset c | Some s \<Rightarrow> kc_toOffset s)"
    using assms(2) by (auto simp: kv_Restore_def split: option.splits if_splits)
  have both: "kv_ok c' \<and> kv_live c' = take t (case sn of None \<Rightarrow> kv_live c
      | Some s \<Rightarrow> take (kc_fromOffset s) (kv_live c) @ kc_keys s)"
  proof (cases sn)
    case None
    then show ?thesis using assms(1,2) kv_live_rewind[OF assms(1), of t]
      by (auto simp: kv_Restore_def split: if_splits)
  next
    case (Some s)
    have le: "t \<le> kc_toOffset s" "kc_fromOffset s \<le> kv_offset c"
      using assms(2) Some by (auto simp: kv_Restore_def split: if_splits)
    define c0 where "c0 = c\<lparr>kv_offset := kc_fromOffset s\<rparr>"
    define c1 where "c1 = kv_append zero (kc_keys s) c0"
    have c0: "kv_ok c0" "kv_live c0 = take (kc_fromOffset s) (kv_live c)" "kv_offset c0 = kc_fromOffset s"
      using kv_live_rewind[OF assms(1) le(2)] by (simp_all add: c0_def)
    note c1 = kv_append_live[OF c0(1), of zero "kc_keys s", folded c1_def]
    have c': "c' = (if t < kv_offset c1 then c1\<lparr>kv_offset := t\<rparr> else c1)"
      using assms(2) Some le by (auto simp: kv_Restore_def Let_def c1_def c0_def)
    have off: "kv_offset c1 = kc_toOffset s" using c1(3) c0(3) assms(3)[OF Some] by simp
    have "length (kv_live c1) = kv_offset c1" using c1(1) by (simp add: kv_ok_def)
    then show ?thesis using kv_live_rewind[OF c1(1), of t] c1 c0 c' le off Some by auto
  qed
  then show "kv_ok c'" "kv_live c' = take t (case sn of None \<Rightarrow> kv_live c
      | Some s \<Rightarrow> take (kc_fromOffset s) (kv_live c) @ kc_keys s)" by simp_all
qed

lemma kv_Restore_refused: "kv_Restore zero sn t c = (False, c') \<Longrightarrow> c' = c"
  by (auto simp: kv_Restore_def Let_def split: option.splits if_splits)

subsection \<open>The contract\<close>

lemma kv_holds_len: "kv_holds entry c w \<Longrightarrow> kv_offset c = length w"
  by (simp add: kv_holds_def)

lemma kv_free: "kv_holds entry c w \<Longrightarrow> kv_holds entry (kv_Free c) []"
  by (simp add: kv_holds_def kv_Free_def)

lemma kv_rewind: "kv_holds entry c w \<Longrightarrow> kv_Restore z None t c = (True, c') \<Longrightarrow> t \<le> length w \<and> kv_holds entry c' (take t w)"
  using kv_Restore_live[of c z None t c'] kv_holds_len[of entry c w] by (simp add: kv_holds_live entries_take)

lemma kv_restore:
  assumes "kv_holds entry c w" "prefix w v" "kv_covers entry s a v" "kv_Restore z (Some s) t c = (True, c')"
  shows "t \<le> length v \<and> kv_holds entry c' (take t v)"
proof -
  have ok: "kv_ok c" "kv_live c = entries entry w" using assms(1) by (simp_all add: kv_holds_live)
  have s: "kc_fromOffset s = a" "kc_toOffset s = length v" "kc_keys s = drop a (entries entry v)" "a < length v"
    using assms(3) by (auto simp: kv_covers_def)
  have "a \<le> length w" using assms(4) kv_holds_len[OF assms(1)] s by (auto simp: kv_Restore_def split: if_splits)
  then have "take a w = take a v" using assms(2) by (auto simp: prefix_def)
  then have "take a (entries entry w) = take a (entries entry v)" by (simp only: entries_take)
  then have front: "take a (entries entry w) @ drop a (entries entry v) = entries entry v" by simp
  have "kc_toOffset s = kc_fromOffset s + length (kc_keys s)" using s by simp
  note r = kv_Restore_live[OF ok(1) assms(4)]
  have "kv_ok c'" "t \<le> length v" "kv_live c' = take t (entries entry v)"
    using r s front ok(2) by simp_all
  then show ?thesis by (simp add: kv_holds_live entries_take)
qed

lemma kv_snapshot:
  assumes "kv_holds entry c w" "a \<le> length w" "kv_Snapshot a c = Some s"
  shows "kv_covers entry s a w"
proof -
  have off: "kv_offset c = length w" "kv_live c = entries entry w"
    using assms(1) kv_holds_len by (auto simp: kv_holds_live)
  then have "a < length w \<and> s = \<lparr>kc_keys = drop a (kv_live c), kc_fromOffset = a, kc_toOffset = length w\<rparr>"
    using assms(3) by (auto simp: kv_Snapshot_def kv_copy_def kv_live_def split: option.splits if_splits)
  then show ?thesis using off by (simp add: kv_covers_def)
qed

lemma kv_split:
  assumes "kv_covers entry s a w" "a \<le> b" "b \<le> length w" "kv_Split s b = (p, q)"
  shows "(\<forall>s'. p = Some s' \<longrightarrow> kv_covers entry s' a (take b w)) \<and> (\<forall>s'. q = Some s' \<longrightarrow> kv_covers entry s' b w)"
proof -
  have s: "kc_fromOffset s = a" "kc_toOffset s = length w" "kc_keys s = drop a (entries entry w)" "a < length w"
    using assms(1) by (auto simp: kv_covers_def)
  consider "b = a" | "b = length w" "a < b" | "a < b" "b < length w" using assms(2,3) by linarith
  then show ?thesis
  proof cases
    case 1
    then show ?thesis using assms(1,4) s by (auto simp: kv_Split_def)
  next
    case 2
    then show ?thesis using assms(1,4) s by (auto simp: kv_Split_def Let_def)
  next
    case 3
    have "nat (int b - int a) = b - a" by simp
    moreover have "take (b - a) (drop a (entries entry w)) = drop a (entries entry (take b w))"
      using 3 by (simp add: take_drop flip: entries_take)
    ultimately show ?thesis using assms(4) s 3 by (auto simp: kv_Split_def Let_def kv_covers_def)
  qed
qed

lemma kv_merge:
  assumes "\<And>s. p = Some s \<Longrightarrow> kv_covers entry s a (take b w)" "\<And>s. q = Some s \<Longrightarrow> kv_covers entry s b w"
    "a \<le> b" "b \<le> length w" "kv_Merge p q = Some m"
  shows "kv_covers entry m a w"
proof -
  obtain s u where pq: "p = Some s" "q = Some u"
    and m: "m = \<lparr>kc_keys = kc_keys s @ kc_keys u, kc_fromOffset = kc_fromOffset s, kc_toOffset = kc_toOffset u\<rparr>"
    using assms(5) by (auto simp: kv_Merge_def split: option.splits)
  have "drop a (entries entry (take b w)) @ drop b (entries entry w) = drop a (entries entry w)"
  proof -
    have "drop a (entries entry (take b w)) = take (b - a) (drop a (entries entry w))"
      by (simp add: drop_take flip: entries_take)
    moreover have "drop b (entries entry w) = drop (b - a) (drop a (entries entry w))" using assms(3) by simp
    ultimately show ?thesis by (simp only: append_take_drop_id)
  qed
  then show ?thesis using assms(1)[OF pq(1)] assms(2)[OF pq(2)] assms(3,4) by (simp add: m kv_covers_def)
qed

lemma kv_refuse: "kv_holds entry c w \<Longrightarrow> kv_Restore z sn t c = (False, c') \<Longrightarrow> kv_holds entry c' w"
  using kv_Restore_refused[of z sn t c c'] by simp

text \<open>
  The layer: the buffer with its schedule. A write captures the scheduled offsets that it reaches, each
  snapshot from the boundary before.
\<close>

record 'v kvLayer =
  kl_buf :: "'v kvBuffer"
  kl_pending :: "'v kvCopy pendingSnapshots"

definition kl_capture :: "nat \<Rightarrow> 'v kvLayer \<Rightarrow> 'v kvLayer" where
  "kl_capture x c =
     c\<lparr>kl_pending := fst (captureReached x (\<lambda>u. (kv_copy (pd_base (kl_pending c)) x (kl_buf c), u)) (kl_pending c) ())\<rparr>"

definition kl_Update :: "'v \<Rightarrow> 'v list \<Rightarrow> 'v kvLayer \<Rightarrow> 'v kvLayer" where
  "kl_Update z keys c =
     (let b = kv_append z keys (kl_buf c)
      in fold kl_capture (scheduledIn (kv_offset (kl_buf c)) (kv_offset b) (kl_pending c)) (c\<lparr>kl_buf := b\<rparr>))"

definition kv_ops :: "'v \<Rightarrow> ('v kvLayer, 'v kvCopy) cache_ops" where
  "kv_ops zero =
     \<lparr>co_Offset = (\<lambda>c. kv_offset (kl_buf c)),
      co_Free = (\<lambda>c. \<lparr>kl_buf = kv_Free (kl_buf c), kl_pending = no_pending\<rparr>),
      co_Snapshot = (\<lambda>a c. kv_Snapshot a (kl_buf c)),
      co_Restore = (\<lambda>sn t c. case kv_Restore zero sn t (kl_buf c) of (b, buf) \<Rightarrow> (b, c\<lparr>kl_buf := buf\<rparr>)),
      co_Merge = kv_Merge, co_Split = kv_Split,
      co_PrepareSnapshots = (\<lambda>xs c. map_option (\<lambda>p. c\<lparr>kl_pending := p\<rparr>) (pd_prepare (kv_offset (kl_buf c)) xs (kl_pending c))),
      co_TakeSnapshots = (\<lambda>c. case pd_take (kl_pending c) of (out, p) \<Rightarrow> (out, c\<lparr>kl_pending := p\<rparr>))\<rparr>"

lemma kv_ops_simps [simp]:
  "co_Offset (kv_ops z) c = kv_offset (kl_buf c)" "kl_buf (co_Free (kv_ops z) c) = kv_Free (kl_buf c)"
  "co_Snapshot (kv_ops z) a c = kv_Snapshot a (kl_buf c)" "co_Merge (kv_ops z) = kv_Merge" "co_Split (kv_ops z) = kv_Split"
  by (simp_all add: kv_ops_def)

lemma kv_ops_restore:
  "co_Restore (kv_ops z) sn t c = (b, c') \<Longrightarrow> kv_Restore z sn t (kl_buf c) = (b, kl_buf c')"
  by (auto simp: kv_ops_def split: prod.splits)

abbreviation kl_holds :: "('k list \<Rightarrow> 'v) \<Rightarrow> 'v kvLayer \<Rightarrow> 'k list \<Rightarrow> bool" where
  "kl_holds entry c w \<equiv> kv_holds entry (kl_buf c) w"

interpretation kv: cache_layer "kv_ops z" "kl_holds entry" "kv_covers entry"
proof (unfold_locales, unfold kv_ops_simps, goal_cases)
  case (3 c w t c')
  show ?case by (rule kv_rewind[OF 3(1) kv_ops_restore[OF 3(2)]])
next
  case (4 c w v s a t c')
  show ?case by (rule kv_restore[OF 4(1,2,3) kv_ops_restore[OF 4(4)]])
next
  case (5 c w sn t c')
  show ?case by (rule kv_refuse[OF 5(1) kv_ops_restore[OF 5(2)]])
next
  case (8 p a b w q m)
  show ?case by (rule kv_merge[of p entry a b w q m]) (use 8 in simp_all)
qed (erule kv_holds_len kv_free kv_snapshot kv_split; assumption)+

end
