(* ===== verification/KVCache.thy ===== *)
theory KVCache
  imports CacheLayers "HOL-Library.Monad_Syntax"
begin

text \<open>
  \<^verbatim>\<open>mlxrunner/cache/kvcache.go\<close>: the cache of an attention layer. A snapshot starts out lazy, as a range
  of positions of the cache's own buffer, and gets a copy of its range only before a write reuses those
  slots or the buffer is freed. So the snapshots share the buffer, and everything that changes it has to
  copy first.

  A snapshot is a pointer into the store \<open>k_heap\<close>; \<open>k_next\<close> is the next unused pointer. The buffer is
  the list of its slots, a slot holding the key and the value of one position (the two arrays are always
  cut and written alike). A snapshot belongs to the cache that issued it, the only one of the model:
  \<open>s_cache\<close> says that its field \<^verbatim>\<open>cache\<close> is set. \<open>k_materialized\<close> is what the hooks of the snapshots have
  reported, in slots. Offsets are never negative. The scopes that own the arrays are not modelled; a call
  of a method on a \<^verbatim>\<open>nil\<close> pointer is \<open>None\<close>.

  The abstract layer has a store of its own whose snapshots are copies from the start; \<open>kv_refines\<close>
  says that no client can tell the two apart.
\<close>

section \<open>The cache\<close>

record 'v kvSnapshot =
  s_keys :: "'v list option"
  s_fromOffset :: nat
  s_toOffset :: nat
  s_cache :: bool
  s_onMaterialize :: bool

record 'v KVCache =
  k_keys :: "'v list option"
  k_offset :: nat
  k_step :: nat
  k_snapshots :: "nat pendingSnapshots"
  k_lazySnapshots :: "nat list"
  k_heap :: "nat \<Rightarrow> 'v kvSnapshot"
  k_next :: nat
  k_materialized :: nat

definition NewKVCache :: "'v KVCache" where
  "NewKVCache =
     \<lparr>k_keys = None, k_offset = 0, k_step = 256, k_snapshots = no_pending, k_lazySnapshots = [],
      k_heap = (\<lambda>_. \<lparr>s_keys = None, s_fromOffset = 0, s_toOffset = 0, s_cache = False, s_onMaterialize = False\<rparr>),
      k_next = 0, k_materialized = 0\<rparr>"

definition upd_snap :: "nat \<Rightarrow> ('v kvSnapshot \<Rightarrow> 'v kvSnapshot) \<Rightarrow> 'v KVCache \<Rightarrow> 'v KVCache" where
  "upd_snap p f c = c\<lparr>k_heap := (k_heap c)(p := f (k_heap c p))\<rparr>"

definition new_snap :: "'v kvSnapshot \<Rightarrow> 'v KVCache \<Rightarrow> nat \<times> 'v KVCache" where
  "new_snap s c = (k_next c, c\<lparr>k_heap := (k_heap c)(k_next c := s), k_next := Suc (k_next c)\<rparr>)"

definition KV_Size :: "nat \<Rightarrow> 'v KVCache \<Rightarrow> nat" where
  "KV_Size p c = (case s_keys (k_heap c p) of Some ks \<Rightarrow> length ks | None \<Rightarrow> 0)"

definition SetMaterializeHook :: "nat \<Rightarrow> bool \<Rightarrow> 'v KVCache \<Rightarrow> 'v KVCache" where
  "SetMaterializeHook p fn c = upd_snap p (\<lambda>s. s\<lparr>s_onMaterialize := fn\<rparr>) c"

definition addLazySnapshot :: "nat \<Rightarrow> 'v KVCache \<Rightarrow> 'v KVCache" where
  "addLazySnapshot p c = c\<lparr>k_lazySnapshots := k_lazySnapshots c @ [p]\<rparr>"

definition dropLazySnapshot :: "nat \<Rightarrow> 'v KVCache \<Rightarrow> 'v KVCache" where
  "dropLazySnapshot p c = c\<lparr>k_lazySnapshots := remove1 p (k_lazySnapshots c)\<rparr>"

definition CloseSnapshot :: "nat \<Rightarrow> 'v KVCache \<Rightarrow> 'v KVCache" where
  "CloseSnapshot p c =
     (if s_cache (k_heap c p) then upd_snap p (\<lambda>s. s\<lparr>s_cache := False\<rparr>) (dropLazySnapshot p c) else c)"

definition copyOut :: "nat \<Rightarrow> 'v KVCache \<Rightarrow> 'v KVCache option" where
  "copyOut p c =
     (let s = k_heap c p in
      if s_keys s \<noteq> None then Some c
      else if \<not> s_cache s then None
      else case k_keys c of
             None \<Rightarrow> None
           | Some b \<Rightarrow>
               let copies = drop (s_fromOffset s) (take (s_toOffset s) b);
                   c1 = upd_snap p (\<lambda>s. s\<lparr>s_keys := Some copies\<rparr>) c;
                   c2 = upd_snap p (\<lambda>s. s\<lparr>s_cache := False\<rparr>) (dropLazySnapshot p c1)
               in Some (if s_onMaterialize s
                        then upd_snap p (\<lambda>s. s\<lparr>s_onMaterialize := False\<rparr>)
                               (c2\<lparr>k_materialized := k_materialized c2 + length copies\<rparr>)
                        else c2))"

text \<open>The loops that copy snapshots out, over a clone of the list.\<close>

fun copy_each :: "('v kvSnapshot \<Rightarrow> bool) \<Rightarrow> nat list \<Rightarrow> 'v KVCache \<Rightarrow> 'v KVCache option" where
  "copy_each due [] c = Some c"
| "copy_each due (p # ps) c =
     (if due (k_heap c p) then do {c1 \<leftarrow> copyOut p c; copy_each due ps c1} else copy_each due ps c)"

definition appendKV :: "'v \<Rightarrow> 'v list \<Rightarrow> 'v KVCache \<Rightarrow> 'v KVCache option" where
  "appendKV zero keys c =
     (let L = length keys; prev = k_offset c in do {
        c1 \<leftarrow> copy_each (\<lambda>s. s_fromOffset s < prev + L \<and> prev < s_toOffset s) (k_lazySnapshots c) c;
        Some (c1\<lparr>k_keys := Some (write_buffer zero (k_step c1) prev keys (k_keys c1)), k_offset := prev + L\<rparr>)
      })"

definition lazySnapshot :: "nat \<Rightarrow> nat \<Rightarrow> 'v KVCache \<Rightarrow> nat option \<times> 'v KVCache" where
  "lazySnapshot fromOffset toOffset c =
     (if k_keys c = None \<or> toOffset \<le> fromOffset then (None, c)
      else (case new_snap \<lparr>s_keys = None, s_fromOffset = fromOffset, s_toOffset = toOffset, s_cache = True,
                           s_onMaterialize = False\<rparr> c of
              (p, c1) \<Rightarrow> (Some p, addLazySnapshot p c1)))"

definition captureLazy :: "nat \<Rightarrow> 'v KVCache \<Rightarrow> 'v KVCache" where
  "captureLazy x c =
     (case captureReached x (lazySnapshot (pd_base (k_snapshots c)) x) (k_snapshots c) c of
        (p, c1) \<Rightarrow> c1\<lparr>k_snapshots := p\<rparr>)"

definition captureLazySnapshots :: "nat \<Rightarrow> nat \<Rightarrow> 'v KVCache \<Rightarrow> 'v KVCache" where
  "captureLazySnapshots start e c = fold captureLazy (scheduledIn start e (k_snapshots c)) c"

definition KV_Update :: "'v \<Rightarrow> 'v list \<Rightarrow> 'v KVCache \<Rightarrow> 'v KVCache option" where
  "KV_Update zero keys c = do {
     c1 \<leftarrow> appendKV zero keys c;
     Some (captureLazySnapshots (k_offset c) (k_offset c1) c1)
   }"

definition KV_State :: "'v KVCache \<Rightarrow> 'v list option" where
  "KV_State c = map_option (take (k_offset c)) (k_keys c)"

definition KV_PrepareSnapshots :: "nat list \<Rightarrow> 'v KVCache \<Rightarrow> 'v KVCache option" where
  "KV_PrepareSnapshots offsets c =
     map_option (\<lambda>p. c\<lparr>k_snapshots := p\<rparr>) (pd_prepare (k_offset c) offsets (k_snapshots c))"

definition KV_TakeSnapshots :: "'v KVCache \<Rightarrow> nat option list \<times> 'v KVCache" where
  "KV_TakeSnapshots c = (case pd_take (k_snapshots c) of (out, p) \<Rightarrow> (out, c\<lparr>k_snapshots := p\<rparr>))"

definition KV_Snapshot :: "nat \<Rightarrow> 'v KVCache \<Rightarrow> nat option \<times> 'v KVCache" where
  "KV_Snapshot fromOffset c = lazySnapshot fromOffset (k_offset c) c"

definition KV_Restore :: "'v \<Rightarrow> nat option \<Rightarrow> nat \<Rightarrow> 'v KVCache \<Rightarrow> (bool \<times> 'v KVCache) option" where
  "KV_Restore zero snapshot target c =
     (case snapshot of
        None \<Rightarrow> Some (if k_offset c < target then (False, c) else (True, c\<lparr>k_offset := target\<rparr>))
      | Some p \<Rightarrow>
          let snap = k_heap c p in
          if s_toOffset snap < target \<or> k_offset c < s_fromOffset snap then Some (False, c)
          else if s_cache snap \<and> s_keys snap = None
          then Some (True, c\<lparr>k_offset := min target (s_toOffset snap)\<rparr>)
          else do {
            c1 \<leftarrow> copyOut p c;
            keys \<leftarrow> s_keys (k_heap c1 p);
            c2 \<leftarrow> appendKV zero keys (c1\<lparr>k_offset := s_fromOffset snap\<rparr>);
            Some (True, if target < k_offset c2 then c2\<lparr>k_offset := target\<rparr> else c2)
          })"

definition close_opt :: "nat option \<Rightarrow> 'v KVCache \<Rightarrow> 'v KVCache" where
  "close_opt p c = (case p of None \<Rightarrow> c | Some q \<Rightarrow> CloseSnapshot q c)"

definition KV_Merge :: "nat option \<Rightarrow> nat option \<Rightarrow> 'v KVCache \<Rightarrow> (nat option \<times> 'v KVCache) option" where
  "KV_Merge parent child c =
     (case (parent, child) of
        (Some p, Some ch) \<Rightarrow>
          let sp = k_heap c p; sc = k_heap c ch in
          if s_keys sp = None \<and> s_keys sc = None \<and> s_cache sp = s_cache sc \<and> s_toOffset sp = s_fromOffset sc
          then (if \<not> s_cache sp then None
                else (case new_snap \<lparr>s_keys = None, s_fromOffset = s_fromOffset sp, s_toOffset = s_toOffset sc,
                                     s_cache = True, s_onMaterialize = False\<rparr> c of
                        (m, c1) \<Rightarrow> Some (Some m, CloseSnapshot ch (CloseSnapshot p (addLazySnapshot m c1)))))
          else do {
            c1 \<leftarrow> copyOut p c;
            c2 \<leftarrow> copyOut ch c1;
            pk \<leftarrow> s_keys (k_heap c2 p);
            ck \<leftarrow> s_keys (k_heap c2 ch);
            (case new_snap \<lparr>s_keys = Some (pk @ ck), s_fromOffset = s_fromOffset sp, s_toOffset = s_toOffset sc,
                            s_cache = False, s_onMaterialize = False\<rparr> (CloseSnapshot ch (CloseSnapshot p c2)) of
               (m, c3) \<Rightarrow> Some (Some m, c3))
          }
      | _ \<Rightarrow> Some (None, close_opt child (close_opt parent c)))"

definition KV_Split :: "nat \<Rightarrow> nat \<Rightarrow> 'v KVCache \<Rightarrow> ((nat option \<times> nat option) \<times> 'v KVCache) option" where
  "KV_Split snapshot at c =
     (let snap = k_heap c snapshot;
          splitIdx = int at - int (s_fromOffset snap);
          seqLen = int (s_toOffset snap) - int (s_fromOffset snap);
          half = (\<lambda>keys from' to' live. \<lparr>s_keys = keys, s_fromOffset = from', s_toOffset = to', s_cache = live,
                    s_onMaterialize = False\<rparr>)
      in if splitIdx \<le> 0 then Some ((None, Some snapshot), c)
         else if seqLen \<le> splitIdx then Some ((Some snapshot, None), c)
         else (case s_keys snap of
                 None \<Rightarrow>
                   if \<not> s_cache snap then None
                   else (case new_snap (half None (s_fromOffset snap) at True) c of
                           (p, c1) \<Rightarrow> case new_snap (half None at (s_toOffset snap) True) c1 of
                             (ch, c2) \<Rightarrow> Some ((Some p, Some ch),
                               CloseSnapshot snapshot (addLazySnapshot ch (addLazySnapshot p c2))))
               | Some keys \<Rightarrow>
                   (case new_snap (half (Some (take (nat splitIdx) keys)) (s_fromOffset snap) at False)
                           (CloseSnapshot snapshot c) of
                      (p, c1) \<Rightarrow> case new_snap (half (Some (drop (nat splitIdx) keys)) at (s_toOffset snap) False) c1 of
                        (ch, c2) \<Rightarrow> Some ((Some p, Some ch), c2))))"

definition KV_Free :: "'v KVCache \<Rightarrow> 'v KVCache option" where
  "KV_Free c = do {
     c1 \<leftarrow> copy_each (\<lambda>_. True) (k_lazySnapshots c) c;
     Some (c1\<lparr>k_keys := None, k_offset := 0, k_snapshots := no_pending\<rparr>)
   }"

section \<open>The calls of a client\<close>

text \<open>
  What a client can do with a layer and the snapshots it owns: \<open>Split\<close> and \<open>Merge\<close> take the snapshots
  they are given, \<open>Close\<close> gives one up, and \<open>TakeSnapshots\<close> hands over those that were captured.
\<close>

datatype 'v kv_cmd =
  C_Update "'v list" | C_State | C_Prepare "nat list" | C_Take | C_Snapshot nat | C_Restore "nat option" nat
| C_Merge "nat option" "nat option" | C_Split nat nat | C_Close nat | C_Free

datatype 'v kv_reply = R_done | R_bool bool | R_state "'v list option" | R_snaps "nat option list"

fun kv_call :: "'v \<Rightarrow> 'v kv_cmd \<Rightarrow> 'v KVCache \<Rightarrow> ('v kv_reply \<times> 'v KVCache) option" where
  "kv_call z (C_Update keys) c = map_option (Pair R_done) (KV_Update z keys c)"
| "kv_call z C_State c = Some (R_state (KV_State c), c)"
| "kv_call z (C_Prepare offsets) c = map_option (Pair R_done) (KV_PrepareSnapshots offsets c)"
| "kv_call z C_Take c = Some (map_prod R_snaps id (KV_TakeSnapshots c))"
| "kv_call z (C_Snapshot from') c = Some (map_prod (\<lambda>p. R_snaps [p]) id (KV_Snapshot from' c))"
| "kv_call z (C_Restore p target) c = map_option (map_prod R_bool id) (KV_Restore z p target c)"
| "kv_call z (C_Merge p q) c = map_option (map_prod (\<lambda>m. R_snaps [m]) id) (KV_Merge p q c)"
| "kv_call z (C_Split p at) c = map_option (map_prod (\<lambda>(l, r). R_snaps [l, r]) id) (KV_Split p at c)"
| "kv_call z (C_Close p) c = Some (R_done, CloseSnapshot p c)"
| "kv_call z C_Free c = map_option (Pair R_done) (KV_Free c)"

fun kv_calls :: "'v \<Rightarrow> 'v kv_cmd list \<Rightarrow> 'v KVCache \<Rightarrow> ('v kv_reply list \<times> 'v KVCache) option" where
  "kv_calls z [] c = Some ([], c)"
| "kv_calls z (x # xs) c = do {
     (r, c1) \<leftarrow> kv_call z x c;
     (rs, c2) \<leftarrow> kv_calls z xs c1;
     Some (r # rs, c2)
   }"

section \<open>The abstract layer\<close>

text \<open>
  Here a snapshot is a copy from the start, kept in a store of its own that no write of the layer
  touches. \<open>None\<close> is a call that is not allowed: with a snapshot that is not owned (or twice the same
  one), or with a schedule that \<open>PrepareSnapshots\<close> panics on.
\<close>

record 'v kvAbstract =
  ka_buf :: "'v kvBuffer"
  ka_pending :: "nat pendingSnapshots"
  ka_store :: "nat \<Rightarrow> 'v kvCopy option"
  ka_next :: nat

definition ka_init :: "'v kvAbstract" where
  "ka_init = \<lparr>ka_buf = new_buffer, ka_pending = no_pending, ka_store = (\<lambda>_. None), ka_next = 0\<rparr>"

definition ka_add :: "'v kvCopy \<Rightarrow> 'v kvAbstract \<Rightarrow> nat \<times> 'v kvAbstract" where
  "ka_add v a = (ka_next a, a\<lparr>ka_store := (ka_store a)(ka_next a \<mapsto> v), ka_next := Suc (ka_next a)\<rparr>)"

definition ka_drop :: "nat \<Rightarrow> 'v kvAbstract \<Rightarrow> 'v kvAbstract" where
  "ka_drop p a = a\<lparr>ka_store := (ka_store a)(p := None)\<rparr>"

definition ka_new :: "nat \<Rightarrow> nat \<Rightarrow> 'v kvAbstract \<Rightarrow> nat option \<times> 'v kvAbstract" where
  "ka_new from' to' a =
     (case kv_copy from' to' (ka_buf a) of
        None \<Rightarrow> (None, a)
      | Some v \<Rightarrow> (case ka_add v a of (p, a1) \<Rightarrow> (Some p, a1)))"

definition ka_capture :: "nat \<Rightarrow> 'v kvAbstract \<Rightarrow> 'v kvAbstract" where
  "ka_capture x a =
     (case captureReached x (ka_new (pd_base (ka_pending a)) x) (ka_pending a) a of
        (p, a1) \<Rightarrow> a1\<lparr>ka_pending := p\<rparr>)"

definition ka_update :: "'v \<Rightarrow> 'v list \<Rightarrow> 'v kvAbstract \<Rightarrow> 'v kvAbstract" where
  "ka_update z keys a =
     (let b = kv_append z keys (ka_buf a)
      in fold ka_capture (scheduledIn (kv_offset (ka_buf a)) (kv_offset b) (ka_pending a)) (a\<lparr>ka_buf := b\<rparr>))"

fun ka_merge :: "nat option \<Rightarrow> nat option \<Rightarrow> 'v kvAbstract \<Rightarrow> (nat option \<times> 'v kvAbstract) option" where
  "ka_merge (Some p) (Some q) a =
     (if p = q then None
      else do {
        u \<leftarrow> ka_store a p;
        v \<leftarrow> ka_store a q;
        m \<leftarrow> kv_Merge (Some u) (Some v);
        (case ka_add m (ka_drop q (ka_drop p a)) of (n, a1) \<Rightarrow> Some (Some n, a1))
      })"
| "ka_merge (Some p) None a = (if ka_store a p = None then None else Some (None, ka_drop p a))"
| "ka_merge None (Some q) a = (if ka_store a q = None then None else Some (None, ka_drop q a))"
| "ka_merge None None a = Some (None, a)"

definition ka_split :: "nat \<Rightarrow> nat \<Rightarrow> 'v kvAbstract \<Rightarrow> ((nat option \<times> nat option) \<times> 'v kvAbstract) option" where
  "ka_split p at a = do {
     v \<leftarrow> ka_store a p;
     (case kv_Split v at of
        (Some u, Some w) \<Rightarrow>
          (case ka_add u (ka_drop p a) of (l, a1) \<Rightarrow> case ka_add w a1 of (r, a2) \<Rightarrow> Some ((Some l, Some r), a2))
      | (l, r) \<Rightarrow> Some ((map_option (\<lambda>_. p) l, map_option (\<lambda>_. p) r), a))
   }"

fun ka_call :: "'v \<Rightarrow> 'v kv_cmd \<Rightarrow> 'v kvAbstract \<Rightarrow> ('v kv_reply \<times> 'v kvAbstract) option" where
  "ka_call z (C_Update keys) a = Some (R_done, ka_update z keys a)"
| "ka_call z C_State a = Some (R_state (map_option (take (kv_offset (ka_buf a))) (kv_keys (ka_buf a))), a)"
| "ka_call z (C_Prepare offsets) a =
     map_option (\<lambda>p. (R_done, a\<lparr>ka_pending := p\<rparr>)) (pd_prepare (kv_offset (ka_buf a)) offsets (ka_pending a))"
| "ka_call z C_Take a = (case pd_take (ka_pending a) of (out, p) \<Rightarrow> Some (R_snaps out, a\<lparr>ka_pending := p\<rparr>))"
| "ka_call z (C_Snapshot from') a =
     (case ka_new from' (kv_offset (ka_buf a)) a of (p, a1) \<Rightarrow> Some (R_snaps [p], a1))"
| "ka_call z (C_Restore None target) a =
     (case kv_Restore z None target (ka_buf a) of (b, buf) \<Rightarrow> Some (R_bool b, a\<lparr>ka_buf := buf\<rparr>))"
| "ka_call z (C_Restore (Some p) target) a = do {
     v \<leftarrow> ka_store a p;
     (case kv_Restore z (Some v) target (ka_buf a) of (b, buf) \<Rightarrow> Some (R_bool b, a\<lparr>ka_buf := buf\<rparr>))
   }"
| "ka_call z (C_Merge p q) a = map_option (map_prod (\<lambda>m. R_snaps [m]) id) (ka_merge p q a)"
| "ka_call z (C_Split p at) a = map_option (map_prod (\<lambda>(l, r). R_snaps [l, r]) id) (ka_split p at a)"
| "ka_call z (C_Close p) a = (if ka_store a p = None then None else Some (R_done, ka_drop p a))"
| "ka_call z C_Free a = Some (R_done, a\<lparr>ka_buf := kv_Free (ka_buf a), ka_pending := no_pending\<rparr>)"

fun ka_calls :: "'v \<Rightarrow> 'v kv_cmd list \<Rightarrow> 'v kvAbstract \<Rightarrow> ('v kv_reply list \<times> 'v kvAbstract) option" where
  "ka_calls z [] a = Some ([], a)"
| "ka_calls z (x # xs) a = do {
     (r, a1) \<leftarrow> ka_call z x a;
     (rs, a2) \<leftarrow> ka_calls z xs a1;
     Some (r # rs, a2)
   }"

section \<open>The lazy layer keeps its snapshots\<close>

definition buf :: "'v KVCache \<Rightarrow> 'v kvBuffer" where
  "buf c = \<lparr>kv_keys = k_keys c, kv_offset = k_offset c, kv_step = k_step c\<rparr>"

text \<open>What a snapshot stands for, and whether it still stands for something.\<close>

definition view :: "'v KVCache \<Rightarrow> nat \<Rightarrow> 'v kvCopy" where
  "view c p =
     (let s = k_heap c p in
      \<lparr>kc_keys = (case s_keys s of Some ks \<Rightarrow> ks
                  | None \<Rightarrow> drop (s_fromOffset s) (take (s_toOffset s) (case k_keys c of None \<Rightarrow> [] | Some b \<Rightarrow> b))),
       kc_fromOffset = s_fromOffset s, kc_toOffset = s_toOffset s\<rparr>)"

definition held :: "'v KVCache \<Rightarrow> nat \<Rightarrow> bool" where
  "held c p \<longleftrightarrow> p < k_next c \<and> (s_keys (k_heap c p) \<noteq> None \<or> s_cache (k_heap c p))"

text \<open>
  The lazy snapshots are exactly those in the list, each a range inside the buffer.
\<close>

definition lazy_ok :: "'v KVCache \<Rightarrow> nat \<Rightarrow> bool" where
  "lazy_ok c p \<longleftrightarrow> p < k_next c \<and> s_keys (k_heap c p) = None \<and> s_fromOffset (k_heap c p) < s_toOffset (k_heap c p) \<and>
     (\<exists>b. k_keys c = Some b \<and> s_toOffset (k_heap c p) \<le> length b)"

definition KV_inv :: "'v KVCache \<Rightarrow> bool" where
  "KV_inv c \<longleftrightarrow> kv_ok (buf c) \<and> distinct (k_lazySnapshots c) \<and>
     (\<forall>p\<in>set (k_lazySnapshots c). lazy_ok c p) \<and>
     (\<forall>p. s_cache (k_heap c p) \<longleftrightarrow> p \<in> set (k_lazySnapshots c))"

definition keeps :: "'v KVCache \<Rightarrow> 'v KVCache \<Rightarrow> bool" where
  "keeps c c' \<longleftrightarrow> k_snapshots c' = k_snapshots c \<and> k_next c' = k_next c \<and>
     (\<forall>p. held c p \<longrightarrow> held c' p \<and> view c' p = view c p)"

lemma keeps_refl: "keeps c c" by (simp add: keeps_def)

lemma keeps_trans: "keeps a b \<Longrightarrow> keeps b c \<Longrightarrow> keeps a c" by (simp add: keeps_def)

lemma buf_simps [simp]:
  "kv_keys (buf c) = k_keys c" "kv_offset (buf c) = k_offset c" "kv_step (buf c) = k_step c"
  by (simp_all add: buf_def)

definition same_ranges :: "'v KVCache \<Rightarrow> 'v KVCache \<Rightarrow> bool" where
  "same_ranges c c' \<longleftrightarrow> (\<forall>q. s_fromOffset (k_heap c' q) = s_fromOffset (k_heap c q) \<and>
     s_toOffset (k_heap c' q) = s_toOffset (k_heap c q))"

lemma copyOut_lazy:
  assumes "KV_inv c" "p \<in> set (k_lazySnapshots c)"
  obtains c' where "copyOut p c = Some c'" "KV_inv c'" "buf c' = buf c" "keeps c c'"
    "s_keys (k_heap c' p) = Some (kc_keys (view c p))" "k_lazySnapshots c' = remove1 p (k_lazySnapshots c)"
    "same_ranges c c'"
proof -
  let ?s = "k_heap c p"
  have lazy: "lazy_ok c p" "s_cache ?s" using assms by (auto simp: KV_inv_def)
  then obtain b where b: "k_keys c = Some b" "s_keys ?s = None" by (auto simp: lazy_ok_def)
  obtain c' where c': "copyOut p c = Some c'" using lazy b by (simp add: copyOut_def Let_def)
  have h: "k_heap c' = (k_heap c)(p := ?s\<lparr>s_keys := Some (drop (s_fromOffset ?s) (take (s_toOffset ?s) b)),
      s_cache := False, s_onMaterialize := False\<rparr>)"
    and rest: "buf c' = buf c" "k_lazySnapshots c' = remove1 p (k_lazySnapshots c)" "k_snapshots c' = k_snapshots c"
      "k_next c' = k_next c" "k_keys c' = k_keys c"
    using c' lazy b by (auto simp: copyOut_def Let_def upd_snap_def dropLazySnapshot_def buf_def fun_eq_iff split: if_splits)
  have "KV_inv c'" using assms(1) rest by (auto simp: KV_inv_def lazy_ok_def h)
  moreover have "keeps c c'" using rest b lazy by (auto simp: keeps_def held_def view_def h Let_def split: option.split)
  moreover have "s_keys (k_heap c' p) = Some (kc_keys (view c p))" using b by (simp add: h view_def Let_def)
  moreover have "same_ranges c c'" by (simp add: same_ranges_def h)
  ultimately show thesis using that c' rest by blast
qed

lemma held_cases: "KV_inv c \<Longrightarrow> held c p \<Longrightarrow> s_keys (k_heap c p) \<noteq> None \<or> p \<in> set (k_lazySnapshots c)"
  by (auto simp: KV_inv_def held_def)

text \<open>Copying out changes nothing but who owns the data.\<close>

definition settles :: "'v KVCache \<Rightarrow> 'v KVCache \<Rightarrow> bool" where
  "settles c c' \<longleftrightarrow> KV_inv c' \<and> buf c' = buf c \<and> keeps c c' \<and> same_ranges c c' \<and>
     set (k_lazySnapshots c') \<subseteq> set (k_lazySnapshots c)"

lemma settles_refl: "KV_inv c \<Longrightarrow> settles c c"
  by (simp add: settles_def keeps_refl same_ranges_def)

lemma settles_trans: "settles a b \<Longrightarrow> settles b c \<Longrightarrow> settles a c"
  using keeps_trans[of a b c] by (auto simp: settles_def same_ranges_def)

lemma copyOut_settles:
  assumes "KV_inv c" "held c p"
  obtains c' where "copyOut p c = Some c'" "settles c c'" "s_keys (k_heap c' p) = Some (kc_keys (view c p))"
    "p \<notin> set (k_lazySnapshots c')"
proof (cases "s_keys (k_heap c p)")
  case None
  then have "p \<in> set (k_lazySnapshots c)" using held_cases[OF assms] by simp
  from copyOut_lazy[OF assms(1) this] obtain c' where c': "copyOut p c = Some c'" "KV_inv c'" "buf c' = buf c"
    "keeps c c'" "s_keys (k_heap c' p) = Some (kc_keys (view c p))" "k_lazySnapshots c' = remove1 p (k_lazySnapshots c)"
    "same_ranges c c'" by blast
  moreover have "distinct (k_lazySnapshots c)" using assms(1) by (simp add: KV_inv_def)
  ultimately show ?thesis using that[of c'] by (auto simp: settles_def)
next
  case (Some ks)
  then have "p \<notin> set (k_lazySnapshots c)" using assms(1) by (auto simp: KV_inv_def lazy_ok_def)
  then show ?thesis using that[of c] Some settles_refl[OF assms(1)] by (simp add: copyOut_def view_def Let_def)
qed

lemma copy_each_settles:
  assumes "\<And>c c' q. same_ranges c c' \<Longrightarrow> due (k_heap c' q) = due (k_heap c q)"
  shows "KV_inv c \<Longrightarrow> distinct ps \<Longrightarrow> set ps \<subseteq> set (k_lazySnapshots c) \<Longrightarrow>
    \<exists>c'. copy_each due ps c = Some c' \<and> settles c c' \<and>
      (\<forall>p\<in>set ps. due (k_heap c p) \<longrightarrow> p \<notin> set (k_lazySnapshots c'))"
proof (induction ps arbitrary: c)
  case (Cons p ps)
  show ?case
  proof (cases "due (k_heap c p)")
    case True
    have p: "p \<in> set (k_lazySnapshots c)" using Cons.prems(3) by simp
    obtain c1 where c1: "copyOut p c = Some c1" "KV_inv c1" "buf c1 = buf c" "keeps c c1"
      "k_lazySnapshots c1 = remove1 p (k_lazySnapshots c)" "same_ranges c c1"
      using copyOut_lazy[OF Cons.prems(1) p] by blast
    have d: "distinct (k_lazySnapshots c)" using Cons.prems(1) by (simp add: KV_inv_def)
    have s1: "settles c c1" using c1 by (simp add: settles_def set_remove1_eq[OF d])
    have "set ps \<subseteq> set (k_lazySnapshots c1)" using Cons.prems(2,3) c1(5) d by auto
    then obtain c' where c': "copy_each due ps c1 = Some c'" "settles c1 c'"
      "\<forall>q\<in>set ps. due (k_heap c1 q) \<longrightarrow> q \<notin> set (k_lazySnapshots c')"
      using Cons.IH[OF c1(2)] Cons.prems(2) by auto
    have "p \<notin> set (k_lazySnapshots c')" using c'(2) c1(5) d by (auto simp: settles_def)
    then show ?thesis using True c1(1) c' settles_trans[OF s1 c'(2)] assms[OF c1(6)] by auto
  next
    case False
    then show ?thesis using Cons.IH[OF Cons.prems(1)] Cons.prems(2,3) by auto
  qed
qed (simp add: settles_refl)

text \<open>A write that no lazy snapshot overlaps leaves their ranges alone.\<close>

lemma kv_ok_room: "kv_ok b \<Longrightarrow> kv_keys b = Some ks \<Longrightarrow> kv_offset b \<le> length ks"
  by (simp add: kv_ok_def kv_live_def min_def split: if_splits)

lemma write_buffer_outside:
  assumes "prev \<le> length b" "to' \<le> length b" "to' \<le> prev \<or> prev + length keys \<le> from'" "from' < to'" "0 < step"
  shows "drop from' (take to' (write_buffer z step prev keys (Some b))) = drop from' (take to' b)"
    "to' \<le> length (write_buffer z step prev keys (Some b))"
proof -
  define grown where "grown = grow_buffer z step prev (length keys) (Some b)"
  have w: "write_buffer z step prev keys (Some b) = take prev grown @ keys @ drop (prev + length keys) grown"
    by (simp only: write_buffer_def Let_def grown_def)
  have fresh: "length keys \<le> (step + length keys - 1) div step * step" by (rule div_up[OF assms(5)])
  have low: "take prev grown = take prev b" using assms(1) by (simp add: grown_def grow_buffer_def Let_def)
  have room: "prev + length keys \<le> length grown"
    using assms(1) fresh by (simp add: grown_def grow_buffer_def Let_def min_def)
  have "drop from' (take to' (take prev grown @ keys @ drop (prev + length keys) grown)) = drop from' (take to' b) \<and>
      to' \<le> length (take prev grown @ keys @ drop (prev + length keys) grown)"
  proof (cases "to' \<le> prev")
    case True
    then show ?thesis using assms(1) by (simp add: low min_def)
  next
    case False
    then have after: "prev + length keys \<le> from'" using assms(3) by simp
    then have g: "grown = b" using assms(2,4) by (simp add: grown_def grow_buffer_def)
    show ?thesis using assms(1,2,4) after unfolding g
      by (simp add: drop_take)
  qed
  then show "drop from' (take to' (write_buffer z step prev keys (Some b))) = drop from' (take to' b)"
    "to' \<le> length (write_buffer z step prev keys (Some b))" by (simp_all add: w)
qed

lemma state_cong:
  assumes "k_heap c' = k_heap c" "k_keys c' = k_keys c" "k_next c' = k_next c"
  shows "view c' p = view c p" "held c' p = held c p" "lazy_ok c' p = lazy_ok c p"
  by (simp_all only: view_def held_def lazy_ok_def assms)

lemma view_owned: "s_keys (k_heap c p) = Some ks \<Longrightarrow>
  view c p = \<lparr>kc_keys = ks, kc_fromOffset = s_fromOffset (k_heap c p), kc_toOffset = s_toOffset (k_heap c p)\<rparr>"
  by (simp add: view_def Let_def)

lemma view_lazy: "s_keys (k_heap c p) = None \<Longrightarrow> k_keys c = Some b \<Longrightarrow>
  view c p = \<lparr>kc_keys = drop (s_fromOffset (k_heap c p)) (take (s_toOffset (k_heap c p)) b),
    kc_fromOffset = s_fromOffset (k_heap c p), kc_toOffset = s_toOffset (k_heap c p)\<rparr>"
  by (simp add: view_def Let_def)

lemma appendKV_keeps:
  assumes "KV_inv c"
  shows "\<exists>c'. appendKV z keys c = Some c' \<and> KV_inv c' \<and> buf c' = kv_append z keys (buf c) \<and> keeps c c'"
proof -
  let ?prev = "k_offset c" and ?L = "length keys"
  let ?due = "\<lambda>s. s_fromOffset s < ?prev + ?L \<and> ?prev < s_toOffset s"
  have d: "distinct (k_lazySnapshots c)" using assms by (simp add: KV_inv_def)
  obtain c1 where c1: "copy_each ?due (k_lazySnapshots c) c = Some c1" "settles c c1"
    "\<forall>p\<in>set (k_lazySnapshots c). ?due (k_heap c p) \<longrightarrow> p \<notin> set (k_lazySnapshots c1)"
    using copy_each_settles[of ?due c "k_lazySnapshots c"] assms d by (auto simp: same_ranges_def)
  have inv1: "KV_inv c1" and b1: "buf c1 = buf c" and k1: "keeps c c1" and r1: "same_ranges c c1"
    and sub: "set (k_lazySnapshots c1) \<subseteq> set (k_lazySnapshots c)" using c1(2) by (auto simp: settles_def)
  have same: "k_keys c1 = k_keys c" "k_offset c1 = k_offset c" "k_step c1 = k_step c"
    using arg_cong[OF b1, of kv_keys] arg_cong[OF b1, of kv_offset] arg_cong[OF b1, of kv_step] by simp_all
  define w where "w = write_buffer z (k_step c1) ?prev keys (k_keys c1)"
  define c' where "c' = c1\<lparr>k_keys := Some w, k_offset := ?prev + ?L\<rparr>"
  have run: "appendKV z keys c = Some c'" using c1(1) by (simp add: appendKV_def Let_def c'_def w_def)
  have bc: "buf c' = kv_append z keys (buf c)" by (simp add: buf_def kv_append_def c'_def w_def same)
  have ok: "kv_ok (buf c)" using assms by (simp add: KV_inv_def)
  have lazy: "drop (s_fromOffset (k_heap c1 p)) (take (s_toOffset (k_heap c1 p)) w)
      = drop (s_fromOffset (k_heap c1 p)) (take (s_toOffset (k_heap c1 p)) b) \<and> lazy_ok c' p"
    if "p \<in> set (k_lazySnapshots c1)" "k_keys c = Some b" for p b
  proof -
    have "p \<in> set (k_lazySnapshots c)" using that(1) sub by blast
    then have nd: "\<not> ?due (k_heap c1 p)" using c1(3) that(1) r1 by (auto simp: same_ranges_def)
    have l: "lazy_ok c1 p" using inv1 that(1) by (simp add: KV_inv_def)
    have "?prev \<le> length b" "0 < k_step c" using kv_ok_room[OF ok] ok that(2) by (auto simp: kv_ok_def)
    then have "drop (s_fromOffset (k_heap c1 p)) (take (s_toOffset (k_heap c1 p)) w)
        = drop (s_fromOffset (k_heap c1 p)) (take (s_toOffset (k_heap c1 p)) b) \<and> s_toOffset (k_heap c1 p) \<le> length w"
      using write_buffer_outside[of ?prev b "s_toOffset (k_heap c1 p)" keys "s_fromOffset (k_heap c1 p)" "k_step c" z] l nd that(2)
      by (auto simp: w_def same lazy_ok_def)
    then show ?thesis using l by (auto simp: c'_def lazy_ok_def)
  qed
  have some: "\<exists>b. k_keys c = Some b" if "p \<in> set (k_lazySnapshots c1)" for p
    using that inv1 same(1) by (auto simp: KV_inv_def lazy_ok_def)
  have "KV_inv c'" unfolding KV_inv_def
  proof (intro conjI)
    show "kv_ok (buf c')" unfolding bc by (rule kv_append_live(1)[OF ok])
    have "k_lazySnapshots c' = k_lazySnapshots c1" by (simp add: c'_def)
    then show "\<forall>p\<in>set (k_lazySnapshots c'). lazy_ok c' p" using lazy some by metis
  qed (use inv1 in \<open>simp_all add: c'_def KV_inv_def\<close>)
  moreover have "keeps c1 c'"
  proof -
    have "view c' p = view c1 p" if "held c1 p" for p
    proof (cases "s_keys (k_heap c1 p)")
      case None
      then have p: "p \<in> set (k_lazySnapshots c1)" using held_cases[OF inv1 that] by simp
      then obtain b where b: "k_keys c = Some b" using some by blast
      then show ?thesis using view_lazy[OF None, of b] view_lazy[of c' p w] lazy[OF p b] None same(1) by (simp add: c'_def)
    qed (simp add: view_owned c'_def)
    then show ?thesis by (auto simp: keeps_def c'_def held_def)
  qed
  ultimately show ?thesis using run bc keeps_trans[OF k1] by blast
qed

lemma rewind_keeps:
  assumes "KV_inv c" "t \<le> length (case k_keys c of None \<Rightarrow> [] | Some b \<Rightarrow> b)"
  shows "KV_inv (c\<lparr>k_offset := t\<rparr>)" "keeps c (c\<lparr>k_offset := t\<rparr>)"
proof -
  have "kv_ok (buf (c\<lparr>k_offset := t\<rparr>))" using assms by (auto simp: KV_inv_def kv_ok_def kv_live_def min_def)
  then show "KV_inv (c\<lparr>k_offset := t\<rparr>)" using assms(1) by (auto simp: KV_inv_def lazy_ok_def)
  show "keeps c (c\<lparr>k_offset := t\<rparr>)" using state_cong[of "c\<lparr>k_offset := t\<rparr>" c] by (simp add: keeps_def)
qed

lemma KV_room: "KV_inv c \<Longrightarrow> k_offset c \<le> length (case k_keys c of None \<Rightarrow> [] | Some b \<Rightarrow> b)"
  by (auto simp: KV_inv_def kv_ok_def kv_live_def min_def split: if_splits)

section \<open>Refinement\<close>

definition sim :: "'v KVCache \<Rightarrow> 'v kvAbstract \<Rightarrow> bool" where
  "sim c a \<longleftrightarrow> KV_inv c \<and> buf c = ka_buf a \<and> k_snapshots c = ka_pending a \<and> k_next c = ka_next a \<and>
     (\<forall>p v. ka_store a p = Some v \<longrightarrow> held c p \<and> view c p = v)"

lemma sim_keeps: "sim c a \<Longrightarrow> KV_inv c' \<Longrightarrow> keeps c c' \<Longrightarrow> buf c' = b \<Longrightarrow> sim c' (a\<lparr>ka_buf := b\<rparr>)"
  by (auto simp: sim_def keeps_def)

lemma sim_pending: "sim c a \<Longrightarrow> sim (c\<lparr>k_snapshots := p\<rparr>) (a\<lparr>ka_pending := p\<rparr>)"
  using state_cong[of "c\<lparr>k_snapshots := p\<rparr>" c] by (auto simp: sim_def KV_inv_def buf_def)

lemma sim_parts:
  "sim c a \<Longrightarrow> k_keys c = kv_keys (ka_buf a) \<and> k_offset c = kv_offset (ka_buf a) \<and> k_step c = kv_step (ka_buf a)"
  by (metis buf_simps sim_def)

lemma sim_settles:
  assumes "sim c a" "settles c c'"
  shows "sim c' a"
  using sim_keeps[of c a c' "ka_buf a"] assms by (simp add: settles_def sim_def)

lemma sim_owned: "sim c a \<Longrightarrow> ka_store a p = Some v \<Longrightarrow> held c p \<and> view c p = v"
  by (simp add: sim_def)

text \<open>A new snapshot, a closed one.\<close>

lemma sim_new_owned:
  assumes "sim c a" "s_keys s = Some ks" "\<not> s_cache s" "new_snap s c = (p, c')"
    "ka_add \<lparr>kc_keys = ks, kc_fromOffset = s_fromOffset s, kc_toOffset = s_toOffset s\<rparr> a = (q, a')"
  shows "p = q \<and> sim c' a'"
proof -
  have c': "p = k_next c" "k_heap c' = (k_heap c)(k_next c := s)" "k_next c' = Suc (k_next c)" "buf c' = buf c"
    "k_lazySnapshots c' = k_lazySnapshots c" "k_snapshots c' = k_snapshots c" "k_keys c' = k_keys c"
    using assms(4) by (auto simp: new_snap_def buf_def)
  have a': "q = ka_next a" "ka_buf a' = ka_buf a" "ka_pending a' = ka_pending a" "ka_next a' = Suc (ka_next a)"
    "ka_store a' = (ka_store a)(ka_next a \<mapsto> \<lparr>kc_keys = ks, kc_fromOffset = s_fromOffset s, kc_toOffset = s_toOffset s\<rparr>)"
    using assms(5) by (auto simp: ka_add_def)
  have old: "held c' r = held c r" "view c' r = view c r" if "held c r" for r
    using that c' by (auto simp: held_def view_def split: option.split)
  have lazy: "k_next c \<notin> set (k_lazySnapshots c)" using assms(1) by (auto simp: sim_def KV_inv_def lazy_ok_def)
  have "KV_inv c'" using assms(1,3) lazy c' by (auto simp: sim_def KV_inv_def lazy_ok_def)
  moreover have "held c' (k_next c)" "view c' (k_next c) = \<lparr>kc_keys = ks, kc_fromOffset = s_fromOffset s, kc_toOffset = s_toOffset s\<rparr>"
    using assms(2) c' by (auto simp: held_def view_def)
  ultimately show ?thesis using assms(1) c' a' old by (auto simp: sim_def)
qed

lemma sim_new_lazy:
  assumes "sim c a" "s_keys s = None" "s_cache s" "s_fromOffset s < s_toOffset s" "k_keys c = Some b"
    "s_toOffset s \<le> length b" "new_snap s c = (p, c1)"
    "ka_add \<lparr>kc_keys = drop (s_fromOffset s) (take (s_toOffset s) b), kc_fromOffset = s_fromOffset s,
       kc_toOffset = s_toOffset s\<rparr> a = (q, a')"
  shows "p = q \<and> sim (addLazySnapshot p c1) a' \<and> buf (addLazySnapshot p c1) = buf c"
proof -
  define c' where "c' = addLazySnapshot p c1"
  have c': "p = k_next c" "k_heap c' = (k_heap c)(k_next c := s)" "k_next c' = Suc (k_next c)" "buf c' = buf c"
    "k_lazySnapshots c' = k_lazySnapshots c @ [k_next c]" "k_snapshots c' = k_snapshots c" "k_keys c' = k_keys c"
    using assms(7) by (auto simp: c'_def new_snap_def addLazySnapshot_def buf_def)
  have a': "q = ka_next a" "ka_buf a' = ka_buf a" "ka_pending a' = ka_pending a" "ka_next a' = Suc (ka_next a)"
    "ka_store a' = (ka_store a)(ka_next a \<mapsto> \<lparr>kc_keys = drop (s_fromOffset s) (take (s_toOffset s) b),
       kc_fromOffset = s_fromOffset s, kc_toOffset = s_toOffset s\<rparr>)"
    using assms(8) by (auto simp: ka_add_def)
  have old: "held c' r = held c r" "view c' r = view c r" if "held c r" for r
    using that c' by (auto simp: held_def view_def split: option.split)
  have lazy: "k_next c \<notin> set (k_lazySnapshots c)" using assms(1) by (auto simp: sim_def KV_inv_def lazy_ok_def)
  have inv: "KV_inv c" using assms(1) by (simp add: sim_def)
  have "KV_inv c'" unfolding KV_inv_def
  proof (intro conjI)
    show "kv_ok (buf c')" using inv c'(4) by (simp add: KV_inv_def)
    show "distinct (k_lazySnapshots c')" using inv lazy c'(5) by (simp add: KV_inv_def)
    show "\<forall>p\<in>set (k_lazySnapshots c'). lazy_ok c' p"
      using inv assms(2,4-6) lazy by (auto simp: KV_inv_def lazy_ok_def c')
    show "\<forall>p. s_cache (k_heap c' p) = (p \<in> set (k_lazySnapshots c'))"
      using inv assms(3) lazy by (auto simp: KV_inv_def c')
  qed
  moreover have "held c' (k_next c)" using assms(3) c' by (simp add: held_def)
  moreover have "view c' (k_next c) = \<lparr>kc_keys = drop (s_fromOffset s) (take (s_toOffset s) b),
       kc_fromOffset = s_fromOffset s, kc_toOffset = s_toOffset s\<rparr>"
    using view_lazy[of c' "k_next c" b] assms(2,5) c' by simp
  ultimately have "sim c' a'" using assms(1) c' a' old by (auto simp: sim_def)
  then show ?thesis using assms(1) c' a' by (simp add: sim_def c'_def)
qed

lemma sim_lazySnapshot:
  assumes "sim c a" "\<And>b. k_keys c = Some b \<Longrightarrow> to' \<le> length b" "lazySnapshot from' to' c = (r, c')"
  shows "\<exists>a'. ka_new from' to' a = (r, a') \<and> sim c' a' \<and> buf c' = buf c"
proof (cases "k_keys c = None \<or> to' \<le> from'")
  case True
  then show ?thesis using assms(1,3) sim_parts[OF assms(1)]
    by (auto simp: lazySnapshot_def ka_new_def kv_copy_def split: option.split)
next
  case False
  then obtain b where b: "k_keys c = Some b" "from' < to'" by auto
  let ?s = "\<lparr>s_keys = None, s_fromOffset = from', s_toOffset = to', s_cache = True, s_onMaterialize = False\<rparr>"
  obtain p c1 where n: "new_snap ?s c = (p, c1)" by fastforce
  obtain q a' where m: "ka_add \<lparr>kc_keys = drop from' (take to' b), kc_fromOffset = from', kc_toOffset = to'\<rparr> a = (q, a')"
    by fastforce
  have "p = q \<and> sim (addLazySnapshot p c1) a' \<and> buf (addLazySnapshot p c1) = buf c"
    by (rule sim_new_lazy[OF assms(1), of ?s b]) (use b assms(2)[OF b(1)] n m in auto)
  then show ?thesis using assms(3) False n m b sim_parts[OF assms(1)]
    by (auto simp: lazySnapshot_def ka_new_def kv_copy_def)
qed

lemma sim_close:
  assumes "sim c a"
  shows "sim (CloseSnapshot p c) (ka_drop p a)"
proof (cases "s_cache (k_heap c p)")
  case True
  define c' where "c' = CloseSnapshot p c"
  have c': "k_heap c' = (k_heap c)(p := (k_heap c p)\<lparr>s_cache := False\<rparr>)" "k_next c' = k_next c" "buf c' = buf c"
    "k_lazySnapshots c' = remove1 p (k_lazySnapshots c)" "k_snapshots c' = k_snapshots c" "k_keys c' = k_keys c"
    using True by (auto simp: c'_def CloseSnapshot_def upd_snap_def dropLazySnapshot_def buf_def fun_eq_iff)
  have "KV_inv c'" using assms c'(3) by (auto simp: sim_def KV_inv_def lazy_ok_def c')
  moreover have "held c' r \<and> view c' r = view c r" if "held c r" "r \<noteq> p" for r
    using that by (auto simp: held_def view_def c' split: option.split)
  ultimately show ?thesis using assms c' unfolding c'_def[symmetric] by (auto simp: sim_def ka_drop_def)
next
  case False
  then show ?thesis using assms by (auto simp: CloseSnapshot_def sim_def ka_drop_def)
qed

text \<open>Captures.\<close>

definition room :: "nat \<Rightarrow> 'v KVCache \<Rightarrow> bool" where
  "room x c \<longleftrightarrow> (\<forall>b. k_keys c = Some b \<longrightarrow> x \<le> length b)"

lemma room_buf: "buf c' = buf c \<Longrightarrow> room x c' = room x c"
  by (simp add: room_def buf_def)

lemma sim_capture_slots:
  "sim c a \<Longrightarrow> room x c \<Longrightarrow> capture_slots x (lazySnapshot base x) xs c = (f, ys, c') \<Longrightarrow>
    \<exists>a'. capture_slots x (ka_new base x) xs a = (f, ys, a') \<and> sim c' a' \<and> buf c' = buf c"
proof (induction xs arbitrary: c a f ys c')
  case (Cons xc xs)
  obtain y o' where xc: "xc = (y, o')" by fastforce
  show ?case
  proof (cases "o' = None \<and> y = x")
    case True
    obtain r c1 where r: "lazySnapshot base x c = (r, c1)" by fastforce
    obtain a1 where a1: "ka_new base x a = (r, a1)" "sim c1 a1" "buf c1 = buf c"
      using sim_lazySnapshot[OF Cons.prems(1) _ r] Cons.prems(2) by (auto simp: room_def)
    obtain f2 zs c2 where z: "capture_slots x (lazySnapshot base x) xs c1 = (f2, zs, c2)" by (metis prod_cases3)
    have "room x c1" using Cons.prems(2) room_buf[OF a1(3)] by simp
    from Cons.IH[OF a1(2) this z] show ?thesis using Cons.prems(3) xc True r a1 z by auto
  next
    case False
    obtain f2 zs c2 where z: "capture_slots x (lazySnapshot base x) xs c = (f2, zs, c2)" by (metis prod_cases3)
    from Cons.IH[OF Cons.prems(1,2) z] show ?thesis using Cons.prems(3) xc False z by auto
  qed
qed simp

lemma sim_capture:
  assumes "sim c a" "room x c"
  shows "sim (captureLazy x c) (ka_capture x a) \<and> buf (captureLazy x c) = buf c"
proof -
  have p: "k_snapshots c = ka_pending a" using assms(1) by (simp add: sim_def)
  show ?thesis
  proof (cases "pd_slots (k_snapshots c)")
    case None
    then have "captureLazy x c = c" "ka_capture x a = a"
      using p by (simp_all add: captureLazy_def ka_capture_def captureReached_def)
    then show ?thesis using assms(1) by simp
  next
    case (Some xs)
    obtain f ys c1 where c1: "capture_slots x (lazySnapshot (pd_base (k_snapshots c)) x) xs c = (f, ys, c1)"
      by (metis prod_cases3)
    obtain a1 where a1: "capture_slots x (ka_new (pd_base (k_snapshots c)) x) xs a = (f, ys, a1)" "sim c1 a1" "buf c1 = buf c"
      using sim_capture_slots[OF assms c1] by blast
    show ?thesis using sim_pending[OF a1(2)] a1 c1 Some p
      by (auto simp: captureLazy_def ka_capture_def captureReached_def buf_def)
  qed
qed

lemma sim_captures:
  "sim c a \<Longrightarrow> \<forall>x\<in>set xs. room x c \<Longrightarrow> sim (fold captureLazy xs c) (fold ka_capture xs a)"
proof (induction xs arbitrary: c a)
  case (Cons x xs)
  have s: "sim (captureLazy x c) (ka_capture x a)" "buf (captureLazy x c) = buf c"
    using sim_capture[OF Cons.prems(1), of x] Cons.prems(2) by auto
  then have "\<forall>y\<in>set xs. room y (captureLazy x c)" using Cons.prems(2) room_buf[OF s(2)] by auto
  then show ?case using Cons.IH[OF s(1)] by simp
qed simp

lemma sim_Update:
  assumes "sim c a"
  shows "\<exists>c'. KV_Update z keys c = Some c' \<and> sim c' (ka_update z keys a)"
proof -
  have inv: "KV_inv c" and b: "buf c = ka_buf a" and p: "k_snapshots c = ka_pending a" using assms by (auto simp: sim_def)
  obtain c1 where c1: "appendKV z keys c = Some c1" "KV_inv c1" "buf c1 = kv_append z keys (buf c)" "keeps c c1"
    using appendKV_keeps[OF inv] by blast
  let ?a1 = "a\<lparr>ka_buf := kv_append z keys (ka_buf a)\<rparr>"
  have s1: "sim c1 ?a1" using sim_keeps[OF assms c1(2,4), of "kv_append z keys (ka_buf a)"] c1(3) b by simp
  have o: "k_offset c = kv_offset (ka_buf a)" "k_offset c1 = kv_offset (kv_append z keys (ka_buf a))"
    using sim_parts[OF assms] sim_parts[OF s1] by simp_all
  let ?xs = "scheduledIn (k_offset c) (k_offset c1) (k_snapshots c1)"
  have "k_snapshots c1 = ka_pending a" using c1(4) p by (simp add: keeps_def)
  moreover have "\<forall>x\<in>set ?xs. room x c1" using KV_room[OF c1(2)] by (auto simp: scheduledIn_def room_def)
  ultimately have "sim (fold captureLazy ?xs c1) (ka_update z keys a)"
    using sim_captures[OF s1, of ?xs] o by (simp add: ka_update_def Let_def)
  then show ?thesis using c1(1) by (simp add: KV_Update_def captureLazySnapshots_def)
qed

text \<open>Restoring: a lazy snapshot is still in place, so writing it back would change nothing.\<close>

lemma write_buffer_same:
  assumes "from' \<le> to'" "to' \<le> length b"
  shows "write_buffer z step from' (drop from' (take to' b)) (Some b) = b"
proof -
  have len: "length (drop from' (take to' b)) = to' - from'" using assms by (simp add: min_def)
  have "grow_buffer z step from' (to' - from') (Some b) = b" using assms by (simp add: grow_buffer_def)
  then have "write_buffer z step from' (drop from' (take to' b)) (Some b)
      = take from' b @ drop from' (take to' b) @ drop to' b"
    using assms by (simp add: write_buffer_def Let_def min_def)
  also have "\<dots> = take from' (take to' b) @ drop from' (take to' b) @ drop to' b" using assms by (simp add: min_def)
  finally show ?thesis by (metis append_assoc append_take_drop_id)
qed

lemma buf_offset: "buf (c\<lparr>k_offset := t\<rparr>) = (buf c)\<lparr>kv_offset := t\<rparr>"
  by (simp add: buf_def)

lemma sim_Restore_Some:
  assumes "sim c a" "ka_store a p = Some v" "kv_Restore z (Some v) target (ka_buf a) = (b, buf')"
  shows "\<exists>c'. KV_Restore z (Some p) target c = Some (b, c') \<and> sim c' (a\<lparr>ka_buf := buf'\<rparr>)"
proof -
  have h: "held c p" "view c p = v" using sim_owned[OF assms(1,2)] by auto
  have inv: "KV_inv c" and bc: "buf c = ka_buf a" using assms(1) by (auto simp: sim_def)
  let ?s = "k_heap c p"
  have v: "kc_fromOffset v = s_fromOffset ?s" "kc_toOffset v = s_toOffset ?s"
    using h(2) by (auto simp: view_def Let_def)
  show ?thesis
  proof (cases "s_toOffset ?s < target \<or> k_offset c < s_fromOffset ?s")
    case True
    then have "b = False \<and> buf' = ka_buf a" using assms(3) v sim_parts[OF assms(1)] by (auto simp: kv_Restore_def)
    then show ?thesis using True assms(1) by (simp add: KV_Restore_def Let_def)
  next
    case False
    then have le: "target \<le> s_toOffset ?s" "s_fromOffset ?s \<le> k_offset c" by auto
    define e where "e = kv_append z (kc_keys v) ((buf c)\<lparr>kv_offset := s_fromOffset ?s\<rparr>)"
    have eb: "b = True" "buf' = (if target < kv_offset e then e\<lparr>kv_offset := target\<rparr> else e)"
      unfolding e_def bc using assms(3) v le sim_parts[OF assms(1)] by (auto simp: kv_Restore_def Let_def)
    show ?thesis
    proof (cases "s_keys ?s")
      case None
      then have lz: "p \<in> set (k_lazySnapshots c)" "s_cache ?s" using held_cases[OF inv h(1)] h(1) by (auto simp: held_def)
      then obtain bb where bb: "k_keys c = Some bb" "s_fromOffset ?s < s_toOffset ?s" "s_toOffset ?s \<le> length bb"
        using inv by (auto simp: KV_inv_def lazy_ok_def)
      have keys: "kc_keys v = drop (s_fromOffset ?s) (take (s_toOffset ?s) bb)"
        using view_lazy[OF None bb(1)] h(2) by auto
      have e: "e = \<lparr>kv_keys = Some bb, kv_offset = s_toOffset ?s, kv_step = k_step c\<rparr>"
        unfolding e_def kv_append_def keys using bb write_buffer_same[of "s_fromOffset ?s" "s_toOffset ?s" bb z "k_step c"]
        by (simp add: buf_def min_def)
      define c' where "c' = c\<lparr>k_offset := min target (s_toOffset ?s)\<rparr>"
      have "KV_inv c'" "keeps c c'" unfolding c'_def using rewind_keeps[OF inv, of "min target (s_toOffset ?s)"] bb le(1) by auto
      moreover have "buf c' = buf'" using eb e le(1) bb(1) by (auto simp: c'_def buf_def)
      ultimately have "sim c' (a\<lparr>ka_buf := buf'\<rparr>)" by (rule sim_keeps[OF assms(1)])
      then show ?thesis using False None lz eb by (simp add: KV_Restore_def Let_def c'_def)
    next
      case (Some ks)
      have ks: "kc_keys v = ks" using view_owned[OF Some] h(2) by auto
      have out: "copyOut p c = Some c" using Some by (simp add: copyOut_def Let_def)
      let ?c1 = "c\<lparr>k_offset := s_fromOffset ?s\<rparr>"
      have "s_fromOffset ?s \<le> length (case k_keys c of None \<Rightarrow> [] | Some b \<Rightarrow> b)" using KV_room[OF inv] le(2) by simp
      note r1 = rewind_keeps[OF inv this]
      obtain c2 where c2: "appendKV z ks ?c1 = Some c2" "KV_inv c2" "buf c2 = kv_append z ks (buf ?c1)" "keeps ?c1 c2"
        using appendKV_keeps[OF r1(1)] by blast
      have e2: "buf c2 = e" using c2(3) ks by (simp add: e_def buf_def)
      have k2: "keeps c c2" by (rule keeps_trans[OF r1(2) c2(4)])
      have o2: "k_offset c2 = kv_offset e" using e2 by (auto simp: buf_def)
      define c' where "c' = (if target < k_offset c2 then c2\<lparr>k_offset := target\<rparr> else c2)"
      have "KV_inv c' \<and> keeps c c' \<and> buf c' = buf'"
      proof (cases "target < k_offset c2")
        case True
        then have "target \<le> length (case k_keys c2 of None \<Rightarrow> [] | Some b \<Rightarrow> b)" using KV_room[OF c2(2)] by simp
        note r3 = rewind_keeps[OF c2(2) this]
        show ?thesis using r3 keeps_trans[OF k2 r3(2)] True eb o2 e2 buf_offset[of target c2]
          by (simp add: c'_def)
      next
        case F: False
        then show ?thesis using c2(2) k2 eb o2 e2 by (simp add: c'_def)
      qed
      then have "sim c' (a\<lparr>ka_buf := buf'\<rparr>)" using sim_keeps[OF assms(1)] by blast
      then show ?thesis using False Some out c2(1) eb by (simp add: KV_Restore_def Let_def c'_def)
    qed
  qed
qed

text \<open>Merging and splitting.\<close>

lemma settles_heap: "settles c c' \<Longrightarrow> s_fromOffset (k_heap c' p) = s_fromOffset (k_heap c p) \<and>
    s_toOffset (k_heap c' p) = s_toOffset (k_heap c p)"
  by (simp add: settles_def same_ranges_def)

lemma CloseSnapshot_keys [simp]: "k_keys (CloseSnapshot p c) = k_keys c" "k_next (CloseSnapshot p c) = k_next c"
  by (simp_all add: CloseSnapshot_def upd_snap_def dropLazySnapshot_def)

lemma ka_drop_add: "p < ka_next a \<Longrightarrow> ka_add v (ka_drop p a) = (case ka_add v a of (q, a') \<Rightarrow> (q, ka_drop p a'))"
  by (auto simp: ka_add_def ka_drop_def fun_eq_iff)

lemma sim_Merge:
  assumes "sim c a" "ka_merge p q a = Some (r, a')"
  shows "\<exists>c'. KV_Merge p q c = Some (r, c') \<and> sim c' a'"
proof -
  consider "p = None" "q = None" | x where "p = Some x" "q = None" | y where "p = None" "q = Some y"
    | x y where "p = Some x" "q = Some y" by (cases p; cases q) auto
  then show ?thesis
  proof cases
    case 1
    then show ?thesis using assms by (simp add: KV_Merge_def close_opt_def)
  next
    case (2 x)
    then show ?thesis using assms sim_close[OF assms(1), of x] by (auto simp: KV_Merge_def close_opt_def split: if_splits)
  next
    case (3 y)
    then show ?thesis using assms sim_close[OF assms(1), of y] by (auto simp: KV_Merge_def close_opt_def split: if_splits)
  next
    case (4 x y)
    obtain u v where uv: "x \<noteq> y" "ka_store a x = Some u" "ka_store a y = Some v"
      using assms(2) 4 by (auto split: if_splits bind_splits)
    let ?m = "\<lparr>kc_keys = kc_keys u @ kc_keys v, kc_fromOffset = kc_fromOffset u, kc_toOffset = kc_toOffset v\<rparr>"
    have ra: "ka_add ?m (ka_drop y (ka_drop x a)) = (ka_next a, a') \<and> r = Some (ka_next a)"
      using assms(2) 4 uv by (auto simp: kv_Merge_def ka_add_def ka_drop_def)
    have inv: "KV_inv c" using assms(1) by (simp add: sim_def)
    have hx: "held c x" "view c x = u" and hy: "held c y" "view c y = v"
      using sim_owned[OF assms(1)] uv by auto
    let ?sx = "k_heap c x" and ?sy = "k_heap c y"
    have ux: "kc_fromOffset u = s_fromOffset ?sx" "kc_toOffset u = s_toOffset ?sx" "kc_toOffset v = s_toOffset ?sy"
      using hx(2) hy(2) by (auto simp: view_def Let_def)
    have next_a: "x < ka_next a" "y < ka_next a" "k_next c = ka_next a" using hx(1) hy(1) assms(1) by (auto simp: held_def sim_def)
    show ?thesis
    proof (cases "s_keys ?sx = None \<and> s_keys ?sy = None \<and> s_cache ?sx = s_cache ?sy \<and> s_toOffset ?sx = s_fromOffset ?sy")
      case True
      then have lz: "x \<in> set (k_lazySnapshots c)" "y \<in> set (k_lazySnapshots c)" "s_cache ?sx"
        using held_cases[OF inv hx(1)] held_cases[OF inv hy(1)] hx(1) by (auto simp: held_def)
      then have lx: "lazy_ok c x" "lazy_ok c y" using inv by (auto simp: KV_inv_def)
      then obtain b where b: "k_keys c = Some b" "s_toOffset ?sy \<le> length b" by (auto simp: lazy_ok_def)
      let ?s = "\<lparr>s_keys = None, s_fromOffset = s_fromOffset ?sx, s_toOffset = s_toOffset ?sy, s_cache = True, s_onMaterialize = False\<rparr>"
      obtain n c1 where n: "new_snap ?s c = (n, c1)" by fastforce
      obtain n' a1 where a1: "ka_add ?m a = (n', a1)" by fastforce
      have le: "s_fromOffset ?sx < s_toOffset ?sx" "s_fromOffset ?sy < s_toOffset ?sy" using lx by (auto simp: lazy_ok_def)
      have range: "drop (s_fromOffset ?sx) (take (s_toOffset ?sy) b) = kc_keys u @ kc_keys v"
      proof -
        have u: "kc_keys u = drop (s_fromOffset ?sx) (take (s_toOffset ?sx) b)"
          and v: "kc_keys v = drop (s_toOffset ?sx) (take (s_toOffset ?sy) b)"
          using view_lazy[of c x b] view_lazy[of c y b] True b(1) hx(2) hy(2) by auto
        have "take (s_toOffset ?sx) b = take (s_toOffset ?sx) (take (s_toOffset ?sy) b)" using True le by (simp add: min_def)
        then have "kc_keys u = take (s_toOffset ?sx - s_fromOffset ?sx) (drop (s_fromOffset ?sx) (take (s_toOffset ?sy) b))"
          using u by (simp only: drop_take)
        moreover have "kc_keys v = drop (s_toOffset ?sx - s_fromOffset ?sx) (drop (s_fromOffset ?sx) (take (s_toOffset ?sy) b))"
          using v le by simp
        ultimately show ?thesis by (simp only: append_take_drop_id)
      qed
      have add: "ka_add \<lparr>kc_keys = drop (s_fromOffset ?s) (take (s_toOffset ?s) b), kc_fromOffset = s_fromOffset ?s,
         kc_toOffset = s_toOffset ?s\<rparr> a = (n', a1)" using a1 range ux by simp
      have s: "n = n' \<and> sim (addLazySnapshot n c1) a1"
        using sim_new_lazy[OF assms(1) _ _ _ b(1) _ n add] True le b(2) by auto
      have "sim (CloseSnapshot y (CloseSnapshot x (addLazySnapshot n c1))) (ka_drop y (ka_drop x a1))"
        by (intro sim_close conjunct2[OF s])
      moreover have "ka_drop y (ka_drop x a1) = a'" "n' = ka_next a"
        using ra a1 next_a by (auto simp: ka_add_def ka_drop_def fun_eq_iff)
      ultimately show ?thesis using True lz(3) n s 4 ra by (simp add: KV_Merge_def Let_def)
    next
      case False
      obtain c1 where c1: "copyOut x c = Some c1" "settles c c1" "s_keys (k_heap c1 x) = Some (kc_keys u)"
        using copyOut_settles[OF inv hx(1)] hx(2) by blast
      have s1: "sim c1 a" by (rule sim_settles[OF assms(1) c1(2)])
      have inv1: "KV_inv c1" using s1 by (simp add: sim_def)
      have h1: "held c1 y" "view c1 y = v" "held c1 x" "view c1 x = u" using sim_owned[OF s1] uv by auto
      obtain c2 where c2: "copyOut y c1 = Some c2" "settles c1 c2" "s_keys (k_heap c2 y) = Some (kc_keys v)"
        using copyOut_settles[OF inv1 h1(1)] h1(2) by blast
      have s2: "sim c2 a" by (rule sim_settles[OF s1 c2(2)])
      have kx: "s_keys (k_heap c2 x) = Some (kc_keys u)"
      proof -
        have "k_heap c2 x = k_heap c1 x"
          using c2(1) uv(1) by (auto simp: copyOut_def Let_def upd_snap_def dropLazySnapshot_def split: if_splits option.splits)
        then show ?thesis using c1(3) by simp
      qed
      let ?c3 = "CloseSnapshot y (CloseSnapshot x c2)"
      have s3: "sim ?c3 (ka_drop y (ka_drop x a))" by (intro sim_close s2)
      let ?s = "\<lparr>s_keys = Some (kc_keys u @ kc_keys v), s_fromOffset = s_fromOffset ?sx, s_toOffset = s_toOffset ?sy,
                 s_cache = False, s_onMaterialize = False\<rparr>"
      obtain n c4 where n: "new_snap ?s ?c3 = (n, c4)" by fastforce
      have "ka_add \<lparr>kc_keys = kc_keys u @ kc_keys v, kc_fromOffset = s_fromOffset ?s, kc_toOffset = s_toOffset ?s\<rparr>
          (ka_drop y (ka_drop x a)) = (ka_next a, a')" using ra ux by simp
      from sim_new_owned[OF s3 _ _ n this] have s4: "n = ka_next a \<and> sim c4 a'" by simp
      have "KV_Merge p q c = Some (r, c4)"
        using False 4 c1(1) c2(1,3) kx n s4 ra by (auto simp: KV_Merge_def Let_def)
      then show ?thesis using s4 by blast
    qed
  qed
qed

lemma sim_Split:
  assumes "sim c a" "ka_split p at a = Some (r, a')"
  shows "\<exists>c'. KV_Split p at c = Some (r, c') \<and> sim c' a'"
proof -
  obtain v where v: "ka_store a p = Some v" using assms(2) by (auto simp: ka_split_def split: bind_splits)
  have inv: "KV_inv c" using assms(1) by (simp add: sim_def)
  have h: "held c p" "view c p = v" using sim_owned[OF assms(1) v] by auto
  let ?s = "k_heap c p"
  have vs: "kc_fromOffset v = s_fromOffset ?s" "kc_toOffset v = s_toOffset ?s" using h(2) by (auto simp: view_def Let_def)
  have next_a: "p < ka_next a" "k_next c = ka_next a" using h(1) assms(1) by (auto simp: held_def sim_def)
  let ?i = "int at - int (s_fromOffset ?s)" and ?l = "int (s_toOffset ?s) - int (s_fromOffset ?s)"
  show ?thesis
  proof (cases "?i \<le> 0 \<or> ?l \<le> ?i")
    case True
    then show ?thesis using assms v vs by (auto simp: ka_split_def kv_Split_def KV_Split_def Let_def)
  next
    case False
    then have i: "s_fromOffset ?s < at" "at < s_toOffset ?s" "nat ?i = at - s_fromOffset ?s" by auto
    let ?u = "\<lparr>kc_keys = take (nat ?i) (kc_keys v), kc_fromOffset = s_fromOffset ?s, kc_toOffset = at\<rparr>"
    let ?w = "\<lparr>kc_keys = drop (nat ?i) (kc_keys v), kc_fromOffset = at, kc_toOffset = s_toOffset ?s\<rparr>"
    have sp: "kv_Split v at = (Some ?u, Some ?w)" using False vs by (simp add: kv_Split_def Let_def)
    obtain l a1 where a1: "ka_add ?u (ka_drop p a) = (l, a1)" by fastforce
    obtain l2 a2 where a2: "ka_add ?w a1 = (l2, a2)" by fastforce
    have ra: "r = (Some l, Some l2)" "a' = a2" using assms(2) v sp a1 a2 by (auto simp: ka_split_def)
    show ?thesis
    proof (cases "s_keys ?s")
      case (Some ks)
      have ks: "kc_keys v = ks" using view_owned[OF Some] h(2) by auto
      let ?p = "\<lparr>s_keys = Some (take (nat ?i) ks), s_fromOffset = s_fromOffset ?s, s_toOffset = at, s_cache = False, s_onMaterialize = False\<rparr>"
      let ?q = "\<lparr>s_keys = Some (drop (nat ?i) ks), s_fromOffset = at, s_toOffset = s_toOffset ?s, s_cache = False, s_onMaterialize = False\<rparr>"
      obtain m c1 where c1: "new_snap ?p (CloseSnapshot p c) = (m, c1)" by fastforce
      obtain m2 c2 where c2: "new_snap ?q c1 = (m2, c2)" by fastforce
      have "ka_add \<lparr>kc_keys = take (nat ?i) ks, kc_fromOffset = s_fromOffset ?p, kc_toOffset = s_toOffset ?p\<rparr> (ka_drop p a) = (l, a1)"
        using a1 ks by simp
      from sim_new_owned[OF sim_close[OF assms(1)] _ _ c1 this] have s1: "m = l" "sim c1 a1" by simp_all
      have "ka_add \<lparr>kc_keys = drop (nat ?i) ks, kc_fromOffset = s_fromOffset ?q, kc_toOffset = s_toOffset ?q\<rparr> a1 = (l2, a2)"
        using a2 ks by simp
      from sim_new_owned[OF s1(2) _ _ c2 this] have "m2 = l2" "sim c2 a2" by simp_all
      then show ?thesis using False Some c1 c2 s1 ra by (simp add: KV_Split_def Let_def)
    next
      case None
      then have lz: "p \<in> set (k_lazySnapshots c)" "s_cache ?s" using held_cases[OF inv h(1)] h(1) by (auto simp: held_def)
      then obtain b where b: "k_keys c = Some b" "s_toOffset ?s \<le> length b" using inv by (auto simp: KV_inv_def lazy_ok_def)
      have keys: "kc_keys v = drop (s_fromOffset ?s) (take (s_toOffset ?s) b)" using view_lazy[OF None b(1)] h(2) by auto
      have halves: "take (nat ?i) (kc_keys v) = drop (s_fromOffset ?s) (take at b)"
        "drop (nat ?i) (kc_keys v) = drop at (take (s_toOffset ?s) b)"
        using i by (simp_all add: keys drop_take)
      let ?p = "\<lparr>s_keys = None, s_fromOffset = s_fromOffset ?s, s_toOffset = at, s_cache = True, s_onMaterialize = False\<rparr>"
      let ?q = "\<lparr>s_keys = None, s_fromOffset = at, s_toOffset = s_toOffset ?s, s_cache = True, s_onMaterialize = False\<rparr>"
      obtain m c1 where c1: "new_snap ?p c = (m, c1)" by fastforce
      obtain m2 c2 where c2: "new_snap ?q c1 = (m2, c2)" by fastforce
      obtain k b1 where b1: "ka_add ?u a = (k, b1)" by fastforce
      obtain k2 b2 where b2: "ka_add ?w b1 = (k2, b2)" by fastforce
      have "ka_add \<lparr>kc_keys = drop (s_fromOffset ?p) (take (s_toOffset ?p) b), kc_fromOffset = s_fromOffset ?p,
          kc_toOffset = s_toOffset ?p\<rparr> a = (k, b1)" using b1 halves by simp
      from sim_new_lazy[OF assms(1) _ _ _ b(1) _ c1 this] have s1: "m = k \<and> sim (addLazySnapshot m c1) b1"
        using i b by auto
      have c2': "new_snap ?q (addLazySnapshot m c1) = (m2, c2\<lparr>k_lazySnapshots := k_lazySnapshots c1 @ [m]\<rparr>)"
        using c2 by (auto simp: new_snap_def addLazySnapshot_def)
      have "ka_add \<lparr>kc_keys = drop (s_fromOffset ?q) (take (s_toOffset ?q) b), kc_fromOffset = s_fromOffset ?q,
          kc_toOffset = s_toOffset ?q\<rparr> b1 = (k2, b2)" using b2 halves by simp
      moreover have "k_keys (addLazySnapshot m c1) = Some b" using b(1) c1 by (auto simp: new_snap_def addLazySnapshot_def)
      ultimately have s2: "m2 = k2 \<and> sim (addLazySnapshot m2 (c2\<lparr>k_lazySnapshots := k_lazySnapshots c1 @ [m]\<rparr>)) b2"
        using sim_new_lazy[OF conjunct2[OF s1] _ _ _ _ _ c2', of b k2 b2] i b by auto
      have eq: "addLazySnapshot m2 (c2\<lparr>k_lazySnapshots := k_lazySnapshots c1 @ [m]\<rparr>) = addLazySnapshot m2 (addLazySnapshot m c2)"
        using c2 by (auto simp: new_snap_def addLazySnapshot_def)
      have s3: "sim (CloseSnapshot p (addLazySnapshot m2 (addLazySnapshot m c2))) (ka_drop p b2)"
        by (rule sim_close[OF conjunct2[OF s2, unfolded eq]])
      have "ka_drop p b2 = a2" "k = l" "k2 = l2"
        using a1 a2 b1 b2 next_a by (auto simp: ka_add_def ka_drop_def fun_eq_iff)
      then show ?thesis using False None lz c1 c2 s1 s2 s3 ra by (auto simp: KV_Split_def Let_def)
    qed
  qed
qed

lemma sim_Free:
  assumes "sim c a"
  shows "\<exists>c'. KV_Free c = Some c' \<and> sim c' (a\<lparr>ka_buf := kv_Free (ka_buf a), ka_pending := no_pending\<rparr>)"
proof -
  have inv: "KV_inv c" using assms by (simp add: sim_def)
  obtain c1 where c1: "copy_each (\<lambda>_. True) (k_lazySnapshots c) c = Some c1" "settles c c1"
    "\<forall>p\<in>set (k_lazySnapshots c). p \<notin> set (k_lazySnapshots c1)"
    using copy_each_settles[of "\<lambda>_. True" c "k_lazySnapshots c"] inv by (auto simp: KV_inv_def)
  have s1: "sim c1 a" by (rule sim_settles[OF assms c1(2)])
  have sub: "set (k_lazySnapshots c1) \<subseteq> set (k_lazySnapshots c)" using c1(2) by (simp add: settles_def)
  have none: "k_lazySnapshots c1 = []"
  proof (rule ccontr)
    assume "k_lazySnapshots c1 \<noteq> []"
    then have "hd (k_lazySnapshots c1) \<in> set (k_lazySnapshots c1)" by simp
    then show False using sub c1(3) by blast
  qed
  define c' where "c' = c1\<lparr>k_keys := None, k_offset := 0, k_snapshots := no_pending\<rparr>"
  have inv1: "KV_inv c1" using s1 by (simp add: sim_def)
  have "KV_inv c'" using inv1 none by (auto simp: KV_inv_def c'_def kv_ok_def kv_live_def)
  moreover have "held c' p \<and> view c' p = view c1 p" if "held c1 p" for p
    using that held_cases[OF inv1 that] none by (auto simp: held_def view_def c'_def)
  moreover have "buf c' = kv_Free (buf c1)" by (simp add: buf_def c'_def kv_Free_def)
  moreover have "buf c1 = ka_buf a" using s1 by (simp add: sim_def)
  ultimately have "sim c' (a\<lparr>ka_buf := kv_Free (ka_buf a), ka_pending := no_pending\<rparr>)"
    using s1 by (auto simp: sim_def c'_def)
  then show ?thesis using c1(1) by (simp add: KV_Free_def c'_def)
qed

lemma sim_call:
  assumes "sim c a" "ka_call z x a = Some (r, a')"
  shows "\<exists>c'. kv_call z x c = Some (r, c') \<and> sim c' a'"
proof (cases x)
  case (C_Update keys)
  then show ?thesis using assms sim_Update[OF assms(1), of z keys] by auto
next
  case C_State
  then show ?thesis using assms sim_parts[OF assms(1)] by (auto simp: KV_State_def)
next
  case (C_Prepare offsets)
  moreover have "k_snapshots c = ka_pending a" using assms(1) by (simp add: sim_def)
  ultimately show ?thesis using assms sim_parts[OF assms(1)] sim_pending[OF assms(1)]
    by (auto simp: KV_PrepareSnapshots_def)
next
  case C_Take
  moreover have "k_snapshots c = ka_pending a" using assms(1) by (simp add: sim_def)
  ultimately show ?thesis using assms sim_pending[OF assms(1)] by (auto simp: KV_TakeSnapshots_def split: prod.splits)
next
  case (C_Snapshot from')
  obtain p c' where c': "KV_Snapshot from' c = (p, c')" by fastforce
  have "\<And>b. k_keys c = Some b \<Longrightarrow> k_offset c \<le> length b"
    using KV_room[of c] assms(1) by (auto simp: sim_def)
  from sim_lazySnapshot[OF assms(1) this, of from' p c'] show ?thesis
    using assms(2) C_Snapshot c' sim_parts[OF assms(1)] by (auto simp: KV_Snapshot_def)
next
  case (C_Restore p target)
  show ?thesis
  proof (cases p)
    case None
    have inv: "KV_inv c" and b: "buf c = ka_buf a" using assms(1) by (auto simp: sim_def)
    have "sim (c\<lparr>k_offset := target\<rparr>) (a\<lparr>ka_buf := (ka_buf a)\<lparr>kv_offset := target\<rparr>\<rparr>)" if "target \<le> k_offset c"
    proof -
      have "target \<le> length (case k_keys c of None \<Rightarrow> [] | Some b \<Rightarrow> b)" using KV_room[OF inv] that by simp
      from rewind_keeps[OF inv this] show ?thesis by (rule sim_keeps[OF assms(1)]) (simp add: buf_offset b)
    qed
    then show ?thesis using assms C_Restore None sim_parts[OF assms(1)]
      by (auto simp: kv_Restore_def KV_Restore_def split: if_splits)
  next
    case (Some q)
    then obtain v b buf' where v: "ka_store a q = Some v" "kv_Restore z (Some v) target (ka_buf a) = (b, buf')"
      "r = R_bool b" "a' = a\<lparr>ka_buf := buf'\<rparr>"
      using assms(2) C_Restore by (auto split: bind_splits prod.splits)
    then show ?thesis using sim_Restore_Some[OF assms(1) v(1,2)] C_Restore Some by auto
  qed
next
  case (C_Merge p q)
  then show ?thesis using sim_Merge[OF assms(1), of p q] assms(2) by auto
next
  case (C_Split p at)
  then show ?thesis using sim_Split[OF assms(1), of p at] assms(2) by auto
next
  case (C_Close p)
  then show ?thesis using sim_close[OF assms(1), of p] assms(2) by (auto split: if_splits)
next
  case C_Free
  then show ?thesis using sim_Free[OF assms(1)] assms(2) by auto
qed

lemma sim_init: "sim NewKVCache ka_init"
  by (auto simp: sim_def KV_inv_def NewKVCache_def ka_init_def buf_def new_buffer_def kv_ok_def kv_live_def)

lemma sim_calls:
  "sim c a \<Longrightarrow> ka_calls z xs a = Some (rs, a') \<Longrightarrow> \<exists>c'. kv_calls z xs c = Some (rs, c') \<and> sim c' a'"
proof (induction xs arbitrary: c a rs)
  case (Cons x xs)
  obtain r a1 rs1 where a1: "ka_call z x a = Some (r, a1)" "ka_calls z xs a1 = Some (rs1, a')" "rs = r # rs1"
    using Cons.prems(2) by (auto split: bind_splits)
  obtain c1 where "kv_call z x c = Some (r, c1)" "sim c1 a1" using sim_call[OF Cons.prems(1) a1(1)] by blast
  then show ?case using Cons.IH[OF _ a1(2), of c1] a1(3) by (auto simp: bind_eq_Some_conv)
qed simp

section \<open>Properties\<close>

text \<open>
  C6. A layer with lazy snapshots behaves towards every client like one that copies each snapshot when it
  is taken: any sequence of calls that the abstract layer answers (writes with captures of scheduled
  offsets, snapshots, restores, merges, splits, closes and \<open>Free\<close>, each with snapshots that the client
  owns) is answered by the code without a panic and with the same replies, among them the history that
  the attention reads. In particular no write, rewind or \<open>Free\<close> ever changes what a snapshot stands for.
\<close>

theorem kv_refines:
  assumes "ka_calls z calls ka_init = Some (replies, a)"
  shows "\<exists>c. kv_calls z calls NewKVCache = Some (replies, c) \<and>
    (\<forall>p v. ka_store a p = Some v \<longrightarrow> view c p = v) \<and> KV_State c = map_option (take (kv_offset (ka_buf a))) (kv_keys (ka_buf a))"
proof -
  obtain c where c: "kv_calls z calls NewKVCache = Some (replies, c)" "sim c a"
    using sim_calls[OF sim_init assms] by blast
  then show ?thesis using sim_owned[OF c(2)] sim_parts[OF c(2)] by (auto simp: KV_State_def)
qed

text \<open>
  A snapshot of three slots survives a rewind, a write over its slots and \<open>Free\<close>, and is put back.
\<close>

theorem kv_refines_witness:
  "\<exists>c. kv_calls (0::nat)
      [C_Update [1, 2, 3], C_Snapshot 0, C_Restore None 1, C_Update [7, 8], C_State, C_Free, C_Restore (Some 0) 3, C_State]
      NewKVCache =
    Some ([R_done, R_snaps [Some 0], R_bool True, R_done, R_state (Some [1, 7, 8]), R_done, R_bool True,
      R_state (Some [1, 2, 3])], c)"
proof -
  have "\<exists>a. ka_calls (0::nat)
      [C_Update [1, 2, 3], C_Snapshot 0, C_Restore None 1, C_Update [7, 8], C_State, C_Free, C_Restore (Some 0) 3, C_State]
      ka_init =
    Some ([R_done, R_snaps [Some 0], R_bool True, R_done, R_state (Some [1, 7, 8]), R_done, R_bool True,
      R_state (Some [1, 2, 3])], a)"
    by (simp add: ka_init_def new_buffer_def no_pending_def ka_update_def kv_append_def write_buffer_def grow_buffer_def
        scheduledIn_def pd_offsets_def ka_new_def kv_copy_def ka_add_def kv_Restore_def kv_Free_def Let_def)
  then show ?thesis by (elim exE) (drule kv_refines, blast)
qed

end
