(* ===== verification/CacheCovers.thy ===== *)
theory CacheCovers
  imports CacheTrie CacheLayers
begin

text \<open>
  What the snapshots in the trie stand for. The label of a node is what the path from the root to it
  spells; a snapshot of a layer on the node belongs to the edge of the node, the last part of the label.
  \<open>covered\<close> says so for every snapshot of the trie, and this theory shows that the operations of
  \<open>CacheTrie\<close> keep it, given the laws of \<open>Split\<close> and \<open>Merge\<close> that \<open>cache_layer\<close> promises.
\<close>

section \<open>Labels\<close>

inductive labelled :: "(nat \<Rightarrow> ('k, 'z) linked_scheme) \<Rightarrow> nat \<Rightarrow> nat \<Rightarrow> 'k list \<Rightarrow> bool" for h r where
  root: "labelled h r r []"
| child: "labelled h r p w \<Longrightarrow> c \<in> set (tn_children (h p)) \<Longrightarrow> labelled h r c (w @ tn_tokens (h c))"

lemma labelled_links [simp]: "labelled (links h) r n w = labelled h r n w"
proof
  show "labelled (links h) r n w \<Longrightarrow> labelled h r n w"
  proof (induction rule: labelled.induct)
    case (child p w c)
    then show ?case using labelled.child[of h r p w c] by simp
  qed (rule labelled.root)
  show "labelled h r n w \<Longrightarrow> labelled (links h) r n w"
  proof (induction rule: labelled.induct)
    case (child p w c)
    then show ?case using labelled.child[of "links h" r p w c] by simp
  qed (rule labelled.root)
qed

lemma labelled_walk: "walk h r path \<Longrightarrow> labelled h r (last (r # path)) (along h path)"
proof (induction path rule: rev_induct)
  case (snoc c path)
  then have "labelled h r (last (r # path)) (along h path)" "c \<in> set (tn_children (h (last (r # path))))"
    by (auto simp: walk_append)
  from labelled.child[OF this] show ?case by simp
qed (simp add: labelled.root)

lemma walk_labelled:
  "labelled h r n w \<Longrightarrow> \<exists>path. walk h r path \<and> last (r # path) = n \<and> along h path = w"
proof (induction rule: labelled.induct)
  case root
  show ?case by (rule exI[of _ "[]"]) simp
next
  case (child p w c)
  then obtain path where "walk h r path" "last (r # path) = p" "along h path = w" by blast
  then show ?case using child(2) by (intro exI[of _ "path @ [c]"]) (simp add: walk_append)
qed

lemma labelled_in:
  assumes "trie_ok N r h"
  shows "labelled h r n w \<Longrightarrow> n \<in> N \<and> length w = tn_endOffset (h n)"
proof (induction rule: labelled.induct)
  case (child p w c)
  then show ?case using trie_child[OF assms, of p c] by simp
qed (use assms in \<open>simp add: trie_ok_def\<close>)

lemma labelled_unique:
  assumes "trie_ok N r h" "labelled h r n v" "labelled h r n w"
  shows "v = w"
proof -
  obtain p q where "walk h r p" "last (r # p) = n" "along h p = v" "walk h r q" "last (r # q) = n" "along h q = w"
    using walk_labelled[OF assms(2)] walk_labelled[OF assms(3)] by blast
  moreover have "r \<in> N" using assms(1) by (simp add: trie_ok_def)
  ultimately show ?thesis using walk_unique[OF assms(1), of r p q] by auto
qed

text \<open>The node before on the path.\<close>

lemma labelled_parent:
  assumes "trie_ok N r h" "labelled h r n w" "n \<noteq> r"
  obtains p v where "p \<in> N" "labelled h r p v" "n \<in> set (tn_children (h p))" "w = v @ tn_tokens (h n)"
  using assms(2,3)
proof cases
  case (child p v)
  then show ?thesis using that[of p v] labelled_in[OF assms(1), of p v] by simp
qed simp

text \<open>The operations: only the nodes they are about get another label.\<close>

lemma labelled_split:
  assumes "trie_ok N r h" "n \<in> N" "n \<noteq> r" "np \<notin> N" "0 < at" "at < length (tn_tokens (h n))"
  shows "labelled (split_links np n at h) r m w \<Longrightarrow>
    (m \<noteq> np \<longrightarrow> labelled h r m w) \<and>
    (m = np \<longrightarrow> (\<exists>v. labelled h r n (v @ tn_tokens (h n)) \<and> w = v @ take at (tn_tokens (h n))))"
proof (induction rule: labelled.induct)
  case root
  have "r \<noteq> np" using assms(1,4) by (auto simp: trie_ok_def)
  then show ?case by (simp add: labelled.root)
next
  case (child p w c)
  note ok = assms(1)
  let ?h = "split_links np n at h"
  obtain P where P: "P \<in> N" "P \<noteq> n" "P \<noteq> np" "n \<noteq> np" "tn_parent (h n) = Some P" "n \<in> set (tn_children (h P))"
    "tn_endOffset (h n) = tn_endOffset (h P) + length (tn_tokens (h n))"
    and raw: "?h np = \<lparr>tn_tokens = take at (tn_tokens (h n)), tn_endOffset = tn_endOffset (h P) + at,
       tn_parent = Some P, tn_children = [n]\<rparr>"
    "?h n = (h n)\<lparr>tn_tokens := drop at (tn_tokens (h n)), tn_parent := Some np\<rparr>"
    "?h P = (h P)\<lparr>tn_children := replace1 n np (tn_children (h P))\<rparr>"
    and rest: "\<And>m. m \<noteq> np \<Longrightarrow> m \<noteq> n \<Longrightarrow> m \<noteq> P \<Longrightarrow> ?h m = h m"
    using split_links_at[OF assms] by blast
  have hnp: "tn_tokens (?h np) = take at (tn_tokens (h n))" "tn_children (?h np) = [n]"
    and hn: "tn_tokens (?h n) = drop at (tn_tokens (h n))" "tn_children (?h n) = tn_children (h n)"
    and hP: "tn_children (?h P) = replace1 n np (tn_children (h P))" "tn_tokens (?h P) = tn_tokens (h P)"
    by (simp_all add: raw)
  have old: "c \<noteq> n \<Longrightarrow> c \<noteq> np \<Longrightarrow> tn_tokens (?h c) = tn_tokens (h c)" using rest hP(2) by (cases "c = P") auto
  have fresh: "np \<notin> set (tn_children (h q))" if "q \<in> N" for q using trie_child(1)[OF ok that] assms(4) by blast
  have dist: "distinct (tn_children (h P))" using trie_ok_parts(6)[OF ok P(1)] by (simp add: links_ok_def)
  have kids: "set (tn_children (?h P)) = insert np (set (tn_children (h P)) - {n})"
    using replace1_set[OF dist P(6)] hP(1) by simp
  show ?case
  proof (cases "p = np")
    case True
    then have c: "c = n" using child(2) hnp(2) by simp
    obtain v where v: "labelled h r n (v @ tn_tokens (h n))" "w = v @ take at (tn_tokens (h n))"
      using child.IH True by blast
    then show ?thesis using c hn(1) P(4) by simp
  next
    case False
    then have lp: "labelled h r p w" using child.IH by blast
    then have pN: "p \<in> N" using labelled_in[OF ok] by blast
    show ?thesis
    proof (cases "p = P")
      case True
      then consider "c = np" | "c \<in> set (tn_children (h P))" "c \<noteq> n" using child(2) kids by auto
      then show ?thesis
      proof cases
        case 1
        have "labelled h r n (w @ tn_tokens (h n))" using labelled.child[of h r P w n] lp True P(6) by simp
        then show ?thesis using 1 hnp(1) by auto
      next
        case 2
        then have "c \<noteq> np" using fresh[OF P(1)] by blast
        then show ?thesis using labelled.child[of h r P w c] lp True 2 old by simp
      qed
    next
      case pP: False
      have ch: "tn_children (?h p) = tn_children (h p)" using hn(2) rest[OF False _ pP] by (cases "p = n") auto
      then have cp: "c \<in> set (tn_children (h p))" using child(2) by simp
      have "c \<noteq> np" using fresh[OF pN] cp by blast
      moreover have "c \<noteq> n" using trie_child(4)[OF ok pN cp] P(5) pP by auto
      ultimately show ?thesis using labelled.child[OF lp cp] old by simp
    qed
  qed
qed

lemma labelled_append:
  assumes "trie_ok N r h" "n \<in> N" "c \<notin> N"
  shows "labelled (append_links c n ts h) r m w \<Longrightarrow>
    (m \<noteq> c \<longrightarrow> labelled h r m w) \<and> (m = c \<longrightarrow> (\<exists>v. labelled h r n v \<and> w = v @ ts))"
proof (induction rule: labelled.induct)
  case root
  have "r \<noteq> c" using assms(1,3) by (auto simp: trie_ok_def)
  then show ?case by (simp add: labelled.root)
next
  case (child p w d)
  have cn: "c \<noteq> n" using assms(2,3) by auto
  have "p \<noteq> c" using child(2) cn by (auto simp: append_links_def)
  then have lp: "labelled h r p w" using child.IH by blast
  then have pN: "p \<in> N" using labelled_in[OF assms(1)] by blast
  have kid: "d \<in> set (tn_children (h p)) \<or> (p = n \<and> d = c)"
    using child(2) cn \<open>p \<noteq> c\<close> by (auto simp: append_links_def split: if_splits)
  show ?case
  proof (cases "d = c")
    case True
    then have "p = n" using kid trie_child(1)[OF assms(1) pN, of d] assms(3) by blast
    then show ?thesis using True lp cn by (auto simp: append_links_def)
  next
    case False
    then have "d \<in> set (tn_children (h p))" using kid by blast
    moreover have "tn_tokens (append_links c n ts h d) = tn_tokens (h d)" using False by (simp add: append_links_def)
    ultimately show ?thesis using labelled.child[OF lp] False by simp
  qed
qed

lemma labelled_remove:
  assumes "trie_ok N r h" "n \<in> N" "tn_children (h n) = []"
  shows "labelled (remove_links n p h) r m w \<Longrightarrow> labelled h r m w"
proof (induction rule: labelled.induct)
  case (child q w c)
  have "set (tn_children (remove_links n p h q)) \<subseteq> set (tn_children (h q))"
    using set_remove1_subset[of n "tn_children (h q)"] by (auto simp: remove_links_def Let_def)
  moreover have "tn_tokens (remove_links n p h c) = tn_tokens (h c)" by (simp add: remove_links_def Let_def)
  ultimately show ?case using labelled.child[OF child.IH, of c] child(2) by auto
qed (rule labelled.root)

lemma labelled_merge:
  assumes "trie_ok N r h" "n \<in> N" "n \<noteq> r" "tn_children (h n) = [c]"
  shows "labelled (merge_links n c h) r m w \<Longrightarrow>
    m \<noteq> c \<and> (m \<noteq> n \<longrightarrow> labelled h r m w) \<and>
    (m = n \<longrightarrow> (\<exists>v. labelled h r n v \<and> labelled h r c w \<and> w = v @ tn_tokens (h c)))"
proof (induction rule: labelled.induct)
  case root
  have "r \<noteq> c" using trie_child(2)[OF assms(1,2), of c] assms(4) by auto
  then show ?case using assms(3) by (simp add: labelled.root)
next
  case (child p w d)
  note ok = assms(1)
  let ?h = "merge_links n c h"
  have cn: "c \<in> set (tn_children (h n))" using assms(4) by simp
  note cc = trie_child[OF ok assms(2) cn]
  have gc: "n \<notin> set (tn_children (h c))" "c \<notin> set (tn_children (h c))" using trie_grandchild[OF ok assms(2) cn] by auto
  have tok: "tn_tokens (?h d) = tn_tokens (h d)" if "d \<noteq> n" for d using that by (simp add: merge_links_def)
  show ?case
  proof (cases "p = n")
    case True
    then have d: "d \<in> set (tn_children (h c))" using child(2) cc(3) by (simp add: merge_links_def)
    have "labelled h r c w" using child.IH True by blast
    from labelled.child[OF this d] show ?thesis using d gc tok[of d] by auto
  next
    case False
    have lp: "labelled h r p w" and pc: "p \<noteq> c" using child.IH False by auto
    have pN: "p \<in> N" using labelled_in[OF ok lp] by simp
    have d: "d \<in> set (tn_children (h p))" using child(2) False pc by (simp add: merge_links_def split: if_splits)
    have dc: "d \<noteq> c" using trie_child(4)[OF ok pN d] cc(4) False by auto
    show ?thesis
    proof (cases "d = n")
      case True
      have "labelled h r n (w @ tn_tokens (h n))" using labelled.child[OF lp d] True by simp
      moreover from labelled.child[OF this cn]
      have "labelled h r c (w @ tn_tokens (?h n))" using cc(3) by (simp add: merge_links_def)
      ultimately show ?thesis using True dc cc(3) by (auto simp: merge_links_def)
    next
      case dn: False
      then show ?thesis using labelled.child[OF lp d] tok[OF dn] dc by simp
    qed
  qed
qed

section \<open>Snapshots\<close>

definition snap_in :: "('k, 's) trie \<Rightarrow> nat \<Rightarrow> nat \<Rightarrow> 's \<Rightarrow> bool" where
  "snap_in st n i s \<longleftrightarrow> i < length (tn_snapshots (th_heap st n)) \<and> tn_snapshots (th_heap st n) ! i = Some s"

definition covered :: "(nat \<Rightarrow> 's \<Rightarrow> nat \<Rightarrow> 'k list \<Rightarrow> bool) \<Rightarrow> nat set \<Rightarrow> nat \<Rightarrow> ('k, 's) trie \<Rightarrow> bool" where
  "covered D N r st \<longleftrightarrow> (\<forall>n\<in>N. \<forall>i s w. snap_in st n i s \<longrightarrow> labelled (th_heap st) r n w \<longrightarrow>
     D i s (length w - length (tn_tokens (th_heap st n))) w)"

lemma coveredD:
  "covered D N r st \<Longrightarrow> n \<in> N \<Longrightarrow> snap_in st n i s \<Longrightarrow> labelled (th_heap st) r n w \<Longrightarrow>
     D i s (length w - length (tn_tokens (th_heap st n))) w"
  by (simp add: covered_def)

text \<open>What a layer promises about \<open>Split\<close> and \<open>Merge\<close>; it is part of the contract of \<open>cache_layer\<close>.\<close>

definition layer_lawful :: "'s layer \<Rightarrow> ('s \<Rightarrow> nat \<Rightarrow> 'k list \<Rightarrow> bool) \<Rightarrow> bool" where
  "layer_lawful l C \<longleftrightarrow>
     (\<forall>s a b w p q. C s a w \<longrightarrow> a \<le> b \<longrightarrow> b \<le> length w \<longrightarrow> ly_Split l s b = (p, q) \<longrightarrow>
        (\<forall>s'. p = Some s' \<longrightarrow> C s' a (take b w)) \<and> (\<forall>s'. q = Some s' \<longrightarrow> C s' b w)) \<and>
     (\<forall>p q a b w m. (\<forall>s. p = Some s \<longrightarrow> C s a (take b w)) \<longrightarrow> (\<forall>s. q = Some s \<longrightarrow> C s b w) \<longrightarrow>
        a \<le> b \<longrightarrow> b \<le> length w \<longrightarrow> ly_Merge l p q = Some m \<longrightarrow> C m a w)"

definition layer_of :: "('c, 's) cache_ops \<Rightarrow> 's layer" where
  "layer_of ops = \<lparr>ly_Split = co_Split ops, ly_Merge = co_Merge ops\<rparr>"

definition lawful :: "'s layer option list \<Rightarrow> (nat \<Rightarrow> 's \<Rightarrow> nat \<Rightarrow> 'k list \<Rightarrow> bool) \<Rightarrow> bool" where
  "lawful caches D \<longleftrightarrow> (\<forall>i l. i < length caches \<longrightarrow> caches ! i = Some l \<longrightarrow> layer_lawful l (D i))"

context cache_layer
begin

lemma lawful_layer: "layer_lawful (layer_of ops) covers"
  unfolding layer_lawful_def layer_of_def layer.simps
proof (intro conjI allI impI, goal_cases)
  case (1 s a b w p q s')
  then show ?case using split[of s a w b p q] by blast
next
  case (2 s a b w p q s')
  then show ?case using split[of s a w b p q] by blast
next
  case (3 p q a b w m)
  show ?case by (rule merge[of p a b w q m]) (use 3 in auto)
qed

end

text \<open>The halves of the snapshots, and the merged ones.\<close>

lemma split_snaps_nth:
  "split_snaps caches off ss = Some ps \<Longrightarrow> i < length ss \<Longrightarrow> length ps = length ss \<and>
     (case ss ! i of None \<Rightarrow> ps ! i = (None, None)
      | Some s \<Rightarrow> i < length caches \<and>
          ps ! i = (case caches ! i of None \<Rightarrow> (None, None) | Some l \<Rightarrow> ly_Split l s off))"
proof (induction caches off ss arbitrary: i ps rule: split_snaps.induct)
  case (2 caches off ss)
  then show ?case by (cases i; cases caches) (fastforce split: option.splits)+
next
  case (4 c cs off s ss)
  then show ?case by (cases i) (fastforce split: option.splits)+
qed auto

lemma merge_snaps_nth:
  "merge_snaps k caches ns cs = Some ms \<Longrightarrow> i < length caches \<Longrightarrow> length ms = length caches \<and>
     (case caches ! i of None \<Rightarrow> ms ! i = None
      | Some l \<Rightarrow> \<exists>p c. snap_at ns (k + i) = Some p \<and> snap_at cs (k + i) = Some c \<and> ms ! i = ly_Merge l p c)"
proof (induction k caches ns cs arbitrary: i ms rule: merge_snaps.induct)
  case (2 k ls ns cs)
  then show ?case by (cases i) (fastforce split: option.splits)+
next
  case (3 k l ls ns cs)
  obtain p c where pc: "snap_at ns k = Some p" "snap_at cs k = Some c" using "3.prems"(1) by (auto split: option.splits)
  obtain ms' where ms': "merge_snaps (Suc k) ls ns cs = Some ms'" "ms = ly_Merge l p c # ms'"
    using "3.prems"(1) pc by auto
  show ?case
  proof (cases i)
    case 0
    have "length ms' = length ls"
    proof (cases ls)
      case Nil
      then show ?thesis using ms'(1) by simp
    next
      case (Cons a list)
      then show ?thesis using "3.IH"[of "snap_at ns k" "snap_at cs k" p c ms' 0] pc ms'(1) by simp
    qed
    then show ?thesis using 0 pc ms' by simp
  next
    case (Suc j)
    then show ?thesis using "3.IH"[of "snap_at ns k" "snap_at cs k" p c ms' j] pc ms' "3.prems"(2) by (auto split: option.splits)
  qed
qed auto

lemma snap_at_in: "snap_at (tn_snapshots (th_heap st n)) i = Some (Some s) \<Longrightarrow> snap_in st n i s"
  by (auto simp: snap_at_def snap_in_def split: if_splits)

lemma splitNode_snaps:
  assumes "splitNode sz caches n at st = Some (np, st')" "n \<noteq> th_next st" "snap_in st' m i s"
  shows "np = th_next st \<and>
    (if m = np then \<exists>l s0. i < length caches \<and> caches ! i = Some l \<and> snap_in st n i s0 \<and>
        fst (ly_Split l s0 (startOffset (th_heap st n) + at)) = Some s
     else if m = n then \<exists>l s0. i < length caches \<and> caches ! i = Some l \<and> snap_in st n i s0 \<and>
        snd (ly_Split l s0 (startOffset (th_heap st n) + at)) = Some s
     else snap_in st m i s)"
proof -
  let ?s1 = "split_edge n at st"
  obtain s2 where s2: "split_snapshots sz caches n (th_next st) ?s1 = Some s2" "np = th_next st" "st' = split_relink n np s2"
    using assms(1) by (auto simp: splitNode_def split: if_splits)
  have sm: "tn_snapshots (th_heap ?s1 k) = (if k = np then [] else tn_snapshots (th_heap st k))" for k
    using assms(2) s2(2) by (auto simp: split_edge_def Let_def upd_node_def)
  have "tn_snapshots (th_heap st' k) = tn_snapshots (th_heap s2 k)" for k
    by (auto simp: s2(3) split_relink_def upd_node_def split: option.split)
  then have in2: "snap_in s2 m i s" using assms(3) by (simp add: snap_in_def)
  show ?thesis
  proof (cases "hasSnapshots (th_heap ?s1 n)")
    case False
    then have "s2 = ?s1" using s2(1) by (simp add: split_snapshots_def)
    then have m: "snap_in st m i s" "m \<noteq> np" using in2 sm by (auto simp: snap_in_def split: if_splits)
    have "m \<noteq> n"
    proof
      assume "m = n"
      then have "Some s \<in> set (tn_snapshots (th_heap st n))" using m(1) nth_mem by (fastforce simp: snap_in_def)
      then have "hasSnapshots (th_heap ?s1 n)" using assms(2) s2(2) sm by (auto simp: hasSnapshots_def list_ex_iff)
      then show False using False by simp
    qed
    then show ?thesis using m s2(2) by simp
  next
    case True
    obtain old s1 where sw: "swapSnapshots sz n [] ?s1 = (old, s1)" by fastforce
    have off: "tn_endOffset (th_heap ?s1 np) = startOffset (th_heap st n) + at"
      using assms(2) s2(2) by (simp add: split_edge_def Let_def upd_node_def)
    obtain ps where ps: "split_snaps caches (startOffset (th_heap st n) + at) old = Some ps"
      "s2 = setSnapshots sz n (map snd ps) (setSnapshots sz np (map fst ps) s1)"
      using s2(1,2) True sw off by (auto simp: split_snapshots_def)
    have old: "old = tn_snapshots (th_heap st n)" using swapSnapshots_heap[OF sw] sm assms(2) s2(2) by simp
    have s1: "tn_snapshots (th_heap s1 k) = (if k = n \<or> k = np then [] else tn_snapshots (th_heap st k))" for k
      using swapSnapshots_heap[OF sw] sm by simp
    have np: "np \<noteq> n" using assms(2) s2(2) by simp
    have in2': "tn_snapshots (th_heap s2 m) = (if m = n then map snd ps else if m = np then map fst ps
        else tn_snapshots (th_heap st m))" by (simp add: ps(2) setSnapshots_heap s1 np)
    show ?thesis
    proof (cases "m = n \<or> m = np")
      case False
      then show ?thesis using in2 in2' s2(2) by (simp add: snap_in_def)
    next
      case True
      have len: "length ps = length old"
      proof (cases old)
        case Nil
        then show ?thesis using ps(1) by (cases caches) auto
      next
        case (Cons a list)
        then show ?thesis using split_snaps_nth[OF ps(1), of 0] by simp
      qed
      have i: "i < length old" using in2 in2' True len by (auto simp: snap_in_def split: if_splits)
      have at_i: "(if m = n then snd (ps ! i) else fst (ps ! i)) = Some s"
        using in2 in2' True len i by (auto simp: snap_in_def split: if_splits)
      note nth = split_snaps_nth[OF ps(1) i]
      obtain s0 where s0: "old ! i = Some s0" using nth at_i by (cases "old ! i") (auto split: if_splits)
      then have c: "i < length caches" "ps ! i = (case caches ! i of None \<Rightarrow> (None, None)
          | Some l \<Rightarrow> ly_Split l s0 (startOffset (th_heap st n) + at))" using nth by auto
      then obtain l where l: "caches ! i = Some l" using at_i by (cases "caches ! i") (auto split: if_splits)
      have "snap_in st n i s0" using s0 i old by (simp add: snap_in_def)
      then show ?thesis using True at_i c l s2(2) np by (auto split: if_splits)
    qed
  qed
qed

lemma mergeWithChild_snaps:
  assumes "mergeWithChild sz caches n st = Some st'" "tn_children (th_heap st n) = [c]" "n \<noteq> c" "snap_in st' m i s"
  shows "m \<noteq> c \<and>
    (if m = n then \<exists>l p q. i < length caches \<and> caches ! i = Some l \<and> ly_Merge l p q = Some s \<and>
        (\<forall>s0. p = Some s0 \<longrightarrow> snap_in st n i s0) \<and> (\<forall>s0. q = Some s0 \<longrightarrow> snap_in st c i s0)
     else snap_in st m i s)"
proof -
  let ?s1 = "upd_node n (\<lambda>x. x\<lparr>tn_tokens := tn_tokens x @ tn_tokens (th_heap st c), tn_endOffset := tn_endOffset (th_heap st c)\<rparr>) st"
  obtain s2 where s2: "merge_snapshots sz caches n c ?s1 = Some s2"
    "st' = upd_node c (\<lambda>x. x\<lparr>tn_parent := None, tn_children := []\<rparr>)
       (upd_node n (\<lambda>x. x\<lparr>tn_user := tn_user (th_heap st c), tn_lastUsed := max (tn_lastUsed x) (tn_lastUsed (th_heap st c))\<rparr>)
         (adopt n (tn_children (th_heap st c)) (upd_node n (\<lambda>x. x\<lparr>tn_children := tn_children (th_heap st c)\<rparr>) s2)))"
    using assms(1,2) by (auto simp: mergeWithChild_def Let_def split: option.splits)
  have sm: "tn_snapshots (th_heap ?s1 k) = tn_snapshots (th_heap st k)" for k by (simp add: upd_node_def)
  have "tn_snapshots (th_heap st' k) = tn_snapshots (th_heap s2 k)" for k by (auto simp: s2(2) upd_node_def)
  then have in2: "snap_in s2 m i s" using assms(4) by (simp add: snap_in_def)
  show ?thesis
  proof (cases "tn_snapshots (th_heap st n) \<noteq> [] \<or> tn_snapshots (th_heap st c) \<noteq> []")
    case False
    then have "s2 = ?s1" using s2(1) sm by (simp add: merge_snapshots_def)
    then show ?thesis using in2 sm False by (auto simp: snap_in_def)
  next
    case True
    obtain ns t1 where sw1: "swapSnapshots sz n [] ?s1 = (ns, t1)" by fastforce
    obtain cs t2 where sw2: "swapSnapshots sz c [] t1 = (cs, t2)" by fastforce
    obtain ms where ms: "merge_snaps 0 caches ns cs = Some ms" "s2 = setSnapshots sz n ms t2"
      using s2(1) True sw1 sw2 sm by (auto simp: merge_snapshots_def)
    have nc: "ns = tn_snapshots (th_heap st n)" "cs = tn_snapshots (th_heap st c)"
      using swapSnapshots_heap[OF sw1] swapSnapshots_heap[OF sw2] sm assms(3) by auto
    have t2: "tn_snapshots (th_heap t2 k) = (if k = n \<or> k = c then [] else tn_snapshots (th_heap st k))" for k
      using swapSnapshots_heap[OF sw1] swapSnapshots_heap[OF sw2] sm by simp
    have in2': "tn_snapshots (th_heap s2 m) = (if m = n then ms else if m = c then [] else tn_snapshots (th_heap st m))"
      by (simp add: ms(2) setSnapshots_heap t2)
    show ?thesis
    proof (cases "m = n")
      case False
      then show ?thesis using in2 in2' by (auto simp: snap_in_def split: if_splits)
    next
      case True
      then have i: "i < length ms" "ms ! i = Some s" using in2 in2' by (auto simp: snap_in_def)
      have "length ms = length caches"
      proof (cases caches)
        case Nil
        then show ?thesis using ms(1) by simp
      next
        case (Cons a list)
        then show ?thesis using merge_snaps_nth[OF ms(1), of 0] by simp
      qed
      then have ic: "i < length caches" using i by simp
      note nth = merge_snaps_nth[OF ms(1) ic]
      obtain l where l: "caches ! i = Some l" using nth i(2) by (cases "caches ! i") auto
      then obtain p q where pq: "snap_at ns i = Some p" "snap_at cs i = Some q" "ly_Merge l p q = Some s"
        using nth i(2) by auto
      have "snap_in st n i s0" if "p = Some s0" for s0 using pq(1) that nc(1) snap_at_in[of st n i s0] by simp
      moreover have "snap_in st c i s0" if "q = Some s0" for s0 using pq(2) that nc(2) snap_at_in[of st c i s0] by simp
      ultimately show ?thesis using True ic l pq(3) assms(3) by auto
    qed
  qed
qed

section \<open>The operations keep the snapshots right\<close>

lemma lawful_split:
  assumes "lawful caches D" "i < length caches" "caches ! i = Some l" "D i s a w" "a \<le> b" "b \<le> length w"
  shows "fst (ly_Split l s b) = Some s' \<Longrightarrow> D i s' a (take b w)" "snd (ly_Split l s b) = Some s' \<Longrightarrow> D i s' b w"
proof -
  obtain p q where pq: "ly_Split l s b = (p, q)" by fastforce
  have law: "layer_lawful l (D i)" using assms(1-3) by (simp add: lawful_def)
  show "fst (ly_Split l s b) = Some s' \<Longrightarrow> D i s' a (take b w)" "snd (ly_Split l s b) = Some s' \<Longrightarrow> D i s' b w"
    using conjunct1[OF law[unfolded layer_lawful_def], THEN spec[of _ s], THEN spec[of _ a], THEN spec[of _ b],
        THEN spec[of _ w], THEN spec[of _ p], THEN spec[of _ q]] assms(4-6) pq by simp_all
qed

lemma lawful_merge:
  assumes "lawful caches D" "i < length caches" "caches ! i = Some l" "\<forall>s. p = Some s \<longrightarrow> D i s a (take b w)"
    "\<forall>s. q = Some s \<longrightarrow> D i s b w" "a \<le> b" "b \<le> length w" "ly_Merge l p q = Some m"
  shows "D i m a w"
proof -
  have "layer_lawful l (D i)" using assms(1-3) by (simp add: lawful_def)
  from conjunct2[OF this[unfolded layer_lawful_def], THEN spec[of _ p], THEN spec[of _ q], THEN spec[of _ a],
      THEN spec[of _ b], THEN spec[of _ w], THEN spec[of _ m]]
  show ?thesis using assms(4-8) by simp
qed

lemma trie_state_ok: "trie_state sz K N r st \<Longrightarrow> trie_ok N r (th_heap st) \<and> trie_ok N r (links (th_heap st)) \<and> (\<forall>n\<in>N. n < th_next st)"
  by (simp add: trie_state_def trie_ok_links)

lemma relabel: "links h' = h \<Longrightarrow> labelled h' r m w \<Longrightarrow> labelled h r m w"
  using labelled_links[of h' r m w] by simp

lemma covered_split:
  assumes "trie_state sz K N r st" "covered D N r st" "lawful caches D" "n \<in> N" "n \<noteq> r" "np \<notin> N"
    "splitNode sz caches n at st = Some (np, st')" "links (th_heap st') = split_links np n at (links (th_heap st))"
    "0 < at" "at < length (tn_tokens (th_heap st n))"
  shows "covered D (insert np N) r st'"
  unfolding covered_def
proof (intro ballI allI impI)
  fix m i s w
  assume m: "m \<in> insert np N" and s: "snap_in st' m i s" and lw: "labelled (th_heap st') r m w"
  have ok: "trie_ok N r (th_heap st)" "trie_ok N r (links (th_heap st))" "n \<noteq> th_next st"
    using trie_state_ok[OF assms(1)] assms(4) by auto
  have np: "np \<noteq> n" using assms(4,6) by auto
  have lab: "(m \<noteq> np \<longrightarrow> labelled (th_heap st) r m w) \<and> (m = np \<longrightarrow> (\<exists>v. labelled (th_heap st) r n (v @ tn_tokens (th_heap st n)) \<and>
      w = v @ take at (tn_tokens (th_heap st n))))"
    using labelled_split[OF ok(2) assms(4,5,6,9), of m w] relabel[OF assms(8) lw] assms(10) by simp
  have tok: "tn_tokens (split_links np n at (links (th_heap st)) k) = tn_tokens (th_heap st' k)" for k
    using assms(8) by (metis links_simps(1))
  have "tn_tokens (split_links np n at (links (th_heap st)) np) = take at (tn_tokens (th_heap st n))"
    "tn_tokens (split_links np n at (links (th_heap st)) n) = drop at (tn_tokens (th_heap st n))"
    "\<And>k. k \<noteq> np \<Longrightarrow> k \<noteq> n \<Longrightarrow> tn_tokens (split_links np n at (links (th_heap st)) k) = tn_tokens (th_heap st k)"
    using np by (auto simp: split_links_def Let_def split: option.split)
  note toks = this[unfolded tok]
  note sn = splitNode_snaps[OF assms(7) ok(3) s]
  have start: "startOffset (th_heap st n) = length v - length (tn_tokens (th_heap st n))" if "labelled (th_heap st) r n v" for v
    using labelled_in[OF ok(1) that] by (simp add: startOffset_def)
  show "D i s (length w - length (tn_tokens (th_heap st' m))) w"
  proof (cases "m = np")
    case True
    obtain v where v: "labelled (th_heap st) r n (v @ tn_tokens (th_heap st n))" "w = v @ take at (tn_tokens (th_heap st n))"
      using lab True by blast
    obtain l s0 where l: "i < length caches" "caches ! i = Some l" "snap_in st n i s0"
      "fst (ly_Split l s0 (length v + at)) = Some s" using sn True start[OF v(1)] by auto
    have "D i s0 (length v) (v @ tn_tokens (th_heap st n))" using coveredD[OF assms(2,4) l(3) v(1)] by simp
    from lawful_split(1)[OF assms(3) l(1,2) this _ _ l(4)] show ?thesis
      using v(2) toks(1) True assms(10) by simp
  next
    case mnp: False
    then have lm: "labelled (th_heap st) r m w" using lab by blast
    show ?thesis
    proof (cases "m = n")
      case True
      obtain q v where v: "w = v @ tn_tokens (th_heap st n)" using labelled_parent[OF ok(1) lm] True assms(5) by metis
      obtain l s0 where l: "i < length caches" "caches ! i = Some l" "snap_in st n i s0"
        "snd (ly_Split l s0 (length v + at)) = Some s" using sn True mnp start[of w] lm v by auto
      have "D i s0 (length v) w" using coveredD[OF assms(2,4) l(3), of w] lm True v by simp
      from lawful_split(2)[OF assms(3) l(1,2) this _ _ l(4)] show ?thesis
        using v toks(2) True assms(10) by simp
    next
      case False
      then show ?thesis using coveredD[OF assms(2) _ _ lm] sn mnp m toks(3)[OF mnp False] by simp
    qed
  qed
qed

lemma covered_append:
  assumes "trie_state sz K N r st" "covered D N r st" "n \<in> N" "c \<notin> N" "appendChild n ts e st = (c, st')"
    "links (th_heap st') = append_links c n ts (links (th_heap st))"
  shows "covered D (insert c N) r st'"
  unfolding covered_def
proof (intro ballI allI impI)
  fix m i s w
  assume m: "m \<in> insert c N" and s: "snap_in st' m i s" and lw: "labelled (th_heap st') r m w"
  have ok: "trie_ok N r (links (th_heap st))" "n \<noteq> th_next st" using trie_state_ok[OF assms(1)] assms(3) by auto
  have sm: "tn_snapshots (th_heap st' k) = (if k = c then [] else tn_snapshots (th_heap st k))" for k
    using assms(5) ok(2) by (auto simp: appendChild_def Let_def upd_node_def)
  then have mc: "m \<noteq> c" "snap_in st m i s" using s by (auto simp: snap_in_def split: if_splits)
  have "labelled (th_heap st) r m w"
    using labelled_append[OF ok(1) assms(3,4), of ts m w] relabel[OF assms(6) lw] mc(1) by simp
  moreover have "tn_tokens (links (th_heap st') m) = tn_tokens (th_heap st m)"
    unfolding assms(6) using mc(1) by (simp add: append_links_def)
  ultimately show "D i s (length w - length (tn_tokens (th_heap st' m))) w"
    using coveredD[OF assms(2) _ mc(2)] m mc(1) by simp
qed

lemma covered_remove:
  assumes "trie_state sz K N r st" "covered D N r st" "n \<in> N" "removeNode sz n st = Some st'"
  shows "covered D (N - {n}) r st'"
  unfolding covered_def
proof (intro ballI allI impI)
  fix m i s w
  assume m: "m \<in> N - {n}" and s: "snap_in st' m i s" and lw: "labelled (th_heap st') r m w"
  have ok: "trie_ok N r (links (th_heap st))" using trie_state_ok[OF assms(1)] by simp
  obtain p where p: "tn_parent (th_heap st n) = Some p" "tn_children (th_heap st n) = []"
    "links (th_heap st') = remove_links n p (links (th_heap st))"
    by (rule removeNode_links[OF assms(4)])
  have "tn_snapshots (th_heap st' m) = tn_snapshots (th_heap st m)"
    using assms(4) p(1,2) m by (auto simp: removeNode_def setSnapshots_heap upd_node_def)
  then have "snap_in st m i s" using s by (simp add: snap_in_def)
  moreover have "labelled (th_heap st) r m w"
    using labelled_remove[OF ok assms(3), of p m w] relabel[OF p(3) lw] p(2) by simp
  moreover have "tn_tokens (links (th_heap st') m) = tn_tokens (th_heap st m)"
    unfolding p(3) by (simp add: remove_links_def Let_def)
  ultimately show "D i s (length w - length (tn_tokens (th_heap st' m))) w"
    using coveredD[OF assms(2), of m i s w] m by simp
qed

lemma covered_merge:
  assumes "trie_state sz K N r st" "covered D N r st" "lawful caches D" "n \<in> N" "n \<noteq> r"
    "tn_children (th_heap st n) = [c]" "mergeWithChild sz caches n st = Some st'"
    "links (th_heap st') = merge_links n c (links (th_heap st))"
  shows "covered D (N - {c}) r st'"
  unfolding covered_def
proof (intro ballI allI impI)
  fix m i s w
  assume m: "m \<in> N - {c}" and s: "snap_in st' m i s" and lw: "labelled (th_heap st') r m w"
  have ok: "trie_ok N r (th_heap st)" "trie_ok N r (links (th_heap st))" using trie_state_ok[OF assms(1)] by auto
  have cn: "c \<in> set (tn_children (th_heap st n))" using assms(6) by simp
  have nc: "n \<noteq> c" and cN: "c \<in> N" using trie_child(1,3)[OF ok(1) assms(4) cn] by auto
  note sn = mergeWithChild_snaps[OF assms(7,6) nc s]
  have lab: "(m \<noteq> n \<longrightarrow> labelled (th_heap st) r m w) \<and> (m = n \<longrightarrow> (\<exists>v. labelled (th_heap st) r n v \<and>
      labelled (th_heap st) r c w \<and> w = v @ tn_tokens (th_heap st c)))"
    using labelled_merge[OF ok(2) assms(4,5), of c m w] relabel[OF assms(8) lw] assms(6) by simp
  show "D i s (length w - length (tn_tokens (th_heap st' m))) w"
  proof (cases "m = n")
    case True
    obtain v where v: "labelled (th_heap st) r n v" "labelled (th_heap st) r c w" "w = v @ tn_tokens (th_heap st c)"
      using lab True by blast
    obtain q u where u: "v = u @ tn_tokens (th_heap st n)" using labelled_parent[OF ok(1) v(1) assms(5)] by metis
    obtain l p q where l: "i < length caches" "caches ! i = Some l" "ly_Merge l p q = Some s"
      "\<forall>s0. p = Some s0 \<longrightarrow> snap_in st n i s0" "\<forall>s0. q = Some s0 \<longrightarrow> snap_in st c i s0"
      using sn True by auto
    have "\<forall>s0. p = Some s0 \<longrightarrow> D i s0 (length u) (take (length v) w)"
      using coveredD[OF assms(2,4) _ v(1)] l(4) u v(3) by simp
    moreover have "\<forall>s0. q = Some s0 \<longrightarrow> D i s0 (length v) w" using coveredD[OF assms(2) cN _ v(2)] l(5) v(3) by simp
    ultimately have "D i s (length u) w" using lawful_merge[OF assms(3) l(1,2) _ _ _ _ l(3), of "length u" "length v" w] u v(3)
      by simp
    moreover have "tn_tokens (links (th_heap st') n) = tn_tokens (th_heap st n) @ tn_tokens (th_heap st c)"
      unfolding assms(8) using nc by (simp add: merge_links_def)
    ultimately show ?thesis using True u v(3) by simp
  next
    case False
    have "tn_tokens (links (th_heap st') m) = tn_tokens (th_heap st m)"
      unfolding assms(8) using False m by (simp add: merge_links_def)
    then show ?thesis using coveredD[OF assms(2), of m i s w] sn False lab m by simp
  qed
qed

text \<open>Changes that leave the links and the snapshots of the other nodes alone.\<close>

lemma covered_set:
  assumes "covered D N r st" "links (th_heap st') = links (th_heap st)"
    "\<And>m. m \<noteq> n \<Longrightarrow> tn_snapshots (th_heap st' m) = tn_snapshots (th_heap st m)"
    "\<And>i s w. n \<in> N \<Longrightarrow> snap_in st' n i s \<Longrightarrow> labelled (th_heap st) r n w \<Longrightarrow>
       D i s (length w - length (tn_tokens (th_heap st n))) w"
  shows "covered D N r st'"
  unfolding covered_def
proof (intro ballI allI impI)
  fix m i s w
  assume m: "m \<in> N" "snap_in st' m i s" "labelled (th_heap st') r m w"
  have "labelled (links (th_heap st')) r m w" using m(3) by simp
  then have lw: "labelled (th_heap st) r m w" unfolding assms(2) by simp
  have "tn_tokens (links (th_heap st') m) = tn_tokens (th_heap st m)" unfolding assms(2) by simp
  then have tok: "tn_tokens (th_heap st' m) = tn_tokens (th_heap st m)" by simp
  show "D i s (length w - length (tn_tokens (th_heap st' m))) w"
  proof (cases "m = n")
    case True
    then show ?thesis using assms(4) m lw tok by simp
  next
    case False
    then have "snap_in st m i s" using m(2) assms(3) by (simp add: snap_in_def)
    then show ?thesis using coveredD[OF assms(1) m(1) _ lw] tok by simp
  qed
qed

end
