(* ===== verification/PrefixCache.thy ===== *)
theory PrefixCache
  imports CacheCovers "HOL-Library.Word" "HOL-Library.Monad_Syntax"
begin

text \<open>
  \<^verbatim>\<open>mlxrunner/prefix_cache.go\<close>: the cache of a model's state across conversations. The trie remembers the
  evaluated token sequences and snapshots of the layers; one path of it is active, the live layers
  stand somewhere on that path, and \<open>begin\<close> moves them to what a new request shares with the trie.

  A layer is a pair of its operations (\<open>cache_ops\<close>, the interface \<^verbatim>\<open>Cache\<close>) and its state; a slot
  without a layer is \<open>None\<close>. \<open>sz\<close> is the size of a snapshot and \<open>clock\<close> what the i-th call of \<^verbatim>\<open>time.Now\<close>
  returns; \<open>pc_clock\<close> counts the calls. Positions are never negative. A panic (or a nil pointer, or an
  index out of range) is \<open>None\<close>, and so is a loop that does not end; logging is left out, and so are
  closing snapshots and scheduling the evaluation of arrays, which touch GPU memory only.
\<close>

unbundle bit_operations_syntax

section \<open>Keys\<close>

record mediaItem =
  mi_pos :: nat
  mi_length :: nat
  mi_fold :: "32 word"
  mi_causal :: bool

definition atomic :: "mediaItem \<Rightarrow> bool" where
  "atomic item \<longleftrightarrow> \<not> mi_causal item"

definition insideAtomicItem :: "mediaItem list \<Rightarrow> nat \<Rightarrow> mediaItem option" where
  "insideAtomicItem items offset =
     List.find (\<lambda>item. atomic item \<and> mi_pos item < offset \<and> offset < mi_pos item + mi_length item) items"

text \<open>An \<^verbatim>\<open>int32\<close> and its \<^verbatim>\<open>uint32\<close> are the same word.\<close>

fun fold_items :: "mediaItem list \<Rightarrow> 32 word list \<Rightarrow> 32 word list option" where
  "fold_items [] eff = Some eff"
| "fold_items (item # items) eff =
     (if mi_length item = 0 then fold_items items eff
      else if length eff < mi_pos item + mi_length item then None
      else fold_items items
        (take (mi_pos item) eff @ replicate (mi_length item) (mi_fold item) @ drop (mi_pos item + mi_length item) eff))"

definition effectiveKeyTokens :: "32 word list \<Rightarrow> mediaItem list \<Rightarrow> 32 word list option" where
  "effectiveKeyTokens tokens items = fold_items items tokens"

type_synonym trieKey = "64 word"

definition pack :: "32 word \<Rightarrow> 32 word \<Rightarrow> trieKey" where
  "pack t u = (push_bit 32 (ucast t)) OR ucast u"

definition key :: "nat \<Rightarrow> 32 word list \<Rightarrow> trieKey list option" where
  "key draftLookahead tokens =
     (if draftLookahead = 0 then Some (map ucast tokens)
      else if draftLookahead = 1 then Some (map (\<lambda>(t, u). pack t u) (zip tokens (tl tokens)))
      else None)"

section \<open>State\<close>

type_synonym ('c, 's) kv = "(('c, 's) cache_ops \<times> 'c) option"

record ('k, 'c, 's) prefixCache =
  pc_root :: "nat option"
  pc_activePath :: "nat list"
  pc_caches :: "('c, 's) kv list"
  pc_trie :: "('k, 's) trie"
  pc_draftLookahead :: nat
  pc_clock :: nat

record cacheSession =
  cs_inputs :: "32 word list"
  cs_effInputs :: "32 word list"
  cs_items :: "mediaItem list"
  cs_outputs :: "32 word list"
  cs_remaining :: "32 word list"
  cs_pending :: "(nat \<times> bool) list"

definition maxPagedOutBytes :: int where
  "maxPagedOutBytes = push_bit 33 1"

definition node :: "('k, 'c, 's) prefixCache \<Rightarrow> nat \<Rightarrow> ('k, 's) trieNode" where
  "node c n = th_heap (pc_trie c) n"

definition layers :: "('k, 'c, 's) prefixCache \<Rightarrow> 's layer option list" where
  "layers c = map (map_option (\<lambda>kv. layer_of (fst kv))) (pc_caches c)"

definition emptyNode :: "nat \<Rightarrow> ('k, 's) trieNode" where
  "emptyNode t = \<lparr>tn_tokens = [], tn_endOffset = 0, tn_parent = None, tn_children = [], tn_lastUsed = t,
     tn_snapshots = [], tn_user = False\<rparr>"

definition newPrefixCache :: "nat \<Rightarrow> ('c, 's) kv list \<Rightarrow> ('k, 'c, 's) prefixCache" where
  "newPrefixCache lookahead caches =
     \<lparr>pc_root = None, pc_activePath = [], pc_caches = caches,
      pc_trie = \<lparr>th_heap = (\<lambda>_. emptyNode 0), th_next = 0, th_paged = 0\<rparr>,
      pc_draftLookahead = lookahead, pc_clock = 0\<rparr>"

text \<open>\<^verbatim>\<open>lastUsed = time.Now()\<close>\<close>

definition touch :: "(nat \<Rightarrow> nat) \<Rightarrow> nat \<Rightarrow> ('k, 'c, 's) prefixCache \<Rightarrow> ('k, 'c, 's) prefixCache" where
  "touch clock n c =
     c\<lparr>pc_trie := upd_node n (\<lambda>x. x\<lparr>tn_lastUsed := clock (pc_clock c)\<rparr>) (pc_trie c), pc_clock := Suc (pc_clock c)\<rparr>"

definition ensureRoot :: "(nat \<Rightarrow> nat) \<Rightarrow> ('k, 'c, 's) prefixCache \<Rightarrow> ('k, 'c, 's) prefixCache" where
  "ensureRoot clock c =
     (if pc_root c = None then
        (let r = th_next (pc_trie c)
         in c\<lparr>pc_root := Some r, pc_activePath := [r],
              pc_trie := (pc_trie c)\<lparr>th_heap := (th_heap (pc_trie c))(r := emptyNode (clock (pc_clock c))), th_next := Suc r\<rparr>,
              pc_clock := Suc (pc_clock c)\<rparr>)
      else c)"

fun min_offset :: "('c, 's) kv list \<Rightarrow> nat option" where
  "min_offset [] = None"
| "min_offset (None # cs) = min_offset cs"
| "min_offset (Some (ops, st) # cs) =
     (case min_offset cs of None \<Rightarrow> Some (co_Offset ops st) | Some m \<Rightarrow> Some (min (co_Offset ops st) m))"

definition minCacheOffset :: "('k, 'c, 's) prefixCache \<Rightarrow> nat" where
  "minCacheOffset c = (case min_offset (pc_caches c) of None \<Rightarrow> 0 | Some m \<Rightarrow> m)"

definition free_all :: "('c, 's) kv list \<Rightarrow> ('c, 's) kv list" where
  "free_all cs = map (map_option (\<lambda>(ops, st). (ops, co_Free ops st))) cs"

definition freeAll :: "('k, 'c, 's) prefixCache \<Rightarrow> ('k, 'c, 's) prefixCache" where
  "freeAll c = c\<lparr>pc_caches := free_all (pc_caches c)\<rparr>"

section \<open>Eviction\<close>

text \<open>The nodes in the order of \<open>walkNodes\<close>; the list holds the subtrees that are left.\<close>

partial_function (option) walkNodes :: "(nat \<Rightarrow> ('k, 's) trieNode) \<Rightarrow> nat list \<Rightarrow> nat list option" where
  [code]: "walkNodes h stack =
     (case stack of
        [] \<Rightarrow> Some []
      | n # ns \<Rightarrow> do {
          rest \<leftarrow> walkNodes h (tn_children (h n) @ ns);
          Some (n # rest)
        })"

definition evict_before :: "('s \<Rightarrow> int) \<Rightarrow> (nat \<Rightarrow> ('k, 's) trieNode) \<Rightarrow> nat \<Rightarrow> nat \<Rightarrow> bool" where
  "evict_before sz h n best =
     (let a = h n; b = h best in
      tn_lastUsed a < tn_lastUsed b \<or>
      tn_lastUsed a = tn_lastUsed b \<and>
        (tn_endOffset b < tn_endOffset a \<or>
         tn_endOffset b = tn_endOffset a \<and> snapshotBytes sz b < snapshotBytes sz a))"

fun evict_best :: "('s \<Rightarrow> int) \<Rightarrow> (nat \<Rightarrow> ('k, 's) trieNode) \<Rightarrow> nat option \<Rightarrow> nat \<Rightarrow> nat option \<Rightarrow> nat list \<Rightarrow> nat option" where
  "evict_best sz h root frontier best [] = best"
| "evict_best sz h root frontier best (n # ns) =
     (if Some n = root \<or> n = frontier \<or> 1 < length (tn_children (h n)) then evict_best sz h root frontier best ns
      else evict_best sz h root frontier
        (case best of None \<Rightarrow> Some n | Some b \<Rightarrow> if evict_before sz h n b then Some n else best) ns)"

definition evictNode :: "('s \<Rightarrow> int) \<Rightarrow> nat \<Rightarrow> ('k, 'c, 's) prefixCache \<Rightarrow> ('k, 'c, 's) prefixCache option" where
  "evictNode sz n c =
     (case tn_children (node c n) of
        [] \<Rightarrow> map_option (\<lambda>st. c\<lparr>pc_trie := st\<rparr>) (removeNode sz n (pc_trie c))
      | [child] \<Rightarrow>
          map_option (\<lambda>st. c\<lparr>pc_trie := st, pc_activePath := remove1 child (pc_activePath c)\<rparr>)
            (mergeWithChild sz (layers c) n (pc_trie c))
      | _ \<Rightarrow> None)"

partial_function (option) evict_loop ::
  "('s \<Rightarrow> int) \<Rightarrow> ('k, 'c, 's) prefixCache \<Rightarrow> ('k, 'c, 's) prefixCache option" where
  [code]: "evict_loop sz c =
     (if th_paged (pc_trie c) \<le> maxPagedOutBytes then Some c
      else if pc_activePath c = [] then None
      else do {
        visited \<leftarrow> walkNodes (th_heap (pc_trie c)) (case pc_root c of None \<Rightarrow> [] | Some r \<Rightarrow> [r]);
        (case evict_best sz (th_heap (pc_trie c)) (pc_root c) (last (pc_activePath c)) None visited of
           None \<Rightarrow> Some c
         | Some best \<Rightarrow> do {c1 \<leftarrow> evictNode sz best c; evict_loop sz c1})
      })"

definition enforceEvictionPolicy :: "('s \<Rightarrow> int) \<Rightarrow> ('k, 'c, 's) prefixCache \<Rightarrow> ('k, 'c, 's) prefixCache option" where
  "enforceEvictionPolicy sz c = evict_loop sz c"

section \<open>Switching the active path\<close>

fun common_len :: "nat list \<Rightarrow> nat list \<Rightarrow> nat" where
  "common_len (a # as) (b # bs) = (if a = b then Suc (common_len as bs) else 0)"
| "common_len _ _ = 0"

text \<open>Rewinding: a layer that refuses is freed.\<close>

fun rewind_layer :: "nat \<Rightarrow> ('c, 's) kv \<Rightarrow> ('c, 's) kv" where
  "rewind_layer target None = None"
| "rewind_layer target (Some (ops, st)) =
     (case co_Restore ops None target st of (ok, st1) \<Rightarrow> Some (ops, if ok then st1 else co_Free ops st1))"

text \<open>Paging in one node: the flag says that a restore failed and the loop over the nodes stops.\<close>

fun page_in_node :: "nat \<Rightarrow> 's option list \<Rightarrow> ('c, 's) kv list \<Rightarrow> bool \<times> ('c, 's) kv list" where
  "page_in_node target snaps [] = (False, [])"
| "page_in_node target snaps (None # cs) =
     (case page_in_node target (tl snaps) cs of (failed, cs1) \<Rightarrow> (failed, None # cs1))"
| "page_in_node target snaps (Some (ops, st) # cs) =
     (case (case snaps of [] \<Rightarrow> None | s # _ \<Rightarrow> s) of
        None \<Rightarrow> (case page_in_node target (tl snaps) cs of (failed, cs1) \<Rightarrow> (failed, Some (ops, st) # cs1))
      | Some s \<Rightarrow>
          if target \<le> co_Offset ops st
          then (case page_in_node target (tl snaps) cs of (failed, cs1) \<Rightarrow> (failed, Some (ops, st) # cs1))
          else (case co_Restore ops (Some s) target st of
                  (ok, st1) \<Rightarrow>
                    if \<not> ok then (True, Some (ops, st1) # cs)
                    else (case page_in_node target (tl snaps) cs of (failed, cs1) \<Rightarrow> (failed, Some (ops, st1) # cs1))))"

fun page_in :: "(nat \<Rightarrow> ('k, 's) trieNode) \<Rightarrow> nat \<Rightarrow> nat list \<Rightarrow> ('c, 's) kv list \<Rightarrow> ('c, 's) kv list" where
  "page_in h matched [] cs = cs"
| "page_in h matched (n # ns) cs =
     (if \<not> hasSnapshots (h n) then page_in h matched ns cs
      else (case page_in_node (min (tn_endOffset (h n)) matched) (tn_snapshots (h n)) cs of
              (failed, cs1) \<Rightarrow> if failed then cs1 else page_in h matched ns cs1))"

text \<open>Aligning all layers; the first one that cannot go back frees them all.\<close>

fun align_layers :: "nat \<Rightarrow> ('c, 's) kv list \<Rightarrow> bool \<times> ('c, 's) kv list" where
  "align_layers minOff [] = (True, [])"
| "align_layers minOff (None # cs) = (case align_layers minOff cs of (ok, cs1) \<Rightarrow> (ok, None # cs1))"
| "align_layers minOff (Some (ops, st) # cs) =
     (if co_Offset ops st = minOff
      then (case align_layers minOff cs of (ok, cs1) \<Rightarrow> (ok, Some (ops, st) # cs1))
      else (case co_Restore ops None minOff st of
              (ok, st1) \<Rightarrow>
                if \<not> ok then (False, Some (ops, st1) # cs)
                else (case align_layers minOff cs of (ok1, cs1) \<Rightarrow> (ok1, Some (ops, st1) # cs1))))"

definition align_all :: "nat \<Rightarrow> ('c, 's) kv list \<Rightarrow> ('c, 's) kv list" where
  "align_all minOff cs = (case align_layers minOff cs of (ok, cs1) \<Rightarrow> if ok then cs1 else free_all cs1)"

text \<open>
  The last node that starts before the live offset is kept, and split if it ends behind it. The path is
  given from its end.
\<close>

fun cut_path ::
  "('s \<Rightarrow> int) \<Rightarrow> nat \<Rightarrow> nat list \<Rightarrow> ('k, 'c, 's) prefixCache \<Rightarrow> ('k, 'c, 's) prefixCache option" where
  "cut_path sz minOff [] c = Some c"
| "cut_path sz minOff (n # before) c =
     (if before \<noteq> [] \<and> minOff \<le> startOffset (node c n) then cut_path sz minOff before c
      else if minOff < tn_endOffset (node c n) then
        (if minOff < startOffset (node c n) then None
         else map_option (\<lambda>(np, st). c\<lparr>pc_trie := st, pc_activePath := rev before @ [np]\<rparr>)
                (splitNode sz (layers c) n (minOff - startOffset (node c n)) (pc_trie c)))
      else Some (c\<lparr>pc_activePath := rev before @ [n]\<rparr>))"

definition switchToPath ::
  "('s \<Rightarrow> int) \<Rightarrow> (nat \<Rightarrow> nat) \<Rightarrow> nat list \<Rightarrow> nat \<Rightarrow> ('k, 'c, 's) prefixCache \<Rightarrow> ('k, 'c, 's) prefixCache option" where
  "switchToPath sz clock newPath matched c =
     (let commonLen = common_len (pc_activePath c) newPath;
          ancestorOffset = (if 0 < commonLen then tn_endOffset (node c (pc_activePath c ! (commonLen - 1))) else 0);
          cs1 = map (rewind_layer (min ancestorOffset matched)) (pc_caches c);
          cs2 = page_in (th_heap (pc_trie c)) matched newPath cs1;
          c1 = c\<lparr>pc_caches := cs2, pc_activePath := newPath\<rparr>;
          minOff = minCacheOffset c1;
          c2 = c1\<lparr>pc_caches := align_all minOff cs2\<rparr>
      in do {
        c3 \<leftarrow> cut_path sz minOff (rev newPath) c2;
        let c4 = (if pc_activePath c3 = [] then c3 else touch clock (last (pc_activePath c3)) c3);
        enforceEvictionPolicy sz c4
      })"

definition begin_session ::
  "('s \<Rightarrow> int) \<Rightarrow> (nat \<Rightarrow> nat) \<Rightarrow> 32 word list \<Rightarrow> mediaItem list \<Rightarrow> (trieKey, 'c, 's) prefixCache \<Rightarrow>
     (cacheSession \<times> (trieKey, 'c, 's) prefixCache) option" where
  "begin_session sz clock inputs items c =
     (let c0 = ensureRoot clock c; h = th_heap (pc_trie c0) in do {
        effInputs \<leftarrow> effectiveKeyTokens inputs items;
        keys \<leftarrow> key (pc_draftLookahead c0) effInputs;
        let m1 = findBestMatch h (pc_root c0) keys;
        let m2 = (if snd m1 = length inputs \<and> 0 < snd m1
                  then findBestMatch h (pc_root c0) (take (snd m1 - 1) keys) else m1);
        let m3 = (case insideAtomicItem items (snd m2) of
                    None \<Rightarrow> m2
                  | Some item \<Rightarrow> findBestMatch h (pc_root c0) (take (mi_pos item) keys));
        c1 \<leftarrow> switchToPath sz clock (fst m3) (snd m3) c0;
        let prefix = minCacheOffset c1;
        if length inputs < prefix then None
        else Some (\<lparr>cs_inputs = inputs, cs_effInputs = effInputs, cs_items = items, cs_outputs = [],
                    cs_remaining = drop prefix inputs,
                    cs_pending = (if prefix < snd m3 then [(snd m3, False)] else [])\<rparr>, c1)
      })"

section \<open>Storing what was evaluated\<close>

definition storedKeys :: "nat \<Rightarrow> cacheSession \<Rightarrow> trieKey list option" where
  "storedKeys lookahead s = key lookahead (cs_effInputs s @ cs_outputs s)"

definition advancePath ::
  "('s \<Rightarrow> int) \<Rightarrow> nat \<Rightarrow> 'k list \<Rightarrow> nat \<Rightarrow> ('k, 'c, 's) prefixCache \<Rightarrow> (nat \<times> ('k, 'c, 's) prefixCache) option" where
  "advancePath sz frontier tokens endOffset c =
     (case findBestMatch (th_heap (pc_trie c)) (Some frontier) tokens of
        (matchPath, matched) \<Rightarrow>
          let remaining = drop matched tokens;
              lastNode = last matchPath;
              matchedInEdge = int (tn_endOffset (node c frontier)) + int matched - int (startOffset (node c lastNode))
          in do {
            (matchPath1, st) \<leftarrow>
              (if 1 < length matchPath \<and> 0 < matchedInEdge \<and> matchedInEdge < int (length (tn_tokens (node c lastNode)))
               then map_option (\<lambda>(np, st). (butlast matchPath @ [np], st))
                      (splitNode sz (layers c) lastNode (nat matchedInEdge) (pc_trie c))
               else Some (matchPath, pc_trie c));
            let c1 = c\<lparr>pc_trie := st, pc_activePath := pc_activePath c @ tl matchPath1\<rparr>;
            let dest = last matchPath1;
            if remaining = [] then Some (dest, c1)
            else (case appendChild dest remaining endOffset (pc_trie c1) of
                    (child, st1) \<Rightarrow> Some (child, c1\<lparr>pc_trie := st1, pc_activePath := pc_activePath c1 @ [child]\<rparr>))
          })"

definition compactPath :: "('s \<Rightarrow> int) \<Rightarrow> ('k, 'c, 's) prefixCache \<Rightarrow> ('k, 'c, 's) prefixCache option" where
  "compactPath sz c =
     (let n = length (pc_activePath c) in
      if n < 2 then Some c
      else (let parent = pc_activePath c ! (n - 2) in
            if Some parent = pc_root c \<or> tn_user (node c parent) \<or> length (tn_children (node c parent)) \<noteq> 1 then Some c
            else map_option (\<lambda>st. c\<lparr>pc_trie := st, pc_activePath := take (n - 1) (pc_activePath c)\<rparr>)
                   (mergeWithChild sz (layers c) parent (pc_trie c))))"

fun page_snaps :: "nat \<Rightarrow> 's option list \<Rightarrow> ('c, 's) kv list \<Rightarrow> 's option list" where
  "page_snaps start snaps [] = []"
| "page_snaps start snaps (kv # cs) =
     (let old = (case snaps of [] \<Rightarrow> None | s # _ \<Rightarrow> s)
      in (case (kv, old) of
            (Some (ops, st), None) \<Rightarrow> co_Snapshot ops start st
          | _ \<Rightarrow> old) # page_snaps start (tl snaps) cs)"

definition pageOut :: "('s \<Rightarrow> int) \<Rightarrow> nat \<Rightarrow> ('k, 'c, 's) prefixCache \<Rightarrow> ('k, 'c, 's) prefixCache option" where
  "pageOut sz n c =
     (if hasAllSnapshots (node c n) (pc_caches c) then Some c
      else enforceEvictionPolicy sz
             (c\<lparr>pc_trie := setSnapshots sz n
                  (page_snaps (startOffset (node c n)) (tn_snapshots (node c n)) (pc_caches c)) (pc_trie c)\<rparr>))"

text \<open>The snapshots a node gets from a row of captures.\<close>

fun attach_snaps :: "nat \<Rightarrow> 's option list \<Rightarrow> 's option list \<Rightarrow> ('c, 's) kv list \<Rightarrow> 's option list" where
  "attach_snaps start snaps row [] = []"
| "attach_snaps start snaps row (kv # cs) =
     (let old = (case snaps of [] \<Rightarrow> None | s # _ \<Rightarrow> s);
          new = (case row of [] \<Rightarrow> None | s # _ \<Rightarrow> s)
      in (case (kv, old, new) of
            (Some (ops, st), None, Some s) \<Rightarrow> snd (co_Split ops s start)
          | _ \<Rightarrow> old) # attach_snaps start (tl snaps) (tl row) cs)"

definition attachCapturedSnapshots ::
  "('s \<Rightarrow> int) \<Rightarrow> (nat \<Rightarrow> nat) \<Rightarrow> nat \<Rightarrow> 's option list \<Rightarrow> ('k, 'c, 's) prefixCache \<Rightarrow> ('k, 'c, 's) prefixCache" where
  "attachCapturedSnapshots sz clock n row c =
     touch clock n
       (c\<lparr>pc_trie := setSnapshots sz n
            (attach_snaps (startOffset (node c n)) (tn_snapshots (node c n)) row (pc_caches c)) (pc_trie c)\<rparr>)"

text \<open>The captures that each layer took, and the layers after that.\<close>

fun take_all :: "('c, 's) kv list \<Rightarrow> 's option list option list \<times> ('c, 's) kv list" where
  "take_all [] = ([], [])"
| "take_all (None # cs) = (case take_all cs of (ts, cs1) \<Rightarrow> (None # ts, None # cs1))"
| "take_all (Some (ops, st) # cs) =
     (case co_TakeSnapshots ops st of
        (taken, st1) \<Rightarrow> case take_all cs of (ts, cs1) \<Rightarrow> (Some taken # ts, Some (ops, st1) # cs1))"

definition capture_row :: "'s option list option list \<Rightarrow> nat \<Rightarrow> 's option list" where
  "capture_row taken i =
     map (\<lambda>t. case t of None \<Rightarrow> None | Some ss \<Rightarrow> if i < length ss then ss ! i else None) taken"

definition attach_pending ::
  "('s \<Rightarrow> int) \<Rightarrow> (nat \<Rightarrow> nat) \<Rightarrow> trieKey list \<Rightarrow> nat \<Rightarrow> nat \<times> bool \<Rightarrow> 's option list \<Rightarrow>
     (trieKey, 'c, 's) prefixCache \<Rightarrow> (trieKey, 'c, 's) prefixCache option" where
  "attach_pending sz clock skeys reached p row c =
     (if reached < fst p then Some c
      else if pc_activePath c = [] then None
      else do {
        let frontier = last (pc_activePath c);
        let start = tn_endOffset (node c frontier);
        (frontier1, c1) \<leftarrow>
          (if start < fst p
           then (if length skeys < fst p then None
                 else advancePath sz frontier (drop start (take (fst p) skeys)) (fst p) c)
           else Some (frontier, c));
        let c2 = (if snd p then c1\<lparr>pc_trie := upd_node frontier1 (\<lambda>x. x\<lparr>tn_user := True\<rparr>) (pc_trie c1)\<rparr> else c1);
        compactPath sz (attachCapturedSnapshots sz clock frontier1 row c2)
      })"

fun attach_all ::
  "('s \<Rightarrow> int) \<Rightarrow> (nat \<Rightarrow> nat) \<Rightarrow> trieKey list \<Rightarrow> nat \<Rightarrow> 's option list option list \<Rightarrow> nat \<Rightarrow> (nat \<times> bool) list \<Rightarrow>
     (trieKey, 'c, 's) prefixCache \<Rightarrow> (trieKey, 'c, 's) prefixCache option" where
  "attach_all sz clock skeys reached taken i [] c = Some c"
| "attach_all sz clock skeys reached taken i (p # ps) c = do {
     c1 \<leftarrow> attach_pending sz clock skeys reached p (capture_row taken i) c;
     attach_all sz clock skeys reached taken (Suc i) ps c1
   }"

definition attachPrefillSnapshots ::
  "('s \<Rightarrow> int) \<Rightarrow> (nat \<Rightarrow> nat) \<Rightarrow> cacheSession \<Rightarrow> (trieKey, 'c, 's) prefixCache \<Rightarrow>
     (cacheSession \<times> (trieKey, 'c, 's) prefixCache) option" where
  "attachPrefillSnapshots sz clock s c =
     (if cs_pending s = [] then Some (s, c)
      else (case take_all (pc_caches c) of
              (taken, caches) \<Rightarrow> do {
                let c1 = c\<lparr>pc_caches := caches\<rparr>;
                skeys \<leftarrow> storedKeys (pc_draftLookahead c1) s;
                c2 \<leftarrow> attach_all sz clock skeys (minCacheOffset c1) taken 0 (cs_pending s) c1;
                c3 \<leftarrow> enforceEvictionPolicy sz c2;
                Some (s\<lparr>cs_pending := []\<rparr>, c3)
              }))"

text \<open>Scheduling: offsets are ints, for the look-ahead is subtracted before they are checked.\<close>

fun mark_user :: "nat \<Rightarrow> (nat \<times> bool) list \<Rightarrow> (nat \<times> bool) list option" where
  "mark_user off [] = None"
| "mark_user off ((x, u) # ps) = (if x = off then Some ((x, True) # ps) else map_option ((#) (x, u)) (mark_user off ps))"

fun schedule_offsets :: "cacheSession \<Rightarrow> nat \<Rightarrow> nat \<Rightarrow> int list \<Rightarrow> (nat \<times> bool) list \<Rightarrow> (nat \<times> bool) list" where
  "schedule_offsets s lookahead base [] pend = pend"
| "schedule_offsets s lookahead base (off # offs) pend =
     (let off1 = off - int lookahead;
          off2 = (case (if 0 \<le> off1 then insideAtomicItem (cs_items s) (nat off1) else None) of
                    None \<Rightarrow> off1 | Some item \<Rightarrow> int (mi_pos item + mi_length item))
      in schedule_offsets s lookahead base offs
           (if off2 \<le> int base \<or> int (length (cs_inputs s)) < off2 then pend
            else (case mark_user (nat off2) pend of Some pend1 \<Rightarrow> pend1 | None \<Rightarrow> pend @ [(nat off2, True)])))"

fun prepare_all :: "nat list \<Rightarrow> ('c, 's) kv list \<Rightarrow> ('c, 's) kv list option" where
  "prepare_all offs [] = Some []"
| "prepare_all offs (None # cs) = map_option ((#) None) (prepare_all offs cs)"
| "prepare_all offs (Some (ops, st) # cs) = do {
     st1 \<leftarrow> co_PrepareSnapshots ops offs st;
     cs1 \<leftarrow> prepare_all offs cs;
     Some (Some (ops, st1) # cs1)
   }"

definition schedulePrefillSnapshots ::
  "int list \<Rightarrow> cacheSession \<Rightarrow> (trieKey, 'c, 's) prefixCache \<Rightarrow> (cacheSession \<times> (trieKey, 'c, 's) prefixCache) option" where
  "schedulePrefillSnapshots offsets s c =
     (let pend = sort_key fst (schedule_offsets s (pc_draftLookahead c) (minCacheOffset c) offsets (cs_pending s));
          s1 = s\<lparr>cs_pending := pend\<rparr>
      in if pend = [] then Some (s1, c)
         else map_option (\<lambda>cs. (s1, c\<lparr>pc_caches := cs\<rparr>)) (prepare_all (map fst pend) (pc_caches c)))"

definition close_session ::
  "('s \<Rightarrow> int) \<Rightarrow> (nat \<Rightarrow> nat) \<Rightarrow> cacheSession \<Rightarrow> (trieKey, 'c, 's) prefixCache \<Rightarrow> (trieKey, 'c, 's) prefixCache option" where
  "close_session sz clock s c = do {
     (s1, c1) \<leftarrow> attachPrefillSnapshots sz clock s c;
     let offset = minCacheOffset c1;
     if offset = 0 then Some c1
     else do {
       skeys \<leftarrow> storedKeys (pc_draftLookahead c1) s1;
       if length skeys < offset then None
       else if pc_activePath c1 = [] then Some c1
       else do {
         let frontier = last (pc_activePath c1);
         let start = tn_endOffset (node c1 frontier);
         c2 \<leftarrow>
           (if start < offset
            then do {
              (dest, c2) \<leftarrow> advancePath sz frontier (drop start (take offset skeys)) offset c1;
              c3 \<leftarrow> pageOut sz dest c2;
              compactPath sz c3
            }
            else Some c1);
         Some (touch clock (last (pc_activePath c2)) c2)
       }
     }
   }"

end
