(* ===== verification/PrefixCacheSafe.thy ===== *)
theory PrefixCacheSafe
  imports PrefixCache
begin

text \<open>
  What the prefix cache promises: the live layers always hold the state of a front of the active path,
  every snapshot in the trie is the state of its node, and a new request starts from the state of exactly
  its own first tokens. \<open>H i\<close> says what layer \<open>i\<close> holds and \<open>C i\<close> what its snapshots cover; they are any
  predicates for which the layer keeps the contract \<open>cache_layer\<close>.
\<close>

section \<open>Layers\<close>

fun all_layers :: "(nat \<Rightarrow> ('c, 's) cache_ops \<Rightarrow> 'c \<Rightarrow> bool) \<Rightarrow> nat \<Rightarrow> ('c, 's) kv list \<Rightarrow> bool" where
  "all_layers P k [] = True"
| "all_layers P k (None # cs) = all_layers P (Suc k) cs"
| "all_layers P k (Some (ops, st) # cs) = (P k ops st \<and> all_layers P (Suc k) cs)"

lemma all_layers_mono: "all_layers P k cs \<Longrightarrow> (\<And>i ops st. P i ops st \<Longrightarrow> Q i ops st) \<Longrightarrow> all_layers Q k cs"
  by (induction P k cs rule: all_layers.induct) auto

lemma all_layers_conj: "all_layers (\<lambda>i ops st. P i ops st \<and> Q i ops st) k cs \<longleftrightarrow> all_layers P k cs \<and> all_layers Q k cs"
proof (induction cs arbitrary: k)
  case (Cons x cs)
  then show ?case by (cases x) auto
qed simp

lemma all_layers_nth:
  "all_layers P k cs \<longleftrightarrow> (\<forall>i ops st. i < length cs \<longrightarrow> cs ! i = Some (ops, st) \<longrightarrow> P (k + i) ops st)"
proof (induction cs arbitrary: k)
  case (Cons x cs)
  show ?case
  proof (cases x)
    case None
    then show ?thesis using Cons[of "Suc k"] by (auto simp: All_less_Suc2 nth_Cons split: nat.splits)
  next
    case (Some kv)
    then show ?thesis using Cons[of "Suc k"] by (cases kv) (auto simp: All_less_Suc2 nth_Cons split: nat.splits)
  qed
qed simp

text \<open>The operations of the layers never change.\<close>

definition ops_of :: "('c, 's) kv list \<Rightarrow> ('c, 's) cache_ops option list" where
  "ops_of cs = map (map_option fst) cs"

lemma ops_of_simps [simp]:
  "ops_of [] = []" "ops_of (None # cs) = None # ops_of cs" "ops_of (Some (ops, st) # cs) = Some ops # ops_of cs"
  by (simp_all add: ops_of_def)

lemma ops_of_length: "ops_of cs = ops_of cs' \<Longrightarrow> length cs = length cs'"
  using map_eq_imp_length_eq by (auto simp: ops_of_def)

lemma ops_of_layers: "ops_of (pc_caches c) = ops_of (pc_caches c') \<Longrightarrow> layers c = layers c'"
proof -
  assume "ops_of (pc_caches c) = ops_of (pc_caches c')"
  then have "map (map_option layer_of) (ops_of (pc_caches c)) = map (map_option layer_of) (ops_of (pc_caches c'))" by simp
  then show ?thesis by (simp add: ops_of_def layers_def option.map_comp comp_def)
qed

definition lawful_layers ::
  "(nat \<Rightarrow> 'c \<Rightarrow> 'k list \<Rightarrow> bool) \<Rightarrow> (nat \<Rightarrow> 's \<Rightarrow> nat \<Rightarrow> 'k list \<Rightarrow> bool) \<Rightarrow> ('c, 's) kv list \<Rightarrow> bool" where
  "lawful_layers H C cs \<longleftrightarrow> all_layers (\<lambda>i ops st. cache_layer ops (H i) (C i)) 0 cs"

lemma lawful_layers_ops: "ops_of cs = ops_of cs' \<Longrightarrow> lawful_layers H C cs = lawful_layers H C cs'"
proof -
  assume eq: "ops_of cs = ops_of cs'"
  have "all_layers (\<lambda>i ops st. P i ops) k cs = all_layers (\<lambda>i ops st. P i ops) k cs'" for P k
    using eq
  proof (induction cs arbitrary: cs' k)
    case (Cons x cs)
    then obtain y ys where y: "cs' = y # ys" by (cases cs') (auto simp: ops_of_def)
    show ?case using Cons.IH[of ys "Suc k"] Cons.prems y by (cases x; cases y) (auto simp: ops_of_def)
  qed (simp add: ops_of_def)
  then show ?thesis by (simp add: lawful_layers_def)
qed

lemma lawful_layers_lawful: "lawful_layers H C (pc_caches c) \<Longrightarrow> lawful (layers c) C"
  unfolding lawful_def lawful_layers_def all_layers_nth
proof (intro allI impI)
  fix i l
  assume all: "\<forall>i ops st. i < length (pc_caches c) \<longrightarrow> pc_caches c ! i = Some (ops, st) \<longrightarrow> cache_layer ops (H (0 + i)) (C (0 + i))"
    and i: "i < length (layers c)" "layers c ! i = Some l"
  obtain ops st where "pc_caches c ! i = Some (ops, st)" "l = layer_of ops" "i < length (pc_caches c)"
    using i by (auto simp: layers_def)
  then show "layer_lawful l (C i)" using all cache_layer.lawful_layer[of ops "H i" "C i"] by auto
qed

text \<open>All layers hold a front of a sequence, or one sequence.\<close>

definition on_path :: "(nat \<Rightarrow> 'c \<Rightarrow> 'k list \<Rightarrow> bool) \<Rightarrow> nat \<Rightarrow> ('c, 's) kv list \<Rightarrow> 'k list \<Rightarrow> bool" where
  "on_path H k cs v \<longleftrightarrow> all_layers (\<lambda>i ops st. \<exists>w. H i st w \<and> prefix w v) k cs"

definition all_hold :: "(nat \<Rightarrow> 'c \<Rightarrow> 'k list \<Rightarrow> bool) \<Rightarrow> nat \<Rightarrow> ('c, 's) kv list \<Rightarrow> 'k list \<Rightarrow> bool" where
  "all_hold H k cs w \<longleftrightarrow> all_layers (\<lambda>i ops st. H i st w) k cs"

definition lawful_at ::
  "(nat \<Rightarrow> 'c \<Rightarrow> 'k list \<Rightarrow> bool) \<Rightarrow> (nat \<Rightarrow> 's \<Rightarrow> nat \<Rightarrow> 'k list \<Rightarrow> bool) \<Rightarrow> nat \<Rightarrow> ('c, 's) kv list \<Rightarrow> bool" where
  "lawful_at H C k cs \<longleftrightarrow> all_layers (\<lambda>i ops st. cache_layer ops (H i) (C i)) k cs"

lemma lawful_at_0: "lawful_layers H C cs = lawful_at H C 0 cs"
  by (simp add: lawful_layers_def lawful_at_def)

lemmas layer_defs = on_path_def all_hold_def lawful_at_def

lemma on_path_mono: "on_path H k cs v \<Longrightarrow> prefix v u \<Longrightarrow> on_path H k cs u"
  unfolding on_path_def by (erule all_layers_mono) (auto intro: prefix_order.trans)

lemma all_hold_on_path: "all_hold H k cs w \<Longrightarrow> prefix w v \<Longrightarrow> on_path H k cs v"
  unfolding on_path_def all_hold_def by (erule all_layers_mono) auto

section \<open>Moving the layers\<close>

lemma rewind_on_path:
  "lawful_at H C k cs \<Longrightarrow> on_path H k cs v \<Longrightarrow> prefix (take t v) u \<Longrightarrow>
    on_path H k (map (rewind_layer t) cs) u \<and> ops_of (map (rewind_layer t) cs) = ops_of cs"
proof (induction cs arbitrary: k)
  case (Cons x cs)
  show ?case
  proof (cases x)
    case None
    then show ?thesis using Cons by (auto simp: layer_defs)
  next
    case (Some kv)
    obtain ops st where kv: "kv = (ops, st)" by fastforce
    have L: "cache_layer ops (H k) (C k)" using Cons.prems(1) Some kv by (simp add: layer_defs)
    obtain w where w: "H k st w" "prefix w v" using Cons.prems(2) Some kv by (auto simp: layer_defs)
    obtain ok st1 where r: "co_Restore ops None t st = (ok, st1)" by fastforce
    have "\<exists>w'. H k (if ok then st1 else co_Free ops st1) w' \<and> prefix w' u"
    proof (cases ok)
      case True
      then have "t \<le> length w \<and> H k st1 (take t w)" using cache_layer.rewind[OF L w(1), of t st1] r by simp
      moreover from this have "take t w = take t v" using w(2) by (auto simp: prefix_def)
      ultimately show ?thesis using Cons.prems(3) True by auto
    next
      case False
      then have "H k st1 w" using cache_layer.refuse[OF L w(1), of None t st1] r by simp
      then have "H k (co_Free ops st1) []" by (rule cache_layer.free[OF L])
      then show ?thesis using False by auto
    qed
    then show ?thesis using Cons.IH[of "Suc k"] Cons.prems Some kv r by (auto simp: layer_defs)
  qed
qed (simp add: layer_defs)

lemma page_in_node_on_path:
  assumes "prefix u v" "target \<le> length u"
  shows "lawful_at H C k cs \<Longrightarrow> on_path H k cs (take m v) \<Longrightarrow> target \<le> m \<Longrightarrow>
    (\<And>i s. i < length snaps \<Longrightarrow> snaps ! i = Some s \<Longrightarrow> \<exists>a. C (k + i) s a u) \<Longrightarrow> page_in_node target snaps cs = (failed, cs1) \<Longrightarrow>
    on_path H k cs1 (take m v) \<and> ops_of cs1 = ops_of cs"
proof (induction cs arbitrary: k snaps failed cs1)
  case (Cons x cs)
  have rest: "\<And>i s. i < length (tl snaps) \<Longrightarrow> tl snaps ! i = Some s \<Longrightarrow> \<exists>a. C (Suc k + i) s a u"
    using Cons.prems(4)[of "Suc _"] by (auto simp: nth_tl)
  obtain f2 cs2 where p: "page_in_node target (tl snaps) cs = (f2, cs2)" by fastforce
  show ?case
  proof (cases x)
    case None
    then show ?thesis using Cons.IH[OF _ _ Cons.prems(3) rest p] Cons.prems(1,2,5) p by (auto simp: layer_defs)
  next
    case (Some kv)
    obtain ops st where kv: "kv = (ops, st)" by fastforce
    have L: "cache_layer ops (H k) (C k)" and L2: "lawful_at H C (Suc k) cs" using Cons.prems(1) Some kv by (auto simp: layer_defs)
    obtain w where w: "H k st w" "prefix w (take m v)" and o2: "on_path H (Suc k) cs (take m v)"
      using Cons.prems(2) Some kv by (auto simp: layer_defs)
    have IH: "on_path H (Suc k) cs2 (take m v) \<and> ops_of cs2 = ops_of cs"
      by (rule Cons.IH[OF L2 o2 Cons.prems(3) rest p])
    have stay: ?thesis if "cs1 = Some (ops, st) # cs2" using that IH w Some kv by (auto simp: layer_defs)
    show ?thesis
    proof (cases "(case snaps of [] \<Rightarrow> None | s # _ \<Rightarrow> s)")
      case None
      then show ?thesis using stay Cons.prems(5) p Some kv by auto
    next
      case (Some s)
      obtain a where s: "C k s a u" using Cons.prems(4)[of 0 s] Some by (cases snaps) auto
      show ?thesis
      proof (cases "target \<le> co_Offset ops st")
        case True
        then show ?thesis using stay Cons.prems(5) p Some \<open>x = Some kv\<close> kv by auto
      next
        case False
        obtain ok st1 where r: "co_Restore ops (Some s) target st = (ok, st1)" by fastforce
        have len: "length w \<le> length u" using cache_layer.offset[OF L w(1)] False assms(2) by simp
        have wv: "prefix w v" using w(2) take_is_prefix[of m v] prefix_order.trans by blast
        have wu: "prefix w u" by (rule prefix_length_prefix[OF wv assms(1) len])
        have "\<exists>w'. H k st1 w' \<and> prefix w' (take m v)"
        proof (cases ok)
          case True
          then have "H k st1 (take target u)" using cache_layer.restore[OF L w(1) wu s, of target st1] r by simp
          moreover have "prefix (take target u) (take m v)"
          proof -
            have "take target u = take target (take m v)" using assms Cons.prems(3) by (auto simp: prefix_def min_def)
            then show ?thesis by (simp only: take_is_prefix)
          qed
          ultimately show ?thesis by blast
        next
          case F: False
          then have "H k st1 w" using cache_layer.refuse[OF L w(1), of "Some s" target st1] r by simp
          then show ?thesis using w(2) by blast
        qed
        then show ?thesis using Cons.prems(5) p Some \<open>x = Some kv\<close> kv False r IH o2
          by (auto simp: layer_defs split: if_splits)
      qed
    qed
  qed
qed (simp add: layer_defs)

text \<open>Along the path: each node's snapshots cover what the path spells up to it.\<close>

lemma page_in_on_path:
  assumes "\<And>n u i s. n \<in> set ns \<Longrightarrow> i < length (tn_snapshots (h n)) \<Longrightarrow> tn_snapshots (h n) ! i = Some s \<Longrightarrow>
      \<exists>a u. C i s a u \<and> prefix u v \<and> length u = tn_endOffset (h n)"
  shows "lawful_at H C 0 cs \<Longrightarrow> on_path H 0 cs (take m v) \<Longrightarrow>
    on_path H 0 (page_in h m ns cs) (take m v) \<and> ops_of (page_in h m ns cs) = ops_of cs"
  using assms
proof (induction ns arbitrary: cs)
  case (Cons n ns)
  show ?case
  proof (cases "hasSnapshots (h n)")
    case False
    then show ?thesis using Cons.IH[OF Cons.prems(1,2)] Cons.prems(3) by simp
  next
    case True
    obtain failed cs1 where p: "page_in_node (min (tn_endOffset (h n)) m) (tn_snapshots (h n)) cs = (failed, cs1)" by fastforce
    have cov: "\<exists>a. C i s a (take (tn_endOffset (h n)) v)"
      if "i < length (tn_snapshots (h n))" "tn_snapshots (h n) ! i = Some s" for i s
      using Cons.prems(3)[of n i s] that by (auto simp: prefix_def)
    have len: "tn_endOffset (h n) \<le> length v"
    proof -
      obtain s where "Some s \<in> set (tn_snapshots (h n))" using True by (auto simp: hasSnapshots_def list_ex_iff)
      then obtain i where "i < length (tn_snapshots (h n))" "tn_snapshots (h n) ! i = Some s" by (auto simp: in_set_conv_nth)
      then show ?thesis using Cons.prems(3)[of n i s] by (auto simp: prefix_def)
    qed
    have step: "on_path H 0 cs1 (take m v) \<and> ops_of cs1 = ops_of cs"
      using page_in_node_on_path[of "take (tn_endOffset (h n)) v" v "min (tn_endOffset (h n)) m" H C 0 cs m "tn_snapshots (h n)" failed cs1]
        take_is_prefix len Cons.prems(1,2) cov p by auto
    have l1: "lawful_at H C 0 cs1" using step Cons.prems(1) lawful_layers_ops[of cs cs1 H C] by (simp add: lawful_at_0)
    show ?thesis
    proof (cases failed)
      case True
      then show ?thesis using step p \<open>hasSnapshots (h n)\<close> by simp
    next
      case F: False
      have "on_path H 0 (page_in h m ns cs1) (take m v) \<and> ops_of (page_in h m ns cs1) = ops_of cs1"
        by (rule Cons.IH[OF l1]) (use step Cons.prems(3) in auto)
      then show ?thesis using step p True F by simp
    qed
  qed
qed simp

text \<open>Aligning: all layers end at the least offset, or all are empty.\<close>

lemma min_offset_least: "min_offset cs = Some m \<Longrightarrow> all_layers (\<lambda>i ops st. m \<le> co_Offset ops st) k cs"
proof (induction cs arbitrary: m k rule: min_offset.induct)
  case (3 ops st cs)
  show ?case
  proof (cases "min_offset cs")
    case None
    then have "all_layers P k' cs" for P k'
      by (induction cs arbitrary: k' rule: min_offset.induct) (auto split: option.splits)
    then show ?thesis using 3(2) None by simp
  next
    case (Some m')
    have "all_layers (\<lambda>i ops st. m \<le> co_Offset ops st) (Suc k) cs"
      using all_layers_mono[OF 3(1)[OF Some, of "Suc k"], of "\<lambda>i ops st. m \<le> co_Offset ops st"] 3(2) Some by auto
    then show ?thesis using 3(2) Some by auto
  qed
qed auto

lemma no_layers: "min_offset cs = None \<Longrightarrow> all_layers P k cs"
  by (induction cs arbitrary: k rule: min_offset.induct) (auto split: option.splits)

lemma min_offset_on_path:
  "lawful_at H C k cs \<Longrightarrow> on_path H k cs v \<Longrightarrow> min_offset cs = Some m \<Longrightarrow> m \<le> length v"
proof (induction cs arbitrary: k m rule: min_offset.induct)
  case (3 ops st cs)
  have L: "cache_layer ops (H k) (C k)" using 3 by (simp add: layer_defs)
  obtain w where w: "H k st w" "prefix w v" using 3 by (auto simp: layer_defs)
  have "co_Offset ops st \<le> length v" using cache_layer.offset[OF L w(1)] prefix_length_le[OF w(2)] by simp
  then show ?case using 3 by (auto split: option.splits)
qed (auto simp: layer_defs)

lemma min_offset_all_hold:
  "lawful_at H C k cs \<Longrightarrow> all_hold H k cs w \<Longrightarrow> min_offset cs = Some m \<Longrightarrow> m = length w"
proof (induction cs arbitrary: k m rule: min_offset.induct)
  case (3 ops st cs)
  have L: "cache_layer ops (H k) (C k)" "H k st w" using 3 by (auto simp: layer_defs)
  have "co_Offset ops st = length w" using cache_layer.offset[OF L] .
  then show ?case using 3 by (auto simp: layer_defs split: option.splits)
qed (auto simp: layer_defs)

lemma align_layers_hold:
  "lawful_at H C k cs \<Longrightarrow> on_path H k cs v \<Longrightarrow> all_layers (\<lambda>i ops st. m \<le> co_Offset ops st) k cs \<Longrightarrow>
     align_layers m cs = (ok, cs1) \<Longrightarrow>
   on_path H k cs1 v \<and> ops_of cs1 = ops_of cs \<and> (ok \<longrightarrow> all_hold H k cs1 (take m v))"
proof (induction cs arbitrary: k ok cs1)
  case (Cons x cs)
  obtain ok2 cs2 where p: "align_layers m cs = (ok2, cs2)" by fastforce
  have IH: "on_path H (Suc k) cs2 v \<and> ops_of cs2 = ops_of cs \<and> (ok2 \<longrightarrow> all_hold H (Suc k) cs2 (take m v))"
    by (rule Cons.IH[OF _ _ _ p]) (use Cons.prems(1-3) in \<open>cases x; auto simp: layer_defs\<close>)+
  show ?case
  proof (cases x)
    case None
    then show ?thesis using IH p Cons.prems(4) by (auto simp: layer_defs)
  next
    case (Some kv)
    obtain ops st where kv: "kv = (ops, st)" by fastforce
    have L: "cache_layer ops (H k) (C k)" using Cons.prems(1) Some kv by (simp add: layer_defs)
    obtain w where w: "H k st w" "prefix w v" using Cons.prems(2) Some kv by (auto simp: layer_defs)
    have off: "co_Offset ops st = length w" using cache_layer.offset[OF L w(1)] .
    show ?thesis
    proof (cases "co_Offset ops st = m")
      case True
      then have "take m v = w" using off w(2) by (auto simp: prefix_def)
      then show ?thesis using IH Cons.prems(4) True p w Some kv by (auto simp: layer_defs)
    next
      case False
      obtain okr st1 where r: "co_Restore ops None m st = (okr, st1)" by fastforce
      show ?thesis
      proof (cases okr)
        case F: False
        then have "H k st1 w" using cache_layer.refuse[OF L w(1), of None m st1] r by simp
        then show ?thesis using Cons.prems(2,4) False r F w Some kv by (auto simp: layer_defs)
      next
        case True
        have "m \<le> length w" "H k st1 (take m w)" using cache_layer.rewind[OF L w(1), of m st1] r True by auto
        moreover from this have "take m w = take m v" using w(2) by (auto simp: prefix_def)
        ultimately have h: "H k st1 (take m v)" by simp
        then show ?thesis using IH Cons.prems(4) False r True p take_is_prefix[of m v] Some kv by (auto simp: layer_defs)
      qed
    qed
  qed
qed (simp add: layer_defs)

lemma free_all_hold:
  "lawful_at H C k cs \<Longrightarrow> on_path H k cs v \<Longrightarrow> all_hold H k (free_all cs) [] \<and> ops_of (free_all cs) = ops_of cs"
proof (induction cs arbitrary: k)
  case (Cons x cs)
  show ?case
  proof (cases x)
    case None
    then show ?thesis using Cons by (auto simp: layer_defs free_all_def)
  next
    case (Some kv)
    obtain ops st where kv: "kv = (ops, st)" by fastforce
    have L: "cache_layer ops (H k) (C k)" using Cons.prems(1) Some kv by (simp add: layer_defs)
    obtain w where w: "H k st w" using Cons.prems(2) Some kv by (auto simp: layer_defs)
    show ?thesis using cache_layer.free[OF L w] Cons.IH[of "Suc k"] Cons.prems Some kv by (auto simp: layer_defs free_all_def)
  qed
qed (simp add: layer_defs free_all_def)

lemma align_all_hold:
  assumes "lawful_at H C 0 cs" "on_path H 0 cs v" "m = (case min_offset cs of None \<Rightarrow> 0 | Some x \<Rightarrow> x)"
  shows "(all_hold H 0 (align_all m cs) (take m v) \<or> all_hold H 0 (align_all m cs) []) \<and> ops_of (align_all m cs) = ops_of cs \<and> m \<le> length v"
proof -
  obtain ok cs1 where a: "align_layers m cs = (ok, cs1)" by fastforce
  have least: "all_layers (\<lambda>i ops st. m \<le> co_Offset ops st) 0 cs"
  proof (cases "min_offset cs")
    case None
    then show ?thesis by (rule no_layers)
  next
    case (Some x)
    then show ?thesis using min_offset_least[OF Some] assms(3) by simp
  qed
  have s: "on_path H 0 cs1 v \<and> ops_of cs1 = ops_of cs \<and> (ok \<longrightarrow> all_hold H 0 cs1 (take m v))"
    by (rule align_layers_hold[OF assms(1,2) least a])
  then have "lawful_at H C 0 cs1" using assms(1) lawful_layers_ops[of cs cs1 H C] by (simp add: lawful_at_0)
  then have f: "all_hold H 0 (free_all cs1) [] \<and> ops_of (free_all cs1) = ops_of cs1" using free_all_hold s by blast
  have "m \<le> length v" using min_offset_on_path[OF assms(1,2)] assms(3) by (cases "min_offset cs") auto
  then show ?thesis using s f a by (auto simp: align_all_def)
qed

section \<open>The active path\<close>

lemma walk_keep:
  "walk h m path \<Longrightarrow>
   (\<And>x y. x \<in> set (m # path) \<Longrightarrow> y \<in> set path \<Longrightarrow> y \<in> set (tn_children (h x)) \<Longrightarrow> y \<in> set (tn_children (h' x))) \<Longrightarrow>
   (\<And>x. x \<in> set path \<Longrightarrow> tn_tokens (h' x) = tn_tokens (h x)) \<Longrightarrow> walk h' m path \<and> along h' path = along h path"
proof (induction path arbitrary: m)
  case (Cons c path)
  have "walk h' c path \<and> along h' path = along h path" by (rule Cons.IH) (use Cons.prems in auto)
  moreover have "c \<in> set (tn_children (h' m))" using Cons.prems(1) Cons.prems(2)[of m c] by simp
  ultimately show ?case using Cons.prems(3)[of c] by simp
qed simp

lemma walk_links [simp]: "walk (links h) n path = walk h n path" "along (links h) path = along h path"
  by (induction path arbitrary: n) auto

lemma walk_deeper:
  assumes "trie_ok N r h"
  shows "m \<in> N \<Longrightarrow> walk h m path \<Longrightarrow> x \<in> set path \<Longrightarrow> tn_endOffset (h m) < tn_endOffset (h x)"
proof (induction path arbitrary: m)
  case (Cons c path)
  have c: "c \<in> N" "tn_endOffset (h m) < tn_endOffset (h c)"
    using trie_child[OF assms Cons.prems(1), of c] Cons.prems(2) by auto
  then show ?case using Cons.IH[OF c(1)] Cons.prems(2,3) by auto
qed simp

lemma walk_distinct:
  assumes "trie_ok N r h"
  shows "m \<in> N \<Longrightarrow> walk h m path \<Longrightarrow> distinct (m # path)"
proof (induction path arbitrary: m)
  case (Cons c path)
  have "c \<in> N" using trie_child(1)[OF assms Cons.prems(1), of c] Cons.prems(2) by simp
  then have "distinct (c # path)" using Cons.IH[of c] Cons.prems(2) by simp
  moreover have "m \<notin> set (c # path)" using walk_deeper[OF assms Cons.prems, of m] by auto
  ultimately show ?case by simp
qed simp

definition active :: "(nat \<Rightarrow> ('k, 'z) linked_scheme) \<Rightarrow> nat \<Rightarrow> nat list \<Rightarrow> 'k list \<Rightarrow> bool" where
  "active h r ap v \<longleftrightarrow> (\<exists>path. ap = r # path \<and> walk h r path \<and> along h path = v)"

lemma active_links [simp]: "active (links h) r ap v = active h r ap v"
  by (simp add: active_def)

lemma active_labelled: "active h r ap v \<Longrightarrow> labelled h r (last ap) v"
  unfolding active_def using labelled_walk by metis

lemma active_end: "trie_ok N r h \<Longrightarrow> active h r ap v \<Longrightarrow> last ap \<in> N \<and> tn_endOffset (h (last ap)) = length v"
  using labelled_in active_labelled by metis

text \<open>Removing a leaf that is not on the path, and merging a node with its child.\<close>

lemma active_remove:
  assumes "active h r ap v" "n \<notin> set ap"
  shows "active (remove_links n p h) r ap v"
proof -
  obtain path where path: "ap = r # path" "walk h r path" "along h path = v" using assms(1) by (auto simp: active_def)
  have "walk (remove_links n p h) r path \<and> along (remove_links n p h) path = along h path"
  proof (rule walk_keep[OF path(2)])
    fix x y assume "y \<in> set path" "y \<in> set (tn_children (h x))"
    moreover from this have "y \<noteq> n" using assms(2) path(1) by auto
    ultimately show "y \<in> set (tn_children (remove_links n p h x))"
      by (auto simp: remove_links_def Let_def)
  qed (simp add: remove_links_def Let_def)
  then show ?thesis using path by (auto simp: active_def)
qed

lemma walk_merge_other:
  assumes "walk h m path" "n \<notin> set (m # path)" "c \<notin> set (m # path)"
  shows "walk (merge_links n c h) m path \<and> along (merge_links n c h) path = along h path"
proof (rule walk_keep[OF assms(1)])
  fix x y assume "x \<in> set (m # path)" "y \<in> set (tn_children (h x))"
  moreover from this have "x \<noteq> n" "x \<noteq> c" using assms(2,3) by auto
  ultimately show "y \<in> set (tn_children (merge_links n c h x))" by (simp add: merge_links_def)
next
  fix x assume "x \<in> set path"
  moreover from this have "x \<noteq> n" "x \<noteq> c" using assms(2,3) by auto
  ultimately show "tn_tokens (merge_links n c h x) = tn_tokens (h x)" by (simp add: merge_links_def)
qed

lemma active_merge:
  assumes "trie_ok N r h" "active h r ap v" "n \<in> N" "n \<noteq> r" "n \<noteq> last ap" "tn_children (h n) = [c]"
  shows "active (merge_links n c h) r (remove1 c ap) v"
proof -
  let ?h = "merge_links n c h"
  obtain path where path: "ap = r # path" "walk h r path" "along h path = v" using assms(2) by (auto simp: active_def)
  have rN: "r \<in> N" using assms(1) by (simp add: trie_ok_def)
  have d: "distinct (r # path)" by (rule walk_distinct[OF assms(1) rN path(2)])
  have cn: "c \<in> set (tn_children (h n))" using assms(6) by simp
  note cc = trie_child[OF assms(1,3) cn]
  show ?thesis
  proof (cases "n \<in> set path")
    case True
    then obtain xs ys where xy: "path = xs @ n # ys" by (meson split_list)
    have "ys \<noteq> []" using assms(5) path(1) xy by auto
    then obtain ys' where ys: "ys = c # ys'" using path(2) xy assms(6) by (cases ys) (auto simp: walk_append)
    have split: "walk h r xs" "n \<in> set (tn_children (h (last (r # xs))))" "walk h c ys'"
      using path(2) xy ys by (auto simp: walk_append)
    have front: "walk ?h r xs \<and> along ?h xs = along h xs"
      using walk_merge_other[OF split(1), of n c] d xy ys assms(4) cc(2) by auto
    have "last (r # xs) \<noteq> n" "last (r # xs) \<noteq> c" using d xy ys assms(4) cc(2) by (auto simp: last_in_set split: if_splits)
    then have up: "n \<in> set (tn_children (?h (last (r # xs))))" using split(2) by (simp add: merge_links_def)
    have down: "walk ?h n ys' \<and> along ?h ys' = along h ys'"
    proof (cases ys')
      case (Cons e es)
      have e: "e \<in> set (tn_children (h c))" "walk h e es" using split(3) Cons by auto
      have nes: "n \<notin> set (e # es)" "c \<notin> set (e # es)" using d xy ys Cons by auto
      then have "walk ?h e es \<and> along ?h es = along h es" using walk_merge_other[OF e(2)] by blast
      moreover have "e \<in> set (tn_children (?h n))" using e(1) cc(3) by (simp add: merge_links_def)
      moreover have "tn_tokens (?h e) = tn_tokens (h e)" using nes by (auto simp: merge_links_def)
      ultimately show ?thesis using Cons by simp
    qed simp
    have "tn_tokens (?h n) = tn_tokens (h n) @ tn_tokens (h c)" using cc(3) by (simp add: merge_links_def)
    then have "walk ?h r (xs @ n # ys') \<and> along ?h (xs @ n # ys') = v"
      using front up down path(3) xy ys by (simp add: walk_append)
    moreover have "remove1 c ap = r # xs @ n # ys'"
      using d path(1) xy ys cc(2,3) by (auto simp: remove1_append)
    ultimately show ?thesis by (auto simp: active_def)
  next
    case False
    have "c \<notin> set path"
    proof
      assume "c \<in> set path"
      then obtain xs ys where xy: "path = xs @ c # ys" by (meson split_list)
      then have p: "c \<in> set (tn_children (h (last (r # xs))))" "walk h r xs" using path(2) by (auto simp: walk_append)
      have "last (r # xs) \<in> N" using walk_last[OF assms(1) rN p(2)] .
      then have "last (r # xs) = n" using trie_child(4)[OF assms(1) _ p(1)] cc(4) by simp
      then show False using False assms(4) xy by (auto split: if_splits)
    qed
    then have "walk ?h r path \<and> along ?h path = along h path"
      using walk_merge_other[OF path(2), of n c] False assms(4) cc(2) by auto
    moreover have "remove1 c ap = ap" using \<open>c \<notin> set path\<close> cc(2) path(1) by (simp add: remove1_idem)
    ultimately show ?thesis using path by (auto simp: active_def)
  qed
qed

section \<open>The invariant\<close>

definition pc_core ::
  "(nat \<Rightarrow> 'c \<Rightarrow> 'k list \<Rightarrow> bool) \<Rightarrow> (nat \<Rightarrow> 's \<Rightarrow> nat \<Rightarrow> 'k list \<Rightarrow> bool) \<Rightarrow> ('s \<Rightarrow> int) \<Rightarrow> nat set \<Rightarrow> nat \<Rightarrow> 'k list \<Rightarrow>
     ('k, 'c, 's) prefixCache \<Rightarrow> bool" where
  "pc_core H C sz N r v c \<longleftrightarrow> pc_root c = Some r \<and> trie_state sz (length (pc_caches c)) N r (pc_trie c) \<and>
     lawful_layers H C (pc_caches c) \<and> covered C N r (pc_trie c) \<and>
     active (th_heap (pc_trie c)) r (pc_activePath c) v"

definition pc_inv ::
  "(nat \<Rightarrow> 'c \<Rightarrow> 'k list \<Rightarrow> bool) \<Rightarrow> (nat \<Rightarrow> 's \<Rightarrow> nat \<Rightarrow> 'k list \<Rightarrow> bool) \<Rightarrow> ('s \<Rightarrow> int) \<Rightarrow> nat set \<Rightarrow> nat \<Rightarrow> 'k list \<Rightarrow>
     ('k, 'c, 's) prefixCache \<Rightarrow> bool" where
  "pc_inv H C sz N r v c \<longleftrightarrow> pc_core H C sz N r v c \<and> on_path H 0 (pc_caches c) v"

lemma pc_core_parts:
  assumes "pc_core H C sz N r v c"
  shows "pc_root c = Some r" "trie_state sz (length (pc_caches c)) N r (pc_trie c)"
    "lawful_layers H C (pc_caches c)" "covered C N r (pc_trie c)"
    "active (th_heap (pc_trie c)) r (pc_activePath c) v" "pc_activePath c \<noteq> []"
    "trie_ok N r (th_heap (pc_trie c))" "trie_ok N r (links (th_heap (pc_trie c)))" "r \<in> N" "finite N"
    "lawful (layers c) C" "length (layers c) = length (pc_caches c)"
  using assms lawful_layers_lawful[of H C c] trie_state_ok[of sz _ N r "pc_trie c"]
  by (auto simp: pc_core_def trie_ok_def layers_def active_def)

lemma heap_active: "links (th_heap st') = l \<Longrightarrow> active l r ap v \<Longrightarrow> active (th_heap st') r ap v"
  using active_links[of "th_heap st'" r ap v] by simp

lemma evictNode_core:
  assumes "pc_core H C sz N r v c" "n \<in> N" "n \<noteq> r" "n \<noteq> last (pc_activePath c)" "length (tn_children (node c n)) \<le> 1"
  shows "\<exists>c' N'. evictNode sz n c = Some c' \<and> pc_core H C sz N' r v c' \<and> card N' < card N \<and>
    pc_caches c' = pc_caches c \<and> pc_draftLookahead c' = pc_draftLookahead c \<and> N' \<subseteq> N"
proof -
  note inv = pc_core_parts[OF assms(1)]
  let ?h = "th_heap (pc_trie c)"
  show ?thesis
  proof (cases "tn_children (?h n)")
    case Nil
    obtain p where p: "tn_parent (?h n) = Some p"
      using trie_ok_parts(7)[OF inv(7) assms(2,3)] by (auto simp: edge_ok_def)
    then obtain st' where st': "removeNode sz n (pc_trie c) = Some st'" using Nil by (simp add: removeNode_def)
    obtain p' where l: "links (th_heap st') = remove_links n p' (links ?h)" by (rule removeNode_links[OF st'])
    have s: "trie_state sz (length (pc_caches c)) (N - {n}) r st'" by (rule removeNode_state(1)[OF inv(2) assms(2) st'])
    have "n \<notin> set (pc_activePath c)"
    proof
      assume n: "n \<in> set (pc_activePath c)"
      obtain path where path: "pc_activePath c = r # path" "walk ?h r path" using inv(5) by (auto simp: active_def)
      then obtain xs ys where "path = xs @ n # ys" using n assms(3) by (auto dest: split_list)
      then show False using path assms(4) Nil by (cases ys) (auto simp: walk_append)
    qed
    then have "active (remove_links n p' (links ?h)) r (pc_activePath c) v"
      using active_remove[of "links ?h" r "pc_activePath c" v n p'] inv(5) by simp
    then have a: "active (th_heap st') r (pc_activePath c) v" by (rule heap_active[OF l])
    have cov: "covered C (N - {n}) r st'" by (rule covered_remove[OF inv(2,4) assms(2) st'])
    have "card (N - {n}) < card N" using inv(10) assms(2) by (rule card_Diff1_less)
    then show ?thesis using Nil st' s a cov inv by (intro exI[of _ "c\<lparr>pc_trie := st'\<rparr>"] exI[of _ "N - {n}"])
        (auto simp: evictNode_def node_def pc_core_def)
  next
    case (Cons x xs)
    then have c1: "tn_children (?h n) = [x]" using assms(5) by (cases xs) (auto simp: node_def)
    obtain st' where st': "mergeWithChild sz (layers c) n (pc_trie c) = Some st'"
      "trie_state sz (length (pc_caches c)) (N - {x}) r st'" "links (th_heap st') = merge_links n x (links ?h)"
      using mergeWithChild_state[OF inv(2) assms(2,3) inv(12) c1] by blast
    have cov: "covered C (N - {x}) r st'"
      by (rule covered_merge[OF inv(2,4,11) assms(2,3) c1 st'(1,3)])
    have "active (merge_links n x (links ?h)) r (remove1 x (pc_activePath c)) v"
      by (rule active_merge[OF inv(8) _ assms(2,3,4)]) (use inv(5) c1 in auto)
    then have a: "active (th_heap st') r (remove1 x (pc_activePath c)) v" by (rule heap_active[OF st'(3)])
    have "x \<in> N" using trie_child(1)[OF inv(7) assms(2), of x] c1 by simp
    then have "card (N - {x}) < card N" using inv(10) by (intro card_Diff1_less)
    then show ?thesis using c1 st' a cov inv
      by (intro exI[of _ "c\<lparr>pc_trie := st', pc_activePath := remove1 x (pc_activePath c)\<rparr>"] exI[of _ "N - {x}"])
        (auto simp: evictNode_def node_def pc_core_def)
  qed
qed

text \<open>Walking over the trie ends: every node is replaced by fewer than all nodes that lie deeper.\<close>

lemma walkNodes_returns:
  assumes "trie_ok N r h"
  shows "set stack \<subseteq> N \<Longrightarrow> \<exists>l. walkNodes h stack = Some l \<and> set l \<subseteq> N"
proof -
  define M where "M = Max ((\<lambda>n. tn_endOffset (h n)) ` N)"
  define wt where "wt n = Suc (card N) ^ (M - tn_endOffset (h n))" for n
  have fin: "finite N" using assms by (simp add: trie_ok_def)
  have small: "sum_list (map wt (tn_children (h n))) < wt n" if n: "n \<in> N" for n
  proof (cases "tn_children (h n) = []")
    case True
    then show ?thesis by (simp add: wt_def)
  next
    case False
    have child: "tn_endOffset (h n) < tn_endOffset (h c) \<and> tn_endOffset (h c) \<le> M" if "c \<in> set (tn_children (h n))" for c
    proof -
      have "tn_endOffset (h c) \<le> M"
        unfolding M_def using fin trie_child(1)[OF assms n that] by (intro Max_ge) auto
      then show ?thesis using trie_child(5,6)[OF assms n that] by simp
    qed
    define d where "d = M - tn_endOffset (h n) - 1"
    have "tn_endOffset (h n) < M" using child[of "hd (tn_children (h n))"] False by simp
    then have d: "M - tn_endOffset (h n) = Suc d" unfolding d_def by linarith
    have "wt c \<le> Suc (card N) ^ d" if "c \<in> set (tn_children (h n))" for c
      unfolding wt_def by (rule power_increasing) (use child[OF that] in \<open>auto simp: d_def\<close>)
    then have "sum_list (map wt (tn_children (h n))) \<le> sum_list (map (\<lambda>_. Suc (card N) ^ d) (tn_children (h n)))"
      by (intro sum_list_mono)
    also have "\<dots> = length (tn_children (h n)) * Suc (card N) ^ d" by (simp add: sum_list_triv)
    also have "\<dots> \<le> card N * Suc (card N) ^ d"
    proof -
      have "distinct (tn_children (h n))" "set (tn_children (h n)) \<subseteq> N"
        using trie_ok_parts(6)[OF assms n] by (auto simp: links_ok_def)
      then have "length (tn_children (h n)) \<le> card N" using card_mono[OF fin] by (metis distinct_card)
      then show ?thesis by simp
    qed
    also have "\<dots> < Suc (card N) ^ Suc d" by simp
    finally show ?thesis by (simp add: wt_def d)
  qed
  show "set stack \<subseteq> N \<Longrightarrow> \<exists>l. walkNodes h stack = Some l \<and> set l \<subseteq> N"
  proof (induction "sum_list (map wt stack)" arbitrary: stack rule: less_induct)
    case less
    show ?case
    proof (cases stack)
      case Nil
      then show ?thesis by (simp add: walkNodes.simps)
    next
      case (Cons n ns)
      then have n: "n \<in> N" using less.prems by simp
      have sub: "set (tn_children (h n) @ ns) \<subseteq> N"
        using less.prems Cons trie_child(1)[OF assms n] by auto
      have "sum_list (map wt (tn_children (h n) @ ns)) < sum_list (map wt stack)" using small[OF n] Cons by simp
      from less.hyps[OF this sub] show ?thesis using Cons n by (auto simp: walkNodes.simps[of h "n # ns"])
    qed
  qed
qed

lemma evict_best_Some:
  "evict_best sz h root frontier best ns = Some b \<Longrightarrow>
     best = Some b \<or> (b \<in> set ns \<and> Some b \<noteq> root \<and> b \<noteq> frontier \<and> length (tn_children (h b)) \<le> 1)"
proof (induction ns arbitrary: best)
  case (Cons n ns)
  show ?case
  proof (cases "Some n = root \<or> n = frontier \<or> 1 < length (tn_children (h n))")
    case True
    then show ?thesis using Cons.IH[of best] Cons.prems by auto
  next
    case False
    then show ?thesis using Cons.prems Cons.IH[of "case best of None \<Rightarrow> Some n | Some b \<Rightarrow> if evict_before sz h n b then Some n else best"]
      by (cases best) (auto split: if_splits)
  qed
qed simp

text \<open>Eviction ends, leaves the live layers and the active sequence alone, and only removes nodes.\<close>

lemma enforceEvictionPolicy_core:
  "pc_core H C sz N r v c \<Longrightarrow> \<exists>c' N'. enforceEvictionPolicy sz c = Some c' \<and> pc_core H C sz N' r v c' \<and> N' \<subseteq> N \<and>
     pc_caches c' = pc_caches c \<and> pc_draftLookahead c' = pc_draftLookahead c"
proof (induction "card N" arbitrary: N c rule: less_induct)
  case less
  note inv = pc_core_parts[OF less.prems]
  show ?case
  proof (cases "th_paged (pc_trie c) \<le> maxPagedOutBytes")
    case True
    then have "enforceEvictionPolicy sz c = Some c" by (simp add: enforceEvictionPolicy_def evict_loop.simps)
    then show ?thesis using less.prems by blast
  next
    case False
    have ne: "pc_activePath c \<noteq> []" using inv(5) by (auto simp: active_def)
    obtain l where l: "walkNodes (th_heap (pc_trie c)) [r] = Some l" "set l \<subseteq> N"
      using walkNodes_returns[OF inv(7), of "[r]"] inv(9) by auto
    define best where "best = evict_best sz (th_heap (pc_trie c)) (pc_root c) (last (pc_activePath c)) None l"
    show ?thesis
    proof (cases best)
      case None
      then have "enforceEvictionPolicy sz c = Some c"
        using False ne l(1) inv(1) by (simp add: enforceEvictionPolicy_def evict_loop.simps[of sz c] best_def)
      then show ?thesis using less.prems by blast
    next
      case (Some b)
      then have b: "b \<in> N" "b \<noteq> r" "b \<noteq> last (pc_activePath c)" "length (tn_children (node c b)) \<le> 1"
        using evict_best_Some[of sz "th_heap (pc_trie c)" "pc_root c" "last (pc_activePath c)" None l b] l(2) inv(1)
        by (auto simp: best_def node_def)
      obtain c1 N1 where c1: "evictNode sz b c = Some c1" "pc_core H C sz N1 r v c1" "card N1 < card N"
        "pc_caches c1 = pc_caches c" "pc_draftLookahead c1 = pc_draftLookahead c" "N1 \<subseteq> N"
        using evictNode_core[OF less.prems b] by blast
      have "enforceEvictionPolicy sz c = enforceEvictionPolicy sz c1"
        using False ne l(1) inv(1) Some c1(1) by (simp add: enforceEvictionPolicy_def evict_loop.simps[of sz c] best_def)
      then show ?thesis using less.hyps[OF c1(3,2)] c1(4-6) by fastforce
    qed
  qed
qed

section \<open>Switching\<close>

lemma walk_split:
  assumes "trie_ok N r h" "n \<in> N" "np \<notin> N" "0 < at" "at < length (tn_tokens (h n))" "walk h r (path @ [n])"
  shows "walk (split_links np n at h) r (path @ [np])"
    "along (split_links np n at h) (path @ [np]) = along h path @ take at (tn_tokens (h n))"
proof -
  let ?h = "split_links np n at h"
  have rN: "r \<in> N" using assms(1) by (simp add: trie_ok_def)
  have d: "distinct (r # path @ [n])" by (rule walk_distinct[OF assms(1) rN assms(6)])
  have nr: "n \<noteq> r" using d by auto
  have inN: "set (r # path) \<subseteq> N" using walk_in[OF assms(1) rN assms(6)] rN by auto
  obtain P where P: "P \<in> N" "P \<noteq> n" "P \<noteq> np" "n \<noteq> np" "tn_parent (h n) = Some P" "n \<in> set (tn_children (h P))"
    and raw: "?h np = \<lparr>tn_tokens = take at (tn_tokens (h n)), tn_endOffset = tn_endOffset (h P) + at,
       tn_parent = Some P, tn_children = [n]\<rparr>"
    "?h n = (h n)\<lparr>tn_tokens := drop at (tn_tokens (h n)), tn_parent := Some np\<rparr>"
    "?h P = (h P)\<lparr>tn_children := replace1 n np (tn_children (h P))\<rparr>"
    and rest: "\<And>m. m \<noteq> np \<Longrightarrow> m \<noteq> n \<Longrightarrow> m \<noteq> P \<Longrightarrow> ?h m = h m"
    using split_links_at[OF assms(1,2) nr assms(3-5)] by blast
  have last: "n \<in> set (tn_children (h (last (r # path))))" "walk h r path" using assms(6) by (auto simp: walk_append)
  have "last (r # path) \<in> N" using walk_last[OF assms(1) rN last(2)] .
  then have PL: "last (r # path) = P" using trie_child(4)[OF assms(1) _ last(1)] P(5) by simp
  have dist: "distinct (tn_children (h P))" using trie_ok_parts(6)[OF assms(1) P(1)] by (simp add: links_ok_def)
  have kids: "set (tn_children (?h P)) = insert np (set (tn_children (h P)) - {n})"
    using replace1_set[OF dist P(6)] raw(3) by simp
  have same: "tn_tokens (?h x) = tn_tokens (h x)" "x \<noteq> P \<Longrightarrow> tn_children (?h x) = tn_children (h x)" if "x \<in> N" "x \<noteq> n" for x
  proof -
    have np: "x \<noteq> np" using that(1) assms(3) by auto
    show "tn_tokens (?h x) = tn_tokens (h x)"
    proof (cases "x = P")
      case False
      show ?thesis by (simp only: rest[OF np that(2) False])
    qed (simp add: raw(3))
    show "tn_children (?h x) = tn_children (h x)" if "x \<noteq> P" by (simp only: rest[OF np \<open>x \<noteq> n\<close> that])
  qed
  have "walk ?h r path \<and> along ?h path = along h path"
  proof (rule walk_keep[OF last(2)])
    fix x y assume xy: "x \<in> set (r # path)" "y \<in> set path" "y \<in> set (tn_children (h x))"
    have "x \<in> N" "x \<noteq> n" "y \<noteq> n" using xy d inN by auto
    then show "y \<in> set (tn_children (?h x))" using kids xy(3) same(2)[of x] by (cases "x = P") auto
  next
    fix x assume "x \<in> set path"
    then show "tn_tokens (?h x) = tn_tokens (h x)" using same(1)[of x] inN d by auto
  qed
  then show "walk ?h r (path @ [np])" "along ?h (path @ [np]) = along h path @ take at (tn_tokens (h n))"
    using PL kids raw(1) by (auto simp: walk_append)
qed

lemma cut_path_inv:
  assumes "pc_root c = Some r" "trie_state sz (length (pc_caches c)) N r (pc_trie c)" "lawful_layers H C (pc_caches c)"
    "covered C N r (pc_trie c)"
  shows "walk (th_heap (pc_trie c)) r path \<Longrightarrow> m \<le> length (along (th_heap (pc_trie c)) path) \<Longrightarrow>
    \<exists>c' N'. cut_path sz m (rev (r # path)) c = Some c' \<and> pc_root c' = Some r \<and> pc_caches c' = pc_caches c \<and>
      pc_draftLookahead c' = pc_draftLookahead c \<and>
      trie_state sz (length (pc_caches c)) N' r (pc_trie c') \<and> covered C N' r (pc_trie c') \<and>
      stored (th_heap (pc_trie c')) r = stored (th_heap (pc_trie c)) r \<and>
      active (th_heap (pc_trie c')) r (pc_activePath c') (take m (along (th_heap (pc_trie c)) path))"
proof (induction path rule: rev_induct)
  case Nil
  have "tn_endOffset (node c r) = 0" using assms(2) by (simp add: trie_state_def trie_ok_def node_def)
  then show ?case using Nil assms by (auto simp: active_def)
next
  case (snoc n path)
  let ?h = "th_heap (pc_trie c)"
  have ok: "trie_ok N r ?h" and rN: "r \<in> N" using assms(2) by (auto simp: trie_state_def trie_ok_def)
  have w: "walk ?h r path" "n \<in> set (tn_children (?h (last (r # path))))" using snoc.prems(1) by (auto simp: walk_append)
  have lN: "last (r # path) \<in> N" by (rule walk_last[OF ok rN w(1)])
  note child = trie_child[OF ok lN w(2)]
  have e: "tn_endOffset (?h n) = length (along ?h path) + length (tn_tokens (?h n))"
    using child(6) walk_endOffset[OF ok rN w(1)] ok by (simp add: trie_ok_def)
  then have start: "startOffset (node c n) = length (along ?h path)" by (simp add: startOffset_def node_def)
  show ?case
  proof (cases "m \<le> length (along ?h path)")
    case True
    then have "cut_path sz m (rev (r # path @ [n])) c = cut_path sz m (rev (r # path)) c" using start by simp
    then show ?thesis using snoc.IH[OF w(1) True] True by simp
  next
    case False
    show ?thesis
    proof (cases "m < tn_endOffset (?h n)")
      case True
      define at where "at = m - length (along ?h path)"
      have at: "0 < at" "at < length (tn_tokens (?h n))" using False True e by (auto simp: at_def)
      have len: "length (layers c) = length (pc_caches c)" by (simp add: layers_def)
      obtain np st' where s: "splitNode sz (layers c) n at (pc_trie c) = Some (np, st')" "np \<notin> N" "n \<noteq> r"
        "trie_state sz (length (pc_caches c)) (insert np N) r st'" "links (th_heap st') = split_links np n at (links ?h)"
        using splitNode_state[OF assms(2) child(1) len at] by blast
      have ok': "trie_ok N r (links ?h)" using ok by (simp add: trie_ok_links)
      have at': "at < length (tn_tokens (links ?h n))" using at(2) by simp
      have "walk (links ?h) r (path @ [n])" using snoc.prems(1) by simp
      note ws = walk_split[OF ok' child(1) s(2) at(1) at' this]
      have "active (split_links np n at (links ?h)) r (r # path @ [np]) (along ?h path @ take at (tn_tokens (?h n)))"
        using ws by (auto simp: active_def)
      then have a: "active (th_heap st') r (r # path @ [np]) (along ?h path @ take at (tn_tokens (?h n)))"
        by (rule heap_active[OF s(5)])
      have cov: "covered C (insert np N) r st'"
        by (rule covered_split[OF assms(2,4) lawful_layers_lawful[OF assms(3)] child(1) s(3,2,1,5) at])
      have "stored (links (th_heap st')) r = stored (links ?h) r"
        unfolding s(5) by (rule split_stored[OF ok' child(1) s(3,2) at(1) at' rN])
      then have "stored (th_heap st') r = stored ?h r" by simp
      moreover have "take m (along ?h (path @ [n])) = along ?h path @ take at (tn_tokens (?h n))"
        using False by (simp add: at_def)
      moreover have "cut_path sz m (rev (r # path @ [n])) c = Some (c\<lparr>pc_trie := st', pc_activePath := r # path @ [np]\<rparr>)"
      proof -
        have "rev (r # path @ [n]) = n # rev (r # path)" "rev (r # path) \<noteq> []" by simp_all
        moreover have "\<not> m \<le> startOffset (node c n)" "m < tn_endOffset (node c n)" "m - startOffset (node c n) = at"
          using False True start by (simp_all add: at_def node_def)
        ultimately show ?thesis using s(1) by (simp only: cut_path.simps) simp
      qed
      ultimately show ?thesis using s(4) a cov assms(1) by fastforce
    next
      case F: False
      then have "m = length (along ?h (path @ [n]))" using snoc.prems(2) e by simp
      then show ?thesis using False F start assms snoc.prems(1)
        by (intro exI[of _ "c\<lparr>pc_activePath := r # path @ [n]\<rparr>"] exI[of _ N]) (auto simp: node_def active_def)
    qed
  qed
qed

lemma common_len_le: "common_len as bs \<le> length as" "common_len as bs \<le> length bs"
  by (induction as bs rule: common_len.induct) auto

lemma common_len_take: "take (common_len as bs) as = take (common_len as bs) bs"
  by (induction as bs rule: common_len.induct) auto

text \<open>The rewound layers stand on the new path.\<close>

lemma common_ancestor:
  assumes "trie_ok N r h" "active h r ap v" "walk h r path"
    "anc = (if 0 < common_len ap (r # path) then tn_endOffset (h (ap ! (common_len ap (r # path) - 1))) else 0)"
  shows "prefix (take (min anc m) v) (take m (along h path))"
proof -
  obtain old where old: "ap = r # old" "walk h r old" "along h old = v" using assms(2) by (auto simp: active_def)
  have rN: "r \<in> N" using assms(1) by (simp add: trie_ok_def)
  define k where "k = common_len old path"
  have k: "common_len ap (r # path) = Suc k" "take k old = take k path" "k \<le> length old"
    using common_len_le[of old path] common_len_take[of old path] by (auto simp: k_def old(1))
  have w: "walk h r (take k old)" using old(2) walk_append[of h r "take k old" "drop k old"] by simp
  have "ap ! k = last (r # take k old)"
  proof (cases k)
    case (Suc j)
    then have "take k old \<noteq> []" using k(3) by auto
    then show ?thesis using k(3) old(1) Suc by (simp add: last_conv_nth min_def)
  qed (simp add: old(1))
  then have "anc = tn_endOffset (h (last (r # take k old)))" using assms(4) k(1) by simp
  then have anc: "anc = length (along h (take k old))" using walk_endOffset[OF assms(1) rN w] assms(1) by (simp add: trie_ok_def)
  have "v = along h (take k old) @ along h (drop k old)" using old(3) by (metis along_simps(3) append_take_drop_id)
  then have "take anc v = along h (take k old)" by (simp add: anc)
  moreover have "along h path = along h (take k old) @ along h (drop k path)"
    by (metis along_simps(3) append_take_drop_id k(2))
  then have "take anc (along h path) = along h (take k old)" by (simp add: anc)
  ultimately have "take (min anc m) v = take (min anc m) (along h path)" by (metis min.commute take_take)
  also have "\<dots> = take anc (take m (along h path))" by simp
  finally show ?thesis by (simp only: take_is_prefix)
qed

lemma trie_state_upd:
  assumes "trie_state sz K N r st" "\<And>x. tn_snapshots (f x) = tn_snapshots x" "\<And>x. linked.truncate (f x) = linked.truncate x"
  shows "trie_state sz K N r (upd_node n f st)" "links (th_heap (upd_node n f st)) = links (th_heap st)"
proof -
  show l: "links (th_heap (upd_node n f st)) = links (th_heap st)"
    using assms(3) by (auto simp: links_def upd_node_def)
  have "trie_ok N r (links (th_heap (upd_node n f st)))" unfolding l using assms(1) by (simp add: trie_state_def trie_ok_links)
  then have "trie_ok N r (th_heap (upd_node n f st))" by (simp only: trie_ok_links)
  moreover have sn: "tn_snapshots (th_heap (upd_node n f st) m) = tn_snapshots (th_heap st m)" for m
    using assms(2) by (simp add: upd_node_def)
  moreover have "counted sz N (upd_node n f st) = counted sz N st"
    by (rule counted_cong[OF sn]) (simp add: upd_node_def)
  ultimately show "trie_state sz K N r (upd_node n f st)"
    using assms(1) by (auto simp: trie_state_def snaps_ok_def counted_def)
qed

lemma upd_core:
  assumes "pc_core H C sz N r v c" "\<And>x. tn_snapshots (f x) = tn_snapshots x" "\<And>x. linked.truncate (f x) = linked.truncate x"
    "pc_root c' = pc_root c" "pc_caches c' = pc_caches c" "pc_activePath c' = pc_activePath c" "pc_trie c' = upd_node n f (pc_trie c)"
  shows "pc_core H C sz N r v c'"
proof -
  note inv = pc_core_parts[OF assms(1)]
  note t = trie_state_upd[OF inv(2), of f n, OF assms(2,3)]
  have "covered C N r (upd_node n f (pc_trie c))"
    by (rule covered_set[OF inv(4) t(2), of n]) (use coveredD[OF inv(4)] assms(2) in \<open>auto simp: snap_in_def upd_node_def\<close>)
  moreover have "active (th_heap (upd_node n f (pc_trie c))) r (pc_activePath c) v"
    by (rule heap_active[OF t(2)]) (use inv(5) in simp)
  ultimately show ?thesis using inv t(1) assms(4-7) by (simp add: pc_core_def)
qed

lemma touch_core: "pc_core H C sz N r v c \<Longrightarrow> pc_core H C sz N r v (touch clock n c)"
  by (erule upd_core[where f = "\<lambda>x. x\<lparr>tn_lastUsed := clock (pc_clock c)\<rparr>" and n = n])
    (simp_all add: touch_def linked.truncate_def)

lemma touch_simps [simp]:
  "pc_caches (touch clock n c) = pc_caches c" "pc_draftLookahead (touch clock n c) = pc_draftLookahead c"
  "pc_activePath (touch clock n c) = pc_activePath c" "pc_root (touch clock n c) = pc_root c"
  by (simp_all add: touch_def)

lemma switchToPath_inv:
  assumes "pc_inv H C sz N r v c" "walk (th_heap (pc_trie c)) r path" "m \<le> length (along (th_heap (pc_trie c)) path)"
  shows "\<exists>c' N' v'. switchToPath sz clock (r # path) m c = Some c' \<and> pc_inv H C sz N' r v' c' \<and>
    prefix v' (take m (along (th_heap (pc_trie c)) path)) \<and> pc_draftLookahead c' = pc_draftLookahead c \<and>
    ops_of (pc_caches c') = ops_of (pc_caches c) \<and>
    (all_hold H 0 (pc_caches c') v' \<or> all_hold H 0 (pc_caches c') [])"
proof -
  have core: "pc_core H C sz N r v c" and op: "on_path H 0 (pc_caches c) v" using assms(1) by (auto simp: pc_inv_def)
  note inv = pc_core_parts[OF core]
  let ?h = "th_heap (pc_trie c)" and ?w = "along (th_heap (pc_trie c)) path"
  define anc where "anc = (if 0 < common_len (pc_activePath c) (r # path)
      then tn_endOffset (node c (pc_activePath c ! (common_len (pc_activePath c) (r # path) - 1))) else 0)"
  define cs1 where "cs1 = map (rewind_layer (min anc m)) (pc_caches c)"
  define cs2 where "cs2 = page_in ?h m (r # path) cs1"
  define c1 where "c1 = c\<lparr>pc_caches := cs2, pc_activePath := r # path\<rparr>"
  define mo where "mo = minCacheOffset c1"
  define cs3 where "cs3 = align_all mo cs2"
  define c2 where "c2 = c1\<lparr>pc_caches := cs3\<rparr>"
  have law: "lawful_at H C 0 (pc_caches c)" using inv(3) by (simp add: lawful_at_0)
  have "prefix (take (min anc m) v) (take m ?w)"
    by (rule common_ancestor[OF inv(7,5) assms(2)]) (simp add: anc_def node_def)
  then have s1: "on_path H 0 cs1 (take m ?w)" "ops_of cs1 = ops_of (pc_caches c)"
    using rewind_on_path[OF law op] by (auto simp: cs1_def)
  have law1: "lawful_at H C 0 cs1" using s1(2) law lawful_layers_ops[of cs1 "pc_caches c" H C] by (simp add: lawful_at_0)
  have cov: "\<exists>a u. C i s a u \<and> prefix u ?w \<and> length u = tn_endOffset (?h n)"
    if n: "n \<in> set (r # path)" "i < length (tn_snapshots (?h n))" "tn_snapshots (?h n) ! i = Some s" for n i s
  proof -
    obtain xs ys where xy: "path = xs @ ys" "last (r # xs) = n"
    proof (cases "n = r")
      case True
      then show ?thesis using that[of "[]" path] by simp
    next
      case False
      then obtain xs ys where "path = (xs @ [n]) @ ys" using n(1) by (auto dest: split_list)
      then show ?thesis using that[of "xs @ [n]" ys] by simp
    qed
    have "walk ?h r xs" using assms(2) xy(1) by (simp add: walk_append)
    then have lab: "labelled ?h r n (along ?h xs)" using labelled_walk xy(2) by metis
    have "n \<in> N" "length (along ?h xs) = tn_endOffset (?h n)" using labelled_in[OF inv(7) lab] by auto
    moreover have "snap_in (pc_trie c) n i s" using n(2,3) by (simp add: snap_in_def)
    ultimately show ?thesis using coveredD[OF inv(4) _ _ lab] xy(1) by fastforce
  qed
  have s2: "on_path H 0 cs2 (take m ?w)" "ops_of cs2 = ops_of (pc_caches c)"
    using page_in_on_path[of "r # path" ?h C ?w H cs1 m, OF cov law1 s1(1)] s1(2) by (auto simp: cs2_def)
  have law2: "lawful_at H C 0 cs2" using s2(2) law lawful_layers_ops[of cs2 "pc_caches c" H C] by (simp add: lawful_at_0)
  have s3: "all_hold H 0 cs3 (take mo (take m ?w)) \<or> all_hold H 0 cs3 []" "ops_of cs3 = ops_of (pc_caches c)"
    "mo \<le> length (take m ?w)"
    using align_all_hold[OF law2 s2(1), of mo] s2(2) by (auto simp: cs3_def mo_def minCacheOffset_def c1_def)
  have cs3: "length cs3 = length (pc_caches c)" "lawful_layers H C cs3"
    using ops_of_length[OF s3(2)] s3(2) inv(3) lawful_layers_ops[of cs3 "pc_caches c" H C] by auto
  have pre: "pc_root c2 = Some r" "trie_state sz (length (pc_caches c2)) N r (pc_trie c2)"
    "lawful_layers H C (pc_caches c2)" "covered C N r (pc_trie c2)"
    using inv cs3 by (auto simp: c2_def c1_def)
  have t2: "pc_trie c2 = pc_trie c" "pc_caches c2 = cs3" "pc_draftLookahead c2 = pc_draftLookahead c" by (simp_all add: c2_def c1_def)
  have "walk (th_heap (pc_trie c2)) r path" "mo \<le> length (along (th_heap (pc_trie c2)) path)"
    using assms(2) s3(3) t2 by auto
  from cut_path_inv[OF pre this] obtain c3 N3 where c3: "cut_path sz mo (rev (r # path)) c2 = Some c3"
    "pc_root c3 = Some r" "pc_caches c3 = cs3" "pc_draftLookahead c3 = pc_draftLookahead c"
    "trie_state sz (length cs3) N3 r (pc_trie c3)" "covered C N3 r (pc_trie c3)"
    "active (th_heap (pc_trie c3)) r (pc_activePath c3) (take mo ?w)" using t2 by auto
  have "mo \<le> m" using s3(3) by simp
  then have mo: "take mo (take m ?w) = take mo ?w" by (simp add: min_absorb1)
  then have held: "all_hold H 0 cs3 (take mo ?w) \<or> all_hold H 0 cs3 []" using s3(1) by simp
  then have "on_path H 0 cs3 (take mo ?w)" using all_hold_on_path by fastforce
  then have on3: "on_path H 0 (pc_caches c3) (take mo ?w)" using c3(3) by simp
  have inv3: "pc_core H C sz N3 r (take mo ?w) c3" using c3 cs3 by (simp add: pc_core_def)
  have ne: "pc_activePath c3 \<noteq> []" using c3(7) by (auto simp: active_def)
  define c4 where "c4 = touch clock (last (pc_activePath c3)) c3"
  have inv4: "pc_core H C sz N3 r (take mo ?w) c4" unfolding c4_def by (rule touch_core[OF inv3])
  obtain c5 N5 where c5: "enforceEvictionPolicy sz c4 = Some c5" "pc_core H C sz N5 r (take mo ?w) c5"
    "pc_caches c5 = pc_caches c4" "pc_draftLookahead c5 = pc_draftLookahead c4"
    using enforceEvictionPolicy_core[OF inv4] by blast
  have "switchToPath sz clock (r # path) m c = Some c5"
    using c3(1) ne c5(1) unfolding switchToPath_def Let_def
    by (simp add: anc_def[symmetric] cs1_def[symmetric] cs2_def[symmetric] c1_def[symmetric] mo_def[symmetric]
        cs3_def[symmetric] c2_def[symmetric] c4_def[symmetric] del: page_in.simps)
  moreover have "prefix (take mo ?w) (take m ?w)" using mo take_is_prefix[of mo "take m ?w"] by simp
  ultimately show ?thesis using c5 c3(3,4) s3(2) held on3 by (auto simp: c4_def pc_inv_def)
qed

end
