(* ===== verification/MediaKeys.thy ===== *)
theory MediaKeys
  imports PrefixCache
begin

text \<open>
  \<^verbatim>\<open>mlxrunner/media.go\<close> and the prefill loop of \<^verbatim>\<open>mlxrunner/pipeline.go\<close>: the media items of a prompt, the
  keys that stand for them in the prefix cache, and the passes in which a prompt is evaluated. A pass
  must not end inside an item whose tokens attend to each other (an atomic item); the keys must tell
  prompts apart whose tokens are the same placeholders for different media.

  A segment is its bytes, or \<open>None\<close> for a text segment (\<^verbatim>\<open>Data == nil\<close>). Encoding the features of an item
  and freeing its buffers touches only memory and is left out, as is cancelling the context.
\<close>

unbundle bit_operations_syntax

section \<open>Fold values\<close>

text \<open>The 64-bit FNV-1a hash of the standard library, and the hash of an item with bit 31 forced.\<close>

definition fnv1a :: "64 word \<Rightarrow> 8 word list \<Rightarrow> 64 word" where
  "fnv1a = foldl (\<lambda>h b. (h XOR ucast b) * 1099511628211)"

definition uint64_bytes :: "int \<Rightarrow> 8 word list" where
  "uint64_bytes d = map (\<lambda>i. ucast (drop_bit (8 * i) (word_of_int d :: 64 word))) [0..<8]"

definition foldValue :: "8 word list \<Rightarrow> int list \<Rightarrow> 32 word" where
  "foldValue data dims =
     (let sum = fnv1a (fnv1a 14695981039346656037 data) (concat (map uint64_bytes dims))
      in (ucast (drop_bit 32 sum) XOR ucast sum) OR push_bit 31 1)"

section \<open>Items\<close>

record preparedItem =
  pi_start :: int
  pi_end :: int
  pi_source :: int
  pi_dims :: "int list"
  pi_causal :: bool

record preparedRequest =
  pr_tokens :: "32 word list"
  pr_items :: "preparedItem list"

datatype bindError = InvalidRange int int | NotMedia int | NoTokens

fun bind_loop ::
  "32 word list \<Rightarrow> 8 word list option list \<Rightarrow> int \<Rightarrow> bool list \<Rightarrow> preparedItem list \<Rightarrow> bindError + (mediaItem list \<times> bool list)" where
  "bind_loop tokens segments e cov [] = Inr ([], cov)"
| "bind_loop tokens segments e cov (item # items) =
     (if pi_start item < e \<or> pi_end item \<le> pi_start item \<or> int (length tokens) < pi_end item
      then Inl (InvalidRange (pi_start item) (pi_end item))
      else if pi_source item < 0 \<or> int (length segments) \<le> pi_source item then Inl (NotMedia (pi_source item))
      else (case segments ! nat (pi_source item) of
              None \<Rightarrow> Inl (NotMedia (pi_source item))
            | Some data \<Rightarrow>
                (case bind_loop tokens segments (pi_end item) (cov[nat (pi_source item) := True]) items of
                   Inl err \<Rightarrow> Inl err
                 | Inr (rest, cov1) \<Rightarrow>
                     Inr (\<lparr>mi_pos = nat (pi_start item), mi_length = nat (pi_end item - pi_start item),
                           mi_fold = foldValue data (pi_dims item), mi_causal = pi_causal item\<rparr> # rest, cov1))))"

definition bindItems :: "preparedRequest \<Rightarrow> 8 word list option list \<Rightarrow> bindError + mediaItem list" where
  "bindItems prepared segments =
     (case bind_loop (pr_tokens prepared) segments 0 (replicate (length segments) False) (pr_items prepared) of
        Inl err \<Rightarrow> Inl err
      | Inr (items, cov) \<Rightarrow>
          if list_ex (\<lambda>(seg, x). seg \<noteq> None \<and> \<not> x) (zip segments cov) then Inl NoTokens else Inr items)"

record requestMedia =
  rm_items :: "mediaItem list"
  rm_inputLen :: nat

definition openMedia :: "mediaItem list \<Rightarrow> 32 word list \<Rightarrow> requestMedia option" where
  "openMedia items tokens = (if items = [] then None else Some \<lparr>rm_items = items, rm_inputLen = length tokens\<rparr>)"

fun extend_at :: "nat \<Rightarrow> nat \<Rightarrow> nat \<Rightarrow> mediaItem list \<Rightarrow> int" where
  "extend_at inputLen pos n [] = int n"
| "extend_at inputLen pos n (item # items) =
     (if atomic item \<and> mi_pos item < pos + n \<and> pos + n < mi_pos item + mi_length item
      then (if pos < mi_pos item then int (mi_pos item) - int pos
            else min (int (mi_pos item) + int (mi_length item)) (int inputLen - 1) - int pos)
      else extend_at inputLen pos n items)"

definition extendChunk :: "requestMedia option \<Rightarrow> nat \<Rightarrow> nat \<Rightarrow> int" where
  "extendChunk m pos n = (case m of None \<Rightarrow> int n | Some m \<Rightarrow> extend_at (rm_inputLen m) pos n (rm_items m))"

section \<open>Prefill\<close>

definition prefillChunkSize :: nat where
  "prefillChunkSize = push_bit 10 2"

text \<open>The offsets that a prefill asks the cache to capture.\<close>

function periodic :: "nat \<Rightarrow> nat \<Rightarrow> nat list" where
  "periodic offset len = (if offset < len then offset # periodic (offset + 8192) len else [])"
  by auto
termination by (relation "measure (\<lambda>(offset, len). len - offset)") auto

declare periodic.simps [simp del]

definition snapshot_offsets :: "nat \<Rightarrow> nat list" where
  "snapshot_offsets len = periodic 8192 len @ (if 4 < len then [len - 4] else [])"

text \<open>
  The passes, as positions and lengths; one token is left to seed the generation. A negative length would
  be a slice out of range, which panics.
\<close>

partial_function (option) prefill_loop :: "requestMedia option \<Rightarrow> nat \<Rightarrow> nat \<Rightarrow> (nat \<times> nat) list option" where
  [code]: "prefill_loop media len position =
     (if len - position \<le> 1 then Some []
      else (let n = extendChunk media position (min prefillChunkSize (len - position - 1))
            in if n < 0 \<or> int len < int position + n then None
               else do {
                 rest \<leftarrow> prefill_loop media len (position + nat n);
                 Some ((position, nat n) # rest)
               }))"

section \<open>What binding guarantees\<close>

lemma bit_foldValue: "bit (foldValue data dims) 31"
  by (simp add: foldValue_def Let_def bit_or_iff bit_push_bit_iff)

definition ordered_items :: "nat \<Rightarrow> nat \<Rightarrow> mediaItem list \<Rightarrow> bool" where
  "ordered_items e len items \<longleftrightarrow> sorted_wrt (\<lambda>x y. mi_pos x + mi_length x \<le> mi_pos y) items \<and>
     (\<forall>x\<in>set items. e \<le> mi_pos x \<and> 0 < mi_length x \<and> mi_pos x + mi_length x \<le> len \<and> bit (mi_fold x) 31)"

lemma bind_loop_ordered:
  "bind_loop tokens segments e cov ps = Inr (items, cov1) \<Longrightarrow> 0 \<le> e \<Longrightarrow> ordered_items (nat e) (length tokens) items"
proof (induction ps arbitrary: e cov items cov1)
  case (Cons p ps)
  obtain data rest where r: "bind_loop tokens segments (pi_end p) (cov[nat (pi_source p) := True]) ps = Inr (rest, cov1)"
    "items = \<lparr>mi_pos = nat (pi_start p), mi_length = nat (pi_end p - pi_start p), mi_fold = foldValue data (pi_dims p),
       mi_causal = pi_causal p\<rparr> # rest"
    "e \<le> pi_start p" "pi_start p < pi_end p" "pi_end p \<le> int (length tokens)"
    using Cons.prems(1) by (auto split: if_splits option.splits sum.splits)
  have "ordered_items (nat (pi_end p)) (length tokens) rest" using Cons.IH[OF r(1)] r(3,4) Cons.prems(2) by simp
  then show ?case using r(2-5) Cons.prems(2) by (fastforce simp: ordered_items_def bit_foldValue nat_diff_distrib)
qed (simp add: ordered_items_def)

lemma bindItems_ordered: "bindItems pr segments = Inr items \<Longrightarrow> ordered_items 0 (length (pr_tokens pr)) items"
  using bind_loop_ordered[of "pr_tokens pr" segments 0] by (fastforce simp: bindItems_def split: sum.splits if_splits)

section \<open>Keys\<close>

lemma key_length: "key la ts = Some ks \<Longrightarrow> length ks = length ts - la"
  by (auto simp: key_def split: if_splits)

lemma fold_items_length: "fold_items items eff = Some eff' \<Longrightarrow> length eff' = length eff"
  by (induction items eff rule: fold_items.induct) (auto split: if_splits)

lemma pack_inject: "pack t u = pack t' u' \<Longrightarrow> t = t' \<and> u = u'"
proof -
  assume eq: "pack t u = pack t' u'"
  have "bit t n = bit t' n" if "n < 32" for n
    using arg_cong[OF eq, of "\<lambda>w. bit w (n + 32)"] that
    by (auto simp: pack_def bit_or_iff bit_push_bit_iff bit_ucast_iff dest: bit_imp_le_length)
  moreover have "bit u n = bit u' n" if "n < 32" for n
    using arg_cong[OF eq, of "\<lambda>w. bit w n"] that by (simp add: pack_def bit_or_iff bit_push_bit_iff bit_ucast_iff)
  ultimately show ?thesis by (auto intro!: bit_word_eqI)
qed

lemma key_determines:
  assumes "key la eff = Some keys" "key la eff' = Some keys'" "\<And>j. j < k \<Longrightarrow> keys ! j = keys' ! j"
    "0 < k" "k \<le> length keys" "k \<le> length keys'" "i < k + la"
  shows "eff ! i = eff' ! i"
proof (cases "la = 0")
  case True
  have ks: "keys = map ucast eff" "keys' = map ucast eff'" using assms(1,2) True by (simp_all add: key_def)
  have "(ucast (eff ! i) :: 64 word) = ucast (eff' ! i)" using assms(3)[of i] assms(5-7) True by (simp add: ks)
  then have "unat (ucast (eff ! i) :: 64 word) = unat (ucast (eff' ! i) :: 64 word)" by (rule arg_cong)
  then have "unat (eff ! i) = unat (eff' ! i)" by (simp add: unsigned_ucast_eq take_bit_nat_eq_self less_le_trans[OF unsigned_less])
  then show ?thesis by (rule unsigned_word_eqI)
next
  case False
  then have la: "la = 1" using assms(1) by (auto simp: key_def split: if_splits)
  have ks: "keys = map (\<lambda>(t, u). pack t u) (zip eff (tl eff))" "keys' = map (\<lambda>(t, u). pack t u) (zip eff' (tl eff'))"
    using assms(1,2) la by (auto simp: key_def)
  have at: "eff ! j = eff' ! j \<and> eff ! Suc j = eff' ! Suc j" if j: "j < k" for j
  proof -
    have "pack (eff ! j) (tl eff ! j) = pack (eff' ! j) (tl eff' ! j)" using assms(3)[OF j] j assms(5,6) by (simp add: ks)
    then show ?thesis using j assms(5,6) by (auto dest!: pack_inject simp: ks nth_tl)
  qed
  show ?thesis
  proof (cases i)
    case 0
    then show ?thesis using at[of 0] assms(4) by simp
  next
    case (Suc j)
    then show ?thesis using at[of j] assms(7) la by simp
  qed
qed

text \<open>Which item stands at a position: the last one that covers it.\<close>

definition media_at :: "mediaItem list \<Rightarrow> nat \<Rightarrow> mediaItem option" where
  "media_at items i = List.find (\<lambda>item. mi_pos item \<le> i \<and> i < mi_pos item + mi_length item) (rev items)"

lemma find_snoc: "List.find P (xs @ [x]) = (case List.find P xs of None \<Rightarrow> if P x then Some x else None | Some y \<Rightarrow> Some y)"
  by (induction xs) auto

lemma media_at_Cons:
  "media_at (item # items) i =
     (case media_at items i of
        None \<Rightarrow> if mi_pos item \<le> i \<and> i < mi_pos item + mi_length item then Some item else None
      | Some x \<Rightarrow> Some x)"
  by (simp add: media_at_def find_snoc)

lemma fold_items_nth:
  "fold_items items eff = Some eff' \<Longrightarrow> i < length eff \<Longrightarrow>
     eff' ! i = (case media_at items i of None \<Rightarrow> eff ! i | Some item \<Rightarrow> mi_fold item)"
proof (induction items eff arbitrary: eff' rule: fold_items.induct)
  case (1 eff)
  then show ?case by (simp add: media_at_def)
next
  case (2 item items eff)
  show ?case
  proof (cases "mi_length item = 0")
    case True
    then have "fold_items items eff = Some eff'" using 2 by simp
    then show ?thesis using "2.IH"(1)[OF True _ "2.prems"(2)] True by (auto simp: media_at_Cons split: option.split)
  next
    case False
    let ?p = "mi_pos item" and ?l = "mi_length item"
    let ?e = "take ?p eff @ replicate ?l (mi_fold item) @ drop (?p + ?l) eff"
    have le: "?p + ?l \<le> length eff" and f: "fold_items items ?e = Some eff'" using "2.prems"(1) False by (auto split: if_splits)
    have len: "i < length ?e" using le "2.prems"(2) by simp
    have "?e ! i = (if ?p \<le> i \<and> i < ?p + ?l then mi_fold item else eff ! i)"
      using le "2.prems"(2) by (auto simp: nth_append)
    moreover have "eff' ! i = (case media_at items i of None \<Rightarrow> ?e ! i | Some item \<Rightarrow> mi_fold item)"
      by (rule "2.IH"(2)[OF False _ f len]) (use le in simp)
    ultimately show ?thesis by (simp add: media_at_Cons split: option.split)
  qed
qed

lemma fold_items_defined: "\<forall>x\<in>set items. mi_pos x + mi_length x \<le> length eff \<Longrightarrow> fold_items items eff \<noteq> None"
  by (induction items eff rule: fold_items.induct) auto

lemma media_at_Some: "media_at items i = Some item \<Longrightarrow> item \<in> set items"
proof -
  assume "media_at items i = Some item"
  then obtain k where "k < length (rev items)" "item = rev items ! k" by (auto simp: media_at_def find_Some_iff)
  then have "item \<in> set (rev items)" by (simp only: nth_mem)
  then show ?thesis by simp
qed

section \<open>Positions inside items\<close>

lemma insideAtomicItem_Some:
  "insideAtomicItem items off = Some item \<Longrightarrow> item \<in> set items \<and> atomic item \<and> mi_pos item < off \<and> off < mi_pos item + mi_length item"
  by (auto simp: insideAtomicItem_def find_Some_iff)

definition apart :: "mediaItem list \<Rightarrow> bool" where
  "apart items \<longleftrightarrow> (\<forall>x\<in>set items. \<forall>y\<in>set items. x \<noteq> y \<longrightarrow>
     mi_pos x + mi_length x \<le> mi_pos y \<or> mi_pos y + mi_length y \<le> mi_pos x)"

lemma apart_end:
  assumes "apart items" "insideAtomicItem items x = Some item"
  shows "insideAtomicItem items (mi_pos item + mi_length item) = None"
proof (rule ccontr)
  assume "insideAtomicItem items (mi_pos item + mi_length item) \<noteq> None"
  then obtain y where y: "insideAtomicItem items (mi_pos item + mi_length item) = Some y" by auto
  note iy = insideAtomicItem_Some[OF y] and ix = insideAtomicItem_Some[OF assms(2)]
  then have "y \<noteq> item" by auto
  then have "mi_pos y + mi_length y \<le> mi_pos item \<or> mi_pos item + mi_length item \<le> mi_pos y"
    using assms(1) iy ix unfolding apart_def by blast
  then show False using iy ix by linarith
qed

lemma apart_start:
  assumes "apart items" "item \<in> set items"
  shows "insideAtomicItem items (mi_pos item) = None"
proof (rule ccontr)
  assume "insideAtomicItem items (mi_pos item) \<noteq> None"
  then obtain y where y: "insideAtomicItem items (mi_pos item) = Some y" by auto
  note iy = insideAtomicItem_Some[OF y]
  then have "y \<noteq> item" by auto
  then have "mi_pos y + mi_length y \<le> mi_pos item \<or> mi_pos item + mi_length item \<le> mi_pos y"
    using assms iy unfolding apart_def by blast
  then show False using iy by linarith
qed

lemma ordered_apart: "ordered_items e len items \<Longrightarrow> apart items"
  unfolding apart_def
proof (intro ballI impI)
  fix x y assume o: "ordered_items e len items" and xy: "x \<in> set items" "y \<in> set items" "x \<noteq> y"
  obtain i j where ij: "i < length items" "items ! i = x" "j < length items" "items ! j = y"
    using xy by (auto simp: in_set_conv_nth)
  have s: "sorted_wrt (\<lambda>x y. mi_pos x + mi_length x \<le> mi_pos y) items" using o by (simp add: ordered_items_def)
  consider "i < j" | "j < i" using ij xy(3) by (cases i j rule: linorder_cases) auto
  then show "mi_pos x + mi_length x \<le> mi_pos y \<or> mi_pos y + mi_length y \<le> mi_pos x"
    by cases (use sorted_wrt_nth_less[OF s] ij in auto)
qed

section \<open>Passes\<close>

lemma extend_at_ok:
  assumes "\<forall>x\<in>set items. insideAtomicItem all (mi_pos x) = None \<and> insideAtomicItem all (mi_pos x + mi_length x) = None"
    "pos + n < len" "0 < n"
  shows "\<exists>k. extend_at len pos n items = int k \<and> 0 < k \<and> pos + k < len \<and>
    (insideAtomicItem items (pos + n) = None \<and> k = n \<or> insideAtomicItem all (pos + k) = None \<or> pos + k = len - 1) \<and>
    (k \<le> n \<or> (\<exists>x\<in>set items. mi_pos x \<le> pos \<and> pos + k \<le> mi_pos x + mi_length x))"
  using assms(1)
proof (induction items)
  case Nil
  then show ?case using assms(2,3) by (simp add: insideAtomicItem_def)
next
  case (Cons x items)
  show ?case
  proof (cases "atomic x \<and> mi_pos x < pos + n \<and> pos + n < mi_pos x + mi_length x")
    case True
    show ?thesis
    proof (cases "pos < mi_pos x")
      case before: True
      then have "extend_at len pos n (x # items) = int (mi_pos x - pos)" using True by simp
      then show ?thesis using True before Cons.prems assms(2) by (intro exI[of _ "mi_pos x - pos"]) auto
    next
      case False
      define k where "k = min (mi_pos x + mi_length x) (len - 1) - pos"
      define e where "e = mi_pos x + mi_length x"
      have bounds: "pos \<le> e" "pos \<le> len - 1" "1 \<le> len" using True False assms(2,3) by (auto simp: e_def)
      have "extend_at len pos n (x # items) = min (int e) (int len - 1) - int pos" using True False by (simp add: e_def)
      also have "\<dots> = int k"
      proof (cases "e \<le> len - 1")
        case True
        then have "min (int e) (int len - 1) = int e" "k = e - pos" using bounds by (auto simp: k_def e_def)
        then show ?thesis using bounds(1) by (simp only: of_nat_diff)
      next
        case False
        then have "min (int e) (int len - 1) = int (len - 1)" "k = len - 1 - pos" using bounds by (auto simp: k_def e_def)
        then show ?thesis using bounds(2) by (simp only: of_nat_diff)
      qed
      finally have "extend_at len pos n (x # items) = int k" .
      moreover have k: "0 < k" "pos + k < len" "pos + k = mi_pos x + mi_length x \<or> pos + k = len - 1" "pos + k \<le> mi_pos x + mi_length x"
        using True False assms(2,3) by (auto simp: k_def)
      moreover have "insideAtomicItem all (pos + k) = None \<or> pos + k = len - 1" using k(3) Cons.prems by auto
      moreover have "\<exists>y\<in>set (x # items). mi_pos y \<le> pos \<and> pos + k \<le> mi_pos y + mi_length y" using k(4) False by auto
      ultimately show ?thesis by blast
    qed
  next
    case False
    have "extend_at len pos n (x # items) = extend_at len pos n items" unfolding extend_at.simps if_not_P[OF False] ..
    moreover have "insideAtomicItem (x # items) (pos + n) = insideAtomicItem items (pos + n)"
      unfolding insideAtomicItem_def find.simps if_not_P[OF False] ..
    moreover have "\<forall>y\<in>set items. insideAtomicItem all (mi_pos y) = None \<and> insideAtomicItem all (mi_pos y + mi_length y) = None"
      using Cons.prems by simp
    ultimately show ?thesis using Cons.IH by simp blast
  qed
qed

lemma inside_None: "insideAtomicItem items off = None \<longleftrightarrow>
    (\<forall>x\<in>set items. \<not> (atomic x \<and> mi_pos x < off \<and> off < mi_pos x + mi_length x))"
  by (auto simp: insideAtomicItem_def find_None_iff)

lemma apart_borders:
  assumes "apart items"
  shows "\<forall>x\<in>set items. insideAtomicItem items (mi_pos x) = None \<and> insideAtomicItem items (mi_pos x + mi_length x) = None"
proof
  fix x assume x: "x \<in> set items"
  have "insideAtomicItem items (mi_pos x + mi_length x) = None"
  proof (rule ccontr)
    assume "insideAtomicItem items (mi_pos x + mi_length x) \<noteq> None"
    then obtain y where y: "insideAtomicItem items (mi_pos x + mi_length x) = Some y" by auto
    note iy = insideAtomicItem_Some[OF y]
    then have "y \<noteq> x" by auto
    then have "mi_pos y + mi_length y \<le> mi_pos x \<or> mi_pos x + mi_length x \<le> mi_pos y"
      using assms x iy unfolding apart_def by blast
    then show False using iy by linarith
  qed
  then show "insideAtomicItem items (mi_pos x) = None \<and> insideAtomicItem items (mi_pos x + mi_length x) = None"
    using apart_start[OF assms x] by simp
qed

lemma chunk_size: "prefillChunkSize = 2048"
  by (simp add: prefillChunkSize_def push_bit_eq_mult)

lemma extendChunk_ok:
  assumes "apart items" "0 < n" "pos + n < length tokens"
  shows "\<exists>k. extendChunk (openMedia items tokens) pos n = int k \<and> 0 < k \<and> pos + k < length tokens \<and>
    (insideAtomicItem items (pos + k) = None \<or> pos + k = length tokens - 1) \<and>
    (k \<le> n \<or> (\<exists>x\<in>set items. mi_pos x \<le> pos \<and> pos + k \<le> mi_pos x + mi_length x))"
proof (cases "items = []")
  case True
  then show ?thesis using assms(2,3) by (simp add: extendChunk_def openMedia_def insideAtomicItem_def)
next
  case False
  then show ?thesis using extend_at_ok[OF apart_borders[OF assms(1)] assms(3,2)] by (auto simp: extendChunk_def openMedia_def)
qed

text \<open>The passes follow each other from the first position to the last token but one.\<close>

definition passes_from :: "mediaItem list \<Rightarrow> nat \<Rightarrow> nat \<Rightarrow> (nat \<times> nat) list \<Rightarrow> bool" where
  "passes_from items len pos chunks \<longleftrightarrow> concat (map (\<lambda>(p, n). [p..<p + n]) chunks) = [pos..<len - 1] \<and>
     (\<forall>(p, n)\<in>set chunks. 0 < n \<and> (insideAtomicItem items (p + n) = None \<or> p + n = len - 1) \<and>
        (n \<le> 2048 \<or> (\<exists>x\<in>set items. mi_pos x \<le> p \<and> p + n \<le> mi_pos x + mi_length x)))"

lemma prefill_loop_passes:
  assumes "apart items"
  shows "\<exists>chunks. prefill_loop (openMedia items tokens) (length tokens) pos = Some chunks \<and>
    passes_from items (length tokens) pos chunks"
proof (induction "length tokens - pos" arbitrary: pos rule: less_induct)
  case less
  let ?len = "length tokens"
  show ?case
  proof (cases "?len - pos \<le> 1")
    case True
    then show ?thesis by (simp add: prefill_loop.simps[of _ ?len pos] passes_from_def)
  next
    case False
    define n where "n = min prefillChunkSize (?len - pos - 1)"
    have n: "0 < n" "pos + n < ?len" "n \<le> 2048" using False by (auto simp: n_def chunk_size)
    obtain k where k: "extendChunk (openMedia items tokens) pos n = int k" "0 < k" "pos + k < ?len"
      "insideAtomicItem items (pos + k) = None \<or> pos + k = ?len - 1"
      "k \<le> n \<or> (\<exists>x\<in>set items. mi_pos x \<le> pos \<and> pos + k \<le> mi_pos x + mi_length x)"
      using extendChunk_ok[OF assms n(1,2)] by blast
    have "?len - (pos + k) < ?len - pos" using k(2,3) by linarith
    from less.hyps[OF this] obtain rest where rest: "prefill_loop (openMedia items tokens) ?len (pos + k) = Some rest"
      "passes_from items ?len (pos + k) rest" by blast
    have "prefill_loop (openMedia items tokens) ?len pos = Some ((pos, k) # rest)"
      using False k(1)[unfolded n_def] k(3) rest(1) by (simp add: prefill_loop.simps[of _ ?len pos] Let_def)
    moreover have "passes_from items ?len pos ((pos, k) # rest)"
    proof -
      have "[pos..<?len - 1] = [pos..<pos + k] @ [pos + k..<?len - 1]"
        using upt_add_eq_append[of pos "pos + k" "?len - 1 - (pos + k)"] k(3) by simp
      then show ?thesis using rest(2) k(2,4,5) n(3) by (auto simp: passes_from_def)
    qed
    ultimately show ?thesis by blast
  qed
qed

section \<open>Properties\<close>



text \<open>
  C20. For a prompt whose media items were accepted, the prefill loop ends without a panic from every
  position. Its passes follow each other without a gap up to the last token but one, none is empty, and
  none is longer than the chunk size except to reach the end of an item it is in. No pass but the last ends
  inside an atomic item, so an atomic item that starts at or after the first position and ends before the last
  token is evaluated in one pass.
\<close>

theorem prefill_keeps_items_whole:
  assumes "bindItems pr segs = Inr items"
  shows "\<exists>chunks. prefill_loop (openMedia items (pr_tokens pr)) (length (pr_tokens pr)) pos = Some chunks \<and>
    passes_from items (length (pr_tokens pr)) pos chunks \<and>
    (\<forall>x\<in>set items. atomic x \<longrightarrow> pos \<le> mi_pos x \<longrightarrow> mi_pos x + mi_length x < length (pr_tokens pr) \<longrightarrow>
       (\<exists>(p, n)\<in>set chunks. p \<le> mi_pos x \<and> mi_pos x + mi_length x \<le> p + n))"
proof -
  let ?len = "length (pr_tokens pr)"
  have ord: "ordered_items 0 ?len items" by (rule bindItems_ordered[OF assms])
  obtain chunks where c: "prefill_loop (openMedia items (pr_tokens pr)) ?len pos = Some chunks" "passes_from items ?len pos chunks"
    using prefill_loop_passes[OF ordered_apart[OF ord]] by blast
  have "\<exists>(p, n)\<in>set chunks. p \<le> mi_pos x \<and> mi_pos x + mi_length x \<le> p + n"
    if x: "x \<in> set items" "atomic x" "pos \<le> mi_pos x" "mi_pos x + mi_length x < ?len" for x
  proof -
    have "0 < mi_length x" using ord x(1) by (simp add: ordered_items_def)
    then have "mi_pos x \<in> set [pos..<?len - 1]" using x(3,4) by auto
    then have "mi_pos x \<in> set (concat (map (\<lambda>(p, n). [p..<p + n]) chunks))" using c(2) by (simp only: passes_from_def)
    then obtain p n where pn: "(p, n) \<in> set chunks" "p \<le> mi_pos x" "mi_pos x < p + n" by auto
    then have "insideAtomicItem items (p + n) = None \<or> p + n = ?len - 1" using c(2) by (auto simp: passes_from_def)
    then have "mi_pos x + mi_length x \<le> p + n" using pn(3) x inside_None[of items "p + n"] by fastforce
    then show ?thesis using pn by blast
  qed
  then show ?thesis using c by blast
qed

text \<open>An image at positions 1 and 2 of four tokens: one pass up to the last token.\<close>

theorem prefill_keeps_items_whole_witness:
  "\<exists>items chunks.
     bindItems \<lparr>pr_tokens = [5, 0, 0, 7], pr_items = [\<lparr>pi_start = 1, pi_end = 3, pi_source = 0, pi_dims = [2], pi_causal = False\<rparr>]\<rparr>
       [Some [1]] = Inr items \<and> prefill_loop (openMedia items [5, 0, 0, 7]) 4 0 = Some chunks \<and>
     (\<forall>x\<in>set items. \<exists>(p, n)\<in>set chunks. p \<le> mi_pos x \<and> mi_pos x + mi_length x \<le> p + n)"
proof -
  let ?pr = "\<lparr>pr_tokens = [5, 0, 0, 7], pr_items = [\<lparr>pi_start = 1, pi_end = 3, pi_source = 0, pi_dims = [2], pi_causal = False\<rparr>]\<rparr>"
  let ?items = "[\<lparr>mi_pos = 1, mi_length = 2, mi_fold = foldValue [1] [2], mi_causal = False\<rparr>]"
  have b: "bindItems ?pr [Some [1]] = Inr ?items" by (simp add: bindItems_def)
  from prefill_keeps_items_whole[OF b, of 0] obtain chunks where
    c: "prefill_loop (openMedia ?items (pr_tokens ?pr)) (length (pr_tokens ?pr)) 0 = Some chunks"
    "\<forall>x\<in>set ?items. atomic x \<longrightarrow> 0 \<le> mi_pos x \<longrightarrow> mi_pos x + mi_length x < length (pr_tokens ?pr) \<longrightarrow>
       (\<exists>(p, n)\<in>set chunks. p \<le> mi_pos x \<and> mi_pos x + mi_length x \<le> p + n)" by blast
  have "\<forall>x\<in>set ?items. \<exists>(p, n)\<in>set chunks. p \<le> mi_pos x \<and> mi_pos x + mi_length x \<le> p + n"
    using c(2) by (simp add: atomic_def)
  moreover have "prefill_loop (openMedia ?items [5, 0, 0, 7]) 4 0 = Some chunks" using c(1) by (simp add: numeral_eq_Suc)
  ultimately show ?thesis using b by blast
qed

end
