(* ===== verification/PrefixCacheSession.thy ===== *)
theory PrefixCacheSession
  imports PrefixCacheSafe MediaKeys
begin

text \<open>
  A session of the prefix cache from \<open>begin\<close> to \<open>close\<close>: what a request starts from, how the captures and
  the evaluated tokens get into the trie, and that the next request finds a cache as good as this one did.
\<close>

section \<open>Growing the active path\<close>

lemma split_path_end:
  assumes "trie_state sz K N r st" "covered C N r st" "lawful caches C" "length caches = K" "r \<in> N"
    "walk (th_heap st) r (path @ [n])" "0 < at" "at < length (tn_tokens (th_heap st n))"
  obtains np st' where "splitNode sz caches n at st = Some (np, st')" "np \<notin> N"
    "trie_state sz K (insert np N) r st'" "covered C (insert np N) r st'"
    "walk (th_heap st') r (path @ [np])" "along (th_heap st') (path @ [np]) = along (th_heap st) path @ take at (tn_tokens (th_heap st n))"
    "links (th_heap st') = split_links np n at (links (th_heap st))"
proof -
  let ?h = "th_heap st"
  have ok: "trie_ok N r ?h" "trie_ok N r (links ?h)" using trie_state_ok[OF assms(1)] by auto
  have w: "walk ?h r path" "n \<in> set (tn_children (?h (last (r # path))))" using assms(6) by (auto simp: walk_append)
  have nN: "n \<in> N" by (rule trie_child(1)[OF ok(1) walk_last[OF ok(1) assms(5) w(1)] w(2)])
  obtain np st' where s: "splitNode sz caches n at st = Some (np, st')" "np \<notin> N" "n \<noteq> r"
    "trie_state sz K (insert np N) r st'" "links (th_heap st') = split_links np n at (links ?h)"
    using splitNode_state[OF assms(1) nN assms(4,7,8)] by blast
  have cov: "covered C (insert np N) r st'"
    by (rule covered_split[OF assms(1,2,3) nN s(3,2,1,5) assms(7,8)])
  have at': "at < length (tn_tokens (links ?h n))" using assms(8) by simp
  have "walk (links ?h) r (path @ [n])" using assms(6) by simp
  note ws = walk_split[OF ok(2) nN s(2) assms(7) at' this]
  have "walk (links (th_heap st')) r (path @ [np])" unfolding s(5) by (rule ws(1))
  moreover have "along (links (th_heap st')) (path @ [np]) = along ?h path @ take at (tn_tokens (?h n))"
    unfolding s(5) using ws(2) by simp
  ultimately show thesis by (intro that[OF s(1,2,4) cov _ _ s(5)]) (simp_all only: walk_links)
qed

lemma append_path_end:
  assumes "trie_state sz K N r st" "covered C N r st" "r \<in> N" "walk (th_heap st) r path" "ts \<noteq> []"
    "\<And>d. d \<in> set (tn_children (th_heap st (last (r # path)))) \<Longrightarrow> hd (tn_tokens (th_heap st d)) \<noteq> hd ts"
    "e = length (along (th_heap st) path) + length ts"
  obtains child st' where "appendChild (last (r # path)) ts e st = (child, st')" "child \<notin> N"
    "trie_state sz K (insert child N) r st'" "covered C (insert child N) r st'"
    "walk (th_heap st') r (path @ [child])" "along (th_heap st') (path @ [child]) = along (th_heap st) path @ ts"
proof -
  let ?h = "th_heap st" and ?n = "last (r # path)"
  have ok: "trie_ok N r ?h" using trie_state_ok[OF assms(1)] by auto
  have nN: "?n \<in> N" by (rule walk_last[OF ok assms(3,4)])
  obtain child st' where a: "appendChild ?n ts e st = (child, st')" by fastforce
  have e: "e = tn_endOffset (?h ?n) + length ts" using assms(7) walk_endOffset[OF ok assms(3,4)] ok by (simp add: trie_ok_def)
  have sib: "\<forall>d\<in>set (tn_children (?h ?n)). hd (tn_tokens (?h d)) \<noteq> hd ts" using assms(6) by blast
  note s = appendChild_state[OF assms(1) nN assms(5) e sib a]
  have cov: "covered C (insert child N) r st'" by (rule covered_append[OF assms(1,2) nN s(2) a s(3)])
  have cn: "child \<noteq> ?n" using s(2) nN by auto
  have inN: "set (r # path) \<subseteq> N" using walk_in[OF ok assms(3,4)] assms(3) by auto
  have "walk (append_links child ?n ts (links ?h)) r path \<and> along (append_links child ?n ts (links ?h)) path = along (links ?h) path"
  proof (rule walk_keep)
    show "walk (links ?h) r path" using assms(4) by simp
  next
    fix x y assume xy: "x \<in> set (r # path)" "y \<in> set (tn_children (links ?h x))"
    then have "x \<noteq> child" using inN s(2) by auto
    then show "y \<in> set (tn_children (append_links child ?n ts (links ?h) x))" using xy(2) by (auto simp: append_links_def)
  next
    fix x assume "x \<in> set path"
    then have "x \<noteq> child" using inN s(2) by auto
    then show "tn_tokens (append_links child ?n ts (links ?h) x) = tn_tokens (links ?h x)" by (simp add: append_links_def)
  qed
  moreover have "child \<in> set (tn_children (append_links child ?n ts (links ?h) ?n))"
    "tn_tokens (append_links child ?n ts (links ?h) child) = ts"
    using cn by (simp_all add: append_links_def)
  ultimately have "walk (links (th_heap st')) r (path @ [child])"
    "along (links (th_heap st')) (path @ [child]) = along ?h path @ ts"
    unfolding s(3) by (simp_all add: walk_append)
  then show thesis by (intro that[OF a s(2,1) cov]) (simp_all only: walk_links)
qed

text \<open>Behind a longest match no child begins with the next token.\<close>

lemma match_no_child:
  assumes "is_match h n rest p m" "take m rest = along h p" "m < length rest"
    "d \<in> set (tn_children (h (last (n # p))))" "tn_tokens (h d) \<noteq> []"
  shows "hd (tn_tokens (h d)) \<noteq> hd (drop m rest)"
proof
  assume eq: "hd (tn_tokens (h d)) = hd (drop m rest)"
  have "walk h n (p @ [d])" using assms(1,4) by (simp add: is_match_def walk_append)
  then have "along h p @ tn_tokens (h d) \<in> stored h n" using walk_stored[of h n "p @ [d]"] by simp
  moreover have "take (Suc m) rest = along h p @ [hd (tn_tokens (h d))]"
    using assms(2,3) eq by (simp add: take_Suc_conv_app_nth hd_drop_conv_nth)
  then have "prefix (take (Suc m) rest) (along h p @ tn_tokens (h d))"
    using assms(5) by (cases "tn_tokens (h d)") auto
  ultimately have "take (Suc m) rest \<in> stored h n" by (rule stored_prefix)
  then have "Suc m \<le> m" using assms(1,3) unfolding is_match_def by (metis Suc_leI)
  then show False by simp
qed

lemma walk_start:
  assumes "trie_ok M r h" "walk h r (q @ [x])"
  shows "startOffset (h x) = length (along h q)"
proof -
  have "r \<in> M" using assms(1) by (simp add: trie_ok_def)
  then have "tn_endOffset (h x) = length (along h (q @ [x]))"
    using walk_endOffset[OF assms(1) _ assms(2)] assms(1) by (simp add: trie_ok_def)
  then show ?thesis by (simp add: startOffset_def)
qed

text \<open>
  The nodes that \<open>advancePath\<close> walks over: the path of the longest match, cut at the end of the match.
  \<open>match_cut\<close> says how the trie looks after it.
\<close>

definition match_cut ::
  "(nat \<Rightarrow> 's \<Rightarrow> nat \<Rightarrow> 'k list \<Rightarrow> bool) \<Rightarrow> ('s \<Rightarrow> int) \<Rightarrow> nat \<Rightarrow> nat \<Rightarrow> nat list \<Rightarrow> 'k list \<Rightarrow> 'k list \<Rightarrow> 'k list \<Rightarrow>
     nat list \<Rightarrow> ('k, 's) trie \<Rightarrow> bool" where
  "match_cut C sz K r path v done rest q st \<longleftrightarrow> (\<exists>N. trie_state sz K N r st \<and> covered C N r st) \<and>
     walk (th_heap st) r (path @ q) \<and> along (th_heap st) (path @ q) = v @ done \<and>
     (rest \<noteq> [] \<longrightarrow> (\<forall>d\<in>set (tn_children (th_heap st (last (r # path @ q)))). hd (tn_tokens (th_heap st d)) \<noteq> hd rest)) \<and>
     (q \<noteq> [] \<longrightarrow> length v \<le> length (along (th_heap st) (path @ butlast q))) \<and> (q = [] \<longrightarrow> done = [])"

lemma match_whole:
  assumes "trie_state sz K N r st" "covered C N r st" "walk (th_heap st) r path" "f = last (r # path)"
    "is_match (th_heap st) f tokens p m" "take m tokens = along (th_heap st) p"
  shows "match_cut C sz K r path (along (th_heap st) path) (take m tokens) (drop m tokens) p st"
proof -
  let ?h = "th_heap st"
  have ok: "trie_ok N r ?h" using trie_state_ok[OF assms(1)] by simp
  have rN: "r \<in> N" using ok by (simp add: trie_ok_def)
  have w: "walk ?h r (path @ p)" using assms(3-5) by (simp add: walk_append is_match_def)
  have "hd (tn_tokens (?h d)) \<noteq> hd (drop m tokens)"
    if "m < length tokens" "d \<in> set (tn_children (?h (last (r # path @ p))))" for d
  proof -
    have d: "d \<in> set (tn_children (?h (last (f # p))))" using that(2) assms(4) by (auto split: if_splits)
    have "last (f # p) \<in> N" using walk_last[OF ok rN w] assms(4) by (auto split: if_splits)
    then have "tn_tokens (?h d) \<noteq> []" using trie_child(5)[OF ok _ d] by blast
    then show ?thesis using match_no_child[OF assms(5,6) that(1) d] by simp
  qed
  then show ?thesis using assms w by (auto simp: match_cut_def)
qed

lemma match_split:
  assumes "trie_state sz K N r st" "covered C N r st" "lawful caches C" "length caches = K" "walk (th_heap st) r path"
    "f = last (r # path)" "is_match (th_heap st) f tokens (p @ [l]) m" "take m tokens \<noteq> along (th_heap st) (p @ [l])"
    "at = m - length (along (th_heap st) p)"
  shows "0 < at \<and> at < length (tn_tokens (th_heap st l)) \<and> (\<exists>np st'. splitNode sz caches l at st = Some (np, st') \<and>
    match_cut C sz K r path (along (th_heap st) path) (take m tokens) (drop m tokens) (p @ [np]) st')"
proof -
  let ?h = "th_heap st"
  have ok: "trie_ok N r ?h" "trie_ok N r (links ?h)" using trie_state_ok[OF assms(1)] by auto
  have rN: "r \<in> N" using ok(1) by (simp add: trie_ok_def)
  have m: "walk ?h f (p @ [l])" "m \<le> length tokens" "prefix (take m tokens) (along ?h (p @ [l]))"
    "length (along ?h p) < m" "\<And>k. k \<le> length tokens \<Longrightarrow> take k tokens \<in> stored ?h f \<Longrightarrow> k \<le> m"
    using assms(7) by (auto simp: is_match_def)
  have wl: "walk ?h r ((path @ p) @ [l])" using assms(5,6) m(1) by (simp add: walk_append)
  have "length (take m tokens) < length (along ?h (p @ [l]))"
    using m(3) assms(8) by (metis prefix_length_less strict_prefixI)
  then have at: "0 < at" "at < length (tn_tokens (?h l))" using m(2,4) assms(9) by auto
  obtain np st' where s: "splitNode sz caches l at st = Some (np, st')" "np \<notin> N"
    "trie_state sz K (insert np N) r st'" "covered C (insert np N) r st'"
    "walk (th_heap st') r ((path @ p) @ [np])"
    "along (th_heap st') ((path @ p) @ [np]) = along ?h (path @ p) @ take at (tn_tokens (?h l))"
    "links (th_heap st') = split_links np l at (links ?h)"
    by (rule split_path_end[OF assms(1-4) rN wl at])
  have tk: "take m tokens = along ?h p @ take at (tn_tokens (?h l))"
  proof -
    obtain zs where "along ?h (p @ [l]) = take m tokens @ zs" using m(3) by (auto simp: prefix_def)
    then have "take m tokens = take m (along ?h (p @ [l]))" using m(2) by simp
    then show ?thesis using m(4) assms(9) by simp
  qed
  have lN: "l \<in> N" "l \<noteq> r" using walk_in[OF ok(1) rN wl] by auto
  have "tn_tokens (links (th_heap st') np) = take at (tn_tokens (?h l)) \<and>
      tn_children (links (th_heap st') np) = [l] \<and> tn_tokens (links (th_heap st') l) = drop at (tn_tokens (?h l))"
  proof -
    have atl: "at < length (tn_tokens (links ?h l))" using at(2) by simp
    obtain P where "P \<noteq> np" "l \<noteq> np" "P \<noteq> l" "split_links np l at (links ?h) np = \<lparr>tn_tokens = take at (tn_tokens (links ?h l)),
       tn_endOffset = tn_endOffset (links ?h P) + at, tn_parent = Some P, tn_children = [l]\<rparr>"
      "split_links np l at (links ?h) l = (links ?h l)\<lparr>tn_tokens := drop at (tn_tokens (links ?h l)), tn_parent := Some np\<rparr>"
      using split_links_at[OF ok(2) lN s(2) at(1) atl] by blast
    then show ?thesis unfolding s(7) by simp
  qed
  then have kids: "tn_tokens (th_heap st' np) = take at (tn_tokens (?h l))" "tn_children (th_heap st' np) = [l]"
    "tn_tokens (th_heap st' l) = drop at (tn_tokens (?h l))" by simp_all
  have nk: "hd (tn_tokens (th_heap st' l)) \<noteq> hd (drop m tokens)" if "m < length tokens"
  proof
    assume "hd (tn_tokens (th_heap st' l)) = hd (drop m tokens)"
    then have hd: "hd (drop at (tn_tokens (?h l))) = tokens ! m" using kids that by (simp add: hd_drop_conv_nth)
    have "take (Suc m) tokens = take m tokens @ [tokens ! m]" using that by (simp add: take_Suc_conv_app_nth)
    also have "\<dots> = along ?h p @ take at (tn_tokens (?h l)) @ [hd (drop at (tn_tokens (?h l)))]" using tk hd by simp
    also have "take at (tn_tokens (?h l)) @ [hd (drop at (tn_tokens (?h l)))] = take (Suc at) (tn_tokens (?h l))"
      using at(2) by (simp add: take_Suc_conv_app_nth hd_drop_conv_nth)
    finally have "prefix (take (Suc m) tokens) (along ?h (p @ [l]))" by (simp add: take_is_prefix)
    then have "take (Suc m) tokens \<in> stored ?h f" using stored_prefix[OF walk_stored[OF m(1)]] by blast
    then have "Suc m \<le> m" using m(5) that by (metis Suc_leI)
    then show False by simp
  qed
  have "length (along ?h path) \<le> length (along (th_heap st') (path @ p))"
    using arg_cong[OF s(6), of length] at(2) kids by simp
  then show ?thesis using s(1,3,4,5,6) at tk kids(2) nk by (auto simp: match_cut_def)
qed

text \<open>The rest of the tokens becomes a new leaf.\<close>

lemma match_cut_active:
  assumes "pc_core H C sz N r v c" "pc_activePath c = r # path" "match_cut C sz (length (pc_caches c)) r path v done rest q st"
    "done @ rest \<noteq> []" "c1 = c\<lparr>pc_trie := st, pc_activePath := r # path @ q\<rparr>" "dest = last (r # path @ q)"
  shows "rest = [] \<Longrightarrow> \<exists>N'. pc_core H C sz N' r (v @ done) c1 \<and> length v \<le> startOffset (node c1 dest)"
    "rest \<noteq> [] \<Longrightarrow> \<exists>child st' N'. appendChild dest rest (length (v @ done @ rest)) st = (child, st') \<and>
      pc_core H C sz N' r (v @ done @ rest) (c1\<lparr>pc_trie := st', pc_activePath := r # path @ q @ [child]\<rparr>) \<and>
      length v \<le> startOffset (th_heap st' child)"
proof -
  note inv = pc_core_parts[OF assms(1)]
  obtain N1 where N1: "trie_state sz (length (pc_caches c)) N1 r st" "covered C N1 r st" using assms(3) by (auto simp: match_cut_def)
  have mc: "walk (th_heap st) r (path @ q)" "along (th_heap st) (path @ q) = v @ done"
    "\<And>d. rest \<noteq> [] \<Longrightarrow> d \<in> set (tn_children (th_heap st (last (r # path @ q)))) \<Longrightarrow> hd (tn_tokens (th_heap st d)) \<noteq> hd rest"
    "q \<noteq> [] \<Longrightarrow> length v \<le> length (along (th_heap st) (path @ butlast q))" "q = [] \<Longrightarrow> done = []"
    using assms(3) by (auto simp: match_cut_def)
  have ok: "trie_ok N1 r (th_heap st)" using trie_state_ok[OF N1(1)] by simp
  have rN: "r \<in> N1" using ok by (simp add: trie_ok_def)
  {
    assume r: "rest = []"
    then obtain q' x where q: "q = q' @ [x]" using mc(5) assms(4) by (metis append_Nil2 rev_exhaust)
    have "startOffset (th_heap st x) = length (along (th_heap st) (path @ q'))"
      by (rule walk_start[OF ok]) (use mc(1) q in simp)
    then have "length v \<le> startOffset (node c1 dest)" using mc(4) q assms(5,6) by (simp add: node_def)
    moreover have "pc_core H C sz N1 r (v @ done) c1" using inv(1,3) N1 mc(1,2) assms(5) by (auto simp: pc_core_def active_def)
    ultimately show "\<exists>N'. pc_core H C sz N' r (v @ done) c1 \<and> length v \<le> startOffset (node c1 dest)" by blast
  next
    assume r: "rest \<noteq> []"
    have e: "length (v @ done @ rest) = length (along (th_heap st) (path @ q)) + length rest" using mc(2) by simp
    obtain child st2 where a: "appendChild dest rest (length (v @ done @ rest)) st = (child, st2)"
      "trie_state sz (length (pc_caches c)) (insert child N1) r st2" "covered C (insert child N1) r st2"
      "walk (th_heap st2) r ((path @ q) @ [child])"
      "along (th_heap st2) ((path @ q) @ [child]) = along (th_heap st) (path @ q) @ rest"
      using append_path_end[OF N1 rN mc(1) r mc(3)[OF r] e] assms(6) by blast
    have "trie_ok (insert child N1) r (th_heap st2)" using trie_state_ok[OF a(2)] by simp
    from walk_start[OF this a(4)] have st: "startOffset (th_heap st2 child) = length (along (th_heap st2) (path @ q))" .
    have "tn_tokens (th_heap st2 child) = rest"
      using a(1) by (auto simp: appendChild_def Let_def upd_node_def split: if_splits)
    then have "along (th_heap st2) (path @ q) = v @ done" using a(5) mc(2) by simp
    then have "length v \<le> startOffset (th_heap st2 child)" using st by simp
    moreover have "along (th_heap st2) (path @ q @ [child]) = v @ done @ rest" using a(5) mc(2) by simp
    then have "pc_core H C sz (insert child N1) r (v @ done @ rest) (c1\<lparr>pc_trie := st2, pc_activePath := r # path @ q @ [child]\<rparr>)"
      using inv(1,3) a assms(5) unfolding pc_core_def active_def by auto
    ultimately show "\<exists>child st' N'. appendChild dest rest (length (v @ done @ rest)) st = (child, st') \<and>
      pc_core H C sz N' r (v @ done @ rest) (c1\<lparr>pc_trie := st', pc_activePath := r # path @ q @ [child]\<rparr>) \<and>
      length v \<le> startOffset (th_heap st' child)" using a(1) by blast
  }
qed

lemma advancePath_core:
  assumes core: "pc_core H C sz N r v c" and ts: "tokens \<noteq> []" "e = length (v @ tokens)"
  shows "\<exists>dest c' N'. advancePath sz (last (pc_activePath c)) tokens e c = Some (dest, c') \<and>
    pc_core H C sz N' r (v @ tokens) c' \<and> dest = last (pc_activePath c') \<and> pc_caches c' = pc_caches c \<and>
    pc_draftLookahead c' = pc_draftLookahead c \<and> length v \<le> startOffset (node c' dest)"
proof -
  note inv = pc_core_parts[OF core]
  let ?h = "th_heap (pc_trie c)" and ?f = "last (pc_activePath c)"
  obtain path where path: "pc_activePath c = r # path" "walk ?h r path" "along ?h path = v"
    using inv(5) by (auto simp: active_def)
  have f: "?f = last (r # path)" "?f \<in> N" "tn_endOffset (?h ?f) = length v"
    using path(1) active_end[OF inv(7,5)] by simp_all
  obtain p m where pm: "find_from ?h ?f tokens = (p, m)" by fastforce
  have im: "is_match ?h ?f tokens p m" by (rule find_from_match[OF inv(7) f(2) pm])
  have best: "findBestMatch ?h (Some ?f) tokens = (?f # p, m)" by (simp add: findBestMatch_def pm)
  define edge where "edge = int (tn_endOffset (node c ?f)) + int m - int (startOffset (node c (last (?f # p))))"
  define cut where "cut = (if 1 < length (?f # p) \<and> 0 < edge \<and> edge < int (length (tn_tokens (node c (last (?f # p)))))
       then map_option (\<lambda>(np, st). (butlast (?f # p) @ [np], st))
              (splitNode sz (layers c) (last (?f # p)) (nat edge) (pc_trie c))
       else Some (?f # p, pc_trie c))"
  have edge: "edge = int m - int (length (along ?h p'))" if "p = p' @ [l]" for p' l
  proof -
    have "walk ?h r ((path @ p') @ [l])" using path(2) f(1) im that by (simp add: walk_append is_match_def)
    from walk_start[OF inv(7) this] show ?thesis using f(3) path(3) that by (simp add: edge_def node_def)
  qed
  have "\<exists>q st. cut = Some (?f # q, st) \<and> match_cut C sz (length (pc_caches c)) r path v (take m tokens) (drop m tokens) q st"
  proof (cases "take m tokens = along ?h p")
    case True
    have "cut = Some (?f # p, pc_trie c)"
      using edge arg_cong[OF True, of length] im by (cases p rule: rev_cases) (auto simp: cut_def node_def is_match_def)
    then show ?thesis using match_whole[OF inv(2,4) path(2) f(1) im True] path(3) by blast
  next
    case False
    then obtain p' l where l: "p = p' @ [l]" using im by (cases p rule: rev_cases) (auto simp: is_match_def)
    define at where "at = m - length (along ?h p')"
    note s = match_split[OF inv(2,4,11,12) path(2) f(1) im[unfolded l] False[unfolded l] at_def]
    then obtain np st' where s': "splitNode sz (layers c) l at (pc_trie c) = Some (np, st')"
      "match_cut C sz (length (pc_caches c)) r path v (take m tokens) (drop m tokens) (p' @ [np]) st'"
      using path(3) by blast
    have "edge = int at" using edge[OF l] s by (auto simp: at_def)
    then have "cut = Some (?f # p' @ [np], st')" using s s'(1) l by (simp add: cut_def node_def)
    then show ?thesis using s'(2) by blast
  qed
  then obtain q st where q: "cut = Some (?f # q, st)"
    "match_cut C sz (length (pc_caches c)) r path v (take m tokens) (drop m tokens) q st" by blast
  define c1 where "c1 = c\<lparr>pc_trie := st, pc_activePath := r # path @ q\<rparr>"
  define dest where "dest = last (r # path @ q)"
  have lastq: "last (?f # q) = dest" using f(1) by (simp add: dest_def)
  have adv: "advancePath sz ?f tokens e c = (if drop m tokens = [] then Some (dest, c1)
     else case appendChild dest (drop m tokens) e st of
       (child, st2) \<Rightarrow> Some (child, c1\<lparr>pc_trie := st2, pc_activePath := r # path @ q @ [child]\<rparr>))"
    unfolding advancePath_def best prod.case Let_def edge_def[symmetric] cut_def[symmetric] q(1)
    by (simp add: path(1) c1_def lastq[symmetric] split: prod.split)
  have ne: "take m tokens @ drop m tokens \<noteq> []" using ts(1) by simp
  note fin = match_cut_active[OF core path(1) q(2) ne c1_def dest_def]
  show ?thesis
  proof (cases "drop m tokens = []")
    case True
    then have "take m tokens = tokens" by simp
    then show ?thesis using fin(1)[OF True] adv True lastq
      by (intro exI[of _ dest] exI[of _ c1]) (auto simp: c1_def dest_def)
  next
    case False
    then show ?thesis using fin(2)[OF False] adv ts(2) by (auto simp: c1_def node_def)
  qed
qed

lemma compactPath_core:
  assumes core: "pc_core H C sz N r v c"
  shows "\<exists>c' N'. compactPath sz c = Some c' \<and> pc_core H C sz N' r v c' \<and> pc_caches c' = pc_caches c \<and>
    pc_draftLookahead c' = pc_draftLookahead c"
proof -
  note inv = pc_core_parts[OF core]
  let ?h = "th_heap (pc_trie c)" and ?ap = "pc_activePath c"
  let ?parent = "?ap ! (length ?ap - 2)"
  show ?thesis
  proof (cases "length ?ap < 2 \<or> Some ?parent = pc_root c \<or> tn_user (node c ?parent) \<or> length (tn_children (node c ?parent)) \<noteq> 1")
    case True
    then have "compactPath sz c = Some c" by (auto simp: compactPath_def Let_def)
    then show ?thesis using core by blast
  next
    case False
    obtain path where path: "?ap = r # path" "walk ?h r path" using inv(5) by (auto simp: active_def)
    have two: "2 \<le> length ?ap" "?parent \<noteq> r" "length (tn_children (?h ?parent)) = 1" using False inv(1) by (auto simp: node_def)
    obtain p1 child where p1: "path = p1 @ [child]" using two(1) path(1) by (cases path rule: rev_cases) auto
    have par: "?parent = last (r # p1)" using path(1) p1 by (cases p1 rule: rev_cases) (auto simp: nth_append)
    then obtain p' n where p': "p1 = p' @ [n]" using two(2) by (cases p1 rule: rev_cases) auto
    have n: "?parent = n" "n \<noteq> r" using par p' two(2) by simp_all
    have w: "walk ?h r ((p' @ [n]) @ [child])" using path(2) p1 p' by simp
    have nN: "n \<in> N" using walk_in[OF inv(7,9) w] by simp
    have "child \<in> set (tn_children (?h n))" using w by (simp add: walk_append)
    then have c1: "tn_children (?h n) = [child]" using two(3) n(1) by (cases "tn_children (?h n)") auto
    have d: "distinct (r # (p' @ [n]) @ [child])" by (rule walk_distinct[OF inv(7,9) w])
    obtain st' where st': "mergeWithChild sz (layers c) n (pc_trie c) = Some st'"
      "trie_state sz (length (pc_caches c)) (N - {child}) r st'" "links (th_heap st') = merge_links n child (links ?h)"
      using mergeWithChild_state[OF inv(2) nN n(2) inv(12) c1] by blast
    have cov: "covered C (N - {child}) r st'" by (rule covered_merge[OF inv(2,4,11) nN n(2) c1 st'(1,3)])
    have "active (merge_links n child (links ?h)) r (remove1 child ?ap) v"
      by (rule active_merge[OF inv(8) _ nN n(2)]) (use inv(5) c1 d path(1) p1 p' in auto)
    then have a: "active (th_heap st') r (remove1 child ?ap) v" by (rule heap_active[OF st'(3)])
    have "remove1 child ?ap = take (length ?ap - 1) ?ap" using d path(1) p1 p' by (auto simp: remove1_append)
    then have "pc_core H C sz (N - {child}) r v (c\<lparr>pc_trie := st', pc_activePath := take (length ?ap - 1) ?ap\<rparr>)"
      using inv(1,3) st'(2) cov a by (simp add: pc_core_def)
    moreover have "compactPath sz c = Some (c\<lparr>pc_trie := st', pc_activePath := take (length ?ap - 1) ?ap\<rparr>)"
      using False st'(1) n(1) by (simp add: compactPath_def Let_def)
    ultimately show ?thesis by fastforce
  qed
qed

section \<open>Snapshots of the last node\<close>

lemma set_snapshots_core:
  assumes core: "pc_core H C sz N r v c" and d: "dest = last (pc_activePath c)" "length ss = length (pc_caches c)"
    and cov: "\<And>i s. i < length ss \<Longrightarrow> ss ! i = Some s \<Longrightarrow> C i s (startOffset (node c dest)) v"
  shows "pc_core H C sz N r v (c\<lparr>pc_trie := setSnapshots sz dest ss (pc_trie c)\<rparr>)"
proof -
  note inv = pc_core_parts[OF core]
  let ?st = "setSnapshots sz dest ss (pc_trie c)"
  have e: "dest \<in> N" "tn_endOffset (th_heap (pc_trie c) dest) = length v" using active_end[OF inv(7,5)] d(1) by auto
  have l: "links (th_heap ?st) = links (th_heap (pc_trie c))"
    by (auto simp: setSnapshots_heap links_def linked.truncate_def fun_eq_iff)
  have "trie_ok N r (links (th_heap ?st))" unfolding l by (rule inv(8))
  then have ok: "trie_ok N r (th_heap ?st)" by (simp only: trie_ok_links)
  have "counted sz N ?st"
    by (rule counted_set[OF inv(10) e(1)]) (use inv(2) in \<open>simp add: trie_state_def counted_def\<close>)
  moreover have "th_next ?st = th_next (pc_trie c)" by (simp add: setSnapshots_def swapSnapshots_def upd_node_def)
  moreover have "snaps_ok (length (pc_caches c)) N ?st"
    using inv(2) d(2) by (auto simp: trie_state_def snaps_ok_def setSnapshots_heap)
  ultimately have "trie_state sz (length (pc_caches c)) N r ?st"
    using inv(2) ok by (auto simp: trie_state_def counted_def)
  moreover have "covered C N r ?st"
  proof (rule covered_set[OF inv(4) l, of dest])
    fix i s w assume s: "snap_in ?st dest i s" "labelled (th_heap (pc_trie c)) r dest w"
    have "w = v" using labelled_unique[OF inv(7) s(2)] active_labelled[OF inv(5)] d(1) by simp
    moreover have "C i s (startOffset (node c dest)) v" using cov s(1) by (auto simp: snap_in_def setSnapshots_heap)
    ultimately show "C i s (length w - length (tn_tokens (th_heap (pc_trie c) dest))) w"
      using e(2) by (simp add: startOffset_def node_def)
  qed (simp add: setSnapshots_heap)
  moreover have "active (th_heap ?st) r (pc_activePath c) v" by (rule heap_active[OF l]) (use inv(5) in simp)
  ultimately show ?thesis using inv(1,3) by (simp add: pc_core_def)
qed

text \<open>What the last node has covers its edge.\<close>

lemma last_covered:
  assumes "pc_core H C sz N r v c" "dest = last (pc_activePath c)" "snap_in (pc_trie c) dest i s"
  shows "C i s (startOffset (node c dest)) v" "startOffset (node c dest) \<le> length v"
proof -
  note inv = pc_core_parts[OF assms(1)]
  have e: "dest \<in> N" "tn_endOffset (th_heap (pc_trie c) dest) = length v" using active_end[OF inv(7,5)] assms(2) by auto
  have "labelled (th_heap (pc_trie c)) r dest v" using active_labelled[OF inv(5)] assms(2) by simp
  from coveredD[OF inv(4) e(1) assms(3) this] e(2)
  show "C i s (startOffset (node c dest)) v" by (simp add: startOffset_def node_def)
  show "startOffset (node c dest) \<le> length v" using e(2) by (simp add: startOffset_def node_def)
qed

lemma page_snaps_covered:
  assumes "start \<le> length w"
  shows "lawful_at H C k cs \<Longrightarrow> all_hold H k cs w \<Longrightarrow>
    (\<And>i s. i < length snaps \<Longrightarrow> snaps ! i = Some s \<Longrightarrow> C (k + i) s start w) \<Longrightarrow>
    length (page_snaps start snaps cs) = length cs \<and>
    (\<forall>i s. i < length cs \<longrightarrow> page_snaps start snaps cs ! i = Some s \<longrightarrow> C (k + i) s start w)"
proof (induction cs arbitrary: k snaps)
  case (Cons x cs)
  have hd: "C k s start w" if "(case snaps of [] \<Rightarrow> None | s # _ \<Rightarrow> s) = Some s" for s
    using Cons.prems(3)[of 0 s] that by (cases snaps) auto
  have tl: "C (Suc k + i) s start w" if "i < length (tl snaps)" "tl snaps ! i = Some s" for i s
    using Cons.prems(3)[of "Suc i" s] that by (auto simp: nth_tl)
  have new: "C k s start w" if "x = Some (ops, st)" "co_Snapshot ops start st = Some s" for ops st s
    using Cons.prems(1,2) that cache_layer.snapshot[of ops "H k" "C k" st w start s] assms by (auto simp: layer_defs)
  have IH: "length (page_snaps start (tl snaps) cs) = length cs \<and>
    (\<forall>i s. i < length cs \<longrightarrow> page_snaps start (tl snaps) cs ! i = Some s \<longrightarrow> C (Suc k + i) s start w)"
    by (rule Cons.IH) (use Cons.prems(1,2) tl in \<open>cases x; auto simp: layer_defs\<close>)+
  show ?case using IH hd new
    by (auto simp: Let_def nth_Cons split: nat.splits option.splits)
qed simp

lemma pageOut_core:
  assumes core: "pc_core H C sz N r v c" and d: "dest = last (pc_activePath c)" and held: "all_hold H 0 (pc_caches c) v"
  shows "\<exists>c' N'. pageOut sz dest c = Some c' \<and> pc_core H C sz N' r v c' \<and> pc_caches c' = pc_caches c \<and>
    pc_draftLookahead c' = pc_draftLookahead c"
proof (cases "hasAllSnapshots (node c dest) (pc_caches c)")
  case True
  then show ?thesis using core by (auto simp: pageOut_def)
next
  case False
  note inv = pc_core_parts[OF core]
  let ?ss = "page_snaps (startOffset (node c dest)) (tn_snapshots (node c dest)) (pc_caches c)"
  have start: "startOffset (node c dest) \<le> length v"
    using active_end[OF inv(7,5)] d by (simp add: startOffset_def node_def)
  have old: "C (0 + i) s (startOffset (node c dest)) v"
    if "i < length (tn_snapshots (node c dest))" "tn_snapshots (node c dest) ! i = Some s" for i s
    using last_covered(1)[OF core d, of i s] that by (simp add: snap_in_def node_def)
  have law: "lawful_at H C 0 (pc_caches c)" using inv(3) by (simp add: lawful_at_0)
  have ss: "length ?ss = length (pc_caches c)"
    "\<And>i s. i < length ?ss \<Longrightarrow> ?ss ! i = Some s \<Longrightarrow> C i s (startOffset (node c dest)) v"
    using page_snaps_covered[OF start law held old] by auto
  have core1: "pc_core H C sz N r v (c\<lparr>pc_trie := setSnapshots sz dest ?ss (pc_trie c)\<rparr>)"
    by (rule set_snapshots_core[OF core d ss])
  show ?thesis using enforceEvictionPolicy_core[OF core1] False by (fastforce simp: pageOut_def)
qed

section \<open>Attaching captures\<close>

text \<open>
  The captures of one offset \<open>p\<close>, one for each layer: each covers the front \<open>take p w\<close> from some point at or
  before \<open>base\<close>. \<open>caught\<close> says so of all captures of one layer; \<open>base\<close> is where the layer stood when the
  offsets were scheduled.
\<close>

definition row_ok :: "(nat \<Rightarrow> 's \<Rightarrow> nat \<Rightarrow> 'k list \<Rightarrow> bool) \<Rightarrow> nat \<Rightarrow> nat \<Rightarrow> nat \<Rightarrow> 'k list \<Rightarrow> 's option list \<Rightarrow> bool" where
  "row_ok C k base p w row \<longleftrightarrow>
     (\<forall>i s. i < length row \<longrightarrow> row ! i = Some s \<longrightarrow> (\<exists>a\<le>base. C (k + i) s a (take p w)))"

definition bound :: "nat \<Rightarrow> nat list \<Rightarrow> nat \<Rightarrow> nat" where
  "bound base offs j = (if j = 0 then base else offs ! (j - 1))"

definition caught :: "('s \<Rightarrow> nat \<Rightarrow> 'k list \<Rightarrow> bool) \<Rightarrow> nat \<Rightarrow> nat list \<Rightarrow> 'k list \<Rightarrow> 's option list \<Rightarrow> bool" where
  "caught D base offs w ss \<longleftrightarrow>
     (\<forall>j s. j < length offs \<longrightarrow> j < length ss \<longrightarrow> ss ! j = Some s \<longrightarrow>
        (\<exists>a\<le>bound base offs j. D s a (take (offs ! j) w)))"

lemma attach_snaps_covered:
  assumes "start \<le> length w"
  shows "lawful_at H C k cs \<Longrightarrow> row_ok C k start (length w) w row \<Longrightarrow>
    (\<And>i s. i < length snaps \<Longrightarrow> snaps ! i = Some s \<Longrightarrow> C (k + i) s start w) \<Longrightarrow>
    length (attach_snaps start snaps row cs) = length cs \<and>
    (\<forall>i s. i < length cs \<longrightarrow> attach_snaps start snaps row cs ! i = Some s \<longrightarrow> C (k + i) s start w)"
proof (induction cs arbitrary: k snaps row)
  case (Cons x cs)
  have hd: "C k s start w" if "(case snaps of [] \<Rightarrow> None | s # _ \<Rightarrow> s) = Some s" for s
    using Cons.prems(3)[of 0 s] that by (cases snaps) auto
  have tl: "C (Suc k + i) s start w" if "i < length (tl snaps)" "tl snaps ! i = Some s" for i s
    using Cons.prems(3)[of "Suc i" s] that by (auto simp: nth_tl)
  have row: "row_ok C (Suc k) start (length w) w (tl row)"
  proof -
    have "\<exists>a\<le> start. C (Suc k + i) s a (take (length w) w)" if "i < length (tl row)" "tl row ! i = Some s" for i s
      using Cons.prems(2)[unfolded row_ok_def, rule_format, of "Suc i" s] that by (auto simp: nth_tl)
    then show ?thesis by (simp add: row_ok_def)
  qed
  have new: "C k s' start w"
    if x: "x = Some (ops, st)" "(case row of [] \<Rightarrow> None | s # _ \<Rightarrow> s) = Some s" "snd (co_Split ops s start) = Some s'" for ops st s s'
  proof -
    obtain a where a: "a \<le> start" "C k s a w"
      using Cons.prems(2) x(2) unfolding row_ok_def by (cases row) (auto dest!: spec[of _ 0])
    have L: "cache_layer ops (H k) (C k)" using Cons.prems(1) x(1) by (simp add: layer_defs)
    obtain p q where "co_Split ops s start = (p, q)" by fastforce
    then show ?thesis using cache_layer.split[OF L a(2,1) assms] x(3) by auto
  qed
  have IH: "length (attach_snaps start (tl snaps) (tl row) cs) = length cs \<and>
    (\<forall>i s. i < length cs \<longrightarrow> attach_snaps start (tl snaps) (tl row) cs ! i = Some s \<longrightarrow> C (Suc k + i) s start w)"
    by (rule Cons.IH) (use Cons.prems(1) row tl in \<open>cases x; auto simp: layer_defs\<close>)+
  show ?case using IH hd new
    by (auto simp: Let_def nth_Cons split: nat.splits option.splits)
qed simp

lemma attachCapturedSnapshots_core:
  assumes core: "pc_core H C sz N r v c" and d: "dest = last (pc_activePath c)"
    and row: "row_ok C 0 (startOffset (node c dest)) (length v) v row"
  shows "pc_core H C sz N r v (attachCapturedSnapshots sz clock dest row c)"
proof -
  note inv = pc_core_parts[OF core]
  let ?ss = "attach_snaps (startOffset (node c dest)) (tn_snapshots (node c dest)) row (pc_caches c)"
  have start: "startOffset (node c dest) \<le> length v"
    using active_end[OF inv(7,5)] d by (simp add: startOffset_def node_def)
  have old: "C (0 + i) s (startOffset (node c dest)) v"
    if "i < length (tn_snapshots (node c dest))" "tn_snapshots (node c dest) ! i = Some s" for i s
    using last_covered(1)[OF core d, of i s] that by (simp add: snap_in_def node_def)
  have law: "lawful_at H C 0 (pc_caches c)" using inv(3) by (simp add: lawful_at_0)
  have ss: "length ?ss = length (pc_caches c)"
    "\<And>i s. i < length ?ss \<Longrightarrow> ?ss ! i = Some s \<Longrightarrow> C i s (startOffset (node c dest)) v"
    using attach_snaps_covered[OF start law row old] by auto
  show ?thesis unfolding attachCapturedSnapshots_def
    by (rule touch_core) (rule set_snapshots_core[OF core d ss])
qed

lemma attachCaptured_simps [simp]:
  "pc_caches (attachCapturedSnapshots sz clock n row c) = pc_caches c"
  "pc_draftLookahead (attachCapturedSnapshots sz clock n row c) = pc_draftLookahead c"
  "pc_activePath (attachCapturedSnapshots sz clock n row c) = pc_activePath c"
  by (simp_all add: attachCapturedSnapshots_def)

text \<open>
  Where the active path may end before a capture at \<open>p\<close>: at or behind \<open>base\<close> and before \<open>p\<close>; or exactly at
  \<open>p\<close>, when the layers have been freed and start from nothing.
\<close>

definition room :: "nat \<Rightarrow> 'k list \<Rightarrow> nat \<Rightarrow> bool" where
  "room base v p \<longleftrightarrow> base \<le> length v \<and> length v < p \<or> base = 0 \<and> length v = p"

lemma mark_user_core:
  assumes "pc_core H C sz N r v c"
  shows "pc_core H C sz N r v (if u then c\<lparr>pc_trie := upd_node n (\<lambda>x. x\<lparr>tn_user := True\<rparr>) (pc_trie c)\<rparr> else c)"
  using upd_core[OF assms, of "\<lambda>x. x\<lparr>tn_user := True\<rparr>" _ n] assms by (simp add: linked.truncate_def)

lemma attach_pending_core:
  assumes core: "pc_core H C sz N r v c" and v: "prefix v skeys" and p: "fst p \<le> n" "n \<le> length skeys" "room base v (fst p)"
    and row: "row_ok C 0 base (fst p) skeys row"
  shows "\<exists>c' N'. attach_pending sz clock skeys n p row c = Some c' \<and> pc_core H C sz N' r (take (fst p) skeys) c' \<and>
    pc_caches c' = pc_caches c \<and> pc_draftLookahead c' = pc_draftLookahead c"
proof -
  note inv = pc_core_parts[OF core]
  let ?w = "take (fst p) skeys" and ?f = "last (pc_activePath c)"
  have f: "tn_endOffset (node c ?f) = length v" using active_end[OF inv(7,5)] by (simp add: node_def)
  define grow where "grow = (if tn_endOffset (node c ?f) < fst p
           then (if length skeys < fst p then None
                 else advancePath sz ?f (drop (tn_endOffset (node c ?f)) (take (fst p) skeys)) (fst p) c)
           else Some (?f, c))"
  have "\<exists>dest c1 N1. grow = Some (dest, c1) \<and> pc_core H C sz N1 r ?w c1 \<and> dest = last (pc_activePath c1) \<and>
    pc_caches c1 = pc_caches c \<and> pc_draftLookahead c1 = pc_draftLookahead c \<and> base \<le> startOffset (node c1 dest)"
  proof (cases "length v < fst p")
    case True
    have vw: "v = take (length v) skeys" using v by (auto simp: prefix_def)
    have split: "v @ drop (length v) ?w = ?w"
      using vw True append_take_drop_id[of "length v" ?w] by (simp add: min_absorb1)
    have ne: "drop (length v) ?w \<noteq> []" "fst p = length (v @ drop (length v) ?w)" using True p by (simp_all add: split)
    from advancePath_core[OF core ne] True p f split room_def[of base v "fst p"]
    show ?thesis by (auto simp: grow_def intro: order_trans)
  next
    case False
    then have "length v = fst p" "base = 0" using p(3) by (auto simp: room_def)
    moreover have "v = ?w" using calculation(1) v by (auto simp: prefix_def)
    ultimately show ?thesis using core f by (auto simp: grow_def)
  qed
  then obtain dest c1 N1 where g: "grow = Some (dest, c1)" "pc_core H C sz N1 r ?w c1" "dest = last (pc_activePath c1)"
    "pc_caches c1 = pc_caches c" "pc_draftLookahead c1 = pc_draftLookahead c" "base \<le> startOffset (node c1 dest)" by blast
  define c2 where "c2 = (if snd p then c1\<lparr>pc_trie := upd_node dest (\<lambda>x. x\<lparr>tn_user := True\<rparr>) (pc_trie c1)\<rparr> else c1)"
  have c2: "pc_core H C sz N1 r ?w c2" unfolding c2_def by (rule mark_user_core[OF g(2)])
  have c2': "pc_caches c2 = pc_caches c" "pc_draftLookahead c2 = pc_draftLookahead c" "pc_activePath c2 = pc_activePath c1"
    "startOffset (node c2 dest) = startOffset (node c1 dest)"
    using g(4,5) by (auto simp: c2_def node_def startOffset_def upd_node_def)
  have "length ?w = fst p" using p by simp
  then have row2: "row_ok C 0 (startOffset (node c2 dest)) (length ?w) ?w row"
    using row g(6) c2'(4) unfolding row_ok_def by (metis order_trans take_all_iff order_refl)
  have "dest = last (pc_activePath c2)" using g(3) c2'(3) by simp
  note att = attachCapturedSnapshots_core[OF c2 this row2, of clock]
  obtain c' N' where c': "compactPath sz (attachCapturedSnapshots sz clock dest row c2) = Some c'"
    "pc_core H C sz N' r ?w c'" "pc_caches c' = pc_caches c" "pc_draftLookahead c' = pc_draftLookahead c"
    using compactPath_core[OF att] c2' by auto
  have "attach_pending sz clock skeys n p row c = Some c'"
    using p(1) inv(6) g(1) c'(1) unfolding attach_pending_def Let_def grow_def[symmetric] by (simp add: c2_def)
  then show ?thesis using c' by blast
qed

text \<open>Along the schedule: the active path moves from one captured offset to the next.\<close>

lemma attach_all_core:
  assumes "n \<le> length skeys"
  shows "pc_core H C sz N r v c \<Longrightarrow> prefix v skeys \<Longrightarrow> sorted_wrt (<) (map fst ps) \<Longrightarrow>
    (\<And>p. ps \<noteq> [] \<Longrightarrow> fst (hd ps) \<le> n \<Longrightarrow> room base v (fst (hd ps))) \<Longrightarrow>
    (\<And>j. j < length ps \<Longrightarrow> fst (ps ! j) \<le> n \<Longrightarrow>
       row_ok C 0 (bound base (map fst ps) j) (fst (ps ! j)) skeys (capture_row taken (i + j))) \<Longrightarrow>
    \<exists>c' N' v'. attach_all sz clock skeys n taken i ps c = Some c' \<and> pc_core H C sz N' r v' c' \<and> prefix v' skeys \<and>
      (v' = v \<or> length v' \<le> n) \<and> pc_caches c' = pc_caches c \<and> pc_draftLookahead c' = pc_draftLookahead c"
proof (induction ps arbitrary: N v c base i)
  case Nil
  then show ?case by auto
next
  case (Cons p ps)
  have later: "fst p < fst (ps ! j)" if "j < length ps" for j
    using Cons.prems(3) nth_mem[OF that] by auto
  show ?case
  proof (cases "fst p \<le> n")
    case False
    have skip: "attach_all sz clock skeys n taken k qs c = Some c" if "\<forall>q\<in>set qs. n < fst q" for k qs
      using that by (induction qs arbitrary: k) (simp_all add: attach_pending_def)
    have "attach_all sz clock skeys n taken i (p # ps) c = Some c"
      by (rule skip) (use False Cons.prems(3) in auto)
    then show ?thesis using Cons.prems(1,2) by blast
  next
    case True
    have row: "row_ok C 0 base (fst p) skeys (capture_row taken i)"
      using Cons.prems(5)[of 0] True by (simp add: bound_def)
    have room: "room base v (fst p)" using Cons.prems(4) True by simp
    obtain c1 N1 where c1: "attach_pending sz clock skeys n p (capture_row taken i) c = Some c1"
      "pc_core H C sz N1 r (take (fst p) skeys) c1" "pc_caches c1 = pc_caches c" "pc_draftLookahead c1 = pc_draftLookahead c"
      using attach_pending_core[OF Cons.prems(1,2) True assms room row] by blast
    have len: "length (take (fst p) skeys) = fst p" using True assms by simp
    have "\<exists>c' N' v'. attach_all sz clock skeys n taken (Suc i) ps c1 = Some c' \<and> pc_core H C sz N' r v' c' \<and> prefix v' skeys \<and>
      (v' = take (fst p) skeys \<or> length v' \<le> n) \<and> pc_caches c' = pc_caches c1 \<and> pc_draftLookahead c' = pc_draftLookahead c1"
    proof (rule Cons.IH[OF c1(2) take_is_prefix])
      show "sorted_wrt (<) (map fst ps)" using Cons.prems(3) by simp
      show "room (fst p) (take (fst p) skeys) (fst (hd ps))" if "ps \<noteq> []" "fst (hd ps) \<le> n"
        using len later[of 0] that by (simp add: room_def hd_conv_nth)
      show "row_ok C 0 (bound (fst p) (map fst ps) j) (fst (ps ! j)) skeys (capture_row taken (Suc i + j))"
        if "j < length ps" "fst (ps ! j) \<le> n" for j
      proof -
        have "bound (fst p) (map fst ps) j = bound base (map fst (p # ps)) (Suc j)"
          using that(1) by (cases j) (simp_all add: bound_def)
        then show ?thesis using Cons.prems(5)[of "Suc j"] that by simp
      qed
    qed
    then obtain c' N' v' where c': "attach_all sz clock skeys n taken (Suc i) ps c1 = Some c'" "pc_core H C sz N' r v' c'"
      "prefix v' skeys" "v' = take (fst p) skeys \<or> length v' \<le> n" "pc_caches c' = pc_caches c1"
      "pc_draftLookahead c' = pc_draftLookahead c1" by blast
    then have "length v' \<le> n" using len True by auto
    then show ?thesis using c1 c' by auto
  qed
qed

text \<open>Taking the captures. \<open>settled\<close>: after that the layers hold \<open>w\<close>, and the captures are right.\<close>

definition settled ::
  "(nat \<Rightarrow> 'c \<Rightarrow> 'k list \<Rightarrow> bool) \<Rightarrow> (nat \<Rightarrow> 's \<Rightarrow> nat \<Rightarrow> 'k list \<Rightarrow> bool) \<Rightarrow> nat \<Rightarrow> nat list \<Rightarrow> nat \<Rightarrow>
     ('c, 's) kv list \<Rightarrow> 'k list \<Rightarrow> bool" where
  "settled H C base offs k cs w \<longleftrightarrow>
     all_layers (\<lambda>i ops st. case co_TakeSnapshots ops st of (ss, st1) \<Rightarrow> H i st1 w \<and> caught (C i) base offs w ss) k cs"

lemma take_all_settled:
  "settled H C base offs k cs w \<Longrightarrow> take_all cs = (taken, cs1) \<Longrightarrow>
     all_hold H k cs1 w \<and> ops_of cs1 = ops_of cs \<and>
     (\<forall>j<length offs. row_ok C k (bound base offs j) (offs ! j) w (capture_row taken j))"
proof (induction cs arbitrary: k taken cs1)
  case Nil
  then show ?case by (auto simp: all_hold_def row_ok_def capture_row_def)
next
  case (Cons x cs)
  obtain ts cs2 where t: "take_all cs = (ts, cs2)" by fastforce
  have "settled H C base offs (Suc k) cs w" using Cons.prems(1) by (cases x) (auto simp: settled_def)
  from Cons.IH[OF this t] have IH: "all_hold H (Suc k) cs2 w" "ops_of cs2 = ops_of cs"
    "\<And>j. j < length offs \<Longrightarrow> row_ok C (Suc k) (bound base offs j) (offs ! j) w (capture_row ts j)" by auto
  have up: "row_ok C k b p w (s # row)" if "row_ok C (Suc k) b p w row" "\<And>s'. s = Some s' \<Longrightarrow> \<exists>a\<le>b. C k s' a (take p w)"
    for b p s row
    unfolding row_ok_def
  proof (intro allI impI)
    fix i s' assume i: "i < length (s # row)" "(s # row) ! i = Some s'"
    show "\<exists>a\<le>b. C (k + i) s' a (take p w)"
    proof (cases i)
      case 0
      then show ?thesis using that(2) i by simp
    next
      case (Suc m)
      then show ?thesis using that(1)[unfolded row_ok_def, rule_format, of m s'] i by simp
    qed
  qed
  show ?case
  proof (cases x)
    case None
    have "row_ok C k (bound base offs j) (offs ! j) w (capture_row (None # ts) j)" if j: "j < length offs" for j
      using up[OF IH(3)[OF j], of None] by (simp add: capture_row_def)
    then show ?thesis using Cons.prems(2) t IH None by (auto simp: all_hold_def)
  next
    case (Some kv)
    obtain ops st where kv: "kv = (ops, st)" by fastforce
    obtain ss st1 where s: "co_TakeSnapshots ops st = (ss, st1)" by fastforce
    have h: "H k st1 w" "caught (C k) base offs w ss" using Cons.prems(1) Some kv s by (auto simp: settled_def)
    have "row_ok C k (bound base offs j) (offs ! j) w (capture_row (Some ss # ts) j)" if j: "j < length offs" for j
    proof -
      have "capture_row (Some ss # ts) j = (if j < length ss then ss ! j else None) # capture_row ts j"
        by (simp add: capture_row_def)
      moreover have "row_ok C k (bound base offs j) (offs ! j) w \<dots>"
        by (rule up[OF IH(3)[OF j]]) (use h(2) j in \<open>auto simp: caught_def split: if_splits\<close>)
      ultimately show ?thesis by simp
    qed
    then show ?thesis using Cons.prems(2) t s Some kv IH h(1) by (auto simp: all_hold_def)
  qed
qed

lemma row_ok_take: "p \<le> n \<Longrightarrow> row_ok C k b p (take n w) row = row_ok C k b p w row"
  by (simp add: row_ok_def min_absorb1)

lemma all_hold_offset:
  assumes "lawful_layers H C (pc_caches c)" "all_hold H 0 (pc_caches c) w"
  shows "minCacheOffset c = (if min_offset (pc_caches c) = None then 0 else length w)"
  using min_offset_all_hold[of H C 0 "pc_caches c" w] assms
  by (auto simp: minCacheOffset_def lawful_at_0 split: option.split)

text \<open>
  What the code keeps in a session that evaluated the front of length \<open>n\<close> of the keys \<open>skeys\<close>; \<open>base\<close> is
  where the layers stood before.
\<close>

definition in_session ::
  "(nat \<Rightarrow> 'c \<Rightarrow> trieKey list \<Rightarrow> bool) \<Rightarrow> (nat \<Rightarrow> 's \<Rightarrow> nat \<Rightarrow> trieKey list \<Rightarrow> bool) \<Rightarrow> ('s \<Rightarrow> int) \<Rightarrow> nat set \<Rightarrow> nat \<Rightarrow>
     trieKey list \<Rightarrow> nat \<Rightarrow> trieKey list \<Rightarrow> nat \<Rightarrow> cacheSession \<Rightarrow> (trieKey, 'c, 's) prefixCache \<Rightarrow> bool" where
  "in_session H C sz N r v base skeys n s c \<longleftrightarrow>
     pc_core H C sz N r v c \<and> storedKeys (pc_draftLookahead c) s = Some skeys \<and> prefix v skeys \<and> n \<le> length skeys \<and>
     sorted_wrt (<) (map fst (cs_pending s)) \<and>
     (cs_pending s \<noteq> [] \<longrightarrow> fst (hd (cs_pending s)) \<le> n \<longrightarrow> room base v (fst (hd (cs_pending s)))) \<and>
     (if cs_pending s = [] then all_hold H 0 (pc_caches c) (take n skeys)
      else settled H C base (map fst (cs_pending s)) 0 (pc_caches c) (take n skeys))"

lemma attachPrefillSnapshots_core:
  assumes "in_session H C sz N r v base skeys n s c"
  shows "\<exists>c' N' v'. attachPrefillSnapshots sz clock s c = Some (s\<lparr>cs_pending := []\<rparr>, c') \<and>
    pc_core H C sz N' r v' c' \<and> prefix v' skeys \<and> (v' = v \<or> length v' \<le> n) \<and>
    all_hold H 0 (pc_caches c') (take n skeys) \<and> ops_of (pc_caches c') = ops_of (pc_caches c) \<and>
    pc_draftLookahead c' = pc_draftLookahead c"
proof -
  have core: "pc_core H C sz N r v c" and sk: "storedKeys (pc_draftLookahead c) s = Some skeys"
    and v: "prefix v skeys" "n \<le> length skeys" and srt: "sorted_wrt (<) (map fst (cs_pending s))"
    using assms by (auto simp: in_session_def)
  show ?thesis
  proof (cases "cs_pending s = []")
    case True
    then have "s\<lparr>cs_pending := []\<rparr> = s" by simp
    then show ?thesis using True core v assms by (auto simp: in_session_def attachPrefillSnapshots_def)
  next
    case False
    let ?w = "take n skeys" and ?offs = "map fst (cs_pending s)"
    have se: "settled H C base ?offs 0 (pc_caches c) ?w"
      and room: "fst (hd (cs_pending s)) \<le> n \<Longrightarrow> room base v (fst (hd (cs_pending s)))"
      using assms False by (auto simp: in_session_def)
    obtain taken cs where t: "take_all (pc_caches c) = (taken, cs)" by fastforce
    note ts = take_all_settled[OF se t]
    define c1 where "c1 = c\<lparr>pc_caches := cs\<rparr>"
    have len: "length cs = length (pc_caches c)" using ts ops_of_length by blast
    have law: "lawful_layers H C cs" using lawful_layers_ops[of cs "pc_caches c" H C] ts pc_core_parts(3)[OF core] by simp
    have core1: "pc_core H C sz N r v c1" using core law len by (auto simp: pc_core_def c1_def)
    have held: "all_hold H 0 (pc_caches c1) ?w" using ts by (simp add: c1_def)
    have reached: "minCacheOffset c1 \<le> n" "minCacheOffset c1 \<le> length skeys"
      using all_hold_offset[OF _ held, of C] law v(2) by (auto simp: c1_def split: if_splits)
    have rooms: "room base v (fst (hd (cs_pending s)))" if "fst (hd (cs_pending s)) \<le> minCacheOffset c1"
      using room reached(1) that by simp
    have rows: "row_ok C 0 (bound base ?offs j) (fst (cs_pending s ! j)) skeys (capture_row taken (0 + j))"
      if j: "j < length (cs_pending s)" "fst (cs_pending s ! j) \<le> minCacheOffset c1" for j
    proof -
      have "row_ok C 0 (bound base ?offs j) (?offs ! j) ?w (capture_row taken j)" using ts j(1) by simp
      then show ?thesis using j reached(1) by (simp add: row_ok_take)
    qed
    have "\<exists>c2 N2 v2. attach_all sz clock skeys (minCacheOffset c1) taken 0 (cs_pending s) c1 = Some c2 \<and>
      pc_core H C sz N2 r v2 c2 \<and> prefix v2 skeys \<and> (v2 = v \<or> length v2 \<le> minCacheOffset c1) \<and> pc_caches c2 = pc_caches c1 \<and>
      pc_draftLookahead c2 = pc_draftLookahead c1"
      by (rule attach_all_core[OF reached(2) core1 v(1) srt, of base]) (use rooms rows in auto)
    then obtain c2 N2 v2 where c2: "attach_all sz clock skeys (minCacheOffset c1) taken 0 (cs_pending s) c1 = Some c2"
      "pc_core H C sz N2 r v2 c2" "prefix v2 skeys" "v2 = v \<or> length v2 \<le> minCacheOffset c1" "pc_caches c2 = pc_caches c1"
      "pc_draftLookahead c2 = pc_draftLookahead c1"
      by blast
    obtain c3 N3 where c3: "enforceEvictionPolicy sz c2 = Some c3" "pc_core H C sz N3 r v2 c3"
      "pc_caches c3 = pc_caches c2" "pc_draftLookahead c3 = pc_draftLookahead c2"
      using enforceEvictionPolicy_core[OF c2(2)] by blast
    have "attachPrefillSnapshots sz clock s c = Some (s\<lparr>cs_pending := []\<rparr>, c3)"
      using False t sk c2(1) c3(1) unfolding attachPrefillSnapshots_def by (simp add: c1_def Let_def)
    moreover have "v2 = v \<or> length v2 \<le> n" using c2(4) reached(1) by linarith
    moreover have "pc_caches c3 = cs" using c2(5) c3(3) by (simp add: c1_def)
    ultimately show ?thesis using c2 c3 ts by (auto simp: c1_def)
  qed
qed


section \<open>Closing\<close>

text \<open>The keys that a session evaluated become the active path.\<close>

definition save_path ::
  "('s \<Rightarrow> int) \<Rightarrow> trieKey list \<Rightarrow> nat \<Rightarrow> (trieKey, 'c, 's) prefixCache \<Rightarrow> (trieKey, 'c, 's) prefixCache option" where
  "save_path sz skeys offset c =
     (let frontier = last (pc_activePath c); start = tn_endOffset (node c frontier) in
      if start < offset
      then do {
        (dest, c2) \<leftarrow> advancePath sz frontier (drop start (take offset skeys)) offset c;
        c3 \<leftarrow> pageOut sz dest c2;
        compactPath sz c3
      }
      else Some c)"

lemma save_path_core:
  assumes core: "pc_core H C sz N r v c" and v: "prefix v skeys" and n: "n \<le> length skeys"
    and held: "all_hold H 0 (pc_caches c) (take n skeys)"
  shows "\<exists>c' N' v'. save_path sz skeys n c = Some c' \<and> pc_core H C sz N' r v' c' \<and> prefix (take n skeys) v' \<and>
    (v' = v \<or> v' = take n skeys) \<and> pc_caches c' = pc_caches c \<and> pc_draftLookahead c' = pc_draftLookahead c"
proof -
  note inv = pc_core_parts[OF core]
  let ?w = "take n skeys" and ?f = "last (pc_activePath c)"
  have f: "tn_endOffset (node c ?f) = length v" using active_end[OF inv(7,5)] by (simp add: node_def)
  have vw: "v = take (length v) skeys" using v by (auto simp: prefix_def)
  show ?thesis
  proof (cases "length v < n")
    case True
    have split: "v @ drop (length v) ?w = ?w"
      using vw True append_take_drop_id[of "length v" ?w] by (simp add: min_absorb1)
    have ne: "drop (length v) ?w \<noteq> []" "n = length (v @ drop (length v) ?w)" using True n by (simp_all add: split)
    obtain dest c1 N1 where c1: "advancePath sz ?f (drop (length v) ?w) n c = Some (dest, c1)"
      "pc_core H C sz N1 r ?w c1" "dest = last (pc_activePath c1)" "pc_caches c1 = pc_caches c"
      "pc_draftLookahead c1 = pc_draftLookahead c"
      using advancePath_core[OF core ne] unfolding split by blast
    have "all_hold H 0 (pc_caches c1) ?w" using held c1(4) by simp
    from pageOut_core[OF c1(2,3) this] obtain c2 N2 where c2: "pageOut sz dest c1 = Some c2"
      "pc_core H C sz N2 r ?w c2" "pc_caches c2 = pc_caches c1" "pc_draftLookahead c2 = pc_draftLookahead c1" by blast
    obtain c3 N3 where c3: "compactPath sz c2 = Some c3" "pc_core H C sz N3 r ?w c3"
      "pc_caches c3 = pc_caches c2" "pc_draftLookahead c3 = pc_draftLookahead c2"
      using compactPath_core[OF c2(2)] by blast
    have "save_path sz skeys n c = Some c3" using True f c1(1) c2(1) c3(1) by (simp add: save_path_def)
    then show ?thesis using c1 c2 c3 by auto
  next
    case False
    then have "prefix ?w v" using vw take_is_prefix[of n v] by (metis min.absorb1 not_less take_take)
    then show ?thesis using False f core by (auto simp: save_path_def)
  qed
qed

lemma core_stored:
  assumes "pc_core H C sz N r v c" "prefix w v"
  shows "w \<in> stored (th_heap (pc_trie c)) r"
proof -
  obtain path where "walk (th_heap (pc_trie c)) r path" "along (th_heap (pc_trie c)) path = v"
    using pc_core_parts(5)[OF assms(1)] by (auto simp: active_def)
  then show ?thesis using walk_stored stored_prefix assms(2) by metis
qed

lemma close_session_core:
  assumes "in_session H C sz N r v base skeys n s c"
  shows "\<exists>c' N' v'. close_session sz clock s c = Some c' \<and> pc_inv H C sz N' r v' c' \<and>
    all_hold H 0 (pc_caches c') (take n skeys) \<and> pc_draftLookahead c' = pc_draftLookahead c \<and>
    ops_of (pc_caches c') = ops_of (pc_caches c) \<and>
    (min_offset (pc_caches c') \<noteq> None \<longrightarrow> take n skeys \<in> stored (th_heap (pc_trie c')) r)"
proof -
  let ?w = "take n skeys"
  have sk: "storedKeys (pc_draftLookahead c) s = Some skeys" and n: "n \<le> length skeys"
    using assms by (auto simp: in_session_def)
  obtain c1 N1 v1 where c1: "attachPrefillSnapshots sz clock s c = Some (s\<lparr>cs_pending := []\<rparr>, c1)"
    "pc_core H C sz N1 r v1 c1" "prefix v1 skeys" "all_hold H 0 (pc_caches c1) ?w"
    "pc_draftLookahead c1 = pc_draftLookahead c" "ops_of (pc_caches c1) = ops_of (pc_caches c)"
    using attachPrefillSnapshots_core[OF assms] by blast
  note inv1 = pc_core_parts[OF c1(2)]
  have off: "minCacheOffset c1 = (if min_offset (pc_caches c1) = None then 0 else n)"
    using all_hold_offset[OF inv1(3) c1(4)] n by simp
  have sk': "storedKeys (pc_draftLookahead c1) (s\<lparr>cs_pending := []\<rparr>) = Some skeys"
    using sk c1(5) by (simp add: storedKeys_def)
  show ?thesis
  proof (cases "minCacheOffset c1 = 0")
    case True
    have cl: "close_session sz clock s c = Some c1" using c1(1) True by (simp add: close_session_def)
    show ?thesis
    proof (cases "min_offset (pc_caches c1) = None")
      case None: True
      have "on_path H 0 (pc_caches c1) v1" unfolding on_path_def by (rule no_layers[OF None])
      then show ?thesis using cl c1 None by (auto simp: pc_inv_def)
    next
      case False
      then have "n = 0" using off True by (metis (full_types))
      then have "on_path H 0 (pc_caches c1) v1" using all_hold_on_path[OF c1(4)] by simp
      then show ?thesis using cl c1 core_stored[OF c1(2), of ?w] \<open>n = 0\<close> by (auto simp: pc_inv_def)
    qed
  next
    case False
    then have n0: "minCacheOffset c1 = n" using off by (simp split: if_splits)
    obtain c2 N2 v2 where c2: "save_path sz skeys n c1 = Some c2" "pc_core H C sz N2 r v2 c2" "prefix ?w v2"
      "pc_caches c2 = pc_caches c1" "pc_draftLookahead c2 = pc_draftLookahead c1"
      using save_path_core[OF c1(2,3) n c1(4)] by blast
    define c3 where "c3 = touch clock (last (pc_activePath c2)) c2"
    have "close_session sz clock s c =
        do {c2 \<leftarrow> save_path sz skeys n c1; Some (touch clock (last (pc_activePath c2)) c2)}"
      using c1(1) False n0 n sk' inv1(6)
      by (cases "tn_endOffset (node c1 (last (pc_activePath c1))) < n") (simp_all add: close_session_def save_path_def Let_def)
    then have "close_session sz clock s c = Some c3" using c2(1) by (simp add: c3_def)
    moreover have core3: "pc_core H C sz N2 r v2 c3" unfolding c3_def by (rule touch_core[OF c2(2)])
    moreover have "all_hold H 0 (pc_caches c3) ?w" using c1(4) c2(4) by (simp add: c3_def)
    moreover from this have "on_path H 0 (pc_caches c3) v2" using all_hold_on_path c2(3) by blast
    ultimately show ?thesis using c1(5,6) c2(4,5) core_stored[OF core3 c2(3)] by (auto simp: c3_def pc_inv_def)
  qed
qed

section \<open>Beginning\<close>

text \<open>
  A cache between two requests: the layers stand on the active path; or nothing has been stored yet and
  the layers are empty.
\<close>

definition pc_ready ::
  "(nat \<Rightarrow> 'c \<Rightarrow> 'k list \<Rightarrow> bool) \<Rightarrow> (nat \<Rightarrow> 's \<Rightarrow> nat \<Rightarrow> 'k list \<Rightarrow> bool) \<Rightarrow> ('s \<Rightarrow> int) \<Rightarrow>
     ('k, 'c, 's) prefixCache \<Rightarrow> bool" where
  "pc_ready H C sz c \<longleftrightarrow> (\<exists>N r v. pc_inv H C sz N r v c) \<or>
     pc_root c = None \<and> lawful_layers H C (pc_caches c) \<and> all_hold H 0 (pc_caches c) [] \<and> th_paged (pc_trie c) = 0"

lemma newPrefixCache_ready:
  "lawful_layers H C cs \<Longrightarrow> all_hold H 0 cs [] \<Longrightarrow> pc_ready H C sz (newPrefixCache la cs)"
  by (simp add: pc_ready_def newPrefixCache_def)

lemma ensureRoot_inv:
  assumes "pc_ready H C sz c"
  shows "\<exists>N r v. pc_inv H C sz N r v (ensureRoot clock c)"
proof (cases "\<exists>N r v. pc_inv H C sz N r v c")
  case True
  then obtain r0 where "pc_root c = Some r0" by (auto simp: pc_inv_def pc_core_def)
  then have "ensureRoot clock c = c" by (simp add: ensureRoot_def)
  then show ?thesis using True by simp
next
  case False
  then have c: "pc_root c = None" "lawful_layers H C (pc_caches c)" "all_hold H 0 (pc_caches c) []" "th_paged (pc_trie c) = 0"
    using assms by (auto simp: pc_ready_def)
  let ?r = "th_next (pc_trie c)" and ?c = "ensureRoot clock c"
  have t: "th_heap (pc_trie ?c) ?r = emptyNode (clock (pc_clock c))" "th_next (pc_trie ?c) = Suc ?r"
    "th_paged (pc_trie ?c) = 0" "pc_caches ?c = pc_caches c" "pc_root ?c = Some ?r" "pc_activePath ?c = [?r]"
    using c(1,4) by (simp_all add: ensureRoot_def Let_def)
  have "trie_ok {?r} ?r (th_heap (pc_trie ?c))"
    using t by (simp add: trie_ok_def links_ok_def emptyNode_def)
  moreover have "total_bytes sz {?r} (pc_trie ?c) = 0" using t by (simp add: total_bytes_def snapshotBytes_def emptyNode_def)
  ultimately have "trie_state sz (length (pc_caches ?c)) {?r} ?r (pc_trie ?c)"
    using t by (simp add: trie_state_def snaps_ok_def emptyNode_def)
  moreover have "covered C {?r} ?r (pc_trie ?c)" using t by (auto simp: covered_def snap_in_def emptyNode_def)
  moreover have "active (th_heap (pc_trie ?c)) ?r (pc_activePath ?c) []" using t(6) by (simp add: active_def)
  moreover have "on_path H 0 (pc_caches ?c) []" using all_hold_on_path[OF c(3)] t(4) by simp
  ultimately have "pc_inv H C sz {?r} ?r [] ?c" using c(2) t(4,5) by (simp add: pc_inv_def pc_core_def)
  then show ?thesis by blast
qed

lemma ensureRoot_simps [simp]:
  "pc_caches (ensureRoot clock c) = pc_caches c" "pc_draftLookahead (ensureRoot clock c) = pc_draftLookahead c"
  by (simp_all add: ensureRoot_def Let_def)

text \<open>What a search from the root finds.\<close>

lemma findBestMatch_path:
  assumes "trie_ok N r h" "findBestMatch h (Some r) keys = (path, m)"
  obtains p where "path = r # p" "walk h r p" "m \<le> length keys" "m \<le> length (along h p)" "take m (along h p) = take m keys"
    "\<And>k. k \<le> length keys \<Longrightarrow> take k keys \<in> stored h r \<Longrightarrow> k \<le> m" "\<And>k. k \<le> m \<Longrightarrow> take k keys \<in> stored h r"
proof -
  obtain p where p: "find_from h r keys = (p, m)" "path = r # p"
    using assms(2) by (auto simp: findBestMatch_def split: prod.splits)
  have rN: "r \<in> N" using assms(1) by (simp add: trie_ok_def)
  have im: "walk h r p" "m \<le> length keys" "prefix (take m keys) (along h p)"
    "\<And>k. k \<le> length keys \<Longrightarrow> take k keys \<in> stored h r \<Longrightarrow> k \<le> m"
    using find_from_match[OF assms(1) rN p(1)] by (auto simp: is_match_def)
  obtain zs where zs: "along h p = take m keys @ zs" using im(3) by (auto simp: prefix_def)
  have "m \<le> length (along h p)" "take m (along h p) = take m keys" using zs im(2) by simp_all
  moreover have "take k keys \<in> stored h r" if "k \<le> m" for k
  proof -
    have "prefix (take k keys) (take m keys)" using take_is_prefix[of k "take m keys"] that by (simp add: min_def)
    then show ?thesis using stored_prefix[OF walk_stored[OF im(1)]] im(3) prefix_order.trans by blast
  qed
  ultimately show thesis using that[of p] p(2) im by blast
qed

text \<open>Where \<open>begin\<close> wants to resume: behind the longest match that leaves a token and is not inside an item.\<close>

definition begin_match :: "(nat \<Rightarrow> ('k, 's) trieNode) \<Rightarrow> nat option \<Rightarrow> 'k list \<Rightarrow> nat \<Rightarrow> mediaItem list \<Rightarrow> nat list \<times> nat" where
  "begin_match h root keys len items =
     (let m1 = findBestMatch h root keys;
          m2 = (if snd m1 = len \<and> 0 < snd m1 then findBestMatch h root (take (snd m1 - 1) keys) else m1)
      in (case insideAtomicItem items (snd m2) of
            None \<Rightarrow> m2
          | Some item \<Rightarrow> findBestMatch h root (take (mi_pos item) keys)))"

lemma begin_match_path:
  assumes "trie_ok N r h" "begin_match h (Some r) keys len items = (path, m)" "length keys \<le> len"
  obtains p where "path = r # p" "walk h r p" "m \<le> length keys" "m \<le> length (along h p)" "take m (along h p) = take m keys"
    "0 < len \<Longrightarrow> m < len" "apart items \<Longrightarrow> insideAtomicItem items m = None"
proof -
  let ?find = "findBestMatch h (Some r)"
  have short: "\<exists>p. path = r # p \<and> walk h r p \<and> m \<le> k \<and> m \<le> length (along h p) \<and> take m (along h p) = take m keys \<and>
      (\<forall>j\<le>k. take j keys \<in> stored h r \<longrightarrow> j \<le> m) \<and> (\<forall>j\<le>m. take j keys \<in> stored h r)"
    if f: "?find (take k keys) = (path, m)" "k \<le> length keys" for path m k
  proof (rule findBestMatch_path[OF assms(1) f(1)], goal_cases)
    case (1 p)
    then have m: "m \<le> k" by simp
    have "take j keys \<in> stored h r \<longrightarrow> j \<le> m" if "j \<le> k" for j using 1(6)[of j] that f(2) by (simp add: min_absorb1)
    moreover have "take j keys \<in> stored h r" if "j \<le> m" for j using 1(7)[of j] that m by (simp add: min_absorb1)
    moreover have "take m (along h p) = take m keys" using 1(5) m by (simp add: min_absorb1)
    ultimately show ?thesis using 1(1,2,4) m by blast
  qed
  obtain path1 m1 where f1: "?find (take (length keys) keys) = (path1, m1)" by fastforce
  have s1: "m1 \<le> length keys" using short[OF f1] by blast
  define m2 where "m2 = (if m1 = len \<and> 0 < m1 then ?find (take (m1 - 1) keys) else (path1, m1))"
  define k where "k = (if m1 = len \<and> 0 < m1 then m1 - 1 else length keys)"
  have k: "k \<le> length keys" "m2 = ?find (take k keys)" using s1 f1 by (auto simp: k_def m2_def)
  obtain path2 mm2 where f2: "?find (take k keys) = (path2, mm2)" by fastforce
  note s2 = short[OF f2 k(1)]
  have lt2: "mm2 < len" if "0 < len"
  proof (cases "m1 = len \<and> 0 < m1")
    case True
    then show ?thesis using s2 by (auto simp: k_def)
  next
    case False
    then have "k = length keys" by (auto simp: k_def)
    then have "mm2 = m1" using f1 f2 by simp
    then show ?thesis using False s1 that assms(3) by linarith
  qed
  have bm: "begin_match h (Some r) keys len items =
      (case insideAtomicItem items mm2 of None \<Rightarrow> (path2, mm2) | Some item \<Rightarrow> ?find (take (mi_pos item) keys))"
  proof -
    have f: "?find keys = (path1, m1)" using f1 by simp
    have "begin_match h (Some r) keys len items =
        (case insideAtomicItem items (snd m2) of None \<Rightarrow> m2 | Some item \<Rightarrow> ?find (take (mi_pos item) keys))"
      unfolding begin_match_def Let_def f snd_conv m2_def ..
    moreover have "m2 = (path2, mm2)" using f2 k(2) by simp
    ultimately show ?thesis by (simp split: option.split)
  qed
  show thesis
  proof (cases "insideAtomicItem items mm2")
    case None
    then have "path = path2" "m = mm2" using bm assms(2) by simp_all
    with s2 obtain p where "path = r # p" "walk h r p" "m \<le> k" "m \<le> length (along h p)" "take m (along h p) = take m keys"
      by blast
    note p = this
    show ?thesis by (rule that[of p]) (use p k(1) lt2 None \<open>m = mm2\<close> in auto)
  next
    case (Some item)
    note it = insideAtomicItem_Some[OF Some]
    have pos: "mi_pos item \<le> length keys" using it s2 k(1) by (meson order_trans less_imp_le)
    have f3: "?find (take (mi_pos item) keys) = (path, m)" using bm assms(2) Some by simp
    note s3 = short[OF f3 pos]
    have "take (mi_pos item) keys \<in> stored h r" using s2 it by (meson less_imp_le)
    then have m: "m = mi_pos item" using s3 by (meson le_antisym order_refl)
    have "insideAtomicItem items m = None" if "apart items"
    proof (rule ccontr)
      assume "insideAtomicItem items m \<noteq> None"
      then obtain y where y: "insideAtomicItem items m = Some y" by auto
      note iy = insideAtomicItem_Some[OF y]
      then have "y \<noteq> item" using m by auto
      then have "mi_pos y + mi_length y \<le> mi_pos item \<or> mi_pos item + mi_length item \<le> mi_pos y"
        using that it iy unfolding apart_def by blast
      then show False using iy it m by linarith
    qed
    moreover obtain p where p: "path = r # p" "walk h r p" "m \<le> length (along h p)" "take m (along h p) = take m keys"
      using s3 by blast
    moreover have "m < len" if "0 < len" using lt2[OF that] it m by simp
    moreover have "m \<le> length keys" using m pos by simp
    ultimately show ?thesis by (intro that[of p])
  qed
qed

text \<open>What a request starts from.\<close>

lemma begin_session_core:
  assumes ready: "pc_ready H C sz c" and ins: "effectiveKeyTokens inputs items = Some eff" "key (pc_draftLookahead c) eff = Some keys"
  shows "\<exists>s c' N r v. begin_session sz clock inputs items c = Some (s, c') \<and> pc_inv H C sz N r v c' \<and>
    pc_draftLookahead c' = pc_draftLookahead c \<and> ops_of (pc_caches c') = ops_of (pc_caches c) \<and>
    (let p = minCacheOffset c' in all_hold H 0 (pc_caches c') (take p keys) \<and> p \<le> length keys \<and>
      (inputs \<noteq> [] \<longrightarrow> p < length inputs) \<and> prefix v keys \<and> p \<le> length v \<and> (p = length v \<or> p = 0) \<and>
      cs_inputs s = inputs \<and> cs_effInputs s = eff \<and> cs_items s = items \<and> cs_outputs s = [] \<and>
      cs_remaining s = drop p inputs \<and>
      (cs_pending s = [] \<or> (\<exists>m. cs_pending s = [(m, False)] \<and> p < m \<and> m \<le> length keys \<and> room p v m \<and>
         (apart items \<longrightarrow> insideAtomicItem items m = None))))"
proof -
  let ?c0 = "ensureRoot clock c"
  let ?h = "th_heap (pc_trie ?c0)"
  obtain N r v where inv: "pc_inv H C sz N r v ?c0" using ensureRoot_inv[OF ready] by blast
  have core: "pc_core H C sz N r v ?c0" using inv by (simp add: pc_inv_def)
  note parts = pc_core_parts[OF core]
  obtain path m where bm: "begin_match ?h (Some r) keys (length inputs) items = (path, m)" by fastforce
  have lens: "length eff = length inputs" "length keys \<le> length inputs"
    using fold_items_length[of items inputs eff] ins key_length by (fastforce simp: effectiveKeyTokens_def)+
  obtain p where p: "path = r # p" "walk ?h r p" "m \<le> length keys" "m \<le> length (along ?h p)"
    "take m (along ?h p) = take m keys" "0 < length inputs \<Longrightarrow> m < length inputs"
    "apart items \<Longrightarrow> insideAtomicItem items m = None"
    using begin_match_path[OF parts(7) bm lens(2)] by blast
  obtain c1 N1 v1 where c1: "switchToPath sz clock (r # p) m ?c0 = Some c1" "pc_inv H C sz N1 r v1 c1"
    "prefix v1 (take m (along ?h p))" "pc_draftLookahead c1 = pc_draftLookahead ?c0"
    "all_hold H 0 (pc_caches c1) v1 \<or> all_hold H 0 (pc_caches c1) []" "ops_of (pc_caches c1) = ops_of (pc_caches ?c0)"
    using switchToPath_inv[OF inv p(2,4)] by blast
  define q where "q = minCacheOffset c1"
  have law: "lawful_layers H C (pc_caches c1)" using c1(2) by (auto simp: pc_inv_def pc_core_def)
  have v1: "prefix v1 keys" "length v1 \<le> m"
    using c1(3) p(3,5) take_is_prefix[of m keys] prefix_length_le[OF c1(3)] prefix_order.trans by auto
  have q: "q \<le> length v1" "all_hold H 0 (pc_caches c1) (take q keys)" "q = length v1 \<or> q = 0"
  proof -
    have v1': "v1 = take (length v1) keys" using v1(1) by (auto simp: prefix_def)
    have "q = (if min_offset (pc_caches c1) = None then 0 else length v1) \<and> all_hold H 0 (pc_caches c1) v1 \<or>
        q = 0 \<and> all_hold H 0 (pc_caches c1) []"
      using c1(5)
    proof
      assume h: "all_hold H 0 (pc_caches c1) v1"
      then show ?thesis using all_hold_offset[OF law h] by (simp add: q_def)
    next
      assume h: "all_hold H 0 (pc_caches c1) []"
      then show ?thesis using all_hold_offset[OF law h] by (simp add: q_def)
    qed
    moreover have "all_hold H 0 (pc_caches c1) w" if "min_offset (pc_caches c1) = None" for w
      unfolding all_hold_def by (rule no_layers[OF that])
    ultimately show "q \<le> length v1" "all_hold H 0 (pc_caches c1) (take q keys)" "q = length v1 \<or> q = 0"
      using v1' by (auto split: if_splits)
  qed
  have qm: "q \<le> m" using q(1) v1(2) by simp
  have qlen: "inputs \<noteq> [] \<longrightarrow> q < length inputs" using qm p(6) by auto
  have room: "room q v1 m" if "q < m" using q(1,3) v1(2) that by (auto simp: room_def)
  define pend where "pend = (if q < m then [(m, False)] else [])"
  define s where "s = \<lparr>cs_inputs = inputs, cs_effInputs = eff, cs_items = items, cs_outputs = [],
                    cs_remaining = drop q inputs, cs_pending = pend\<rparr>"
  have "begin_session sz clock inputs items c = do {
      let m3 = begin_match ?h (pc_root ?c0) keys (length inputs) items;
      c1 \<leftarrow> switchToPath sz clock (fst m3) (snd m3) ?c0;
      let prefix = minCacheOffset c1;
        if length inputs < prefix then None
        else Some (\<lparr>cs_inputs = inputs, cs_effInputs = eff, cs_items = items, cs_outputs = [],
                    cs_remaining = drop prefix inputs,
                    cs_pending = (if prefix < snd m3 then [(snd m3, False)] else [])\<rparr>, c1)}"
    using ins by (simp add: begin_session_def begin_match_def Let_def)
  also have "\<dots> = Some (s, c1)"
    using bm c1(1) parts(1) p(1,3) qm lens(2) by (simp add: s_def pend_def q_def Let_def)
  finally have "begin_session sz clock inputs items c = Some (s, c1)" .
  then show ?thesis using c1(2,4,6) q qm p(3) qlen v1(1) p(7) room
    by (intro exI[of _ s] exI[of _ c1] exI[of _ N1] exI[of _ r] exI[of _ v1])
      (simp add: Let_def q_def[symmetric] s_def pend_def)
qed

end
