(* ===== verification/RecurrentCache.thy ===== *)
theory RecurrentCache
  imports CacheLayers
begin

text \<open>
  \<^verbatim>\<open>mlxrunner/cache/recurrent.go\<close>: the cache of a linear-recurrent layer. Its state sums up all tokens so
  far, so it cannot be cut at a position: a snapshot is the state at one offset, and the states inside a
  forward pass exist only where the kernel is run in segments.

  The arrays \<open>convState\<close> and \<open>deltaState\<close> are set together and read together; here they are one value
  (a \<^verbatim>\<open>nil\<close> pair is \<open>None\<close>), so the check that their lists have one length has nothing to reject. The
  shapes and types of the arrays, which \<open>Get\<close> checks against the batch, are not part of the model, nor is
  the scope that owns them. A panic is \<open>None\<close>.
\<close>

section \<open>The cache\<close>

record 'a recurrentSnapshot =
  rs_state :: 'a
  rs_offset :: nat

record 'a RecurrentCache =
  rc_state :: "'a option"
  rc_offset :: nat
  rc_snapshots :: "'a recurrentSnapshot pendingSnapshots"

definition NewRecurrentCache :: "'a RecurrentCache" where
  "NewRecurrentCache = \<lparr>rc_state = None, rc_offset = 0, rc_snapshots = no_pending\<rparr>"

definition newRecurrentSnapshot :: "'a \<Rightarrow> nat \<Rightarrow> 'a recurrentSnapshot" where
  "newRecurrentSnapshot s off = \<lparr>rs_state = s, rs_offset = off\<rparr>"

definition rc_captureBoundary :: "nat \<Rightarrow> 'a option \<Rightarrow> 'a RecurrentCache \<Rightarrow> 'a RecurrentCache" where
  "rc_captureBoundary reached state c =
     c\<lparr>rc_snapshots :=
        fst (captureReached reached (\<lambda>u. (map_option (\<lambda>s. newRecurrentSnapshot s reached) state, u))
               (rc_snapshots c) ())\<rparr>"

definition rc_PrepareSnapshots :: "nat list \<Rightarrow> 'a RecurrentCache \<Rightarrow> 'a RecurrentCache option" where
  "rc_PrepareSnapshots offsets c =
     map_option (\<lambda>p. rc_captureBoundary (rc_offset c) (rc_state c) (c\<lparr>rc_snapshots := p\<rparr>))
       (pd_prepare (rc_offset c) offsets (rc_snapshots c))"

definition rc_TakeSnapshots :: "'a RecurrentCache \<Rightarrow> 'a recurrentSnapshot option list \<times> 'a RecurrentCache" where
  "rc_TakeSnapshots c = (case pd_take (rc_snapshots c) of (out, p) \<Rightarrow> (out, c\<lparr>rc_snapshots := p\<rparr>))"

definition rc_SnapshotSplits :: "nat \<Rightarrow> 'a RecurrentCache \<Rightarrow> nat list" where
  "rc_SnapshotSplits forwardLen c =
     (let start = rc_offset c; e = start + forwardLen
      in map (\<lambda>x. x - start) (filter (\<lambda>x. start < x \<and> x < e) (pd_offsets (rc_snapshots c))))"

text \<open>\<open>Get\<close> sets zeros up on the first call.\<close>

definition rc_Get :: "'a \<Rightarrow> 'a RecurrentCache \<Rightarrow> 'a \<times> 'a RecurrentCache" where
  "rc_Get zeros c = (case rc_state c of Some s \<Rightarrow> (s, c) | None \<Rightarrow> (zeros, c\<lparr>rc_state := Some zeros\<rparr>))"

definition rc_Put :: "nat \<Rightarrow> 'a list \<Rightarrow> 'a RecurrentCache \<Rightarrow> 'a RecurrentCache option" where
  "rc_Put len states c =
     (if states = [] then None
      else (let start = rc_offset c; splits = rc_SnapshotSplits len c
            in if length splits \<noteq> length states - 1 then None
               else (let c1 = fold (\<lambda>(s, state). rc_captureBoundary (start + s) (Some state)) (zip splits states) c;
                         c2 = c1\<lparr>rc_state := Some (last states), rc_offset := start + len\<rparr>
                     in Some (rc_captureBoundary (rc_offset c2) (rc_state c2) c2))))"

definition rc_Snapshot :: "nat \<Rightarrow> 'a RecurrentCache \<Rightarrow> 'a recurrentSnapshot option" where
  "rc_Snapshot fromOffset c = map_option (\<lambda>s. newRecurrentSnapshot s (rc_offset c)) (rc_state c)"

definition rc_Restore :: "'a recurrentSnapshot option \<Rightarrow> nat \<Rightarrow> 'a RecurrentCache \<Rightarrow> bool \<times> 'a RecurrentCache" where
  "rc_Restore snapshot target c =
     (case snapshot of
        None \<Rightarrow> (target = rc_offset c, c)
      | Some snap \<Rightarrow>
          if target \<noteq> rs_offset snap then (False, c)
          else (True, c\<lparr>rc_state := Some (rs_state snap), rc_offset := rs_offset snap\<rparr>))"

definition rc_Merge ::
  "'a recurrentSnapshot option \<Rightarrow> 'a recurrentSnapshot option \<Rightarrow> 'a recurrentSnapshot option" where
  "rc_Merge parent child = child"

definition rc_Split ::
  "'a recurrentSnapshot \<Rightarrow> nat \<Rightarrow> 'a recurrentSnapshot option \<times> 'a recurrentSnapshot option" where
  "rc_Split snapshot at = (None, Some snapshot)"

definition rc_Free :: "'a RecurrentCache \<Rightarrow> 'a RecurrentCache" where
  "rc_Free c = c\<lparr>rc_state := None, rc_offset := 0, rc_snapshots := no_pending\<rparr>"

section \<open>The contract of a layer\<close>

definition rc_ops :: "('a RecurrentCache, 'a recurrentSnapshot) cache_ops" where
  "rc_ops = \<lparr>co_Offset = rc_offset, co_Free = rc_Free, co_Snapshot = rc_Snapshot, co_Restore = rc_Restore,
     co_Merge = rc_Merge, co_Split = rc_Split, co_PrepareSnapshots = rc_PrepareSnapshots,
     co_TakeSnapshots = rc_TakeSnapshots\<rparr>"

text \<open>Before the first token the state is the zero state, or is not there yet.\<close>

definition rc_holds :: "('k list \<Rightarrow> 'a) \<Rightarrow> 'a RecurrentCache \<Rightarrow> 'k list \<Rightarrow> bool" where
  "rc_holds state_of c w \<longleftrightarrow> rc_offset c = length w \<and>
     (rc_state c = Some (state_of w) \<or> (w = [] \<and> rc_state c = None))"

definition rc_covers :: "('k list \<Rightarrow> 'a) \<Rightarrow> 'a recurrentSnapshot \<Rightarrow> nat \<Rightarrow> 'k list \<Rightarrow> bool" where
  "rc_covers state_of s a w \<longleftrightarrow> s = newRecurrentSnapshot (state_of w) (length w)"

interpretation rc: cache_layer rc_ops "rc_holds state_of" "rc_covers state_of"
  by unfold_locales
    (auto simp: rc_ops_def rc_holds_def rc_covers_def rc_Restore_def rc_Snapshot_def rc_Free_def rc_Split_def
      rc_Merge_def newRecurrentSnapshot_def split: option.splits if_splits)

section \<open>Captures\<close>

text \<open>The slots of a schedule, by what each offset has captured.\<close>

abbreviation slots :: "(nat \<Rightarrow> 's option) \<Rightarrow> nat list \<Rightarrow> (nat \<times> 's option) list" where
  "slots f xs \<equiv> map (\<lambda>x. (x, f x)) xs"

lemma capture_slots_pure:
  "capture_slots reached (\<lambda>u. (s, u)) (slots f xs) st =
     (\<exists>x\<in>set xs. f x = None \<and> x = reached, slots (\<lambda>x. if f x = None \<and> x = reached then s else f x) xs, st)"
  by (induction xs) auto

lemma captureBoundary_slots:
  assumes "pd_slots (rc_snapshots c) = Some (slots f xs)"
  shows "pd_slots (rc_snapshots (rc_captureBoundary b (Some s) c)) =
      Some (slots (\<lambda>x. if f x = None \<and> x = b then Some (newRecurrentSnapshot s b) else f x) xs)"
    "rc_state (rc_captureBoundary b st c) = rc_state c" "rc_offset (rc_captureBoundary b st c) = rc_offset c"
  using assms by (auto simp: rc_captureBoundary_def captureReached_def capture_slots_pure)

lemma captureBoundaries_slots:
  assumes "pd_slots (rc_snapshots c) = Some (slots f xs)"
  shows "pd_slots (rc_snapshots (fold (\<lambda>(s, state). rc_captureBoundary (start + s) (Some state))
        (map (\<lambda>b. (b, g (start + b))) bs) c)) =
      Some (slots (\<lambda>x. if f x = None \<and> x \<in> (+) start ` set bs then Some (newRecurrentSnapshot (g x) x) else f x) xs)"
  using assms
proof (induction bs arbitrary: c f)
  case (Cons b bs)
  let ?f = "\<lambda>x. if f x = None \<and> x = start + b then Some (newRecurrentSnapshot (g (start + b)) (start + b)) else f x"
  have "pd_slots (rc_snapshots (rc_captureBoundary (start + b) (Some (g (start + b))) c)) = Some (slots ?f xs)"
    by (rule captureBoundary_slots(1)[OF Cons.prems])
  note IH = Cons.IH[OF this]
  show ?case by (simp add: IH del: map_eq_conv) (auto simp: map_eq_conv)
qed simp

text \<open>What the model computes in one forward pass over tokens, and in several.\<close>

definition rc_forward :: "('k list \<Rightarrow> 'a) \<Rightarrow> 'k list \<Rightarrow> 'k list \<Rightarrow> 'a RecurrentCache \<Rightarrow> 'a RecurrentCache option" where
  "rc_forward state_of w ts c =
     rc_Put (length ts)
       (map (\<lambda>b. state_of (w @ take b ts)) (rc_SnapshotSplits (length ts) c) @ [state_of (w @ ts)]) c"

fun rc_forwards :: "('k list \<Rightarrow> 'a) \<Rightarrow> 'k list \<Rightarrow> 'k list list \<Rightarrow> 'a RecurrentCache \<Rightarrow> 'a RecurrentCache option" where
  "rc_forwards state_of w [] c = Some c"
| "rc_forwards state_of w (ts # tss) c =
     (case rc_forward state_of w ts c of None \<Rightarrow> None | Some c1 \<Rightarrow> rc_forwards state_of (w @ ts) tss c1)"

text \<open>The snapshot a scheduled offset gets once \<open>w\<close> is evaluated; \<open>no\<close> is an offset without one.\<close>

definition rc_capture :: "('k list \<Rightarrow> 'a) \<Rightarrow> 'k list \<Rightarrow> nat option \<Rightarrow> nat \<Rightarrow> 'a recurrentSnapshot option" where
  "rc_capture state_of w no x =
     (if x \<le> length w \<and> no \<noteq> Some x then Some (newRecurrentSnapshot (state_of (take x w)) x) else None)"

lemma zip_map_snoc: "zip xs (map f xs @ [y]) = map (\<lambda>x. (x, f x)) xs"
  by (induction xs) auto

lemma captureBoundaries_rest [simp]:
  "rc_state (fold (\<lambda>(s, state). rc_captureBoundary (start + s) (Some state)) bs c) = rc_state c"
  "rc_offset (fold (\<lambda>(s, state). rc_captureBoundary (start + s) (Some state)) bs c) = rc_offset c"
  by (induction bs arbitrary: c) (auto simp: rc_captureBoundary_def)

lemma splits_set:
  assumes "pd_slots (rc_snapshots c) = Some (slots f xs)" "rc_offset c = n"
  shows "(+) n ` set (rc_SnapshotSplits l c) = {x \<in> set xs. n < x \<and> x < n + l}"
proof -
  have "set (rc_SnapshotSplits l c) = (\<lambda>x. x - n) ` {x \<in> set xs. n < x \<and> x < n + l}"
    using assms by (auto simp: rc_SnapshotSplits_def pd_offsets_def)
  then show ?thesis by (auto simp: image_image intro!: image_eqI)
qed

lemma rc_forward_slots:
  assumes "rc_holds state_of c w" "pd_slots (rc_snapshots c) = Some (slots (rc_capture state_of w no) xs)"
    "\<forall>x. no = Some x \<longrightarrow> x \<le> length w" "ts \<noteq> []"
  shows "\<exists>c'. rc_forward state_of w ts c = Some c' \<and> rc_holds state_of c' (w @ ts) \<and>
    pd_slots (rc_snapshots c') = Some (slots (rc_capture state_of (w @ ts) no) xs)"
proof -
  let ?n = "length w" and ?l = "length ts" and ?v = "w @ ts"
  let ?B = "rc_SnapshotSplits ?l c"
  have off: "rc_offset c = ?n" using assms(1) by (simp add: rc_holds_def)
  define g where "g = (\<lambda>x. state_of (take x ?v))"
  have g: "(\<lambda>b. state_of (w @ take b ts)) = (\<lambda>b. g (?n + b))" by (simp add: g_def)
  define c1 where "c1 = fold (\<lambda>(s, state). rc_captureBoundary (?n + s) (Some state)) (map (\<lambda>b. (b, g (?n + b))) ?B) c"
  define c2 where "c2 = c1\<lparr>rc_state := Some (state_of ?v), rc_offset := ?n + ?l\<rparr>"
  define c3 where "c3 = rc_captureBoundary (?n + ?l) (Some (state_of ?v)) c2"
  define f1 where "f1 = (\<lambda>x. if rc_capture state_of w no x = None \<and> x \<in> (+) ?n ` set ?B
      then Some (newRecurrentSnapshot (g x) x) else rc_capture state_of w no x)"
  have run: "rc_forward state_of w ts c = Some c3"
    using off by (simp add: rc_forward_def rc_Put_def Let_def g zip_map_snoc c1_def c2_def c3_def)
  have "pd_slots (rc_snapshots c2) = Some (slots f1 xs)"
    unfolding f1_def using captureBoundaries_slots[OF assms(2), of ?n g ?B] by (simp add: c1_def c2_def)
  then have "pd_slots (rc_snapshots c3) = Some (slots
      (\<lambda>x. if f1 x = None \<and> x = ?n + ?l then Some (newRecurrentSnapshot (state_of ?v) (?n + ?l)) else f1 x) xs)"
    unfolding c3_def by (rule captureBoundary_slots(1))
  moreover have "(if f1 x = None \<and> x = ?n + ?l then Some (newRecurrentSnapshot (state_of ?v) (?n + ?l)) else f1 x)
      = rc_capture state_of ?v no x" if "x \<in> set xs" for x
    using assms(3,4) that unfolding f1_def splits_set[OF assms(2) off] g_def
    by (auto simp: rc_capture_def)
  ultimately have "pd_slots (rc_snapshots c3) = Some (slots (rc_capture state_of ?v no) xs)" by simp
  moreover have "rc_holds state_of c3 ?v" by (simp add: c3_def c2_def rc_holds_def rc_captureBoundary_def)
  ultimately show ?thesis using run by blast
qed

lemma rc_forwards_slots:
  "rc_holds state_of c w \<Longrightarrow> pd_slots (rc_snapshots c) = Some (slots (rc_capture state_of w no) xs) \<Longrightarrow>
     \<forall>x. no = Some x \<longrightarrow> x \<le> length w \<Longrightarrow> [] \<notin> set tss \<Longrightarrow>
   \<exists>c'. rc_forwards state_of w tss c = Some c' \<and> rc_holds state_of c' (w @ concat tss) \<and>
     pd_slots (rc_snapshots c') = Some (slots (rc_capture state_of (w @ concat tss) no) xs)"
proof (induction tss arbitrary: w c)
  case (Cons ts tss)
  obtain c1 where c1: "rc_forward state_of w ts c = Some c1" "rc_holds state_of c1 (w @ ts)"
    "pd_slots (rc_snapshots c1) = Some (slots (rc_capture state_of (w @ ts) no) xs)"
    using rc_forward_slots[OF Cons.prems(1,2,3), of ts] Cons.prems(4) by auto
  have "\<forall>x. no = Some x \<longrightarrow> x \<le> length (w @ ts)" using Cons.prems(3) by auto
  from Cons.IH[OF c1(2,3) this] show ?case using c1(1) Cons.prems(4) by auto
qed auto

lemma rc_prepare_slots:
  assumes "rc_holds state_of c w" "pd_slots (rc_snapshots c) = None" "sorted_wrt (<) xs" "\<forall>x\<in>set xs. length w \<le> x"
  shows "\<exists>c'. rc_PrepareSnapshots xs c = Some c' \<and> rc_holds state_of c' w \<and>
    pd_slots (rc_snapshots c') =
      Some (slots (rc_capture state_of w (if rc_state c = None then Some (length w) else None)) xs)"
proof -
  have off: "rc_offset c = length w" using assms(1) by (simp add: rc_holds_def)
  define p :: "'b recurrentSnapshot pendingSnapshots"
    where "p = \<lparr>pd_slots = Some (slots (\<lambda>_. None) xs), pd_base = length w\<rparr>"
  have p: "pd_prepare (rc_offset c) xs (rc_snapshots c) = Some p"
    using assms off by (auto simp: pd_prepare_def p_def check_offsets_iff)
  define c' where "c' = rc_captureBoundary (rc_offset c) (rc_state c) (c\<lparr>rc_snapshots := p\<rparr>)"
  have "pd_slots (rc_snapshots c') = Some (slots (\<lambda>x. if x = length w then map_option (\<lambda>s. newRecurrentSnapshot s x) (rc_state c) else None) xs)"
    using off by (simp add: c'_def rc_captureBoundary_def captureReached_def p_def capture_slots_pure)
  moreover have "(if x = length w then map_option (\<lambda>s. newRecurrentSnapshot s x) (rc_state c) else None)
      = rc_capture state_of w (if rc_state c = None then Some (length w) else None) x" if "x \<in> set xs" for x
    using assms(1,4) that by (auto simp: rc_capture_def rc_holds_def)
  ultimately have "pd_slots (rc_snapshots c') =
      Some (slots (rc_capture state_of w (if rc_state c = None then Some (length w) else None)) xs)" by simp
  moreover have "rc_holds state_of c' w" using assms(1) by (simp add: rc_holds_def c'_def rc_captureBoundary_def)
  ultimately show ?thesis using p by (auto simp: rc_PrepareSnapshots_def c'_def)
qed

section \<open>Properties\<close>

text \<open>
  C23. A recurrent layer that holds the state of \<open>w\<close> and is asked to capture snapshots at an ascending
  schedule of offsets that it has not passed, and then evaluates tokens in any number of forward passes,
  holds the state of \<open>w\<close> and all those tokens, and \<open>TakeSnapshots\<close> returns for every scheduled offset it
  reached the state of exactly that many tokens (an offset at the very start of a layer that has no state
  yet gets none), and nothing for the others; none of the calls panics, and the schedule is drained.
\<close>

theorem rc_captures:
  assumes "rc_holds state_of c w" "pd_slots (rc_snapshots c) = None" "sorted_wrt (<) xs"
    "\<forall>x\<in>set xs. length w \<le> x" "[] \<notin> set tss"
  shows "\<exists>c1 c2 c3. rc_PrepareSnapshots xs c = Some c1 \<and> rc_forwards state_of w tss c1 = Some c2 \<and>
    rc_TakeSnapshots c2 =
      (map (rc_capture state_of (w @ concat tss) (if rc_state c = None then Some (length w) else None)) xs, c3) \<and>
    rc_holds state_of c3 (w @ concat tss) \<and> pd_slots (rc_snapshots c3) = None"
proof -
  let ?no = "if rc_state c = None then Some (length w) else None"
  obtain c1 where c1: "rc_PrepareSnapshots xs c = Some c1" "rc_holds state_of c1 w"
    "pd_slots (rc_snapshots c1) = Some (slots (rc_capture state_of w ?no) xs)"
    using rc_prepare_slots[OF assms(1-4)] by blast
  have "\<forall>x. ?no = Some x \<longrightarrow> x \<le> length w" by simp
  from rc_forwards_slots[OF c1(2,3) this assms(5)] obtain c2 where c2: "rc_forwards state_of w tss c1 = Some c2"
    "rc_holds state_of c2 (w @ concat tss)"
    "pd_slots (rc_snapshots c2) = Some (slots (rc_capture state_of (w @ concat tss) ?no) xs)"
    by blast
  show ?thesis using c1(1) c2 by (auto simp: rc_TakeSnapshots_def pd_take_def rc_holds_def comp_def)
qed

text \<open>A layer whose state is the sum of its tokens: 2 tokens, a schedule of 2, 4 and 9, and passes of 3 and 1.\<close>

theorem rc_captures_witness:
  "\<exists>c1 c2 c3. rc_PrepareSnapshots [2, 4, 9] \<lparr>rc_state = Some 3, rc_offset = 2, rc_snapshots = no_pending\<rparr> = Some c1 \<and>
    rc_forwards (sum_list :: nat list \<Rightarrow> nat) [1, 2] [[3, 4, 5], [6]] c1 = Some c2 \<and>
    rc_TakeSnapshots c2 = ([Some \<lparr>rs_state = 3, rs_offset = 2\<rparr>, Some \<lparr>rs_state = 10, rs_offset = 4\<rparr>, None], c3) \<and>
    rc_holds sum_list c3 [1, 2, 3, 4, 5, 6]"
  using rc_captures[of "sum_list :: nat list \<Rightarrow> nat" "\<lparr>rc_state = Some 3, rc_offset = 2, rc_snapshots = no_pending\<rparr>"
      "[1, 2]" "[2, 4, 9]" "[[3, 4, 5], [6]]"]
  by (auto simp: rc_holds_def no_pending_def rc_capture_def newRecurrentSnapshot_def)

end
