(* ===== verification/PrefixCacheServe.thy ===== *)
theory PrefixCacheServe
  imports PrefixCacheSession RecurrentCache
begin

text \<open>
  The prefix cache in use: layers that take part in whole sessions (the locale \<open>capturing_layer\<close>, with its
  interpretations for the key-value and the recurrent layer), requests served one after the other, and
  what holds in every state that this reaches.
\<close>

section \<open>Layers that evaluate and capture\<close>

text \<open>
  \<open>holds\<close> is a layer at rest, without a schedule; \<open>pending c b xs w\<close> one that holds \<open>w\<close> and was asked at
  offset \<open>b\<close> to capture at the offsets \<open>xs\<close>. \<open>feed w ts\<close> evaluates the tokens \<open>ts\<close> behind \<open>w\<close>.
\<close>

locale capturing_layer = cache_layer +
  fixes feed :: "'b list \<Rightarrow> 'b list \<Rightarrow> 'a \<Rightarrow> 'a option"
    and pending :: "'a \<Rightarrow> nat \<Rightarrow> nat list \<Rightarrow> 'b list \<Rightarrow> bool"
  assumes prepare: "holds c w \<Longrightarrow> sorted_wrt (<) xs \<Longrightarrow> \<forall>x\<in>set xs. length w \<le> x \<Longrightarrow>
      \<exists>c'. co_PrepareSnapshots ops xs c = Some c' \<and> pending c' (length w) xs w"
    and feed_rest: "holds c w \<Longrightarrow> ts \<noteq> [] \<Longrightarrow> \<exists>c'. feed w ts c = Some c' \<and> holds c' (w @ ts)"
    and feed_pending: "pending c b xs w \<Longrightarrow> ts \<noteq> [] \<Longrightarrow> \<exists>c'. feed w ts c = Some c' \<and> pending c' b xs (w @ ts)"
    and take_captures: "pending c b xs w \<Longrightarrow> co_TakeSnapshots ops c = (ss, c') \<Longrightarrow> holds c' w \<and> caught covers b xs w ss"
    and prepared_offset: "pending c b xs w \<Longrightarrow> co_Offset ops c = length w"
begin

text \<open>A whole prefill in several passes.\<close>

fun feeds :: "'b list \<Rightarrow> 'b list list \<Rightarrow> 'a \<Rightarrow> 'a option" where
  "feeds w [] c = Some c"
| "feeds w (ts # tss) c = (case feed w ts c of None \<Rightarrow> None | Some c1 \<Rightarrow> feeds (w @ ts) tss c1)"

lemma feeds_rest: "holds c w \<Longrightarrow> [] \<notin> set tss \<Longrightarrow> \<exists>c'. feeds w tss c = Some c' \<and> holds c' (w @ concat tss)"
proof (induction tss arbitrary: w c)
  case (Cons ts tss)
  obtain c1 where "feed w ts c = Some c1" "holds c1 (w @ ts)" using feed_rest[OF Cons.prems(1), of ts] Cons.prems(2) by auto
  then show ?case using Cons.IH[of c1 "w @ ts"] Cons.prems(2) by auto
qed simp

lemma feeds_pending: "pending c b xs w \<Longrightarrow> [] \<notin> set tss \<Longrightarrow> \<exists>c'. feeds w tss c = Some c' \<and> pending c' b xs (w @ concat tss)"
proof (induction tss arbitrary: w c)
  case (Cons ts tss)
  obtain c1 where "feed w ts c = Some c1" "pending c1 b xs (w @ ts)"
    using feed_pending[OF Cons.prems(1), of ts] Cons.prems(2) by auto
  then show ?case using Cons.IH[of c1 "w @ ts"] Cons.prems(2) by auto
qed simp

end

section \<open>The recurrent layer\<close>

definition rc_rests :: "('k list \<Rightarrow> 'a) \<Rightarrow> 'a RecurrentCache \<Rightarrow> 'k list \<Rightarrow> bool" where
  "rc_rests state_of c w \<longleftrightarrow> rc_holds state_of c w \<and> pd_slots (rc_snapshots c) = None"

definition rc_pending :: "('k list \<Rightarrow> 'a) \<Rightarrow> 'a RecurrentCache \<Rightarrow> nat \<Rightarrow> nat list \<Rightarrow> 'k list \<Rightarrow> bool" where
  "rc_pending state_of c b xs w \<longleftrightarrow> rc_holds state_of c w \<and>
     (\<exists>no. (\<forall>x. no = Some x \<longrightarrow> x \<le> length w) \<and> pd_slots (rc_snapshots c) = Some (slots (rc_capture state_of w no) xs))"

lemma rc_forward_rest:
  assumes "rc_rests state_of c w" "ts \<noteq> []"
  shows "\<exists>c'. rc_forward state_of w ts c = Some c' \<and> rc_rests state_of c' (w @ ts)"
proof -
  have c: "rc_offset c = length w" "pd_slots (rc_snapshots c) = None" using assms(1) by (auto simp: rc_rests_def rc_holds_def)
  have "rc_SnapshotSplits (length ts) c = []" using c(2) by (simp add: rc_SnapshotSplits_def pd_offsets_def)
  then have "rc_forward state_of w ts c = Some (rc_captureBoundary (length w + length ts) (Some (state_of (w @ ts)))
      (c\<lparr>rc_state := Some (state_of (w @ ts)), rc_offset := length w + length ts\<rparr>))"
    using c by (simp add: rc_forward_def rc_Put_def Let_def)
  then show ?thesis using c(2) by (simp add: rc_rests_def rc_holds_def rc_captureBoundary_def captureReached_def)
qed

interpretation rcc: capturing_layer rc_ops "rc_rests state_of" "rc_covers state_of" "rc_forward state_of" "rc_pending state_of"
proof (unfold_locales, unfold rc_ops_def cache_ops.simps, goal_cases)
  case (9 c w xs)
  let ?no = "if rc_state c = None then Some (length w) else None"
  obtain c' where c': "rc_PrepareSnapshots xs c = Some c'" "rc_holds state_of c' w"
    "pd_slots (rc_snapshots c') = Some (slots (rc_capture state_of w ?no) xs)"
    using rc_prepare_slots[OF _ _ 9(2,3), of state_of c] 9(1) unfolding rc_rests_def by auto
  have "\<forall>x. ?no = Some x \<longrightarrow> x \<le> length w" by simp
  then show ?case using c' unfolding rc_pending_def by blast
next
  case (10 c w ts)
  then show ?case by (rule rc_forward_rest)
next
  case (11 c b xs w ts)
  then obtain no where no: "\<forall>x. no = Some x \<longrightarrow> x \<le> length w" "rc_holds state_of c w"
    "pd_slots (rc_snapshots c) = Some (slots (rc_capture state_of w no) xs)" by (auto simp: rc_pending_def)
  have "\<forall>x. no = Some x \<longrightarrow> x \<le> length (w @ ts)" using no(1) by auto
  then show ?case using rc_forward_slots[OF no(2,3,1) 11(2)] unfolding rc_pending_def by metis
next
  case (12 c b xs w ss c')
  then obtain no where no: "rc_holds state_of c w" "pd_slots (rc_snapshots c) = Some (slots (rc_capture state_of w no) xs)"
    by (auto simp: rc_pending_def)
  then show ?case using 12(2)
    by (auto simp: rc_TakeSnapshots_def pd_take_def rc_rests_def rc_holds_def caught_def rc_capture_def rc_covers_def min_absorb1
        split: if_splits)
next
  case (13 c b xs w)
  then show ?case by (simp add: rc_pending_def rc_holds_def)
qed (auto simp: rc_rests_def rc_holds_def rc_covers_def rc_Restore_def rc_Snapshot_def rc_Free_def rc_Split_def
      rc_Merge_def newRecurrentSnapshot_def no_pending_def split: option.splits if_splits)

section \<open>The key-value layer\<close>

text \<open>The entries the model computes for new tokens.\<close>

definition kl_forward :: "'v \<Rightarrow> ('k list \<Rightarrow> 'v) \<Rightarrow> 'k list \<Rightarrow> 'k list \<Rightarrow> 'v kvLayer \<Rightarrow> 'v kvLayer option" where
  "kl_forward z entry w ts c = Some (kl_Update z (drop (length w) (entries entry (w @ ts))) c)"

definition kl_rests :: "('k list \<Rightarrow> 'v) \<Rightarrow> 'v kvLayer \<Rightarrow> 'k list \<Rightarrow> bool" where
  "kl_rests entry c w \<longleftrightarrow> kl_holds entry c w \<and> pd_slots (kl_pending c) = None"

definition kl_captured :: "('k list \<Rightarrow> 'v) \<Rightarrow> 'v kvLayer \<Rightarrow> nat \<Rightarrow> nat list \<Rightarrow> 'k list \<Rightarrow> bool" where
  "kl_captured entry c b xs w \<longleftrightarrow> sorted_wrt (<) xs \<and> (\<forall>x\<in>set xs. b \<le> x) \<and> pd_base (kl_pending c) \<in> insert b (set xs) \<and>
     (\<exists>f. pd_slots (kl_pending c) = Some (slots f xs) \<and>
        (\<forall>x s. x \<in> set xs \<longrightarrow> f x = Some s \<longrightarrow> x \<le> length w \<and> (\<exists>a\<in>insert b (set xs). a < x \<and> kv_covers entry s a (take x w))))"

lemma kv_copy_covers:
  assumes "kv_holds entry bf w" "x \<le> length w" "kv_copy a x bf = Some s"
  shows "a < x \<and> kv_covers entry s a (take x w)"
proof -
  obtain b where b: "kv_keys bf = Some b" "a < x" "s = \<lparr>kc_keys = drop a (take x b), kc_fromOffset = a, kc_toOffset = x\<rparr>"
    using assms(3) by (auto simp: kv_copy_def split: option.splits if_splits)
  have "take (length w) b = entries entry w" using assms(1,2) b by (cases "w = []") (auto simp: kv_holds_def)
  then have "take x b = take x (entries entry w)" using assms(2) by (metis min.absorb1 take_take)
  then show ?thesis using b assms(2) by (simp add: kv_covers_def entries_take)
qed

lemma kl_capture_captured:
  assumes "kl_holds entry c w" "kl_captured entry c b xs w" "x \<in> set xs" "x \<le> length w"
  shows "kl_holds entry (kl_capture x c) w \<and> kl_captured entry (kl_capture x c) b xs w \<and> kl_buf (kl_capture x c) = kl_buf c"
proof -
  obtain f where f: "pd_slots (kl_pending c) = Some (slots f xs)"
    "\<And>x s. x \<in> set xs \<Longrightarrow> f x = Some s \<Longrightarrow> x \<le> length w \<and> (\<exists>a\<in>insert b (set xs). a < x \<and> kv_covers entry s a (take x w))"
    using assms(2) unfolding kl_captured_def by blast
  let ?snap = "kv_copy (pd_base (kl_pending c)) x (kl_buf c)"
  let ?f = "\<lambda>y. if f y = None \<and> y = x then ?snap else f y"
  have p: "pd_slots (kl_pending (kl_capture x c)) = Some (slots ?f xs)"
    "pd_base (kl_pending (kl_capture x c)) \<in> {x, pd_base (kl_pending c)}"
    using f(1) by (auto simp: kl_capture_def captureReached_def capture_slots_pure)
  have "y \<le> length w \<and> (\<exists>a\<in>insert b (set xs). a < y \<and> kv_covers entry s a (take y w))" if "y \<in> set xs" "?f y = Some s" for y s
  proof (cases "f y = None \<and> y = x")
    case True
    have "?snap = Some s" using that(2) unfolding if_P[OF True] .
    note cov = kv_copy_covers[OF assms(1,4) this]
    have "pd_base (kl_pending c) \<in> insert b (set xs)" using assms(2) unfolding kl_captured_def by blast
    then show ?thesis using cov True assms(4) by blast
  next
    case False
    then show ?thesis using f(2)[OF that(1)] that(2) by auto
  qed
  note ok = this
  have old: "sorted_wrt (<) xs" "\<forall>x\<in>set xs. b \<le> x" "pd_base (kl_pending c) \<in> insert b (set xs)"
    using assms(2) unfolding kl_captured_def by blast+
  then have base: "pd_base (kl_pending (kl_capture x c)) \<in> insert b (set xs)" using p(2) assms(3) by auto
  have "kl_captured entry (kl_capture x c) b xs w"
    unfolding kl_captured_def
    by (intro conjI exI[of _ ?f] allI impI) (fact base old(1,2) p(1) | rule ok[THEN conjunct1] ok[THEN conjunct2], assumption+)+
  then show ?thesis using assms(1) by (simp add: kl_capture_def)
qed

lemma kl_captures_captured:
  "kl_holds entry c w \<Longrightarrow> kl_captured entry c b xs w \<Longrightarrow> \<forall>x\<in>set ys. x \<in> set xs \<and> x \<le> length w \<Longrightarrow>
     kl_holds entry (fold kl_capture ys c) w \<and> kl_captured entry (fold kl_capture ys c) b xs w"
proof (induction ys arbitrary: c)
  case (Cons y ys)
  note step = kl_capture_captured[OF Cons.prems(1,2), of y]
  have "kl_holds entry (kl_capture y c) w" "kl_captured entry (kl_capture y c) b xs w" using step Cons.prems(3) by auto
  then show ?case using Cons.IH[of "kl_capture y c"] Cons.prems(3) by simp
qed simp

lemma kv_append_entries:
  assumes "kv_holds entry bf w"
  shows "kv_holds entry (kv_append z (drop (length w) (entries entry (w @ ts))) bf) (w @ ts)"
proof -
  have ok: "kv_ok bf" "kv_live bf = entries entry w" using assms by (simp_all add: kv_holds_live)
  have "entries entry w = take (length w) (entries entry (w @ ts))" by (simp add: entries_take)
  then have "entries entry w @ drop (length w) (entries entry (w @ ts)) = entries entry (w @ ts)" by simp
  then show ?thesis using kv_append_live[OF ok(1)] ok(2) by (simp add: kv_holds_live)
qed

interpretation kvc: capturing_layer "kv_ops z" "kl_rests entry" "kv_covers entry" "kl_forward z entry"
  "\<lambda>c b xs w. kl_holds entry c w \<and> kl_captured entry c b xs w"
proof (unfold_locales, unfold kv_ops_simps, goal_cases)
  case (3 c w t c')
  then show ?case using kv_rewind[OF _ kv_ops_restore[OF 3(2)], of entry w] by (auto simp: kl_rests_def kv_ops_def split: prod.splits)
next
  case (4 c w v s a t c')
  then show ?case using kv_restore[OF _ _ _ kv_ops_restore[OF 4(4)], of entry w v a]
    by (auto simp: kl_rests_def kv_ops_def split: prod.splits)
next
  case (5 c w sn t c')
  then show ?case using kv_refuse[OF _ kv_ops_restore[OF 5(2)], of entry w] by (auto simp: kl_rests_def kv_ops_def split: prod.splits)
next
  case (8 p a b w q m)
  show ?case by (rule kv_merge[of p entry a b w q m]) (use 8 in simp_all)
next
  case (9 c w xs)
  have "pd_prepare (kv_offset (kl_buf c)) xs (kl_pending c) = Some \<lparr>pd_slots = Some (slots (\<lambda>_. None) xs), pd_base = length w\<rparr>"
    using 9 by (auto simp: kl_rests_def kv_holds_def pd_prepare_def check_offsets_iff)
  then show ?case using 9 by (auto simp: kv_ops_def kl_rests_def kl_captured_def)
next
  case (10 c w ts)
  then have "scheduledIn a e (kl_pending c) = []" for a e by (simp add: kl_rests_def scheduledIn_def pd_offsets_def)
  then show ?case using 10 kv_append_entries[of entry "kl_buf c" w z ts]
    by (simp add: kl_forward_def kl_Update_def Let_def kl_rests_def)
next
  case (11 c b xs w ts)
  let ?v = "w @ ts"
  define c1 where "c1 = c\<lparr>kl_buf := kv_append z (drop (length w) (entries entry ?v)) (kl_buf c)\<rparr>"
  have h: "kl_holds entry c1 ?v" using 11(1) kv_append_entries by (auto simp: c1_def)
  have "kl_captured entry c1 b xs ?v" using 11(1) by (fastforce simp: kl_captured_def c1_def)
  moreover have "\<forall>x\<in>set (scheduledIn (kv_offset (kl_buf c)) (kv_offset (kl_buf c1)) (kl_pending c)). x \<in> set xs \<and> x \<le> length ?v"
    using 11(1) kv_holds_len[OF h] by (auto simp: scheduledIn_def pd_offsets_def kl_captured_def)
  ultimately show ?case using kl_captures_captured[OF h] by (simp add: kl_forward_def kl_Update_def Let_def c1_def)
next
  case (12 c b xs w ss c')
  then have cap: "kl_captured entry c b xs w" by simp
  obtain f where f: "pd_slots (kl_pending c) = Some (slots f xs)" "sorted_wrt (<) xs" "\<forall>x\<in>set xs. b \<le> x"
    "\<And>x s. x \<in> set xs \<Longrightarrow> f x = Some s \<Longrightarrow> \<exists>a\<in>insert b (set xs). a < x \<and> kv_covers entry s a (take x w)"
    using cap unfolding kl_captured_def by blast
  have ss: "ss = map f xs" "kl_buf c' = kl_buf c" "pd_slots (kl_pending c') = None"
    using 12(2) f(1) by (auto simp: kv_ops_def pd_take_def comp_def)
  have "\<exists>a\<le>bound b xs j. kv_covers entry s a (take (xs ! j) w)" if j: "j < length xs" "f (xs ! j) = Some s" for j s
  proof -
    obtain a where a: "a \<in> insert b (set xs)" "a < xs ! j" "kv_covers entry s a (take (xs ! j) w)"
      using f(4)[OF nth_mem[OF j(1)] j(2)] by blast
    have "a \<le> bound b xs j"
    proof (cases j)
      case 0
      then have "a \<notin> set xs" using f(2) a(2) j(1) by (cases xs) auto
      then show ?thesis using a(1) 0 by (simp add: bound_def)
    next
      case (Suc i)
      have "a \<le> xs ! i"
      proof (cases "a = b")
        case False
        then obtain k where k: "k < length xs" "a = xs ! k" using a(1) by (auto simp: in_set_conv_nth)
        have "k < j"
        proof (rule ccontr)
          assume "\<not> k < j"
          then have "xs ! j \<le> xs ! k" using f(2) k(1) by (metis le_eq_less_or_eq linorder_neqE_nat sorted_wrt_nth_less)
          then show False using a(2) k(2) by simp
        qed
        then have "k = i \<or> k < i" using Suc by linarith
        then show ?thesis using f(2) j(1) Suc k(2) by (auto dest: sorted_wrt_nth_less[of "(<)" xs k i])
      qed (use f(3) j(1) Suc in simp)
      then show ?thesis using Suc by (simp add: bound_def)
    qed
    then show ?thesis using a(3) by blast
  qed
  then show ?case using 12(1) ss by (auto simp: kl_rests_def caught_def)
next
  case (13 c b xs w)
  then show ?case using kv_holds_len by blast
qed (auto simp: kl_rests_def kv_ops_def no_pending_def kv_free kv_holds_len kv_snapshot dest: kv_split)

section \<open>All layers at once\<close>

type_synonym 'c feeder = "trieKey list \<Rightarrow> trieKey list \<Rightarrow> 'c \<Rightarrow> 'c option"

fun feed_all :: "(nat \<Rightarrow> 'c feeder) \<Rightarrow> nat \<Rightarrow> trieKey list \<Rightarrow> trieKey list \<Rightarrow> ('c, 's) kv list \<Rightarrow> ('c, 's) kv list option" where
  "feed_all F k w ts [] = Some []"
| "feed_all F k w ts (None # cs) = map_option ((#) None) (feed_all F (Suc k) w ts cs)"
| "feed_all F k w ts (Some (ops, st) # cs) = do {
     st1 \<leftarrow> F k w ts st;
     cs1 \<leftarrow> feed_all F (Suc k) w ts cs;
     Some (Some (ops, st1) # cs1)
   }"

fun evaluate :: "(nat \<Rightarrow> 'c feeder) \<Rightarrow> trieKey list \<Rightarrow> trieKey list list \<Rightarrow> ('c, 's) kv list \<Rightarrow> ('c, 's) kv list option" where
  "evaluate F w [] cs = Some cs"
| "evaluate F w (ts # tss) cs = do {cs1 \<leftarrow> feed_all F 0 w ts cs; evaluate F (w @ ts) tss cs1}"

definition capturing_layers ::
  "(nat \<Rightarrow> 'c feeder) \<Rightarrow> (nat \<Rightarrow> 'c \<Rightarrow> nat \<Rightarrow> nat list \<Rightarrow> trieKey list \<Rightarrow> bool) \<Rightarrow> (nat \<Rightarrow> 'c \<Rightarrow> trieKey list \<Rightarrow> bool) \<Rightarrow>
     (nat \<Rightarrow> 's \<Rightarrow> nat \<Rightarrow> trieKey list \<Rightarrow> bool) \<Rightarrow> nat \<Rightarrow> ('c, 's) kv list \<Rightarrow> bool" where
  "capturing_layers F P H C k cs \<longleftrightarrow> all_layers (\<lambda>i ops st. capturing_layer ops (H i) (C i) (F i) (P i)) k cs"

lemma all_layers_ops:
  "ops_of cs = ops_of cs' \<Longrightarrow> all_layers (\<lambda>i ops st. P i ops) k cs = all_layers (\<lambda>i ops st. P i ops) k cs'"
proof (induction cs arbitrary: cs' k)
  case (Cons x cs)
  then obtain y ys where y: "cs' = y # ys" by (cases cs') (auto simp: ops_of_def)
  show ?case using Cons.IH[of ys "Suc k"] Cons.prems y by (cases x; cases y) (auto simp: ops_of_def)
qed (simp add: ops_of_def)

lemma capturing_layers_ops: "ops_of cs = ops_of cs' \<Longrightarrow> capturing_layers F P H C k cs = capturing_layers F P H C k cs'"
  unfolding capturing_layers_def by (rule all_layers_ops)

lemma capturing_lawful: "capturing_layers F P H C 0 cs \<Longrightarrow> lawful_layers H C cs"
  unfolding capturing_layers_def lawful_layers_def by (erule all_layers_mono) (simp add: capturing_layer_def)

text \<open>\<open>Q\<close> is what the layers keep while they are fed: to be at rest, or to have a schedule.\<close>

lemma feed_all_keeps:
  assumes "\<And>i ops st. capturing_layer ops (H i) (C i) (F i) (P i) \<Longrightarrow> Q i st w \<Longrightarrow> \<exists>st'. F i w ts st = Some st' \<and> Q i st' (w @ ts)"
  shows "capturing_layers F P H C k cs \<Longrightarrow> all_layers (\<lambda>i ops st. Q i st w) k cs \<Longrightarrow>
    \<exists>cs'. feed_all F k w ts cs = Some cs' \<and> all_layers (\<lambda>i ops st. Q i st (w @ ts)) k cs' \<and> ops_of cs' = ops_of cs"
proof (induction cs arbitrary: k)
  case (Cons x cs)
  have "\<exists>cs'. feed_all F (Suc k) w ts cs = Some cs' \<and> all_layers (\<lambda>i ops st. Q i st (w @ ts)) (Suc k) cs' \<and> ops_of cs' = ops_of cs"
    by (rule Cons.IH) (use Cons.prems in \<open>cases x; auto simp: capturing_layers_def\<close>)+
  then obtain cs' where cs': "feed_all F (Suc k) w ts cs = Some cs'"
    "all_layers (\<lambda>i ops st. Q i st (w @ ts)) (Suc k) cs'" "ops_of cs' = ops_of cs" by blast
  show ?case
  proof (cases x)
    case (Some kv)
    obtain ops st where kv: "kv = (ops, st)" by fastforce
    have "capturing_layer ops (H k) (C k) (F k) (P k)" "Q k st w" using Cons.prems Some kv by (auto simp: capturing_layers_def)
    from assms[OF this] show ?thesis using cs' Some kv by auto
  qed (use cs' in auto)
qed simp

lemma evaluate_keeps:
  assumes "\<And>i ops st w ts. capturing_layer ops (H i) (C i) (F i) (P i) \<Longrightarrow> Q i st w \<Longrightarrow> ts \<noteq> [] \<Longrightarrow>
      \<exists>st'. F i w ts st = Some st' \<and> Q i st' (w @ ts)"
  shows "capturing_layers F P H C 0 cs \<Longrightarrow> all_layers (\<lambda>i ops st. Q i st w) 0 cs \<Longrightarrow> [] \<notin> set tss \<Longrightarrow>
    \<exists>cs'. evaluate F w tss cs = Some cs' \<and> all_layers (\<lambda>i ops st. Q i st (w @ concat tss)) 0 cs' \<and> ops_of cs' = ops_of cs"
proof (induction tss arbitrary: w cs)
  case (Cons ts tss)
  have ts: "ts \<noteq> []" using Cons.prems(3) by auto
  have "\<exists>cs'. feed_all F 0 w ts cs = Some cs' \<and> all_layers (\<lambda>i ops st. Q i st (w @ ts)) 0 cs' \<and> ops_of cs' = ops_of cs"
    by (rule feed_all_keeps[where Q = Q, OF _ Cons.prems(1,2)]) (use assms ts in blast)
  then obtain cs1 where cs1: "feed_all F 0 w ts cs = Some cs1" "all_layers (\<lambda>i ops st. Q i st (w @ ts)) 0 cs1" "ops_of cs1 = ops_of cs"
    by blast
  have "capturing_layers F P H C 0 cs1" using Cons.prems(1) capturing_layers_ops[OF cs1(3)] by blast
  from Cons.IH[OF this cs1(2)] show ?case using cs1 Cons.prems(3) by auto
qed simp

lemma prepare_all_pending:
  "capturing_layers F P H C k cs \<Longrightarrow> all_hold H k cs w \<Longrightarrow> sorted_wrt (<) xs \<Longrightarrow> \<forall>x\<in>set xs. length w \<le> x \<Longrightarrow>
    \<exists>cs'. prepare_all xs cs = Some cs' \<and> all_layers (\<lambda>i ops st. P i st (length w) xs w) k cs' \<and> ops_of cs' = ops_of cs"
proof (induction cs arbitrary: k)
  case (Cons x cs)
  have "\<exists>cs'. prepare_all xs cs = Some cs' \<and> all_layers (\<lambda>i ops st. P i st (length w) xs w) (Suc k) cs' \<and> ops_of cs' = ops_of cs"
    by (rule Cons.IH[OF _ _ Cons.prems(3,4)]) (use Cons.prems(1,2) in \<open>cases x; auto simp: capturing_layers_def all_hold_def\<close>)+
  then obtain cs' where cs': "prepare_all xs cs = Some cs'" "all_layers (\<lambda>i ops st. P i st (length w) xs w) (Suc k) cs'"
    "ops_of cs' = ops_of cs" by blast
  show ?case
  proof (cases x)
    case (Some kv)
    obtain ops st where kv: "kv = (ops, st)" by fastforce
    have "capturing_layer ops (H k) (C k) (F k) (P k)" "H k st w" using Cons.prems(1,2) Some kv
      by (auto simp: capturing_layers_def all_hold_def)
    from capturing_layer.prepare[OF this Cons.prems(3,4)] show ?thesis using cs' Some kv by auto
  qed (use cs' in auto)
qed simp

lemma pending_settled:
  assumes "capturing_layers F P H C k cs" "all_layers (\<lambda>i ops st. P i st b xs w) k cs"
  shows "settled H C b xs k cs w"
  unfolding settled_def
proof (rule all_layers_mono)
  show "all_layers (\<lambda>i ops st. capturing_layer ops (H i) (C i) (F i) (P i) \<and> P i st b xs w) k cs"
    using assms by (simp add: all_layers_conj capturing_layers_def)
next
  fix i ops st
  assume a: "capturing_layer ops (H i) (C i) (F i) (P i) \<and> P i st b xs w"
  obtain ss st1 where "co_TakeSnapshots ops st = (ss, st1)" by fastforce
  then show "case co_TakeSnapshots ops st of (ss, st1) \<Rightarrow> H i st1 w \<and> caught (C i) b xs w ss"
    using capturing_layer.take_captures[of ops "H i" "C i" "F i" "P i"] a by fastforce
qed

section \<open>Scheduling\<close>

lemma mark_user_keeps: "mark_user off ps = Some qs \<Longrightarrow> map fst qs = map fst ps"
  by (induction off ps arbitrary: qs rule: mark_user.induct) (auto split: if_splits)

lemma mark_user_None: "mark_user off ps = None \<longleftrightarrow> off \<notin> fst ` set ps"
  by (induction off ps rule: mark_user.induct) auto

text \<open>Scheduled offsets are new, ahead of the layers and not inside an item whose tokens belong together.\<close>

definition schedulable :: "nat \<Rightarrow> mediaItem list \<Rightarrow> nat \<Rightarrow> bool" where
  "schedulable base items x \<longleftrightarrow> base < x \<and> (apart items \<longrightarrow> insideAtomicItem items x = None)"

lemma schedule_offsets_ok:
  "distinct (map fst ps) \<Longrightarrow> \<forall>x\<in>set (map fst ps). schedulable base (cs_items s) x \<Longrightarrow>
   (let xs = map fst (schedule_offsets s la base offs ps) in
      distinct xs \<and> (\<forall>x\<in>set xs. schedulable base (cs_items s) x))"
proof (induction offs arbitrary: ps)
  case (Cons off offs)
  define off1 where "off1 = off - int la"
  define off2 where "off2 = (case (if 0 \<le> off1 then insideAtomicItem (cs_items s) (nat off1) else None) of
                    None \<Rightarrow> off1 | Some item \<Rightarrow> int (mi_pos item + mi_length item))"
  define ps1 where "ps1 = (if off2 \<le> int base \<or> int (length (cs_inputs s)) < off2 then ps
            else (case mark_user (nat off2) ps of Some pend1 \<Rightarrow> pend1 | None \<Rightarrow> ps @ [(nat off2, True)]))"
  have eq: "schedule_offsets s la base (off # offs) ps = schedule_offsets s la base offs ps1"
    unfolding ps1_def off2_def off1_def by (simp only: schedule_offsets.simps Let_def)
  have "schedulable base (cs_items s) (nat off2)" if "int base < off2"
  proof -
    have "insideAtomicItem (cs_items s) (nat off2) = None" if ap: "apart (cs_items s)"
    proof (cases "if 0 \<le> off1 then insideAtomicItem (cs_items s) (nat off1) else None")
      case None
      then have "off2 = off1" by (simp add: off2_def)
      then show ?thesis using None \<open>int base < off2\<close> by (simp split: if_splits)
    next
      case (Some item)
      then have "nat off2 = mi_pos item + mi_length item" by (simp add: off2_def)
      then show ?thesis using apart_end[OF ap] Some by (simp split: if_splits)
    qed
    then show ?thesis using that by (simp add: schedulable_def)
  qed
  moreover have "map fst ps1 = map fst ps \<or> map fst ps1 = map fst ps @ [nat off2] \<and> nat off2 \<notin> set (map fst ps) \<and> int base < off2"
  proof (cases "mark_user (nat off2) ps")
    case None
    then show ?thesis using mark_user_None[of "nat off2" ps] by (auto simp: ps1_def)
  next
    case (Some qs)
    then show ?thesis using mark_user_keeps[OF Some] by (simp add: ps1_def)
  qed
  ultimately have "distinct (map fst ps1) \<and> (\<forall>x\<in>set (map fst ps1). schedulable base (cs_items s) x)"
    using Cons.prems by (elim disjE conjE) (simp_all only: distinct_append set_append, auto)
  then show ?case unfolding eq using Cons.IH by blast
qed simp

lemma sort_key_strict: "distinct (map fst ps) \<Longrightarrow> sorted_wrt (<) (map fst (sort_key fst ps))"
proof -
  assume "distinct (map fst ps)"
  then have "distinct (map fst (sort_key fst ps))" by (simp add: distinct_map)
  then show ?thesis using sorted_sort_key[of fst ps] by (simp add: strict_sorted_iff)
qed

lemma schedulePrefillSnapshots_core:
  assumes cap: "capturing_layers F P H C 0 (pc_caches c)" and held: "all_hold H 0 (pc_caches c) w"
    and base: "minCacheOffset c = length w \<or> min_offset (pc_caches c) = None"
    and pend: "distinct (map fst (cs_pending s))" "\<forall>x\<in>set (map fst (cs_pending s)). schedulable (minCacheOffset c) (cs_items s) x"
  shows "\<exists>ps cs. schedulePrefillSnapshots offs s c = Some (s\<lparr>cs_pending := ps\<rparr>, c\<lparr>pc_caches := cs\<rparr>) \<and>
    sorted_wrt (<) (map fst ps) \<and> (\<forall>x\<in>set (map fst ps). schedulable (minCacheOffset c) (cs_items s) x) \<and> ops_of cs = ops_of (pc_caches c) \<and>
    (if ps = [] then all_hold H 0 cs w else all_layers (\<lambda>i ops st. P i st (length w) (map fst ps) w) 0 cs)"
proof -
  define qs where "qs = schedule_offsets s (pc_draftLookahead c) (minCacheOffset c) offs (cs_pending s)"
  define ps where "ps = sort_key fst qs"
  have qs: "distinct (map fst qs)" "\<forall>x\<in>set (map fst qs). schedulable (minCacheOffset c) (cs_items s) x"
    using schedule_offsets_ok[OF pend, of "pc_draftLookahead c" offs] by (simp_all add: qs_def Let_def)
  have ps: "sorted_wrt (<) (map fst ps)" "\<forall>x\<in>set (map fst ps). schedulable (minCacheOffset c) (cs_items s) x"
    using sort_key_strict[OF qs(1)] qs(2) by (simp_all add: ps_def)
  have run: "schedulePrefillSnapshots offs s c = (if ps = [] then Some (s\<lparr>cs_pending := ps\<rparr>, c)
      else map_option (\<lambda>cs. (s\<lparr>cs_pending := ps\<rparr>, c\<lparr>pc_caches := cs\<rparr>)) (prepare_all (map fst ps) (pc_caches c)))"
    by (simp add: schedulePrefillSnapshots_def ps_def qs_def Let_def)
  have self: "c\<lparr>pc_caches := pc_caches c\<rparr> = c" by simp
  show ?thesis
  proof (cases "ps = []")
    case True
    then show ?thesis using run held self by (intro exI[of _ "[]"] exI[of _ "pc_caches c"]) simp
  next
    case False
    have "all_hold H 0 (pc_caches c) v" if "min_offset (pc_caches c) = None" for v
      unfolding all_hold_def by (rule no_layers[OF that])
    have "\<exists>cs'. prepare_all (map fst ps) (pc_caches c) = Some cs' \<and>
        all_layers (\<lambda>i ops st. P i st (length w) (map fst ps) w) 0 cs' \<and> ops_of cs' = ops_of (pc_caches c)"
    proof (cases "min_offset (pc_caches c) = None")
      case True
      have none: "min_offset cs = None \<Longrightarrow> prepare_all xs cs = Some cs" for xs and cs :: "('a, 'b) kv list"
        by (induction cs rule: min_offset.induct) (auto split: option.splits)
      show ?thesis using none[OF True] no_layers[OF True] by blast
    next
      case False
      then have "\<forall>x\<in>set (map fst ps). length w \<le> x" using ps(2) base unfolding schedulable_def by (metis less_imp_le)
      then show ?thesis by (rule prepare_all_pending[OF cap held ps(1)])
    qed
    then show ?thesis using run False ps by fastforce
  qed
qed

section \<open>Serving requests\<close>

text \<open>
  A request as the pipeline runs it: the prompt with its media items, the offsets at which the caller
  wants snapshots, the lengths of the forward passes, and the tokens that were generated.
\<close>

record request =
  rq_inputs :: "32 word list"
  rq_items :: "mediaItem list"
  rq_offsets :: "int list"
  rq_passes :: "nat list"
  rq_outputs :: "32 word list"

fun passes :: "nat list \<Rightarrow> 'k list \<Rightarrow> 'k list list" where
  "passes [] ts = []"
| "passes (n # ns) ts = (if n = 0 \<or> ts = [] then passes ns ts else take n ts # passes ns (drop n ts))"

definition serve ::
  "('s \<Rightarrow> int) \<Rightarrow> (nat \<Rightarrow> nat) \<Rightarrow> (nat \<Rightarrow> 'c feeder) \<Rightarrow> request \<Rightarrow> (trieKey, 'c, 's) prefixCache \<Rightarrow>
     (trieKey, 'c, 's) prefixCache option" where
  "serve sz clock F rq c = do {
     (s, c1) \<leftarrow> begin_session sz clock (rq_inputs rq) (rq_items rq) c;
     (s1, c2) \<leftarrow> schedulePrefillSnapshots (rq_offsets rq) s c1;
     let s2 = s1\<lparr>cs_outputs := rq_outputs rq\<rparr>;
     skeys \<leftarrow> storedKeys (pc_draftLookahead c2) s2;
     let p = minCacheOffset c1;
     cs \<leftarrow> evaluate F (take p skeys) (passes (rq_passes rq) (drop p skeys)) (pc_caches c2);
     close_session sz clock s2 (c2\<lparr>pc_caches := cs\<rparr>)
   }"

text \<open>
  The caller schedules no offset below the end of the path that \<open>begin\<close> made active. The layers stand
  there unless they were freed, and offsets below them are dropped.
\<close>

definition ahead :: "('s \<Rightarrow> int) \<Rightarrow> (nat \<Rightarrow> nat) \<Rightarrow> request \<Rightarrow> (trieKey, 'c, 's) prefixCache \<Rightarrow> bool" where
  "ahead sz clock rq c \<longleftrightarrow>
     (case begin_session sz clock (rq_inputs rq) (rq_items rq) c of None \<Rightarrow> True | Some (s, c1) \<Rightarrow>
        (case schedulePrefillSnapshots (rq_offsets rq) s c1 of None \<Rightarrow> True | Some (s1, c2) \<Rightarrow>
           list_all (\<lambda>p. tn_endOffset (node c1 (last (pc_activePath c1))) \<le> fst p) (cs_pending s1)))"

lemma passes_ok: "[] \<notin> set (passes ns ts) \<and> (\<exists>m. concat (passes ns ts) = take m ts)"
proof (induction ns ts rule: passes.induct)
  case (1 ts)
  show ?case by (auto intro: exI[of _ 0])
next
  case (2 n ns ts)
  show ?case
  proof (cases "n = 0 \<or> ts = []")
    case False
    then obtain m where "concat (passes ns (drop n ts)) = take m (drop n ts)" "[] \<notin> set (passes ns (drop n ts))" using 2 by auto
    then have "concat (passes (n # ns) ts) = take (n + m) ts" "[] \<notin> set (passes (n # ns) ts)"
      using False by (auto simp: take_add)
    then show ?thesis by blast
  qed (use 2 in auto)
qed

lemma zip_tl_prefix: "prefix (zip ts (tl ts)) (zip (ts @ us) (tl (ts @ us)))"
proof (induction ts)
  case (Cons t ts)
  then show ?case by (cases ts) auto
qed simp

lemma key_append:
  assumes "key la ts = Some ks"
  shows "\<exists>ks'. key la (ts @ us) = Some ks' \<and> prefix ks ks'"
  using assms zip_tl_prefix[of ts us] by (auto simp: key_def map_mono_prefix split: if_splits)

lemma key_defined: "la \<le> 1 \<Longrightarrow> key la ts \<noteq> None"
  by (auto simp: key_def)

text \<open>The session in the middle: what was evaluated and what is scheduled.\<close>

lemma evaluated_session:
  assumes core: "pc_core H C sz N r v c" and cap: "capturing_layers F P H C 0 (pc_caches c)"
    and sk: "storedKeys (pc_draftLookahead c) s = Some skeys" "prefix v skeys" "p \<le> length skeys" "p \<le> length v" "p = length v \<or> p = 0"
    and pend: "sorted_wrt (<) (map fst (cs_pending s))" "\<forall>x\<in>set (map fst (cs_pending s)). p < x \<and> length v \<le> x"
    and lay: "if cs_pending s = [] then all_hold H 0 (pc_caches c) (take p skeys)
      else all_layers (\<lambda>i ops st. P i st p (map fst (cs_pending s)) (take p skeys)) 0 (pc_caches c)"
  shows "\<exists>cs n. evaluate F (take p skeys) (passes ns (drop p skeys)) (pc_caches c) = Some cs \<and> ops_of cs = ops_of (pc_caches c) \<and>
    in_session H C sz N r v p skeys n s (c\<lparr>pc_caches := cs\<rparr>)"
proof -
  obtain m where m: "concat (passes ns (drop p skeys)) = take m (drop p skeys)" "[] \<notin> set (passes ns (drop p skeys))"
    using passes_ok by blast
  define n where "n = min (p + m) (length skeys)"
  have n: "n \<le> length skeys" "take p skeys @ take m (drop p skeys) = take n skeys"
    by (auto simp: n_def min_def simp flip: take_add)
  have room: "cs_pending s \<noteq> [] \<Longrightarrow> room p v (fst (hd (cs_pending s)))"
    using pend(2) sk(4,5) by (cases "cs_pending s") (auto simp: room_def)
  have core': "pc_core H C sz N r v (c\<lparr>pc_caches := cs\<rparr>)" if "ops_of cs = ops_of (pc_caches c)" for cs
    using core ops_of_length[OF that] lawful_layers_ops[OF that, of H C] by (simp add: pc_core_def)
  show ?thesis
  proof (cases "cs_pending s = []")
    case True
    then have start: "all_layers (\<lambda>i ops st. H i st (take p skeys)) 0 (pc_caches c)" using lay by (simp add: all_hold_def)
    have "\<exists>cs. evaluate F (take p skeys) (passes ns (drop p skeys)) (pc_caches c) = Some cs \<and>
      all_layers (\<lambda>i ops st. H i st (take p skeys @ concat (passes ns (drop p skeys)))) 0 cs \<and> ops_of cs = ops_of (pc_caches c)"
      by (rule evaluate_keeps[where Q = H, OF _ cap start m(2)]) (rule capturing_layer.feed_rest)
    then obtain cs where cs: "evaluate F (take p skeys) (passes ns (drop p skeys)) (pc_caches c) = Some cs"
      "all_layers (\<lambda>i ops st. H i st (take n skeys)) 0 cs" "ops_of cs = ops_of (pc_caches c)"
      unfolding m(1) n(2) by blast
    have "in_session H C sz N r v p skeys n s (c\<lparr>pc_caches := cs\<rparr>)"
      using core'[OF cs(3)] sk n(1) pend(1) room cs(2) True by (simp add: in_session_def all_hold_def)
    then show ?thesis using cs by blast
  next
    case False
    let ?Q = "\<lambda>i st w. P i st p (map fst (cs_pending s)) w"
    have start: "all_layers (\<lambda>i ops st. ?Q i st (take p skeys)) 0 (pc_caches c)" using lay False by simp
    have "\<exists>cs. evaluate F (take p skeys) (passes ns (drop p skeys)) (pc_caches c) = Some cs \<and>
      all_layers (\<lambda>i ops st. ?Q i st (take p skeys @ concat (passes ns (drop p skeys)))) 0 cs \<and> ops_of cs = ops_of (pc_caches c)"
      by (rule evaluate_keeps[where Q = ?Q, OF _ cap start m(2)]) (rule capturing_layer.feed_pending)
    then obtain cs where cs: "evaluate F (take p skeys) (passes ns (drop p skeys)) (pc_caches c) = Some cs"
      "all_layers (\<lambda>i ops st. ?Q i st (take n skeys)) 0 cs" "ops_of cs = ops_of (pc_caches c)"
      unfolding m(1) n(2) by blast
    have "capturing_layers F P H C 0 cs" using cap capturing_layers_ops[OF cs(3)] by blast
    from pending_settled[OF this cs(2)] have "in_session H C sz N r v p skeys n s (c\<lparr>pc_caches := cs\<rparr>)"
      using core'[OF cs(3)] sk n(1) pend(1) room False by (simp add: in_session_def)
    then show ?thesis using cs by blast
  qed
qed

lemma serve_core:
  assumes ready: "pc_ready H C sz c" and cap: "capturing_layers F P H C 0 (pc_caches c)" and la: "pc_draftLookahead c \<le> 1"
    and ins: "effectiveKeyTokens (rq_inputs rq) (rq_items rq) = Some eff" and ah: "ahead sz clock rq c"
  shows "\<exists>c' skeys n. serve sz clock F rq c = Some c' \<and> pc_ready H C sz c' \<and> capturing_layers F P H C 0 (pc_caches c') \<and>
    pc_draftLookahead c' = pc_draftLookahead c \<and> key (pc_draftLookahead c) (eff @ rq_outputs rq) = Some skeys \<and>
    all_hold H 0 (pc_caches c') (take n skeys)"
proof -
  let ?la = "pc_draftLookahead c"
  obtain keys where keys: "key ?la eff = Some keys" using key_defined[OF la] by blast
  obtain s c1 N r v where b: "begin_session sz clock (rq_inputs rq) (rq_items rq) c = Some (s, c1)" "pc_inv H C sz N r v c1"
    "pc_draftLookahead c1 = ?la" "ops_of (pc_caches c1) = ops_of (pc_caches c)"
    and b': "all_hold H 0 (pc_caches c1) (take (minCacheOffset c1) keys)" "minCacheOffset c1 \<le> length keys" "prefix v keys"
      "minCacheOffset c1 \<le> length v" "minCacheOffset c1 = length v \<or> minCacheOffset c1 = 0"
      "cs_effInputs s = eff" "cs_items s = rq_items rq"
      "cs_pending s = [] \<or> (\<exists>m. cs_pending s = [(m, False)] \<and> minCacheOffset c1 < m \<and> m \<le> length keys \<and>
         room (minCacheOffset c1) v m \<and> (apart (rq_items rq) \<longrightarrow> insideAtomicItem (rq_items rq) m = None))"
    using begin_session_core[OF ready ins keys, of clock] unfolding Let_def by blast
  let ?p = "minCacheOffset c1"
  have core1: "pc_core H C sz N r v c1" using b(2) by (simp add: pc_inv_def)
  note inv1 = pc_core_parts[OF core1]
  have cap1: "capturing_layers F P H C 0 (pc_caches c1)" using cap capturing_layers_ops[OF b(4)] by blast
  have plen: "length (take ?p keys) = ?p" using b'(2) by simp
  have "distinct (map fst (cs_pending s))" "\<forall>x\<in>set (map fst (cs_pending s)). schedulable ?p (cs_items s) x"
    using b'(7,8) by (auto simp: schedulable_def)
  from schedulePrefillSnapshots_core[OF cap1 b'(1) _ this, of "rq_offsets rq", unfolded plen]
  obtain ps cs2 where s2: "schedulePrefillSnapshots (rq_offsets rq) s c1 = Some (s\<lparr>cs_pending := ps\<rparr>, c1\<lparr>pc_caches := cs2\<rparr>)"
    "sorted_wrt (<) (map fst ps)" "\<forall>x\<in>set (map fst ps). schedulable ?p (cs_items s) x" "ops_of cs2 = ops_of (pc_caches c1)"
    "if ps = [] then all_hold H 0 cs2 (take ?p keys) else all_layers (\<lambda>i ops st. P i st ?p (map fst ps) (take ?p keys)) 0 cs2"
    by blast
  define c2 where "c2 = c1\<lparr>pc_caches := cs2\<rparr>"
  define s3 where "s3 = s\<lparr>cs_pending := ps, cs_outputs := rq_outputs rq\<rparr>"
  obtain skeys where sk: "key ?la (eff @ rq_outputs rq) = Some skeys" "prefix keys skeys" using key_append[OF keys] by blast
  have stk: "storedKeys (pc_draftLookahead c2) s3 = Some skeys"
    using sk(1) b(3) b'(6) by (simp add: storedKeys_def c2_def s3_def)
  have front: "take ?p skeys = take ?p keys" "?p \<le> length skeys" "prefix v skeys"
    using sk(2) b'(2,3) prefix_length_le[OF sk(2)] prefix_order.trans by (auto simp: prefix_def)
  have core2: "pc_core H C sz N r v c2"
    using core1 ops_of_length[OF s2(4)] lawful_layers_ops[OF s2(4), of H C] by (simp add: pc_core_def c2_def)
  have cap2: "capturing_layers F P H C 0 (pc_caches c2)" using cap1 capturing_layers_ops[OF s2(4)] by (simp add: c2_def)
  have lens: "\<forall>x\<in>set (map fst (cs_pending s3)). ?p < x \<and> length v \<le> x"
  proof -
    have "tn_endOffset (node c1 (last (pc_activePath c1))) = length v" using active_end[OF inv1(7,5)] by (simp add: node_def)
    then show ?thesis using ah b(1) s2(1,3) by (auto simp: ahead_def list_all_iff schedulable_def s3_def)
  qed
  have lay: "if cs_pending s3 = [] then all_hold H 0 (pc_caches c2) (take ?p skeys)
      else all_layers (\<lambda>i ops st. P i st ?p (map fst (cs_pending s3)) (take ?p skeys)) 0 (pc_caches c2)"
    using s2(5) front(1) by (simp add: s3_def c2_def)
  have "sorted_wrt (<) (map fst (cs_pending s3))" using s2(2) by (simp add: s3_def)
  from evaluated_session[OF core2 cap2 stk front(3,2) b'(4,5) this lens lay, of "rq_passes rq"]
  obtain cs n where cs: "evaluate F (take ?p skeys) (passes (rq_passes rq) (drop ?p skeys)) (pc_caches c2) = Some cs"
    "ops_of cs = ops_of (pc_caches c2)" "in_session H C sz N r v ?p skeys n s3 (c2\<lparr>pc_caches := cs\<rparr>)" by blast
  obtain c' N' v' where c': "close_session sz clock s3 (c2\<lparr>pc_caches := cs\<rparr>) = Some c'" "pc_inv H C sz N' r v' c'"
    "all_hold H 0 (pc_caches c') (take n skeys)" "pc_draftLookahead c' = pc_draftLookahead (c2\<lparr>pc_caches := cs\<rparr>)"
    "ops_of (pc_caches c') = ops_of (pc_caches (c2\<lparr>pc_caches := cs\<rparr>))"
    using close_session_core[OF cs(3), of clock] by blast
  have "serve sz clock F rq c = Some c'"
    using b(1) s2(1) stk cs(1) c'(1) by (simp add: serve_def Let_def c2_def[symmetric] s3_def)
  moreover have "capturing_layers F P H C 0 (pc_caches c')"
    using cap2 capturing_layers_ops[of "pc_caches c'" "pc_caches c2"] c'(5) cs(2) by simp
  ultimately show ?thesis using c' sk(1) b(3) unfolding pc_ready_def by (fastforce simp: c2_def)
qed

section \<open>Reachable states\<close>

text \<open>The caches of a model after any requests, served one after the other.\<close>

inductive reached ::
  "('s \<Rightarrow> int) \<Rightarrow> (nat \<Rightarrow> nat) \<Rightarrow> (nat \<Rightarrow> 'c feeder) \<Rightarrow> nat \<Rightarrow> ('c, 's) kv list \<Rightarrow> (trieKey, 'c, 's) prefixCache \<Rightarrow> bool"
  for sz clock F la cs where
  new: "reached sz clock F la cs (newPrefixCache la cs)"
| step: "reached sz clock F la cs c \<Longrightarrow> ahead sz clock rq c \<Longrightarrow> serve sz clock F rq c = Some c' \<Longrightarrow> reached sz clock F la cs c'"

lemma serve_items: "serve sz clock F rq c = Some c' \<Longrightarrow> \<exists>eff. effectiveKeyTokens (rq_inputs rq) (rq_items rq) = Some eff"
  by (cases "effectiveKeyTokens (rq_inputs rq) (rq_items rq)") (simp_all add: serve_def begin_session_def Let_def)

lemma reached_ready:
  assumes "capturing_layers F P H C 0 cs" "all_hold H 0 cs []" "la \<le> 1"
  shows "reached sz clock F la cs c \<Longrightarrow>
    pc_ready H C sz c \<and> capturing_layers F P H C 0 (pc_caches c) \<and> pc_draftLookahead c = la"
proof (induction rule: reached.induct)
  case new
  show ?case using newPrefixCache_ready[OF capturing_lawful[OF assms(1)] assms(2)] assms(1) by (simp add: newPrefixCache_def)
next
  case (step c rq c')
  obtain eff where "effectiveKeyTokens (rq_inputs rq) (rq_items rq) = Some eff" using serve_items[OF step.hyps(3)] by blast
  from serve_core[OF _ _ _ this step.hyps(2), where H = H and C = C and P = P and F = F] step.IH step.hyps(3) assms(3)
  show ?case by auto
qed

text \<open>Without offsets of the caller only the end of the match is scheduled, and that is never below the path.\<close>

lemma ahead_without_offsets:
  assumes "pc_ready H C sz c" "pc_draftLookahead c \<le> 1" "rq_offsets rq = []"
  shows "ahead sz clock rq c"
proof (cases "begin_session sz clock (rq_inputs rq) (rq_items rq) c")
  case (Some x)
  obtain s c1 where x: "x = (s, c1)" by fastforce
  obtain eff where eff: "effectiveKeyTokens (rq_inputs rq) (rq_items rq) = Some eff"
    using Some by (cases "effectiveKeyTokens (rq_inputs rq) (rq_items rq)") (simp_all add: begin_session_def Let_def)
  obtain keys where keys: "key (pc_draftLookahead c) eff = Some keys" using key_defined[OF assms(2)] by blast
  obtain N r v where inv: "pc_inv H C sz N r v c1"
    and pend: "cs_pending s = [] \<or> (\<exists>m. cs_pending s = [(m, False)] \<and> room (minCacheOffset c1) v m)"
    using begin_session_core[OF assms(1) eff keys, of clock] Some x unfolding Let_def by auto
  have "pc_core H C sz N r v c1" using inv by (simp add: pc_inv_def)
  note parts = pc_core_parts[OF this]
  have "tn_endOffset (node c1 (last (pc_activePath c1))) = length v" using active_end[OF parts(7,5)] by (simp add: node_def)
  moreover have "\<forall>p\<in>set (cs_pending s1). length v \<le> fst p"
    if "schedulePrefillSnapshots (rq_offsets rq) s c1 = Some (s1, c2)" for s1 c2
  proof -
    have "cs_pending s1 = sort_key fst (cs_pending s)"
      using that assms(3) by (auto simp: schedulePrefillSnapshots_def Let_def split: if_splits)
    then have "set (cs_pending s1) = set (cs_pending s)" by simp
    then show ?thesis using pend by (auto simp: room_def)
  qed
  ultimately show ?thesis using Some x by (auto simp: ahead_def list_all_iff split: option.splits)
qed (simp add: ahead_def)

section \<open>Properties\<close>

text \<open>
  C4. Whatever requests were served before, with prompts, media items, generated tokens and eviction as
  they may be, \<open>begin\<close> returns for a new prompt, and then all layers hold the state of exactly the first
  \<open>p\<close> keys of this prompt, where \<open>p\<close> is their common offset: never more, never the state of another
  prompt. At least one token of the prompt is left to evaluate, the tokens to evaluate are those from \<open>p\<close>
  on, and a capture is scheduled only beyond \<open>p\<close>, within the prompt and not inside a media item whose
  tokens belong together.
\<close>

theorem begin_resumes:
  assumes "capturing_layers F P H C 0 cs" "all_hold H 0 cs []" "la \<le> 1" "reached sz clock F la cs c"
    "effectiveKeyTokens inputs items = Some eff" "key la eff = Some keys"
  shows "\<exists>s c' p. begin_session sz clock inputs items c = Some (s, c') \<and> p = minCacheOffset c' \<and>
    all_hold H 0 (pc_caches c') (take p keys) \<and> p \<le> length keys \<and> cs_remaining s = drop p inputs \<and>
    (inputs \<noteq> [] \<longrightarrow> cs_remaining s \<noteq> []) \<and>
    (cs_pending s = [] \<or> (\<exists>m. cs_pending s = [(m, False)] \<and> p < m \<and> m \<le> length keys \<and>
       (apart items \<longrightarrow> insideAtomicItem items m = None)))"
proof -
  have r: "pc_ready H C sz c" "pc_draftLookahead c = la" using reached_ready[OF assms(1-4)] by auto
  have "key (pc_draftLookahead c) eff = Some keys" using r(2) assms(6) by simp
  from begin_session_core[OF r(1) assms(5) this, of clock] show ?thesis unfolding Let_def by (elim exE conjE) fastforce
qed


text \<open>A cache with one key-value layer, whose entries are the fronts themselves.\<close>

definition kv_example :: "(trieKey list kvLayer, trieKey list kvCopy) kv list" where
  "kv_example = [Some (kv_ops [], \<lparr>kl_buf = new_buffer, kl_pending = no_pending\<rparr>)]"

lemma kv_example_layers:
  "capturing_layers (\<lambda>_. kl_forward [] id) (\<lambda>_ c b xs w. kl_holds id c w \<and> kl_captured id c b xs w)
     (\<lambda>_. kl_rests id) (\<lambda>_. kv_covers id) 0 kv_example"
  using kvc.capturing_layer_axioms by (simp add: capturing_layers_def kv_example_def)

lemma kv_example_empty: "all_hold (\<lambda>_. kl_rests id) 0 kv_example []"
  by (simp add: all_hold_def kv_example_def kl_rests_def kv_holds_def new_buffer_def no_pending_def)

abbreviation example_request :: request where
  "example_request \<equiv> \<lparr>rq_inputs = [5, 6, 7], rq_items = [], rq_offsets = [], rq_passes = [2, 1], rq_outputs = [8]\<rparr>"

lemma example_reached:
  "\<exists>c. serve (\<lambda>_. 1) id (\<lambda>_. kl_forward [] id) example_request (newPrefixCache 0 kv_example) = Some c \<and>
     reached (\<lambda>_. 1) id (\<lambda>_. kl_forward [] id) 0 kv_example c"
proof -
  let ?c = "newPrefixCache 0 kv_example :: (trieKey, _, _) prefixCache"
  note r = reached_ready[OF kv_example_layers kv_example_empty, of 0 "\<lambda>_. 1" id ?c, OF _ reached.new]
  have ah: "ahead (\<lambda>_. 1) id example_request ?c" by (rule ahead_without_offsets) (use r in auto)
  have eff: "effectiveKeyTokens (rq_inputs example_request) (rq_items example_request) = Some [5, 6, 7]"
    by (simp add: effectiveKeyTokens_def)
  from serve_core[OF _ _ _ eff ah] r show ?thesis using reached.step[OF reached.new ah] by fastforce
qed

theorem begin_resumes_witness:
  "\<exists>c s c'. serve (\<lambda>_. 1) id (\<lambda>_. kl_forward [] id) example_request (newPrefixCache 0 kv_example) = Some c \<and>
     begin_session (\<lambda>_. 1) id [5, 6, 9] [] c = Some (s, c') \<and>
     all_hold (\<lambda>_. kl_rests id) 0 (pc_caches c') (take (minCacheOffset c') [5, 6, 9]) \<and> cs_remaining s \<noteq> []"
proof -
  obtain c where c: "serve (\<lambda>_. 1) id (\<lambda>_. kl_forward [] id) example_request (newPrefixCache 0 kv_example) = Some c"
    "reached (\<lambda>_. 1) id (\<lambda>_. kl_forward [] id) 0 kv_example c" using example_reached by blast
  have "key 0 [5, 6, 9] = Some [5, 6, 9]" by (simp add: key_def)
  from begin_resumes[OF kv_example_layers kv_example_empty _ c(2) _ this, of "[5, 6, 9]" "[]"] c(1)
  show ?thesis by (auto simp: effectiveKeyTokens_def)
qed


end
