(* ===== verification/RotatingBuffer.thy ===== *)
theory RotatingBuffer
  imports PrefixCacheServe
begin

text \<open>
  The buffer of \<^verbatim>\<open>mlxrunner/cache/rotating.go\<close>: the layer of a sliding window of \<open>maxSize\<close> positions. The
  slots are in the order of the positions until the window is full; then single writes go round in a
  ring, and a write of several positions puts the ring in order again and may leave a buffer that is
  longer than the window.

  \<open>ring_window\<close> reads the buffer in the order of the positions, and every operation is one on this list.
  The layer here keeps its snapshots as copies; that the code keeps those of a batch as a range of its
  buffer is the subject of \<open>RotatingCache\<close>. As in \<open>CacheLayers\<close> the keys and values are one list, and
  offsets are never negative.
\<close>

section \<open>The buffer\<close>

record 'v ring =
  rg_keys :: "'v list option"
  rg_offset :: nat
  rg_step :: nat
  rg_maxSize :: nat
  rg_idx :: nat

record 'v ringCopy =
  gc_keys :: "'v list"
  gc_fromOffset :: nat
  gc_toOffset :: nat
  gc_idx :: nat

definition new_ring :: "nat \<Rightarrow> 'v ring" where
  "new_ring maxSize = \<lparr>rg_keys = None, rg_offset = 0, rg_step = 256, rg_maxSize = maxSize, rg_idx = 0\<rparr>"

text \<open>The slots from \<open>idx\<close> on are either unused, or hold the oldest positions of a ring.\<close>

definition linearize :: "nat \<Rightarrow> nat \<Rightarrow> nat \<Rightarrow> 'v list \<Rightarrow> 'v list \<times> nat" where
  "linearize offset maxSize idx b =
     (if idx < length b then
        if offset \<le> maxSize then (take idx b, idx) else (drop idx b @ take idx b, length b)
      else (b, idx))"

definition ring_concat :: "'v list \<Rightarrow> ('v, 'z) ring_scheme \<Rightarrow> ('v, 'z) ring_scheme" where
  "ring_concat keys c =
     (let b = (case rg_keys c of
                 None \<Rightarrow> keys
               | Some b \<Rightarrow>
                   (case linearize (rg_offset c) (rg_maxSize c) (rg_idx c) b of
                      (b1, i) \<Rightarrow> (if rg_maxSize c < Suc i then drop (Suc i - rg_maxSize c) b1 else b1) @ keys))
      in c\<lparr>rg_keys := Some b, rg_offset := rg_offset c + length keys, rg_idx := length b\<rparr>)"

text \<open>The size of the room that is added is not negative where it is asked for.\<close>

definition ring_update :: "'v \<Rightarrow> 'v list \<Rightarrow> ('v, 'z) ring_scheme \<Rightarrow> ('v, 'z) ring_scheme" where
  "ring_update zero keys c =
     (let L = length keys; prev = rg_offset c; maxSize = rg_maxSize c;
          fresh = replicate (min (rg_step c) (maxSize - prev)) zero;
          (b1, i1) = (case rg_keys c of
                        None \<Rightarrow> (fresh, prev)
                      | Some b \<Rightarrow> if length b \<le> prev \<and> length b < maxSize then (b @ fresh, prev) else (b, rg_idx c));
          (b2, i2) = (if maxSize < length b1 then (drop (length b1 - maxSize) b1, maxSize) else (b1, i1));
          i3 = (if maxSize \<le> i2 then 0 else i2)
      in c\<lparr>rg_keys := Some (take i3 b2 @ keys @ drop (i3 + L) b2), rg_offset := prev + L, rg_idx := i3 + L\<rparr>)"

definition batched :: "'v list \<Rightarrow> bool" where
  "batched keys \<longleftrightarrow> 1 < length keys"

definition ring_write :: "'v \<Rightarrow> 'v list \<Rightarrow> ('v, 'z) ring_scheme \<Rightarrow> ('v, 'z) ring_scheme" where
  "ring_write zero keys c = (if batched keys then ring_concat keys c else ring_update zero keys c)"

definition ring_State :: "('v, 'z) ring_scheme \<Rightarrow> 'v list option" where
  "ring_State c = map_option (\<lambda>b. take (min (rg_offset c) (length b)) b) (rg_keys c)"

text \<open>The slots a write hands to the attention: the whole buffer, or the window.\<close>

definition ring_history :: "'v list \<Rightarrow> ('v, 'z) ring_scheme \<Rightarrow> 'v list" where
  "ring_history keys c =
     (case rg_keys c of None \<Rightarrow> [] | Some b \<Rightarrow> if batched keys then b else take (min (rg_offset c) (rg_maxSize c)) b)"

definition ring_Snapshot :: "nat \<Rightarrow> ('v, 'z) ring_scheme \<Rightarrow> 'v ringCopy option" where
  "ring_Snapshot fromOffset c =
     (case ring_State c of
        None \<Rightarrow> None
      | Some b \<Rightarrow>
          if rg_offset c \<le> fromOffset then None
          else Some \<lparr>gc_keys = b, gc_fromOffset = fromOffset, gc_toOffset = rg_offset c, gc_idx = rg_idx c\<rparr>)"

text \<open>The slots of the window that ends at \<open>x\<close>, in a buffer in order of the positions.\<close>

definition window_slots :: "nat \<Rightarrow> nat \<Rightarrow> ('v, 'z) ring_scheme \<Rightarrow> int \<times> int" where
  "window_slots D x c =
     (let bufBase = int (rg_offset c) - int D
      in (int x - int (min x (rg_maxSize c)) - bufBase, int x - bufBase))"

definition ring_window_copy :: "nat \<Rightarrow> ('v, 'z) ring_scheme \<Rightarrow> 'v ringCopy option" where
  "ring_window_copy x c =
     (case rg_keys c of
        None \<Rightarrow> None
      | Some b \<Rightarrow>
          (case window_slots (length b) x c of
             (i, j) \<Rightarrow>
               if j \<le> i then None
               else Some \<lparr>gc_keys = drop (nat i) (take (nat j) b), gc_fromOffset = x - min x (rg_maxSize c),
                      gc_toOffset = x, gc_idx = min x (rg_maxSize c)\<rparr>))"

definition ring_put :: "'v ringCopy \<Rightarrow> nat \<Rightarrow> ('v, 'z) ring_scheme \<Rightarrow> ('v, 'z) ring_scheme" where
  "ring_put s target c =
     (let c1 = c\<lparr>rg_keys := Some (gc_keys s), rg_offset := gc_toOffset s, rg_idx := gc_idx s\<rparr>
      in if target < rg_offset c1 then c1\<lparr>rg_offset := target, rg_idx := target\<rparr> else c1)"

definition ring_rewind :: "nat \<Rightarrow> ('v, 'z) ring_scheme \<Rightarrow> bool \<times> ('v, 'z) ring_scheme" where
  "ring_rewind target c =
     (if rg_offset c \<le> target then (target = rg_offset c, c)
      else if rg_maxSize c < rg_offset c then (False, c)
      else (True, c\<lparr>rg_offset := target, rg_idx := target\<rparr>))"

definition ring_refuses :: "nat \<Rightarrow> nat \<Rightarrow> nat \<Rightarrow> bool" where
  "ring_refuses maxSize toOffset target \<longleftrightarrow> toOffset < target \<or> (target < toOffset \<and> maxSize < toOffset)"

definition ring_Restore :: "'v ringCopy option \<Rightarrow> nat \<Rightarrow> ('v, 'z) ring_scheme \<Rightarrow> bool \<times> ('v, 'z) ring_scheme" where
  "ring_Restore snapshot target c =
     (case snapshot of
        None \<Rightarrow> ring_rewind target c
      | Some s \<Rightarrow>
          if ring_refuses (rg_maxSize c) (gc_toOffset s) target then (False, c) else (True, ring_put s target c))"

definition ring_Free :: "('v, 'z) ring_scheme \<Rightarrow> ('v, 'z) ring_scheme" where
  "ring_Free c = c\<lparr>rg_keys := None, rg_offset := 0, rg_idx := 0\<rparr>"

section \<open>The buffer as a window\<close>

definition lastn :: "nat \<Rightarrow> 'a list \<Rightarrow> 'a list" where
  "lastn n xs = drop (length xs - n) xs"

definition ring_window :: "('v, 'z) ring_scheme \<Rightarrow> 'v list" where
  "ring_window c =
     (case rg_keys c of
        None \<Rightarrow> []
      | Some b \<Rightarrow>
          if rg_offset c \<le> rg_maxSize c then take (rg_offset c) b
          else if rg_idx c < length b then drop (rg_idx c) b @ take (rg_idx c) b
          else b)"

definition ring_ok :: "('v, 'z) ring_scheme \<Rightarrow> bool" where
  "ring_ok c \<longleftrightarrow> 0 < rg_step c \<and> 0 < rg_maxSize c \<and>
     (case rg_keys c of
        None \<Rightarrow> rg_offset c = 0 \<and> rg_idx c = 0
      | Some b \<Rightarrow>
          if rg_offset c \<le> rg_maxSize c then rg_idx c = rg_offset c \<and> rg_offset c \<le> length b \<and> length b \<le> rg_maxSize c
          else rg_idx c \<le> length b \<and> rg_maxSize c \<le> length b \<and> length b \<le> rg_offset c \<and>
            (rg_idx c < length b \<longrightarrow> length b = rg_maxSize c))"

lemma lastn_simps [simp]:
  "length (lastn n xs) = min n (length xs)" "length xs \<le> n \<Longrightarrow> lastn n xs = xs" "suffix (lastn n xs) xs"
  by (auto simp: lastn_def suffix_drop)

lemma ring_window_length:
  "ring_ok c \<Longrightarrow> length (ring_window c) \<le> rg_offset c \<and> min (rg_offset c) (rg_maxSize c) \<le> length (ring_window c)"
  by (auto simp: ring_ok_def ring_window_def split: option.splits if_splits)

lemma ring_concat_window:
  assumes "ring_ok c" "keys \<noteq> []" "batched keys"
  shows "ring_ok (ring_concat keys c) \<and> ring_window (ring_concat keys c) = lastn (rg_maxSize c - 1) (ring_window c) @ keys \<and>
    rg_keys (ring_concat keys c) = Some (lastn (rg_maxSize c - 1) (ring_window c) @ keys)"
proof (cases "rg_keys c")
  case None
  then show ?thesis using assms by (auto simp: ring_concat_def ring_ok_def ring_window_def Let_def)
next
  case (Some b)
  obtain b1 i where l: "linearize (rg_offset c) (rg_maxSize c) (rg_idx c) b = (b1, i)" by fastforce
  have w: "b1 = ring_window c" "i = length b1"
    using l assms(1) Some by (auto simp: linearize_def ring_ok_def ring_window_def split: if_splits)
  have t: "(if rg_maxSize c < Suc i then drop (Suc i - rg_maxSize c) b1 else b1) = lastn (rg_maxSize c - 1) (ring_window c)"
    using w assms(1) by (auto simp: lastn_def ring_ok_def)
  have keys: "rg_keys (ring_concat keys c) = Some (lastn (rg_maxSize c - 1) (ring_window c) @ keys)"
    using Some l t by (simp add: ring_concat_def Let_def)
  have "2 \<le> length keys" using assms(3) by (simp add: batched_def)
  then show ?thesis using keys l Some t ring_window_length[OF assms(1)] assms(1)
    by (auto simp: ring_concat_def ring_ok_def ring_window_def Let_def)
qed

text \<open>A single write, by the state of the buffer.\<close>

lemma drop_rotate: "i < length b \<Longrightarrow> lastn (length b - 1) (drop i b @ take i b) = drop (Suc i) b @ take i b"
  by (simp add: lastn_def drop_Suc drop_tl)

lemma ring_update_window:
  assumes "ring_ok c"
  shows "ring_ok (ring_update z [x] c) \<and> ring_window (ring_update z [x] c) = lastn (rg_maxSize c - 1) (ring_window c) @ [x]"
proof (cases "rg_keys c")
  case None
  then show ?thesis using assms by (auto simp: ring_update_def ring_ok_def ring_window_def Let_def)
next
  case (Some b)
  let ?M = "rg_maxSize c" and ?n = "rg_offset c"
  have M: "0 < ?M" "0 < rg_step c" using assms by (simp_all add: ring_ok_def)
  consider (grow) "?n < ?M" "length b = ?n" "rg_idx c = ?n" | (room) "?n < ?M" "?n < length b" "length b \<le> ?M" "rg_idx c = ?n"
    | (ring) "?M \<le> ?n" "length b = ?M" "rg_idx c \<le> ?M" "?n = ?M \<Longrightarrow> rg_idx c = ?M" | (long) "?M < ?n" "?M < length b" "length b \<le> ?n" "rg_idx c = length b"
    using assms Some by (fastforce simp: ring_ok_def split: if_splits)
  then show ?thesis
  proof cases
    case grow
    then show ?thesis using Some M by (auto simp: ring_update_def ring_ok_def ring_window_def Let_def)
  next
    case room
    then show ?thesis using Some M by (auto simp: ring_update_def ring_ok_def ring_window_def Let_def)
  next
    case long
    then have l: "lastn (?M - 1) b = drop (Suc (length b - ?M)) b" using M long by (simp add: lastn_def Suc_diff_le)
    have "ring_update z [x] c = c\<lparr>rg_keys := Some (x # drop (Suc (length b - ?M)) b), rg_offset := Suc ?n, rg_idx := 1\<rparr>"
      using long Some M by (simp add: ring_update_def Suc_diff_le)
    moreover have "ring_window c = b" using long Some by (simp add: ring_window_def)
    ultimately show ?thesis using Some M long l by (auto simp: ring_ok_def ring_window_def)
  next
    case ring
    define i where "i = (if ?M \<le> rg_idx c then 0 else rg_idx c)"
    have i: "i < length b" using M ring by (auto simp: i_def)
    have w: "ring_window c = drop i b @ take i b"
      using ring Some i by (auto simp: ring_window_def i_def)
    have "ring_update z [x] c = c\<lparr>rg_keys := Some (take i b @ [x] @ drop (Suc i) b), rg_offset := Suc ?n, rg_idx := Suc i\<rparr>"
      using ring Some by (auto simp: ring_update_def i_def Let_def)
    moreover have "lastn (?M - 1) (ring_window c) = drop (Suc i) b @ take i b" using drop_rotate[OF i] ring(2) w by simp
    ultimately show ?thesis using ring Some M i by (auto simp: ring_ok_def ring_window_def)
  qed
qed

lemma ring_write_window:
  assumes "ring_ok c" "keys \<noteq> []"
  shows "ring_ok (ring_write z keys c)" "ring_window (ring_write z keys c) = lastn (rg_maxSize c - 1) (ring_window c) @ keys"
    "rg_offset (ring_write z keys c) = rg_offset c + length keys" "rg_maxSize (ring_write z keys c) = rg_maxSize c"
proof -
  have "batched keys \<or> (\<exists>x. keys = [x])" using assms(2) by (cases keys rule: remdups_adj.cases) (auto simp: batched_def)
  then show "ring_ok (ring_write z keys c)" "ring_window (ring_write z keys c) = lastn (rg_maxSize c - 1) (ring_window c) @ keys"
    using ring_concat_window[OF assms] ring_update_window[OF assms(1)] by (auto simp: ring_write_def batched_def)
  show "rg_offset (ring_write z keys c) = rg_offset c + length keys" "rg_maxSize (ring_write z keys c) = rg_maxSize c"
    by (simp_all add: ring_write_def ring_concat_def ring_update_def Let_def split: prod.splits option.splits)
qed

section \<open>The contract of a layer\<close>

text \<open>
  The entries of a layer are what the model computes for the positions; a layer holds a sequence when its
  window is the end of the entries, and a snapshot covers it when a buffer made from the snapshot does.
\<close>

definition ring_holds :: "nat \<Rightarrow> ('k list \<Rightarrow> 'v) \<Rightarrow> ('v, 'z) ring_scheme \<Rightarrow> 'k list \<Rightarrow> bool" where
  "ring_holds M entry c w \<longleftrightarrow>
     ring_ok c \<and> rg_maxSize c = M \<and> rg_offset c = length w \<and> suffix (ring_window c) (entries entry w)"

definition ring_of :: "nat \<Rightarrow> 'v ringCopy \<Rightarrow> 'v ring" where
  "ring_of M s = \<lparr>rg_keys = Some (gc_keys s), rg_offset = gc_toOffset s, rg_step = 256, rg_maxSize = M, rg_idx = gc_idx s\<rparr>"

definition ring_covers :: "nat \<Rightarrow> ('k list \<Rightarrow> 'v) \<Rightarrow> 'v ringCopy \<Rightarrow> nat \<Rightarrow> 'k list \<Rightarrow> bool" where
  "ring_covers M entry s a w \<longleftrightarrow> ring_holds M entry (ring_of M s) w"

text \<open>A window that has not been left yet is everything.\<close>

lemma ring_holds_all:
  assumes "ring_holds M entry c w" "length w \<le> M"
  shows "ring_window c = entries entry w"
proof -
  have "length (entries entry w) \<le> length (ring_window c)"
    using assms ring_window_length[of c] by (auto simp: ring_holds_def)
  moreover obtain p where p: "entries entry w = p @ ring_window c" using assms(1) by (auto simp: ring_holds_def suffix_def)
  then have "length (entries entry w) = length p + length (ring_window c)" by (metis length_append)
  ultimately have "p = []" by simp
  then show ?thesis using p by simp
qed

lemma ring_holds_write:
  assumes "ring_holds M entry c w" "ts \<noteq> []"
  shows "ring_holds M entry (ring_write z (drop (length w) (entries entry (w @ ts))) c) (w @ ts)"
proof -
  let ?new = "drop (length w) (entries entry (w @ ts))"
  have all: "entries entry (w @ ts) = entries entry w @ ?new"
    using append_take_drop_id[of "length w" "entries entry (w @ ts)"] by (simp add: entries_take)
  have "suffix (lastn (M - 1) (ring_window c)) (entries entry w)"
    using assms(1) suffix_order.trans[OF lastn_simps(3)] by (auto simp: ring_holds_def)
  then have "suffix (lastn (M - 1) (ring_window c) @ ?new) (entries entry (w @ ts))" by (subst all) simp
  moreover have "?new \<noteq> []" using assms(2) by simp
  ultimately show ?thesis using ring_write_window[of c ?new z] assms by (simp add: ring_holds_def)
qed

lemma ring_rewind_holds:
  assumes "ring_holds M entry c w" "ring_rewind t c = (True, c')"
  shows "t \<le> length w \<and> ring_holds M entry c' (take t w)"
proof (cases "rg_offset c \<le> t")
  case True
  then show ?thesis using assms by (auto simp: ring_rewind_def ring_holds_def)
next
  case False
  then have c': "length w \<le> M" "c' = c\<lparr>rg_offset := t, rg_idx := t\<rparr>" "t < length w"
    using assms by (auto simp: ring_rewind_def ring_holds_def split: if_splits)
  obtain b where b: "rg_keys c = Some b" "length w \<le> length b" "length b \<le> M" "rg_maxSize c = M" "rg_offset c = length w"
    using assms(1) c' by (auto simp: ring_holds_def ring_ok_def split: option.splits)
  have "take (length w) b = entries entry w" using ring_holds_all[OF assms(1) c'(1)] b c'(1) by (simp add: ring_window_def)
  then have "take t b = take t (entries entry w)" using c'(3) by (metis less_imp_le min.absorb1 take_take)
  then show ?thesis using assms(1) b c' by (simp add: ring_holds_def ring_ok_def ring_window_def entries_take)
qed

lemma ring_put_rewind:
  "ring_put s t c = (let c1 = c\<lparr>rg_keys := Some (gc_keys s), rg_offset := gc_toOffset s, rg_idx := gc_idx s\<rparr>
     in if t < gc_toOffset s then c1\<lparr>rg_offset := t, rg_idx := t\<rparr> else c1)"
  by (simp add: ring_put_def Let_def)

lemma ring_put_holds:
  assumes "ring_ok c" "rg_maxSize c = M" "ring_covers M entry s a v" "\<not> ring_refuses M (gc_toOffset s) t"
  shows "t \<le> length v \<and> ring_holds M entry (ring_put s t c) (take t v)"
proof -
  let ?c = "c\<lparr>rg_keys := Some (gc_keys s), rg_offset := gc_toOffset s, rg_idx := gc_idx s\<rparr>"
  have h: "ring_holds M entry ?c v"
    using assms(1-3) by (auto simp: ring_covers_def ring_holds_def ring_of_def ring_ok_def ring_window_def split: option.splits)
  have to: "gc_toOffset s = length v" using h by (simp add: ring_holds_def)
  show ?thesis
  proof (cases "t < length v")
    case True
    then have "ring_rewind t ?c = (True, ring_put s t c)"
      using assms(2,4) to by (simp add: ring_rewind_def ring_refuses_def ring_put_rewind Let_def)
    then show ?thesis by (rule ring_rewind_holds[OF h])
  next
    case False
    then show ?thesis using h assms(4) to by (simp add: ring_put_rewind Let_def ring_refuses_def)
  qed
qed

lemma ring_Snapshot_covers:
  assumes "ring_holds M entry c w" "ring_Snapshot a c = Some s"
  shows "ring_covers M entry s a' w"
proof -
  obtain b where b: "rg_keys c = Some b" "s = \<lparr>gc_keys = take (min (rg_offset c) (length b)) b, gc_fromOffset = a,
      gc_toOffset = rg_offset c, gc_idx = rg_idx c\<rparr>"
    using assms(2) by (auto simp: ring_Snapshot_def ring_State_def split: option.splits if_splits)
  show ?thesis
  proof (cases "rg_offset c \<le> M")
    case True
    then show ?thesis using assms(1) b
      by (auto simp: ring_covers_def ring_holds_def ring_of_def ring_ok_def ring_window_def)
  next
    case False
    then have "s = \<lparr>gc_keys = b, gc_fromOffset = a, gc_toOffset = rg_offset c, gc_idx = rg_idx c\<rparr>"
      using assms(1) b by (auto simp: ring_holds_def ring_ok_def split: if_splits)
    then show ?thesis using assms(1) b(1) False
      by (auto simp: ring_covers_def ring_holds_def ring_of_def ring_ok_def ring_window_def split: if_splits)
  qed
qed

lemma window_room: "0 < M \<Longrightarrow> min n M \<le> l \<Longrightarrow> n < x \<Longrightarrow> n = q + min (M - 1) l \<Longrightarrow> q \<le> x - min x (M::nat)"
  by (auto simp: min_def split: if_splits)

text \<open>After a batch every offset inside it has its whole window in the buffer.\<close>

lemma ring_window_copy_covers:
  assumes "ring_holds M entry c w" "batched keys" "keys = drop (length w) (entries entry (w @ ts))"
    "length w < x" "x \<le> length (w @ ts)" "ring_window_copy x (ring_write z keys c) = Some s"
  shows "ring_covers M entry s a (take x (w @ ts))"
proof -
  let ?v = "w @ ts" and ?c = "ring_write z keys c"
  have ok: "ring_ok c" "rg_maxSize c = M" "0 < M" "rg_offset c = length w"
    using assms(1) by (auto simp: ring_holds_def ring_ok_def)
  have ne: "keys \<noteq> []" using assms(2) by (auto simp: batched_def)
  then have "ts \<noteq> []" using assms(3) by auto
  then have h: "ring_holds M entry ?c ?v" using ring_holds_write[OF assms(1), of ts z] assms(3) by simp
  define b where "b = lastn (M - 1) (ring_window c) @ keys"
  have b: "rg_keys ?c = Some b" "ring_window ?c = b"
    using ring_concat_window[OF ok(1) ne assms(2)] assms(2) ok(2) by (simp_all add: ring_write_def b_def)
  have off: "rg_offset ?c = length ?v" "rg_maxSize ?c = M" using h by (simp_all add: ring_holds_def)
  obtain p where p: "entries entry ?v = p @ b" using h b(2) by (auto simp: ring_holds_def suffix_def)
  then have "length (entries entry ?v) = length p + length b" by simp
  then have base: "length ?v = length p + length b" by simp
  have win: "min (length w) M \<le> length (ring_window c)" using ring_window_length[OF ok(1)] ok by simp
  have "length b = min (M - 1) (length (ring_window c)) + length ts" using assms(3) by (simp add: b_def)
  then have room: "length p \<le> x - min x M" 
    by (intro window_room[OF ok(3) win assms(4)]) (use base in simp)
  have slots: "window_slots (length b) x ?c = (int (x - min x M) - int (length p), int x - int (length p))"
    using base off by (auto simp: window_slots_def Let_def)
  have s: "s = \<lparr>gc_keys = drop (x - min x M - length p) (take (x - length p) b), gc_fromOffset = x - min x M,
      gc_toOffset = x, gc_idx = min x M\<rparr>"
    using assms(6) b(1) slots room off(2) by (auto simp: ring_window_copy_def nat_diff_distrib split: if_splits)
  have "drop (x - min x M - length p) (take (x - length p) b) = drop (x - min x M) (take x (entries entry ?v))"
    using room by (simp add: p drop_take)
  then have keys: "gc_keys s = drop (x - min x M) (entries entry (take x ?v))" using s by (simp add: entries_take)
  moreover have "length (entries entry (take x ?v)) = x" using assms(5) by simp
  ultimately have "length (gc_keys s) = min x M" by simp
  then show ?thesis using keys s assms(5) ok(3)
    by (auto simp: ring_covers_def ring_holds_def ring_of_def ring_ok_def ring_window_def suffix_drop min_def)
qed


section \<open>The layer\<close>

record 'v ringLayer =
  gl_ring :: "'v ring"
  gl_pending :: "'v ringCopy pendingSnapshots"

definition new_ringLayer :: "nat \<Rightarrow> 'v ringLayer" where
  "new_ringLayer M = \<lparr>gl_ring = new_ring M, gl_pending = no_pending\<rparr>"

definition gl_capture :: "nat \<Rightarrow> 'v ringCopy option \<Rightarrow> 'v ringLayer \<Rightarrow> 'v ringLayer" where
  "gl_capture x s c = c\<lparr>gl_pending := fst (captureReached x (\<lambda>u. (s, u)) (gl_pending c) ())\<rparr>"

definition gl_capture_end :: "bool \<Rightarrow> nat \<Rightarrow> 'v ringLayer \<Rightarrow> 'v ringLayer" where
  "gl_capture_end batch x c =
     gl_capture x (if batch then ring_window_copy x (gl_ring c)
                   else ring_Snapshot (x - min x (rg_maxSize (gl_ring c))) (gl_ring c)) c"

definition gl_Update :: "'v \<Rightarrow> 'v list \<Rightarrow> 'v ringLayer \<Rightarrow> 'v ringLayer" where
  "gl_Update z keys c =
     (let start = rg_offset (gl_ring c);
          c1 = gl_capture start (ring_Snapshot 0 (gl_ring c)) c;
          r = ring_write z keys (gl_ring c1)
      in fold (gl_capture_end (batched keys))
           (filter (\<lambda>x. x \<noteq> start) (scheduledIn start (rg_offset r) (gl_pending c1))) (c1\<lparr>gl_ring := r\<rparr>))"

definition ring_ops :: "('v ringLayer, 'v ringCopy) cache_ops" where
  "ring_ops =
     \<lparr>co_Offset = (\<lambda>c. rg_offset (gl_ring c)),
      co_Free = (\<lambda>c. \<lparr>gl_ring = ring_Free (gl_ring c), gl_pending = no_pending\<rparr>),
      co_Snapshot = (\<lambda>a c. ring_Snapshot a (gl_ring c)),
      co_Restore = (\<lambda>sn t c. case ring_Restore sn t (gl_ring c) of (b, r) \<Rightarrow> (b, c\<lparr>gl_ring := r\<rparr>)),
      co_Merge = (\<lambda>parent child. child), co_Split = (\<lambda>s at. (None, Some s)),
      co_PrepareSnapshots = (\<lambda>xs c. map_option (\<lambda>p. c\<lparr>gl_pending := p\<rparr>) (pd_prepare (rg_offset (gl_ring c)) xs (gl_pending c))),
      co_TakeSnapshots = (\<lambda>c. case pd_take (gl_pending c) of (out, p) \<Rightarrow> (out, c\<lparr>gl_pending := p\<rparr>))\<rparr>"

definition gl_rests :: "nat \<Rightarrow> ('k list \<Rightarrow> 'v) \<Rightarrow> 'v ringLayer \<Rightarrow> 'k list \<Rightarrow> bool" where
  "gl_rests M entry c w \<longleftrightarrow> ring_holds M entry (gl_ring c) w \<and> pd_slots (gl_pending c) = None"

definition gl_captured :: "nat \<Rightarrow> ('k list \<Rightarrow> 'v) \<Rightarrow> 'v ringLayer \<Rightarrow> nat list \<Rightarrow> 'k list \<Rightarrow> bool" where
  "gl_captured M entry c xs w \<longleftrightarrow>
     (\<exists>f. pd_slots (gl_pending c) = Some (slots f xs) \<and>
        (\<forall>x s. x \<in> set xs \<longrightarrow> f x = Some s \<longrightarrow> x \<le> length w \<and> ring_covers M entry s 0 (take x w)))"

definition gl_pends :: "nat \<Rightarrow> ('k list \<Rightarrow> 'v) \<Rightarrow> 'v ringLayer \<Rightarrow> nat \<Rightarrow> nat list \<Rightarrow> 'k list \<Rightarrow> bool" where
  "gl_pends M entry c b xs w \<longleftrightarrow> ring_holds M entry (gl_ring c) w \<and> gl_captured M entry c xs w"

definition gl_forward :: "'v \<Rightarrow> ('k list \<Rightarrow> 'v) \<Rightarrow> 'k list \<Rightarrow> 'k list \<Rightarrow> 'v ringLayer \<Rightarrow> 'v ringLayer option" where
  "gl_forward z entry w ts c = Some (gl_Update z (drop (length w) (entries entry (w @ ts))) c)"

lemma gl_capture_ring [simp]: "gl_ring (gl_capture x s c) = gl_ring c" "gl_ring (gl_capture_end bt x c) = gl_ring c"
  by (simp_all add: gl_capture_def gl_capture_end_def)

lemma gl_capture_captured:
  assumes "gl_captured M entry c xs w" "\<And>s. sn = Some s \<Longrightarrow> x \<le> length w \<and> ring_covers M entry s 0 (take x w)"
  shows "gl_captured M entry (gl_capture x sn c) xs w"
proof -
  obtain f where f: "pd_slots (gl_pending c) = Some (slots f xs)"
    "\<And>x s. x \<in> set xs \<Longrightarrow> f x = Some s \<Longrightarrow> x \<le> length w \<and> ring_covers M entry s 0 (take x w)"
    using assms(1) unfolding gl_captured_def by blast
  let ?f = "\<lambda>y. if f y = None \<and> y = x then sn else f y"
  have "pd_slots (gl_pending (gl_capture x sn c)) = Some (slots ?f xs)"
    using f(1) by (auto simp: gl_capture_def captureReached_def capture_slots_pure)
  then show ?thesis using f(2) assms(2) unfolding gl_captured_def by (intro exI[of _ ?f]) (auto split: if_splits)
qed

lemma gl_captured_more:
  assumes "gl_captured M entry c xs w"
  shows "gl_captured M entry c xs (w @ ts)"
  using assms unfolding gl_captured_def by (elim exE) (rule exI, fastforce)

lemma gl_captures_captured:
  assumes "\<And>x. x \<in> set ys \<Longrightarrow> x \<le> length v \<and>
      (\<forall>s. (if bt then ring_window_copy x r else ring_Snapshot (x - min x (rg_maxSize r)) r) = Some s \<longrightarrow>
         ring_covers M entry s 0 (take x v))"
  shows "gl_captured M entry c xs v \<Longrightarrow> gl_ring c = r \<Longrightarrow>
    gl_captured M entry (fold (gl_capture_end bt) ys c) xs v \<and> gl_ring (fold (gl_capture_end bt) ys c) = r"
  using assms
proof (induction ys arbitrary: c)
  case (Cons y ys)
  have "gl_captured M entry (gl_capture_end bt y c) xs v"
    unfolding gl_capture_end_def by (rule gl_capture_captured[OF Cons.prems(1)]) (use Cons.prems(2,3) in auto)
  then show ?case using Cons.IH[of "gl_capture_end bt y c"] Cons.prems by simp
qed simp

lemma gl_forward_pends:
  assumes "gl_pends M entry c b xs w" "ts \<noteq> []"
  shows "\<exists>c'. gl_forward z entry w ts c = Some c' \<and> gl_pends M entry c' b xs (w @ ts)"
proof -
  let ?r = "gl_ring c" and ?n = "length w" and ?v = "w @ ts"
  have h: "ring_holds M entry ?r w" "gl_captured M entry c xs w" using assms(1) by (simp_all add: gl_pends_def)
  define keys where "keys = drop ?n (entries entry ?v)"
  define c1 where "c1 = gl_capture ?n (ring_Snapshot 0 ?r) c"
  define r where "r = ring_write z keys ?r"
  have off: "rg_offset ?r = ?n" using h(1) by (simp add: ring_holds_def)
  have hr: "ring_holds M entry r ?v" unfolding r_def keys_def by (rule ring_holds_write[OF h(1) assms(2)])
  have rm: "rg_maxSize r = M" "rg_offset r = length ?v" using hr by (simp_all add: ring_holds_def)
  have "gl_captured M entry c1 xs w"
    unfolding c1_def by (rule gl_capture_captured[OF h(2)]) (use ring_Snapshot_covers[OF h(1)] in auto)
  then have c1: "gl_captured M entry (c1\<lparr>gl_ring := r\<rparr>) xs ?v"
    using gl_captured_more[of M entry c1 xs w ts] by (simp add: gl_captured_def)
  define ys where "ys = filter (\<lambda>x. x \<noteq> ?n) (scheduledIn ?n (length ?v) (gl_pending c1))"
  have "x \<le> length ?v \<and> (\<forall>s. (if batched keys then ring_window_copy x r else ring_Snapshot (x - min x (rg_maxSize r)) r) = Some s \<longrightarrow>
      ring_covers M entry s 0 (take x ?v))" if "x \<in> set ys" for x
  proof -
    have x: "?n < x" "x \<le> length ?v" using that by (auto simp: ys_def scheduledIn_def)
    have "ring_covers M entry s 0 (take x ?v)" if "batched keys" "ring_window_copy x r = Some s" for s
      using ring_window_copy_covers[OF h(1) that(1) keys_def x that(2)[unfolded r_def]] .
    moreover have "ring_covers M entry s 0 (take x ?v)" if "\<not> batched keys" "ring_Snapshot a r = Some s" for s a
    proof -
      have "length ts = 1" using that(1) assms(2) by (cases ts) (auto simp: batched_def keys_def)
      then have "take x ?v = ?v" using x by simp
      then show ?thesis using ring_Snapshot_covers[OF hr that(2)] by simp
    qed
    ultimately show ?thesis using x(2) by simp
  qed
  from gl_captures_captured[OF this c1] have
    "gl_captured M entry (fold (gl_capture_end (batched keys)) ys (c1\<lparr>gl_ring := r\<rparr>)) xs ?v \<and>
     gl_ring (fold (gl_capture_end (batched keys)) ys (c1\<lparr>gl_ring := r\<rparr>)) = r" by simp
  moreover have "gl_Update z keys c = fold (gl_capture_end (batched keys)) ys (c1\<lparr>gl_ring := r\<rparr>)"
    using rm(2) by (simp add: gl_Update_def Let_def ys_def r_def c1_def off)
  ultimately show ?thesis using hr by (simp add: gl_forward_def gl_pends_def keys_def[symmetric])
qed

lemma captures_none: "gl_pending c = p \<Longrightarrow> pd_slots p = None \<Longrightarrow> gl_capture x s c = c"
  by (simp add: gl_capture_def captureReached_def)

lemma gl_forward_rests:
  assumes "gl_rests M entry c w" "ts \<noteq> []"
  shows "\<exists>c'. gl_forward z entry w ts c = Some c' \<and> gl_rests M entry c' (w @ ts)"
proof -
  have h: "ring_holds M entry (gl_ring c) w" "pd_slots (gl_pending c) = None" using assms(1) by (simp_all add: gl_rests_def)
  have "gl_forward z entry w ts c = Some (c\<lparr>gl_ring := ring_write z (drop (length w) (entries entry (w @ ts))) (gl_ring c)\<rparr>)"
    using h(2) by (simp add: gl_forward_def gl_Update_def Let_def captures_none scheduledIn_def pd_offsets_def)
  then show ?thesis using ring_holds_write[OF h(1) assms(2)] h(2) by (simp add: gl_rests_def)
qed

lemma ring_Restore_rests:
  assumes "gl_rests M entry c w" "co_Restore ring_ops sn t c = (b, c')"
  shows "ring_Restore sn t (gl_ring c) = (b, gl_ring c')" "gl_pending c' = gl_pending c"
  using assms(2) by (auto simp: ring_ops_def split: prod.splits)

interpretation ringc: capturing_layer ring_ops "gl_rests M entry" "ring_covers M entry" "gl_forward z entry" "gl_pends M entry"
proof (unfold_locales, goal_cases)
  case (1 c w)
  then show ?case by (simp add: ring_ops_def gl_rests_def ring_holds_def)
next
  case (2 c w)
  then show ?case
    by (auto simp: ring_ops_def gl_rests_def ring_holds_def ring_Free_def ring_ok_def ring_window_def no_pending_def)
next
  case (3 c w t c')
  note r = ring_Restore_rests[OF 3]
  have "ring_holds M entry (gl_ring c) w" using 3(1) by (simp add: gl_rests_def)
  then show ?case using ring_rewind_holds[of M entry "gl_ring c" w t "gl_ring c'"] r 3(1) by (auto simp: gl_rests_def ring_Restore_def)
next
  case (4 c w v s a t c')
  note r = ring_Restore_rests[OF 4(1,4)]
  have "ring_ok (gl_ring c)" "rg_maxSize (gl_ring c) = M" using 4(1) by (simp_all add: gl_rests_def ring_holds_def)
  from ring_put_holds[OF this 4(3), of t] show ?case using r 4(1) 4(1)
    by (auto simp: gl_rests_def ring_Restore_def ring_holds_def split: if_splits)
next
  case (5 c w sn t c')
  note r = ring_Restore_rests[OF 5]
  have "gl_ring c' = gl_ring c" using r(1) by (auto simp: ring_Restore_def ring_rewind_def split: option.splits if_splits)
  then show ?case using 5(1) r(2) by (simp add: gl_rests_def)
next
  case (6 c w a s)
  then show ?case using ring_Snapshot_covers[of M entry "gl_ring c" w a s a] by (auto simp: gl_rests_def ring_ops_def)
next
  case (7 s a w b p q)
  then show ?case by (auto simp: ring_ops_def ring_covers_def)
next
  case (8 p a b w q m)
  then show ?case by (auto simp: ring_ops_def ring_covers_def)
next
  case (9 c w xs)
  then have "rg_offset (gl_ring c) = length w" by (simp add: gl_rests_def ring_holds_def)
  then have "pd_prepare (rg_offset (gl_ring c)) xs (gl_pending c) = Some \<lparr>pd_slots = Some (slots (\<lambda>_. None) xs), pd_base = length w\<rparr>"
    using 9 by (auto simp: pd_prepare_def gl_rests_def check_offsets_iff)
  then show ?case using 9(1) by (auto simp: ring_ops_def gl_pends_def gl_rests_def gl_captured_def intro!: exI[of _ "\<lambda>_. None"])
next
  case (10 c w ts)
  then show ?case by (rule gl_forward_rests)
next
  case (11 c b xs w ts)
  then show ?case by (rule gl_forward_pends)
next
  case (12 c b xs w ss c')
  then obtain f where f: "pd_slots (gl_pending c) = Some (slots f xs)"
    "\<And>x s. x \<in> set xs \<Longrightarrow> f x = Some s \<Longrightarrow> x \<le> length w \<and> ring_covers M entry s 0 (take x w)"
    unfolding gl_pends_def gl_captured_def by blast
  have ss: "ss = map f xs" "gl_ring c' = gl_ring c" "pd_slots (gl_pending c') = None"
    using 12(2) f(1) by (auto simp: ring_ops_def pd_take_def comp_def)
  have "caught (ring_covers M entry) b xs w ss"
    unfolding caught_def using f(2) ss(1) by (auto simp: nth_mem intro!: exI[of _ 0])
  then show ?case using ss 12(1) by (simp add: gl_rests_def gl_pends_def)
next
  case (13 c b xs w)
  then show ?case by (simp add: ring_ops_def gl_pends_def ring_holds_def)
qed

end
