(* ===== verification/ModelLayers.thy ===== *)
theory ModelLayers
  imports RotatingBuffer
begin

text \<open>
  A model with layers of several kinds. In the code a cache is a value of the interface \<^verbatim>\<open>Cache\<close>, so its
  list of caches mixes attention layers, sliding-window layers and recurrent layers, and a snapshot is
  brought back to the type of its layer by an assertion. \<open>lift_ops\<close> is a layer as such a value; what the
  prefix cache promises then holds for every model that is a list of layers of the three kinds.
\<close>

section \<open>A layer as a value of the interface\<close>

text \<open>
  \<open>wrap\<close> and \<open>unwrap\<close> make the value and take it apart again. A value of another kind, where the code panics,
  gives no state and no snapshot; the layers of a list only ever see their own.
\<close>

definition lift_ops ::
  "('c \<Rightarrow> 'd) \<Rightarrow> ('d \<Rightarrow> 'c option) \<Rightarrow> ('s \<Rightarrow> 't) \<Rightarrow> ('t \<Rightarrow> 's option) \<Rightarrow> ('c, 's) cache_ops \<Rightarrow> ('d, 't) cache_ops" where
  "lift_ops wrap unwrap swrap sunwrap ops =
     \<lparr>co_Offset = (\<lambda>d. case unwrap d of None \<Rightarrow> 0 | Some c \<Rightarrow> co_Offset ops c),
      co_Free = (\<lambda>d. case unwrap d of None \<Rightarrow> d | Some c \<Rightarrow> wrap (co_Free ops c)),
      co_Snapshot = (\<lambda>a d. case unwrap d of None \<Rightarrow> None | Some c \<Rightarrow> map_option swrap (co_Snapshot ops a c)),
      co_Restore = (\<lambda>sn t d.
        case (unwrap d, sn) of
          (Some c, None) \<Rightarrow> map_prod id wrap (co_Restore ops None t c)
        | (Some c, Some s) \<Rightarrow>
            (case sunwrap s of None \<Rightarrow> (False, d) | Some s' \<Rightarrow> map_prod id wrap (co_Restore ops (Some s') t c))
        | _ \<Rightarrow> (False, d)),
      co_Merge = (\<lambda>p q. map_option swrap (co_Merge ops (Option.bind p sunwrap) (Option.bind q sunwrap))),
      co_Split = (\<lambda>s b. case sunwrap s of None \<Rightarrow> (None, None) | Some s' \<Rightarrow> map_prod (map_option swrap) (map_option swrap) (co_Split ops s' b)),
      co_PrepareSnapshots = (\<lambda>xs d. case unwrap d of None \<Rightarrow> None | Some c \<Rightarrow> map_option wrap (co_PrepareSnapshots ops xs c)),
      co_TakeSnapshots = (\<lambda>d. case unwrap d of None \<Rightarrow> ([], d) | Some c \<Rightarrow> map_prod (map (map_option swrap)) wrap (co_TakeSnapshots ops c))\<rparr>"

definition lift_holds :: "('d \<Rightarrow> 'c option) \<Rightarrow> ('c \<Rightarrow> 'k list \<Rightarrow> bool) \<Rightarrow> 'd \<Rightarrow> 'k list \<Rightarrow> bool" where
  "lift_holds unwrap holds d w = (case unwrap d of None \<Rightarrow> False | Some c \<Rightarrow> holds c w)"

definition lift_covers :: "('t \<Rightarrow> 's option) \<Rightarrow> ('s \<Rightarrow> nat \<Rightarrow> 'k list \<Rightarrow> bool) \<Rightarrow> 't \<Rightarrow> nat \<Rightarrow> 'k list \<Rightarrow> bool" where
  "lift_covers sunwrap covers s a w = (case sunwrap s of None \<Rightarrow> False | Some s' \<Rightarrow> covers s' a w)"

definition lift_feed ::
  "('c \<Rightarrow> 'd) \<Rightarrow> ('d \<Rightarrow> 'c option) \<Rightarrow> ('k list \<Rightarrow> 'k list \<Rightarrow> 'c \<Rightarrow> 'c option) \<Rightarrow> 'k list \<Rightarrow> 'k list \<Rightarrow> 'd \<Rightarrow> 'd option" where
  "lift_feed wrap unwrap feed w ts d = (case unwrap d of None \<Rightarrow> None | Some c \<Rightarrow> map_option wrap (feed w ts c))"

definition lift_pending ::
  "('d \<Rightarrow> 'c option) \<Rightarrow> ('c \<Rightarrow> nat \<Rightarrow> nat list \<Rightarrow> 'k list \<Rightarrow> bool) \<Rightarrow> 'd \<Rightarrow> nat \<Rightarrow> nat list \<Rightarrow> 'k list \<Rightarrow> bool" where
  "lift_pending unwrap pending d b xs w = (case unwrap d of None \<Rightarrow> False | Some c \<Rightarrow> pending c b xs w)"

lemmas lift_defs = lift_ops_def lift_holds_def lift_covers_def lift_feed_def lift_pending_def

lemma map_prod_eq: "map_prod f g x = (a, b) \<longleftrightarrow> (\<exists>u v. x = (u, v) \<and> a = f u \<and> b = g v)"
  by (cases x) auto

context capturing_layer
begin

lemma lifted:
  assumes p: "\<And>c. unwrap (wrap c) = Some c" and s: "\<And>s. sunwrap (swrap s) = Some s"
  shows "capturing_layer (lift_ops wrap unwrap swrap sunwrap ops) (lift_holds unwrap holds) (lift_covers sunwrap covers)
    (lift_feed wrap unwrap feed) (lift_pending unwrap pending)"
proof (unfold_locales, goal_cases)
  case (1 c w)
  then show ?case by (auto simp: lift_defs offset split: option.splits)
next
  case (2 c w)
  then show ?case by (auto simp: lift_defs p free split: option.splits)
next
  case (3 c w t c')
  then obtain d d' where d: "unwrap c = Some d" "holds d w" "co_Restore ops None t d = (True, d')" "c' = wrap d'"
    by (auto simp: lift_defs map_prod_eq split: option.splits prod.splits)
  from rewind[OF d(2,3)] show ?case using d(4) p by (simp add: lift_holds_def)
next
  case (4 c w v sn a t c')
  then obtain d r d' where d: "unwrap c = Some d" "holds d w" "sunwrap sn = Some r" "covers r a v" "co_Restore ops (Some r) t d = (True, d')"
    "c' = wrap d'" by (auto simp: lift_defs map_prod_eq split: option.splits prod.splits)
  from restore[OF d(2) 4(2) d(4,5)] show ?case using d(6) p by (simp add: lift_holds_def)
next
  case (5 c w sn t c')
  then obtain d where d: "unwrap c = Some d" "holds d w" by (auto simp: lift_holds_def split: option.splits)
  consider "c' = c" | sn' d' where "co_Restore ops sn' t d = (False, d')" "c' = wrap d'"
    using 5(2) d(1) by (cases sn) (auto simp: lift_ops_def map_prod_eq split: option.splits prod.splits)
  then show ?case
  proof cases
    case 2
    then show ?thesis using refuse[OF d(2) 2(1)] p by (simp add: lift_holds_def)
  qed (use 5 in simp)
next
  case (6 c w a sn)
  then obtain d r where d: "unwrap c = Some d" "holds d w" "co_Snapshot ops a d = Some r" "sn = swrap r"
    by (auto simp: lift_defs split: option.splits)
  from snapshot[OF d(2) 6(2) d(3)] show ?case using d(4) s by (simp add: lift_covers_def)
next
  case (7 sn a w b q r)
  then obtain t q' r' where t: "sunwrap sn = Some t" "covers t a w" "co_Split ops t b = (q', r')" "q = map_option swrap q'" "r = map_option swrap r'"
    by (auto simp: lift_defs map_prod_eq split: option.splits prod.splits)
  from split[OF t(2) 7(2,3) t(3)] show ?case using t(4,5) s by (auto simp: lift_covers_def)
next
  case (8 q a b w r m)
  obtain m' where m: "co_Merge ops (Option.bind q sunwrap) (Option.bind r sunwrap) = Some m'" "m = swrap m'"
    using 8(5) by (auto simp: lift_ops_def)
  have "covers t a (take b w)" if "Option.bind q sunwrap = Some t" for t
    using 8(1) that by (cases q) (auto simp: lift_covers_def)
  moreover have "covers t b w" if "Option.bind r sunwrap = Some t" for t
    using 8(2) that by (cases r) (auto simp: lift_covers_def)
  ultimately have "covers m' a w" using merge[OF _ _ 8(3,4) m(1)] by blast
  then show ?case using m(2) s by (simp add: lift_covers_def)
next
  case (9 c w xs)
  then obtain d where d: "unwrap c = Some d" "holds d w" by (auto simp: lift_defs split: option.splits)
  from prepare[OF d(2) 9(2,3)] show ?case using d(1) p by (auto simp: lift_defs)
next
  case (10 c w ts)
  then obtain d where d: "unwrap c = Some d" "holds d w" by (auto simp: lift_defs split: option.splits)
  from feed_rest[OF d(2) 10(2)] show ?case using d(1) p by (auto simp: lift_defs)
next
  case (11 c b xs w ts)
  then obtain d where d: "unwrap c = Some d" "pending d b xs w" by (auto simp: lift_defs split: option.splits)
  from feed_pending[OF d(2) 11(2)] show ?case using d(1) p by (auto simp: lift_defs)
next
  case (12 c b xs w ss c')
  then obtain d ss' d' where d: "unwrap c = Some d" "pending d b xs w" "co_TakeSnapshots ops d = (ss', d')"
    "ss = map (map_option swrap) ss'" "c' = wrap d'"
    by (auto simp: lift_defs map_prod_eq split: option.splits prod.splits)
  from take_captures[OF d(2,3)] show ?case using d(4,5) p s by (auto simp: lift_defs caught_def)
next
  case (13 c b xs w)
  then show ?case by (auto simp: lift_defs prepared_offset split: option.splits)
qed

end

section \<open>The layers of a model\<close>

datatype ('v, 'w, 'a) layerState = AttentionLayer "'v kvLayer" | WindowLayer "'w ringLayer" | RecurrentLayer "'a RecurrentCache"

datatype ('v, 'w, 'a) layerSnapshot = AttentionSnap "'v kvCopy" | WindowSnap "'w ringCopy" | RecurrentSnap "'a recurrentSnapshot"

fun the_attention :: "('v, 'w, 'a) layerState \<Rightarrow> 'v kvLayer option" where
  "the_attention (AttentionLayer c) = Some c" | "the_attention _ = None"

fun the_window :: "('v, 'w, 'a) layerState \<Rightarrow> 'w ringLayer option" where
  "the_window (WindowLayer c) = Some c" | "the_window _ = None"

fun the_recurrent :: "('v, 'w, 'a) layerState \<Rightarrow> 'a RecurrentCache option" where
  "the_recurrent (RecurrentLayer c) = Some c" | "the_recurrent _ = None"

fun the_attentionSnap :: "('v, 'w, 'a) layerSnapshot \<Rightarrow> 'v kvCopy option" where
  "the_attentionSnap (AttentionSnap s) = Some s" | "the_attentionSnap _ = None"

fun the_windowSnap :: "('v, 'w, 'a) layerSnapshot \<Rightarrow> 'w ringCopy option" where
  "the_windowSnap (WindowSnap s) = Some s" | "the_windowSnap _ = None"

fun the_recurrentSnap :: "('v, 'w, 'a) layerSnapshot \<Rightarrow> 'a recurrentSnapshot option" where
  "the_recurrentSnap (RecurrentSnap s) = Some s" | "the_recurrentSnap _ = None"

text \<open>What the layers of a model are, with what each computes for the keys up to a position.\<close>

datatype ('v, 'w, 'a) layerSpec =
  NoCache | AttentionSpec "trieKey list \<Rightarrow> 'v" | WindowSpec nat "trieKey list \<Rightarrow> 'w" | RecurrentSpec "trieKey list \<Rightarrow> 'a"

fun new_layer ::
  "'v \<Rightarrow> ('v, 'w, 'a) layerSpec \<Rightarrow> (('v, 'w, 'a) layerState, ('v, 'w, 'a) layerSnapshot) kv" where
  "new_layer z NoCache = None"
| "new_layer z (AttentionSpec e) =
     Some (lift_ops AttentionLayer the_attention AttentionSnap the_attentionSnap (kv_ops z),
       AttentionLayer \<lparr>kl_buf = new_buffer, kl_pending = no_pending\<rparr>)"
| "new_layer z (WindowSpec M e) =
     Some (lift_ops WindowLayer the_window WindowSnap the_windowSnap ring_ops, WindowLayer (new_ringLayer M))"
| "new_layer z (RecurrentSpec e) =
     Some (lift_ops RecurrentLayer the_recurrent RecurrentSnap the_recurrentSnap rc_ops, RecurrentLayer NewRecurrentCache)"

fun spec_rests :: "('v, 'w, 'a) layerSpec \<Rightarrow> ('v, 'w, 'a) layerState \<Rightarrow> trieKey list \<Rightarrow> bool" where
  "spec_rests NoCache = (\<lambda>_ _. True)"
| "spec_rests (AttentionSpec e) = lift_holds the_attention (kl_rests e)"
| "spec_rests (WindowSpec M e) = lift_holds the_window (gl_rests M e)"
| "spec_rests (RecurrentSpec e) = lift_holds the_recurrent (rc_rests e)"

fun spec_covers :: "('v, 'w, 'a) layerSpec \<Rightarrow> ('v, 'w, 'a) layerSnapshot \<Rightarrow> nat \<Rightarrow> trieKey list \<Rightarrow> bool" where
  "spec_covers NoCache = (\<lambda>_ _ _. True)"
| "spec_covers (AttentionSpec e) = lift_covers the_attentionSnap (kv_covers e)"
| "spec_covers (WindowSpec M e) = lift_covers the_windowSnap (ring_covers M e)"
| "spec_covers (RecurrentSpec e) = lift_covers the_recurrentSnap (rc_covers e)"

fun spec_forward :: "'v \<Rightarrow> 'w \<Rightarrow> ('v, 'w, 'a) layerSpec \<Rightarrow> ('v, 'w, 'a) layerState feeder" where
  "spec_forward z y NoCache = (\<lambda>_ _ _. None)"
| "spec_forward z y (AttentionSpec e) = lift_feed AttentionLayer the_attention (kl_forward z e)"
| "spec_forward z y (WindowSpec M e) = lift_feed WindowLayer the_window (gl_forward y e)"
| "spec_forward z y (RecurrentSpec e) = lift_feed RecurrentLayer the_recurrent (rc_forward e)"

fun spec_pending :: "('v, 'w, 'a) layerSpec \<Rightarrow> ('v, 'w, 'a) layerState \<Rightarrow> nat \<Rightarrow> nat list \<Rightarrow> trieKey list \<Rightarrow> bool" where
  "spec_pending NoCache = (\<lambda>_ _ _ _. True)"
| "spec_pending (AttentionSpec e) = lift_pending the_attention (\<lambda>c b xs w. kl_holds e c w \<and> kl_captured e c b xs w)"
| "spec_pending (WindowSpec M e) = lift_pending the_window (gl_pends M e)"
| "spec_pending (RecurrentSpec e) = lift_pending the_recurrent (rc_pending e)"

lemma new_layer_capturing:
  "new_layer z spec = Some (ops, st) \<Longrightarrow>
     capturing_layer ops (spec_rests spec) (spec_covers spec) (spec_forward z y spec) (spec_pending spec)"
  by (cases spec) (auto intro!: kvc.lifted ringc.lifted rcc.lifted)

text \<open>A new layer has the state of no keys; a window has room for a position.\<close>

fun spec_ok :: "('v, 'w, 'a) layerSpec \<Rightarrow> bool" where
  "spec_ok (WindowSpec M e) = (0 < M)"
| "spec_ok _ = True"

lemma new_layer_rests: "new_layer z spec = Some (ops, st) \<Longrightarrow> spec_ok spec \<Longrightarrow> spec_rests spec st []"
  by (cases spec)
    (auto simp: lift_holds_def kl_rests_def kv_holds_def new_buffer_def no_pending_def gl_rests_def new_ringLayer_def new_ring_def
      ring_holds_def ring_ok_def ring_window_def rc_rests_def rc_holds_def NewRecurrentCache_def)

lemma all_layers_new:
  "(\<And>i ops st. i < length specs \<Longrightarrow> new_layer z (specs ! i) = Some (ops, st) \<Longrightarrow> P (k + i) ops st) \<Longrightarrow>
     all_layers P k (map (new_layer z) specs)"
proof (induction specs arbitrary: k)
  case (Cons spec specs)
  have "all_layers P (Suc k) (map (new_layer z) specs)" by (rule Cons.IH) (use Cons.prems[of "Suc _"] in simp)
  then show ?case using Cons.prems[of 0] by (cases "new_layer z spec") auto
qed simp

lemma model_capturing:
  "capturing_layers (\<lambda>i. spec_forward z y (specs ! i)) (\<lambda>i. spec_pending (specs ! i)) (\<lambda>i. spec_rests (specs ! i))
     (\<lambda>i. spec_covers (specs ! i)) 0 (map (new_layer z) specs)"
  unfolding capturing_layers_def by (rule all_layers_new) (simp add: new_layer_capturing)

lemma model_empty: "list_all spec_ok specs \<Longrightarrow> all_hold (\<lambda>i. spec_rests (specs ! i)) 0 (map (new_layer z) specs) []"
  unfolding all_hold_def by (rule all_layers_new) (simp add: new_layer_rests list_all_length)

section \<open>Properties\<close>

text \<open>The state of a layer after a sequence of keys.\<close>

fun layer_holds :: "('v, 'w, 'a) layerSpec \<Rightarrow> ('v, 'w, 'a) layerState \<Rightarrow> trieKey list \<Rightarrow> bool" where
  "layer_holds (AttentionSpec e) (AttentionLayer c) w =
     (kv_offset (kl_buf c) = length w \<and> kv_live (kl_buf c) = map (\<lambda>i. e (take (i + 1) w)) [0..<length w])"
| "layer_holds (WindowSpec M e) (WindowLayer c) w =
     (rg_offset (gl_ring c) = length w \<and> min M (length w) \<le> length (ring_window (gl_ring c)) \<and>
      suffix (ring_window (gl_ring c)) (map (\<lambda>i. e (take (i + 1) w)) [0..<length w]))"
| "layer_holds (RecurrentSpec e) (RecurrentLayer c) w =
     (rc_offset c = length w \<and> (w \<noteq> [] \<longrightarrow> rc_state c = Some (e w)))"
| "layer_holds NoCache _ w = True"
| "layer_holds _ _ w = False"

lemma spec_rests_holds: "spec_rests spec st w \<Longrightarrow> layer_holds spec st w"
proof (cases spec; cases st)
  fix M e c assume "spec = WindowSpec M e" "st = WindowLayer c" "spec_rests spec st w"
  then show "layer_holds spec st w"
    using ring_window_length[of "gl_ring c"]
    by (auto simp: lift_holds_def gl_rests_def ring_holds_def entries_def min.commute)
qed (auto simp: lift_holds_def kl_rests_def kv_holds_live kv_ok_def entries_def rc_rests_def rc_holds_def)

text \<open>
  C1. For a model with any attention, sliding-window and recurrent layers, whatever was served before: a
  new prompt starts with all layers at one common offset \<open>p\<close>, every attention layer holding the entries of
  exactly the first \<open>p\<close> keys of the prompt, every window the last of them, at least as many as the window is
  wide, every recurrent layer the state after them, and a token of the prompt is left to evaluate.
\<close>

theorem model_resumes:
  assumes "list_all spec_ok specs" "la \<le> 1"
    "reached sz clock (\<lambda>i. spec_forward z y (specs ! i)) la (map (new_layer z) specs) c"
    "effectiveKeyTokens inputs items = Some eff" "key la eff = Some keys"
  shows "\<exists>s c'. begin_session sz clock inputs items c = Some (s, c') \<and>
    (let p = minCacheOffset c' in p \<le> length keys \<and> all_hold (\<lambda>i. layer_holds (specs ! i)) 0 (pc_caches c') (take p keys) \<and>
       cs_remaining s = drop p inputs \<and> (inputs \<noteq> [] \<longrightarrow> cs_remaining s \<noteq> []))"
proof -
  note r = reached_ready[OF model_capturing model_empty[OF assms(1)] assms(2,3)]
  have "key (pc_draftLookahead c) eff = Some keys" using r assms(5) by simp
  from begin_session_core[OF conjunct1[OF r] assms(4) this, of clock] obtain s c' where
    "begin_session sz clock inputs items c = Some (s, c')" "minCacheOffset c' \<le> length keys"
    "all_hold (\<lambda>i. spec_rests (specs ! i)) 0 (pc_caches c') (take (minCacheOffset c') keys)"
    "cs_remaining s = drop (minCacheOffset c') inputs" "inputs \<noteq> [] \<longrightarrow> cs_remaining s \<noteq> []"
    unfolding Let_def by fastforce
  then show ?thesis unfolding Let_def all_hold_def by (blast intro: all_layers_mono spec_rests_holds)
qed

text \<open>A model with a layer of each kind, that has served a request.\<close>

definition example_specs :: "(trieKey list, trieKey list, trieKey list) layerSpec list" where
  "example_specs = [AttentionSpec id, NoCache, WindowSpec 2 id, RecurrentSpec id]"

theorem model_resumes_witness:
  "\<exists>c s c'. serve (\<lambda>_. 1) id (\<lambda>i. spec_forward [] [] (example_specs ! i)) example_request
       (newPrefixCache 0 (map (new_layer []) example_specs)) = Some c \<and>
     begin_session (\<lambda>_. 1) id [5, 6, 9] [] c = Some (s, c') \<and>
     all_hold (\<lambda>i. layer_holds (example_specs ! i)) 0 (pc_caches c') (take (minCacheOffset c') [5, 6, 9]) \<and> cs_remaining s \<noteq> []"
proof -
  let ?F = "\<lambda>i. spec_forward [] [] (example_specs ! i)" and ?cs = "map (new_layer []) example_specs"
  let ?c = "newPrefixCache 0 ?cs :: (trieKey, _, _) prefixCache"
  have ok: "list_all spec_ok example_specs" by (simp add: example_specs_def)
  note r = reached_ready[OF model_capturing model_empty[OF ok], of 0 "\<lambda>_. 1" id "[]" "[]" ?c, OF _ reached.new]
  have ah: "ahead (\<lambda>_. 1) id example_request ?c" by (rule ahead_without_offsets) (use r in auto)
  have eff: "effectiveKeyTokens (rq_inputs example_request) (rq_items example_request) = Some [5, 6, 7]"
    by (simp add: effectiveKeyTokens_def)
  obtain c where c: "serve (\<lambda>_. 1) id ?F example_request ?c = Some c" "reached (\<lambda>_. 1) id ?F 0 ?cs c"
    using serve_core[OF _ _ _ eff ah] r reached.step[OF reached.new ah] by fastforce
  have "key 0 [5, 6, 9] = Some [5, 6, 9]" by (simp add: key_def)
  from model_resumes[OF ok _ c(2) _ this, of "[5, 6, 9]" "[]"] c(1) show ?thesis
    by (auto simp: effectiveKeyTokens_def Let_def)
qed

end
