(* ===== verification/AttentionMask.thy ===== *)
theory AttentionMask
  imports Main
begin

text \<open>
  \<^verbatim>\<open>mlxrunner/nn/sdpa.go\<close>: the masks of the attention. A mask is a flag (causal), rectangles that relax
  it, and an array that is added; \<open>AsArray\<close> makes one array of it, and \<open>Intersect\<close> composes two masks
  without doing so, so that the kernel can take its fast paths as long as possible (\<open>resolve\<close>).

  A cell of an additive mask is \<open>Blocked\<close> (minus infinity) or a number. An array has the shape
  \<^verbatim>\<open>[B, 1, L, K]\<close>, and may have one column for all keys; it is a function of the row, the query and the column,
  and of its shape only the width of the last axis is kept. Numbers are any type with an addition; that
  zero is neutral is a hypothesis where it is needed (rounding, and the conversion between the types of
  floats, are not modelled). Positions are natural numbers, the corners of rectangles are integers.
\<close>

section \<open>Arrays of a mask\<close>

datatype 'f cell = Blocked | Cell 'f

fun cell_add :: "'f::plus cell \<Rightarrow> 'f cell \<Rightarrow> 'f cell" where
  "cell_add (Cell x) (Cell y) = Cell (x + y)"
| "cell_add _ _ = Blocked"

record 'f maskArray =
  ar_width :: nat
  ar_at :: "nat \<Rightarrow> nat \<Rightarrow> nat \<Rightarrow> 'f cell"

text \<open>A column is broadcast along the axis.\<close>

definition ar_get :: "'f maskArray \<Rightarrow> nat \<Rightarrow> nat \<Rightarrow> nat \<Rightarrow> 'f cell" where
  "ar_get a i q k = ar_at a i q (if ar_width a = 1 then 0 else k)"

definition ar_add :: "'f::plus maskArray \<Rightarrow> 'f maskArray \<Rightarrow> 'f maskArray" where
  "ar_add a b =
     \<lparr>ar_width = (if ar_width a = 1 then ar_width b else ar_width a),
      ar_at = (\<lambda>i q k. cell_add (ar_get a i q k) (ar_get b i q k))\<rparr>"

record maskBatch =
  bt_SeqOffsets :: "nat list"
  bt_SeqQueryLens :: "nat list"
  bt_L :: nat

section \<open>Masks\<close>

record relaxRect =
  rr_seq :: int
  rr_qLo :: int
  rr_qHi :: int
  rr_kLo :: int
  rr_kHi :: int

record 'f AttentionMask =
  am_causal :: bool
  am_relaxations :: "relaxRect list"
  am_array :: "'f maskArray option"

definition ZeroMask :: "'f AttentionMask" where
  "ZeroMask = \<lparr>am_causal = False, am_relaxations = [], am_array = None\<rparr>"

definition CausalMask :: "'f AttentionMask" where
  "CausalMask = \<lparr>am_causal = True, am_relaxations = [], am_array = None\<rparr>"

definition ArrayMask :: "'f maskArray \<Rightarrow> 'f AttentionMask" where
  "ArrayMask a = \<lparr>am_causal = False, am_relaxations = [], am_array = Some a\<rparr>"

definition IsZero :: "'f AttentionMask \<Rightarrow> bool" where
  "IsZero m \<longleftrightarrow> \<not> am_causal m \<and> am_array m = None \<and> am_relaxations m = []"

definition IsCausal :: "'f AttentionMask \<Rightarrow> bool" where
  "IsCausal m \<longleftrightarrow> am_causal m \<and> am_relaxations m = [] \<and> am_array m = None"

text \<open>\<open>None\<close> is a panic.\<close>

definition Relax :: "int \<Rightarrow> int \<Rightarrow> int \<Rightarrow> int \<Rightarrow> int \<Rightarrow> 'f AttentionMask \<Rightarrow> 'f AttentionMask option" where
  "Relax sq qLo qHi kLo kHi m =
     (if \<not> am_causal m then None
      else if qHi \<le> qLo \<or> kHi \<le> kLo then Some m
      else if kHi - 1 \<le> qLo then Some m
      else Some (m\<lparr>am_relaxations :=
        \<lparr>rr_seq = sq, rr_qLo = qLo, rr_qHi = qHi, rr_kLo = kLo, rr_kHi = kHi\<rparr> # am_relaxations m\<rparr>))"

definition rect_meet :: "relaxRect \<Rightarrow> relaxRect \<Rightarrow> relaxRect option" where
  "rect_meet a b =
     (if rr_seq a \<noteq> rr_seq b then None
      else (let qLo = max (rr_qLo a) (rr_qLo b); qHi = min (rr_qHi a) (rr_qHi b);
                kLo = max (rr_kLo a) (rr_kLo b); kHi = min (rr_kHi a) (rr_kHi b)
            in if qHi \<le> qLo \<or> kHi \<le> kLo \<or> kHi - 1 \<le> qLo then None
               else Some \<lparr>rr_seq = rr_seq a, rr_qLo = qLo, rr_qHi = qHi, rr_kLo = kLo, rr_kHi = kHi\<rparr>))"

definition rect_meets :: "relaxRect list \<Rightarrow> relaxRect list \<Rightarrow> relaxRect list" where
  "rect_meets as bs =
     fold (\<lambda>a. fold (\<lambda>b acc. case rect_meet a b of None \<Rightarrow> acc | Some r \<Rightarrow> r # acc) bs) as []"

definition Intersect :: "'f::plus AttentionMask \<Rightarrow> 'f AttentionMask \<Rightarrow> 'f AttentionMask" where
  "Intersect m n =
     (if IsZero m then n
      else if IsZero n then m
      else
        \<lparr>am_causal = am_causal m \<or> am_causal n,
         am_relaxations =
           (if am_relaxations m \<noteq> [] \<and> am_relaxations n \<noteq> [] then rect_meets (am_relaxations m) (am_relaxations n)
            else if am_relaxations m \<noteq> [] \<and> \<not> am_causal n then am_relaxations m
            else if am_relaxations n \<noteq> [] \<and> \<not> am_causal m then am_relaxations n
            else []),
         am_array =
           (case (am_array m, am_array n) of
              (Some a, Some b) \<Rightarrow> Some (ar_add a b)
            | (Some a, None) \<Rightarrow> Some a
            | (None, b) \<Rightarrow> b)\<rparr>)"

text \<open>The first key of the history is the one at this position.\<close>

definition oldestPos :: "maskBatch \<Rightarrow> nat \<Rightarrow> nat \<Rightarrow> nat" where
  "oldestPos b K i = bt_SeqOffsets b ! i + bt_L b - K"

definition clamp :: "int \<Rightarrow> nat \<Rightarrow> int" where
  "clamp x n = min (max x 0) (int n)"

text \<open>The loops that fill the array: the causal triangle, then one rectangle after the other.\<close>

definition causal_vals :: "maskBatch \<Rightarrow> nat \<Rightarrow> bool \<Rightarrow> nat \<Rightarrow> nat \<Rightarrow> nat \<Rightarrow> 'f::zero cell" where
  "causal_vals b K causal i q k =
     (if causal \<and> bt_SeqOffsets b ! i + q < oldestPos b K i + k then Blocked else Cell 0)"

definition relax_vals ::
  "maskBatch \<Rightarrow> nat \<Rightarrow> relaxRect \<Rightarrow> (nat \<Rightarrow> nat \<Rightarrow> nat \<Rightarrow> 'f::zero cell) \<Rightarrow> nat \<Rightarrow> nat \<Rightarrow> nat \<Rightarrow> 'f cell" where
  "relax_vals b K r vals =
     (if rr_seq r < 0 \<or> int (length (bt_SeqOffsets b)) \<le> rr_seq r then vals
      else (let sq = nat (rr_seq r); off = int (bt_SeqOffsets b ! sq); old = int (oldestPos b K sq);
                qLo = clamp (rr_qLo r - off) (bt_L b); qHi = clamp (rr_qHi r - off) (bt_L b);
                kLo = clamp (rr_kLo r - old) K; kHi = clamp (rr_kHi r - old) K
            in (\<lambda>i q k. if i = sq \<and> qLo \<le> int q \<and> int q < qHi \<and> kLo \<le> int k \<and> int k < kHi then Cell 0
                        else vals i q k)))"

definition AsArray :: "maskBatch \<Rightarrow> nat \<Rightarrow> 'f::{zero,plus} AttentionMask \<Rightarrow> 'f maskArray" where
  "AsArray b K m =
     (case (\<not> am_causal m \<and> am_relaxations m = [], am_array m) of
        (True, Some a) \<Rightarrow> a
      | (_, arr) \<Rightarrow>
          (let out = \<lparr>ar_width = K, ar_at = fold (relax_vals b K) (am_relaxations m) (causal_vals b K (am_causal m))\<rparr>
           in case arr of None \<Rightarrow> out | Some a \<Rightarrow> ar_add out a))"

text \<open>Padding of queries (the axis of the queries) and of keys (the axis of the columns).\<close>

definition pad_needed :: "nat \<Rightarrow> nat \<Rightarrow> nat list \<Rightarrow> bool" where
  "pad_needed B n lens \<longleftrightarrow> list_ex (\<lambda>i. lens ! i < n) [0..<B]"

definition QPaddingMask :: "maskBatch \<Rightarrow> 'f::zero AttentionMask" where
  "QPaddingMask b =
     (if \<not> pad_needed (length (bt_SeqOffsets b)) (bt_L b) (bt_SeqQueryLens b) then ZeroMask
      else ArrayMask \<lparr>ar_width = 1, ar_at = (\<lambda>i q k. if bt_SeqQueryLens b ! i \<le> q then Blocked else Cell 0)\<rparr>)"

definition KPaddingMask :: "maskBatch \<Rightarrow> nat \<Rightarrow> nat list \<Rightarrow> 'f::zero AttentionMask" where
  "KPaddingMask b K kLens =
     (if \<not> pad_needed (length (bt_SeqOffsets b)) K kLens then ZeroMask
      else ArrayMask \<lparr>ar_width = K, ar_at = (\<lambda>i q k. if kLens ! i \<le> k then Blocked else Cell 0)\<rparr>)"

definition maskCount :: "maskBatch \<Rightarrow> nat \<Rightarrow> nat \<Rightarrow> nat \<Rightarrow> nat \<Rightarrow> int" where
  "maskCount b K window i q =
     (let absQ = int (bt_SeqOffsets b ! i) + int q; lo = absQ - int window + 1
      in min (lo - int (oldestPos b K i)) (int K))"

definition SlidingWindowMask :: "maskBatch \<Rightarrow> nat \<Rightarrow> nat \<Rightarrow> 'f::zero AttentionMask" where
  "SlidingWindowMask b K window =
     (if window = 0 then ZeroMask
      else if \<not> list_ex (\<lambda>i. list_ex (\<lambda>q. 0 < maskCount b K window i q) [0..<bt_L b]) [0..<length (bt_SeqOffsets b)]
      then ZeroMask
      else ArrayMask \<lparr>ar_width = K,
        ar_at = (\<lambda>i q k. if int k < maskCount b K window i q then Blocked else Cell 0)\<rparr>)"

section \<open>The decision for the kernel\<close>

text \<open>
  The kernel takes no mask, its own causal mask, or an array. \<open>applier\<close> is what the cache adds to the
  mask, \<open>kLens\<close> the lengths of keys that come without a cache; there is never both.
\<close>

datatype 'f dispatch = NoMask | CausalKernel | ArrayKernel "'f maskArray"

definition resolve ::
  "maskBatch \<Rightarrow> nat \<Rightarrow> ('f AttentionMask \<Rightarrow> 'f AttentionMask) option \<Rightarrow> nat list \<Rightarrow> 'f::{zero,plus} AttentionMask \<Rightarrow> 'f dispatch" where
  "resolve b K applier kLens m =
     (let m1 = Intersect m (QPaddingMask b);
          m2 = (case applier of
                  Some f \<Rightarrow> f m1
                | None \<Rightarrow> if kLens \<noteq> [] then Intersect m1 (KPaddingMask b K kLens) else m1)
      in if IsZero m2 then NoMask
         else if IsCausal m2 then (if bt_L b = 1 then NoMask else CausalKernel)
         else ArrayKernel (AsArray b K m2))"

text \<open>What the kernel does with it: its causal mask aligns the last query with the last key.\<close>

definition kernel_cell :: "maskBatch \<Rightarrow> nat \<Rightarrow> 'f::zero dispatch \<Rightarrow> nat \<Rightarrow> nat \<Rightarrow> nat \<Rightarrow> 'f cell" where
  "kernel_cell b K d i q k =
     (case d of
        NoMask \<Rightarrow> Cell 0
      | CausalKernel \<Rightarrow> if q + K < k + bt_L b then Blocked else Cell 0
      | ArrayKernel a \<Rightarrow> ar_get a i q k)"

section \<open>What a mask allows\<close>

text \<open>
  A mask as a relation on positions: a causal one allows keys up to the query and those of its rectangles.
\<close>

definition in_rect :: "nat \<Rightarrow> nat \<Rightarrow> nat \<Rightarrow> relaxRect \<Rightarrow> bool" where
  "in_rect i Q P r \<longleftrightarrow> rr_seq r = int i \<and> rr_qLo r \<le> int Q \<and> int Q < rr_qHi r \<and> rr_kLo r \<le> int P \<and> int P < rr_kHi r"

definition allows :: "'f AttentionMask \<Rightarrow> nat \<Rightarrow> nat \<Rightarrow> nat \<Rightarrow> bool" where
  "allows m i Q P \<longleftrightarrow> (am_causal m \<longrightarrow> P \<le> Q \<or> list_ex (in_rect i Q P) (am_relaxations m))"

text \<open>Rectangles come with a causal mask, and arrays fit the history.\<close>

definition mask_ok :: "nat \<Rightarrow> 'f AttentionMask \<Rightarrow> bool" where
  "mask_ok K m \<longleftrightarrow> (am_relaxations m \<noteq> [] \<longrightarrow> am_causal m) \<and>
     (\<forall>a. am_array m = Some a \<longrightarrow> ar_width a = 1 \<or> ar_width a = K)"

definition mask_cell :: "maskBatch \<Rightarrow> nat \<Rightarrow> 'f::{zero,plus} AttentionMask \<Rightarrow> nat \<Rightarrow> nat \<Rightarrow> nat \<Rightarrow> 'f cell" where
  "mask_cell b K m i q k = ar_get (AsArray b K m) i q k"

abbreviation cell_ok :: "maskBatch \<Rightarrow> nat \<Rightarrow> nat \<Rightarrow> nat \<Rightarrow> nat \<Rightarrow> bool" where
  "cell_ok b K i q k \<equiv> i < length (bt_SeqOffsets b) \<and> q < bt_L b \<and> k < K"

lemma clamp_iff: "q < n \<Longrightarrow> clamp x n \<le> int q \<longleftrightarrow> x \<le> int q" "q < n \<Longrightarrow> int q < clamp x n \<longleftrightarrow> int q < x"
  by (auto simp: clamp_def)

lemma relax_vals_cell:
  assumes "cell_ok b K i q k"
  shows "relax_vals b K r vals i q k =
    (if in_rect i (bt_SeqOffsets b ! i + q) (oldestPos b K i + k) r then Cell 0 else vals i q k)"
proof (cases "rr_seq r = int i")
  case True
  then show ?thesis using assms by (auto simp: relax_vals_def in_rect_def Let_def clamp_iff)
next
  case False
  then show ?thesis by (auto simp: relax_vals_def in_rect_def Let_def)
qed

lemma fold_relax_vals:
  assumes "cell_ok b K i q k"
  shows "fold (relax_vals b K) rs vals i q k =
    (if list_ex (in_rect i (bt_SeqOffsets b ! i + q) (oldestPos b K i + k)) rs then Cell 0 else vals i q k)"
  by (induction rs arbitrary: vals) (simp_all add: relax_vals_cell[OF assms])

text \<open>The part of a mask without its array.\<close>

definition flag_cell :: "maskBatch \<Rightarrow> nat \<Rightarrow> 'f::zero AttentionMask \<Rightarrow> nat \<Rightarrow> nat \<Rightarrow> nat \<Rightarrow> 'f cell" where
  "flag_cell b K m i q k =
     (if allows m i (bt_SeqOffsets b ! i + q) (oldestPos b K i + k) then Cell 0 else Blocked)"

definition array_cell :: "'f::zero AttentionMask \<Rightarrow> nat \<Rightarrow> nat \<Rightarrow> nat \<Rightarrow> 'f cell" where
  "array_cell m i q k = (case am_array m of None \<Rightarrow> Cell 0 | Some a \<Rightarrow> ar_get a i q k)"

lemma ar_get_add:
  assumes "ar_width a = 1 \<or> ar_width a = K" "ar_width b = 1 \<or> ar_width b = K" "k < K"
  shows "ar_get (ar_add a b) i q k = cell_add (ar_get a i q k) (ar_get b i q k)"
  using assms by (auto simp: ar_get_def ar_add_def)


lemma cell_add_zero:
  assumes "\<And>x::'f::{zero,plus}. 0 + x = x \<and> x + 0 = x"
  shows "cell_add (Cell (0::'f)) c = c" "cell_add c (Cell 0) = c"
  using assms by (cases c; simp)+

lemma mask_cell_split:
  fixes m :: "'f::{zero,plus} AttentionMask"
  assumes "\<And>x::'f. 0 + x = x \<and> x + 0 = x" "mask_ok K m" "cell_ok b K i q k"
  shows "mask_cell b K m i q k = cell_add (flag_cell b K m i q k) (array_cell m i q k)"
proof (cases "am_causal m")
  case False
  then have "am_relaxations m = []" using assms(2) by (auto simp: mask_ok_def)
  then show ?thesis using False cell_add_zero[OF assms(1)] 
    by (auto simp: mask_cell_def AsArray_def flag_cell_def allows_def array_cell_def causal_vals_def Let_def ar_get_def
        split: option.splits)
next
  case True
  let ?out = "\<lparr>ar_width = K, ar_at = fold (relax_vals b K) (am_relaxations m) (causal_vals b K True)\<rparr> :: 'f maskArray"
  have out: "ar_get ?out i q k = flag_cell b K m i q k"
  proof -
    have "ar_get ?out i q k = ar_at ?out i q k" using assms(3) by (auto simp: ar_get_def)
    then show ?thesis using assms(3) True by (simp add: flag_cell_def allows_def fold_relax_vals causal_vals_def)
  qed
  show ?thesis
  proof (cases "am_array m")
    case None
    then show ?thesis using True out cell_add_zero[OF assms(1)] by (simp add: mask_cell_def AsArray_def array_cell_def)
  next
    case (Some a)
    then have "ar_width a = 1 \<or> ar_width a = K" using assms(2) by (simp add: mask_ok_def)
    then have "ar_get (ar_add ?out a) i q k = cell_add (flag_cell b K m i q k) (ar_get a i q k)"
      using ar_get_add[of ?out K a k i q] assms(3) out by simp
    then show ?thesis using True Some by (simp add: mask_cell_def AsArray_def array_cell_def)
  qed
qed

section \<open>Composition\<close>

lemma rect_meet_in:
  "in_rect i Q P a \<and> in_rect i Q P b \<longleftrightarrow> (\<exists>r. rect_meet a b = Some r \<and> in_rect i Q P r) \<or> (in_rect i Q P a \<and> in_rect i Q P b \<and> P \<le> Q)"
proof (cases "rr_seq a = rr_seq b")
  case False
  then show ?thesis by (auto simp: rect_meet_def in_rect_def)
next
  case True
  define r where "r = \<lparr>rr_seq = rr_seq a, rr_qLo = max (rr_qLo a) (rr_qLo b), rr_qHi = min (rr_qHi a) (rr_qHi b),
    rr_kLo = max (rr_kLo a) (rr_kLo b), rr_kHi = min (rr_kHi a) (rr_kHi b)\<rparr>"
  have both: "in_rect i Q P a \<and> in_rect i Q P b \<longleftrightarrow> in_rect i Q P r" using True by (auto simp: in_rect_def r_def)
  have meet: "rect_meet a b = (if rr_qHi r \<le> rr_qLo r \<or> rr_kHi r \<le> rr_kLo r \<or> rr_kHi r - 1 \<le> rr_qLo r then None else Some r)"
    using True by (simp add: rect_meet_def r_def Let_def)
  show ?thesis
  proof (cases "in_rect i Q P r")
    case True
    then have "\<not> rr_qHi r \<le> rr_qLo r" "\<not> rr_kHi r \<le> rr_kLo r" "rr_kHi r - 1 \<le> rr_qLo r \<Longrightarrow> P \<le> Q"
      unfolding in_rect_def by linarith+
    then have "rect_meet a b = Some r \<or> P \<le> Q" using meet by (cases "rr_kHi r - 1 \<le> rr_qLo r") simp_all
    then show ?thesis using both True by blast
  next
    case False
    have "rect_meet a b = None \<or> rect_meet a b = Some r" unfolding meet by simp
    then have "\<not> (\<exists>s. rect_meet a b = Some s \<and> in_rect i Q P s)" using False by (elim disjE) simp_all
    then show ?thesis using both False by blast
  qed
qed

lemma fold_meets_set:
  "set (fold (\<lambda>b acc. case rect_meet a b of None \<Rightarrow> acc | Some r \<Rightarrow> r # acc) bs acc) =
     {r. \<exists>b\<in>set bs. rect_meet a b = Some r} \<union> set acc"
  by (induction bs arbitrary: acc) (auto split: option.splits)

lemma rect_meets_set: "set (rect_meets as bs) = {r. \<exists>a\<in>set as. \<exists>b\<in>set bs. rect_meet a b = Some r}"
proof -
  have "set (fold (\<lambda>a. fold (\<lambda>b acc. case rect_meet a b of None \<Rightarrow> acc | Some r \<Rightarrow> r # acc) bs) as acc) =
      {r. \<exists>a\<in>set as. \<exists>b\<in>set bs. rect_meet a b = Some r} \<union> set acc" for acc
    by (induction as arbitrary: acc) (auto simp: fold_meets_set)
  then show ?thesis by (simp add: rect_meets_def)
qed

lemma rect_meets_in:
  "P \<le> Q \<or> list_ex (in_rect i Q P) (rect_meets as bs) \<longleftrightarrow>
     P \<le> Q \<or> (list_ex (in_rect i Q P) as \<and> list_ex (in_rect i Q P) bs)"
proof -
  have "in_rect i Q P a \<and> in_rect i Q P c" if "rect_meet a c = Some r" "in_rect i Q P r" for a c r
    using that rect_meet_in[of i Q P a c] by blast
  moreover have "P \<le> Q \<or> (\<exists>r. rect_meet a c = Some r \<and> in_rect i Q P r)" if "in_rect i Q P a" "in_rect i Q P c" for a c
    using that rect_meet_in[of i Q P a c] by blast
  ultimately show ?thesis unfolding list_ex_iff rect_meets_set by blast
qed

lemma Intersect_allows:
  assumes "mask_ok K m" "mask_ok K n"
  shows "allows (Intersect m n) i Q P \<longleftrightarrow> allows m i Q P \<and> allows n i Q P"
proof -
  have rel: "am_relaxations m \<noteq> [] \<longrightarrow> am_causal m" "am_relaxations n \<noteq> [] \<longrightarrow> am_causal n"
    using assms by (simp_all add: mask_ok_def)
  show ?thesis
  proof (cases "am_relaxations m \<noteq> [] \<and> am_relaxations n \<noteq> []")
    case True
    then have "allows (Intersect m n) i Q P \<longleftrightarrow> P \<le> Q \<or> list_ex (in_rect i Q P) (rect_meets (am_relaxations m) (am_relaxations n))"
      using rel by (auto simp: Intersect_def IsZero_def allows_def)
    then show ?thesis unfolding rect_meets_in using True rel by (auto simp: allows_def)
  next
    case False
    then show ?thesis using rel by (auto simp: Intersect_def IsZero_def allows_def)
  qed
qed

lemma Intersect_array:
  fixes m n :: "'f::{zero,plus} AttentionMask"
  assumes "\<And>x::'f. 0 + x = x \<and> x + 0 = x" "mask_ok K m" "mask_ok K n" "k < K"
  shows "array_cell (Intersect m n) i q k = cell_add (array_cell m i q k) (array_cell n i q k)"
    "mask_ok K (Intersect m n)"
proof -
  note z = cell_add_zero[OF assms(1)]
  show "array_cell (Intersect m n) i q k = cell_add (array_cell m i q k) (array_cell n i q k)"
  proof (cases "am_array m")
    case None
    then show ?thesis using z by (cases "am_array n") (auto simp: Intersect_def IsZero_def array_cell_def)
  next
    case (Some a)
    then have a: "ar_width a = 1 \<or> ar_width a = K" using assms(2) by (simp add: mask_ok_def)
    show ?thesis
    proof (cases "am_array n")
      case None
      then show ?thesis using z Some by (auto simp: Intersect_def IsZero_def array_cell_def)
    next
      case (Some c)
      then have "ar_width c = 1 \<or> ar_width c = K" using assms(3) by (simp add: mask_ok_def)
      then show ?thesis using ar_get_add[OF a _ assms(4)] Some \<open>am_array m = Some a\<close>
        by (simp add: Intersect_def IsZero_def array_cell_def)
    qed
  qed
  show "mask_ok K (Intersect m n)"
    using assms(2,3) by (auto simp: mask_ok_def Intersect_def ar_add_def split: option.splits if_splits)
qed

lemma cell_add_flags:
  assumes "\<And>x::'f::{zero,plus}. 0 + x = x \<and> x + 0 = x"
  shows "cell_add (if p \<and> r then Cell (0::'f) else Blocked) (cell_add x y) =
    cell_add (cell_add (if p then Cell 0 else Blocked) x) (cell_add (if r then Cell 0 else Blocked) y)"
proof -
  have "cell_add u Blocked = Blocked" for u :: "'f cell" by (cases u) simp_all
  then show ?thesis using cell_add_zero[OF assms] by auto
qed

text \<open>\<open>Relax\<close> adds its rectangle, also where it is dropped.\<close>

lemma Relax_allows:
  assumes "Relax sq qLo qHi kLo kHi m = Some m'"
  shows "allows m' i Q P \<longleftrightarrow> allows m i Q P \<or>
    in_rect i Q P \<lparr>rr_seq = sq, rr_qLo = qLo, rr_qHi = qHi, rr_kLo = kLo, rr_kHi = kHi\<rparr>" "am_array m' = am_array m"
proof -
  have "am_causal m" using assms by (simp add: Relax_def split: if_splits)
  then show "allows m' i Q P \<longleftrightarrow> allows m i Q P \<or>
    in_rect i Q P \<lparr>rr_seq = sq, rr_qLo = qLo, rr_qHi = qHi, rr_kLo = kLo, rr_kHi = kHi\<rparr>" "am_array m' = am_array m"
    using assms by (auto simp: Relax_def allows_def in_rect_def split: if_splits)
qed

lemma padded: "i < B \<Longrightarrow> lens ! i \<le> q \<Longrightarrow> q < n \<Longrightarrow> pad_needed B n lens"
  unfolding pad_needed_def list_ex_iff by (rule bexI[of _ i]) simp_all

lemma QPadding_cell:
  assumes "cell_ok b K i q k"
  shows "array_cell (QPaddingMask b) i q k = (if bt_SeqQueryLens b ! i \<le> q then Blocked else Cell 0)" "mask_ok K (QPaddingMask b)"
  using assms padded[of i _ "bt_SeqQueryLens b" q] by (auto simp: QPaddingMask_def ZeroMask_def ArrayMask_def array_cell_def mask_ok_def ar_get_def)

lemma KPadding_cell:
  assumes "cell_ok b K i q k"
  shows "array_cell (KPaddingMask b K lens) i q k = (if lens ! i \<le> k then Blocked else Cell 0)" "mask_ok K (KPaddingMask b K lens)"
  using assms padded[of i _ lens k] by (auto simp: KPaddingMask_def ZeroMask_def ArrayMask_def array_cell_def mask_ok_def ar_get_def)

lemma padding_flag [simp]:
  "flag_cell b K (QPaddingMask b') i q k = Cell 0" "flag_cell b K (KPaddingMask b' K' lens) i q k = Cell 0"
  by (simp_all add: flag_cell_def allows_def QPaddingMask_def KPaddingMask_def ZeroMask_def ArrayMask_def)

lemma kernel_dispatch:
  assumes "cell_ok b K i q k" "K \<le> bt_SeqOffsets b ! i + bt_L b"
  shows "kernel_cell b K (if IsZero m then NoMask else if IsCausal m then (if bt_L b = 1 then NoMask else CausalKernel)
      else ArrayKernel (AsArray b K m)) i q k = mask_cell b K m i q k"
proof -
  have "oldestPos b K i = bt_SeqOffsets b ! i + bt_L b - K" by (simp add: oldestPos_def)
  then have "bt_SeqOffsets b ! i + q < oldestPos b K i + k \<longleftrightarrow> q + K < k + bt_L b" using assms(2) by linarith
  then have "causal_vals b K True i q k = (if q + K < k + bt_L b then Blocked else Cell (0::'a))"
    by (simp add: causal_vals_def)
  moreover have "\<not> q + K < k + bt_L b" if "bt_L b = 1" using that assms(1) by simp
  moreover have "mask_cell b K m i q k = causal_vals b K (am_causal m) i q k" if "am_relaxations m = []" "am_array m = None"
    using that assms(1) by (cases "am_causal m") (auto simp: mask_cell_def AsArray_def ar_get_def Let_def)
  ultimately show ?thesis
    by (auto simp: kernel_cell_def IsZero_def IsCausal_def mask_cell_def causal_vals_def)
qed

section \<open>Properties\<close>

text \<open>
  C12. \<open>Intersect\<close> composes masks without building them: the array made of the composition is, cell by cell,
  the sum of the arrays made of the two masks, so a key is attended exactly when both masks allow it,
  with the sum of their numbers. The rectangles that the composition drops allow nothing that is not allowed
  anyway.
\<close>

theorem Intersect_is_sum:
  fixes m n :: "'f::{zero,plus} AttentionMask"
  assumes "\<And>x::'f. 0 + x = x \<and> x + 0 = x" "mask_ok K m" "mask_ok K n"
    "i < length (bt_SeqOffsets b)" "q < bt_L b" "k < K"
  shows "ar_get (AsArray b K (Intersect m n)) i q k =
    cell_add (ar_get (AsArray b K m) i q k) (ar_get (AsArray b K n) i q k)"
proof -
  have c: "cell_ok b K i q k" using assms(4-6) by simp
  note arr = Intersect_array[OF assms(1-3,6)]
  have "mask_cell b K (Intersect m n) i q k = cell_add (mask_cell b K m i q k) (mask_cell b K n i q k)"
    unfolding mask_cell_split[OF assms(1,2) c] mask_cell_split[OF assms(1,3) c] mask_cell_split[OF assms(1) arr(2) c] arr(1)
      flag_cell_def Intersect_allows[OF assms(2,3)]
    by (rule cell_add_flags[OF assms(1)])
  then show ?thesis by (simp add: mask_cell_def)
qed

text \<open>
  Two causal masks with a rectangle each: query 0 of row 0 may see key 2 of three keys only where both
  allow it.
\<close>

theorem Intersect_is_sum_witness:
  "\<exists>m n. Relax 0 0 2 1 3 CausalMask = Some m \<and> Relax 0 0 1 2 3 CausalMask = Some n \<and>
     ar_get (AsArray \<lparr>bt_SeqOffsets = [0], bt_SeqQueryLens = [3], bt_L = 3\<rparr> 3 (Intersect m n)) 0 0 2 =
       cell_add (ar_get (AsArray \<lparr>bt_SeqOffsets = [0], bt_SeqQueryLens = [3], bt_L = 3\<rparr> 3 m) 0 0 2)
         (ar_get (AsArray \<lparr>bt_SeqOffsets = [0], bt_SeqQueryLens = [3], bt_L = 3\<rparr> 3 n) 0 0 2) \<and>
     ar_get (AsArray \<lparr>bt_SeqOffsets = [0], bt_SeqQueryLens = [3], bt_L = 3\<rparr> 3 (Intersect m n)) 0 0 1 = (Blocked :: int cell)"
proof -
  let ?b = "\<lparr>bt_SeqOffsets = [0], bt_SeqQueryLens = [3], bt_L = 3\<rparr>"
  define m :: "int AttentionMask" where "m = CausalMask\<lparr>am_relaxations := [\<lparr>rr_seq = 0, rr_qLo = 0, rr_qHi = 2, rr_kLo = 1, rr_kHi = 3\<rparr>]\<rparr>"
  define n :: "int AttentionMask" where "n = CausalMask\<lparr>am_relaxations := [\<lparr>rr_seq = 0, rr_qLo = 0, rr_qHi = 1, rr_kLo = 2, rr_kHi = 3\<rparr>]\<rparr>"
  have r: "Relax 0 0 2 1 3 CausalMask = Some m" "Relax 0 0 1 2 3 CausalMask = Some n"
    by (simp_all add: Relax_def CausalMask_def m_def n_def)
  have ok: "mask_ok 3 m" "mask_ok 3 n" by (simp_all add: mask_ok_def m_def n_def CausalMask_def)
  note sum = Intersect_is_sum[OF _ ok, of 0 ?b]
  have "ar_get (AsArray ?b 3 n) 0 0 1 = Blocked"
    by (simp add: n_def CausalMask_def AsArray_def ar_get_def relax_vals_def causal_vals_def clamp_def oldestPos_def Let_def)
  moreover have "cell_add c Blocked = Blocked" for c :: "int cell" by (cases c) simp_all
  ultimately show ?thesis using r sum[of 0 2] sum[of 0 1] by (intro exI[of _ m] exI[of _ n]) simp
qed

text \<open>
  C13. The fast paths of the kernel are safe: for a history that is not longer than the sequence, the call
  that \<open>resolve\<close> decides on (no mask, the causal kernel, or an array) masks every cell as the array of
  the whole composition would, the mask of the model with the padding of queries and of keys, or what the
  cache makes of it.
\<close>

theorem resolve_sound:
  fixes m :: "'f::{zero,plus} AttentionMask"
  assumes "\<And>x::'f. 0 + x = x \<and> x + 0 = x" "mask_ok K m" "i < length (bt_SeqOffsets b)" "q < bt_L b" "k < K"
    "K \<le> bt_SeqOffsets b ! i + bt_L b"
  shows "kernel_cell b K (resolve b K applier kLens m) i q k =
    (case applier of
       Some f \<Rightarrow> ar_get (AsArray b K (f (Intersect m (QPaddingMask b)))) i q k
     | None \<Rightarrow>
         if bt_SeqQueryLens b ! i \<le> q \<or> (kLens \<noteq> [] \<and> kLens ! i \<le> k) then Blocked
         else ar_get (AsArray b K m) i q k)"
proof -
  have c: "cell_ok b K i q k" using assms(3-5) by simp
  note z = cell_add_zero[OF assms(1)] and blocked = cell_add.simps(2,3)
  have pad: "cell_add x (if p then Blocked else Cell 0) = (if p then Blocked else x)" for x :: "'f cell" and p
    using z by (cases x) auto
  note qp = QPadding_cell[OF c] and kp = KPadding_cell[OF c, of kLens]
  have q: "mask_cell b K (Intersect m (QPaddingMask b)) i q k = (if bt_SeqQueryLens b ! i \<le> q then Blocked else mask_cell b K m i q k)"
    using Intersect_is_sum[OF assms(1,2) qp(2) assms(3-5)] mask_cell_split[OF assms(1) qp(2) c] z pad
    by (simp add: mask_cell_def qp(1))
  have ok: "mask_ok K (Intersect m (QPaddingMask b))" by (rule Intersect_array(2)[OF assms(1,2) qp(2) assms(5)])
  have "mask_cell b K (Intersect (Intersect m (QPaddingMask b)) (KPaddingMask b K kLens)) i q k =
      (if kLens ! i \<le> k then Blocked else mask_cell b K (Intersect m (QPaddingMask b)) i q k)"
    using Intersect_is_sum[OF assms(1) ok kp(2) assms(3-5)] mask_cell_split[OF assms(1) kp(2) c] z pad
    by (simp add: mask_cell_def kp(1))
  then show ?thesis using q unfolding resolve_def Let_def kernel_dispatch[OF c assms(6)]
    by (auto simp: mask_cell_def[symmetric] split: option.splits)
qed

text \<open>A causal mask over three queries without padding takes the causal kernel.\<close>

theorem resolve_sound_witness:
  "resolve \<lparr>bt_SeqOffsets = [2], bt_SeqQueryLens = [3], bt_L = 3\<rparr> 5 None [] (CausalMask :: int AttentionMask) = CausalKernel \<and>
   kernel_cell \<lparr>bt_SeqOffsets = [2], bt_SeqQueryLens = [3], bt_L = 3\<rparr> 5 (CausalKernel :: int dispatch) 0 1 4 =
     ar_get (AsArray \<lparr>bt_SeqOffsets = [2], bt_SeqQueryLens = [3], bt_L = 3\<rparr> 5 CausalMask) 0 1 4"
proof -
  let ?b = "\<lparr>bt_SeqOffsets = [2], bt_SeqQueryLens = [3], bt_L = 3\<rparr>"
  have "resolve ?b 5 None [] (CausalMask :: int AttentionMask) = CausalKernel"
    by (simp add: resolve_def QPaddingMask_def pad_needed_def ZeroMask_def CausalMask_def Intersect_def IsZero_def IsCausal_def)
  then show ?thesis
    using resolve_sound[of 5 "CausalMask :: int AttentionMask" 0 ?b 1 4 None "[]"] by (simp add: mask_ok_def CausalMask_def)
qed

end
