(* ===== verification/SlidingAttention.thy ===== *)
theory SlidingAttention
  imports RotatingBuffer AttentionMask "HOL-Library.Multiset"
begin

text \<open>
  What the attention sees of a sliding-window layer: the slots a write hands out, the mask that the layer
  makes of the mask of the model (\<open>rotatingApplier\<close> of \<^verbatim>\<open>mlxrunner/cache/rotating.go\<close>), and the read-only
  view for a model that shares the layer. A kernel sums over the keys that are not blocked, so what a
  query sees is the multiset of these keys with the numbers of their cells; the theorems say that it
  is that of a full history behind a mask for the window.
\<close>

section \<open>The masks of a ring\<close>

record rotatingApplier =
  ap_K :: nat
  ap_L :: nat
  ap_window :: nat
  ap_ringIdx :: nat

text \<open>\<open>None\<close> is a panic: a mask that does not fit the columns, or a division by zero.\<close>

definition gatherRingCols :: "'f maskArray \<Rightarrow> nat \<Rightarrow> nat \<Rightarrow> 'f maskArray option" where
  "gatherRingCols arr ringIdx K =
     (if (ar_width arr \<noteq> 1 \<and> ar_width arr \<noteq> K) \<or> K = 0 then None
      else if ringIdx mod K = 0 \<or> ar_width arr = 1 then Some arr
      else (let shift = K - ringIdx mod K
            in Some \<lparr>ar_width = K,
                 ar_at = (\<lambda>i q k. if k < K - shift then ar_at arr i q (shift + k) else ar_at arr i q (k - (K - shift)))\<rparr>))"

definition ApplyMask ::
  "maskBatch \<Rightarrow> rotatingApplier \<Rightarrow> 'f::{zero,plus} AttentionMask \<Rightarrow> 'f AttentionMask option" where
  "ApplyMask b r logical =
     (if ap_L r = 1 then
        if IsZero logical \<or> IsCausal logical then Some ZeroMask
        else map_option ArrayMask (gatherRingCols (AsArray b (ap_K r) logical) (ap_ringIdx r) (ap_K r))
      else Some (Intersect logical (SlidingWindowMask b (ap_K r) (ap_window r))))"

text \<open>What a write returns, for the layer after it, and the view of a layer at rest.\<close>

definition ring_applier :: "'v list \<Rightarrow> ('v, 'z) ring_scheme \<Rightarrow> rotatingApplier" where
  "ring_applier keys c =
     \<lparr>ap_K = length (ring_history keys c), ap_L = length keys, ap_window = rg_maxSize c, ap_ringIdx = rg_idx c\<rparr>"

definition ring_View :: "('v, 'z) ring_scheme \<Rightarrow> ('v list \<times> rotatingApplier) option" where
  "ring_View c =
     (case ring_State c of
        None \<Rightarrow> None
      | Some k \<Rightarrow>
          let K = length k in
          if rg_maxSize c < K
          then Some (drop (K - rg_maxSize c) k, \<lparr>ap_K = rg_maxSize c, ap_L = 1, ap_window = rg_maxSize c, ap_ringIdx = 0\<rparr>)
          else Some (k, \<lparr>ap_K = K, ap_L = 1, ap_window = rg_maxSize c, ap_ringIdx = rg_idx c\<rparr>))"

section \<open>What a query sees\<close>

definition attends :: "'v list \<Rightarrow> 'f cell list \<Rightarrow> ('v \<times> 'f) multiset" where
  "attends keys row = mset (concat (map (\<lambda>(e, c). case c of Blocked \<Rightarrow> [] | Cell x \<Rightarrow> [(e, x)]) (zip keys row)))"

definition mask_row :: "maskBatch \<Rightarrow> nat \<Rightarrow> 'f::{zero,plus} AttentionMask \<Rightarrow> nat \<Rightarrow> 'f cell list" where
  "mask_row b K m q = map (ar_get (AsArray b K m) 0 q) [0..<K]"

lemma attends_append: "length h1 = length r1 \<Longrightarrow> attends (h1 @ h2) (r1 @ r2) = attends h1 r1 + attends h2 r2"
  by (simp add: attends_def)

lemma attends_blocked: "set row \<subseteq> {Blocked} \<Longrightarrow> attends keys row = {#}"
  by (auto simp: attends_def dest!: set_zip_rightD)

definition rotr :: "nat \<Rightarrow> 'a list \<Rightarrow> 'a list" where
  "rotr r xs = drop (length xs - r) xs @ take (length xs - r) xs"

lemma attends_rotr:
  assumes "length keys = length row"
  shows "attends (rotr r keys) (rotr r row) = attends keys row"
proof -
  let ?s = "length row - r"
  have "attends (rotr r keys) (rotr r row) = attends (take ?s keys) (take ?s row) + attends (drop ?s keys) (drop ?s row)"
    using assms by (simp add: rotr_def attends_append add.commute)
  also have "\<dots> = attends keys row" using assms attends_append[of "take ?s keys" "take ?s row" "drop ?s keys" "drop ?s row"] by simp
  finally show ?thesis .
qed

lemma rotr_replicate [simp]: "rotr s (replicate n x) = replicate n x"
  by (rule nth_equalityI) (auto simp: rotr_def nth_append)

lemma rotr_0 [simp]: "rotr 0 xs = xs" by (simp add: rotr_def)

subsection \<open>The slots of a ring\<close>

lemma rotr_back: "i \<le> length b \<Longrightarrow> rotr i (drop i b @ take i b) = b"
  by (simp add: rotr_def)

text \<open>The view shows the window, turned by the place of the next write.\<close>

lemma ring_View_slots:
  assumes "ring_ok c" "0 < rg_offset c"
  shows "\<exists>slots r. ring_View c = Some (slots, r) \<and> ap_K r = min (rg_offset c) (rg_maxSize c) \<and> ap_L r = 1 \<and>
    slots = rotr (ap_ringIdx r mod ap_K r) (lastn (ap_K r) (ring_window c)) \<and> length slots = ap_K r"
proof -
  obtain b where b: "rg_keys c = Some b" using assms by (cases "rg_keys c") (auto simp: ring_ok_def)
  let ?M = "rg_maxSize c" and ?n = "rg_offset c"
  consider (lin) "?n \<le> ?M" "rg_idx c = ?n" "?n \<le> length b" | (long) "?M < ?n" "rg_idx c = length b" "?M < length b" "length b \<le> ?n"
    | (ring) "?M < ?n" "length b = ?M" "rg_idx c \<le> ?M"
    using assms(1) b by (fastforce simp: ring_ok_def split: if_splits)
  then show ?thesis
  proof cases
    case lin
    then show ?thesis using b assms(2) by (auto simp: ring_View_def ring_State_def Let_def ring_window_def)
  next
    case long
    then show ?thesis using b by (auto simp: ring_View_def ring_State_def Let_def ring_window_def lastn_def)
  next
    case ring
    have "rotr (rg_idx c mod ?M) (lastn ?M (ring_window c)) = b"
    proof (cases "rg_idx c = ?M")
      case True
      then show ?thesis using ring b by (simp add: ring_window_def)
    next
      case False
      then show ?thesis using ring b rotr_back[of "rg_idx c" b] by (simp add: ring_window_def)
    qed
    then show ?thesis using ring b by (simp add: ring_View_def ring_State_def Let_def)
  qed
qed

text \<open>A single write hands out what the view would show.\<close>

lemma ring_history_single:
  assumes "ring_ok c"
  shows "ring_View (ring_write z [x] c) = Some (ring_history [x] (ring_write z [x] c), ring_applier [x] (ring_write z [x] c))"
proof -
  let ?c = "ring_write z [x] c"
  have ok: "ring_ok ?c" "rg_offset ?c = Suc (rg_offset c)" "rg_maxSize ?c = rg_maxSize c"
    using ring_write_window[OF assms, of "[x]" z] by simp_all
  obtain b where b: "rg_keys ?c = Some b" using ok(1,2) by (cases "rg_keys ?c") (auto simp: ring_ok_def)
  have w: "ring_window ?c = lastn (rg_maxSize c - 1) (ring_window c) @ [x]" using ring_write_window(2)[OF assms, of "[x]" z] by simp
  have M: "0 < rg_maxSize c" using assms by (simp add: ring_ok_def)
  have "length (ring_window ?c) \<le> rg_maxSize c" using M w by simp
  then have "length b \<le> rg_maxSize c \<or> rg_offset ?c \<le> rg_maxSize c"
    using b by (auto simp: ring_window_def split: if_splits)
  then have "length b \<le> rg_maxSize c" "min (rg_offset ?c) (length b) = min (rg_offset ?c) (rg_maxSize c)"
    using ok b by (auto simp: ring_ok_def split: if_splits)
  then show ?thesis using b ok(3)
    by (simp add: ring_View_def ring_State_def ring_history_def ring_applier_def batched_def Let_def)
qed

subsection \<open>The window as a mask\<close>

lemma SlidingWindow_cell:
  assumes "cell_ok b K i q k" "0 < M"
  shows "array_cell (SlidingWindowMask b K M) i q k =
      (if oldestPos b K i + k + M \<le> bt_SeqOffsets b ! i + q then Blocked else Cell 0)"
    "mask_ok K (SlidingWindowMask b K M)" "flag_cell b K (SlidingWindowMask b' K' M) i q k = Cell 0"
proof -
  have pos: "int k < maskCount b K M i q \<longleftrightarrow> oldestPos b K i + k + M \<le> bt_SeqOffsets b ! i + q"
    using assms(1) by (auto simp: maskCount_def Let_def)
  have need: "list_ex (\<lambda>i. list_ex (\<lambda>q. 0 < maskCount b K M i q) [0..<bt_L b]) [0..<length (bt_SeqOffsets b)]"
    if "int k < maskCount b K M i q"
  proof -
    have "0 < maskCount b K M i q" using that by simp
    then show ?thesis using assms(1) unfolding list_ex_iff by (intro bexI[of _ i] bexI[of _ q]) auto
  qed
  show "array_cell (SlidingWindowMask b K M) i q k =
      (if oldestPos b K i + k + M \<le> bt_SeqOffsets b ! i + q then Blocked else Cell 0)"
    using assms need by (auto simp: SlidingWindowMask_def array_cell_def ZeroMask_def ArrayMask_def ar_get_def pos[symmetric])
  show "mask_ok K (SlidingWindowMask b K M)" "flag_cell b K (SlidingWindowMask b' K' M) i q k = Cell 0"
    by (auto simp: SlidingWindowMask_def mask_ok_def ZeroMask_def ArrayMask_def flag_cell_def allows_def)
qed

lemma Intersect_window_cell:
  fixes m :: "'f::{zero,plus} AttentionMask"
  assumes "\<And>x::'f. 0 + x = x \<and> x + 0 = x" "mask_ok K m" "cell_ok b K i q k" "0 < M"
  shows "mask_cell b K (Intersect m (SlidingWindowMask b K M)) i q k =
    (if oldestPos b K i + k + M \<le> bt_SeqOffsets b ! i + q then Blocked else mask_cell b K m i q k)"
proof -
  note w = SlidingWindow_cell[OF assms(3,4)] and z = cell_add_zero[OF assms(1)]
  have "mask_cell b K (SlidingWindowMask b K M) i q k =
      (if oldestPos b K i + k + M \<le> bt_SeqOffsets b ! i + q then Blocked else Cell (0::'f))"
    using mask_cell_split[OF assms(1) w(2) assms(3)] z by (simp add: w(1,3))
  moreover have "cell_add x Blocked = Blocked" for x :: "'f cell" by (cases x) simp_all
  ultimately show ?thesis
    using Intersect_is_sum[OF assms(1,2) w(2), of i b q k] assms(3) z by (auto simp: mask_cell_def)
qed

section \<open>A ring and its mask are a history and a window\<close>

text \<open>Masks of a model: a flag with rectangles, and an array without columns (padding of queries).\<close>

definition plain_mask :: "'f AttentionMask \<Rightarrow> bool" where
  "plain_mask m \<longleftrightarrow> (am_relaxations m \<noteq> [] \<longrightarrow> am_causal m) \<and> (\<forall>a. am_array m = Some a \<longrightarrow> ar_width a = 1)"

lemma plain_mask_ok: "plain_mask m \<Longrightarrow> mask_ok K m"
  by (auto simp: plain_mask_def mask_ok_def)

lemma plain_mask_padding: "plain_mask m \<Longrightarrow> plain_mask (Intersect m (QPaddingMask b))"
  by (auto simp: plain_mask_def Intersect_def QPaddingMask_def ArrayMask_def ZeroMask_def IsZero_def ar_add_def
      split: option.splits if_splits)

lemma AsArray_width: "plain_mask m \<Longrightarrow> ar_width (AsArray b K m) = 1 \<or> ar_width (AsArray b K m) = K"
  by (cases "am_causal m"; cases "am_array m") (auto simp: AsArray_def plain_mask_def Let_def ar_add_def)

text \<open>The same positions in a shorter history.\<close>

lemma mask_cell_shift:
  fixes m :: "'f::{zero,plus} AttentionMask"
  assumes "\<And>x::'f. 0 + x = x \<and> x + 0 = x" "plain_mask m" "bt_SeqOffsets b = [n]" "N = n + bt_L b" "q < bt_L b" "K \<le> N" "k < K"
  shows "mask_cell b N m 0 q (N - K + k) = mask_cell b K m 0 q k"
proof -
  have ok: "cell_ok b N 0 q (N - K + k)" "cell_ok b K 0 q k" using assms(3-7) by auto
  have "array_cell m 0 q (N - K + k) = array_cell m 0 q k"
    using assms(2) by (auto simp: array_cell_def plain_mask_def ar_get_def split: option.splits)
  moreover have "flag_cell b N m 0 q (N - K + k) = flag_cell b K m 0 q k"
    using assms(3,4,6) by (simp add: flag_cell_def oldestPos_def)
  ultimately show ?thesis
    using mask_cell_split[OF assms(1) plain_mask_ok[OF assms(2)] ok(1)] mask_cell_split[OF assms(1) plain_mask_ok[OF assms(2)] ok(2)]
    by simp
qed

lemma window_mask_attends:
  fixes m :: "'f::{zero,plus} AttentionMask"
  assumes "\<And>x::'f. 0 + x = x \<and> x + 0 = x" "plain_mask m" "bt_SeqOffsets b = [n]" "N = n + bt_L b" "q < bt_L b" "K \<le> N" "0 < M"
    "length E = N" "\<And>P. P < N - K \<Longrightarrow> P + M \<le> n + q"
  shows "attends E (mask_row b N (Intersect m (SlidingWindowMask b N M)) q) =
    attends (drop (N - K) E) (map (\<lambda>k. if N - K + k + M \<le> n + q then Blocked else mask_cell b K m 0 q k) [0..<K])"
proof -
  let ?f = "\<lambda>P. if P + M \<le> n + q then Blocked else mask_cell b N m 0 q P"
  have old: "oldestPos b N 0 = 0" using assms(3,4) by (simp add: oldestPos_def)
  have "mask_row b N (Intersect m (SlidingWindowMask b N M)) q = map ?f [0..<N]"
    unfolding mask_row_def mask_cell_def[symmetric]
    using Intersect_window_cell[OF assms(1) plain_mask_ok[OF assms(2)], where b = b and K = N and i = 0 and q = q and M = M] assms(3,5,7) old by auto
  also have "[0..<N] = [0..<N - K] @ map (\<lambda>k. N - K + k) [0..<K]"
  proof -
    have "[N - K..<N] = map (\<lambda>k. N - K + k) [0..<K]" using assms(6) by (intro nth_equalityI) auto
    then show ?thesis using assms(6) upt_add_eq_append[of 0 "N - K" K] by simp
  qed
  also have "map ?f ([0..<N - K] @ map (\<lambda>k. N - K + k) [0..<K]) =
      map (\<lambda>_. Blocked) [0..<N - K] @ map (\<lambda>k. if N - K + k + M \<le> n + q then Blocked else mask_cell b K m 0 q k) [0..<K]"
    using assms(9) mask_cell_shift[OF assms(1-6)] by auto
  finally have row: "mask_row b N (Intersect m (SlidingWindowMask b N M)) q =
      map (\<lambda>_. Blocked) [0..<N - K] @ map (\<lambda>k. if N - K + k + M \<le> n + q then Blocked else mask_cell b K m 0 q k) [0..<K]" .
  have "attends (take (N - K) E @ drop (N - K) E) (map (\<lambda>_. Blocked) [0..<N - K] @
      map (\<lambda>k. if N - K + k + M \<le> n + q then Blocked else mask_cell b K m 0 q k) [0..<K]) =
    attends (drop (N - K) E) (map (\<lambda>k. if N - K + k + M \<le> n + q then Blocked else mask_cell b K m 0 q k) [0..<K])"
  proof -
    have "attends (take (N - K) E) (map (\<lambda>_. Blocked :: 'f cell) [0..<N - K]) = {#}" by (rule attends_blocked) auto
    then show ?thesis using assms(8) by (subst attends_append) simp_all
  qed
  then show ?thesis by (simp add: row)
qed

text \<open>The columns gathered for a single query are the mask's own, turned like the slots.\<close>

lemma gather_defined: "ar_width a = 1 \<or> ar_width a = K \<Longrightarrow> 0 < K \<Longrightarrow> \<exists>a'. gatherRingCols a r K = Some a'"
  by (auto simp: gatherRingCols_def Let_def)

lemma gather_row:
  assumes "gatherRingCols a r K = Some a'" "ar_width a = 1 \<or> ar_width a = K"
  shows "map (ar_get a' 0 0) [0..<K] = rotr (r mod K) (map (ar_get a 0 0) [0..<K])"
proof (cases "r mod K = 0 \<or> ar_width a = 1")
  case True
  then have "a' = a" using assms(1) by (auto simp: gatherRingCols_def split: if_splits)
  moreover have "rotr s (map (ar_get a 0 0) [0..<K]) = map (ar_get a 0 0) [0..<K]" if w: "ar_width a = 1" and "s \<le> K" for s
  proof -
    have "map (ar_get a 0 0) [0..<K] = replicate K (ar_at a 0 0 0)"
      by (rule nth_equalityI) (simp_all add: ar_get_def w)
    then show ?thesis using that(2) by (simp add: rotr_def replicate_add[symmetric])
  qed
  ultimately show ?thesis using True assms(1) by (cases "r mod K = 0") (auto simp: gatherRingCols_def split: if_splits)
next
  case False
  let ?s = "r mod K"
  have K: "0 < K" "ar_width a = K" "K \<noteq> 1" "?s < K" using False assms by (auto simp: gatherRingCols_def split: if_splits)
  have a': "ar_width a' = K" "\<And>k. ar_at a' 0 0 k = (if k < ?s then ar_at a 0 0 (K - ?s + k) else ar_at a 0 0 (k - ?s))"
    using assms(1) False K by (auto simp: gatherRingCols_def Let_def split: if_splits)
  show ?thesis
  proof (rule nth_equalityI)
    fix k assume "k < length (map (ar_get a' 0 0) [0..<K])"
    then have "k < K" by simp
    then show "map (ar_get a' 0 0) [0..<K] ! k = rotr ?s (map (ar_get a 0 0) [0..<K]) ! k"
      using K a' by (auto simp: rotr_def ar_get_def nth_append add.commute)
  qed (use K in \<open>simp add: rotr_def\<close>)
qed

lemma flag_mask_row:
  fixes m :: "'f::{zero,plus} AttentionMask"
  assumes "IsZero m \<or> IsCausal m" "bt_SeqOffsets b = [n]" "bt_L b = 1" "K \<le> Suc n"
  shows "mask_row b K m 0 = replicate K (Cell 0)" "mask_row b K ZeroMask 0 = replicate K (Cell (0::'f))"
  using assms
  by (auto simp: mask_row_def AsArray_def IsZero_def IsCausal_def ZeroMask_def Let_def ar_get_def causal_vals_def oldestPos_def
      intro!: nth_equalityI)

lemma suffix_is_drop: "suffix xs ys \<Longrightarrow> length ys = n \<Longrightarrow> drop (n - length xs) ys = xs"
  by (auto simp: suffix_def)

lemma ApplyMask_attends:
  fixes m :: "'f::{zero,plus} AttentionMask"
  assumes z: "\<And>x::'f. 0 + x = x \<and> x + 0 = x" and h: "ring_holds M entry c w" and "ts \<noteq> []"
    and keys: "keys = drop (length w) (entries entry (w @ ts))" and c': "c' = ring_write z keys c"
    and b: "bt_SeqOffsets b = [length w]" "bt_L b = length ts" and m: "plain_mask m" and q: "q < length ts"
  shows "\<exists>m'. ApplyMask b (ring_applier keys c') m = Some m' \<and> length (ring_history keys c') \<le> length (w @ ts) \<and>
    attends (ring_history keys c') (mask_row b (length (ring_history keys c')) m' q) =
    attends (entries entry (w @ ts)) (mask_row b (length (w @ ts)) (Intersect m (SlidingWindowMask b (length (w @ ts)) M)) q)"
proof -
  let ?v = "w @ ts" and ?n = "length w"
  have ok: "ring_ok c" "rg_maxSize c = M" "0 < M" "rg_offset c = ?n" using h by (auto simp: ring_holds_def ring_ok_def)
  have h': "ring_holds M entry c' ?v" unfolding c' keys by (rule ring_holds_write[OF h \<open>ts \<noteq> []\<close>])
  have lk: "length keys = length ts" by (simp add: keys)
  have win: "ring_window c' = lastn (M - 1) (ring_window c) @ keys"
    using ring_write_window(2)[OF ok(1), of keys] \<open>ts \<noteq> []\<close> lk ok(2) c' by fastforce
  have suf: "suffix (ring_window c') (entries entry ?v)" and off: "rg_offset c' = length ?v" "rg_maxSize c' = M" "ring_ok c'"
    using h' by (simp_all add: ring_holds_def)
  have wl: "min ?n M \<le> length (ring_window c)" "length (ring_window c) \<le> ?n" using ring_window_length[OF ok(1)] ok by simp_all
  note reduce = window_mask_attends[OF z m b(1) _ _ _ ok(3), of "length ?v"]
  show ?thesis
  proof (cases "batched keys")
    case True
    let ?K = "length (ring_window c')"
    have hist: "ring_history keys c' = ring_window c'"
    proof -
      have "keys \<noteq> []" using True by (auto simp: batched_def)
      then have "rg_keys c' = Some (ring_window c')" using ring_concat_window[OF ok(1) _ True] True c' by (simp add: ring_write_def)
      then show ?thesis using True by (simp add: ring_history_def)
    qed
    have K: "?K = min (M - 1) (length (ring_window c)) + length ts" using win lk by simp
    have W: "ring_window c' = drop (length ?v - ?K) (entries entry ?v)"
      using suffix_is_drop[OF suf, of "length ?v"] by simp
    have le: "?K \<le> length ?v" using K wl by simp
    have far: "P + M \<le> ?n + q" if "P < length ?v - ?K" for P using that K wl ok(3) by (auto simp: min_def split: if_splits)
    let ?m = "Intersect m (SlidingWindowMask b ?K M)"
    have "mask_row b ?K ?m q = map (\<lambda>k. if length ?v - ?K + k + M \<le> ?n + q then Blocked else mask_cell b ?K m 0 q k) [0..<?K]"
      unfolding mask_row_def mask_cell_def[symmetric]
      using Intersect_window_cell[OF z plain_mask_ok[OF m], where b = b and K = ?K and i = 0 and q = q and M = M] b q ok(3) by (auto simp: oldestPos_def)
    then have "attends (ring_window c') (mask_row b ?K ?m q) =
        attends (entries entry ?v) (mask_row b (length ?v) (Intersect m (SlidingWindowMask b (length ?v) M)) q)"
      using reduce[of q ?K "entries entry ?v"] b q le far W by simp
    moreover have "ApplyMask b (ring_applier keys c') m = Some ?m"
      using True off(2) hist by (simp add: ApplyMask_def ring_applier_def batched_def)
    ultimately show ?thesis using hist le by auto
  next
    case False
    then obtain x where x: "keys = [x]" using lk \<open>ts \<noteq> []\<close> by (cases keys rule: remdups_adj.cases) (auto simp: batched_def)
    have L: "length ts = 1" "bt_L b = 1" "q = 0" using lk x b q by auto
    let ?K = "min (length ?v) M"
    obtain slots r where v: "ring_View c' = Some (slots, r)" "ap_K r = ?K" "ap_L r = 1"
      "slots = rotr (ap_ringIdx r mod ?K) (lastn ?K (ring_window c'))" "length slots = ?K"
      using ring_View_slots[OF off(3)] off(1,2) L(1) by auto
    have hist: "slots = ring_history keys c'" "r = ring_applier keys c'"
      using v(1) ring_history_single[OF ok(1)] x c' by auto
    have "?K \<le> length (ring_window c')" using ring_window_length[OF off(3)] off by simp
    then have W: "lastn ?K (ring_window c') = drop (length ?v - ?K) (entries entry ?v)"
      using suffix_is_drop[OF suffix_order.trans[OF lastn_simps(3) suf], of "length ?v" ?K] by simp
    have "map (\<lambda>k. if length ?v - ?K + k + M \<le> ?n + q then Blocked else mask_cell b ?K m 0 q k) [0..<?K] = mask_row b ?K m 0"
      using L by (auto simp: mask_row_def mask_cell_def)
    then have red: "attends (entries entry ?v) (mask_row b (length ?v) (Intersect m (SlidingWindowMask b (length ?v) M)) q) =
        attends (drop (length ?v - ?K) (entries entry ?v)) (mask_row b ?K m 0)"
      using reduce[of q ?K "entries entry ?v"] b q L by fastforce
    have len: "length (drop (length ?v - ?K) (entries entry ?v)) = length (mask_row b ?K m 0)" by (simp add: mask_row_def)
    have "\<exists>m'. ApplyMask b r m = Some m' \<and> mask_row b ?K m' 0 = rotr (ap_ringIdx r mod ?K) (mask_row b ?K m 0)"
    proof (cases "IsZero m \<or> IsCausal m")
      case True
      then show ?thesis using v(3) flag_mask_row[OF True b(1) L(2), of ?K] L by (simp add: ApplyMask_def)
    next
      case False
      have w: "ar_width (AsArray b ?K m) = 1 \<or> ar_width (AsArray b ?K m) = ?K"
        by (rule AsArray_width[OF m])
      have "0 < ?K" using L ok(3) by simp
      then obtain a' where a': "gatherRingCols (AsArray b ?K m) (ap_ringIdx r) ?K = Some a'"
        using gather_defined[OF w] by blast
      have "AsArray b ?K (ArrayMask a') = a'" by (simp add: AsArray_def ArrayMask_def)
      then show ?thesis using False v(2,3) a' gather_row[OF a' w] by (simp add: ApplyMask_def mask_row_def)
    qed
    then obtain m' where m': "ApplyMask b r m = Some m'" "mask_row b ?K m' 0 = rotr (ap_ringIdx r mod ?K) (mask_row b ?K m 0)" by blast
    have "attends slots (mask_row b ?K m' 0) = attends (drop (length ?v - ?K) (entries entry ?v)) (mask_row b ?K m 0)"
      unfolding v(4) W m'(2) by (rule attends_rotr[OF len])
    then show ?thesis using red m'(1) hist v(5) L by auto
  qed
qed


lemma attends_map:
  "attends (map g xs) (map f xs) = mset (concat (map (\<lambda>P. case f P of Blocked \<Rightarrow> [] | Cell x \<Rightarrow> [(g P, x)]) xs))"
  by (simp add: attends_def zip_map_map map_concat comp_def zip_same_conv_map)

lemma upt_split: "i \<le> j \<Longrightarrow> j \<le> k \<Longrightarrow> [i..<k] = [i..<j] @ [j..<k]"
  using upt_add_eq_append[of i j "k - j"] by simp

lemma attends_causal:
  fixes b :: maskBatch
  assumes z: "\<And>x::'f::{zero,plus}. 0 + x = x \<and> x + 0 = x" and b: "bt_SeqOffsets b = [length w]" "bt_L b = length ts"
    and q: "q < length ts" and M: "0 < M"
  shows "attends (entries entry (w @ ts)) (mask_row b (length (w @ ts)) (Intersect CausalMask (SlidingWindowMask b (length (w @ ts)) M)) q) =
    mset (map (\<lambda>P. (entry (take (Suc P) (w @ ts)), 0::'f)) [length w + q + 1 - M ..< length w + q + 1])"
proof -
  let ?N = "length (w @ ts)" and ?n = "length w" and ?g = "\<lambda>P. entry (take (Suc P) (w @ ts))"
  let ?f = "\<lambda>P. if P + M \<le> ?n + q then Blocked else if P \<le> ?n + q then Cell (0::'f) else Blocked"
  let ?lo = "?n + q + 1 - M" and ?hi = "?n + q + 1"
  have ok: "mask_ok ?N (CausalMask :: 'f AttentionMask)" by (simp add: mask_ok_def CausalMask_def)
  have old: "oldestPos b ?N 0 = 0" using b by (simp add: oldestPos_def)
  have "mask_cell b ?N CausalMask 0 q P = (if P \<le> ?n + q then Cell (0::'f) else Blocked)" if "P < ?N" for P
    using mask_cell_split[OF z ok, of 0 b q P] cell_add_zero[OF z] that b q old
    by (simp add: flag_cell_def array_cell_def allows_def CausalMask_def)
  then have row: "mask_row b ?N (Intersect CausalMask (SlidingWindowMask b ?N M)) q = map ?f [0..<?N]"
    unfolding mask_row_def mask_cell_def[symmetric]
    using Intersect_window_cell[OF z ok, where b = b and i = 0 and q = q and M = M] b q M old by auto
  have "[0..<?hi] = [0..<?lo] @ [?lo..<?hi]" by (rule upt_split) simp_all
  moreover have "[0..<?N] = [0..<?hi] @ [?hi..<?N]" by (rule upt_split) (use q in simp_all)
  ultimately have split: "[0..<?N] = [0..<?lo] @ [?lo..<?hi] @ [?hi..<?N]" by (simp only: append_assoc)
  define h where "h = (\<lambda>P. case ?f P of Blocked \<Rightarrow> [] | Cell x \<Rightarrow> [(?g P, x)])"
  have "concat (map h [0..<?lo]) = []" "concat (map h [?hi..<?N]) = []" by (auto simp: h_def)
  moreover have "map h [?lo..<?hi] = map (\<lambda>P. [(?g P, 0)]) [?lo..<?hi]" by (rule map_cong) (auto simp: h_def)
  moreover have "concat (map (\<lambda>P. [(?g P, 0::'f)]) xs) = map (\<lambda>P. (?g P, 0)) xs" for xs by (induction xs) simp_all
  ultimately have "concat (map h [0..<?N]) = map (\<lambda>P. (?g P, 0)) [?lo..<?hi]"
    unfolding split map_append concat_append by (simp only: append_Nil append_Nil2)
  moreover have "entries entry (w @ ts) = map ?g [0..<?N]" by (simp add: entries_def)
  ultimately show ?thesis unfolding row by (simp only: attends_map h_def)
qed

text \<open>The kernel, with the masks of a ring.\<close>

definition ring_sees ::
  "maskBatch \<Rightarrow> 'v list \<Rightarrow> ('v, 'z) ring_scheme \<Rightarrow> 'f::{zero,plus} AttentionMask \<Rightarrow> nat \<Rightarrow> ('v \<times> 'f) multiset" where
  "ring_sees b keys c m q =
     (let hist = ring_history keys c; r = ring_applier keys c; K = length hist;
          d = resolve b K (Some (\<lambda>x. the (ApplyMask b r x))) [] m
      in attends hist (map (kernel_cell b K d 0 q) [0..<K]))"

lemma ring_sees_core:
  fixes m :: "'f::{zero,plus} AttentionMask"
  assumes z: "\<And>x::'f. 0 + x = x \<and> x + 0 = x" and h: "ring_holds M entry c w" and ts: "ts \<noteq> []"
    and keys: "keys = drop (length w) (entries entry (w @ ts))" and c': "c' = ring_write z keys c"
    and b: "bt_SeqOffsets b = [length w]" "bt_L b = length ts" and m: "plain_mask m" and q: "q < length ts"
  shows "ApplyMask b (ring_applier keys c') (Intersect m (QPaddingMask b)) \<noteq> None \<and>
    ring_sees b keys c' m q = attends (entries entry (w @ ts))
      (mask_row b (length (w @ ts)) (Intersect (Intersect m (QPaddingMask b)) (SlidingWindowMask b (length (w @ ts)) M)) q)"
proof -
  let ?K = "length (ring_history keys c')" and ?m = "Intersect m (QPaddingMask b)"
  obtain m' where m': "ApplyMask b (ring_applier keys c') ?m = Some m'" "?K \<le> length (w @ ts)"
    "attends (ring_history keys c') (mask_row b ?K m' q) =
      attends (entries entry (w @ ts)) (mask_row b (length (w @ ts)) (Intersect ?m (SlidingWindowMask b (length (w @ ts)) M)) q)"
    using ApplyMask_attends[OF z h ts keys c' b plain_mask_padding[OF m] q] by blast
  have "kernel_cell b ?K (resolve b ?K (Some (\<lambda>x. the (ApplyMask b (ring_applier keys c') x))) [] m) 0 q k = ar_get (AsArray b ?K m') 0 q k"
    if "k < ?K" for k
    unfolding resolve_def Let_def option.case m'(1) option.sel
    using kernel_dispatch[of 0 b q k ?K m'] that b q m'(2) by (simp add: mask_cell_def)
  then have "map (kernel_cell b ?K (resolve b ?K (Some (\<lambda>x. the (ApplyMask b (ring_applier keys c') x))) [] m) 0 q) [0..<?K] =
      mask_row b ?K m' q" unfolding mask_row_def by (intro map_cong) simp_all
  then have "ring_sees b keys c' m q = attends (ring_history keys c') (mask_row b ?K m' q)"
    by (simp add: ring_sees_def Let_def)
  then show ?thesis using m' by simp
qed

section \<open>Properties\<close>

text \<open>
  C2. A sliding-window layer is a full history behind a window: whatever a layer went through before
  (batches, single tokens, restores), after it writes the entries of new tokens the mask it makes of the
  mask of the model is defined, and the call of the kernel over its slots, be they in order, in a ring or in a
  buffer that is too long, sees for every query the keys and numbers that it would see over the full
  history with the mask of the model, the padding of queries and a mask for the window.
\<close>

theorem ring_is_window:
  fixes m :: "'f::{zero,plus} AttentionMask"
  assumes "\<And>x::'f. 0 + x = x \<and> x + 0 = x" "ring_holds M entry c w" "ts \<noteq> []"
    "keys = drop (length w) (entries entry (w @ ts))" "c' = ring_write z keys c"
    "bt_SeqOffsets b = [length w]" "bt_L b = length ts" "plain_mask m" "q < length ts"
  shows "ApplyMask b (ring_applier keys c') (Intersect m (QPaddingMask b)) \<noteq> None \<and>
    ring_sees b keys c' m q = attends (entries entry (w @ ts))
      (mask_row b (length (w @ ts)) (Intersect (Intersect m (QPaddingMask b)) (SlidingWindowMask b (length (w @ ts)) M)) q)"
  by (rule ring_sees_core[OF assms])

text \<open>
  C17. With the causal mask and no padding, a query at position \<open>p\<close> attends to exactly the positions from
  \<open>p + 1 - maxSize\<close> to \<open>p\<close>, each once, through every layout of the buffer.
\<close>

theorem ring_sees_last_positions:
  assumes "\<And>x::'f::{zero,plus}. 0 + x = x \<and> x + 0 = x" "ring_holds M entry c w" "ts \<noteq> []"
    "keys = drop (length w) (entries entry (w @ ts))" "c' = ring_write z keys c"
    "bt_SeqOffsets b = [length w]" "bt_SeqQueryLens b = [length ts]" "bt_L b = length ts" "q < length ts"
  shows "ring_sees b keys c' (CausalMask :: 'f AttentionMask) q =
    mset (map (\<lambda>P. (entry (take (P + 1) (w @ ts)), 0)) [length w + q + 1 - M ..< length w + q + 1])"
proof -
  have "plain_mask (CausalMask :: 'f AttentionMask)" by (simp add: plain_mask_def CausalMask_def)
  note core = ring_sees_core[OF assms(1-6,8) this assms(9)]
  have "QPaddingMask b = (ZeroMask :: 'f AttentionMask)" using assms(6-8) by (simp add: QPaddingMask_def pad_needed_def)
  then have "Intersect CausalMask (QPaddingMask b) = (CausalMask :: 'f AttentionMask)"
    by (simp add: Intersect_def IsZero_def ZeroMask_def CausalMask_def)
  then show ?thesis using core attends_causal[OF assms(1,6,8,9), of M entry] assms(2)
    by (simp add: ring_holds_def ring_ok_def)
qed

text \<open>A window of two positions, whose buffer is a ring already, and two more tokens.\<close>

definition example_ring :: "nat list ring" where
  "example_ring = ring_write [] [[1, 2, 3]] (ring_write [] [[1, 2]] (ring_write [] [[1]] (new_ring 2)))"

lemma example_ring_holds: "ring_holds 2 id example_ring [1, 2, 3]"
proof -
  have "ring_holds 2 id (new_ring 2 :: nat list ring) []"
    by (simp add: ring_holds_def new_ring_def ring_ok_def ring_window_def)
  from ring_holds_write[OF this, of "[1]" "[]"] have "ring_holds 2 id (ring_write [] [[1]] (new_ring 2) :: nat list ring) [1]"
    by (simp add: entries_def)
  from ring_holds_write[OF this, of "[2]" "[]"]
  have "ring_holds 2 id (ring_write [] [[1, 2]] (ring_write [] [[1]] (new_ring 2)) :: nat list ring) [1, 2]"
    by (simp add: entries_def)
  from ring_holds_write[OF this, of "[3]" "[]"] show ?thesis by (simp add: entries_def example_ring_def)
qed

abbreviation example_batch :: "nat \<Rightarrow> maskBatch" where
  "example_batch l \<equiv> \<lparr>bt_SeqOffsets = [3], bt_SeqQueryLens = [l], bt_L = l\<rparr>"

theorem ring_is_window_witness:
  "ring_sees (example_batch 1) [[1, 2, 3, 4]] (ring_write [] [[1, 2, 3, 4]] example_ring) (CausalMask :: int AttentionMask) 0 =
   attends (entries id ([1, 2, 3] @ [4])) (mask_row (example_batch 1) (length ([1, 2, 3] @ [4 :: nat]))
     (Intersect (Intersect CausalMask (QPaddingMask (example_batch 1)))
       (SlidingWindowMask (example_batch 1) (length ([1, 2, 3] @ [4 :: nat])) 2)) 0)"
proof -
  have keys: "[[1, 2, 3, 4]] = drop (length [1, 2, 3]) (entries id ([1, 2, 3] @ [4 :: nat]))" by (simp add: entries_def)
  have m: "plain_mask (CausalMask :: int AttentionMask)" by (simp add: plain_mask_def CausalMask_def)
  show ?thesis by (rule conjunct2[OF ring_is_window[OF _ example_ring_holds _ keys refl _ _ m]]) simp_all
qed

theorem ring_sees_last_positions_witness:
  "ring_sees (example_batch 2) [[1, 2, 3, 4], [1, 2, 3, 4, 5]]
     (ring_write [] [[1, 2, 3, 4], [1, 2, 3, 4, 5]] example_ring) (CausalMask :: int AttentionMask) 0 =
   {#([1, 2, 3], 0), ([1, 2, 3, 4], 0)#}"
  using ring_sees_last_positions[OF _ example_ring_holds, of "[4, 5]" "[[1, 2, 3, 4], [1, 2, 3, 4, 5]]" _ "[]"
      "example_batch 2" 0, where 'f = int]
  by (simp add: entries_def upt_rec add_mset_commute)

end
