(* ===== verification/RotatingCache.thy ===== *)
theory RotatingCache
  imports RotatingBuffer "HOL-Library.Monad_Syntax"
begin

text \<open>
  \<^verbatim>\<open>mlxrunner/cache/rotating.go\<close>: the cache of a sliding-window layer. A capture of an offset inside a batch is
  lazy: it names a range of slots of the live buffer. Every write first copies these ranges out, since it
  moves or overwrites the slots, and so does everything else that replaces the buffer; restoring a lazy
  snapshot makes its range the buffer and points the snapshot to the whole of it.

  The fields of the buffer are those of \<open>ring\<close>. As in \<open>KVCache\<close> a snapshot is a pointer into the store
  \<open>t_heap\<close>, \<open>t_cache\<close> says that its field \<^verbatim>\<open>cache\<close> is set (the cache of the model is the only one),
  \<open>t_materialized\<close> is what the hooks have reported, and a call on a \<^verbatim>\<open>nil\<close> pointer is \<open>None\<close>. The abstract
  layer keeps copies; \<open>rotating_refines\<close> says that no client can tell the two apart.
\<close>

section \<open>The cache\<close>

record 'v rotatingSnapshot =
  t_keys :: "'v list option"
  t_fromOffset :: nat
  t_toOffset :: nat
  t_idx :: nat
  t_cache :: bool
  t_sliceStart :: nat
  t_sliceEnd :: nat
  t_onMaterialize :: bool

record 'v RotatingKVCache =
  t_ring :: "'v ring"
  t_snapshots :: "nat pendingSnapshots"
  t_lazySnapshots :: "nat list"
  t_heap :: "nat \<Rightarrow> 'v rotatingSnapshot"
  t_next :: nat
  t_materialized :: nat

definition NewRotatingKVCache :: "nat \<Rightarrow> 'v RotatingKVCache" where
  "NewRotatingKVCache maxSize =
     \<lparr>t_ring = new_ring maxSize, t_snapshots = no_pending, t_lazySnapshots = [],
      t_heap = (\<lambda>_. \<lparr>t_keys = None, t_fromOffset = 0, t_toOffset = 0, t_idx = 0, t_cache = False, t_sliceStart = 0,
                     t_sliceEnd = 0, t_onMaterialize = False\<rparr>),
      t_next = 0, t_materialized = 0\<rparr>"

definition upd_rsnap :: "nat \<Rightarrow> ('v rotatingSnapshot \<Rightarrow> 'v rotatingSnapshot) \<Rightarrow> 'v RotatingKVCache \<Rightarrow> 'v RotatingKVCache" where
  "upd_rsnap p f c = c\<lparr>t_heap := (t_heap c)(p := f (t_heap c p))\<rparr>"

definition new_rsnap :: "'v rotatingSnapshot \<Rightarrow> 'v RotatingKVCache \<Rightarrow> nat \<times> 'v RotatingKVCache" where
  "new_rsnap s c = (t_next c, c\<lparr>t_heap := (t_heap c)(t_next c := s), t_next := Suc (t_next c)\<rparr>)"

definition Rot_Size :: "nat \<Rightarrow> 'v RotatingKVCache \<Rightarrow> nat" where
  "Rot_Size p c = (case t_keys (t_heap c p) of Some ks \<Rightarrow> length ks | None \<Rightarrow> 0)"

definition Rot_SetMaterializeHook :: "nat \<Rightarrow> bool \<Rightarrow> 'v RotatingKVCache \<Rightarrow> 'v RotatingKVCache" where
  "Rot_SetMaterializeHook p fn c = upd_rsnap p (\<lambda>s. s\<lparr>t_onMaterialize := fn\<rparr>) c"

definition rot_dropLazySnapshot :: "nat \<Rightarrow> 'v RotatingKVCache \<Rightarrow> 'v RotatingKVCache" where
  "rot_dropLazySnapshot p c = c\<lparr>t_lazySnapshots := remove1 p (t_lazySnapshots c)\<rparr>"

definition Rot_Close :: "nat \<Rightarrow> 'v RotatingKVCache \<Rightarrow> 'v RotatingKVCache" where
  "Rot_Close p c =
     (if t_cache (t_heap c p) then upd_rsnap p (\<lambda>s. s\<lparr>t_cache := False\<rparr>) (rot_dropLazySnapshot p c) else c)"

definition rot_slots :: "nat \<Rightarrow> 'v RotatingKVCache \<Rightarrow> 'v list \<Rightarrow> 'v list" where
  "rot_slots p c b = drop (t_sliceStart (t_heap c p)) (take (t_sliceEnd (t_heap c p)) b)"

definition rot_copyOut :: "nat \<Rightarrow> 'v RotatingKVCache \<Rightarrow> 'v RotatingKVCache option" where
  "rot_copyOut p c =
     (if t_keys (t_heap c p) \<noteq> None then Some c
      else if \<not> t_cache (t_heap c p) then None
      else case rg_keys (t_ring c) of
             None \<Rightarrow> None
           | Some b \<Rightarrow>
               let copies = rot_slots p c b;
                   c1 = upd_rsnap p (\<lambda>s. s\<lparr>t_keys := Some copies\<rparr>) c;
                   c2 = upd_rsnap p (\<lambda>s. s\<lparr>t_cache := False\<rparr>) (rot_dropLazySnapshot p c1)
               in Some (if t_onMaterialize (t_heap c p)
                        then upd_rsnap p (\<lambda>s. s\<lparr>t_onMaterialize := False\<rparr>)
                               (c2\<lparr>t_materialized := t_materialized c2 + length copies\<rparr>)
                        else c2))"

fun copy_out_each :: "nat list \<Rightarrow> 'v RotatingKVCache \<Rightarrow> 'v RotatingKVCache option" where
  "copy_out_each [] c = Some c"
| "copy_out_each (p # ps) c = do {c1 \<leftarrow> rot_copyOut p c; copy_out_each ps c1}"

definition copyOutLazySnapshots :: "'v RotatingKVCache \<Rightarrow> 'v RotatingKVCache option" where
  "copyOutLazySnapshots c = copy_out_each (t_lazySnapshots c) c"

definition Rot_Snapshot :: "nat \<Rightarrow> 'v RotatingKVCache \<Rightarrow> nat option \<times> 'v RotatingKVCache" where
  "Rot_Snapshot fromOffset c =
     (case ring_State (t_ring c) of
        None \<Rightarrow> (None, c)
      | Some b \<Rightarrow>
          if rg_offset (t_ring c) \<le> fromOffset then (None, c)
          else (case new_rsnap \<lparr>t_keys = Some b, t_fromOffset = fromOffset, t_toOffset = rg_offset (t_ring c),
                               t_idx = rg_idx (t_ring c), t_cache = False, t_sliceStart = 0, t_sliceEnd = 0,
                               t_onMaterialize = False\<rparr> c of
                  (p, c1) \<Rightarrow> (Some p, c1)))"

definition lazyRotatingSnapshot :: "nat \<Rightarrow> 'v RotatingKVCache \<Rightarrow> nat option \<times> 'v RotatingKVCache" where
  "lazyRotatingSnapshot x c =
     (case rg_keys (t_ring c) of
        None \<Rightarrow> (None, c)
      | Some b \<Rightarrow>
          (case window_slots (length b) x (t_ring c) of
             (i, j) \<Rightarrow>
               if j \<le> i then (None, c)
               else (case new_rsnap \<lparr>t_keys = None, t_fromOffset = x - min x (rg_maxSize (t_ring c)), t_toOffset = x,
                                    t_idx = min x (rg_maxSize (t_ring c)), t_cache = True, t_sliceStart = nat i,
                                    t_sliceEnd = nat j, t_onMaterialize = False\<rparr> c of
                       (p, c1) \<Rightarrow> (Some p, c1\<lparr>t_lazySnapshots := t_lazySnapshots c1 @ [p]\<rparr>))))"

definition rot_capture ::
  "nat \<Rightarrow> ('v RotatingKVCache \<Rightarrow> nat option \<times> 'v RotatingKVCache) \<Rightarrow> 'v RotatingKVCache \<Rightarrow> 'v RotatingKVCache" where
  "rot_capture x snap c =
     (case captureReached x snap (t_snapshots c) c of (p, c1) \<Rightarrow> c1\<lparr>t_snapshots := p\<rparr>)"

definition rot_captureStartBoundary :: "nat \<Rightarrow> 'v RotatingKVCache \<Rightarrow> 'v RotatingKVCache" where
  "rot_captureStartBoundary start c =
     (if pd_offsets (t_snapshots c) = [] then c else rot_capture start (Rot_Snapshot 0) c)"

definition rot_captureEnd :: "bool \<Rightarrow> nat \<Rightarrow> 'v RotatingKVCache \<Rightarrow> 'v RotatingKVCache" where
  "rot_captureEnd batch x c =
     rot_capture x (\<lambda>c. if batch then lazyRotatingSnapshot x c
                        else Rot_Snapshot (x - min x (rg_maxSize (t_ring c))) c) c"

definition rot_captureLazySnapshots :: "nat \<Rightarrow> nat \<Rightarrow> bool \<Rightarrow> 'v RotatingKVCache \<Rightarrow> 'v RotatingKVCache" where
  "rot_captureLazySnapshots start e batch c =
     (if pd_offsets (t_snapshots c) = [] then c
      else fold (rot_captureEnd batch) (filter (\<lambda>x. x \<noteq> start) (scheduledIn start e (t_snapshots c))) c)"

definition Rot_Update :: "'v \<Rightarrow> 'v list \<Rightarrow> 'v RotatingKVCache \<Rightarrow> 'v RotatingKVCache option" where
  "Rot_Update zero keys c =
     (let start = rg_offset (t_ring c) in do {
        c1 \<leftarrow> copyOutLazySnapshots (rot_captureStartBoundary start c);
        let c2 = c1\<lparr>t_ring := ring_write zero keys (t_ring c1)\<rparr>;
        Some (rot_captureLazySnapshots start (rg_offset (t_ring c2)) (batched keys) c2)
      })"

definition Rot_Free :: "'v RotatingKVCache \<Rightarrow> 'v RotatingKVCache option" where
  "Rot_Free c = do {
     c1 \<leftarrow> copyOutLazySnapshots c;
     Some (c1\<lparr>t_ring := ring_Free (t_ring c1), t_snapshots := no_pending\<rparr>)
   }"

definition Rot_PrepareSnapshots :: "nat list \<Rightarrow> 'v RotatingKVCache \<Rightarrow> 'v RotatingKVCache option" where
  "Rot_PrepareSnapshots offsets c =
     map_option (\<lambda>p. c\<lparr>t_snapshots := p\<rparr>) (pd_prepare (rg_offset (t_ring c)) offsets (t_snapshots c))"

definition Rot_TakeSnapshots :: "'v RotatingKVCache \<Rightarrow> nat option list \<times> 'v RotatingKVCache" where
  "Rot_TakeSnapshots c = (case pd_take (t_snapshots c) of (out, p) \<Rightarrow> (out, c\<lparr>t_snapshots := p\<rparr>))"

text \<open>A snapshot as the copy that a restore puts back.\<close>

definition rot_copy :: "nat \<Rightarrow> 'v list \<Rightarrow> 'v RotatingKVCache \<Rightarrow> 'v ringCopy" where
  "rot_copy p keys c =
     \<lparr>gc_keys = keys, gc_fromOffset = t_fromOffset (t_heap c p), gc_toOffset = t_toOffset (t_heap c p),
      gc_idx = t_idx (t_heap c p)\<rparr>"

definition Rot_Restore :: "nat option \<Rightarrow> nat \<Rightarrow> 'v RotatingKVCache \<Rightarrow> (bool \<times> 'v RotatingKVCache) option" where
  "Rot_Restore snapshot target c =
     (case snapshot of
        None \<Rightarrow> (case ring_rewind target (t_ring c) of (ok, r) \<Rightarrow> Some (ok, c\<lparr>t_ring := r\<rparr>))
      | Some p \<Rightarrow>
          if ring_refuses (rg_maxSize (t_ring c)) (t_toOffset (t_heap c p)) target then Some (False, c)
          else if t_cache (t_heap c p) \<and> t_keys (t_heap c p) = None then do {
            c1 \<leftarrow> copyOutLazySnapshots (rot_dropLazySnapshot p c);
            b \<leftarrow> rg_keys (t_ring c1);
            let liveLen = t_sliceEnd (t_heap c1 p) - t_sliceStart (t_heap c1 p);
            let c2 = c1\<lparr>t_ring := ring_put (rot_copy p (rot_slots p c1 b) c1) target (t_ring c1)\<rparr>;
            let c3 = upd_rsnap p (\<lambda>s. s\<lparr>t_sliceStart := 0, t_sliceEnd := liveLen\<rparr>) c2;
            Some (True, c3\<lparr>t_lazySnapshots := t_lazySnapshots c3 @ [p]\<rparr>)
          }
          else do {
            c1 \<leftarrow> rot_copyOut p c;
            c2 \<leftarrow> copyOutLazySnapshots c1;
            keys \<leftarrow> t_keys (t_heap c2 p);
            Some (True, c2\<lparr>t_ring := ring_put (rot_copy p keys c2) target (t_ring c2)\<rparr>)
          })"

definition Rot_Merge :: "nat option \<Rightarrow> nat option \<Rightarrow> 'v RotatingKVCache \<Rightarrow> nat option \<times> 'v RotatingKVCache" where
  "Rot_Merge parent child c = (child, case parent of None \<Rightarrow> c | Some p \<Rightarrow> Rot_Close p c)"

definition Rot_Split :: "nat \<Rightarrow> nat \<Rightarrow> 'v RotatingKVCache \<Rightarrow> (nat option \<times> nat option) \<times> 'v RotatingKVCache" where
  "Rot_Split snapshot at c = ((None, Some snapshot), c)"

section \<open>The calls of a client\<close>

datatype 'v rot_cmd =
  T_Update "'v list" | T_State | T_Prepare "nat list" | T_Take | T_Snapshot nat | T_Restore "nat option" nat
| T_Merge "nat option" "nat option" | T_Split nat nat | T_Close nat | T_Free

datatype 'v rot_reply = U_history "'v list" | U_done | U_bool bool | U_state "'v list option" | U_snaps "nat option list"

fun rot_call :: "'v \<Rightarrow> 'v rot_cmd \<Rightarrow> 'v RotatingKVCache \<Rightarrow> ('v rot_reply \<times> 'v RotatingKVCache) option" where
  "rot_call z (T_Update keys) c = map_option (\<lambda>c'. (U_history (ring_history keys (t_ring c')), c')) (Rot_Update z keys c)"
| "rot_call z T_State c = Some (U_state (ring_State (t_ring c)), c)"
| "rot_call z (T_Prepare offsets) c = map_option (Pair U_done) (Rot_PrepareSnapshots offsets c)"
| "rot_call z T_Take c = Some (map_prod U_snaps id (Rot_TakeSnapshots c))"
| "rot_call z (T_Snapshot from') c = Some (map_prod (\<lambda>p. U_snaps [p]) id (Rot_Snapshot from' c))"
| "rot_call z (T_Restore p target) c = map_option (map_prod U_bool id) (Rot_Restore p target c)"
| "rot_call z (T_Merge p q) c = Some (map_prod (\<lambda>m. U_snaps [m]) id (Rot_Merge p q c))"
| "rot_call z (T_Split p at) c = Some (map_prod (\<lambda>(l, r). U_snaps [l, r]) id (Rot_Split p at c))"
| "rot_call z (T_Close p) c = Some (U_done, Rot_Close p c)"
| "rot_call z T_Free c = map_option (Pair U_done) (Rot_Free c)"

fun rot_calls :: "'v \<Rightarrow> 'v rot_cmd list \<Rightarrow> 'v RotatingKVCache \<Rightarrow> ('v rot_reply list \<times> 'v RotatingKVCache) option" where
  "rot_calls z [] c = Some ([], c)"
| "rot_calls z (x # xs) c = do {
     (r, c1) \<leftarrow> rot_call z x c;
     (rs, c2) \<leftarrow> rot_calls z xs c1;
     Some (r # rs, c2)
   }"

section \<open>The abstract layer\<close>

text \<open>Snapshots are copies in a store of their own; \<open>None\<close> is a call that is not allowed.\<close>

record 'v ringAbstract =
  ra_ring :: "'v ring"
  ra_pending :: "nat pendingSnapshots"
  ra_store :: "nat \<Rightarrow> 'v ringCopy option"
  ra_next :: nat

definition ra_init :: "nat \<Rightarrow> 'v ringAbstract" where
  "ra_init maxSize = \<lparr>ra_ring = new_ring maxSize, ra_pending = no_pending, ra_store = (\<lambda>_. None), ra_next = 0\<rparr>"

definition ra_drop :: "nat \<Rightarrow> 'v ringAbstract \<Rightarrow> 'v ringAbstract" where
  "ra_drop p a = a\<lparr>ra_store := (ra_store a)(p := None)\<rparr>"

definition ra_new :: "'v ringCopy option \<Rightarrow> 'v ringAbstract \<Rightarrow> nat option \<times> 'v ringAbstract" where
  "ra_new s a =
     (case s of
        None \<Rightarrow> (None, a)
      | Some v \<Rightarrow> (Some (ra_next a), a\<lparr>ra_store := (ra_store a)(ra_next a \<mapsto> v), ra_next := Suc (ra_next a)\<rparr>))"

definition ra_capture :: "nat \<Rightarrow> 'v ringCopy option \<Rightarrow> 'v ringAbstract \<Rightarrow> 'v ringAbstract" where
  "ra_capture x s a = (case captureReached x (ra_new s) (ra_pending a) a of (p, a1) \<Rightarrow> a1\<lparr>ra_pending := p\<rparr>)"

definition ra_captureEnd :: "bool \<Rightarrow> nat \<Rightarrow> 'v ringAbstract \<Rightarrow> 'v ringAbstract" where
  "ra_captureEnd batch x a =
     ra_capture x (if batch then ring_window_copy x (ra_ring a)
                   else ring_Snapshot (x - min x (rg_maxSize (ra_ring a))) (ra_ring a)) a"

definition ra_update :: "'v \<Rightarrow> 'v list \<Rightarrow> 'v ringAbstract \<Rightarrow> 'v ringAbstract" where
  "ra_update z keys a =
     (let start = rg_offset (ra_ring a);
          a1 = ra_capture start (ring_Snapshot 0 (ra_ring a)) a;
          r = ring_write z keys (ra_ring a1)
      in fold (ra_captureEnd (batched keys)) (filter (\<lambda>x. x \<noteq> start) (scheduledIn start (rg_offset r) (ra_pending a1)))
           (a1\<lparr>ra_ring := r\<rparr>))"

fun ra_call :: "'v \<Rightarrow> 'v rot_cmd \<Rightarrow> 'v ringAbstract \<Rightarrow> ('v rot_reply \<times> 'v ringAbstract) option" where
  "ra_call z (T_Update keys) a = (let a' = ra_update z keys a in Some (U_history (ring_history keys (ra_ring a')), a'))"
| "ra_call z T_State a = Some (U_state (ring_State (ra_ring a)), a)"
| "ra_call z (T_Prepare offsets) a =
     map_option (\<lambda>p. (U_done, a\<lparr>ra_pending := p\<rparr>)) (pd_prepare (rg_offset (ra_ring a)) offsets (ra_pending a))"
| "ra_call z T_Take a = (case pd_take (ra_pending a) of (out, p) \<Rightarrow> Some (U_snaps out, a\<lparr>ra_pending := p\<rparr>))"
| "ra_call z (T_Snapshot from') a = Some (map_prod (\<lambda>p. U_snaps [p]) id (ra_new (ring_Snapshot from' (ra_ring a)) a))"
| "ra_call z (T_Restore None target) a =
     (case ring_Restore None target (ra_ring a) of (b, r) \<Rightarrow> Some (U_bool b, a\<lparr>ra_ring := r\<rparr>))"
| "ra_call z (T_Restore (Some p) target) a = do {
     v \<leftarrow> ra_store a p;
     (case ring_Restore (Some v) target (ra_ring a) of (b, r) \<Rightarrow> Some (U_bool b, a\<lparr>ra_ring := r\<rparr>))
   }"
| "ra_call z (T_Merge p q) a =
     (if (case p of None \<Rightarrow> False | Some x \<Rightarrow> ra_store a x = None \<or> q = Some x) \<or>
         (case q of None \<Rightarrow> False | Some y \<Rightarrow> ra_store a y = None) then None
      else Some (U_snaps [q], case p of None \<Rightarrow> a | Some x \<Rightarrow> ra_drop x a))"
| "ra_call z (T_Split p at) a = (if ra_store a p = None then None else Some (U_snaps [None, Some p], a))"
| "ra_call z (T_Close p) a = (if ra_store a p = None then None else Some (U_done, ra_drop p a))"
| "ra_call z T_Free a = Some (U_done, a\<lparr>ra_ring := ring_Free (ra_ring a), ra_pending := no_pending\<rparr>)"

fun ra_calls :: "'v \<Rightarrow> 'v rot_cmd list \<Rightarrow> 'v ringAbstract \<Rightarrow> ('v rot_reply list \<times> 'v ringAbstract) option" where
  "ra_calls z [] a = Some ([], a)"
| "ra_calls z (x # xs) a = do {
     (r, a1) \<leftarrow> ra_call z x a;
     (rs, a2) \<leftarrow> ra_calls z xs a1;
     Some (r # rs, a2)
   }"

section \<open>Refinement\<close>

definition rot_view :: "'v RotatingKVCache \<Rightarrow> nat \<Rightarrow> 'v ringCopy" where
  "rot_view c p =
     rot_copy p (case t_keys (t_heap c p) of
                   Some ks \<Rightarrow> ks
                 | None \<Rightarrow> (case rg_keys (t_ring c) of None \<Rightarrow> [] | Some b \<Rightarrow> rot_slots p c b)) c"

definition rot_held :: "'v RotatingKVCache \<Rightarrow> nat \<Rightarrow> bool" where
  "rot_held c p \<longleftrightarrow> p < t_next c \<and> (t_keys (t_heap c p) \<noteq> None \<or> t_cache (t_heap c p))"

text \<open>The lazy snapshots are those that name the buffer, and there is one.\<close>

definition rot_inv :: "'v RotatingKVCache \<Rightarrow> bool" where
  "rot_inv c \<longleftrightarrow> distinct (t_lazySnapshots c) \<and>
     (\<forall>p\<in>set (t_lazySnapshots c). p < t_next c \<and> t_keys (t_heap c p) = None \<and> t_cache (t_heap c p) \<and> rg_keys (t_ring c) \<noteq> None) \<and>
     (\<forall>p<t_next c. t_cache (t_heap c p) \<longrightarrow> p \<in> set (t_lazySnapshots c))"

definition rot_sim :: "'v RotatingKVCache \<Rightarrow> 'v ringAbstract \<Rightarrow> bool" where
  "rot_sim c a \<longleftrightarrow> rot_inv c \<and> t_ring c = ra_ring a \<and> t_snapshots c = ra_pending a \<and> t_next c = ra_next a \<and>
     (\<forall>p v. ra_store a p = Some v \<longrightarrow> rot_held c p \<and> rot_view c p = v)"

lemma rot_simps [simp]:
  "t_ring (upd_rsnap p f c) = t_ring c" "t_snapshots (upd_rsnap p f c) = t_snapshots c" "t_next (upd_rsnap p f c) = t_next c"
  "t_lazySnapshots (upd_rsnap p f c) = t_lazySnapshots c" "t_heap (upd_rsnap p f c) = (t_heap c)(p := f (t_heap c p))"
  "t_ring (rot_dropLazySnapshot p c) = t_ring c" "t_snapshots (rot_dropLazySnapshot p c) = t_snapshots c"
  "t_next (rot_dropLazySnapshot p c) = t_next c" "t_heap (rot_dropLazySnapshot p c) = t_heap c"
  "t_lazySnapshots (rot_dropLazySnapshot p c) = remove1 p (t_lazySnapshots c)"
  by (simp_all add: upd_rsnap_def rot_dropLazySnapshot_def)

lemma rot_view_simps [simp]:
  "gc_fromOffset (rot_view c p) = t_fromOffset (t_heap c p)" "gc_toOffset (rot_view c p) = t_toOffset (t_heap c p)"
  "gc_idx (rot_view c p) = t_idx (t_heap c p)"
  by (simp_all add: rot_view_def rot_copy_def)

lemma rot_view_cong:
  "t_heap d p = t_heap c p \<Longrightarrow> rg_keys (t_ring d) = rg_keys (t_ring c) \<Longrightarrow> rot_view d p = rot_view c p"
  unfolding rot_view_def rot_copy_def rot_slots_def by (simp cong: option.case_cong)

text \<open>Copying out changes nothing but who owns the slots.\<close>

definition rot_settles :: "'v RotatingKVCache \<Rightarrow> 'v RotatingKVCache \<Rightarrow> bool" where
  "rot_settles c d \<longleftrightarrow> rot_inv d \<and> t_ring d = t_ring c \<and> t_snapshots d = t_snapshots c \<and> t_next d = t_next c \<and>
     (\<forall>p. rot_held c p \<longrightarrow> rot_held d p \<and> rot_view d p = rot_view c p)"

lemma rot_settles_trans: "rot_settles a b \<Longrightarrow> rot_settles b c \<Longrightarrow> rot_settles a c"
  by (auto simp: rot_settles_def)

lemma rot_simI:
  "rot_inv c \<Longrightarrow> t_ring c = ra_ring a \<Longrightarrow> t_snapshots c = ra_pending a \<Longrightarrow> t_next c = ra_next a \<Longrightarrow>
     (\<And>p v. ra_store a p = Some v \<Longrightarrow> rot_held c p \<and> rot_view c p = v) \<Longrightarrow> rot_sim c a"
  by (simp add: rot_sim_def)

lemma rot_simD:
  assumes "rot_sim c a"
  shows "rot_inv c" "t_ring c = ra_ring a" "t_snapshots c = ra_pending a" "t_next c = ra_next a"
    "ra_store a p = Some v \<Longrightarrow> rot_held c p \<and> rot_view c p = v"
  using assms unfolding rot_sim_def by blast+

lemma rot_sim_settles: "rot_sim c a \<Longrightarrow> rot_settles c d \<Longrightarrow> rot_sim d a"
  by (rule rot_simI) (auto simp: rot_settles_def dest: rot_simD)

text \<open>Only the entries of the heap and the slots matter to a snapshot.\<close>

lemma rot_sim_same:
  assumes "rot_sim c a" "t_ring d = ra_ring b" "t_snapshots d = ra_pending b" "t_heap d = t_heap c" "t_lazySnapshots d = t_lazySnapshots c"
    "t_next d = t_next c" "ra_store b = ra_store a" "ra_next b = ra_next a" "rg_keys (ra_ring b) = rg_keys (ra_ring a)"
  shows "rot_sim d b"
proof (rule rot_simI)
  note old = rot_simD[OF assms(1)]
  have ring: "rg_keys (t_ring d) = rg_keys (t_ring c)" using assms(2,9) old(2) by simp
  then show "rot_inv d" using old(1) assms(4,5,6) unfolding rot_inv_def by simp
  show "t_ring d = ra_ring b" "t_snapshots d = ra_pending b" "t_next d = ra_next b" using assms old(4) by simp_all
  show "rot_held d p \<and> rot_view d p = v" if "ra_store b p = Some v" for p v
    using old(5)[of p v] that assms(4,6,7) rot_view_cong[of d p c] ring by (simp add: rot_held_def)
qed

lemma rot_copyOut_settles:
  assumes "rot_inv c" "p \<in> set (t_lazySnapshots c)"
  shows "\<exists>d. rot_copyOut p c = Some d \<and> rot_settles c d \<and> t_lazySnapshots d = remove1 p (t_lazySnapshots c) \<and>
    (\<forall>q. q \<noteq> p \<longrightarrow> t_heap d q = t_heap c q)"
proof -
  obtain b where b: "rg_keys (t_ring c) = Some b" and p: "p < t_next c" "t_keys (t_heap c p) = None" "t_cache (t_heap c p)"
    and dist: "distinct (t_lazySnapshots c)" using assms by (auto simp: rot_inv_def)
  obtain s m where s: "t_keys s = Some (rot_slots p c b)" "\<not> t_cache s" "t_fromOffset s = t_fromOffset (t_heap c p)"
      "t_toOffset s = t_toOffset (t_heap c p)" "t_idx s = t_idx (t_heap c p)"
    and d: "rot_copyOut p c = Some (c\<lparr>t_heap := (t_heap c)(p := s), t_lazySnapshots := remove1 p (t_lazySnapshots c),
      t_materialized := m\<rparr>)" (is "_ = Some ?d")
  proof -
    let ?s = "(t_heap c p)\<lparr>t_keys := Some (rot_slots p c b), t_cache := False\<rparr>"
    show thesis
    proof (cases "t_onMaterialize (t_heap c p)")
      case True
      show ?thesis by (rule that[of "?s\<lparr>t_onMaterialize := False\<rparr>" "t_materialized c + length (rot_slots p c b)"])
        (use b p True in \<open>simp_all add: rot_copyOut_def Let_def upd_rsnap_def rot_dropLazySnapshot_def\<close>)
    next
      case False
      show ?thesis by (rule that[of ?s "t_materialized c"])
        (use b p False in \<open>simp_all add: rot_copyOut_def Let_def upd_rsnap_def rot_dropLazySnapshot_def\<close>)
    qed
  qed
  have "rot_held ?d q \<and> rot_view ?d q = rot_view c q" if "rot_held c q" for q
  proof (cases "q = p")
    case True
    then show ?thesis using that s b p by (simp add: rot_held_def rot_view_def rot_copy_def)
  next
    case False
    then show ?thesis using that rot_view_cong[of ?d q c] by (simp add: rot_held_def)
  qed
  moreover have "rot_inv ?d" using assms(1) s(2) dist by (auto simp: rot_inv_def)
  ultimately show ?thesis using d by (simp add: rot_settles_def)
qed

lemma copy_out_each_settles:
  "rot_inv c \<Longrightarrow> distinct ps \<Longrightarrow> set ps \<subseteq> set (t_lazySnapshots c) \<Longrightarrow>
   \<exists>d. copy_out_each ps c = Some d \<and> rot_settles c d \<and> set (t_lazySnapshots d) = set (t_lazySnapshots c) - set ps \<and>
     (\<forall>q. q \<notin> set ps \<longrightarrow> t_heap d q = t_heap c q)"
proof (induction ps arbitrary: c)
  case Nil
  then show ?case by (simp add: rot_settles_def)
next
  case (Cons p ps)
  obtain d where d: "rot_copyOut p c = Some d" "rot_settles c d" "t_lazySnapshots d = remove1 p (t_lazySnapshots c)"
    "\<forall>q. q \<noteq> p \<longrightarrow> t_heap d q = t_heap c q"
    using rot_copyOut_settles[OF Cons.prems(1), of p] Cons.prems(3) by auto
  have dist: "distinct (t_lazySnapshots c)" using Cons.prems(1) by (simp add: rot_inv_def)
  have lz: "set (t_lazySnapshots d) = set (t_lazySnapshots c) - {p}" using d(3) dist by simp
  have "rot_inv d" "distinct ps" "set ps \<subseteq> set (t_lazySnapshots d)"
    using d(2) Cons.prems(2,3) lz by (auto simp: rot_settles_def)
  from Cons.IH[OF this] obtain e where e: "copy_out_each ps d = Some e" "rot_settles d e"
    "set (t_lazySnapshots e) = set (t_lazySnapshots d) - set ps" "\<forall>q. q \<notin> set ps \<longrightarrow> t_heap e q = t_heap d q" by blast
  then show ?case using d lz rot_settles_trans[OF d(2) e(2)] by auto
qed

lemma copyOutLazy_settles:
  assumes "rot_inv c"
  shows "\<exists>d. copyOutLazySnapshots c = Some d \<and> rot_settles c d \<and> t_lazySnapshots d = []"
proof -
  have "distinct (t_lazySnapshots c)" using assms by (simp add: rot_inv_def)
  from copy_out_each_settles[OF assms this] show ?thesis by (auto simp: copyOutLazySnapshots_def)
qed

text \<open>Copying the others out does not need a snapshot that has been dropped from the list.\<close>

lemma rot_copyOut_dropped:
  "rot_copyOut q c = Some d \<Longrightarrow> rot_copyOut q (rot_dropLazySnapshot p c) = Some (rot_dropLazySnapshot p d)"
  by (auto simp: rot_copyOut_def rot_dropLazySnapshot_def upd_rsnap_def rot_slots_def Let_def remove1_commute
      split: option.splits if_splits)

lemma copy_out_each_dropped:
  "copy_out_each qs c = Some d \<Longrightarrow> copy_out_each qs (rot_dropLazySnapshot p c) = Some (rot_dropLazySnapshot p d)"
proof (induction qs arbitrary: c)
  case (Cons q qs)
  then obtain e where e: "rot_copyOut q c = Some e" "copy_out_each qs e = Some d" by (auto simp: bind_eq_Some_conv)
  then show ?case using Cons.IH[OF e(2)] rot_copyOut_dropped[OF e(1)] by simp
qed simp

text \<open>Without lazy snapshots the buffer may be replaced.\<close>

lemma rot_sim_ring:
  assumes "rot_sim c a" "t_lazySnapshots c = []"
  shows "rot_sim (c\<lparr>t_ring := r\<rparr>) (a\<lparr>ra_ring := r\<rparr>)"
proof (rule rot_simI)
  note old = rot_simD[OF assms(1)]
  show "rot_inv (c\<lparr>t_ring := r\<rparr>)" using old(1) assms(2) by (simp add: rot_inv_def)
  show "rot_held (c\<lparr>t_ring := r\<rparr>) p \<and> rot_view (c\<lparr>t_ring := r\<rparr>) p = v" if "ra_store (a\<lparr>ra_ring := r\<rparr>) p = Some v" for p v
  proof -
    have p: "rot_held c p" "rot_view c p = v" using old(5)[of p v] that by auto
    then have "t_keys (t_heap c p) \<noteq> None" using old(1) assms(2) by (auto simp: rot_inv_def rot_held_def)
    then show ?thesis using p by (auto simp: rot_held_def rot_view_def rot_copy_def)
  qed
qed (use rot_simD[OF assms(1)] in simp_all)

text \<open>A rewind keeps the slots.\<close>

lemma rot_sim_rewind: "rot_sim c a \<Longrightarrow> rg_keys r = rg_keys (t_ring c) \<Longrightarrow> rot_sim (c\<lparr>t_ring := r\<rparr>) (a\<lparr>ra_ring := r\<rparr>)"
  by (rule rot_sim_same, assumption) (simp_all add: rot_simD)

lemma rot_sim_pending: "rot_sim c a \<Longrightarrow> rot_sim (c\<lparr>t_snapshots := p\<rparr>) (a\<lparr>ra_pending := p\<rparr>)"
  by (rule rot_sim_same, assumption) (simp_all add: rot_simD)

lemma rot_sim_close:
  assumes "rot_sim c a"
  shows "rot_sim (Rot_Close p c) (ra_drop p a)"
proof (rule rot_simI)
  note old = rot_simD[OF assms]
  show "rot_inv (Rot_Close p c)" using old(1) by (auto simp: Rot_Close_def rot_inv_def)
  show "t_ring (Rot_Close p c) = ra_ring (ra_drop p a)" "t_snapshots (Rot_Close p c) = ra_pending (ra_drop p a)"
    "t_next (Rot_Close p c) = ra_next (ra_drop p a)" using old by (simp_all add: Rot_Close_def ra_drop_def)
  show "rot_held (Rot_Close p c) q \<and> rot_view (Rot_Close p c) q = v" if "ra_store (ra_drop p a) q = Some v" for q v
  proof -
    have q: "q \<noteq> p" "rot_held c q" "rot_view c q = v" using that old(5)[of q v] by (auto simp: ra_drop_def split: if_splits)
    then show ?thesis using rot_view_cong[of "Rot_Close p c" q c] by (simp add: Rot_Close_def rot_held_def)
  qed
qed

text \<open>New snapshots.\<close>

lemma rot_sim_new:
  assumes "rot_sim c a" "t_ring d = t_ring c" "t_snapshots d = t_snapshots c" "t_next d = Suc (t_next c)"
    "\<And>q. q < t_next c \<Longrightarrow> t_heap d q = t_heap c q" "rot_inv d" "rot_held d (t_next c)" "rot_view d (t_next c) = v"
  shows "ra_new (Some v) a = (Some (t_next c), snd (ra_new (Some v) a)) \<and> rot_sim d (snd (ra_new (Some v) a))"
proof -
  note old = rot_simD[OF assms(1)]
  have "rot_held d q \<and> rot_view d q = u" if "ra_store (snd (ra_new (Some v) a)) q = Some u" for q u
  proof (cases "q = t_next c")
    case True
    then show ?thesis using that assms(7,8) old(4) by (simp add: ra_new_def)
  next
    case False
    then have q: "rot_held c q" "rot_view c q = u" using that old(4) old(5)[of q u] by (auto simp: ra_new_def)
    then have "q < t_next c" by (simp add: rot_held_def)
    then show ?thesis using q assms(2,4,5) rot_view_cong[of d q c] by (simp add: rot_held_def)
  qed
  then show ?thesis using old assms(2-4,6) by (auto simp: ra_new_def intro!: rot_simI)
qed

lemma rot_inv_new:
  assumes "rot_inv c" "t_ring d = t_ring c" "t_heap d = (t_heap c)(t_next c := s)" "t_next d = Suc (t_next c)"
    "if t_cache s then t_keys s = None \<and> rg_keys (t_ring c) \<noteq> None \<and> t_lazySnapshots d = t_lazySnapshots c @ [t_next c]
     else t_lazySnapshots d = t_lazySnapshots c"
  shows "rot_inv d"
proof -
  have old: "t_next c \<notin> set (t_lazySnapshots c)" "distinct (t_lazySnapshots c)"
    "\<And>p. p \<in> set (t_lazySnapshots c) \<Longrightarrow> p < t_next c \<and> t_keys (t_heap c p) = None \<and> t_cache (t_heap c p) \<and> rg_keys (t_ring c) \<noteq> None"
    "\<And>p. p < t_next c \<Longrightarrow> t_cache (t_heap c p) \<Longrightarrow> p \<in> set (t_lazySnapshots c)"
    using assms(1) unfolding rot_inv_def by blast+
  have lz: "set (t_lazySnapshots d) = set (t_lazySnapshots c) \<union> (if t_cache s then {t_next c} else {})" "distinct (t_lazySnapshots d)"
    using assms(5) old(1,2) by (simp_all split: if_splits)
  have "p < t_next d \<and> t_keys (t_heap d p) = None \<and> t_cache (t_heap d p) \<and> rg_keys (t_ring d) \<noteq> None"
    if "p \<in> set (t_lazySnapshots d)" for p
    using that assms(2-5) old(1) old(3)[of p] unfolding lz(1) by (cases "p = t_next c") (simp_all split: if_splits)
  moreover have "p \<in> set (t_lazySnapshots d)" if "p < t_next d" "t_cache (t_heap d p)" for p
    using that assms(3,4) old(4)[of p] unfolding lz(1) by (cases "p = t_next c") simp_all
  ultimately show ?thesis using lz(2) unfolding rot_inv_def by blast
qed

lemma rot_Snapshot_sim:
  assumes "rot_sim c a" "Rot_Snapshot x c = (p, c')"
  shows "\<exists>a'. ra_new (ring_Snapshot x (ra_ring a)) a = (p, a') \<and> rot_sim c' a' \<and> t_ring c' = t_ring c"
proof (cases "ring_State (t_ring c) = None \<or> rg_offset (t_ring c) \<le> x")
  case True
  then show ?thesis using assms by (auto simp: Rot_Snapshot_def ring_Snapshot_def ra_new_def rot_sim_def split: option.splits)
next
  case False
  then obtain b where b: "ring_State (t_ring c) = Some b" "\<not> rg_offset (t_ring c) \<le> x" by auto
  have ring: "t_ring c = ra_ring a" using assms(1) by (simp add: rot_sim_def)
  let ?s = "\<lparr>t_keys = Some b, t_fromOffset = x, t_toOffset = rg_offset (t_ring c), t_idx = rg_idx (t_ring c), t_cache = False,
    t_sliceStart = 0, t_sliceEnd = 0, t_onMaterialize = False\<rparr>"
  have c': "p = Some (t_next c)" "c' = c\<lparr>t_heap := (t_heap c)(t_next c := ?s), t_next := Suc (t_next c)\<rparr>"
    using assms(2) b by (auto simp: Rot_Snapshot_def new_rsnap_def)
  have "rot_inv c'" by (rule rot_inv_new[OF rot_simD(1)[OF assms(1)], where s = ?s]) (simp_all add: c'(2))
  moreover have "rot_held c' (t_next c)" "rot_view c' (t_next c) = \<lparr>gc_keys = b, gc_fromOffset = x, gc_toOffset = rg_offset (t_ring c),
      gc_idx = rg_idx (t_ring c)\<rparr>" by (simp_all add: c'(2) rot_held_def rot_view_def rot_copy_def)
  ultimately have "ra_new (ring_Snapshot x (ra_ring a)) a = (p, snd (ra_new (ring_Snapshot x (ra_ring a)) a)) \<and>
      rot_sim c' (snd (ra_new (ring_Snapshot x (ra_ring a)) a))"
    using rot_sim_new[OF assms(1), of c' "\<lparr>gc_keys = b, gc_fromOffset = x, gc_toOffset = rg_offset (t_ring c),
      gc_idx = rg_idx (t_ring c)\<rparr>"] b ring c' by (simp add: ring_Snapshot_def)
  then show ?thesis using c'(2) by (intro exI conjI) auto
qed

lemma lazyRotating_sim:
  assumes "rot_sim c a" "lazyRotatingSnapshot x c = (p, c')"
  shows "\<exists>a'. ra_new (ring_window_copy x (ra_ring a)) a = (p, a') \<and> rot_sim c' a' \<and> t_ring c' = t_ring c"
proof (cases "rg_keys (t_ring c)")
  case None
  then show ?thesis using assms by (auto simp: lazyRotatingSnapshot_def ring_window_copy_def ra_new_def rot_sim_def)
next
  case (Some b)
  obtain i j where ij: "window_slots (length b) x (t_ring c) = (i, j)" by fastforce
  have ring: "t_ring c = ra_ring a" using assms(1) by (simp add: rot_sim_def)
  show ?thesis
  proof (cases "j \<le> i")
    case True
    then show ?thesis using assms Some ij ring by (auto simp: lazyRotatingSnapshot_def ring_window_copy_def ra_new_def)
  next
    case False
    let ?M = "rg_maxSize (t_ring c)"
    let ?s = "\<lparr>t_keys = None, t_fromOffset = x - min x ?M, t_toOffset = x, t_idx = min x ?M, t_cache = True, t_sliceStart = nat i,
      t_sliceEnd = nat j, t_onMaterialize = False\<rparr>"
    have c': "p = Some (t_next c)" "c' = c\<lparr>t_heap := (t_heap c)(t_next c := ?s), t_next := Suc (t_next c),
        t_lazySnapshots := t_lazySnapshots c @ [t_next c]\<rparr>"
      using assms(2) Some ij False by (auto simp: lazyRotatingSnapshot_def new_rsnap_def)
    let ?v = "\<lparr>gc_keys = drop (nat i) (take (nat j) b), gc_fromOffset = x - min x ?M, gc_toOffset = x, gc_idx = min x ?M\<rparr>"
    have "rot_inv c'" by (rule rot_inv_new[OF rot_simD(1)[OF assms(1)], where s = ?s]) (simp_all add: c'(2) Some)
    moreover have "rot_held c' (t_next c)" "rot_view c' (t_next c) = ?v"
      using Some by (simp_all add: c'(2) rot_held_def rot_view_def rot_copy_def rot_slots_def)
    moreover have "ring_window_copy x (ra_ring a) = Some ?v" using Some ij False ring by (simp add: ring_window_copy_def)
    ultimately have "ra_new (ring_window_copy x (ra_ring a)) a = (p, snd (ra_new (ring_window_copy x (ra_ring a)) a)) \<and>
        rot_sim c' (snd (ra_new (ring_window_copy x (ra_ring a)) a))"
      using rot_sim_new[OF assms(1), of c' ?v] c' by simp
    then show ?thesis using c'(2) by (intro exI conjI) auto
  qed
qed

text \<open>Captures.\<close>

lemma rot_capture_slots:
  assumes "\<And>c a p c'. rot_sim c a \<Longrightarrow> t_ring c = r \<Longrightarrow> snap c = (p, c') \<Longrightarrow> \<exists>a'. ra_new v a = (p, a') \<and> rot_sim c' a' \<and> t_ring c' = r"
  shows "rot_sim c a \<Longrightarrow> t_ring c = r \<Longrightarrow> capture_slots x snap xs c = (b, ys, c') \<Longrightarrow>
    \<exists>a'. capture_slots x (ra_new v) xs a = (b, ys, a') \<and> rot_sim c' a' \<and> t_ring c' = r"
proof (induction xs arbitrary: c a b ys c')
  case (Cons y ys0)
  obtain o0 s where y: "y = (o0, s)" by fastforce
  show ?case
  proof (cases "s = None \<and> o0 = x")
    case True
    obtain p c1 where c1: "snap c = (p, c1)" by fastforce
    obtain a1 where a1: "ra_new v a = (p, a1)" "rot_sim c1 a1" "t_ring c1 = r" using assms[OF Cons.prems(1,2) c1] by blast
    obtain b2 ys2 c2 where c2: "capture_slots x snap ys0 c1 = (b2, ys2, c2)" by (metis prod_cases3)
    from Cons.IH[OF a1(2,3) c2] show ?thesis using Cons.prems(3) y True c1 c2 a1(1) by auto
  next
    case False
    obtain b2 ys2 c2 where c2: "capture_slots x snap ys0 c = (b2, ys2, c2)" by (metis prod_cases3)
    from Cons.IH[OF Cons.prems(1,2) c2] show ?thesis using Cons.prems(3) y False c2 by auto
  qed
qed simp

lemma rot_capture_sim:
  assumes "rot_sim c a" "\<And>d e p d'. rot_sim d e \<Longrightarrow> t_ring d = t_ring c \<Longrightarrow> snap d = (p, d') \<Longrightarrow>
      \<exists>e'. ra_new v e = (p, e') \<and> rot_sim d' e' \<and> t_ring d' = t_ring c"
  shows "rot_sim (rot_capture x snap c) (ra_capture x v a) \<and> t_ring (rot_capture x snap c) = t_ring c"
proof (cases "pd_slots (t_snapshots c)")
  case None
  then show ?thesis using assms(1) rot_simD(3)[OF assms(1)] rot_sim_pending[OF assms(1), of "t_snapshots c"]
    by (simp add: rot_capture_def ra_capture_def captureReached_def)
next
  case (Some xs)
  obtain b ys c1 where c1: "capture_slots x snap xs c = (b, ys, c1)" by (metis prod_cases3)
  obtain a1 where a1: "capture_slots x (ra_new v) xs a = (b, ys, a1)" "rot_sim c1 a1" "t_ring c1 = t_ring c"
    using rot_capture_slots[of "t_ring c" snap v c a x xs b ys c1] assms c1 by blast
  have p: "ra_pending a = t_snapshots c" using rot_simD(3)[OF assms(1)] by simp
  show ?thesis
    using rot_sim_pending[OF a1(2)] a1(1,3) c1 Some p by (simp add: rot_capture_def ra_capture_def captureReached_def)
qed

lemma rot_capture_no_offsets: "pd_offsets (t_snapshots c) = [] \<Longrightarrow> rot_capture x snap c = c"
  by (cases "t_snapshots c") (auto simp: rot_capture_def captureReached_def pd_offsets_def split: option.splits)

lemma rot_captureStart_sim:
  assumes "rot_sim c a"
  shows "rot_sim (rot_captureStartBoundary x c) (ra_capture x (ring_Snapshot 0 (ra_ring a)) a) \<and>
    t_ring (rot_captureStartBoundary x c) = t_ring c"
proof -
  have "rot_sim (rot_capture x (Rot_Snapshot 0) c) (ra_capture x (ring_Snapshot 0 (ra_ring a)) a) \<and>
      t_ring (rot_capture x (Rot_Snapshot 0) c) = t_ring c"
  proof (rule rot_capture_sim[OF assms])
    fix d e p d' assume d: "rot_sim d e" "t_ring d = t_ring c" "Rot_Snapshot 0 d = (p, d')"
    have "ra_ring e = ra_ring a" using rot_simD(2)[OF d(1)] rot_simD(2)[OF assms] d(2) by simp
    then show "\<exists>e'. ra_new (ring_Snapshot 0 (ra_ring a)) e = (p, e') \<and> rot_sim d' e' \<and> t_ring d' = t_ring c"
      using rot_Snapshot_sim[OF d(1,3)] d(2) by simp
  qed
  then show ?thesis using rot_capture_no_offsets[of c x "Rot_Snapshot 0"] by (auto simp: rot_captureStartBoundary_def)
qed

lemma rot_captureEnd_sim:
  assumes "rot_sim c a"
  shows "rot_sim (rot_captureEnd batch x c) (ra_captureEnd batch x a) \<and> t_ring (rot_captureEnd batch x c) = t_ring c"
  unfolding rot_captureEnd_def ra_captureEnd_def
proof (rule rot_capture_sim[OF assms])
  fix d e p d'
  assume d: "rot_sim d e" "t_ring d = t_ring c"
    "(if batch then lazyRotatingSnapshot x d else Rot_Snapshot (x - min x (rg_maxSize (t_ring d))) d) = (p, d')"
  have "ra_ring e = ra_ring a" "t_ring d = ra_ring a" using rot_simD(2)[OF d(1)] rot_simD(2)[OF assms] d(2) by simp_all
  then show "\<exists>e'. ra_new (if batch then ring_window_copy x (ra_ring a) else ring_Snapshot (x - min x (rg_maxSize (ra_ring a))) (ra_ring a)) e =
      (p, e') \<and> rot_sim d' e' \<and> t_ring d' = t_ring c"
    using lazyRotating_sim[OF d(1)] rot_Snapshot_sim[OF d(1)] d(2,3) by (cases batch) auto
qed

lemma rot_captures_sim:
  "rot_sim c a \<Longrightarrow> rot_sim (fold (rot_captureEnd batch) xs c) (fold (ra_captureEnd batch) xs a)"
  by (induction xs arbitrary: c a) (auto simp: rot_captureEnd_sim)

lemma rot_Update_sim:
  assumes "rot_sim c a"
  shows "\<exists>c'. Rot_Update z keys c = Some c' \<and> rot_sim c' (ra_update z keys a)"
proof -
  let ?start = "rg_offset (t_ring c)"
  define c0 where "c0 = rot_captureStartBoundary ?start c"
  define a0 where "a0 = ra_capture ?start (ring_Snapshot 0 (ra_ring a)) a"
  have s0: "rot_sim c0 a0" "t_ring c0 = t_ring c" using rot_captureStart_sim[OF assms] by (auto simp: c0_def a0_def)
  obtain c1 where c1: "copyOutLazySnapshots c0 = Some c1" "rot_settles c0 c1" "t_lazySnapshots c1 = []"
    using copyOutLazy_settles[OF rot_simD(1)[OF s0(1)]] by blast
  have s1: "rot_sim c1 a0" by (rule rot_sim_settles[OF s0(1) c1(2)])
  define r where "r = ring_write z keys (ra_ring a0)"
  have s2: "rot_sim (c1\<lparr>t_ring := r\<rparr>) (a0\<lparr>ra_ring := r\<rparr>)" by (rule rot_sim_ring[OF s1 c1(3)])
  let ?xs = "filter (\<lambda>x. x \<noteq> ?start) (scheduledIn ?start (rg_offset r) (ra_pending a0))"
  have s3: "rot_sim (fold (rot_captureEnd (batched keys)) ?xs (c1\<lparr>t_ring := r\<rparr>))
      (fold (ra_captureEnd (batched keys)) ?xs (a0\<lparr>ra_ring := r\<rparr>))" by (rule rot_captures_sim[OF s2])
  have pend: "t_snapshots c1 = ra_pending a0" "t_ring c1 = ra_ring a0" using rot_simD[OF s1] by simp_all
  have "pd_offsets (ra_pending a0) = [] \<Longrightarrow> ?xs = []" by (simp add: scheduledIn_def)
  then have "rot_captureLazySnapshots ?start (rg_offset r) (batched keys) (c1\<lparr>t_ring := r\<rparr>) =
      fold (rot_captureEnd (batched keys)) ?xs (c1\<lparr>t_ring := r\<rparr>)"
    using pend by (simp add: rot_captureLazySnapshots_def)
  moreover have "ra_update z keys a = fold (ra_captureEnd (batched keys)) ?xs (a0\<lparr>ra_ring := r\<rparr>)"
    using rot_simD(2)[OF assms] by (simp add: ra_update_def Let_def a0_def r_def)
  moreover have "Rot_Update z keys c = Some (rot_captureLazySnapshots ?start (rg_offset r) (batched keys) (c1\<lparr>t_ring := r\<rparr>))"
    using c1(1) pend by (simp add: Rot_Update_def Let_def c0_def[symmetric] r_def)
  ultimately show ?thesis using s3 by simp
qed

text \<open>Restoring.\<close>

lemma rot_owned: "rot_inv c \<Longrightarrow> set (t_lazySnapshots c) \<subseteq> {p} \<Longrightarrow> rot_held c q \<Longrightarrow> q \<noteq> p \<Longrightarrow> t_keys (t_heap c q) \<noteq> None"
  unfolding rot_inv_def rot_held_def by blast

lemma rot_Restore_lazy:
  assumes "rot_sim c a" "ra_store a p = Some v" "\<not> ring_refuses (rg_maxSize (ra_ring a)) (gc_toOffset v) t"
    "t_cache (t_heap c p)" "t_keys (t_heap c p) = None"
  shows "\<exists>c'. Rot_Restore (Some p) t c = Some (True, c') \<and> rot_sim c' (a\<lparr>ra_ring := ring_put v t (ra_ring a)\<rparr>)"
proof -
  note old = rot_simD[OF assms(1)]
  have v: "rot_held c p" "rot_view c p = v" using old(5)[OF assms(2)] by simp_all
  have lz: "p \<in> set (t_lazySnapshots c)" "distinct (t_lazySnapshots c)"
    using old(1) assms(4) v(1) unfolding rot_inv_def rot_held_def by blast+
  obtain b where b: "rg_keys (t_ring c) = Some b" using old(1) lz(1) unfolding rot_inv_def by blast
  let ?ps = "remove1 p (t_lazySnapshots c)"
  obtain d where d: "copy_out_each ?ps c = Some d" "rot_settles c d" "set (t_lazySnapshots d) = {p}"
    "\<forall>q. q \<notin> set ?ps \<longrightarrow> t_heap d q = t_heap c q"
    using copy_out_each_settles[OF old(1), of ?ps] lz by auto
  have hp: "t_heap d p = t_heap c p" using d(4) lz(2) by simp
  have sd: "rot_sim d a" by (rule rot_sim_settles[OF assms(1) d(2)])
  note new = rot_simD[OF sd]
  have copyOut: "copyOutLazySnapshots (rot_dropLazySnapshot p c) = Some (rot_dropLazySnapshot p d)"
    using copy_out_each_dropped[OF d(1)] by (simp add: copyOutLazySnapshots_def)
  let ?B = "rot_slots p c b" and ?len = "t_sliceEnd (t_heap c p) - t_sliceStart (t_heap c p)"
  have slots: "rot_slots p (rot_dropLazySnapshot p d) b = ?B" "rot_copy p ks (rot_dropLazySnapshot p d) = rot_copy p ks c" for ks
    using hp by (simp_all add: rot_slots_def rot_copy_def)
  have vB: "v = rot_copy p ?B c" using v(2) assms(5) b by (simp add: rot_view_def)
  have ring: "t_ring d = ra_ring a" "ra_ring a = t_ring c" using new(2) old(2) by simp_all
  have nil: "remove1 p (t_lazySnapshots d) = []"
  proof -
    have "distinct (t_lazySnapshots d)" using new(1) by (simp add: rot_inv_def)
    then have "set (remove1 p (t_lazySnapshots d)) = {}" using d(3) by simp
    then show ?thesis by simp
  qed
  define c' where "c' = d\<lparr>t_ring := ring_put v t (ra_ring a), t_lazySnapshots := [p],
    t_heap := (t_heap d)(p := (t_heap d p)\<lparr>t_sliceStart := 0, t_sliceEnd := ?len\<rparr>)\<rparr>"
  have run: "Rot_Restore (Some p) t c = Some (True, c')"
    using assms(3-5) copyOut b ring hp slots vB nil v(2)
    by (auto simp: Rot_Restore_def Let_def c'_def upd_rsnap_def rot_dropLazySnapshot_def rot_copy_def)
  have "rot_sim c' (a\<lparr>ra_ring := ring_put v t (ra_ring a)\<rparr>)"
  proof (rule rot_simI)
    have keys: "rg_keys (ring_put v t (ra_ring a)) = Some ?B" by (simp add: ring_put_def Let_def vB rot_copy_def)
    have p: "p < t_next d" using v(1) d(2) by (auto simp: rot_held_def rot_settles_def)
    have "t_cache (t_heap d q) \<Longrightarrow> q < t_next d \<Longrightarrow> q = p" for q using new(1) d(3) unfolding rot_inv_def by blast
    then show "rot_inv c'" using keys p assms(4,5) hp by (simp add: rot_inv_def c'_def)
    show "rot_held c' q \<and> rot_view c' q = u" if "ra_store (a\<lparr>ra_ring := ring_put v t (ra_ring a)\<rparr>) q = Some u" for q u
    proof (cases "q = p")
      case True
      have "take ?len ?B = ?B" by (simp add: rot_slots_def)
      then show ?thesis using that True assms(2,4,5) p keys hp vB
        by (simp add: rot_held_def rot_view_def rot_copy_def c'_def rot_slots_def)
    next
      case False
      have q: "rot_held d q" "rot_view d q = u" using new(5)[of q u] that by auto
      then have "t_keys (t_heap d q) \<noteq> None" using rot_owned[OF new(1) _ _ False] d(3) by blast
      then show ?thesis using q False by (auto simp: rot_held_def rot_view_def rot_copy_def c'_def)
    qed
  qed (use new in \<open>simp_all add: c'_def\<close>)
  then show ?thesis using run by blast
qed

lemma rot_Restore_owned:
  assumes "rot_sim c a" "ra_store a p = Some v" "\<not> ring_refuses (rg_maxSize (ra_ring a)) (gc_toOffset v) t"
    "t_keys (t_heap c p) = Some ks"
  shows "\<exists>c'. Rot_Restore (Some p) t c = Some (True, c') \<and> rot_sim c' (a\<lparr>ra_ring := ring_put v t (ra_ring a)\<rparr>)"
proof -
  note old = rot_simD[OF assms(1)]
  have v: "rot_held c p" "rot_view c p = v" using old(5)[OF assms(2)] by simp_all
  have "rot_copyOut p c = Some c" using assms(4) by (simp add: rot_copyOut_def)
  moreover obtain d where d: "copyOutLazySnapshots c = Some d" "rot_settles c d" "t_lazySnapshots d = []"
    using copyOutLazy_settles[OF old(1)] by blast
  have sd: "rot_sim d a" by (rule rot_sim_settles[OF assms(1) d(2)])
  have p: "rot_held d p" "rot_view d p = v" using rot_simD(5)[OF sd assms(2)] by simp_all
  then obtain ks' where ks': "t_keys (t_heap d p) = Some ks'"
    using rot_owned[OF rot_simD(1)[OF sd], of "Suc p" p] d(3) by auto
  then have "rot_copy p ks' d = v" using p(2) by (simp add: rot_view_def)
  moreover have "t_toOffset (t_heap c p) = gc_toOffset v" using v(2) by auto
  ultimately have "Rot_Restore (Some p) t c = Some (True, d\<lparr>t_ring := ring_put v t (ra_ring a)\<rparr>)"
    using assms(3,4) d(1) ks' old(2) rot_simD(2)[OF sd] by (simp add: Rot_Restore_def)
  then show ?thesis using rot_sim_ring[OF sd d(3)] by blast
qed

lemma rot_Restore_sim:
  assumes "rot_sim c a" "ra_store a p = Some v" "ring_Restore (Some v) t (ra_ring a) = (b, r)"
  shows "\<exists>c'. Rot_Restore (Some p) t c = Some (b, c') \<and> rot_sim c' (a\<lparr>ra_ring := r\<rparr>)"
proof -
  note old = rot_simD[OF assms(1)]
  have v: "rot_held c p" "rot_view c p = v" using old(5)[OF assms(2)] by simp_all
  show ?thesis
  proof (cases "ring_refuses (rg_maxSize (ra_ring a)) (gc_toOffset v) t")
    case True
    have "rot_sim c (a\<lparr>ra_ring := r\<rparr>)" if "r = ra_ring a"
      by (rule rot_sim_same[OF assms(1)]) (simp_all add: old that)
    moreover have "r = ra_ring a" "\<not> b" using True assms(3) by (simp_all add: ring_Restore_def)
    moreover have "Rot_Restore (Some p) t c = Some (False, c)" using True old(2) v(2) by (auto simp: Rot_Restore_def)
    ultimately show ?thesis by simp
  next
    case False
    then have "b" "r = ring_put v t (ra_ring a)" using assms(3) by (auto simp: ring_Restore_def)
    then show ?thesis
      using rot_Restore_lazy[OF assms(1,2) False] rot_Restore_owned[OF assms(1,2) False] v(1)
      by (cases "t_keys (t_heap c p)") (auto simp: rot_held_def)
  qed
qed

lemma rot_Free_sim:
  assumes "rot_sim c a"
  shows "\<exists>c'. Rot_Free c = Some c' \<and> rot_sim c' (a\<lparr>ra_ring := ring_Free (ra_ring a), ra_pending := no_pending\<rparr>)"
proof -
  obtain d where d: "copyOutLazySnapshots c = Some d" "rot_settles c d" "t_lazySnapshots d = []"
    using copyOutLazy_settles[OF rot_simD(1)[OF assms]] by blast
  have sd: "rot_sim d a" by (rule rot_sim_settles[OF assms d(2)])
  from rot_sim_pending[OF rot_sim_ring[OF sd d(3), of "ring_Free (ra_ring a)"], of no_pending] show ?thesis
    using d(1) rot_simD(2)[OF sd] by (simp add: Rot_Free_def)
qed

lemma rot_call_sim:
  assumes "rot_sim c a" "ra_call z x a = Some (r, a')"
  shows "\<exists>c'. rot_call z x c = Some (r, c') \<and> rot_sim c' a'"
proof (cases x)
  case (T_Update keys)
  then show ?thesis using assms(2) rot_Update_sim[OF assms(1), of z keys] rot_simD(2) by (fastforce simp: Let_def)
next
  case T_State
  then show ?thesis using assms rot_simD(2)[OF assms(1)] by auto
next
  case (T_Prepare offsets)
  then show ?thesis using assms rot_simD[OF assms(1)] rot_sim_pending[OF assms(1)] by (auto simp: Rot_PrepareSnapshots_def)
next
  case T_Take
  then show ?thesis using assms rot_simD(3)[OF assms(1)] rot_sim_pending[OF assms(1)]
    by (auto simp: Rot_TakeSnapshots_def split: prod.splits)
next
  case (T_Snapshot from')
  obtain p c' where "Rot_Snapshot from' c = (p, c')" by fastforce
  then show ?thesis using rot_Snapshot_sim[OF assms(1), of from' p c'] assms(2) T_Snapshot by auto
next
  case (T_Restore p t)
  show ?thesis
  proof (cases p)
    case None
    obtain b r1 where r1: "ring_rewind t (t_ring c) = (b, r1)" by fastforce
    then have "rg_keys r1 = rg_keys (t_ring c)" by (auto simp: ring_rewind_def split: if_splits)
    from rot_sim_rewind[OF assms(1) this] show ?thesis
      using assms(2) T_Restore None r1 rot_simD(2)[OF assms(1)] by (auto simp: Rot_Restore_def ring_Restore_def)
  next
    case (Some q)
    then obtain v where v: "ra_store a q = Some v" using assms(2) T_Restore by (auto simp: bind_eq_Some_conv)
    obtain b r1 where r1: "ring_Restore (Some v) t (ra_ring a) = (b, r1)" by fastforce
    then have "r = U_bool b" "a' = a\<lparr>ra_ring := r1\<rparr>" using assms(2) T_Restore Some v by auto
    with v r1 show ?thesis using rot_Restore_sim[OF assms(1)] T_Restore Some by fastforce
  qed
next
  case (T_Merge p q)
  then show ?thesis using assms rot_sim_close[OF assms(1)] by (auto simp: Rot_Merge_def split: if_splits option.splits)
next
  case (T_Split p at)
  then show ?thesis using assms by (auto simp: Rot_Split_def split: if_splits)
next
  case (T_Close p)
  then show ?thesis using assms rot_sim_close[OF assms(1)] by (auto split: if_splits)
next
  case T_Free
  then show ?thesis using rot_Free_sim[OF assms(1)] assms(2) by auto
qed

lemma rot_sim_init: "rot_sim (NewRotatingKVCache M) (ra_init M)"
  by (simp add: rot_sim_def rot_inv_def NewRotatingKVCache_def ra_init_def)

lemma rot_calls_sim:
  "rot_sim c a \<Longrightarrow> ra_calls z xs a = Some (rs, a') \<Longrightarrow> \<exists>c'. rot_calls z xs c = Some (rs, c') \<and> rot_sim c' a'"
proof (induction xs arbitrary: c a rs)
  case (Cons x xs)
  obtain r a1 rs1 where a1: "ra_call z x a = Some (r, a1)" "ra_calls z xs a1 = Some (rs1, a')" "rs = r # rs1"
    using Cons.prems(2) by (auto simp: bind_eq_Some_conv)
  obtain c1 where "rot_call z x c = Some (r, c1)" "rot_sim c1 a1" using rot_call_sim[OF Cons.prems(1) a1(1)] by blast
  then show ?case using Cons.IH[OF _ a1(2), of c1] a1(3) by (auto simp: bind_eq_Some_conv)
qed simp

section \<open>Properties\<close>

text \<open>
  C11. The sliding-window cache behaves towards every client like one that copies each snapshot when it is
  taken: any sequence of calls that the abstract layer answers (batches and single tokens with captures of
  scheduled offsets, snapshots, rewinds, restores of own lazy and of copied snapshots, \<open>Merge\<close>, \<open>Split\<close>,
  \<open>Close\<close> and \<open>Free\<close>) is answered without a panic and with the same replies, among them the slots that the
  attention reads, and every snapshot still owned stands for what it was taken of.
\<close>

theorem rotating_refines:
  assumes "ra_calls z calls (ra_init M) = Some (replies, a)"
  shows "\<exists>c. rot_calls z calls (NewRotatingKVCache M) = Some (replies, c) \<and>
    (\<forall>p v. ra_store a p = Some v \<longrightarrow> rot_view c p = v) \<and> t_ring c = ra_ring a"
proof -
  obtain c where c: "rot_calls z calls (NewRotatingKVCache M) = Some (replies, c)" "rot_sim c a"
    using rot_calls_sim[OF rot_sim_init assms] by blast
  then show ?thesis using rot_simD[OF c(2)] by blast
qed

text \<open>
  A window of two slots: the snapshot of offset 2, taken inside a batch of three, is put back after the
  batch and another one.
\<close>

abbreviation example_calls :: "nat rot_cmd list" where
  "example_calls \<equiv> [T_Prepare [2], T_Update [1, 2, 3], T_Take, T_Update [4, 5], T_Restore (Some 0) 2, T_State]"

theorem rotating_refines_witness:
  "\<exists>c. rot_calls (0::nat) example_calls (NewRotatingKVCache 2) =
    Some ([U_done, U_history [1, 2, 3], U_snaps [Some 0], U_history [3, 4, 5], U_bool True, U_state (Some [1, 2])], c)"
proof -
  note defs = ra_init_def new_ring_def no_pending_def ra_update_def ra_capture_def captureReached_def ring_Snapshot_def ring_State_def
    ring_write_def ring_concat_def linearize_def batched_def ra_captureEnd_def ring_window_copy_def window_slots_def ra_new_def
    scheduledIn_def pd_offsets_def pd_prepare_def pd_take_def ring_history_def ring_Restore_def ring_refuses_def ring_put_def Let_def
  let ?R = "\<lambda>b off idx. \<lparr>rg_keys = Some b, rg_offset = off, rg_step = 256, rg_maxSize = 2, rg_idx = idx\<rparr> :: nat ring"
  let ?S = "Map.empty(0 \<mapsto> \<lparr>gc_keys = [1, 2], gc_fromOffset = 0, gc_toOffset = 2, gc_idx = 2\<rparr>) :: nat \<Rightarrow> nat ringCopy option"
  let ?A = "\<lambda>r ss. \<lparr>ra_ring = r, ra_pending = \<lparr>pd_slots = ss, pd_base = 2\<rparr>, ra_store = ?S, ra_next = 1\<rparr>"
  have "ra_calls 0 [T_Prepare [2], T_Update [1, 2, 3]] (ra_init 2) =
      Some ([U_done, U_history [1, 2, 3]], ?A (?R [1, 2, 3] 3 3) (Some [(2, Some 0)]))"
    by (simp add: defs)
  moreover have "ra_calls 0 [T_Take, T_Update [4, 5]] (?A (?R [1, 2, 3] 3 3) (Some [(2, Some 0)])) =
      Some ([U_snaps [Some 0], U_history [3, 4, 5]], ?A (?R [3, 4, 5] 5 3) None)"
    by (simp add: defs)
  moreover have "ra_calls 0 [T_Restore (Some 0) 2, T_State] (?A (?R [3, 4, 5] 5 3) None) =
      Some ([U_bool True, U_state (Some [1, 2])], ?A (?R [1, 2] 2 2) None)"
    by (simp add: defs)
  ultimately have "ra_calls 0 example_calls (ra_init 2) =
      Some ([U_done, U_history [1, 2, 3], U_snaps [Some 0], U_history [3, 4, 5], U_bool True, U_state (Some [1, 2])],
        ?A (?R [1, 2] 2 2) None)"
    by (auto simp: bind_eq_Some_conv simp del: ra_call.simps)
  from rotating_refines[OF this] show ?thesis by blast
qed

end
