(* ===== verification/Spec2Isabelle.thy ===== *)
theory Spec2Isabelle
  imports Thinking ModelRef Qwen3 Qwen3VL Qwen35 Nemotron Olmo3Think Cogito Ministral
    ModelCreate AnthropicRequest Harmony KVCache ModelLayers SlidingAttention RotatingCache
begin

text \<open>
  A model of ollama (a server that runs language models) and of what makes its own logic correct. The
  program is Go; this library translates the parts of it that decide something themselves, and leaves
  out what only moves bytes between files, sockets, devices and processes.

  \<^bold>\<open>The program and the parts modelled.\<close> A user creates a model from a \<^verbatim>\<open>Modelfile\<close> and refers to
  models by name. A request names a model, carries messages, tools and a thinking control; it may come
  in through the Anthropic interface, which converts it. The runner evaluates the prompt, and keeps the
  state of the model's layers for the prompts to come. What the model writes is a stream of text in a
  format that depends on the model; a parser separates it into content, thinking and tool calls, however
  the stream is cut into chunks, and a converter turns the result into the events of the interface.

  \<^item> \<open>Texts.\<close> Go strings are lists of bytes (characters of HOL), texts that the code reads rune by rune are
    lists of runes. \<open>GoStrings\<close> models the functions of \<^verbatim>\<open>strings\<close>, \<^verbatim>\<open>unicode\<close> and \<^verbatim>\<open>path/filepath\<close> that the
    code calls, \<open>GoSpace\<close> trimming of Unicode white space in UTF-8 texts, \<open>GoUtf8\<close> rune boundaries,
    \<open>GoRunes\<close> runes. They also hold the collections of rewrite rules the other theories share.
  \<^item> \<open>Names.\<close> \<open>ModelName\<close> is \<^verbatim>\<open>types/model/name.go\<close>, \<open>ModelRef\<close> is \<^verbatim>\<open>internal/modelref/modelref.go\<close>, \<open>ThinkValue\<close>
    is \<^verbatim>\<open>types/model/thinking.go\<close>.
  \<^item> \<open>Creating a model.\<close> \<open>Modelfile\<close> is the printer and the rune state machine of \<^verbatim>\<open>parser/parser.go\<close>,
    \<open>ModelParams\<close> the options of \<^verbatim>\<open>api/types.go\<close>, \<open>ModelCreate\<close> the step from commands to a create request.
  \<^item> \<open>Output parsers.\<close> \<open>Thinking\<close> is \<^verbatim>\<open>thinking/parser.go\<close>; \<open>Qwen3\<close>, \<open>Qwen3VL\<close>, \<open>Qwen3Coder\<close>, \<open>Qwen35\<close>,
    \<open>Olmo3Think\<close>, \<open>Nemotron\<close>, \<open>DeepSeek3\<close>, \<open>Cogito\<close> and \<open>Ministral\<close> are the files of these names under
    \<^verbatim>\<open>model/parsers\<close>; \<open>HarmonyNames\<close> and \<open>Harmony\<close> are \<^verbatim>\<open>harmony/harmonyparser.go\<close>. \<open>ParserCommon\<close> has their
    shared helpers (\<^verbatim>\<open>model/parsers/parsers.go\<close>). A parser is a record with the fields of the struct; \<open>eat\<close> is
    one step on its buffer, and the loop around it is \<open>drain\<close> of \<open>Streaming\<close>.
  \<^item> \<open>The Anthropic interface.\<close> \<open>AnthropicRequest\<close> and \<open>AnthropicStream\<close> are the two directions of
    \<^verbatim>\<open>anthropic/anthropic.go\<close>.
  \<^item> \<open>The prompt cache.\<close> \<open>CacheTrie\<close> is \<^verbatim>\<open>mlxrunner/cache_trie.go\<close>; \<open>CacheLayers\<close>, \<open>RecurrentCache\<close>,
    \<open>KVCache\<close>, \<open>RotatingBuffer\<close> (the ring of a sliding-window layer) and \<open>RotatingCache\<close> (its lazy snapshots)
    are \<^verbatim>\<open>mlxrunner/cache\<close>; \<open>PrefixCache\<close> is \<^verbatim>\<open>mlxrunner/prefix_cache.go\<close>, and \<open>CacheCovers\<close>,
    \<open>PrefixCacheSafe\<close>, \<open>PrefixCacheSession\<close> and \<open>PrefixCacheServe\<close> show what it promises; \<open>MediaKeys\<close> is the
    part of \<^verbatim>\<open>mlxrunner/media.go\<close> and \<^verbatim>\<open>mlxrunner/pipeline.go\<close> that decides where a prompt may be cut.
    \<open>ModelLayers\<close> puts layers of the three kinds together, as the models do.
  \<^item> \<open>Attention.\<close> \<open>AttentionMask\<close> is \<^verbatim>\<open>mlxrunner/nn/sdpa.go\<close>: masks as compositions of rectangles and arrays,
    and the choice of a kernel for them. \<open>SlidingAttention\<close> is the applier of \<^verbatim>\<open>mlxrunner/cache/rotating.go\<close>,
    which turns a mask over positions into one over the slots of the ring.

  \<^bold>\<open>How state and errors are modelled.\<close> A struct is a \<^verbatim>\<open>record\<close>, a method that changes its receiver
  returns it updated, an enumeration is a \<^verbatim>\<open>datatype\<close>. An error is a value of a sum type, and so is a panic
  where the code can have one. Nodes of the trie, which the code shares by pointers, live in a store that
  maps references to nodes. Integers whose width matters (ids of media, the last use of a node, hashes) are
  words; lengths and offsets are natural numbers or integers.

  A loop that ends because of what is in its buffer is a \<^verbatim>\<open>partial_function\<close> in the option type: not
  returning is the value \<open>None\<close>, and that it returns is a theorem. There is no fuel anywhere. Other loops are
  structural or have a measure.

  \<^bold>\<open>Interfaces.\<close> \<open>event_loop\<close> (\<open>Streaming\<close>) is any parser with a measure that every step lowers; it gives that
  the loop returns. \<open>chunked\<close> adds that a step on a longer buffer says what the shorter one said, and
  gives independence of the chunks; \<open>streaming_parser\<close> and \<open>tag_scanner\<close> are its two special forms, and
  \<open>call_numbering\<close> is the counter of tool calls. Every parser interprets those that fit it. \<open>cache_layer\<close>
  (\<open>CacheLayers\<close>) is the contract of the Go interface \<^verbatim>\<open>Cache\<close>: \<open>holds\<close> says what a layer holds, \<open>covers\<close>
  what a snapshot stands for. \<open>capturing_layer\<close> (\<open>PrefixCacheServe\<close>) adds forward passes and captures during
  a prefill. The key-value layer, the sliding-window layer and the recurrent layer interpret both, and the
  prefix cache is proved correct for any list of layers that do. A model has layers of several kinds, so
  \<open>ModelLayers\<close> lifts each of them to a sum type and interprets the contract for the sum.

  \<^bold>\<open>What the lemmas show.\<close>

  \<^item> Of the output parsers: they return on every input; what they return does not depend on the chunks, or
    is a function of the whole text that is written down without a buffer; what a model writes in the
    format of a call is read back as exactly this call; calls are numbered without a gap.
  \<^item> Of harmony: in addition, the names of the user's tools come back unchanged.
  \<^item> Of names: printing and parsing are inverse to each other, and a path made from a valid name stays
    below its directory.
  \<^item> Of the Modelfile: a printed file is parsed back, parsed commands are well-formed, parser errors carry the
    right line, parameters keep their types and values, draft files are not model files.
  \<^item> Of the Anthropic interface: converting messages agrees with a reading block by block; the events of a
    stream follow the protocol and put together give the response that is not streamed.
  \<^item> Of the prompt cache: each operation of the trie keeps its shape and the byte counter; the layers answer as
    layers that copy every snapshot would; after any served requests a new one resumes from the state of
    exactly its own first keys; serving never panics and returns; keys tell prompts apart; an item that must
    not be cut is evaluated in one pass. For a model of mixed layers this is stated without the locale.
  \<^item> Of attention: composed masks are sums of arrays, the call decided on means the same as the array, and
    a layer that keeps only a window of slots sees what it would see over the whole history behind a
    mask for the window.

  \<^bold>\<open>Parameters.\<close> Code outside the repository is an argument of the definitions that use it:
  \<^verbatim>\<open>json.Unmarshal\<close> and \<^verbatim>\<open>json.Marshal\<close>, \<^verbatim>\<open>base64\<close>, the Unicode tables beyond ASCII, the file system
  (\<^verbatim>\<open>filepath.Glob\<close>, \<^verbatim>\<open>EvalSymlinks\<close>, the digests of files), \<^verbatim>\<open>time.Now\<close>, the XML decoder of a qwen3-coder call,
  and the arrays of the MLX library, which are lists along the position (a mask is a function of the cell, a
  value of an array one of a type with addition). What is relied on is a named
  hypothesis of the theorem, with a witness in which the parameter is a concrete function.

  \<^bold>\<open>Not modelled.\<close> HTTP handlers, clients, proxies and middleware; the model store and transfers; the
  scheduler's goroutines; the llama runner's process; the MLX bindings, kernels, sampling and
  speculative decoding; conversion and quantization of tensors; file formats; the command line, the line
  editor, progress bars and the desktop application; prompt templates and renderers. They are input and
  output, arithmetic on tensors, or text building over packages outside the repository. Within the parts that
  are modelled: the logging, \<^verbatim>\<open>dumpTree\<close>, the regular expression and XML of \<^verbatim>\<open>parseToolCall\<close> of qwen3-coder, the
  hashing of files for a create request, the web search client and the token estimates of
  \<^verbatim>\<open>anthropic.go\<close>, the encoding of media features and the decoding of tokens after the prefill, the attention
  kernel and the memo of masks within a forward pass, and the types of floating-point numbers. The
  remaining output parsers and the OpenAI interface follow the patterns above with other formats.
\<close>

end
